(* ===== verification/Prelude.thy ===== *)
theory Prelude
  imports Main "HOL-Library.Word"
begin

text \<open>
  Shared vocabulary of the development.

  \<^item> \<^emph>\<open>Computations.\<close> A C++ function is modelled as a value of type \<open>'a comp\<close>:
    \<open>None\<close> when it never returns, \<open>Some (Inl e)\<close> when it runs into the undefined behaviour
    \<open>e\<close>, \<open>Some (Inr x)\<close> when it returns \<open>x\<close>. \<open>ret\<close>, \<open>undef\<close> and
    \<open>seqc\<close> are return, failure and sequencing.
  \<^item> \<^emph>\<open>Vectors.\<close> \<open>std::vector\<close> and \<open>std::array\<close> of fixed length: a length and a
    content function; reading or writing out of range is undefined behaviour.
  \<^item> \<^emph>\<open>Pointers\<close> into such a vector: \<open>None\<close> is \<open>nullptr\<close>, \<open>Some i\<close> the address
    of element \<open>i\<close>.
  \<^item> Lemmas on machine words that several components use.
\<close>

unbundle bit_operations_syntax

section \<open>Computations\<close>

datatype undefined_behaviour =
    OutOfBounds          \<comment> \<open>element access past the end of a vector or array\<close>
  | NullDereference      \<comment> \<open>member access through \<open>nullptr\<close>\<close>
  | ShiftTooWide         \<comment> \<open>shift by at least the width of the left operand\<close>
  | DeadObject           \<comment> \<open>use of storage that holds no live object\<close>

type_synonym 'a comp = "(undefined_behaviour + 'a) option"

definition ret :: "'a \<Rightarrow> 'a comp" where
  "ret x = Some (Inr x)"

definition undef :: "undefined_behaviour \<Rightarrow> 'a comp" where
  "undef e = Some (Inl e)"

definition seqc :: "'a comp \<Rightarrow> ('a \<Rightarrow> 'b comp) \<Rightarrow> 'b comp" where
  "seqc m f = Option.bind m (\<lambda>r. case r of Inl e \<Rightarrow> Some (Inl e) | Inr x \<Rightarrow> f x)"

section \<open>Vectors and pointers\<close>

datatype 'a vector = Vector (vsize: nat) (vat: "nat \<Rightarrow> 'a")

definition vreplicate :: "nat \<Rightarrow> 'a \<Rightarrow> 'a vector" where
  "vreplicate n x = Vector n (\<lambda>_. x)"

definition vupd :: "'a vector \<Rightarrow> nat \<Rightarrow> 'a \<Rightarrow> 'a vector" where
  "vupd v i x = Vector (vsize v) ((vat v)(i := x))"

definition vget :: "'a vector \<Rightarrow> nat \<Rightarrow> 'a comp" where
  "vget v i = (if i < vsize v then ret (vat v i) else undef OutOfBounds)"

definition vset :: "'a vector \<Rightarrow> nat \<Rightarrow> 'a \<Rightarrow> 'a vector comp" where
  "vset v i x = (if i < vsize v then ret (vupd v i x) else undef OutOfBounds)"

type_synonym ptr = "nat option"

definition deref :: "'a vector \<Rightarrow> ptr \<Rightarrow> 'a comp" where
  "deref v p = (case p of None \<Rightarrow> undef NullDereference | Some i \<Rightarrow> vget v i)"

definition assign :: "'a vector \<Rightarrow> ptr \<Rightarrow> ('a \<Rightarrow> 'a) \<Rightarrow> 'a vector comp" where
  "assign v p f =
     (case p of None \<Rightarrow> undef NullDereference
      | Some i \<Rightarrow> seqc (vget v i) (\<lambda>x. vset v i (f x)))"

section \<open>Machine words\<close>

type_synonym u8 = "8 word"
type_synonym u16 = "16 word"
type_synonym u32 = "32 word"
type_synonym u64 = "64 word"

definition UINT32_MAX :: u32 where
  "UINT32_MAX = 0xFFFFFFFF"

text \<open>\<open>std::countl_zero\<close> and \<open>std::countr_zero\<close> on 64-bit operands; both give 64 on 0.\<close>

definition countr_zero :: "u64 \<Rightarrow> nat" where
  "countr_zero w = length (takeWhile (\<lambda>i. \<not> bit w i) [0..<64])"

definition countl_zero :: "u64 \<Rightarrow> nat" where
  "countl_zero w = length (takeWhile (\<lambda>i. \<not> bit w i) (rev [0..<64]))"

section \<open>Lemmas on computations\<close>

lemma ret_eq_iff [simp]: "ret x = ret y \<longleftrightarrow> x = y"
  by (simp add: ret_def)

lemma undef_eq_iff [simp]: "undef x = undef y \<longleftrightarrow> x = y"
  by (simp add: undef_def)

lemma ret_neq_undef [simp]: "ret x \<noteq> undef e" "undef e \<noteq> ret x"
  by (simp_all add: ret_def undef_def)

lemma ret_neq_None [simp]: "ret x \<noteq> None" "None \<noteq> ret x" "undef e \<noteq> None" "None \<noteq> undef e"
  by (simp_all add: ret_def undef_def)

lemma seqc_ret [simp]: "seqc (ret x) f = f x"
  by (simp add: seqc_def ret_def)

lemma seqc_undef [simp]: "seqc (undef e) f = undef e"
  by (simp add: seqc_def undef_def)

lemma seqc_None [simp]: "seqc None f = None"
  by (simp add: seqc_def)

lemma comp_cases [case_names returns undefined diverges, cases type]:
  obtains x where "m = ret x" | e where "m = undef e" | "m = None"
  by (cases m; cases "the m") (auto simp: ret_def undef_def)

lemma seqc_ret_right [simp]: "seqc m ret = m"
  by (cases m rule: comp_cases) auto

lemma seqc_assoc: "seqc (seqc m f) g = seqc m (\<lambda>x. seqc (f x) g)"
  by (cases m rule: comp_cases) auto

lemma seqc_eq_ret_iff: "seqc m f = ret y \<longleftrightarrow> (\<exists>x. m = ret x \<and> f x = ret y)"
  by (cases m rule: comp_cases) auto

lemma seqc_if: "seqc (if b then m else n) f = (if b then seqc m f else seqc n f)"
  by simp

lemma seqc_mono [partial_function_mono]:
  assumes mf: "mono_option B" and mg: "\<And>y. mono_option (C y)"
  shows "mono_option (\<lambda>f. seqc (B f) (\<lambda>y. C y f))"
proof -
  have "mono_option (\<lambda>f. case r of Inl e \<Rightarrow> Some (Inl e) | Inr x \<Rightarrow> C x f)" for r
    using mg by (cases r) (simp_all add: partial_function_mono)
  then show ?thesis
    unfolding seqc_def using mf by (intro bind_mono)
qed

lemma ret_in_range [simp]: "i < vsize v \<Longrightarrow> vget v i = ret (vat v i)"
  by (simp add: vget_def)

lemma vget_out_of_range [simp]: "\<not> i < vsize v \<Longrightarrow> vget v i = undef OutOfBounds"
  by (simp add: vget_def)

lemma vset_in_range [simp]: "i < vsize v \<Longrightarrow> vset v i x = ret (vupd v i x)"
  by (simp add: vset_def)

lemma vset_out_of_range [simp]: "\<not> i < vsize v \<Longrightarrow> vset v i x = undef OutOfBounds"
  by (simp add: vset_def)

lemma vsize_vupd [simp]: "vsize (vupd v i x) = vsize v"
  by (simp add: vupd_def)

lemma vat_vupd: "vat (vupd v i x) j = (if j = i then x else vat v j)"
  by (simp add: vupd_def)

lemma vat_vupd_same [simp]: "vat (vupd v i x) i = x"
  by (simp add: vupd_def)

lemma vat_vupd_other [simp]: "j \<noteq> i \<Longrightarrow> vat (vupd v i x) j = vat v j"
  by (simp add: vupd_def)

lemma vsize_vreplicate [simp]: "vsize (vreplicate n x) = n"
  by (simp add: vreplicate_def)

lemma vat_vreplicate [simp]: "vat (vreplicate n x) i = x"
  by (simp add: vreplicate_def)

lemma vupd_vupd_same [simp]: "vupd (vupd v i x) i y = vupd v i y"
  by (simp add: vupd_def)

lemma vupd_vat_id [simp]: "vupd v i (vat v i) = v"
  by (cases v) (simp add: vupd_def)

lemma deref_None [simp]: "deref v None = undef NullDereference"
  by (simp add: deref_def)

lemma deref_Some [simp]: "deref v (Some i) = vget v i"
  by (simp add: deref_def)

lemma assign_None [simp]: "assign v None f = undef NullDereference"
  by (simp add: assign_def)

lemma assign_Some [simp]: "i < vsize v \<Longrightarrow> assign v (Some i) f = ret (vupd v i (f (vat v i)))"
  by (simp add: assign_def)

section \<open>Lemmas on machine words\<close>

lemma unat_UINT32_MAX [simp]: "unat UINT32_MAX = 4294967295"
  by (simp add: UINT32_MAX_def)

lemma bit_less_64: "bit (w :: u64) i \<Longrightarrow> i < 64"
  by (drule bit_imp_le_length) simp

lemma word64_neq_0_iff: "(w :: u64) \<noteq> 0 \<longleftrightarrow> (\<exists>i<64. bit w i)"
proof
  assume "w \<noteq> 0"
  then obtain i where "bit w i" by (auto simp: bit_eq_iff)
  then show "\<exists>i<64. bit w i" using bit_less_64 by blast
qed auto

lemma bit_or_push [simp]:
  "bit ((w :: u64) OR 2 ^ n) i \<longleftrightarrow> bit w i \<or> (i = n \<and> n < 64)"
  by (auto simp: bit_simps)

lemma bit_and_not_push [simp]:
  "n < 64 \<Longrightarrow> bit ((w :: u64) AND NOT (2 ^ n)) i \<longleftrightarrow> bit w i \<and> i \<noteq> n"
  using bit_less_64 [of w i] by (auto simp: bit_simps)

lemma countr_zero_spec:
  assumes "w \<noteq> 0"
  shows "countr_zero w < 64" "bit w (countr_zero w)" "\<And>i. bit w i \<Longrightarrow> countr_zero w \<le> i"
proof -
  let ?P = "\<lambda>i. \<not> bit w i"
  obtain i where i: "i < 64" "bit w i" using assms word64_neq_0_iff by blast
  have "takeWhile ?P [0..<64] \<noteq> [0..<64]"
    using i by (auto simp: takeWhile_eq_all_conv)
  moreover have "length (takeWhile ?P [0..<64]) \<le> 64"
    using length_takeWhile_le [of ?P "[0..<64]"] by simp
  ultimately show lt: "countr_zero w < 64"
    unfolding countr_zero_def
    by (metis le_neq_implies_less length_upt minus_nat.diff_0 takeWhile_eq_take take_all_iff)
  show "bit w (countr_zero w)"
    using nth_length_takeWhile [of ?P "[0..<64]"] lt by (simp add: countr_zero_def)
  show "countr_zero w \<le> j" if "bit w j" for j
  proof (rule ccontr)
    assume "\<not> countr_zero w \<le> j"
    then have "j < length (takeWhile ?P [0..<64])" by (simp add: countr_zero_def)
    then have "?P ([0..<64] ! j)" "j < 64"
      using takeWhile_nth [of j ?P "[0..<64]"] nth_mem set_takeWhileD lt
      by (fastforce simp: countr_zero_def)+
    then show False using that by simp
  qed
qed

lemma countl_zero_spec:
  assumes "w \<noteq> 0"
  shows "countl_zero w < 64" "bit w (63 - countl_zero w)" "\<And>i. bit w i \<Longrightarrow> i \<le> 63 - countl_zero w"
proof -
  let ?P = "\<lambda>i. \<not> bit w i"
  let ?xs = "rev [0..<64::nat]"
  have nth: "?xs ! j = 63 - j" if "j < 64" for j
    using that by (simp add: rev_nth)
  obtain i where i: "i < 64" "bit w i" using assms word64_neq_0_iff by blast
  have "takeWhile ?P ?xs \<noteq> ?xs"
    using i by (auto simp: takeWhile_eq_all_conv)
  moreover have "length (takeWhile ?P ?xs) \<le> 64"
    using length_takeWhile_le [of ?P ?xs] by simp
  ultimately show lt: "countl_zero w < 64"
    unfolding countl_zero_def
    by (metis le_neq_implies_less length_rev length_upt minus_nat.diff_0 takeWhile_eq_take take_all_iff)
  show "bit w (63 - countl_zero w)"
    using nth_length_takeWhile [of ?P ?xs] lt nth [OF lt] by (simp add: countl_zero_def)
  show "k \<le> 63 - countl_zero w" if "bit w k" for k
  proof (rule ccontr)
    assume "\<not> k \<le> 63 - countl_zero w"
    moreover have "k < 64" using that by (rule bit_less_64)
    ultimately have "63 - k < length (takeWhile ?P ?xs)" using lt by (simp add: countl_zero_def)
    then have "?P (?xs ! (63 - k))"
      using takeWhile_nth [of "63 - k" ?P ?xs] nth_mem set_takeWhileD by fastforce
    then show False using that nth [of "63 - k"] \<open>k < 64\<close> by simp
  qed
qed

text \<open>Widening keeps the value, narrowing keeps the low bits.\<close>

lemma unat_ucast_up:
  "LENGTH('a) \<le> LENGTH('b) \<Longrightarrow> unat (ucast (x :: 'a::len word) :: 'b::len word) = unat x"
proof -
  assume le: "LENGTH('a) \<le> LENGTH('b)"
  have "unat x < 2 ^ LENGTH('a)" by simp
  also have "\<dots> \<le> 2 ^ LENGTH('b)" using le by simp
  finally show ?thesis
    by (simp add: unsigned_ucast_eq unsigned_take_bit_eq take_bit_nat_eq_self)
qed

lemma unat_ucast_31_64 [simp]: "unat (ucast (x :: 31 word) :: u64) = unat x"
  by (rule unat_ucast_up) simp

lemma unat_ucast_31_32 [simp]: "unat (ucast (x :: 31 word) :: u32) = unat x"
  by (rule unat_ucast_up) simp

lemma unat_ucast_32_64 [simp]: "unat (ucast (x :: u32) :: u64) = unat x"
  by (rule unat_ucast_up) simp

lemma unat_ucast_32_31: "unat (ucast (x :: u32) :: 31 word) = unat x mod 2 ^ 31"
  by (simp add: unsigned_ucast_eq take_bit_eq_mod unsigned_take_bit_eq)

lemma unat_31_less: "unat (x :: 31 word) < 2147483648"
  using unsigned_less [of x] by simp

lemma unat_32_less: "unat (x :: u32) < 4294967296"
  using unsigned_less [of x] by simp

end
