(* ===== verification/SPSCQueue.thy ===== *)
theory SPSCQueue
  imports Prelude
begin

text \<open>
  The ring buffer of \<^verbatim>\<open>include/SPSCQueue.h\<close>, one call at a time (the interleaving of the two
  threads is in \<open>SPSCConcurrent\<close>). Cursors are 64-bit and never reset; a slot of the ring is
  \<open>None\<close> while it is raw storage and \<open>Some v\<close> while it holds a constructed object. The
  interface locale \<open>bounded_fifo\<close> is what the feed handler and the matching engine use.
\<close>

section \<open>Model\<close>

record 'a SPSCQueue =
  capacity :: u64
  index_mask :: u64
  ring :: "'a option vector"
  push_cursor :: u64
  pop_cursor :: u64
  push_cursor_cached :: u64
  pop_cursor_cached :: u64

definition SPSCQueue_new :: "u64 \<Rightarrow> 'a SPSCQueue" where
  "SPSCQueue_new cap =
     \<lparr>capacity = cap, index_mask = (if cap > 0 then cap - 1 else 0),
      ring = vreplicate (unat cap) None,
      push_cursor = 0, pop_cursor = 0, push_cursor_cached = 0, pop_cursor_cached = 0\<rparr>"

text \<open>The assertion of the constructor, compiled out under \<open>NDEBUG\<close>.\<close>

definition has_single_bit :: "u64 \<Rightarrow> bool" where
  "has_single_bit c \<longleftrightarrow> (\<exists>k<64. c = push_bit k 1)"

definition q_size :: "'a SPSCQueue \<Rightarrow> u64" where
  "q_size q = push_cursor q - pop_cursor q"

definition q_empty :: "'a SPSCQueue \<Rightarrow> bool" where
  "q_empty q \<longleftrightarrow> q_size q = 0"

definition q_full :: "'a SPSCQueue \<Rightarrow> bool" where
  "q_full q \<longleftrightarrow> q_size q = capacity q"

definition full_at :: "'a SPSCQueue \<Rightarrow> u64 \<Rightarrow> u64 \<Rightarrow> bool" where
  "full_at q pushc popc \<longleftrightarrow> pushc - popc \<ge> capacity q"

definition empty_at :: "u64 \<Rightarrow> u64 \<Rightarrow> bool" where
  "empty_at pushc popc \<longleftrightarrow> pushc = popc"

definition push :: "'a \<Rightarrow> 'a SPSCQueue \<Rightarrow> (bool \<times> 'a SPSCQueue) comp" where
  "push v q =
     (if capacity q = 0 then ret (False, q)
      else
        let pushc = push_cursor q;
            reload = full_at q pushc (pop_cursor_cached q);
            q = (if reload then q\<lparr>pop_cursor_cached := pop_cursor q\<rparr> else q)
        in if reload \<and> full_at q pushc (pop_cursor_cached q) then ret (False, q)
           else
             let idx = pushc AND index_mask q in
             seqc (vset (ring q) (unat idx) (Some v)) (\<lambda>r.
             ret (True, q\<lparr>ring := r, push_cursor := pushc + 1\<rparr>)))"

definition pop :: "'a SPSCQueue \<Rightarrow> ('a option \<times> 'a SPSCQueue) comp" where
  "pop q =
     (let popc = pop_cursor q;
          reload = empty_at (push_cursor_cached q) popc;
          q = (if reload then q\<lparr>push_cursor_cached := push_cursor q\<rparr> else q)
      in if reload \<and> empty_at (push_cursor_cached q) popc then ret (None, q)
         else
           let idx = popc AND index_mask q in
           seqc (vget (ring q) (unat idx)) (\<lambda>slot.
           case slot of
             None \<Rightarrow> undef DeadObject
           | Some v \<Rightarrow>
               seqc (vset (ring q) (unat idx) None) (\<lambda>r.
               ret (Some v, q\<lparr>ring := r, pop_cursor := popc + 1\<rparr>))))"

text \<open>The destructor: destroy what is still queued, oldest first. It yields the destroyed objects.\<close>

function destroy :: "'a SPSCQueue \<Rightarrow> ('a list \<times> 'a SPSCQueue) comp" where
  "destroy q =
     (if q_empty q then ret ([], q)
      else
        let idx = pop_cursor q AND index_mask q in
        seqc (vget (ring q) (unat idx)) (\<lambda>slot.
        case slot of
          None \<Rightarrow> undef DeadObject
        | Some v \<Rightarrow>
            seqc (vset (ring q) (unat idx) None) (\<lambda>r.
            seqc (destroy (q\<lparr>ring := r, pop_cursor := pop_cursor q + 1\<rparr>)) (\<lambda>(vs, q).
            ret (v # vs, q)))))"
  by pat_completeness auto

termination
proof (relation "measure (\<lambda>q. unat (push_cursor q - pop_cursor q))")
  fix q :: "'a SPSCQueue" and r :: "'a option vector"
  assume "\<not> q_empty q"
  then have "push_cursor q - pop_cursor q \<noteq> 0" by (simp add: q_empty_def q_size_def)
  then have "unat (push_cursor q - pop_cursor q - 1) < unat (push_cursor q - pop_cursor q)"
    by (rule measure_unat)
  then show "(q\<lparr>ring := r, pop_cursor := pop_cursor q + 1\<rparr>, q) \<in> measure (\<lambda>q. unat (push_cursor q - pop_cursor q))"
    by (simp add: diff_diff_eq)
qed simp

declare destroy.simps [simp del]

section \<open>Abstraction and invariant\<close>

definition slot_of :: "'a SPSCQueue \<Rightarrow> u64 \<Rightarrow> nat" where
  "slot_of q c = unat (c AND index_mask q)"

definition q_contents :: "'a SPSCQueue \<Rightarrow> 'a list" where
  "q_contents q =
     map (\<lambda>j. the (vat (ring q) (slot_of q (pop_cursor q + of_nat j)))) [0..<unat (q_size q)]"

definition q_shape :: "'a SPSCQueue \<Rightarrow> bool" where
  "q_shape q \<longleftrightarrow> has_single_bit (capacity q) \<and> index_mask q = capacity q - 1 \<and>
     vsize (ring q) = unat (capacity q)"

text \<open>Exactly the slots between the two cursors hold objects.\<close>

definition ring_ok :: "'a SPSCQueue \<Rightarrow> bool" where
  "ring_ok q \<longleftrightarrow> q_shape q \<and> q_size q \<le> capacity q \<and>
     (\<forall>j<unat (capacity q). vat (ring q) (slot_of q (pop_cursor q + of_nat j)) \<noteq> None \<longleftrightarrow> j < unat (q_size q))"

definition q_inv :: "'a SPSCQueue \<Rightarrow> bool" where
  "q_inv q \<longleftrightarrow>
     ring_ok q \<and>
     unat (push_cursor_cached q - pop_cursor q) \<le> unat (q_size q) \<and>
     unat (push_cursor q - pop_cursor_cached q) \<le> unat (capacity q) \<and>
     unat (q_size q) \<le> unat (push_cursor q - pop_cursor_cached q)"

section \<open>The interface: a bounded first-in first-out queue\<close>

locale bounded_fifo =
  fixes enq :: "'a \<Rightarrow> 'q \<Rightarrow> (bool \<times> 'q) comp"
    and deq :: "'q \<Rightarrow> ('a option \<times> 'q) comp"
    and contents :: "'q \<Rightarrow> 'a list"
    and bound :: "'q \<Rightarrow> nat"
    and invar :: "'q \<Rightarrow> bool"
  assumes enq_room: "invar q \<Longrightarrow> length (contents q) < bound q \<Longrightarrow>
        \<exists>q'. enq v q = ret (True, q') \<and> invar q' \<and> contents q' = contents q @ [v] \<and> bound q' = bound q"
    and enq_full: "invar q \<Longrightarrow> \<not> length (contents q) < bound q \<Longrightarrow>
        \<exists>q'. enq v q = ret (False, q') \<and> invar q' \<and> contents q' = contents q \<and> bound q' = bound q"
    and deq_empty: "invar q \<Longrightarrow> contents q = [] \<Longrightarrow>
        \<exists>q'. deq q = ret (None, q') \<and> invar q' \<and> contents q' = [] \<and> bound q' = bound q"
    and deq_some: "invar q \<Longrightarrow> contents q = x # xs \<Longrightarrow>
        \<exists>q'. deq q = ret (Some x, q') \<and> invar q' \<and> contents q' = xs \<and> bound q' = bound q"
    and contents_bound: "invar q \<Longrightarrow> length (contents q) \<le> bound q"
begin

lemma enq_total:
  "invar q \<Longrightarrow> \<exists>q'. enq v q = ret (length (contents q) < bound q, q') \<and> invar q' \<and> bound q' = bound q \<and>
     contents q' = contents q @ (if length (contents q) < bound q then [v] else [])"
  using enq_room [of q v] enq_full [of q v] by (cases "length (contents q) < bound q") auto

lemma deq_total:
  "invar q \<Longrightarrow> \<exists>q'. deq q = ret (if contents q = [] then None else Some (hd (contents q)), q') \<and>
     invar q' \<and> contents q' = tl (contents q) \<and> bound q' = bound q"
  using deq_empty [of q] deq_some [of q] by (cases "contents q") auto

text \<open>
  Client view: a sequence of calls. \<open>Inl v\<close> enqueues \<open>v\<close>, \<open>Inr ()\<close> dequeues. The values
  handed out, followed by what is still queued, are what was queued at the start followed by what
  was accepted.
\<close>

fun run :: "('a + unit) list \<Rightarrow> 'q \<Rightarrow> (('a list \<times> 'a list) \<times> 'q) comp" where
  "run [] q = ret (([], []), q)"
| "run (Inl v # ops) q =
     seqc (enq v q) (\<lambda>(ok, q). seqc (run ops q) (\<lambda>((acc, out), q). ret ((if ok then v # acc else acc, out), q)))"
| "run (Inr u # ops) q =
     seqc (deq q) (\<lambda>(r, q). seqc (run ops q) (\<lambda>((acc, out), q).
       ret ((acc, case r of None \<Rightarrow> out | Some v \<Rightarrow> v # out), q)))"

lemma run_fifo:
  "invar q \<Longrightarrow> \<exists>acc out q'. run ops q = ret ((acc, out), q') \<and> invar q' \<and> bound q' = bound q \<and>
     out @ contents q' = contents q @ acc"
proof (induction ops q rule: run.induct)
  case (2 v ops q)
  obtain q1 where q1: "enq v q = ret (length (contents q) < bound q, q1)" "invar q1" "bound q1 = bound q"
    "contents q1 = contents q @ (if length (contents q) < bound q then [v] else [])"
    using enq_total [OF 2(2)] by blast
  obtain acc out q' where "run ops q1 = ret ((acc, out), q')" "invar q'" "bound q' = bound q1"
    "out @ contents q' = contents q1 @ acc"
    using 2(1) [OF q1(2)] by blast
  then show ?case using q1 by auto
next
  case (3 u ops q)
  obtain q1 where q1: "deq q = ret (if contents q = [] then None else Some (hd (contents q)), q1)" "invar q1"
    "contents q1 = tl (contents q)" "bound q1 = bound q"
    using deq_total [OF 3(2)] by blast
  obtain acc out q' where "run ops q1 = ret ((acc, out), q')" "invar q'" "bound q' = bound q1"
    "out @ contents q' = contents q1 @ acc"
    using 3(1) [OF q1(2)] by blast
  then show ?case using q1 by (cases "contents q") auto
qed simp

end

section \<open>Slot arithmetic\<close>

lemma has_single_bitE:
  assumes "has_single_bit c"
  obtains k where "k < 64" "unat c = 2 ^ k" "c - 1 = mask k"
proof -
  obtain k where k: "k < 64" "c = push_bit k 1" using assms by (auto simp: has_single_bit_def)
  have c: "c = 2 ^ k" by (simp add: k(2) push_bit_eq_mult)
  have "take_bit 64 (2 ^ k) = (2::nat) ^ k" using k(1) by (simp add: take_bit_nat_eq_self)
  then have "unat c = 2 ^ k"
    using unat_of_nat [of "2 ^ k", where 'a=64] by (simp add: c take_bit_eq_mod)
  moreover have "c - 1 = mask k" by (simp add: c mask_eq_exp_minus_1)
  ultimately show thesis using that k by blast
qed

lemma mod_slot_inj_le:
  assumes "i \<le> j" "j < (n::nat)" "(a + i) mod n = (a + j) mod n"
  shows "i = j"
proof -
  have "n dvd (a + j) - (a + i)"
    using assms mod_eq_dvd_iff_nat [of "a + i" "a + j" n] by simp
  then have "n dvd j - i" by simp
  moreover have "j - i < n" using assms by simp
  ultimately have "j - i = 0" by (auto dest: dvd_imp_le)
  then show ?thesis using assms by simp
qed

lemma mod_slot_eq_iff:
  "i < n \<Longrightarrow> j < n \<Longrightarrow> (a + i) mod n = (a + j) mod n \<longleftrightarrow> i = (j::nat)"
  using mod_slot_inj_le [of i j n a] mod_slot_inj_le [of j i n a] by (cases "i \<le> j") auto

lemma unat_plus_nat_mod:
  assumes "k < 64"
  shows "unat ((a::u64) + of_nat j) mod 2 ^ k = (unat a + j) mod 2 ^ k"
proof -
  have "(2::nat) ^ k dvd 2 ^ 64" using assms by (simp only: le_imp_power_dvd)
  from mod_mod_cancel [OF this] show ?thesis
    by (simp add: unat_word_ariths unat_of_nat mod_add_right_eq)
qed

text \<open>The masked cursor is the cursor modulo the capacity, also when the cursor has wrapped around.\<close>

lemma slot_of_offset:
  assumes "has_single_bit (capacity q)" "index_mask q = capacity q - 1"
  shows "slot_of q (c + of_nat j) = (unat c + j) mod unat (capacity q)"
proof -
  obtain k where k: "k < 64" "unat (capacity q) = 2 ^ k" "capacity q - 1 = mask k"
    using assms(1) by (rule has_single_bitE)
  show ?thesis
    using k assms(2) unat_plus_nat_mod [OF k(1), of c j]
    by (simp add: slot_of_def unsigned_take_bit_eq flip: take_bit_eq_mask take_bit_eq_mod)
qed

lemma capacity_pos: "has_single_bit c \<Longrightarrow> 0 < unat c"
  by (elim has_single_bitE) simp

lemma slot_of_less:
  assumes "q_shape q"
  shows "slot_of q c < vsize (ring q)"
  using assms slot_of_offset [of q c 0] capacity_pos [of "capacity q"] by (simp add: q_shape_def)

lemma slot_of_eq_iff:
  assumes "q_shape q" "i < unat (capacity q)" "j < unat (capacity q)"
  shows "slot_of q (c + of_nat i) = slot_of q (c + of_nat j) \<longleftrightarrow> i = j"
  using assms by (simp add: q_shape_def slot_of_offset mod_slot_eq_iff)

section \<open>The two operations on the contents\<close>

lemma unat_succ_below:
  assumes "unat (x :: u64) < unat (c :: u64)"
  shows "unat (x + 1) = unat x + 1"
proof -
  have "unat c < 2 ^ LENGTH(64)" by (rule unsigned_less)
  then have "unat x + 1 < 2 ^ 64" using assms by simp
  then show ?thesis by (simp add: unat_word_ariths)
qed

lemma unat_pred: "x \<noteq> 0 \<Longrightarrow> unat ((x :: u64) - 1) = unat x - 1"
  by (simp add: unat_minus_one)

lemma length_q_contents [simp]: "length (q_contents q) = unat (q_size q)"
  by (simp add: q_contents_def)

lemma q_contents_empty_iff: "q_contents q = [] \<longleftrightarrow> push_cursor q = pop_cursor q"
  by (simp add: q_contents_def q_size_def unat_eq_0)

lemma push_slot: "slot_of q (push_cursor q) = slot_of q (pop_cursor q + of_nat (unat (q_size q)))"
  by (simp add: q_size_def)

lemma full_at_iff: "full_at q a b \<longleftrightarrow> unat (capacity q) \<le> unat (a - b)"
  by (simp add: full_at_def word_le_nat_alt)

text \<open>Writing the slot at the push cursor and publishing appends the value.\<close>

definition pushed_q :: "'a \<Rightarrow> 'a SPSCQueue \<Rightarrow> 'a SPSCQueue" where
  "pushed_q v q = q\<lparr>ring := vupd (ring q) (slot_of q (push_cursor q)) (Some v), push_cursor := push_cursor q + 1\<rparr>"

lemma pushed_q_size:
  assumes "unat (q_size q) < unat (capacity q)"
  shows "unat (q_size (pushed_q v q)) = unat (q_size q) + 1"
  using unat_succ_below [OF assms] by (simp add: pushed_q_def q_size_def algebra_simps)

lemma pushed_q_fields [simp]:
  "capacity (pushed_q v q) = capacity q" "index_mask (pushed_q v q) = index_mask q"
  "pop_cursor (pushed_q v q) = pop_cursor q" "push_cursor (pushed_q v q) = push_cursor q + 1"
  "push_cursor_cached (pushed_q v q) = push_cursor_cached q" "pop_cursor_cached (pushed_q v q) = pop_cursor_cached q"
  "vsize (ring (pushed_q v q)) = vsize (ring q)" "slot_of (pushed_q v q) = slot_of q"
  by (simp_all add: pushed_q_def slot_of_def fun_eq_iff)

lemma pushed_q_ring:
  assumes "q_shape q" "unat (q_size q) < unat (capacity q)" "j < unat (capacity q)"
  shows "vat (ring (pushed_q v q)) (slot_of q (pop_cursor q + of_nat j)) =
    (if j = unat (q_size q) then Some v else vat (ring q) (slot_of q (pop_cursor q + of_nat j)))"
  using slot_of_eq_iff [OF assms(1) assms(3) assms(2), of "pop_cursor q"]
  by (auto simp: pushed_q_def push_slot vat_vupd)

lemma pushed_q_contents:
  assumes "q_shape q" "unat (q_size q) < unat (capacity q)"
  shows "q_contents (pushed_q v q) = q_contents q @ [v]"
  unfolding q_contents_def
  using assms pushed_q_ring [OF assms assms(2), of v]
  by (simp add: pushed_q_size pushed_q_ring)

lemma pushed_q_inv:
  assumes "q_inv q" "unat (push_cursor q - pop_cursor_cached q) < unat (capacity q)"
  shows "q_inv (pushed_q v q)"
proof -
  have n: "unat (q_size q) < unat (capacity q)" using assms by (simp add: q_inv_def)
  have "push_cursor q + 1 - pop_cursor_cached q = (push_cursor q - pop_cursor_cached q) + 1"
    by (simp only: add_diff_eq diff_add_eq)
  then have "unat (push_cursor q + 1 - pop_cursor_cached q) = unat (push_cursor q - pop_cursor_cached q) + 1"
    using unat_succ_below [OF assms(2)] by (simp only:)
  then show ?thesis
    using assms n pushed_q_size [OF n, of v]
    by (auto simp: q_inv_def ring_ok_def q_shape_def pushed_q_ring word_le_nat_alt)
qed

text \<open>Taking the slot at the pop cursor and publishing removes the oldest value.\<close>

definition popped_q :: "'a SPSCQueue \<Rightarrow> 'a SPSCQueue" where
  "popped_q q = q\<lparr>ring := vupd (ring q) (slot_of q (pop_cursor q)) None, pop_cursor := pop_cursor q + 1\<rparr>"

lemma popped_q_fields [simp]:
  "capacity (popped_q q) = capacity q" "index_mask (popped_q q) = index_mask q"
  "pop_cursor (popped_q q) = pop_cursor q + 1" "push_cursor (popped_q q) = push_cursor q"
  "push_cursor_cached (popped_q q) = push_cursor_cached q" "pop_cursor_cached (popped_q q) = pop_cursor_cached q"
  "vsize (ring (popped_q q)) = vsize (ring q)" "slot_of (popped_q q) = slot_of q"
  by (simp_all add: popped_q_def slot_of_def fun_eq_iff)

lemma popped_q_size:
  assumes "push_cursor q \<noteq> pop_cursor q"
  shows "unat (q_size (popped_q q)) = unat (q_size q) - 1"
  using unat_pred [of "q_size q"] assms by (simp add: q_size_def diff_diff_eq)

lemma popped_q_ring:
  assumes "q_shape q" "Suc j < unat (capacity q)"
  shows "vat (ring (popped_q q)) (slot_of q (pop_cursor q + 1 + of_nat j)) =
    vat (ring q) (slot_of q (pop_cursor q + of_nat (Suc j)))"
  using slot_of_eq_iff [OF assms(1,2), of 0 "pop_cursor q"] assms(2)
  by (simp add: popped_q_def vat_vupd add.assoc)

lemma popped_q_contents:
  assumes "q_shape q" "q_size q \<le> capacity q" "push_cursor q \<noteq> pop_cursor q"
  shows "q_contents q = the (vat (ring q) (slot_of q (pop_cursor q))) # q_contents (popped_q q)"
proof -
  have n: "unat (q_size q) \<le> unat (capacity q)" using assms(2) by (simp add: word_le_nat_alt)
  have pos: "0 < unat (q_size q)" using assms(3) by (simp add: q_size_def unat_gt_0)
  then obtain m where m: "unat (q_size q) = Suc m" by (cases "unat (q_size q)") auto
  have "q_contents q = the (vat (ring q) (slot_of q (pop_cursor q))) #
      map (\<lambda>j. the (vat (ring q) (slot_of q (pop_cursor q + of_nat (Suc j))))) [0..<m]"
    unfolding q_contents_def m upt_conv_Cons [OF zero_less_Suc]
    by (simp flip: map_Suc_upt add: comp_def del: upt_Suc)
  moreover have "q_contents (popped_q q) =
      map (\<lambda>j. the (vat (ring q) (slot_of q (pop_cursor q + of_nat (Suc j))))) [0..<m]"
    unfolding q_contents_def popped_q_size [OF assms(3)]
    using m n popped_q_ring [OF assms(1)] by (auto simp del: of_nat_Suc)
  ultimately show ?thesis by simp
qed

lemma q_inv_ring: "q_inv q \<Longrightarrow> ring_ok q"
  by (simp add: q_inv_def)

lemma ring_ok_shape: "ring_ok q \<Longrightarrow> q_shape q"
  by (simp add: ring_ok_def)

lemma ring_ok_size: "ring_ok q \<Longrightarrow> unat (q_size q) \<le> unat (capacity q)"
  by (simp add: ring_ok_def word_le_nat_alt)

lemma ring_ok_slot:
  "ring_ok q \<Longrightarrow> j < unat (capacity q) \<Longrightarrow>
     vat (ring q) (slot_of q (pop_cursor q + of_nat j)) \<noteq> None \<longleftrightarrow> j < unat (q_size q)"
  by (simp add: ring_ok_def)

lemma ring_ok_head:
  assumes "ring_ok q" "push_cursor q \<noteq> pop_cursor q"
  shows "vat (ring q) (slot_of q (pop_cursor q)) = Some (hd (q_contents q))"
proof -
  have "0 < unat (q_size q)" using assms(2) by (simp add: q_size_def unat_gt_0)
  then have "vat (ring q) (slot_of q (pop_cursor q + of_nat 0)) \<noteq> None"
    using ring_ok_slot [OF assms(1), of 0] ring_ok_size [OF assms(1)] by linarith
  moreover have "hd (q_contents q) = the (vat (ring q) (slot_of q (pop_cursor q)))"
    using popped_q_contents [OF ring_ok_shape [OF assms(1)] _ assms(2)] assms(1) by (simp add: ring_ok_def)
  ultimately show ?thesis by auto
qed

lemma popped_q_ring_ok:
  assumes inv: "ring_ok q" and ne: "push_cursor q \<noteq> pop_cursor q"
  shows "ring_ok (popped_q q)"
proof -
  have shape: "q_shape q" using inv by (rule ring_ok_shape)
  have size: "unat (q_size (popped_q q)) = unat (q_size q) - 1" by (rule popped_q_size [OF ne])
  have pos: "0 < unat (q_size q)" using ne by (simp add: q_size_def unat_gt_0)
  have cell: "vat (ring (popped_q q)) (slot_of q (pop_cursor q + 1 + of_nat j)) \<noteq> None \<longleftrightarrow> j < unat (q_size q) - 1"
    if j: "j < unat (capacity q)" for j
  proof (cases "Suc j < unat (capacity q)")
    case True
    then show ?thesis
      using popped_q_ring [OF shape True] ring_ok_slot [OF inv True] by (simp del: of_nat_Suc) linarith
  next
    case False
    then have last: "Suc j = unat (capacity q)" using j by simp
    have "slot_of q (pop_cursor q + of_nat (Suc j)) = slot_of q (pop_cursor q + of_nat 0)"
      using shape last by (simp only: q_shape_def slot_of_offset) simp
    then have "slot_of q (pop_cursor q + 1 + of_nat j) = slot_of q (pop_cursor q)"
      by (simp add: add.assoc)
    then show ?thesis
      using last ring_ok_size [OF inv] by (simp add: popped_q_def)
  qed
  show ?thesis
    using inv size pos cell by (auto simp: ring_ok_def q_shape_def word_le_nat_alt)
qed

lemma cached_nonempty:
  assumes "q_inv q" "push_cursor_cached q \<noteq> pop_cursor q"
  shows "push_cursor q \<noteq> pop_cursor q"
proof -
  have "0 < unat (push_cursor_cached q - pop_cursor q)" using assms(2) by (simp add: unat_gt_0)
  also have "\<dots> \<le> unat (q_size q)" using assms(1) by (simp add: q_inv_def)
  finally show ?thesis by (auto simp: q_size_def)
qed

lemma popped_q_inv:
  assumes inv: "q_inv q" and ne: "push_cursor_cached q \<noteq> pop_cursor q"
  shows "q_inv (popped_q q)"
proof -
  note ne' = cached_nonempty [OF assms]
  have cached: "unat (push_cursor_cached q - (pop_cursor q + 1)) = unat (push_cursor_cached q - pop_cursor q) - 1"
    using unat_pred [of "push_cursor_cached q - pop_cursor q"] ne by (simp add: diff_diff_eq)
  show ?thesis
    using inv popped_q_ring_ok [OF q_inv_ring [OF inv] ne'] popped_q_size [OF ne'] cached
    by (auto simp: q_inv_def)
qed

text \<open>A reload replaces the cached copy of the other side's cursor.\<close>

definition reload_pop :: "'a SPSCQueue \<Rightarrow> 'a SPSCQueue" where
  "reload_pop q = q\<lparr>pop_cursor_cached := pop_cursor q\<rparr>"

definition reload_push :: "'a SPSCQueue \<Rightarrow> 'a SPSCQueue" where
  "reload_push q = q\<lparr>push_cursor_cached := push_cursor q\<rparr>"

lemma reload_same [simp]:
  "q_size (reload_pop q) = q_size q" "q_contents (reload_pop q) = q_contents q"
  "q_size (reload_push q) = q_size q" "q_contents (reload_push q) = q_contents q"
  "capacity (reload_pop q) = capacity q" "capacity (reload_push q) = capacity q"
  "q_shape (reload_pop q) = q_shape q" "q_shape (reload_push q) = q_shape q"
  by (simp_all add: reload_pop_def reload_push_def q_size_def q_contents_def slot_of_def q_shape_def)

lemma reload_inv: "q_inv q \<Longrightarrow> q_inv (reload_pop q)" "q_inv q \<Longrightarrow> q_inv (reload_push q)"
  using ring_ok_size [of q]
  by (auto simp: q_inv_def ring_ok_def reload_pop_def reload_push_def q_size_def slot_of_def q_shape_def)

lemma push_eq:
  assumes "q_inv q"
  shows "push v q =
    (if unat (push_cursor q - pop_cursor_cached q) < unat (capacity q) then ret (True, pushed_q v q)
     else if unat (q_size q) < unat (capacity q) then ret (True, pushed_q v (reload_pop q))
     else ret (False, reload_pop q))"
proof -
  have shape: "q_shape q" using assms by (simp add: q_inv_def ring_ok_def)
  then have cap: "capacity q \<noteq> 0" using capacity_pos by (force simp: q_shape_def)
  have slot: "unat (push_cursor q AND index_mask q) < vsize (ring q)"
    using slot_of_less [OF shape] by (simp add: slot_of_def)
  show ?thesis
    using cap slot
    by (simp add: push_def full_at_iff Let_def reload_pop_def pushed_q_def q_size_def slot_of_def)
qed

lemma pop_eq:
  assumes "q_inv q"
  shows "pop q =
    (let q' = (if push_cursor_cached q = pop_cursor q then reload_push q else q) in
     if push_cursor_cached q' = pop_cursor q then ret (None, q')
     else ret (Some (hd (q_contents q)), popped_q q'))"
proof -
  have slot: "unat (pop_cursor q AND index_mask q) < vsize (ring q)"
    using slot_of_less [of q] assms by (simp add: slot_of_def q_inv_def ring_ok_def)
  have head: "vat (ring q) (unat (pop_cursor q AND index_mask q)) = Some (hd (q_contents q))"
    if "push_cursor q \<noteq> pop_cursor q"
    using ring_ok_head [OF q_inv_ring [OF assms] that] by (simp add: slot_of_def)
  show ?thesis
  proof (cases "push_cursor_cached q = pop_cursor q")
    case True
    then show ?thesis using slot head
      by (simp add: pop_def empty_at_def Let_def reload_push_def popped_q_def slot_of_def)
  next
    case False
    then show ?thesis using slot head cached_nonempty [OF assms False]
      by (simp add: pop_def empty_at_def Let_def popped_q_def slot_of_def)
  qed
qed

lemma push_room:
  assumes "q_inv q" "length (q_contents q) < unat (capacity q)"
  shows "\<exists>q'. push v q = ret (True, q') \<and> q_inv q' \<and> q_contents q' = q_contents q @ [v] \<and>
    unat (capacity q') = unat (capacity q)"
proof -
  have shape: "q_shape q" using assms by (simp add: q_inv_def ring_ok_def)
  let ?r = "reload_pop q"
  have "unat (push_cursor ?r - pop_cursor_cached ?r) < unat (capacity ?r)"
    using assms by (simp add: reload_pop_def q_size_def)
  then have r: "q_inv (pushed_q v ?r)" using reload_inv(1) [OF assms(1)] by (intro pushed_q_inv)
  have c: "q_contents (pushed_q v q) = q_contents q @ [v]" "q_contents (pushed_q v ?r) = q_contents q @ [v]"
    using pushed_q_contents [of q v] pushed_q_contents [of ?r v] shape assms(2) by simp_all
  show ?thesis
  proof (cases "unat (push_cursor q - pop_cursor_cached q) < unat (capacity q)")
    case True
    then show ?thesis using assms pushed_q_inv [OF assms(1) True] c by (simp add: push_eq)
  next
    case False
    then show ?thesis using assms r c by (simp add: push_eq)
  qed
qed

lemma push_full:
  assumes "q_inv q" "\<not> length (q_contents q) < unat (capacity q)"
  shows "\<exists>q'. push v q = ret (False, q') \<and> q_inv q' \<and> q_contents q' = q_contents q \<and>
    unat (capacity q') = unat (capacity q)"
proof -
  have "\<not> unat (push_cursor q - pop_cursor_cached q) < unat (capacity q)"
    using assms by (simp add: q_inv_def)
  then show ?thesis using assms by (simp add: push_eq reload_inv)
qed

lemma pop_empty:
  assumes "q_inv q" "q_contents q = []"
  shows "\<exists>q'. pop q = ret (None, q') \<and> q_inv q' \<and> q_contents q' = [] \<and> unat (capacity q') = unat (capacity q)"
proof -
  have e: "push_cursor q = pop_cursor q" using assms(2) by (simp add: q_contents_empty_iff)
  then have "push_cursor_cached q = pop_cursor q"
    using assms(1) by (simp add: q_inv_def q_size_def unat_eq_0)
  then have "pop q = ret (None, reload_push q)"
    using assms(1) e by (simp add: pop_eq) (simp add: reload_push_def)
  then show ?thesis using assms by (simp add: reload_inv)
qed

lemma pop_some:
  assumes "q_inv q" "q_contents q = x # xs"
  shows "\<exists>q'. pop q = ret (Some x, q') \<and> q_inv q' \<and> q_contents q' = xs \<and> unat (capacity q') = unat (capacity q)"
proof -
  have ne: "push_cursor q \<noteq> pop_cursor q" using assms(2) q_contents_empty_iff [of q] by auto
  define q' where "q' = (if push_cursor_cached q = pop_cursor q then reload_push q else q)"
  have q': "q_inv q'" "push_cursor_cached q' \<noteq> pop_cursor q'" "push_cursor q' \<noteq> pop_cursor q'"
    "q_contents q' = q_contents q" "capacity q' = capacity q"
    using assms(1) ne by (auto simp: q'_def reload_inv) (simp_all add: reload_push_def)
  have "pop q = ret (Some x, popped_q q')"
    using q'(2) assms unfolding q'_def by (auto simp: pop_eq Let_def) (auto simp: reload_push_def)
  moreover have "q_contents q' = the (vat (ring q') (slot_of q' (pop_cursor q'))) # q_contents (popped_q q')"
    using q' by (intro popped_q_contents) (auto simp: q_inv_def ring_ok_def)
  ultimately show ?thesis
    using popped_q_inv [OF q'(1,2)] q'(4,5) assms(2) by simp
qed

interpretation spsc: bounded_fifo push pop q_contents "\<lambda>q. unat (capacity q)" q_inv
  by unfold_locales (rule push_room push_full pop_empty pop_some; assumption | simp add: q_inv_ring ring_ok_size)+

section \<open>Construction and destruction\<close>

lemma SPSCQueue_new_inv:
  assumes "has_single_bit cap"
  shows "q_inv (SPSCQueue_new cap)" "q_contents (SPSCQueue_new cap) = []"
  using assms capacity_pos [of cap]
  by (auto simp: SPSCQueue_new_def q_inv_def ring_ok_def q_shape_def q_size_def q_contents_def word_less_nat_alt)

lemma destroy_contents:
  "ring_ok q \<Longrightarrow> \<exists>q'. destroy q = ret (q_contents q, q') \<and> q_empty q' \<and> ring_ok q'"
proof (induction "unat (q_size q)" arbitrary: q)
  case 0
  then show ?case
    by (subst destroy.simps) (simp add: q_empty_def q_contents_def unat_eq_0)
next
  case (Suc n)
  have ne: "push_cursor q \<noteq> pop_cursor q" using Suc(2) by (auto simp: q_size_def)
  have shape: "q_shape q" and size: "q_size q \<le> capacity q" using Suc(3) by (simp_all add: ring_ok_def)
  have "n = unat (q_size (popped_q q))" using Suc(2) ne by (simp add: popped_q_size)
  then obtain q' where q': "destroy (popped_q q) = ret (q_contents (popped_q q), q')" "q_empty q'" "ring_ok q'"
    using Suc(1) popped_q_ring_ok [OF Suc(3) ne] by blast
  have "destroy q = ret (hd (q_contents q) # q_contents (popped_q q), q')"
    using ring_ok_head [OF Suc(3) ne] slot_of_less [OF shape, of "pop_cursor q"] q'(1) ne
    by (subst destroy.simps) (simp add: q_empty_def q_size_def popped_q_def slot_of_def Let_def)
  then show ?case using q' popped_q_contents [OF shape size ne] by simp
qed

section \<open>Properties\<close>

text \<open>The ring is a bounded FIFO queue, call by call and for cursors of any value, wrapped around or not:
  in every state of the ring \<open>push\<close> returns, accepts exactly when fewer than \<open>capacity\<close> values are queued
  and then appends; \<open>pop\<close> returns, yields the oldest queued value and removes it, or nothing when the
  queue is empty; both keep the ring's invariant.\<close>

theorem push_pop_fifo:
  assumes "q_inv q"
  shows "(\<exists>q'. push v q = ret (length (q_contents q) < unat (capacity q), q') \<and> q_inv q' \<and>
      q_contents q' = q_contents q @ (if length (q_contents q) < unat (capacity q) then [v] else [])) \<and>
    (\<exists>q'. pop q = ret (if q_contents q = [] then None else Some (hd (q_contents q)), q') \<and> q_inv q' \<and>
      q_contents q' = tl (q_contents q))"
  using spsc.enq_total [OF assms, of v] spsc.deq_total [OF assms] by blast

text \<open>A ring whose cursors stand just below and just past the wrap-around of the 64-bit counter.\<close>

definition wrapped_ring :: "nat SPSCQueue" where
  "wrapped_ring = \<lparr>capacity = 2, index_mask = 1, ring = Vector 2 (\<lambda>i. if i = 1 then Some 7 else None),
     push_cursor = 0, pop_cursor = 0xFFFFFFFFFFFFFFFF,
     push_cursor_cached = 0xFFFFFFFFFFFFFFFF, pop_cursor_cached = 0xFFFFFFFFFFFFFFFF\<rparr>"

lemma wrapped_ring_inv: "q_inv wrapped_ring" "q_contents wrapped_ring = [7]"
proof -
  have "has_single_bit 2" unfolding has_single_bit_def by (intro exI [of _ 1]) simp
  moreover have "vat (ring wrapped_ring) (slot_of wrapped_ring (pop_cursor wrapped_ring + of_nat j)) \<noteq> None \<longleftrightarrow> j < 1"
    if "j < 2" for j
    using less_2_cases [OF that] by (elim disjE) (simp_all add: slot_of_def wrapped_ring_def)
  ultimately show "q_inv wrapped_ring"
    by (simp add: q_inv_def ring_ok_def q_shape_def q_size_def) (simp add: wrapped_ring_def)
  show "q_contents wrapped_ring = [7]"
    by (simp add: q_contents_def q_size_def slot_of_def wrapped_ring_def)
qed

lemma push_pop_fifo_witness:
  "(\<exists>q'. push 8 wrapped_ring = ret (length (q_contents wrapped_ring) < unat (capacity wrapped_ring), q') \<and> q_inv q' \<and>
      q_contents q' = q_contents wrapped_ring @ (if length (q_contents wrapped_ring) < unat (capacity wrapped_ring) then [8] else [])) \<and>
   (\<exists>q'. pop wrapped_ring = ret (if q_contents wrapped_ring = [] then None else Some (hd (q_contents wrapped_ring)), q') \<and> q_inv q' \<and>
      q_contents q' = tl (q_contents wrapped_ring))"
  using push_pop_fifo [OF wrapped_ring_inv(1)] by blast

text \<open>The destructor returns and destroys exactly the values still queued, each once and oldest first,
  and leaves an empty ring in which no slot holds a live object.\<close>

theorem destructor_destroys_contents:
  assumes "q_inv q"
  shows "\<exists>q'. destroy q = ret (q_contents q, q') \<and> q_empty q' \<and>
    (\<forall>j<unat (capacity q'). vat (ring q') (slot_of q' (pop_cursor q' + of_nat j)) = None)"
proof -
  obtain q' where q': "destroy q = ret (q_contents q, q')" "q_empty q'" "ring_ok q'"
    using destroy_contents [OF q_inv_ring [OF assms]] by blast
  then have "unat (q_size q') = 0" by (simp add: q_empty_def)
  then show ?thesis using q' ring_ok_slot [OF q'(3)] by auto
qed

lemma destructor_destroys_contents_witness:
  "\<exists>q'. destroy wrapped_ring = ret (q_contents wrapped_ring, q') \<and> q_empty q' \<and>
    (\<forall>j<unat (capacity q'). vat (ring q') (slot_of q' (pop_cursor q' + of_nat j)) = None)"
  by (rule destructor_destroys_contents [OF wrapped_ring_inv(1)])

end
