(* ===== verification/SPSCConcurrent.thy ===== *)
theory SPSCConcurrent
  imports SPSCQueue
begin

text \<open>
  The ring buffer of \<^verbatim>\<open>include/SPSCQueue.h\<close> under two threads. Each shared-memory access of
  \<open>push\<close> and \<open>pop\<close> is one step; a step of the producer and a step of the consumer may
  interleave in any order.

  The acquire load of the other thread's cursor returns any value that this cursor has held since
  the last one this thread saw (coherence forbids older ones): the ghost counts \<open>pops_seen\<close> and
  \<open>pushes_seen\<close> record what was seen, and the load picks any count from there up to the current
  one. The ring itself is plain memory; \<open>conc_inv_race_free\<close> shows that the two threads never
  access the same slot at the same time, so its accesses are ordered by the release/acquire pairs.

  Ghost lists: \<open>pushed\<close> holds every value whose push was published, \<open>popped\<close> every value whose
  pop was published. The cursors are their lengths modulo \<open>2 ^ 64\<close>.
\<close>

section \<open>Model\<close>

datatype 'a producer_pc = PIdle | PCheck 'a | PReload 'a | PWrite 'a | PPublish 'a

datatype 'a consumer_pc = CIdle | CCheck | CReload | CRead | CDestroy 'a | CPublish 'a

record 'a conc =
  queue :: "'a SPSCQueue"
  ppc :: "'a producer_pc"
  cpc :: "'a consumer_pc"
  pops_seen :: nat
  pushes_seen :: nat
  pushed :: "'a list"
  popped :: "'a list"

definition conc_init :: "u64 \<Rightarrow> 'a conc" where
  "conc_init cap = \<lparr>queue = SPSCQueue_new cap, ppc = PIdle, cpc = CIdle, pops_seen = 0, pushes_seen = 0,
     pushed = [], popped = []\<rparr>"

text \<open>Steps of \<open>push\<close>: the capacity test and the call, the test on the cached cursor, the reload and
  second test, the construction in the slot, the release store of the push cursor.\<close>

inductive pstep :: "'a conc \<Rightarrow> 'a conc \<Rightarrow> bool" where
  P_no_capacity: "ppc s = PIdle \<Longrightarrow> capacity (queue s) = 0 \<Longrightarrow> pstep s s"
| P_call: "ppc s = PIdle \<Longrightarrow> capacity (queue s) \<noteq> 0 \<Longrightarrow> pstep s (s\<lparr>ppc := PCheck v\<rparr>)"
| P_check: "ppc s = PCheck v \<Longrightarrow>
    pstep s (s\<lparr>ppc := if full_at (queue s) (push_cursor (queue s)) (pop_cursor_cached (queue s))
                     then PReload v else PWrite v\<rparr>)"
| P_reload: "ppc s = PReload v \<Longrightarrow> pops_seen s \<le> k \<Longrightarrow> k \<le> length (popped s) \<Longrightarrow>
    pstep s (s\<lparr>queue := (queue s)\<lparr>pop_cursor_cached := of_nat k\<rparr>, pops_seen := k,
              ppc := if full_at (queue s) (push_cursor (queue s)) (of_nat k) then PIdle else PWrite v\<rparr>)"
| P_write: "ppc s = PWrite v \<Longrightarrow>
    vset (ring (queue s)) (unat (push_cursor (queue s) AND index_mask (queue s))) (Some v) = ret r \<Longrightarrow>
    pstep s (s\<lparr>queue := (queue s)\<lparr>ring := r\<rparr>, ppc := PPublish v\<rparr>)"
| P_publish: "ppc s = PPublish v \<Longrightarrow>
    pstep s (s\<lparr>queue := (queue s)\<lparr>push_cursor := push_cursor (queue s) + 1\<rparr>, ppc := PIdle, pushed := pushed s @ [v]\<rparr>)"

text \<open>Steps of \<open>pop\<close>, in the same way: the value is moved out, the slot destroyed, the pop cursor stored.\<close>

inductive cstep :: "'a conc \<Rightarrow> 'a conc \<Rightarrow> bool" where
  C_call: "cpc s = CIdle \<Longrightarrow> cstep s (s\<lparr>cpc := CCheck\<rparr>)"
| C_check: "cpc s = CCheck \<Longrightarrow>
    cstep s (s\<lparr>cpc := if empty_at (push_cursor_cached (queue s)) (pop_cursor (queue s)) then CReload else CRead\<rparr>)"
| C_reload: "cpc s = CReload \<Longrightarrow> pushes_seen s \<le> k \<Longrightarrow> k \<le> length (pushed s) \<Longrightarrow>
    cstep s (s\<lparr>queue := (queue s)\<lparr>push_cursor_cached := of_nat k\<rparr>, pushes_seen := k,
              cpc := if empty_at (of_nat k) (pop_cursor (queue s)) then CIdle else CRead\<rparr>)"
| C_read: "cpc s = CRead \<Longrightarrow>
    vget (ring (queue s)) (unat (pop_cursor (queue s) AND index_mask (queue s))) = ret (Some v) \<Longrightarrow>
    cstep s (s\<lparr>cpc := CDestroy v\<rparr>)"
| C_destroy: "cpc s = CDestroy v \<Longrightarrow>
    vset (ring (queue s)) (unat (pop_cursor (queue s) AND index_mask (queue s))) None = ret r \<Longrightarrow>
    cstep s (s\<lparr>queue := (queue s)\<lparr>ring := r\<rparr>, cpc := CPublish v\<rparr>)"
| C_publish: "cpc s = CPublish v \<Longrightarrow>
    cstep s (s\<lparr>queue := (queue s)\<lparr>pop_cursor := pop_cursor (queue s) + 1\<rparr>, cpc := CIdle, popped := popped s @ [v]\<rparr>)"

inductive_cases pstepE: "pstep s s'"
inductive_cases cstepE: "cstep s s'"

inductive conc_reachable :: "u64 \<Rightarrow> 'a conc \<Rightarrow> bool" for cap where
  start: "conc_reachable cap (conc_init cap)"
| producer: "conc_reachable cap s \<Longrightarrow> pstep s s' \<Longrightarrow> conc_reachable cap s'"
| consumer: "conc_reachable cap s \<Longrightarrow> cstep s s' \<Longrightarrow> conc_reachable cap s'"

section \<open>Invariant\<close>

fun producer_owns :: "'a producer_pc \<Rightarrow> bool" where
  "producer_owns (PWrite v) = True"
| "producer_owns (PPublish v) = True"
| "producer_owns _ = False"

fun consumer_owns :: "'a consumer_pc \<Rightarrow> bool" where
  "consumer_owns CRead = True"
| "consumer_owns (CDestroy v) = True"
| "consumer_owns (CPublish v) = True"
| "consumer_owns _ = False"

fun written :: "'a producer_pc \<Rightarrow> 'a option" where
  "written (PPublish v) = Some v"
| "written _ = None"

fun destroyed :: "'a consumer_pc \<Rightarrow> bool" where
  "destroyed (CPublish v) = True"
| "destroyed _ = False"

lemma destroyed_owns: "destroyed pc \<Longrightarrow> consumer_owns pc"
  by (cases pc) simp_all

text \<open>What slot \<open>i mod capacity\<close> holds for a position \<open>i\<close> of the window \<open>[R, R + capacity)\<close>.\<close>

definition cell :: "'a conc \<Rightarrow> nat \<Rightarrow> 'a option" where
  "cell s i =
     (if i < length (pushed s) then if destroyed (cpc s) \<and> i = length (popped s) then None else Some (pushed s ! i)
      else if i = length (pushed s) then written (ppc s) else None)"

definition cursors_ok :: "nat \<Rightarrow> 'a conc \<Rightarrow> bool" where
  "cursors_ok n s \<longleftrightarrow>
     push_cursor (queue s) = of_nat (length (pushed s)) \<and> pop_cursor (queue s) = of_nat (length (popped s)) \<and>
     pop_cursor_cached (queue s) = of_nat (pops_seen s) \<and> push_cursor_cached (queue s) = of_nat (pushes_seen s) \<and>
     pops_seen s \<le> length (popped s) \<and> length (popped s) \<le> pushes_seen s \<and>
     pushes_seen s \<le> length (pushed s) \<and> length (pushed s) \<le> pops_seen s + n \<and>
     (producer_owns (ppc s) \<longrightarrow> length (pushed s) < pops_seen s + n) \<and>
     (consumer_owns (cpc s) \<longrightarrow> length (popped s) < pushes_seen s)"

definition values_ok :: "'a conc \<Rightarrow> bool" where
  "values_ok s \<longleftrightarrow> popped s = take (length (popped s)) (pushed s) \<and>
     (\<forall>v. cpc s = CDestroy v \<or> cpc s = CPublish v \<longrightarrow> v = pushed s ! length (popped s))"

definition conc_inv :: "u64 \<Rightarrow> 'a conc \<Rightarrow> bool" where
  "conc_inv cap s \<longleftrightarrow>
     q_shape (queue s) \<and> capacity (queue s) = cap \<and> cursors_ok (unat cap) s \<and> values_ok s \<and>
     (\<forall>i. length (popped s) \<le> i \<longrightarrow> i < length (popped s) + unat cap \<longrightarrow> vat (ring (queue s)) (i mod unat cap) = cell s i)"

lemma conc_inv_init: "has_single_bit cap \<Longrightarrow> conc_inv cap (conc_init cap)"
  using SPSCQueue_new_inv(1) [of cap]
  by (auto simp: conc_inv_def conc_init_def cursors_ok_def values_ok_def cell_def q_inv_def ring_ok_def SPSCQueue_new_def)

text \<open>Cursor differences are exact as long as the counts are less than \<open>2 ^ 64\<close> apart.\<close>

lemma unat_of_nat_diff:
  assumes "a \<le> b" "b \<le> a + unat (cap :: u64)"
  shows "unat (of_nat b - of_nat a :: u64) = b - a"
proof -
  have "unat cap < 2 ^ LENGTH(64)" by (rule unsigned_less)
  then have "b - a < 2 ^ 64" using assms(2) by simp
  moreover have "of_nat b - of_nat a = (of_nat (b - a) :: u64)" using assms(1) by (simp add: of_nat_diff)
  ultimately show ?thesis by (simp add: unat_of_nat)
qed

lemma full_at_counts:
  "a \<le> b \<Longrightarrow> b \<le> a + unat (capacity q) \<Longrightarrow> full_at q (of_nat b) (of_nat a) \<longleftrightarrow> a + unat (capacity q) \<le> b"
  by (auto simp: full_at_iff unat_of_nat_diff)

lemma empty_at_counts:
  assumes "a \<le> b" "b \<le> a + unat (cap :: u64)"
  shows "empty_at (of_nat b) (of_nat a) \<longleftrightarrow> b = a"
  using unat_of_nat_diff [OF assms] assms(1) by (auto simp: empty_at_def)

lemma slot_of_count: "q_shape q \<Longrightarrow> unat (of_nat i AND index_mask q) = i mod unat (capacity q)"
  using slot_of_offset [of q 0 i] by (simp add: q_shape_def slot_of_def)

lemma window_slot_eq_iff:
  assumes "r \<le> i" "i < r + n" "r \<le> j" "j < r + n"
  shows "i mod n = j mod n \<longleftrightarrow> i = (j::nat)"
  using mod_slot_eq_iff [of "i - r" n "j - r" r] assms by auto

lemma conc_invD:
  assumes "conc_inv cap s"
  shows "q_shape (queue s)" "capacity (queue s) = cap" "cursors_ok (unat cap) s" "values_ok s"
    "length (popped s) \<le> i \<Longrightarrow> i < length (popped s) + unat cap \<Longrightarrow> vat (ring (queue s)) (i mod unat cap) = cell s i"
    "0 < unat cap"
  using assms capacity_pos [of cap] by (auto simp: conc_inv_def q_shape_def)

lemma conc_invI:
  assumes "q_shape (queue s)" "capacity (queue s) = cap" "cursors_ok (unat cap) s" "values_ok s"
    "\<And>i. length (popped s) \<le> i \<Longrightarrow> i < length (popped s) + unat cap \<Longrightarrow> vat (ring (queue s)) (i mod unat cap) = cell s i"
  shows "conc_inv cap s"
  using assms by (simp add: conc_inv_def)

lemma q_shape_fields [simp]:
  "q_shape (q\<lparr>push_cursor := a\<rparr>) = q_shape q" "q_shape (q\<lparr>pop_cursor := a\<rparr>) = q_shape q"
  "q_shape (q\<lparr>push_cursor_cached := a\<rparr>) = q_shape q" "q_shape (q\<lparr>pop_cursor_cached := a\<rparr>) = q_shape q"
  "vsize r = vsize (ring q) \<Longrightarrow> q_shape (q\<lparr>ring := r\<rparr>) = q_shape q"
  by (simp_all add: q_shape_def)

lemma conc_inv_pstep:
  assumes inv: "conc_inv cap s" and step: "pstep s s'"
  shows "conc_inv cap s'"
  using step
proof cases
  case P_no_capacity
  then show ?thesis using inv by simp
next
  case (P_call v)
  then show ?thesis using conc_invD [OF inv]
    by (intro conc_invI) (auto simp: cursors_ok_def values_ok_def cell_def)
next
  case (P_check v)
  show ?thesis unfolding P_check(1) using conc_invD [OF inv] P_check(2)
    by (intro conc_invI) (auto simp: cursors_ok_def values_ok_def cell_def full_at_counts)
next
  case (P_reload v k)
  show ?thesis unfolding P_reload(1) using conc_invD [OF inv] P_reload(2-)
    by (intro conc_invI) (auto simp: cursors_ok_def values_ok_def cell_def full_at_counts)
next
  case (P_write v r)
  let ?w = "length (pushed s)" and ?n = "unat cap"
  have w: "length (popped s) \<le> ?w" "?w < length (popped s) + ?n"
    using conc_invD(3) [OF inv] P_write(2) by (auto simp: cursors_ok_def)
  have slot: "unat (push_cursor (queue s) AND index_mask (queue s)) = ?w mod ?n"
    using conc_invD [OF inv] by (simp add: cursors_ok_def slot_of_count)
  have r: "r = vupd (ring (queue s)) (?w mod ?n) (Some v)"
    using P_write(3) conc_invD(1,2,6) [OF inv] by (simp add: slot q_shape_def)
  show ?thesis unfolding P_write(1)
  proof (intro conc_invI)
    fix i assume i: "length (popped (s\<lparr>queue := (queue s)\<lparr>ring := r\<rparr>, ppc := PPublish v\<rparr>)) \<le> i"
      "i < length (popped (s\<lparr>queue := (queue s)\<lparr>ring := r\<rparr>, ppc := PPublish v\<rparr>)) + ?n"
    then have "i mod ?n = ?w mod ?n \<longleftrightarrow> i = ?w" using w window_slot_eq_iff by auto
    then show "vat (ring (queue (s\<lparr>queue := (queue s)\<lparr>ring := r\<rparr>, ppc := PPublish v\<rparr>))) (i mod ?n) =
        cell (s\<lparr>queue := (queue s)\<lparr>ring := r\<rparr>, ppc := PPublish v\<rparr>) i"
      using conc_invD(5) [OF inv, of i] i P_write(2) by (auto simp: r vat_vupd cell_def)
  qed (use conc_invD [OF inv] P_write(2) in \<open>auto simp: r cursors_ok_def values_ok_def\<close>)
next
  case (P_publish v)
  show ?thesis unfolding P_publish(1)
    using conc_invD [OF inv] P_publish(2) destroyed_owns [of "cpc s"]
    by (intro conc_invI) (auto simp: cursors_ok_def values_ok_def cell_def nth_append)
qed

lemma consumer_slot:
  assumes "conc_inv cap s"
  shows "unat (pop_cursor (queue s) AND index_mask (queue s)) = length (popped s) mod unat cap"
    "length (popped s) mod unat cap < vsize (ring (queue s))"
proof -
  have "pop_cursor (queue s) = of_nat (length (popped s))" using conc_invD(3) [OF assms] by (simp add: cursors_ok_def)
  then show "unat (pop_cursor (queue s) AND index_mask (queue s)) = length (popped s) mod unat cap"
    using slot_of_count [OF conc_invD(1) [OF assms]] conc_invD(2) [OF assms] by simp
  show "length (popped s) mod unat cap < vsize (ring (queue s))"
    using conc_invD(1,2,6) [OF assms] by (simp add: q_shape_def)
qed

lemma producer_slot:
  assumes "conc_inv cap s"
  shows "unat (push_cursor (queue s) AND index_mask (queue s)) = length (pushed s) mod unat cap"
    "length (pushed s) mod unat cap < vsize (ring (queue s))"
proof -
  have "push_cursor (queue s) = of_nat (length (pushed s))" using conc_invD(3) [OF assms] by (simp add: cursors_ok_def)
  then show "unat (push_cursor (queue s) AND index_mask (queue s)) = length (pushed s) mod unat cap"
    using slot_of_count [OF conc_invD(1) [OF assms]] conc_invD(2) [OF assms] by simp
  show "length (pushed s) mod unat cap < vsize (ring (queue s))"
    using conc_invD(1,2,6) [OF assms] by (simp add: q_shape_def)
qed

lemma consumer_cell:
  assumes "conc_inv cap s" "consumer_owns (cpc s)" "\<not> destroyed (cpc s)"
  shows "vat (ring (queue s)) (length (popped s) mod unat cap) = Some (pushed s ! length (popped s))"
  using conc_invD [OF assms(1)] assms(2,3) conc_invD(5) [OF assms(1), of "length (popped s)"]
  by (auto simp: cursors_ok_def cell_def)

lemma conc_inv_destroy:
  assumes inv: "conc_inv cap s" and pc: "cpc s = CDestroy v"
  shows "conc_inv cap (s\<lparr>queue := (queue s)\<lparr>ring := vupd (ring (queue s)) (length (popped s) mod unat cap) None\<rparr>,
    cpc := CPublish v\<rparr>)" (is "conc_inv cap ?s")
proof (intro conc_invI)
  let ?r = "length (popped s)" and ?n = "unat cap"
  fix i assume i: "length (popped ?s) \<le> i" "i < length (popped ?s) + ?n"
  then have "i mod ?n = ?r mod ?n \<longleftrightarrow> i = ?r"
    using conc_invD(6) [OF inv] window_slot_eq_iff [of ?r i ?n ?r] by simp
  moreover have "?r < length (pushed s)" using conc_invD(3) [OF inv] pc by (auto simp: cursors_ok_def)
  ultimately show "vat (ring (queue ?s)) (i mod ?n) = cell ?s i"
    using conc_invD(5) [OF inv, of i] i pc by (auto simp: vat_vupd cell_def)
qed (use conc_invD [OF inv] pc in \<open>auto simp: cursors_ok_def values_ok_def\<close>)

lemma conc_inv_pop_publish:
  assumes inv: "conc_inv cap s" and pc: "cpc s = CPublish v"
  shows "conc_inv cap (s\<lparr>queue := (queue s)\<lparr>pop_cursor := pop_cursor (queue s) + 1\<rparr>, cpc := CIdle,
    popped := popped s @ [v]\<rparr>)" (is "conc_inv cap ?s")
proof (intro conc_invI)
  let ?r = "length (popped s)" and ?n = "unat cap"
  note D = conc_invD [OF inv]
  have r: "?r < length (pushed s)" "length (pushed s) \<le> ?r + ?n"
    using D(3) pc by (auto simp: cursors_ok_def)
  fix i assume i: "length (popped ?s) \<le> i" "i < length (popped ?s) + ?n"
  show "vat (ring (queue ?s)) (i mod ?n) = cell ?s i"
  proof (cases "i = ?r + ?n")
    case True
    have "written (ppc s) = None" if "i = length (pushed s)"
      using D(3) True that by (cases "ppc s") (auto simp: cursors_ok_def)
    then show ?thesis using D(5) [of ?r] D(6) r pc True by (auto simp: cell_def)
  next
    case False
    then show ?thesis using D(5) [of i] i pc by (auto simp: cell_def)
  qed
next
  have "popped s @ [v] = take (Suc (length (popped s))) (pushed s)"
    using conc_invD(3,4) [OF inv] pc by (auto simp: cursors_ok_def values_ok_def take_Suc_conv_app_nth)
  moreover have "Suc (length (popped s)) \<le> length (pushed s)"
    using conc_invD(3) [OF inv] pc by (auto simp: cursors_ok_def)
  ultimately show "values_ok ?s" by (simp add: values_ok_def)
qed (use conc_invD [OF inv] pc in \<open>auto simp: cursors_ok_def\<close>)

lemma conc_inv_cstep:
  assumes inv: "conc_inv cap s" and step: "cstep s s'"
  shows "conc_inv cap s'"
  using step
proof cases
  case C_call
  then show ?thesis using conc_invD [OF inv]
    by (intro conc_invI) (auto simp: cursors_ok_def values_ok_def cell_def)
next
  case C_check
  have "empty_at (push_cursor_cached (queue s)) (pop_cursor (queue s)) \<longleftrightarrow> pushes_seen s = length (popped s)"
    using conc_invD(3) [OF inv] empty_at_counts [of "length (popped s)" "pushes_seen s" cap]
    by (auto simp: cursors_ok_def)
  then show ?thesis unfolding C_check(1) using conc_invD [OF inv] C_check(2)
    by (intro conc_invI) (auto simp: cursors_ok_def values_ok_def cell_def)
next
  case (C_reload k)
  have "empty_at (of_nat k) (pop_cursor (queue s)) \<longleftrightarrow> k = length (popped s)"
    using conc_invD(3) [OF inv] C_reload(3,4) empty_at_counts [of "length (popped s)" k cap]
    by (auto simp: cursors_ok_def)
  then show ?thesis unfolding C_reload(1) using conc_invD [OF inv] C_reload(2-)
    by (intro conc_invI) (auto simp: cursors_ok_def values_ok_def cell_def)
next
  case (C_read v)
  have "v = pushed s ! length (popped s)"
    using C_read consumer_slot [OF inv] consumer_cell [OF inv] by simp
  then show ?thesis unfolding C_read(1) using conc_invD [OF inv] C_read(2)
    by (intro conc_invI) (auto simp: cursors_ok_def values_ok_def cell_def)
next
  case (C_destroy v r)
  have "r = vupd (ring (queue s)) (length (popped s) mod unat cap) None"
    using C_destroy(3) consumer_slot [OF inv] by simp
  then show ?thesis unfolding C_destroy(1) using conc_inv_destroy [OF inv C_destroy(2)] by simp
next
  case (C_publish v)
  then show ?thesis using conc_inv_pop_publish [OF inv] by simp
qed

lemma conc_reachable_inv: "conc_reachable cap s \<Longrightarrow> has_single_bit cap \<Longrightarrow> conc_inv cap s"
  by (induction rule: conc_reachable.induct) (auto intro: conc_inv_init conc_inv_pstep conc_inv_cstep)

section \<open>What the invariant gives\<close>

text \<open>The two threads never work on the same slot.\<close>

lemma conc_inv_race_free:
  assumes "conc_inv cap s" "producer_owns (ppc s)" "consumer_owns (cpc s)"
  shows "unat (push_cursor (queue s) AND index_mask (queue s)) \<noteq> unat (pop_cursor (queue s) AND index_mask (queue s))"
proof -
  have "length (popped s) < length (pushed s)" "length (pushed s) < length (popped s) + unat cap"
    using conc_invD(3) [OF assms(1)] assms(2,3) by (auto simp: cursors_ok_def)
  then have "length (pushed s) mod unat cap \<noteq> length (popped s) mod unat cap"
    using window_slot_eq_iff [of "length (popped s)" "length (pushed s)" "unat cap" "length (popped s)"] by simp
  then show ?thesis by (simp add: consumer_slot [OF assms(1)] producer_slot [OF assms(1)])
qed

text \<open>The producer constructs only in raw storage.\<close>

lemma conc_inv_write_raw:
  assumes "conc_inv cap s" "ppc s = PWrite v"
  shows "vget (ring (queue s)) (unat (push_cursor (queue s) AND index_mask (queue s))) = ret None"
proof -
  have "length (popped s) \<le> length (pushed s)" "length (pushed s) < length (popped s) + unat cap"
    using conc_invD(3) [OF assms(1)] assms(2) by (auto simp: cursors_ok_def)
  then show ?thesis
    using conc_invD(5) [OF assms(1), of "length (pushed s)"] producer_slot [OF assms(1)] assms(2) by (simp add: cell_def)
qed

text \<open>A call never blocks: in every state of a call its next step is enabled and brings it nearer to its end.\<close>

fun prank :: "'a producer_pc \<Rightarrow> nat" where
  "prank PIdle = 0" | "prank (PCheck v) = 4" | "prank (PReload v) = 3" | "prank (PWrite v) = 2" | "prank (PPublish v) = 1"

fun crank :: "'a consumer_pc \<Rightarrow> nat" where
  "crank CIdle = 0" | "crank CCheck = 5" | "crank CReload = 4" | "crank CRead = 3" | "crank (CDestroy v) = 2"
| "crank (CPublish v) = 1"

lemma pstep_rank: "pstep s s' \<Longrightarrow> ppc s \<noteq> PIdle \<Longrightarrow> prank (ppc s') < prank (ppc s)"
  by (elim pstepE) auto

lemma cstep_rank: "cstep s s' \<Longrightarrow> cpc s \<noteq> CIdle \<Longrightarrow> crank (cpc s') < crank (cpc s)"
  by (elim cstepE) auto

lemma pstep_enabled:
  assumes "conc_inv cap s"
  shows "\<exists>s'. pstep s s'"
proof (cases "ppc s")
  case PIdle
  have "capacity (queue s) \<noteq> 0" using conc_invD(2,6) [OF assms] by auto
  from P_call [OF PIdle this] show ?thesis by (rule exI)
next
  case (PCheck v)
  from P_check [OF this] show ?thesis by (rule exI)
next
  case (PReload v)
  then show ?thesis using P_reload [OF PReload order_refl] conc_invD(3) [OF assms] by (auto simp: cursors_ok_def)
next
  case (PWrite v)
  then show ?thesis using P_write [OF PWrite] producer_slot [OF assms] by (metis vset_in_range)
next
  case (PPublish v)
  from P_publish [OF this] show ?thesis by (rule exI)
qed

lemma cstep_enabled:
  assumes "conc_inv cap s"
  shows "\<exists>s'. cstep s s'"
proof (cases "cpc s")
  case CIdle
  from C_call [OF this] show ?thesis by (rule exI)
next
  case CCheck
  from C_check [OF this] show ?thesis by (rule exI)
next
  case CReload
  then show ?thesis using C_reload [OF CReload order_refl] conc_invD(3) [OF assms] by (auto simp: cursors_ok_def)
next
  case CRead
  then show ?thesis using C_read [OF CRead] consumer_slot [OF assms] consumer_cell [OF assms] by auto
next
  case (CDestroy v)
  then show ?thesis using C_destroy [OF CDestroy] consumer_slot [OF assms] by (metis vset_in_range)
next
  case (CPublish v)
  from C_publish [OF this] show ?thesis by (rule exI)
qed

text \<open>A push is refused only when the count of pops it observed leaves no room, and a pop is refused only
  when the count of pushes it observed leaves nothing to take.\<close>

lemma push_refused:
  assumes "conc_inv cap s" "pstep s s'" "ppc s = PReload v" "ppc s' = PIdle"
  shows "length (pushed s) = pops_seen s' + unat cap" "pops_seen s' \<le> length (popped s)"
  using assms(2,1,3,4) conc_invD [OF assms(1)]
  by (auto elim!: pstepE simp: cursors_ok_def full_at_counts split: if_splits)

lemma pop_refused:
  assumes inv: "conc_inv cap s" and step: "cstep s s'" and pc: "cpc s = CReload" "cpc s' = CIdle"
  shows "length (popped s) = pushes_seen s'"
  using step
proof cases
  case (C_reload k)
  then show ?thesis
    using conc_invD(3) [OF inv] pc(2) empty_at_counts [of "length (popped s)" k cap]
    by (auto simp: cursors_ok_def split: if_splits)
qed (use pc in auto)

section \<open>Properties\<close>

text \<open>C6. FIFO under every interleaving: in each reachable state of the two threads the values popped are a prefix of
  the values pushed (nothing lost, duplicated, reordered or invented), never more than \<open>capacity\<close> values are
  outstanding, and the 64-bit cursors are the exact counts modulo \<open>2 ^ 64\<close>.\<close>

theorem concurrent_fifo:
  assumes "conc_reachable cap s" "has_single_bit cap"
  shows "popped s = take (length (popped s)) (pushed s) \<and>
    length (popped s) \<le> length (pushed s) \<and> length (pushed s) \<le> length (popped s) + unat cap \<and>
    push_cursor (queue s) = of_nat (length (pushed s)) \<and> pop_cursor (queue s) = of_nat (length (popped s))"
  using conc_invD(3,4) [OF conc_reachable_inv [OF assms]] by (auto simp: cursors_ok_def values_ok_def)

text \<open>A run in which the producer pushes 7 into a ring of one slot.\<close>

lemma single_bit_1: "has_single_bit 1"
  unfolding has_single_bit_def by (intro exI [of _ 0]) simp

definition one_pushed :: "nat conc" where
  "one_pushed = (conc_init 1)\<lparr>queue := (queue (conc_init 1))\<lparr>ring := vupd (ring (queue (conc_init 1))) 0 (Some 7), push_cursor := 1\<rparr>,
     pushed := [7]\<rparr>"

lemma one_pushed_reachable: "conc_reachable 1 one_pushed"
proof -
  let ?q = "queue (conc_init 1 :: nat conc)" and ?s = "conc_init 1 :: nat conc"
  have "conc_reachable 1 (?s\<lparr>ppc := PCheck 7\<rparr>)"
    by (rule conc_reachable.producer [OF conc_reachable.start P_call]) (simp_all add: conc_init_def SPSCQueue_new_def)
  from conc_reachable.producer [OF this P_check]
  have "conc_reachable 1 (?s\<lparr>ppc := PWrite 7\<rparr>)"
    by (simp add: conc_init_def SPSCQueue_new_def full_at_def)
  from conc_reachable.producer [OF this P_write]
  have "conc_reachable 1 (?s\<lparr>queue := ?q\<lparr>ring := vupd (ring ?q) 0 (Some 7)\<rparr>, ppc := PPublish 7\<rparr>)"
    by (simp add: conc_init_def SPSCQueue_new_def)
  from conc_reachable.producer [OF this P_publish]
  show ?thesis by (simp add: conc_init_def SPSCQueue_new_def one_pushed_def)
qed

lemma concurrent_fifo_witness:
  "popped one_pushed = take (length (popped one_pushed)) (pushed one_pushed) \<and>
   length (popped one_pushed) \<le> length (pushed one_pushed) \<and>
   length (pushed one_pushed) \<le> length (popped one_pushed) + unat (1 :: u64) \<and>
   push_cursor (queue one_pushed) = of_nat (length (pushed one_pushed)) \<and>
   pop_cursor (queue one_pushed) = of_nat (length (popped one_pushed))"
  using concurrent_fifo [OF one_pushed_reachable single_bit_1] by blast

text \<open>C7. Data-race freedom: whenever the producer is about to construct or publish a value and the consumer is reading,
  destroying or about to release one, they are at different slots; and the producer only ever constructs in a
  slot that holds no live object.\<close>

theorem concurrent_race_free:
  assumes "conc_reachable cap s" "has_single_bit cap"
  shows "(producer_owns (ppc s) \<and> consumer_owns (cpc s) \<longrightarrow>
      unat (push_cursor (queue s) AND index_mask (queue s)) \<noteq> unat (pop_cursor (queue s) AND index_mask (queue s))) \<and>
    (\<forall>v. ppc s = PWrite v \<longrightarrow>
      vget (ring (queue s)) (unat (push_cursor (queue s) AND index_mask (queue s))) = ret None)"
proof -
  note inv = conc_reachable_inv [OF assms]
  show ?thesis using conc_inv_race_free [OF inv] conc_inv_write_raw [OF inv] by simp
qed

text \<open>One value queued, the producer about to construct the second while the consumer reads the first.\<close>

definition busy :: "nat conc" where
  "busy = (conc_init 2)\<lparr>queue := (queue (conc_init 2))\<lparr>ring := vupd (ring (queue (conc_init 2))) 0 (Some 7),
     push_cursor := 1, push_cursor_cached := 1\<rparr>, pushed := [7], pushes_seen := 1, ppc := PWrite 8, cpc := CRead\<rparr>"

lemma single_bit_2: "has_single_bit 2"
  unfolding has_single_bit_def by (intro exI [of _ 1]) simp

lemma busy_reachable: "conc_reachable 2 busy"
proof -
  let ?q = "queue (conc_init 2 :: nat conc)" and ?s = "conc_init 2 :: nat conc"
  let ?q1 = "?q\<lparr>ring := vupd (ring ?q) 0 (Some 7), push_cursor := 1\<rparr>"
  let ?q2 = "?q1\<lparr>push_cursor_cached := 1\<rparr>"
  note ev = conc_init_def SPSCQueue_new_def full_at_def empty_at_def word_le_nat_alt
  have "conc_reachable 2 (?s\<lparr>ppc := PCheck 7\<rparr>)"
    by (rule conc_reachable.producer [OF conc_reachable.start P_call]) (simp_all add: ev)
  from conc_reachable.producer [OF this P_check]
  have "conc_reachable 2 (?s\<lparr>ppc := PWrite 7\<rparr>)" by (simp add: ev)
  from conc_reachable.producer [OF this P_write]
  have "conc_reachable 2 (?s\<lparr>queue := ?q\<lparr>ring := vupd (ring ?q) 0 (Some 7)\<rparr>, ppc := PPublish 7\<rparr>)" by (simp add: ev)
  from conc_reachable.producer [OF this P_publish]
  have "conc_reachable 2 (?s\<lparr>queue := ?q1, pushed := [7]\<rparr>)" by (simp add: ev)
  from conc_reachable.consumer [OF this C_call]
  have "conc_reachable 2 (?s\<lparr>queue := ?q1, pushed := [7], cpc := CCheck\<rparr>)" by (simp add: ev)
  from conc_reachable.consumer [OF this C_check]
  have "conc_reachable 2 (?s\<lparr>queue := ?q1, pushed := [7], cpc := CReload\<rparr>)" by (simp add: ev)
  from conc_reachable.consumer [OF this C_reload [of _ 1]]
  have "conc_reachable 2 (?s\<lparr>queue := ?q2, pushed := [7], pushes_seen := 1, cpc := CRead\<rparr>)" by (simp add: ev)
  from conc_reachable.producer [OF this P_call [of _ 8]]
  have "conc_reachable 2 (?s\<lparr>queue := ?q2, pushed := [7], pushes_seen := 1, ppc := PCheck 8, cpc := CRead\<rparr>)" by (simp add: ev)
  from conc_reachable.producer [OF this P_check]
  show ?thesis by (simp add: ev busy_def)
qed

lemma concurrent_race_free_witness:
  "unat (push_cursor (queue busy) AND index_mask (queue busy)) \<noteq> unat (pop_cursor (queue busy) AND index_mask (queue busy)) \<and>
   vget (ring (queue busy)) (unat (push_cursor (queue busy) AND index_mask (queue busy))) = ret None"
  using concurrent_race_free [OF busy_reachable single_bit_2] by (simp add: busy_def)

text \<open>C8. Wait freedom: in every reachable state each thread has a next step, and every step inside a call of \<open>push\<close>
  (at most four) or \<open>pop\<close> (at most five) brings that call nearer to its return, whatever the other thread does.\<close>

theorem concurrent_wait_free:
  assumes "conc_reachable cap s" "has_single_bit cap"
  shows "(\<exists>s'. pstep s s') \<and> (\<exists>s'. cstep s s') \<and>
    (\<forall>s'. pstep s s' \<longrightarrow> ppc s \<noteq> PIdle \<longrightarrow> prank (ppc s') < prank (ppc s)) \<and>
    (\<forall>s'. cstep s s' \<longrightarrow> cpc s \<noteq> CIdle \<longrightarrow> crank (cpc s') < crank (cpc s))"
  using pstep_enabled [OF conc_reachable_inv [OF assms]] cstep_enabled [OF conc_reachable_inv [OF assms]]
    pstep_rank [of s] cstep_rank [of s] by simp

lemma concurrent_wait_free_witness:
  "(\<exists>s'. pstep busy s') \<and> (\<exists>s'. cstep busy s') \<and>
   prank (ppc (busy\<lparr>queue := (queue busy)\<lparr>ring := vupd (ring (queue busy)) 1 (Some 8)\<rparr>, ppc := PPublish 8\<rparr>)) < prank (ppc busy) \<and>
   crank (cpc (busy\<lparr>cpc := CDestroy 7\<rparr>)) < crank (cpc busy)"
proof -
  have "pstep busy (busy\<lparr>queue := (queue busy)\<lparr>ring := vupd (ring (queue busy)) 1 (Some 8)\<rparr>, ppc := PPublish 8\<rparr>)"
    by (rule P_write) (simp_all add: busy_def conc_init_def SPSCQueue_new_def)
  moreover have "cstep busy (busy\<lparr>cpc := CDestroy 7\<rparr>)"
    by (rule C_read) (simp_all add: busy_def conc_init_def SPSCQueue_new_def)
  moreover have "ppc busy \<noteq> PIdle" "cpc busy \<noteq> CIdle" by (simp_all add: busy_def)
  ultimately show ?thesis
    using concurrent_wait_free [OF busy_reachable single_bit_2] by blast
qed

end
