(* ===== verification/Protocol.thy ===== *)
theory Protocol
  imports Prelude
begin

text \<open>
  The packed wire structures of \<^verbatim>\<open>include/Protocol.h\<close> and the encoders of
  \<^verbatim>\<open>scripts/simulator.py\<close>. A \<open>PacketPayload\<close> is its timestamp and the 56 bytes of the union;
  the members of the union are read from those bytes at the packed, little-endian offsets of the
  target (x86-64).
\<close>

section \<open>Little-endian integers\<close>

definition le_bytes :: "nat \<Rightarrow> 'a::len word \<Rightarrow> u8 list" where
  "le_bytes n w = map (\<lambda>k. ucast (drop_bit (8 * k) w)) [0..<n]"

fun of_le :: "u8 list \<Rightarrow> 'a::len word" where
  "of_le [] = 0"
| "of_le (b # bs) = ucast b OR push_bit 8 (of_le bs)"

lemma bit_of_le:
  "bit (of_le bs :: 'a::len word) i \<longleftrightarrow>
     i < LENGTH('a) \<and> i < 8 * length bs \<and> bit (bs ! (i div 8)) (i mod 8)"
proof (induction bs arbitrary: i)
  case (Cons b bs)
  have high: "\<not> bit b i" if "8 \<le> i" using that bit_imp_le_length [of b i] by auto
  show ?case
  proof (cases "i < 8")
    case True
    then show ?thesis by (auto simp: bit_simps)
  next
    case False
    then have "i div 8 = Suc ((i - 8) div 8)" "i mod 8 = (i - 8) mod 8"
      by (simp_all add: le_div_geq le_mod_geq)
    then show ?thesis using False high Cons.IH [of "i - 8"] by (auto simp: bit_simps)
  qed
qed simp

lemma length_le_bytes [simp]: "length (le_bytes n w) = n"
  by (simp add: le_bytes_def)

lemma of_le_bytes:
  assumes "LENGTH('a) \<le> 8 * n"
  shows "of_le (le_bytes n w) = (w :: 'a::len word)"
proof (rule bit_word_eqI)
  fix i assume i: "i < LENGTH('a)"
  then have "i div 8 < n" using assms by linarith
  then have "bit (le_bytes n w ! (i div 8)) (i mod 8) \<longleftrightarrow> bit w i"
    by (simp add: le_bytes_def bit_simps)
  then show "bit (of_le (le_bytes n w) :: 'a word) i = bit w i"
    using i assms by (simp add: bit_of_le)
qed

section \<open>The structures\<close>

type_synonym bytes = "u8 list"

definition char_of_ascii :: "char \<Rightarrow> u8" where
  "char_of_ascii c = of_nat (of_char c)"

text \<open>\<open>sizeof(PacketPayload)\<close>: 8 bytes of timestamp and the union, whose largest member is \<open>_padding[56]\<close>.\<close>

definition PAYLOAD_SIZE :: nat where
  "PAYLOAD_SIZE = 64"

record MessageHeader =
  message_type :: u8

record AddOrderMsg =
  add_header :: MessageHeader
  add_order_id :: u64
  add_price :: u32
  add_quantity :: u32
  add_is_buy :: u8

record CancelOrderMsg =
  cancel_header :: MessageHeader
  cancel_order_id :: u64

record ModifyOrderMsg =
  modify_header :: MessageHeader
  modify_order_id :: u64
  modify_new_price :: u32
  modify_new_quantity :: u32

record PacketPayload =
  ingress_tsc :: u64
  body :: bytes

definition payload_ok :: "PacketPayload \<Rightarrow> bool" where
  "payload_ok p \<longleftrightarrow> length (body p) = PAYLOAD_SIZE - 8"

text \<open>Reading a member of the union: its fields lie one after the other from offset 0.\<close>

definition field :: "nat \<Rightarrow> nat \<Rightarrow> bytes \<Rightarrow> 'a::len word" where
  "field off n bs = of_le (take n (drop off bs))"

definition header :: "PacketPayload \<Rightarrow> MessageHeader" where
  "header p = \<lparr>message_type = field 0 1 (body p)\<rparr>"

definition add_msg :: "PacketPayload \<Rightarrow> AddOrderMsg" where
  "add_msg p = \<lparr>add_header = header p, add_order_id = field 1 8 (body p), add_price = field 9 4 (body p),
     add_quantity = field 13 4 (body p), add_is_buy = field 17 1 (body p)\<rparr>"

definition cancel_msg :: "PacketPayload \<Rightarrow> CancelOrderMsg" where
  "cancel_msg p = \<lparr>cancel_header = header p, cancel_order_id = field 1 8 (body p)\<rparr>"

definition modify_msg :: "PacketPayload \<Rightarrow> ModifyOrderMsg" where
  "modify_msg p = \<lparr>modify_header = header p, modify_order_id = field 1 8 (body p),
     modify_new_price = field 9 4 (body p), modify_new_quantity = field 13 4 (body p)\<rparr>"

section \<open>The encoders of the simulator\<close>

text \<open>\<open>struct.pack\<close> with the formats \<open><cQIIc38x\<close>, \<open><cQ47x\<close> and \<open><cQII39x\<close>.\<close>

definition create_add_order :: "u64 \<Rightarrow> u32 \<Rightarrow> u32 \<Rightarrow> u8 \<Rightarrow> bytes" where
  "create_add_order order_id price qty side =
     [char_of_ascii CHR ''A''] @ le_bytes 8 order_id @ le_bytes 4 price @ le_bytes 4 qty @ [side] @ replicate 38 0"

definition create_cancel_order :: "u64 \<Rightarrow> bytes" where
  "create_cancel_order order_id = [char_of_ascii CHR ''X''] @ le_bytes 8 order_id @ replicate 47 0"

definition create_modify_order :: "u64 \<Rightarrow> u32 \<Rightarrow> u32 \<Rightarrow> bytes" where
  "create_modify_order order_id new_price new_qty =
     [char_of_ascii CHR ''M''] @ le_bytes 8 order_id @ le_bytes 4 new_price @ le_bytes 4 new_qty @ replicate 39 0"

lemma of_le_single [simp]: "of_le [b] = (b :: u8)"
  by (rule bit_word_eqI) (simp add: bit_of_le)

lemma field_here: "length xs = n \<Longrightarrow> field 0 n (xs @ ys) = of_le xs"
  by (simp add: field_def)

lemma field_skip: "length xs \<le> off \<Longrightarrow> field off n (xs @ ys) = field (off - length xs) n ys"
  by (simp add: field_def)

lemma field_Cons: "0 < off \<Longrightarrow> field off n (x # ys) = field (off - 1) n ys"
  by (cases off) (simp_all add: field_def)

lemma field_first [simp]: "field 0 (Suc 0) (x # ys) = (x :: u8)"
  by (simp add: field_def)

lemmas field_simps = field_here field_skip field_Cons of_le_bytes

lemma length_create [simp]:
  "length (create_add_order i p q s) = 56" "length (create_cancel_order i) = 56"
  "length (create_modify_order i p q) = 56"
  by (simp_all add: create_add_order_def create_cancel_order_def create_modify_order_def)

lemma add_roundtrip:
  "body pk = create_add_order i p q s \<Longrightarrow> add_msg pk =
     \<lparr>add_header = \<lparr>message_type = char_of_ascii CHR ''A''\<rparr>, add_order_id = i, add_price = p, add_quantity = q, add_is_buy = s\<rparr>"
  by (simp add: add_msg_def header_def create_add_order_def field_simps)

lemma cancel_roundtrip:
  "body pk = create_cancel_order i \<Longrightarrow> cancel_msg pk =
     \<lparr>cancel_header = \<lparr>message_type = char_of_ascii CHR ''X''\<rparr>, cancel_order_id = i\<rparr>"
  by (simp add: cancel_msg_def header_def create_cancel_order_def field_simps)

lemma modify_roundtrip:
  "body pk = create_modify_order i p q \<Longrightarrow> modify_msg pk =
     \<lparr>modify_header = \<lparr>message_type = char_of_ascii CHR ''M''\<rparr>, modify_order_id = i, modify_new_price = p, modify_new_quantity = q\<rparr>"
  by (simp add: modify_msg_def header_def create_modify_order_def field_simps)

section \<open>Properties\<close>

text \<open>C14. Wire format: the three encoders of the simulator produce 56 bytes, and the packed structures read back from those
  bytes hold exactly the encoded fields, for all identifiers, prices, quantities and sides.\<close>

theorem wire_roundtrip:
  "length (create_add_order i p q s) = PAYLOAD_SIZE - 8 \<and>
   add_msg \<lparr>ingress_tsc = t, body = create_add_order i p q s\<rparr> =
     \<lparr>add_header = \<lparr>message_type = char_of_ascii CHR ''A''\<rparr>, add_order_id = i, add_price = p, add_quantity = q, add_is_buy = s\<rparr> \<and>
   length (create_cancel_order i) = PAYLOAD_SIZE - 8 \<and>
   cancel_msg \<lparr>ingress_tsc = t, body = create_cancel_order i\<rparr> =
     \<lparr>cancel_header = \<lparr>message_type = char_of_ascii CHR ''X''\<rparr>, cancel_order_id = i\<rparr> \<and>
   length (create_modify_order i p q) = PAYLOAD_SIZE - 8 \<and>
   modify_msg \<lparr>ingress_tsc = t, body = create_modify_order i p q\<rparr> =
     \<lparr>modify_header = \<lparr>message_type = char_of_ascii CHR ''M''\<rparr>, modify_order_id = i, modify_new_price = p, modify_new_quantity = q\<rparr>"
  by (simp add: PAYLOAD_SIZE_def add_roundtrip cancel_roundtrip modify_roundtrip)

end
