(* ===== verification/FeedHandler.thy ===== *)
theory FeedHandler
  imports Protocol SPSCQueue
begin

text \<open>
  The UDP feed handler of \<^verbatim>\<open>include/FeedHandler.h\<close>. The socket is outside: what it delivers to
  the completion handler (an error, or a datagram that the kernel has written into the receive
  buffer, cut at the buffer's length) is an event. The handler stamps the buffer, hands a packet
  of the right size to the ring and counts it as dropped when the ring is full.
\<close>

record FeedHandler =
  recv_buffer :: PacketPayload
  ring_queue :: "PacketPayload SPSCQueue"
  dropped_packets :: u64
  receiving :: bool
  cerr :: "string list"

definition start_receive :: "FeedHandler \<Rightarrow> FeedHandler" where
  "start_receive fh = fh\<lparr>receiving := True\<rparr>"

text \<open>The constructor, once the socket is open, bound and configured; otherwise it throws and no handler exists.\<close>

definition FeedHandler_new ::
  "string option \<Rightarrow> string option \<Rightarrow> PacketPayload \<Rightarrow> PacketPayload SPSCQueue \<Rightarrow> string + FeedHandler" where
  "FeedHandler_new socket_error option_error buf q =
     (case socket_error of
        Some e \<Rightarrow> Inl e
      | None \<Rightarrow>
          (case option_error of
             Some e \<Rightarrow> Inl e
           | None \<Rightarrow>
               Inr (start_receive \<lparr>recv_buffer = buf, ring_queue = q, dropped_packets = 0, receiving = False, cerr = []\<rparr>)))"

text \<open>What the pending receive does to the buffer behind the timestamp: the first bytes are overwritten.\<close>

definition receive_into :: "bytes \<Rightarrow> PacketPayload \<Rightarrow> PacketPayload" where
  "receive_into data p = p\<lparr>body := data @ drop (length data) (body p)\<rparr>"

text \<open>The completion handler.\<close>

definition on_receive :: "u64 \<Rightarrow> string option \<Rightarrow> nat \<Rightarrow> FeedHandler \<Rightarrow> FeedHandler comp" where
  "on_receive tsc ec bytes_recvd fh =
     (let fh = fh\<lparr>recv_buffer := (recv_buffer fh)\<lparr>ingress_tsc := tsc\<rparr>, receiving := False\<rparr> in
      seqc (if ec = None \<and> bytes_recvd = PAYLOAD_SIZE - 8 then
              seqc (push (recv_buffer fh) (ring_queue fh)) (\<lambda>(ok, q).
              let fh = fh\<lparr>ring_queue := q\<rparr> in
              ret (if \<not> ok then fh\<lparr>dropped_packets := dropped_packets fh + 1\<rparr> else fh))
            else if ec \<noteq> None then
              ret (fh\<lparr>cerr := cerr fh @ [''Receive error: '' @ the ec]\<rparr>)
            else ret fh) (\<lambda>fh.
      ret (start_receive fh)))"

datatype net_event =
    Datagram u64 bytes
  | ReceiveError u64 string

fun on_event :: "net_event \<Rightarrow> FeedHandler \<Rightarrow> FeedHandler comp" where
  "on_event (Datagram tsc dgram) fh =
     (let data = take (PAYLOAD_SIZE - 8) dgram in
      on_receive tsc None (length data) (fh\<lparr>recv_buffer := receive_into data (recv_buffer fh)\<rparr>))"
| "on_event (ReceiveError tsc msg) fh = on_receive tsc (Some msg) 0 fh"

fun on_events :: "net_event list \<Rightarrow> FeedHandler \<Rightarrow> FeedHandler comp" where
  "on_events [] fh = ret fh"
| "on_events (e # es) fh = seqc (on_event e fh) (on_events es)"

section \<open>What reaches the ring\<close>

definition handler_ok :: "FeedHandler \<Rightarrow> bool" where
  "handler_ok fh \<longleftrightarrow> payload_ok (recv_buffer fh) \<and> q_inv (ring_queue fh) \<and> receiving fh"

text \<open>The packets a sequence of events asks the ring to take: every datagram of at least 56 bytes, cut at 56.\<close>

fun offered :: "net_event \<Rightarrow> PacketPayload list" where
  "offered (Datagram tsc dgram) =
     (if PAYLOAD_SIZE - 8 \<le> length dgram then [\<lparr>ingress_tsc = tsc, body = take (PAYLOAD_SIZE - 8) dgram\<rparr>] else [])"
| "offered (ReceiveError tsc msg) = []"

definition room :: "FeedHandler \<Rightarrow> nat" where
  "room fh = unat (capacity (ring_queue fh)) - length (q_contents (ring_queue fh))"

lemma payload_split: "payload_ok p \<longleftrightarrow> (\<exists>t b. p = \<lparr>ingress_tsc = t, body = b\<rparr> \<and> length b = 56)"
  by (cases p) (simp add: payload_ok_def PAYLOAD_SIZE_def)

lemma receive_into_ok: "payload_ok p \<Longrightarrow> length data \<le> 56 \<Longrightarrow> payload_ok (receive_into data p)"
  by (simp add: payload_ok_def receive_into_def PAYLOAD_SIZE_def)

lemma on_receive_push:
  assumes "handler_ok fh"
  shows "\<exists>fh'. on_receive tsc None 56 fh = ret fh' \<and> handler_ok fh' \<and> cerr fh' = cerr fh \<and>
     q_contents (ring_queue fh') = q_contents (ring_queue fh) @ (if 0 < room fh then [(recv_buffer fh)\<lparr>ingress_tsc := tsc\<rparr>] else []) \<and>
     dropped_packets fh' = dropped_packets fh + (if 0 < room fh then 0 else 1) \<and>
     capacity (ring_queue fh') = capacity (ring_queue fh)"
proof -
  let ?v = "(recv_buffer fh)\<lparr>ingress_tsc := tsc\<rparr>"
  have inv: "q_inv (ring_queue fh)" using assms by (simp add: handler_ok_def)
  have r: "0 < room fh \<longleftrightarrow> length (q_contents (ring_queue fh)) < unat (capacity (ring_queue fh))"
    by (simp add: room_def)
  obtain q' where "push ?v (ring_queue fh) = ret (0 < room fh, q')" "q_inv q'"
    "unat (capacity q') = unat (capacity (ring_queue fh))"
    "q_contents q' = q_contents (ring_queue fh) @ (if 0 < room fh then [?v] else [])"
    using spsc.enq_total [OF inv, of ?v] unfolding r by blast
  then show ?thesis
    using assms
    by (simp add: on_receive_def Let_def start_receive_def PAYLOAD_SIZE_def handler_ok_def payload_ok_def word_unat_eq_iff)
qed

lemma on_receive_error:
  "handler_ok fh \<Longrightarrow> on_receive tsc (Some e) n fh =
     ret (fh\<lparr>recv_buffer := (recv_buffer fh)\<lparr>ingress_tsc := tsc\<rparr>, cerr := cerr fh @ [''Receive error: '' @ e]\<rparr>)"
  by (simp add: on_receive_def Let_def start_receive_def handler_ok_def)

lemma on_receive_short:
  "handler_ok fh \<Longrightarrow> n \<noteq> 56 \<Longrightarrow> on_receive tsc None n fh = ret (fh\<lparr>recv_buffer := (recv_buffer fh)\<lparr>ingress_tsc := tsc\<rparr>\<rparr>)"
  by (simp add: on_receive_def Let_def start_receive_def handler_ok_def PAYLOAD_SIZE_def)

lemma on_event_law:
  assumes "handler_ok fh"
  shows "\<exists>fh'. on_event e fh = ret fh' \<and> handler_ok fh' \<and>
     q_contents (ring_queue fh') = q_contents (ring_queue fh) @ take (room fh) (offered e) \<and>
     dropped_packets fh' = dropped_packets fh + of_nat (length (offered e) - room fh) \<and>
     capacity (ring_queue fh') = capacity (ring_queue fh)"
proof (cases e)
  case (ReceiveError tsc msg)
  then show ?thesis
    using assms by (simp add: on_receive_error) (simp add: handler_ok_def payload_ok_def)
next
  case (Datagram tsc dgram)
  let ?d = "take 56 dgram"
  let ?fh = "fh\<lparr>recv_buffer := receive_into ?d (recv_buffer fh)\<rparr>"
  have ok: "handler_ok ?fh" using assms receive_into_ok [of "recv_buffer fh" ?d] by (simp add: handler_ok_def)
  have ev: "on_event e fh = on_receive tsc None (length ?d) ?fh"
    unfolding Datagram by (simp add: PAYLOAD_SIZE_def)
  show ?thesis
  proof (cases "56 \<le> length dgram")
    case True
    then have len: "length ?d = 56" by simp
    have buf: "(recv_buffer ?fh)\<lparr>ingress_tsc := tsc\<rparr> = \<lparr>ingress_tsc = tsc, body = ?d\<rparr>"
      using assms len by (cases "recv_buffer fh") (simp add: receive_into_def handler_ok_def payload_ok_def PAYLOAD_SIZE_def)
    have off: "offered e = [\<lparr>ingress_tsc = tsc, body = ?d\<rparr>]"
      using True unfolding Datagram by (simp add: PAYLOAD_SIZE_def)
    have room: "room ?fh = room fh" by (simp add: room_def)
    show ?thesis
      using on_receive_push [OF ok, of tsc] unfolding ev len buf off room
      by (cases "room fh") (auto simp: take_Cons')
  next
    case False
    then show ?thesis
      using ok on_receive_short [OF ok, of "length ?d" tsc] unfolding ev
      by (simp add: Datagram PAYLOAD_SIZE_def) (simp add: handler_ok_def payload_ok_def PAYLOAD_SIZE_def)
  qed
qed

lemma take_snoc_room:
  "length c \<le> n \<Longrightarrow> take n (c @ xs) = c @ take (n - length c) xs"
  by simp

text \<open>A sequence of events while nothing is popped: the ring takes the first packets that fit, the rest is counted.\<close>

lemma on_events_law:
  "handler_ok fh \<Longrightarrow> \<exists>fh'. on_events es fh = ret fh' \<and> handler_ok fh' \<and>
     q_contents (ring_queue fh') = q_contents (ring_queue fh) @ take (room fh) (concat (map offered es)) \<and>
     dropped_packets fh' = dropped_packets fh + of_nat (length (concat (map offered es)) - room fh) \<and>
     capacity (ring_queue fh') = capacity (ring_queue fh)"
proof (induction es arbitrary: fh)
  case (Cons e es)
  obtain fh1 where fh1: "on_event e fh = ret fh1" "handler_ok fh1"
    "q_contents (ring_queue fh1) = q_contents (ring_queue fh) @ take (room fh) (offered e)"
    "dropped_packets fh1 = dropped_packets fh + of_nat (length (offered e) - room fh)"
    "capacity (ring_queue fh1) = capacity (ring_queue fh)"
    using on_event_law [OF Cons.prems] by blast
  have room1: "room fh1 = room fh - length (offered e)"
    using fh1(3,5) by (simp add: room_def)
  obtain fh' where "on_events es fh1 = ret fh'" "handler_ok fh'"
    "q_contents (ring_queue fh') = q_contents (ring_queue fh1) @ take (room fh1) (concat (map offered es))"
    "dropped_packets fh' = dropped_packets fh1 + of_nat (length (concat (map offered es)) - room fh1)"
    "capacity (ring_queue fh') = capacity (ring_queue fh1)"
    using Cons.IH [OF fh1(2)] by blast
  moreover have "length (offered e) - room fh + (length (concat (map offered es)) - room fh1) =
      length (concat (map offered (e # es))) - room fh"
    unfolding room1 by simp
  ultimately show ?case
    using fh1 room1 by (auto simp flip: of_nat_add)
qed simp

section \<open>Properties\<close>

text \<open>C12. What the feed handler does with any sequence of network events while nothing is popped: it returns; the ring
  receives, in order of arrival and each exactly once, the datagrams of at least 56 bytes (cut at 56, stamped
  with their own time and free of bytes of earlier datagrams) as far as they fit; \<open>dropped_packets\<close> grows by
  exactly the number of those that did not fit; shorter datagrams and receive errors change neither; and
  the next receive is always pending.\<close>

theorem feed_handler_accounting:
  assumes "handler_ok fh"
  shows "\<exists>fh'. on_events es fh = ret fh' \<and> handler_ok fh' \<and>
    q_contents (ring_queue fh') = q_contents (ring_queue fh) @ take (room fh) (concat (map offered es)) \<and>
    dropped_packets fh' = dropped_packets fh + of_nat (length (concat (map offered es)) - room fh)"
  using on_events_law [OF assms, of es] by blast

definition sample_handler :: FeedHandler where
  "sample_handler = \<lparr>recv_buffer = \<lparr>ingress_tsc = 0, body = replicate 56 0\<rparr>, ring_queue = SPSCQueue_new 1,
     dropped_packets = 0, receiving = True, cerr = []\<rparr>"

lemma sample_handler_ok: "handler_ok sample_handler"
proof -
  have "has_single_bit 1" unfolding has_single_bit_def by (intro exI [of _ 0]) simp
  then show ?thesis
    using SPSCQueue_new_inv(1) by (simp add: handler_ok_def sample_handler_def payload_ok_def PAYLOAD_SIZE_def)
qed

lemma feed_handler_accounting_witness:
  "\<exists>fh'. on_events [Datagram 5 (replicate 60 1), Datagram 6 [2], ReceiveError 7 ''e'', Datagram 8 (replicate 56 3)] sample_handler = ret fh' \<and>
    q_contents (ring_queue fh') = [\<lparr>ingress_tsc = 5, body = replicate 56 1\<rparr>] \<and> dropped_packets fh' = 1"
proof -
  have r: "room sample_handler = 1"
    by (simp add: room_def sample_handler_def q_contents_def SPSCQueue_new_def q_size_def)
  have c: "q_contents (ring_queue sample_handler) = []"
    by (simp add: sample_handler_def q_contents_def SPSCQueue_new_def q_size_def)
  have d: "dropped_packets sample_handler = 0" by (simp add: sample_handler_def)
  show ?thesis
    using feed_handler_accounting [OF sample_handler_ok, of "[Datagram 5 (replicate 60 1), Datagram 6 [2], ReceiveError 7 ''e'', Datagram 8 (replicate 56 3)]"]
    by (auto simp: r c d PAYLOAD_SIZE_def)
qed

end
