(* ===== verification/PriceBitSet.thy ===== *)
theory PriceBitSet
  imports Prelude
begin

text \<open>
  The three-level price bitmap of \<^verbatim>\<open>include/PriceBitSet.h\<close>: the record of its three
  arrays, its four operations, the well-formedness invariant that ties the summary levels to
  level 0, and the interface locale \<open>price_index\<close> that the order book relies on. The
  template parameter \<open>MAX_TICKS\<close> is the argument \<open>mt\<close>.
\<close>

section \<open>Model\<close>

definition L0_SIZE :: "nat \<Rightarrow> nat" where
  "L0_SIZE mt = mt div 64 + 1"

definition L1_SIZE :: "nat \<Rightarrow> nat" where
  "L1_SIZE mt = L0_SIZE mt div 64 + 1"

record PriceBitSet =
  l0 :: "u64 vector"
  l1 :: "u64 vector"
  l2 :: u64

definition PriceBitSet_init :: "nat \<Rightarrow> PriceBitSet" where
  "PriceBitSet_init mt =
     \<lparr>l0 = vreplicate (L0_SIZE mt) 0, l1 = vreplicate (L1_SIZE mt) 0, l2 = 0\<rparr>"

text \<open>\<open>1ULL << n\<close>\<close>

definition shl1 :: "nat \<Rightarrow> u64 comp" where
  "shl1 n = (if n < 64 then ret (push_bit n 1) else undef ShiftTooWide)"

text \<open>\<open>v[i] |= 1ULL << n\<close> and \<open>v[i] &= ~(1ULL << n)\<close>\<close>

definition or_bit :: "u64 vector \<Rightarrow> nat \<Rightarrow> nat \<Rightarrow> u64 vector comp" where
  "or_bit v i n = seqc (shl1 n) (\<lambda>m. seqc (vget v i) (\<lambda>w. vset v i (w OR m)))"

definition and_not_bit :: "u64 vector \<Rightarrow> nat \<Rightarrow> nat \<Rightarrow> u64 vector comp" where
  "and_not_bit v i n = seqc (shl1 n) (\<lambda>m. seqc (vget v i) (\<lambda>w. vset v i (w AND NOT m)))"

definition bs_set :: "u32 \<Rightarrow> PriceBitSet \<Rightarrow> PriceBitSet comp" where
  "bs_set price s =
     (let l0_index = unat price div 64;
          l1_index = l0_index div 64
      in seqc (or_bit (l0 s) l0_index (unat price mod 64)) (\<lambda>a0.
         seqc (or_bit (l1 s) l1_index (l0_index mod 64)) (\<lambda>a1.
         seqc (shl1 l1_index) (\<lambda>m.
         ret \<lparr>l0 = a0, l1 = a1, l2 = l2 s OR m\<rparr>))))"

definition bs_clear :: "u32 \<Rightarrow> PriceBitSet \<Rightarrow> PriceBitSet comp" where
  "bs_clear price s =
     (let l0_index = unat price div 64;
          l1_index = l0_index div 64
      in seqc (and_not_bit (l0 s) l0_index (unat price mod 64)) (\<lambda>a0.
         seqc (vget a0 l0_index) (\<lambda>w0.
         if w0 = 0 then
           seqc (and_not_bit (l1 s) l1_index (l0_index mod 64)) (\<lambda>a1.
           seqc (vget a1 l1_index) (\<lambda>w1.
           if w1 = 0 then
             seqc (shl1 l1_index) (\<lambda>m.
             ret \<lparr>l0 = a0, l1 = a1, l2 = l2 s AND NOT m\<rparr>)
           else ret \<lparr>l0 = a0, l1 = a1, l2 = l2 s\<rparr>))
         else ret \<lparr>l0 = a0, l1 = l1 s, l2 = l2 s\<rparr>)))"

text \<open>An \<open>int\<close> used where a \<open>size_t\<close> is expected is converted modulo \<open>2\<^sup>6\<^sup>4\<close>.\<close>

definition size_t_of_int :: "int \<Rightarrow> u64" where
  "size_t_of_int i = word_of_int i"

definition get_highest :: "PriceBitSet \<Rightarrow> u32 comp" where
  "get_highest s =
     (if l2 s = 0 then ret 0
      else
        let l2_bit = 63 - int (countl_zero (l2 s))
        in seqc (vget (l1 s) (unat (size_t_of_int l2_bit))) (\<lambda>w1.
        let l1_bit = 63 - int (countl_zero w1);
            l0_idx = size_t_of_int (l2_bit * 64 + l1_bit)
        in seqc (vget (l0 s) (unat l0_idx)) (\<lambda>w0.
        let l0_bit = 63 - int (countl_zero w0)
        in ret (ucast (l0_idx * 64 + size_t_of_int l0_bit)))))"

definition get_lowest :: "PriceBitSet \<Rightarrow> u32 comp" where
  "get_lowest s =
     (if l2 s = 0 then ret UINT32_MAX
      else
        let l2_bit = int (countr_zero (l2 s))
        in seqc (vget (l1 s) (unat (size_t_of_int l2_bit))) (\<lambda>w1.
        let l1_bit = int (countr_zero w1);
            l0_idx = size_t_of_int (l2_bit * 64 + l1_bit)
        in seqc (vget (l0 s) (unat l0_idx)) (\<lambda>w0.
        let l0_bit = int (countr_zero w0)
        in ret (ucast (l0_idx * 64 + size_t_of_int l0_bit)))))"

section \<open>Abstraction and invariant\<close>

definition bs_member :: "PriceBitSet \<Rightarrow> nat \<Rightarrow> bool" where
  "bs_member s p \<longleftrightarrow> p div 64 < vsize (l0 s) \<and> bit (vat (l0 s) (p div 64)) (p mod 64)"

definition bs_members :: "PriceBitSet \<Rightarrow> nat set" where
  "bs_members s = {p. bs_member s p}"

definition bs_inv :: "nat \<Rightarrow> PriceBitSet \<Rightarrow> bool" where
  "bs_inv mt s \<longleftrightarrow>
     mt \<le> 262144 \<and>
     vsize (l0 s) = L0_SIZE mt \<and> vsize (l1 s) = L1_SIZE mt \<and>
     (\<forall>p. bs_member s p \<longrightarrow> p < mt) \<and>
     (\<forall>j k. j < L1_SIZE mt \<longrightarrow> k < 64 \<longrightarrow>
        (bit (vat (l1 s) j) k \<longleftrightarrow> j * 64 + k < L0_SIZE mt \<and> vat (l0 s) (j * 64 + k) \<noteq> 0)) \<and>
     (\<forall>j. bit (l2 s) j \<longleftrightarrow> j < L1_SIZE mt \<and> vat (l1 s) j \<noteq> 0)"

section \<open>The interface the order book uses\<close>

text \<open>
  A \<open>price_index\<close> keeps a set of prices below \<open>ticks\<close>. The laws are total: each operation
  returns, for every price in range. The derived lemmas are the facts behind the incremental
  best-price updates of \<^verbatim>\<open>OrderBook.h\<close>.
\<close>

locale price_index =
  fixes bset :: "u32 \<Rightarrow> 's \<Rightarrow> 's comp"
    and bclear :: "u32 \<Rightarrow> 's \<Rightarrow> 's comp"
    and highest :: "'s \<Rightarrow> u32 comp"
    and lowest :: "'s \<Rightarrow> u32 comp"
    and members :: "'s \<Rightarrow> nat set"
    and invar :: "'s \<Rightarrow> bool"
    and ticks :: nat
  assumes ticks_bound: "invar s \<Longrightarrow> ticks \<le> 2 ^ 18"
    and members_bound: "invar s \<Longrightarrow> q \<in> members s \<Longrightarrow> q < ticks"
    and set_law: "invar s \<Longrightarrow> unat p < ticks \<Longrightarrow>
          \<exists>s'. bset p s = ret s' \<and> invar s' \<and> members s' = insert (unat p) (members s)"
    and clear_law: "invar s \<Longrightarrow> unat p < ticks \<Longrightarrow>
          \<exists>s'. bclear p s = ret s' \<and> invar s' \<and> members s' = members s - {unat p}"
    and highest_law: "invar s \<Longrightarrow>
          highest s = ret (if members s = {} then 0 else of_nat (Max (members s)))"
    and lowest_law: "invar s \<Longrightarrow>
          lowest s = ret (if members s = {} then UINT32_MAX else of_nat (Min (members s)))"
begin

lemma finite_members: "invar s \<Longrightarrow> finite (members s)"
  by (rule finite_subset [of _ "{..<ticks}"]) (auto dest: members_bound)

lemma unat_member: "invar s \<Longrightarrow> p \<in> members s \<Longrightarrow> unat (of_nat p :: u32) = p"
proof -
  assume "invar s" "p \<in> members s"
  then have "p < 2 ^ 18" using ticks_bound members_bound by fastforce
  then show ?thesis by (simp add: unat_of_nat)
qed

lemma highest_member: "invar s \<Longrightarrow> members s \<noteq> {} \<Longrightarrow>
  \<exists>h. highest s = ret h \<and> unat h \<in> members s \<and> (\<forall>p\<in>members s. p \<le> unat h)"
  by (simp add: highest_law unat_member Max_in finite_members)

lemma lowest_member: "invar s \<Longrightarrow> members s \<noteq> {} \<Longrightarrow>
  \<exists>h. lowest s = ret h \<and> unat h \<in> members s \<and> (\<forall>p\<in>members s. unat h \<le> p)"
  by (simp add: lowest_law unat_member Min_in finite_members)

lemma member_less_UINT32_MAX:
  assumes "invar s" "p \<in> members s"
  shows "of_nat p < UINT32_MAX"
proof -
  have "p < 2 ^ 18" using assms ticks_bound members_bound by fastforce
  then show ?thesis
    using unat_member [OF assms] by (simp add: word_less_nat_alt UINT32_MAX_def)
qed

text \<open>Raising the highest price on insertion and lowering the lowest one is exact.\<close>

lemma highest_set:
  assumes "invar s" "unat p < ticks" "bset p s = ret s'" "highest s = ret h"
  shows "highest s' = ret (if p > h then p else h)"
proof -
  have s': "invar s'" "members s' = insert (unat p) (members s)"
    using set_law [OF assms(1,2)] assms(3) by auto
  have h: "h = (if members s = {} then 0 else of_nat (Max (members s)))"
    using highest_law [OF assms(1)] assms(4) by simp
  show ?thesis
  proof (cases "members s = {}")
    case True
    then show ?thesis using s' h by (auto simp: highest_law word_gt_0)
  next
    case False
    let ?M = "Max (members s)"
    have M: "unat h = ?M"
      using False h unat_member [OF assms(1) Max_in] finite_members [OF assms(1)] by simp
    have "Max (members s') = max (unat p) ?M"
      using False s' finite_members [OF assms(1)] by simp
    then show ?thesis
      using s' False M h by (auto simp: highest_law word_less_nat_alt max_def)
  qed
qed

lemma lowest_set:
  assumes "invar s" "unat p < ticks" "bset p s = ret s'" "lowest s = ret h"
  shows "lowest s' = ret (if p < h then p else h)"
proof -
  have s': "invar s'" "members s' = insert (unat p) (members s)"
    using set_law [OF assms(1,2)] assms(3) by auto
  have h: "h = (if members s = {} then UINT32_MAX else of_nat (Min (members s)))"
    using lowest_law [OF assms(1)] assms(4) by simp
  show ?thesis
  proof (cases "members s = {}")
    case True
    have "p < UINT32_MAX"
      using member_less_UINT32_MAX [OF s'(1), of "unat p"] s'(2) by simp
    then show ?thesis using s' h True by (simp add: lowest_law)
  next
    case False
    let ?M = "Min (members s)"
    have M: "unat h = ?M"
      using False h unat_member [OF assms(1) Min_in] finite_members [OF assms(1)] by simp
    have "Min (members s') = min (unat p) ?M"
      using False s' finite_members [OF assms(1)] by simp
    then show ?thesis
      using s' False M h by (auto simp: lowest_law word_less_nat_alt min_def)
  qed
qed

end

section \<open>Laws of the operations\<close>

named_theorems bs_simps "operations of the bitmap on in-range arguments"

lemma shl1_small [bs_simps]: "n < 64 \<Longrightarrow> shl1 n = ret (push_bit n 1)"
  by (simp add: shl1_def)

lemma or_bit_in [bs_simps]:
  "i < vsize v \<Longrightarrow> n < 64 \<Longrightarrow> or_bit v i n = ret (vupd v i (vat v i OR push_bit n 1))"
  by (simp add: or_bit_def shl1_small)

lemma and_not_bit_in [bs_simps]:
  "i < vsize v \<Longrightarrow> n < 64 \<Longrightarrow>
   and_not_bit v i n = ret (vupd v i (vat v i AND NOT (push_bit n 1)))"
  by (simp add: and_not_bit_def shl1_small)

lemma bs_inv_sizes:
  assumes "bs_inv mt s" and "p < mt"
  shows "p div 64 < vsize (l0 s)" "p div 64 div 64 < vsize (l1 s)" "p div 64 div 64 < 64"
proof -
  have "p div 64 \<le> mt div 64" using assms(2) by (simp add: div_le_mono)
  then have 1: "p div 64 < L0_SIZE mt" by (simp add: L0_SIZE_def)
  have 2: "p div 64 div 64 \<le> L0_SIZE mt div 64" using 1 by (simp add: div_le_mono)
  show "p div 64 < vsize (l0 s)" "p div 64 div 64 < vsize (l1 s)"
    using 1 2 assms(1) by (simp_all add: bs_inv_def L1_SIZE_def)
  have "mt \<le> 262144" using assms(1) by (simp add: bs_inv_def)
  then show "p div 64 div 64 < 64" using assms(2) by linarith
qed

lemma bs_init_inv: "mt \<le> 262144 \<Longrightarrow> bs_inv mt (PriceBitSet_init mt)"
  by (simp add: bs_inv_def PriceBitSet_init_def bs_member_def)

lemma bs_init_members: "bs_members (PriceBitSet_init mt) = {}"
  by (simp add: bs_members_def PriceBitSet_init_def bs_member_def)

lemma bs_inv_l1_bit:
  "bs_inv mt s \<Longrightarrow> j < L1_SIZE mt \<Longrightarrow> k < 64 \<Longrightarrow>
   bit (vat (l1 s) j) k \<longleftrightarrow> j * 64 + k < L0_SIZE mt \<and> vat (l0 s) (j * 64 + k) \<noteq> 0"
  by (simp add: bs_inv_def)

lemma bs_inv_l2_bit:
  "bs_inv mt s \<Longrightarrow> bit (l2 s) j \<longleftrightarrow> j < L1_SIZE mt \<and> vat (l1 s) j \<noteq> 0"
  by (simp add: bs_inv_def)

lemma bs_set_eq:
  assumes "bs_inv mt s" and "unat p < mt"
  defines "i \<equiv> unat p div 64" and "j \<equiv> unat p div 64 div 64"
  shows "bs_set p s = ret
     \<lparr>l0 = vupd (l0 s) i (vat (l0 s) i OR push_bit (unat p mod 64) 1),
      l1 = vupd (l1 s) j (vat (l1 s) j OR push_bit (i mod 64) 1),
      l2 = l2 s OR push_bit j 1\<rparr>"
  using bs_inv_sizes [OF assms(1,2)] by (simp add: bs_set_def bs_simps i_def j_def Let_def)

lemma div_mod_64_eq: "(q div 64 = p div 64 \<and> q mod 64 = p mod (64::nat)) \<longleftrightarrow> q = p"
  by (metis div_mult_mod_eq)

lemma or_push_neq_0: "n < 64 \<Longrightarrow> (w :: u64) OR 2 ^ n \<noteq> 0"
  by (auto simp: word64_neq_0_iff)

lemma bs_set_law:
  assumes inv: "bs_inv mt s" and p: "unat p < mt"
  shows "\<exists>s'. bs_set p s = ret s' \<and> bs_inv mt s' \<and> bs_members s' = insert (unat p) (bs_members s)"
proof -
  define i where "i = unat p div 64"
  define j where "j = i div 64"
  define s' where "s' =
     \<lparr>l0 = vupd (l0 s) i (vat (l0 s) i OR push_bit (unat p mod 64) 1),
      l1 = vupd (l1 s) j (vat (l1 s) j OR push_bit (i mod 64) 1),
      l2 = l2 s OR push_bit j 1\<rparr>"
  note sz = bs_inv_sizes [OF inv p, folded i_def, folded j_def]
  have eq: "bs_set p s = ret s'"
    using bs_set_eq [OF inv p] by (simp add: s'_def i_def j_def)
  have mem: "bs_member s' q \<longleftrightarrow> bs_member s q \<or> q = unat p" for q
    using sz(1) div_mod_64_eq [of q "unat p"]
    by (auto simp: bs_member_def s'_def vat_vupd i_def)
  have l1': "bit (vat (l1 s') b) k \<longleftrightarrow> b * 64 + k < L0_SIZE mt \<and> vat (l0 s') (b * 64 + k) \<noteq> 0"
    if "b < L1_SIZE mt" "k < 64" for b k
  proof -
    have *: "b * 64 + k = i \<longleftrightarrow> b = j \<and> k = i mod 64"
      using that(2) by (auto simp: j_def)
    have "i < L0_SIZE mt" using sz(1) inv by (simp add: bs_inv_def)
    then show ?thesis
      using bs_inv_l1_bit [OF inv that] * that
      by (cases "b = j"; cases "k = i mod 64") (auto simp: s'_def vat_vupd or_push_neq_0)
  qed
  have l2': "bit (l2 s') b \<longleftrightarrow> b < L1_SIZE mt \<and> vat (l1 s') b \<noteq> 0" for b
    using bs_inv_l2_bit [OF inv, of b] sz inv
    by (auto simp: s'_def vat_vupd or_push_neq_0 bs_inv_def)
  have "bs_inv mt s'"
    using inv mem p l1' l2' unfolding bs_inv_def by (auto simp: s'_def)
  then show ?thesis using eq mem by (auto simp: bs_members_def)
qed

lemma bs_clear_law:
  assumes inv: "bs_inv mt s" and p: "unat p < mt"
  shows "\<exists>s'. bs_clear p s = ret s' \<and> bs_inv mt s' \<and> bs_members s' = bs_members s - {unat p}"
proof -
  define i where "i = unat p div 64"
  define j where "j = i div 64"
  define w0 where "w0 = vat (l0 s) i AND NOT (push_bit (unat p mod 64) 1)"
  define w1 where "w1 = (if w0 = 0 then vat (l1 s) j AND NOT (push_bit (i mod 64) 1) else vat (l1 s) j)"
  define w2 where "w2 = (if w0 = 0 \<and> w1 = 0 then l2 s AND NOT (push_bit j 1) else l2 s)"
  define s' where "s' = \<lparr>l0 = vupd (l0 s) i w0, l1 = vupd (l1 s) j w1, l2 = w2\<rparr>"
  note sz = bs_inv_sizes [OF inv p, folded i_def, folded j_def]
  have eq: "bs_clear p s = ret s'"
    using sz by (simp add: bs_clear_def bs_simps Let_def s'_def w0_def w1_def w2_def i_def j_def)
  have mem: "bs_member s' q \<longleftrightarrow> bs_member s q \<and> q \<noteq> unat p" for q
    using sz(1) div_mod_64_eq [of q "unat p"]
    by (auto simp: bs_member_def s'_def vat_vupd i_def w0_def)
  have il0: "i < L0_SIZE mt" "j < L1_SIZE mt" using sz inv by (simp_all add: bs_inv_def)
  have i_eq: "j * 64 + i mod 64 = i" by (simp add: j_def)
  have w0_nz: "vat (l0 s) i \<noteq> 0" if "w0 \<noteq> 0"
    using that by (auto simp: w0_def)
  have l1': "bit (vat (l1 s') b) k \<longleftrightarrow> b * 64 + k < L0_SIZE mt \<and> vat (l0 s') (b * 64 + k) \<noteq> 0"
    if "b < L1_SIZE mt" "k < 64" for b k
  proof -
    have *: "b * 64 + k = i \<longleftrightarrow> b = j \<and> k = i mod 64"
      using that(2) by (auto simp: j_def)
    show ?thesis
      using bs_inv_l1_bit [OF inv that] * that il0 w0_nz i_eq
      by (cases "b = j"; cases "k = i mod 64") (auto simp: s'_def vat_vupd w1_def)
  qed
  have w1_le: "vat (l1 s) j \<noteq> 0" if "w1 \<noteq> 0" using that by (auto simp: w1_def split: if_splits)
  have w1_same: "w1 = vat (l1 s) j" if "w0 \<noteq> 0" using that by (simp add: w1_def)
  have l2': "bit (l2 s') b \<longleftrightarrow> b < L1_SIZE mt \<and> vat (l1 s') b \<noteq> 0" for b
    using bs_inv_l2_bit [OF inv, of b] sz il0 w1_le w1_same
    by (cases "b = j") (auto simp: s'_def vat_vupd w2_def)
  have "bs_inv mt s'"
    using inv mem p l1' l2' unfolding bs_inv_def by (auto simp: s'_def)
  then show ?thesis using eq mem by (auto simp: bs_members_def)
qed

text \<open>Reading the path from the summary levels down to a member, and back up.\<close>

lemma bs_member_up:
  assumes inv: "bs_inv mt s" and m: "bs_member s p"
  shows "vat (l0 s) (p div 64) \<noteq> 0" "bit (vat (l1 s) (p div 64 div 64)) (p div 64 mod 64)"
    "bit (l2 s) (p div 64 div 64)"
proof -
  have "p < mt" using inv m by (simp add: bs_inv_def)
  note sz = bs_inv_sizes [OF inv this]
  have j: "p div 64 div 64 < L1_SIZE mt" "p div 64 < L0_SIZE mt" using sz inv by (simp_all add: bs_inv_def)
  show 1: "vat (l0 s) (p div 64) \<noteq> 0" using m by (auto simp: bs_member_def)
  show 2: "bit (vat (l1 s) (p div 64 div 64)) (p div 64 mod 64)"
    using bs_inv_l1_bit [OF inv j(1), of "p div 64 mod 64"] j(2) 1 by simp
  then have "vat (l1 s) (p div 64 div 64) \<noteq> 0" by auto
  then show "bit (l2 s) (p div 64 div 64)" using bs_inv_l2_bit [OF inv] j(1) by simp
qed

lemma base_64: "c < 64 \<Longrightarrow> (i * 64 + c) div 64 = i" "c < 64 \<Longrightarrow> (i * 64 + c) mod 64 = (c :: nat)"
  by simp_all

lemma bs_l2_zero_iff: "bs_inv mt s \<Longrightarrow> l2 s = 0 \<longleftrightarrow> bs_members s = {}"
proof
  assume inv: "bs_inv mt s" and "l2 s = 0"
  then show "bs_members s = {}" using bs_member_up(3) [OF inv] by (auto simp: bs_members_def)
next
  assume inv: "bs_inv mt s" and e: "bs_members s = {}"
  show "l2 s = 0"
  proof (rule ccontr)
    assume "l2 s \<noteq> 0"
    then obtain j where j: "j < L1_SIZE mt" "vat (l1 s) j \<noteq> 0"
      using bs_inv_l2_bit [OF inv] word64_neq_0_iff by blast
    then obtain k where k: "k < 64" "j * 64 + k < L0_SIZE mt" "vat (l0 s) (j * 64 + k) \<noteq> 0"
      using bs_inv_l1_bit [OF inv j(1)] word64_neq_0_iff by blast
    then obtain b where b: "b < 64" "bit (vat (l0 s) (j * 64 + k)) b"
      using word64_neq_0_iff by blast
    have "bs_member s ((j * 64 + k) * 64 + b)"
      unfolding bs_member_def base_64 [OF b(1)] using k b inv by (simp add: bs_inv_def)
    then show False using e by (auto simp: bs_members_def)
  qed
qed

lemma unat_size_t [simp]: "n < 2 ^ 64 \<Longrightarrow> unat (size_t_of_int (int n)) = n"
  by (simp add: size_t_of_int_def unat_of_nat)

lemma bs_price_of_idx:
  assumes "i < 4096" "b < 64"
  shows "ucast (size_t_of_int (int i) * 64 + size_t_of_int (int b)) = (of_nat (i * 64 + b) :: u32)"
proof -
  have "size_t_of_int (int i) * 64 + size_t_of_int (int b) = (of_nat (i * 64 + b) :: u64)"
    by (simp add: size_t_of_int_def)
  then show ?thesis
    using assms by (simp add: unsigned_of_nat take_bit_nat_eq_self del: of_nat_add of_nat_mult)
qed

lemma get_highest_path:
  assumes inv: "bs_inv mt s" and ne: "l2 s \<noteq> 0"
  shows "\<exists>p. bs_member s p \<and> (\<forall>q. bs_member s q \<longrightarrow> q \<le> p) \<and> get_highest s = ret (of_nat p)"
proof -
  define a where "a = 63 - countl_zero (l2 s)"
  have a: "a < 64" "bit (l2 s) a" "\<And>i. bit (l2 s) i \<Longrightarrow> i \<le> a" "63 - int (countl_zero (l2 s)) = int a"
    using countl_zero_spec [OF ne] by (auto simp: a_def)
  have w1: "a < L1_SIZE mt" "vat (l1 s) a \<noteq> 0" using a(2) bs_inv_l2_bit [OF inv] by auto
  define b where "b = 63 - countl_zero (vat (l1 s) a)"
  have b: "b < 64" "bit (vat (l1 s) a) b" "\<And>i. bit (vat (l1 s) a) i \<Longrightarrow> i \<le> b"
    "63 - int (countl_zero (vat (l1 s) a)) = int b"
    using countl_zero_spec [OF w1(2)] by (auto simp: b_def)
  define i where "i = a * 64 + b"
  have w0: "i < L0_SIZE mt" "vat (l0 s) i \<noteq> 0"
    using b(2) bs_inv_l1_bit [OF inv w1(1) b(1)] by (auto simp: i_def)
  define c where "c = 63 - countl_zero (vat (l0 s) i)"
  have c: "c < 64" "bit (vat (l0 s) i) c" "\<And>k. bit (vat (l0 s) i) k \<Longrightarrow> k \<le> c"
    "63 - int (countl_zero (vat (l0 s) i)) = int c"
    using countl_zero_spec [OF w0(2)] by (auto simp: c_def)
  define p where "p = i * 64 + c"
  have pd: "p div 64 = i" "p mod 64 = c" "i div 64 = a" "i mod 64 = b"
    unfolding p_def base_64 [OF c(1)] i_def base_64 [OF b(1)] by simp_all
  have m: "bs_member s p" using w0 c(2) pd inv by (simp add: bs_member_def bs_inv_def)
  have le: "q \<le> p" if q: "bs_member s q" for q
  proof -
    note up = bs_member_up [OF inv q]
    have 1: "q div 64 div 64 \<le> a" using up(3) a(3) by simp
    have 2: "q div 64 mod 64 \<le> b" if "q div 64 div 64 = a" using up(2) b(3) that by simp
    have "q div 64 \<le> i"
    proof (cases "q div 64 div 64 = a")
      case True
      then show ?thesis using 2 div_mult_mod_eq [of "q div 64" 64] by (simp add: i_def)
    next
      case False
      then show ?thesis using 1 b(1) unfolding i_def by linarith
    qed
    moreover have "q mod 64 \<le> c" if "q div 64 = i" using q c(3) that by (simp add: bs_member_def)
    ultimately show ?thesis
      using div_mult_mod_eq [of q 64] mod_less_divisor [of 64 q] unfolding p_def
      by (cases "q div 64 = i") (auto, linarith?)
  qed
  have sz: "vsize (l1 s) = L1_SIZE mt" "vsize (l0 s) = L0_SIZE mt" using inv by (simp_all add: bs_inv_def)
  have "i < 4096" using a(1) b(1) by (simp add: i_def)
  have idx: "int a * 64 + int b = int i" by (simp add: i_def)
  have "get_highest s = ret (ucast (size_t_of_int (int i) * 64 + size_t_of_int (int c)))"
    using ne w1 w0 \<open>i < 4096\<close> a(1) by (simp add: get_highest_def Let_def a(4) b(4) c(4) idx sz)
  then have "get_highest s = ret (of_nat p)"
    using bs_price_of_idx [OF \<open>i < 4096\<close> c(1)] by (simp add: p_def)
  then show ?thesis using m le by blast
qed

lemma get_lowest_path:
  assumes inv: "bs_inv mt s" and ne: "l2 s \<noteq> 0"
  shows "\<exists>p. bs_member s p \<and> (\<forall>q. bs_member s q \<longrightarrow> p \<le> q) \<and> get_lowest s = ret (of_nat p)"
proof -
  define a where "a = countr_zero (l2 s)"
  have a: "a < 64" "bit (l2 s) a" "\<And>i. bit (l2 s) i \<Longrightarrow> a \<le> i"
    using countr_zero_spec [OF ne] by (auto simp: a_def)
  have w1: "a < L1_SIZE mt" "vat (l1 s) a \<noteq> 0" using a(2) bs_inv_l2_bit [OF inv] by auto
  define b where "b = countr_zero (vat (l1 s) a)"
  have b: "b < 64" "bit (vat (l1 s) a) b" "\<And>i. bit (vat (l1 s) a) i \<Longrightarrow> b \<le> i"
    using countr_zero_spec [OF w1(2)] by (auto simp: b_def)
  define i where "i = a * 64 + b"
  have w0: "i < L0_SIZE mt" "vat (l0 s) i \<noteq> 0"
    using b(2) bs_inv_l1_bit [OF inv w1(1) b(1)] by (auto simp: i_def)
  define c where "c = countr_zero (vat (l0 s) i)"
  have c: "c < 64" "bit (vat (l0 s) i) c" "\<And>k. bit (vat (l0 s) i) k \<Longrightarrow> c \<le> k"
    using countr_zero_spec [OF w0(2)] by (auto simp: c_def)
  define p where "p = i * 64 + c"
  have pd: "p div 64 = i" "p mod 64 = c" "i div 64 = a" "i mod 64 = b"
    unfolding p_def base_64 [OF c(1)] i_def base_64 [OF b(1)] by simp_all
  have m: "bs_member s p" using w0 c(2) pd inv by (simp add: bs_member_def bs_inv_def)
  have le: "p \<le> q" if q: "bs_member s q" for q
  proof -
    note up = bs_member_up [OF inv q]
    have 1: "a \<le> q div 64 div 64" using up(3) a(3) by simp
    have 2: "b \<le> q div 64 mod 64" if "q div 64 div 64 = a" using up(2) b(3) that by simp
    have "i \<le> q div 64"
    proof (cases "q div 64 div 64 = a")
      case True
      then show ?thesis using 2 div_mult_mod_eq [of "q div 64" 64] by (simp add: i_def)
    next
      case False
      then show ?thesis using 1 b(1) unfolding i_def by linarith
    qed
    moreover have "c \<le> q mod 64" if "q div 64 = i" using q c(3) that by (simp add: bs_member_def)
    ultimately show ?thesis
      using div_mult_mod_eq [of q 64] c(1) unfolding p_def
      by (cases "q div 64 = i") (auto, linarith?)
  qed
  have sz: "vsize (l1 s) = L1_SIZE mt" "vsize (l0 s) = L0_SIZE mt" using inv by (simp_all add: bs_inv_def)
  have "i < 4096" using a(1) b(1) by (simp add: i_def)
  have idx: "int a * 64 + int b = int i" by (simp add: i_def)
  have "get_lowest s = ret (ucast (size_t_of_int (int i) * 64 + size_t_of_int (int c)))"
    using ne w1 w0 \<open>i < 4096\<close> a(1)
    by (simp add: get_lowest_def Let_def a_def [symmetric] b_def [symmetric] c_def [symmetric] idx sz)
  then have "get_lowest s = ret (of_nat p)"
    using bs_price_of_idx [OF \<open>i < 4096\<close> c(1)] by (simp add: p_def)
  then show ?thesis using m le by blast
qed

lemma bs_highest_law:
  assumes inv: "bs_inv mt s"
  shows "get_highest s = ret (if bs_members s = {} then 0 else of_nat (Max (bs_members s)))"
proof (cases "l2 s = 0")
  case True
  then show ?thesis using bs_l2_zero_iff [OF inv] by (simp add: get_highest_def)
next
  case False
  obtain p where p: "bs_member s p" "\<forall>q. bs_member s q \<longrightarrow> q \<le> p" "get_highest s = ret (of_nat p)"
    using get_highest_path [OF inv False] by blast
  have "finite (bs_members s)"
    by (rule finite_subset [of _ "{..p}"]) (use p(2) in \<open>auto simp: bs_members_def\<close>)
  then have "Max (bs_members s) = p"
    by (rule Max_eqI) (use p(1,2) in \<open>simp_all add: bs_members_def\<close>)
  then show ?thesis using p bs_l2_zero_iff [OF inv] False by simp
qed

lemma bs_lowest_law:
  assumes inv: "bs_inv mt s"
  shows "get_lowest s = ret (if bs_members s = {} then UINT32_MAX else of_nat (Min (bs_members s)))"
proof (cases "l2 s = 0")
  case True
  then show ?thesis using bs_l2_zero_iff [OF inv] by (simp add: get_lowest_def)
next
  case False
  obtain p where p: "bs_member s p" "\<forall>q. bs_member s q \<longrightarrow> p \<le> q" "get_lowest s = ret (of_nat p)"
    using get_lowest_path [OF inv False] by blast
  have "finite (bs_members s)"
    by (rule finite_subset [of _ "{..<mt}"]) (use inv in \<open>auto simp: bs_members_def bs_inv_def\<close>)
  then have "Min (bs_members s) = p"
    by (rule Min_eqI) (use p(1,2) in \<open>simp_all add: bs_members_def\<close>)
  then show ?thesis using p bs_l2_zero_iff [OF inv] False by simp
qed

interpretation pbs: price_index bs_set bs_clear get_highest get_lowest bs_members "bs_inv mt" mt
  for mt
proof (unfold_locales, goal_cases)
  case (1 s)
  then show ?case by (simp add: bs_inv_def)
next
  case (2 s q)
  then show ?case by (simp add: bs_inv_def bs_members_def)
next
  case (3 s p)
  then show ?case by (rule bs_set_law)
next
  case (4 s p)
  then show ?case by (rule bs_clear_law)
next
  case (5 s)
  then show ?case by (rule bs_highest_law)
next
  case (6 s)
  then show ?case by (rule bs_lowest_law)
qed

section \<open>Properties\<close>

text \<open>C15. \<open>set\<close> and \<open>clear\<close> on the three-level bitmap return for every price below the number of ticks, keep the
  summary levels consistent with the leaf words, and change the represented set by exactly that price.\<close>

theorem bitmap_set_clear:
  assumes "bs_inv mt s" "unat p < mt"
  shows "(\<exists>s'. bs_set p s = ret s' \<and> bs_inv mt s' \<and> bs_members s' = insert (unat p) (bs_members s)) \<and>
    (\<exists>s'. bs_clear p s = ret s' \<and> bs_inv mt s' \<and> bs_members s' = bs_members s - {unat p})"
  using pbs.set_law [OF assms] pbs.clear_law [OF assms] by blast

lemma bitmap_set_clear_witness:
  "(\<exists>s'. bs_set 100500 (PriceBitSet_init 262144) = ret s' \<and> bs_inv 262144 s' \<and>
      bs_members s' = insert (unat (100500 :: u32)) (bs_members (PriceBitSet_init 262144))) \<and>
    (\<exists>s'. bs_clear 100500 (PriceBitSet_init 262144) = ret s' \<and> bs_inv 262144 s' \<and>
      bs_members s' = bs_members (PriceBitSet_init 262144) - {unat (100500 :: u32)})"
  by (rule bitmap_set_clear [OF bs_init_inv]) simp_all

text \<open>C16. \<open>get_highest\<close> and \<open>get_lowest\<close>, which follow one bit per level, return the greatest and the least price of the
  represented set, and 0 and \<open>UINT32_MAX\<close> for the empty set.\<close>

theorem bitmap_extremes:
  assumes "bs_inv mt s"
  shows "get_highest s = ret (if bs_members s = {} then 0 else of_nat (Max (bs_members s))) \<and>
    get_lowest s = ret (if bs_members s = {} then UINT32_MAX else of_nat (Min (bs_members s)))"
  using pbs.highest_law [OF assms] pbs.lowest_law [OF assms] by blast

lemma bitmap_extremes_witness:
  "\<exists>s. bs_set 100500 (PriceBitSet_init 262144) = ret s \<and> get_highest s = ret 100500 \<and> get_lowest s = ret 100500"
proof -
  obtain s where s: "bs_set 100500 (PriceBitSet_init 262144) = ret s" "bs_inv 262144 s" "bs_members s = {100500}"
    using bs_set_law [OF bs_init_inv, of 262144 "100500"] by (auto simp: bs_init_members)
  then show ?thesis using bitmap_extremes [OF s(2)] by simp
qed

end
