(* ===== verification/OrderPool.thy ===== *)
theory OrderPool
  imports Prelude
begin

text \<open>
  The order record and the order pool of \<^verbatim>\<open>include/OrderBook.h\<close> (lines 9 to 56). A pointer
  to an \<open>Order\<close> is an index into the pool. \<open>quantity\<close> is a 31-bit bit-field, so it is a
  \<open>31 word\<close>: storing a larger value keeps its low 31 bits.
\<close>

section \<open>Model\<close>

record Order =
  oid :: u64
  prv :: ptr
  nxt :: ptr
  oprice :: u32
  quantity :: "31 word"
  is_buy :: bool

definition Order_zero :: Order where
  "Order_zero = \<lparr>oid = 0, prv = None, nxt = None, oprice = 0, quantity = 0, is_buy = False\<rparr>"

record OrderPool =
  slots :: "Order vector"
  free_list :: "nat list"

text \<open>The constructor: \<open>capacity\<close> zeroed orders, each pushed on the free list in turn.\<close>

definition OrderPool_new :: "nat \<Rightarrow> OrderPool" where
  "OrderPool_new capacity =
     \<lparr>slots = vreplicate capacity Order_zero,
      free_list = foldl (\<lambda>fl i. fl @ [i]) [] [0..<capacity]\<rparr>"

definition allocate :: "OrderPool \<Rightarrow> ptr \<times> OrderPool" where
  "allocate pl =
     (if free_list pl = [] then (None, pl)
      else (Some (last (free_list pl)), pl\<lparr>free_list := butlast (free_list pl)\<rparr>))"

definition deallocate :: "nat \<Rightarrow> OrderPool \<Rightarrow> OrderPool comp" where
  "deallocate order pl =
     seqc (assign (slots pl) (Some order) (\<lambda>x. x\<lparr>prv := None\<rparr>)) (\<lambda>v.
     seqc (assign v (Some order) (\<lambda>x. x\<lparr>nxt := None\<rparr>)) (\<lambda>v.
     ret (pl\<lparr>slots := v, free_list := free_list pl @ [order]\<rparr>)))"

section \<open>Invariant\<close>

text \<open>
  The free list names distinct slots of the pool, and the links of a free slot are null: this is
  what lets \<open>add_order\<close> link a fresh order without resetting its pointers.
\<close>

definition pool_inv :: "OrderPool \<Rightarrow> bool" where
  "pool_inv pl \<longleftrightarrow>
     distinct (free_list pl) \<and>
     (\<forall>i\<in>set (free_list pl). i < vsize (slots pl) \<and>
        prv (vat (slots pl) i) = None \<and> nxt (vat (slots pl) i) = None)"

definition pool_used :: "OrderPool \<Rightarrow> nat set" where
  "pool_used pl = {i. i < vsize (slots pl)} - set (free_list pl)"

section \<open>The interface: a fixed set of slots handed out and taken back\<close>

text \<open>
  \<open>clear_slot\<close> describes the state of a slot that is handed out. The derived lemmas count:
  the pool refuses an allocation exactly when every slot is in use.
\<close>

locale slot_allocator =
  fixes alloc :: "'p \<Rightarrow> nat option \<times> 'p"
    and dealloc :: "nat \<Rightarrow> 'p \<Rightarrow> 'p comp"
    and used :: "'p \<Rightarrow> nat set"
    and capacity :: "'p \<Rightarrow> nat"
    and clear_slot :: "'p \<Rightarrow> nat \<Rightarrow> bool"
    and invar :: "'p \<Rightarrow> bool"
  assumes used_bound: "invar p \<Longrightarrow> used p \<subseteq> {..<capacity p}"
    and alloc_none: "invar p \<Longrightarrow> fst (alloc p) = None \<longleftrightarrow> used p = {..<capacity p}"
    and alloc_none_id: "fst (alloc p) = None \<Longrightarrow> snd (alloc p) = p"
    and alloc_some: "invar p \<Longrightarrow> alloc p = (Some i, p') \<Longrightarrow>
          i < capacity p \<and> i \<notin> used p \<and> clear_slot p' i \<and> invar p' \<and>
          used p' = insert i (used p) \<and> capacity p' = capacity p"
    and dealloc_law: "invar p \<Longrightarrow> i \<in> used p \<Longrightarrow>
          \<exists>p'. dealloc i p = ret p' \<and> invar p' \<and> used p' = used p - {i} \<and>
               capacity p' = capacity p"
begin

lemma finite_used: "invar p \<Longrightarrow> finite (used p)"
  using finite_subset [OF used_bound finite_lessThan] by simp

lemma alloc_succeeds_if_room:
  assumes "invar p" "card (used p) < capacity p"
  shows "\<exists>i p'. alloc p = (Some i, p')"
proof (cases "alloc p")
  case (Pair r p')
  have "used p \<noteq> {..<capacity p}"
    using assms(2) by (metis card_lessThan less_irrefl)
  then show ?thesis using alloc_none [OF assms(1)] Pair by (cases r) auto
qed

lemma alloc_then_dealloc:
  assumes "invar p" "alloc p = (Some i, p')"
  shows "\<exists>p''. dealloc i p' = ret p'' \<and> invar p'' \<and> used p'' = used p"
proof -
  have "i \<notin> used p" "invar p'" "used p' = insert i (used p)"
    using alloc_some [OF assms] by auto
  then show ?thesis using dealloc_law [of p' i] by auto
qed

end

section \<open>The pool implements the interface\<close>

lemma foldl_snoc: "foldl (\<lambda>fl i. fl @ [i]) acc xs = acc @ xs"
  by (induction xs arbitrary: acc) auto

lemma free_list_new [simp]: "free_list (OrderPool_new n) = [0..<n]"
  by (simp add: OrderPool_new_def foldl_snoc)

lemma slots_new [simp]: "slots (OrderPool_new n) = vreplicate n Order_zero"
  by (simp add: OrderPool_new_def)

lemma pool_new_inv: "pool_inv (OrderPool_new n)"
  by (simp add: pool_inv_def Order_zero_def)

lemma pool_new_used: "pool_used (OrderPool_new n) = {}"
  by (auto simp: pool_used_def)

lemma deallocate_eq:
  "i < vsize (slots pl) \<Longrightarrow> deallocate i pl =
     ret (pl\<lparr>slots := vupd (slots pl) i ((vat (slots pl) i)\<lparr>prv := None, nxt := None\<rparr>),
             free_list := free_list pl @ [i]\<rparr>)"
  by (simp add: deallocate_def)

interpretation opool: slot_allocator allocate deallocate pool_used "\<lambda>pl. vsize (slots pl)"
  "\<lambda>pl i. prv (vat (slots pl) i) = None \<and> nxt (vat (slots pl) i) = None" pool_inv
proof (unfold_locales, goal_cases)
  case (1 p)
  then show ?case by (auto simp: pool_used_def)
next
  case (2 p)
  then have "pool_used p = {..<vsize (slots p)} \<longleftrightarrow> free_list p = []"
    by (cases "free_list p") (auto simp: pool_used_def pool_inv_def)
  then show ?case by (simp add: allocate_def)
next
  case (3 p)
  then show ?case by (simp add: allocate_def split: if_splits)
next
  case (4 p i p')
  then obtain fl where fl: "free_list p = fl @ [i]" "p' = p\<lparr>free_list := fl\<rparr>"
    by (cases "free_list p" rule: rev_cases) (auto simp: allocate_def)
  then show ?case using 4(1) by (auto simp: pool_used_def pool_inv_def)
next
  case (5 p i)
  then have i: "i < vsize (slots p)" "i \<notin> set (free_list p)" by (auto simp: pool_used_def)
  show ?case
    using 5 i by (auto simp: deallocate_eq pool_inv_def pool_used_def vat_vupd)
qed

section \<open>Properties\<close>

text \<open>The order pool: \<open>allocate\<close> fails exactly when every slot is in use and then changes nothing; otherwise it
  hands out a slot that was not in use, whose links are null; \<open>deallocate\<close> of a used slot returns and gives that
  slot back.\<close>

theorem pool_allocation:
  assumes "pool_inv pl"
  shows "(fst (allocate pl) = None \<longleftrightarrow> pool_used pl = {..<vsize (slots pl)}) \<and>
    (fst (allocate pl) = None \<longrightarrow> snd (allocate pl) = pl) \<and>
    (\<forall>i pl'. allocate pl = (Some i, pl') \<longrightarrow> i \<notin> pool_used pl \<and> pool_inv pl' \<and> pool_used pl' = insert i (pool_used pl) \<and>
      prv (vat (slots pl') i) = None \<and> nxt (vat (slots pl') i) = None) \<and>
    (\<forall>i\<in>pool_used pl. \<exists>pl'. deallocate i pl = ret pl' \<and> pool_inv pl' \<and> pool_used pl' = pool_used pl - {i})"
  using opool.alloc_none [OF assms] opool.alloc_none_id [of pl] opool.alloc_some [OF assms] opool.dealloc_law [OF assms]
  by blast

lemma pool_allocation_witness:
  "(fst (allocate (OrderPool_new 1)) = None \<longleftrightarrow> pool_used (OrderPool_new 1) = {..<vsize (slots (OrderPool_new 1))}) \<and>
   (\<exists>pl'. allocate (OrderPool_new 1) = (Some 0, pl') \<and> pool_used pl' = {0} \<and>
     (\<exists>pl''. deallocate 0 pl' = ret pl'' \<and> pool_used pl'' = {}))"
proof -
  obtain pl' where a: "allocate (OrderPool_new 1) = (Some 0, pl')" by (simp add: allocate_def)
  have p: "pool_inv pl'" "pool_used pl' = {0}"
    using pool_allocation [OF pool_new_inv, of 1] a by (auto simp: pool_new_used)
  then show ?thesis
    using pool_allocation [OF pool_new_inv, of 1] pool_allocation [OF p(1)] a by auto
qed

end
