(* ===== verification/OrderBook.thy ===== *)
theory OrderBook
  imports PriceBitSet OrderPool
begin

text \<open>
  The limit order book of \<^verbatim>\<open>include/OrderBook.h\<close> (lines 21 to 25 and 58 to 236), statement by
  statement: every vector access is checked, every pointer access is checked, the two loops of
  \<open>match_order\<close> are \<^theory_text>\<open>partial_function\<close>s whose value is \<open>None\<close> when the loop
  never ends. The sizes of the vectors are fields of the state; \<open>OrderBook_init\<close> is the
  constructor with the source's constants.
\<close>

record PriceLevel =
  head :: ptr
  tail :: ptr
  total_quantity :: u64

definition PriceLevel_init :: PriceLevel where
  "PriceLevel_init = \<lparr>head = None, tail = None, total_quantity = 0\<rparr>"

record OrderBook =
  pool :: OrderPool
  bids :: "PriceLevel vector"
  asks :: "PriceLevel vector"
  order_map :: "ptr vector"
  bid_bits :: PriceBitSet
  ask_bits :: PriceBitSet
  best_bid :: u32
  best_ask :: u32

definition MAX_TICKS :: nat where
  "MAX_TICKS = 262144"

definition MAX_ORDERS :: nat where
  "MAX_ORDERS = 1500000"

definition OrderBook_new :: "nat \<Rightarrow> nat \<Rightarrow> OrderBook" where
  "OrderBook_new max_ticks max_orders =
     \<lparr>pool = OrderPool_new max_orders,
      bids = vreplicate max_ticks PriceLevel_init,
      asks = vreplicate max_ticks PriceLevel_init,
      order_map = vreplicate max_orders None,
      bid_bits = PriceBitSet_init max_ticks,
      ask_bits = PriceBitSet_init max_ticks,
      best_bid = 0,
      best_ask = UINT32_MAX\<rparr>"

definition OrderBook_init :: OrderBook where
  "OrderBook_init = OrderBook_new MAX_TICKS MAX_ORDERS"

definition get_best_bid :: "OrderBook \<Rightarrow> u32" where
  "get_best_bid bk = best_bid bk"

definition get_best_ask :: "OrderBook \<Rightarrow> u32" where
  "get_best_ask bk = best_ask bk"

text \<open>\<open>is_buy ? _bids[price] : _asks[price]\<close>, read and written through the reference \<open>level\<close>\<close>

definition get_level :: "bool \<Rightarrow> u32 \<Rightarrow> OrderBook \<Rightarrow> PriceLevel comp" where
  "get_level buy p bk = vget (if buy then bids bk else asks bk) (unat p)"

definition put_level :: "bool \<Rightarrow> u32 \<Rightarrow> PriceLevel \<Rightarrow> OrderBook \<Rightarrow> OrderBook comp" where
  "put_level buy p lvl bk =
     (if buy then seqc (vset (bids bk) (unat p) lvl) (\<lambda>v. ret (bk\<lparr>bids := v\<rparr>))
      else seqc (vset (asks bk) (unat p) lvl) (\<lambda>v. ret (bk\<lparr>asks := v\<rparr>)))"

text \<open>\<open>order->field = ...\<close> through a pointer into the pool\<close>

definition order_at :: "ptr \<Rightarrow> OrderBook \<Rightarrow> Order comp" where
  "order_at p bk = deref (slots (pool bk)) p"

definition set_order :: "ptr \<Rightarrow> (Order \<Rightarrow> Order) \<Rightarrow> OrderBook \<Rightarrow> OrderBook comp" where
  "set_order p f bk =
     seqc (assign (slots (pool bk)) p f) (\<lambda>v. ret (bk\<lparr>pool := (pool bk)\<lparr>slots := v\<rparr>\<rparr>))"

definition set_map :: "u64 \<Rightarrow> ptr \<Rightarrow> OrderBook \<Rightarrow> OrderBook comp" where
  "set_map i p bk = seqc (vset (order_map bk) (unat i) p) (\<lambda>v. ret (bk\<lparr>order_map := v\<rparr>))"

definition free_order :: "nat \<Rightarrow> OrderBook \<Rightarrow> OrderBook comp" where
  "free_order o_ptr bk = seqc (deallocate o_ptr (pool bk)) (\<lambda>pl. ret (bk\<lparr>pool := pl\<rparr>))"

text \<open>\<open>if (is_buy) _bid_bits.set(price); else _ask_bits.set(price);\<close> and the same with \<open>clear\<close>\<close>

definition set_side_bit :: "bool \<Rightarrow> u32 \<Rightarrow> OrderBook \<Rightarrow> OrderBook comp" where
  "set_side_bit buy p bk =
     (if buy then seqc (bs_set p (bid_bits bk)) (\<lambda>b. ret (bk\<lparr>bid_bits := b\<rparr>))
      else seqc (bs_set p (ask_bits bk)) (\<lambda>b. ret (bk\<lparr>ask_bits := b\<rparr>)))"

definition clear_side_bit :: "bool \<Rightarrow> u32 \<Rightarrow> OrderBook \<Rightarrow> OrderBook comp" where
  "clear_side_bit buy p bk =
     (if buy then seqc (bs_clear p (bid_bits bk)) (\<lambda>b. ret (bk\<lparr>bid_bits := b\<rparr>))
      else seqc (bs_clear p (ask_bits bk)) (\<lambda>b. ret (bk\<lparr>ask_bits := b\<rparr>)))"

text \<open>\<open>_best_bid = _bid_bits.get_highest(); _best_ask = _ask_bits.get_lowest();\<close>\<close>

definition refresh_best :: "OrderBook \<Rightarrow> OrderBook comp" where
  "refresh_best bk =
     seqc (get_highest (bid_bits bk)) (\<lambda>hb.
     seqc (get_lowest (ask_bits bk)) (\<lambda>la.
     ret (bk\<lparr>best_bid := hb, best_ask := la\<rparr>)))"

text \<open>
  Taking an order out of its level's list: the statements
  \<open>if (o->prev) o->prev->next = o->next; else level.head = o->next;\<close> and
  \<open>if (o->next) o->next->prev = o->prev; else level.tail = o->prev;\<close>
\<close>

definition unlink :: "nat \<Rightarrow> bool \<Rightarrow> u32 \<Rightarrow> OrderBook \<Rightarrow> OrderBook comp" where
  "unlink o_ptr buy p bk =
     seqc (order_at (Some o_ptr) bk) (\<lambda>ord.
     seqc (if prv ord \<noteq> None then set_order (prv ord) (\<lambda>x. x\<lparr>nxt := nxt ord\<rparr>) bk
           else seqc (get_level buy p bk) (\<lambda>lvl. put_level buy p (lvl\<lparr>head := nxt ord\<rparr>) bk)) (\<lambda>bk.
     seqc (order_at (Some o_ptr) bk) (\<lambda>ord.
     if nxt ord \<noteq> None then set_order (nxt ord) (\<lambda>x. x\<lparr>prv := prv ord\<rparr>) bk
     else seqc (get_level buy p bk) (\<lambda>lvl. put_level buy p (lvl\<lparr>tail := prv ord\<rparr>) bk))))"

text \<open>The inner loop of \<open>match_order\<close>, lines 201 to 222.\<close>

partial_function (option) match_level ::
  "bool \<Rightarrow> u32 \<Rightarrow> ptr \<Rightarrow> u32 \<Rightarrow> OrderBook \<Rightarrow> (undefined_behaviour + u32 \<times> OrderBook) option" where
  "match_level buy match_price resting remaining_qty bk =
     (if resting \<noteq> None \<and> remaining_qty > 0 then
        seqc (order_at resting bk) (\<lambda>ord.
        let trade_qty = min (ucast (quantity ord)) remaining_qty;
            left = quantity ord - ucast trade_qty;
            remaining_qty = remaining_qty - trade_qty
        in
        seqc (set_order resting (\<lambda>x. x\<lparr>quantity := left\<rparr>) bk) (\<lambda>bk.
        seqc (get_level (\<not> buy) match_price bk) (\<lambda>lvl.
        seqc (put_level (\<not> buy) match_price
                (lvl\<lparr>total_quantity := total_quantity lvl - ucast trade_qty\<rparr>) bk) (\<lambda>bk.
        if left = 0 then
          let next_order = nxt ord in
          seqc (unlink (the resting) (\<not> buy) match_price bk) (\<lambda>bk.
          seqc (set_map (oid ord) None bk) (\<lambda>bk.
          seqc (free_order (the resting) bk) (\<lambda>bk.
          match_level buy match_price next_order remaining_qty bk)))
        else match_level buy match_price resting remaining_qty bk))))
      else ret (remaining_qty, bk))"

text \<open>The outer loop, lines 188 to 234.\<close>

partial_function (option) match_order ::
  "u32 \<Rightarrow> u32 \<Rightarrow> bool \<Rightarrow> OrderBook \<Rightarrow> (undefined_behaviour + u32 \<times> OrderBook) option" where
  "match_order p remaining_qty buy bk =
     (if remaining_qty > 0 \<and> (if buy then p \<ge> best_ask bk else p \<le> best_bid bk) then
        let match_price = (if buy then best_ask bk else best_bid bk) in
        seqc (get_level (\<not> buy) match_price bk) (\<lambda>lvl.
        seqc (match_level buy match_price (head lvl) remaining_qty bk) (\<lambda>(remaining_qty, bk).
        seqc (get_level (\<not> buy) match_price bk) (\<lambda>lvl.
        if total_quantity lvl = 0 then
          seqc (clear_side_bit (\<not> buy) match_price bk) (\<lambda>bk.
          seqc (refresh_best bk) (\<lambda>bk.
          match_order p remaining_qty buy bk))
        else match_order p remaining_qty buy bk)))
      else ret (remaining_qty, bk))"

definition add_order :: "u64 \<Rightarrow> u32 \<Rightarrow> u32 \<Rightarrow> bool \<Rightarrow> OrderBook \<Rightarrow> OrderBook comp" where
  "add_order i p qty buy bk =
     seqc (match_order p qty buy bk) (\<lambda>(remaining_qty, bk).
     if remaining_qty = 0 then ret bk
     else
       (case allocate (pool bk) of
          (None, _) \<Rightarrow> ret bk
        | (Some order, pl) \<Rightarrow>
            seqc (set_order (Some order)
                    (\<lambda>x. x\<lparr>oid := i, oprice := p, quantity := ucast remaining_qty, is_buy := buy\<rparr>)
                    (bk\<lparr>pool := pl\<rparr>)) (\<lambda>bk.
            seqc (set_map i (Some order) bk) (\<lambda>bk.
            seqc (get_level buy p bk) (\<lambda>level.
            seqc (if total_quantity level = 0 then set_side_bit buy p bk else ret bk) (\<lambda>bk.
            let level = level\<lparr>total_quantity := total_quantity level + ucast remaining_qty\<rparr> in
            seqc (if head level = None
                  then put_level buy p (level\<lparr>head := Some order, tail := Some order\<rparr>) bk
                  else
                    seqc (set_order (Some order) (\<lambda>x. x\<lparr>prv := tail level\<rparr>) bk) (\<lambda>bk.
                    seqc (set_order (tail level) (\<lambda>x. x\<lparr>nxt := Some order\<rparr>) bk) (\<lambda>bk.
                    put_level buy p (level\<lparr>tail := Some order\<rparr>) bk))) (\<lambda>bk.
            if buy then
              ret (if p > best_bid bk then bk\<lparr>best_bid := p\<rparr> else bk)
            else
              ret (if p < best_ask bk then bk\<lparr>best_ask := p\<rparr> else bk))))))))"

definition cancel_order :: "u64 \<Rightarrow> OrderBook \<Rightarrow> OrderBook comp" where
  "cancel_order i bk =
     seqc (vget (order_map bk) (unat i)) (\<lambda>order.
     case order of
       None \<Rightarrow> ret bk
     | Some o_ptr \<Rightarrow>
         seqc (order_at order bk) (\<lambda>ord.
         seqc (get_level (is_buy ord) (oprice ord) bk) (\<lambda>lvl.
         seqc (put_level (is_buy ord) (oprice ord)
                 (lvl\<lparr>total_quantity := total_quantity lvl - ucast (quantity ord)\<rparr>) bk) (\<lambda>bk.
         seqc (unlink o_ptr (is_buy ord) (oprice ord) bk) (\<lambda>bk.
         seqc (get_level (is_buy ord) (oprice ord) bk) (\<lambda>lvl.
         seqc (if total_quantity lvl = 0 then
                 seqc (clear_side_bit (is_buy ord) (oprice ord) bk) refresh_best
               else ret bk) (\<lambda>bk.
         seqc (set_map i None bk) (\<lambda>bk.
         free_order o_ptr bk))))))))"

definition modify_order :: "u64 \<Rightarrow> u32 \<Rightarrow> u32 \<Rightarrow> OrderBook \<Rightarrow> OrderBook comp" where
  "modify_order i new_price new_qty bk =
     seqc (vget (order_map bk) (unat i)) (\<lambda>order.
     case order of
       None \<Rightarrow> ret bk
     | Some o_ptr \<Rightarrow>
         seqc (order_at order bk) (\<lambda>ord.
         if new_price \<noteq> oprice ord \<or> new_qty > ucast (quantity ord) then
           let buy = is_buy ord in
           seqc (cancel_order i bk) (\<lambda>bk. add_order i new_price new_qty buy bk)
         else
           let qty_reduction = ucast (quantity ord) - new_qty in
           if new_qty = 0 then cancel_order i bk
           else
             seqc (set_order order (\<lambda>x. x\<lparr>quantity := ucast new_qty\<rparr>) bk) (\<lambda>bk.
             seqc (get_level (is_buy ord) (oprice ord) bk) (\<lambda>lvl.
             put_level (is_buy ord) (oprice ord)
               (lvl\<lparr>total_quantity := total_quantity lvl - ucast qty_reduction\<rparr>) bk))))"

end
