(* ===== verification/OrderList.thy ===== *)
theory OrderList
  imports OrderPool
begin

text \<open>
  The doubly linked lists of orders inside the pool. \<open>dllseg h pv fp qs lp nx\<close>: following
  \<open>nxt\<close> from \<open>fp\<close> visits exactly the orders \<open>qs\<close> and stops at \<open>nx\<close>; the \<open>prv\<close>
  links lead back to \<open>pv\<close>, and \<open>lp\<close> is the last order (or \<open>pv\<close>). Lemmas: append, frame,
  appending an order at the tail, removing an order anywhere, and reading the list off the heap
  (\<open>chain\<close>).
\<close>

type_synonym order_heap = "nat \<Rightarrow> Order"

fun dllseg :: "order_heap \<Rightarrow> ptr \<Rightarrow> ptr \<Rightarrow> nat list \<Rightarrow> ptr \<Rightarrow> ptr \<Rightarrow> bool" where
  "dllseg h pv fp [] lp nx \<longleftrightarrow> fp = nx \<and> lp = pv"
| "dllseg h pv fp (q # qs) lp nx \<longleftrightarrow>
     fp = Some q \<and> prv (h q) = pv \<and> dllseg h (Some q) (nxt (h q)) qs lp nx"

text \<open>The orders met by following \<open>nxt\<close> for at most \<open>n\<close> steps.\<close>

fun chain :: "order_heap \<Rightarrow> nat \<Rightarrow> ptr \<Rightarrow> nat list" where
  "chain h 0 p = []"
| "chain h (Suc n) None = []"
| "chain h (Suc n) (Some q) = q # chain h n (nxt (h q))"

text \<open>The net effect of unlinking \<open>q\<close> on the other orders.\<close>

definition unlink_heap :: "nat \<Rightarrow> order_heap \<Rightarrow> order_heap" where
  "unlink_heap q h = (\<lambda>x. (h x)\<lparr>
      nxt := if prv (h q) = Some x then nxt (h q) else nxt (h x),
      prv := if nxt (h q) = Some x then prv (h q) else prv (h x)\<rparr>)"

lemma dllseg_append:
  "dllseg h pv fp (xs @ ys) lp nx \<longleftrightarrow>
     (\<exists>m l. dllseg h pv fp xs l m \<and> dllseg h l m ys lp nx)"
  by (induction xs arbitrary: pv fp) auto

lemma dllseg_cong:
  "(\<And>q. q \<in> set qs \<Longrightarrow> prv (h q) = prv (h' q) \<and> nxt (h q) = nxt (h' q)) \<Longrightarrow>
   dllseg h pv fp qs lp nx \<longleftrightarrow> dllseg h' pv fp qs lp nx"
  by (induction qs arbitrary: pv fp) auto

lemma dllseg_tail: "dllseg h pv fp qs lp nx \<Longrightarrow> lp = (if qs = [] then pv else Some (last qs))"
  by (induction qs arbitrary: pv fp) (auto split: if_splits)

lemma dllseg_head: "dllseg h pv fp qs lp nx \<Longrightarrow> fp = (if qs = [] then nx else Some (List.hd qs))"
  by (cases qs) auto

lemma dllseg_set_next:
  assumes "dllseg h pv fp (xs @ [a]) lp nx" "a \<notin> set xs" "\<And>x. x \<in> set xs \<Longrightarrow> h' x = h x"
    "prv (h' a) = prv (h a)" "nxt (h' a) = nx'"
  shows "dllseg h' pv fp (xs @ [a]) lp nx'"
proof -
  obtain m l where "dllseg h pv fp xs l m" "dllseg h l m [a] lp nx"
    using assms(1) by (auto simp: dllseg_append)
  moreover have "dllseg h' pv fp xs l m \<longleftrightarrow> dllseg h pv fp xs l m"
    using assms(3) by (intro dllseg_cong) simp
  ultimately show ?thesis using assms(4,5) by (auto simp: dllseg_append)
qed

lemma dllseg_snoc:
  assumes seg: "dllseg h None fp qs lp None" and fresh: "a \<notin> set qs" and d: "distinct qs"
    and ha: "prv (h' a) = lp" "nxt (h' a) = None"
    and hl: "\<And>x. x \<in> set qs \<Longrightarrow> prv (h' x) = prv (h x) \<and>
               nxt (h' x) = (if lp = Some x then Some a else nxt (h x))"
  shows "dllseg h' None (if fp = None then Some a else fp) (qs @ [a]) (Some a) None"
proof (cases qs rule: rev_cases)
  case Nil
  then show ?thesis using seg ha by simp
next
  case (snoc xs y)
  have lp: "lp = Some y" using dllseg_tail [OF seg] snoc by simp
  have fp: "fp \<noteq> None" using dllseg_head [OF seg] snoc by simp
  obtain m l where s: "dllseg h None fp xs l m" "dllseg h l m [y] lp None"
    using seg snoc by (auto simp: dllseg_append)
  have "dllseg h' None fp xs l m \<longleftrightarrow> dllseg h None fp xs l m"
    using hl lp d snoc by (intro dllseg_cong) auto
  moreover have "dllseg h' l m [y] lp (Some a)"
    using s(2) hl [of y] lp snoc by simp
  ultimately have "dllseg h' None fp qs lp (Some a)"
    using s(1) snoc by (auto simp: dllseg_append)
  then show ?thesis using ha fp by (auto simp: dllseg_append)
qed

lemma dllseg_neighbours:
  assumes "dllseg h None fp (xs @ q # ys) lp None"
  shows "prv (h q) = (if xs = [] then None else Some (last xs))"
    "nxt (h q) = (if ys = [] then None else Some (List.hd ys))"
proof -
  obtain m l where s: "dllseg h None fp xs l m" "dllseg h l m (q # ys) lp None"
    using assms by (auto simp: dllseg_append)
  show "prv (h q) = (if xs = [] then None else Some (last xs))"
    using s(2) dllseg_tail [OF s(1)] by simp
  show "nxt (h q) = (if ys = [] then None else Some (List.hd ys))"
    using s(2) dllseg_head [of h "Some q" "nxt (h q)" ys lp None] by simp
qed

lemma dllseg_remove:
  assumes seg: "dllseg h None fp (xs @ q # ys) lp None" and d: "distinct (xs @ q # ys)"
    and h': "\<And>x. x \<in> set (xs @ ys) \<Longrightarrow>
      prv (h' x) = prv (unlink_heap q h x) \<and> nxt (h' x) = nxt (unlink_heap q h x)"
  shows "dllseg h' None (if xs = [] then nxt (h q) else fp) (xs @ ys)
           (if ys = [] then prv (h q) else lp) None"
proof -
  note nb = dllseg_neighbours [OF seg]
  obtain m l where s: "dllseg h None fp xs l m" "dllseg h l m (q # ys) lp None"
    using seg by (auto simp: dllseg_append)
  have l: "l = prv (h q)" using s(2) by simp
  have sy: "dllseg h (Some q) (nxt (h q)) ys lp None" using s(2) by simp
  have 1: "dllseg h' None (if xs = [] then nxt (h q) else fp) xs l (nxt (h q))"
  proof (cases xs rule: rev_cases)
    case Nil
    then show ?thesis using s(1) by simp
  next
    case (snoc zs z)
    have pz: "prv (h q) = Some z" using nb(1) snoc by simp
    have nz: "nxt (h q) \<noteq> Some x" if "x \<in> set xs" for x
      using that d nb(2) by (cases ys) auto
    obtain m' l' where t: "dllseg h None fp zs l' m'" "dllseg h l' m' [z] l m"
      using s(1) snoc by (auto simp: dllseg_append)
    have "dllseg h' None fp zs l' m' \<longleftrightarrow> dllseg h None fp zs l' m'"
      using h' nz pz d snoc by (intro dllseg_cong) (auto simp: unlink_heap_def)
    moreover have "dllseg h' l' m' [z] l (nxt (h q))"
      using t(2) h' [of z] nz [of z] pz snoc by (simp add: unlink_heap_def)
    ultimately show ?thesis using t(1) snoc by (auto simp: dllseg_append)
  qed
  have 2: "dllseg h' l (nxt (h q)) ys (if ys = [] then prv (h q) else lp) None"
  proof (cases ys)
    case Nil
    then show ?thesis using nb(2) l by simp
  next
    case (Cons y zs)
    have ny: "nxt (h q) = Some y" using nb(2) Cons by simp
    have pz: "prv (h q) \<noteq> Some x" if "x \<in> set ys" for x
      using that d nb(1) by (cases xs rule: rev_cases) auto
    have "dllseg h' (Some y) (nxt (h y)) zs lp None \<longleftrightarrow> dllseg h (Some y) (nxt (h y)) zs lp None"
      using h' pz ny d Cons by (intro dllseg_cong) (auto simp: unlink_heap_def)
    then show ?thesis
      using sy h' [of y] pz [of y] ny l Cons by (simp add: unlink_heap_def)
  qed
  from 1 2 show ?thesis unfolding dllseg_append by blast
qed

lemma chain_dllseg:
  "dllseg h pv p qs lp None \<Longrightarrow> length qs \<le> n \<Longrightarrow> chain h n p = qs"
proof (induction qs arbitrary: pv p n)
  case Nil
  then show ?case by (cases n) auto
next
  case (Cons q qs)
  then obtain m where "n = Suc m" by (cases n) auto
  then show ?case using Cons by auto
qed

end
