(* ===== verification/OrderBookInv.thy ===== *)
theory OrderBookInv
  imports OrderBook OrderList
begin

text \<open>
  The invariant of the order book and what each group of statements does to it.

  \<^item> \<open>heap_inv\<close> ties the levels, the pool, the links and the order map together; the ghost
    argument \<open>L\<close> gives, for each side and price, the list of resting orders.
  \<^item> \<open>index_inv\<close> says that the bitmaps mark exactly the non-empty levels and that the cached
    best prices are the bitmaps' extreme members.
  \<^item> \<open>book_inv\<close> is both, for the lists read off the heap, together with \<open>uncrossed\<close>.
\<close>

section \<open>Definitions\<close>

abbreviation ords :: "OrderBook \<Rightarrow> order_heap" where
  "ords bk \<equiv> vat (slots (pool bk))"

type_synonym ladder = "bool \<Rightarrow> nat \<Rightarrow> nat list"

definition lvl :: "bool \<Rightarrow> nat \<Rightarrow> OrderBook \<Rightarrow> PriceLevel" where
  "lvl b p bk = vat (if b then bids bk else asks bk) p"

definition upd_lvl :: "bool \<Rightarrow> nat \<Rightarrow> PriceLevel \<Rightarrow> OrderBook \<Rightarrow> OrderBook" where
  "upd_lvl b p l bk =
     (if b then bk\<lparr>bids := vupd (bids bk) p l\<rparr> else bk\<lparr>asks := vupd (asks bk) p l\<rparr>)"

definition Lset :: "(bool \<Rightarrow> nat \<Rightarrow> 'a) \<Rightarrow> bool \<Rightarrow> nat \<Rightarrow> 'a \<Rightarrow> bool \<Rightarrow> nat \<Rightarrow> 'a" where
  "Lset L b p xs = L(b := (L b)(p := xs))"

definition qty_sum :: "order_heap \<Rightarrow> nat list \<Rightarrow> nat" where
  "qty_sum h qs = sum_list (map (\<lambda>q. unat (quantity (h q))) qs)"

definition level_inv :: "order_heap \<Rightarrow> PriceLevel \<Rightarrow> nat list \<Rightarrow> bool" where
  "level_inv h l qs \<longleftrightarrow>
     dllseg h None (head l) qs (tail l) None \<and> distinct qs \<and>
     unat (total_quantity l) = qty_sum h qs"

definition resting_ok :: "nat \<Rightarrow> OrderBook \<Rightarrow> bool \<Rightarrow> nat \<Rightarrow> nat \<Rightarrow> bool" where
  "resting_ok N bk b p q \<longleftrightarrow>
     is_buy (ords bk q) = b \<and> unat (oprice (ords bk q)) = p \<and> quantity (ords bk q) \<noteq> 0 \<and>
     unat (oid (ords bk q)) < N \<and> vat (order_map bk) (unat (oid (ords bk q))) = Some q"

definition book_sizes :: "nat \<Rightarrow> nat \<Rightarrow> OrderBook \<Rightarrow> bool" where
  "book_sizes T N bk \<longleftrightarrow>
     T \<le> 2 ^ 18 \<and> N \<le> 2 ^ 32 \<and>
     vsize (bids bk) = T \<and> vsize (asks bk) = T \<and>
     vsize (order_map bk) = N \<and> vsize (slots (pool bk)) = N"

definition heap_inv :: "nat \<Rightarrow> nat \<Rightarrow> OrderBook \<Rightarrow> ladder \<Rightarrow> bool" where
  "heap_inv T N bk L \<longleftrightarrow>
     book_sizes T N bk \<and>
     pool_inv (pool bk) \<and>
     pool_used (pool bk) = {q. \<exists>b p. q \<in> set (L b p)} \<and>
     (\<forall>b p. T \<le> p \<longrightarrow> L b p = []) \<and>
     (\<forall>b p. p < T \<longrightarrow> level_inv (ords bk) (lvl b p bk) (L b p)) \<and>
     (\<forall>b p. \<forall>q\<in>set (L b p). resting_ok N bk b p q) \<and>
     (\<forall>i q. i < N \<longrightarrow> vat (order_map bk) i = Some q \<longrightarrow>
        unat (oid (ords bk q)) = i \<and> q \<in> set (L (is_buy (ords bk q)) (unat (oprice (ords bk q)))))"

definition index_inv :: "nat \<Rightarrow> OrderBook \<Rightarrow> ladder \<Rightarrow> bool" where
  "index_inv T bk L \<longleftrightarrow>
     bs_inv T (bid_bits bk) \<and> bs_members (bid_bits bk) = {p. L True p \<noteq> []} \<and>
     bs_inv T (ask_bits bk) \<and> bs_members (ask_bits bk) = {p. L False p \<noteq> []} \<and>
     get_highest (bid_bits bk) = ret (best_bid bk) \<and>
     get_lowest (ask_bits bk) = ret (best_ask bk)"

definition uncrossed :: "ladder \<Rightarrow> bool" where
  "uncrossed L \<longleftrightarrow> (\<forall>p p'. L True p \<noteq> [] \<longrightarrow> L False p' \<noteq> [] \<longrightarrow> p < p')"

definition ladder_of :: "OrderBook \<Rightarrow> ladder" where
  "ladder_of bk b p =
     (if p < vsize (if b then bids bk else asks bk)
      then chain (ords bk) (vsize (slots (pool bk))) (head (lvl b p bk)) else [])"

definition book_inv :: "nat \<Rightarrow> nat \<Rightarrow> OrderBook \<Rightarrow> bool" where
  "book_inv T N bk \<longleftrightarrow>
     heap_inv T N bk (ladder_of bk) \<and> index_inv T bk (ladder_of bk) \<and> uncrossed (ladder_of bk)"

section \<open>Reading and writing levels\<close>

lemma Lset_same [simp]: "Lset L b p xs b p = xs"
  by (simp add: Lset_def)

lemma Lset_apply: "Lset L b p xs b' p' = (if b' = b \<and> p' = p then xs else L b' p')"
  by (simp add: Lset_def)

lemma Lset_other: "\<not> (b' = b \<and> p' = p) \<Longrightarrow> Lset L b p xs b' p' = L b' p'"
  by (auto simp: Lset_def)

lemma Lset_Lset [simp]: "Lset (Lset L b p xs) b p ys = Lset L b p ys"
  by (simp add: Lset_def)

lemma Lset_self [simp]: "Lset L b p (L b p) = L"
  by (simp add: Lset_def)

lemma lvl_upd_lvl: "lvl b' p' (upd_lvl b p l bk) = (if b' = b \<and> p' = p then l else lvl b' p' bk)"
  by (auto simp: lvl_def upd_lvl_def vat_vupd)

lemma upd_lvl_sel [simp]:
  "pool (upd_lvl b p l bk) = pool bk" "order_map (upd_lvl b p l bk) = order_map bk"
  "bid_bits (upd_lvl b p l bk) = bid_bits bk" "ask_bits (upd_lvl b p l bk) = ask_bits bk"
  "best_bid (upd_lvl b p l bk) = best_bid bk" "best_ask (upd_lvl b p l bk) = best_ask bk"
  "vsize (bids (upd_lvl b p l bk)) = vsize (bids bk)"
  "vsize (asks (upd_lvl b p l bk)) = vsize (asks bk)"
  by (simp_all add: upd_lvl_def)

lemma upd_lvl_upd_lvl [simp]: "upd_lvl b p l (upd_lvl b p l' bk) = upd_lvl b p l bk"
  by (simp add: upd_lvl_def)

lemma upd_lvl_update [simp]:
  "upd_lvl b p l (bk\<lparr>pool := pl\<rparr>) = (upd_lvl b p l bk)\<lparr>pool := pl\<rparr>"
  "upd_lvl b p l (bk\<lparr>order_map := m\<rparr>) = (upd_lvl b p l bk)\<lparr>order_map := m\<rparr>"
  by (simp_all add: upd_lvl_def)

lemma lvl_update [simp]:
  "lvl b p (bk\<lparr>pool := pl\<rparr>) = lvl b p bk" "lvl b p (bk\<lparr>order_map := m\<rparr>) = lvl b p bk"
  "lvl b p (bk\<lparr>bid_bits := x\<rparr>) = lvl b p bk" "lvl b p (bk\<lparr>ask_bits := x\<rparr>) = lvl b p bk"
  "lvl b p (bk\<lparr>best_bid := y\<rparr>) = lvl b p bk" "lvl b p (bk\<lparr>best_ask := y\<rparr>) = lvl b p bk"
  by (simp_all add: lvl_def)

definition side_size :: "bool \<Rightarrow> OrderBook \<Rightarrow> nat" where
  "side_size b bk = vsize (if b then bids bk else asks bk)"

lemma side_size_upd [simp]:
  "side_size b (upd_lvl b' p l bk) = side_size b bk"
  "side_size b (bk\<lparr>pool := pl\<rparr>) = side_size b bk"
  "side_size b (bk\<lparr>order_map := m\<rparr>) = side_size b bk"
  "side_size b (bk\<lparr>bid_bits := x\<rparr>) = side_size b bk"
  "side_size b (bk\<lparr>ask_bits := x\<rparr>) = side_size b bk"
  by (simp_all add: side_size_def upd_lvl_def)

lemma book_sizes_side [simp]: "book_sizes T N bk \<Longrightarrow> side_size b bk = T"
  by (simp add: book_sizes_def side_size_def)

lemma get_level_eq [simp]: "unat p < side_size b bk \<Longrightarrow> get_level b p bk = ret (lvl b (unat p) bk)"
  by (simp add: get_level_def lvl_def side_size_def)

lemma put_level_eq [simp]:
  "unat p < side_size b bk \<Longrightarrow> put_level b p l bk = ret (upd_lvl b (unat p) l bk)"
  by (simp add: put_level_def upd_lvl_def side_size_def split: if_splits)

lemma order_at_eq [simp]: "q < vsize (slots (pool bk)) \<Longrightarrow> order_at (Some q) bk = ret (ords bk q)"
  by (simp add: order_at_def)

lemma set_order_eq [simp]:
  "q < vsize (slots (pool bk)) \<Longrightarrow> set_order (Some q) f bk =
   ret (bk\<lparr>pool := (pool bk)\<lparr>slots := vupd (slots (pool bk)) q (f (ords bk q))\<rparr>\<rparr>)"
  by (simp add: set_order_def)

lemma set_map_eq [simp]:
  "unat i < vsize (order_map bk) \<Longrightarrow>
   set_map i p bk = ret (bk\<lparr>order_map := vupd (order_map bk) (unat i) p\<rparr>)"
  by (simp add: set_map_def)

lemma free_order_eq [simp]:
  "q < vsize (slots (pool bk)) \<Longrightarrow> free_order q bk =
     ret (bk\<lparr>pool := (pool bk)\<lparr>slots := vupd (slots (pool bk)) q ((ords bk q)\<lparr>prv := None, nxt := None\<rparr>),
                             free_list := free_list (pool bk) @ [q]\<rparr>\<rparr>)"
  by (simp add: free_order_def deallocate_eq)

section \<open>Unlinking\<close>

definition unlink_level :: "Order \<Rightarrow> PriceLevel \<Rightarrow> PriceLevel" where
  "unlink_level ord l =
     l\<lparr>head := if prv ord = None then nxt ord else head l,
       tail := if nxt ord = None then prv ord else tail l\<rparr>"

lemma unlink_eq:
  assumes "q < vsize (slots (pool bk))" "unat p < side_size b bk"
    and "\<And>a. prv (ords bk q) = Some a \<Longrightarrow> a < vsize (slots (pool bk)) \<and> a \<noteq> q"
    and "\<And>a. nxt (ords bk q) = Some a \<Longrightarrow> a < vsize (slots (pool bk)) \<and> a \<noteq> q"
  shows "unlink q b p bk =
    ret (upd_lvl b (unat p) (unlink_level (ords bk q) (lvl b (unat p) bk))
      (bk\<lparr>pool := (pool bk)\<lparr>slots := Vector (vsize (slots (pool bk))) (unlink_heap q (ords bk))\<rparr>\<rparr>))"
proof -
  have upd: "upd_lvl b (unat p) (lvl b (unat p) bk) bk = bk"
    by (simp add: upd_lvl_def lvl_def)
  show ?thesis
    using assms
    by (cases "prv (ords bk q)"; cases "nxt (ords bk q)")
      (auto simp: unlink_def unlink_level_def unlink_heap_def lvl_upd_lvl vupd_def fun_eq_iff upd
        intro!: arg_cong [where f = ret])
qed

section \<open>Consequences of the heap invariant\<close>

lemma heap_invD:
  assumes "heap_inv T N bk L"
  shows "book_sizes T N bk" "pool_inv (pool bk)" "pool_used (pool bk) = {q. \<exists>b p. q \<in> set (L b p)}"
    "\<And>b p. T \<le> p \<Longrightarrow> L b p = []"
    "\<And>b p. p < T \<Longrightarrow> level_inv (ords bk) (lvl b p bk) (L b p)"
    "\<And>b p q. q \<in> set (L b p) \<Longrightarrow> resting_ok N bk b p q"
    "\<And>i q. i < N \<Longrightarrow> vat (order_map bk) i = Some q \<Longrightarrow>
        unat (oid (ords bk q)) = i \<and> q \<in> set (L (is_buy (ords bk q)) (unat (oprice (ords bk q))))"
  using assms by (auto simp: heap_inv_def)

lemma heap_invI:
  assumes "book_sizes T N bk" "pool_inv (pool bk)" "pool_used (pool bk) = {q. \<exists>b p. q \<in> set (L b p)}"
    "\<And>b p. T \<le> p \<Longrightarrow> L b p = []"
    "\<And>b p. p < T \<Longrightarrow> level_inv (ords bk) (lvl b p bk) (L b p)"
    "\<And>b p q. q \<in> set (L b p) \<Longrightarrow> resting_ok N bk b p q"
    "\<And>i q. i < N \<Longrightarrow> vat (order_map bk) i = Some q \<Longrightarrow>
        unat (oid (ords bk q)) = i \<and> q \<in> set (L (is_buy (ords bk q)) (unat (oprice (ords bk q))))"
  shows "heap_inv T N bk L"
  using assms by (auto simp: heap_inv_def)

lemma heap_inv_member:
  assumes "heap_inv T N bk L" "q \<in> set (L b p)"
  shows "p < T" "q < N" "q \<notin> set (free_list (pool bk))" "resting_ok N bk b p q"
proof -
  note inv = heap_invD [OF assms(1)]
  show "p < T" using inv(4) [of p b] assms(2) by (cases "p < T") auto
  have "q \<in> pool_used (pool bk)" using inv(3) assms(2) by auto
  then show "q < N" "q \<notin> set (free_list (pool bk))"
    using inv(1) by (auto simp: pool_used_def book_sizes_def)
  show "resting_ok N bk b p q" using inv(6) assms(2) .
qed

lemma heap_inv_disjoint:
  assumes "heap_inv T N bk L" "q \<in> set (L b p)" "q \<in> set (L b' p')"
  shows "b' = b" "p' = p"
  using heap_inv_member(4) [OF assms(1,2)] heap_inv_member(4) [OF assms(1,3)]
  by (auto simp: resting_ok_def)

lemma heap_inv_length: "heap_inv T N bk L \<Longrightarrow> length (L b p) \<le> N"
proof -
  assume inv: "heap_inv T N bk L"
  have "distinct (L b p)"
    using heap_invD(4,5) [OF inv, of p b] by (cases "p < T") (auto simp: level_inv_def)
  moreover have "set (L b p) \<subseteq> {..<N}" using heap_inv_member(2) [OF inv] by auto
  ultimately show ?thesis
    by (metis card_lessThan card_mono distinct_card finite_lessThan)
qed

lemma heap_inv_ladder: "heap_inv T N bk L \<Longrightarrow> L = ladder_of bk"
proof (intro ext)
  fix b p
  assume inv: "heap_inv T N bk L"
  note D = heap_invD [OF inv]
  show "L b p = ladder_of bk b p"
  proof (cases "p < T")
    case True
    then have "dllseg (ords bk) None (head (lvl b p bk)) (L b p) (tail (lvl b p bk)) None"
      using D(5) by (simp add: level_inv_def)
    then show ?thesis
      using chain_dllseg [OF _ heap_inv_length [OF inv]] True D(1)
      by (auto simp: ladder_of_def book_sizes_def)
  next
    case False
    then show ?thesis using D(1,4) by (simp add: ladder_of_def book_sizes_def)
  qed
qed

lemma qty_sum_simps [simp]:
  "qty_sum h [] = 0" "qty_sum h (q # qs) = unat (quantity (h q)) + qty_sum h qs"
  "qty_sum h (xs @ ys) = qty_sum h xs + qty_sum h ys"
  by (simp_all add: qty_sum_def)

lemma qty_sum_cong: "(\<And>q. q \<in> set qs \<Longrightarrow> quantity (h q) = quantity (h' q)) \<Longrightarrow> qty_sum h qs = qty_sum h' qs"
  unfolding qty_sum_def by (metis (mono_tags, lifting) map_eq_conv)

lemma qty_sum_bound: "qty_sum h qs \<le> length qs * 2 ^ 31"
proof (induction qs)
  case (Cons q qs)
  then show ?case using unat_31_less [of "quantity (h q)"] by simp
qed simp

lemma level_total_zero_iff:
  assumes "heap_inv T N bk L" "p < T"
  shows "total_quantity (lvl b p bk) = 0 \<longleftrightarrow> L b p = []"
proof -
  have "unat (total_quantity (lvl b p bk)) = qty_sum (ords bk) (L b p)"
    using heap_invD(5) [OF assms] by (simp add: level_inv_def)
  moreover have "qty_sum (ords bk) (L b p) = 0 \<longleftrightarrow> L b p = []"
  proof (cases "L b p")
    case (Cons q qs)
    then have "quantity (ords bk q) \<noteq> 0"
      using heap_inv_member(4) [OF assms(1), of q b p] by (simp add: resting_ok_def)
    then show ?thesis using Cons by (simp add: unat_eq_0)
  qed simp
  ultimately show ?thesis by (metis unat_eq_0)
qed

lemma level_inv_cong:
  assumes "\<And>q. q \<in> set qs \<Longrightarrow> prv (h q) = prv (h' q) \<and> nxt (h q) = nxt (h' q) \<and> quantity (h q) = quantity (h' q)"
  shows "level_inv h l qs \<longleftrightarrow> level_inv h' l qs"
  using assms dllseg_cong [of qs h h'] qty_sum_cong [of qs h h'] by (simp add: level_inv_def)

lemma resting_neighbours:
  assumes inv: "heap_inv T N bk L" and q: "q \<in> set (L b p)"
  shows "\<And>a. prv (ords bk q) = Some a \<Longrightarrow> a \<in> set (L b p) \<and> a \<noteq> q"
    "\<And>a. nxt (ords bk q) = Some a \<Longrightarrow> a \<in> set (L b p) \<and> a \<noteq> q"
proof -
  obtain xs ys where L: "L b p = xs @ q # ys" using q by (auto simp: in_set_conv_decomp)
  have "level_inv (ords bk) (lvl b p bk) (L b p)"
    using heap_invD(5) [OF inv heap_inv_member(1) [OF inv q]] .
  then have seg: "dllseg (ords bk) None (head (lvl b p bk)) (xs @ q # ys) (tail (lvl b p bk)) None"
    and d: "distinct (xs @ q # ys)" using L by (simp_all add: level_inv_def)
  note nb = dllseg_neighbours [OF seg]
  show "a \<in> set (L b p) \<and> a \<noteq> q" if "prv (ords bk q) = Some a" for a
    using that nb(1) d L by (cases xs rule: rev_cases) auto
  show "a \<in> set (L b p) \<and> a \<noteq> q" if "nxt (ords bk q) = Some a" for a
    using that nb(2) d L by (cases ys) auto
qed

section \<open>Removing an order\<close>

lemma level_inv_remove:
  assumes lv: "level_inv h l qs" and q: "q \<in> set qs"
    and h': "\<And>x. x \<noteq> q \<Longrightarrow> h' x = unlink_heap q h x"
    and l': "head l' = (if prv (h q) = None then nxt (h q) else head l)"
      "tail l' = (if nxt (h q) = None then prv (h q) else tail l)"
      "total_quantity l' = total_quantity l - ucast (quantity (h q))"
  shows "level_inv h' l' (remove1 q qs)"
proof -
  obtain xs ys where qs: "qs = xs @ q # ys" using q by (auto simp: in_set_conv_decomp)
  have seg: "dllseg h None (head l) (xs @ q # ys) (tail l) None" and d: "distinct (xs @ q # ys)"
    and tot: "unat (total_quantity l) = qty_sum h qs"
    using lv qs by (simp_all add: level_inv_def)
  have r: "remove1 q qs = xs @ ys" using d qs by (simp add: remove1_append)
  note nb = dllseg_neighbours [OF seg]
  have nq: "x \<noteq> q" if "x \<in> set (xs @ ys)" for x using that d by auto
  have "dllseg h' None (if xs = [] then nxt (h q) else head l) (xs @ ys)
          (if ys = [] then prv (h q) else tail l) None"
    using h' nq by (intro dllseg_remove [OF seg d]) auto
  then have 1: "dllseg h' None (head l') (remove1 q qs) (tail l') None"
    using r nb l' by (auto split: if_splits)
  have "qty_sum h' (xs @ ys) = qty_sum h (xs @ ys)"
    using h' nq by (intro qty_sum_cong) (auto simp: unlink_heap_def)
  moreover have "unat (total_quantity l') = unat (total_quantity l) - unat (quantity (h q))"
  proof -
    have "(ucast (quantity (h q)) :: u64) \<le> total_quantity l"
      using tot qs by (simp add: word_le_nat_alt)
    then show ?thesis using l'(3) by (simp add: unat_sub)
  qed
  ultimately have 2: "unat (total_quantity l') = qty_sum h' (remove1 q qs)"
    using tot qs r by simp
  show ?thesis using 1 2 d r by (simp add: level_inv_def)
qed

lemma heap_inv_remove:
  assumes inv: "heap_inv T N bk L" and q: "q \<in> set (L b p)"
    and sizes: "book_sizes T N bk'"
    and h': "\<And>x. x \<noteq> q \<Longrightarrow> ords bk' x = unlink_heap q (ords bk) x"
      "prv (ords bk' q) = None" "nxt (ords bk' q) = None"
    and fl: "free_list (pool bk') = free_list (pool bk) @ [q]"
    and m: "order_map bk' = vupd (order_map bk) (unat (oid (ords bk q))) None"
    and other: "\<And>b' p'. \<not> (b' = b \<and> p' = p) \<Longrightarrow> lvl b' p' bk' = lvl b' p' bk"
    and l': "head (lvl b p bk') = (if prv (ords bk q) = None then nxt (ords bk q) else head (lvl b p bk))"
      "tail (lvl b p bk') = (if nxt (ords bk q) = None then prv (ords bk q) else tail (lvl b p bk))"
      "total_quantity (lvl b p bk') = total_quantity (lvl b p bk) - ucast (quantity (ords bk q))"
  shows "heap_inv T N bk' (Lset L b p (remove1 q (L b p)))" (is "heap_inv T N bk' ?L")
proof (rule heap_invI)
  note D = heap_invD [OF inv]
  note M = heap_inv_member [OF inv q]
  note nb = resting_neighbours [OF inv q]
  have sz: "vsize (slots (pool bk')) = N" "vsize (slots (pool bk)) = N"
    using sizes D(1) by (simp_all add: book_sizes_def)
  have d: "distinct (L b p)" using D(5) [OF M(1)] by (simp add: level_inv_def)
  have sub: "x \<in> set (L b' p') \<and> x \<noteq> q" if "x \<in> set (?L b' p')" for x b' p'
  proof (cases "b' = b \<and> p' = p")
    case True
    then show ?thesis using that d by simp
  next
    case False
    have "x \<in> set (L b' p')" using that unfolding Lset_other [OF False] .
    then show ?thesis using False heap_inv_disjoint [OF inv q, of b' p'] by blast
  qed
  have sup: "x \<in> set (?L b' p')" if "x \<in> set (L b' p')" "x \<noteq> q" for x b' p'
    using that d by (cases "b' = b \<and> p' = p") (auto simp: Lset_other)
  have free: "ords bk' x = ords bk x" if "x \<in> set (free_list (pool bk))" for x
  proof -
    have "x \<noteq> q" "prv (ords bk q) \<noteq> Some x" "nxt (ords bk q) \<noteq> Some x"
      using that M(3) nb heap_inv_member(3) [OF inv] by blast+
    then show ?thesis using h'(1) by (simp add: unlink_heap_def)
  qed
  show "book_sizes T N bk'" by (rule sizes)
  show "pool_inv (pool bk')"
    using D(2) fl free h'(2,3) M(2,3) sz by (auto simp: pool_inv_def)
  show "pool_used (pool bk') = {x. \<exists>b p. x \<in> set (?L b p)}"
  proof -
    have "pool_used (pool bk') = pool_used (pool bk) - {q}"
      using fl sz by (auto simp: pool_used_def)
    then have "x \<in> pool_used (pool bk') \<longleftrightarrow> (\<exists>b' p'. x \<in> set (L b' p') \<and> x \<noteq> q)" for x
      using D(3) by auto
    moreover have "x \<in> set (?L b' p') \<longleftrightarrow> x \<in> set (L b' p') \<and> x \<noteq> q" for x b' p'
      using sub [of x b' p'] sup [of x b' p'] by blast
    ultimately show ?thesis by auto
  qed
  show "?L b' p' = []" if "T \<le> p'" for b' p'
    using D(4) [OF that] M(1) that by (cases "b' = b \<and> p' = p") (auto simp: Lset_other)
  show "level_inv (ords bk') (lvl b' p' bk') (?L b' p')" if "p' < T" for b' p'
  proof (cases "b' = b \<and> p' = p")
    case True
    have "level_inv (ords bk') (lvl b p bk') (remove1 q (L b p))"
      using l' by (intro level_inv_remove [OF D(5) [OF M(1)] q h'(1)]) auto
    then show ?thesis using True by simp
  next
    case False
    have "prv (ords bk x) = prv (ords bk' x) \<and> nxt (ords bk x) = nxt (ords bk' x) \<and>
          quantity (ords bk x) = quantity (ords bk' x)" if "x \<in> set (L b' p')" for x
    proof -
      have "x \<notin> set (L b p)" using False that heap_inv_disjoint [OF inv, of x b p b' p'] by blast
      then have "x \<noteq> q" "prv (ords bk q) \<noteq> Some x" "nxt (ords bk q) \<noteq> Some x"
        using q nb by blast+
      then show ?thesis using h'(1) by (simp add: unlink_heap_def)
    qed
    then show ?thesis
      using D(5) [OF that] other [OF False] False level_inv_cong [of "L b' p'" "ords bk" "ords bk'"]
      by (auto simp: Lset_apply)
  qed
  have fields: "is_buy (ords bk' x) = is_buy (ords bk x)" "oprice (ords bk' x) = oprice (ords bk x)"
    "oid (ords bk' x) = oid (ords bk x)" "quantity (ords bk' x) = quantity (ords bk x)" if "x \<noteq> q" for x
    using h'(1) [OF that] by (simp_all add: unlink_heap_def)
  have oid_ne: "unat (oid (ords bk x)) \<noteq> unat (oid (ords bk q))" if "x \<in> set (L b' p')" "x \<noteq> q" for x b' p'
    using heap_inv_member(4) [OF inv that(1)] M(4) that(2) by (auto simp: resting_ok_def)
  show "resting_ok N bk' b' p' x" if "x \<in> set (?L b' p')" for b' p' x
  proof -
    have x: "x \<in> set (L b' p')" "x \<noteq> q" using sub [OF that] by auto
    show ?thesis
      using heap_inv_member(4) [OF inv x(1)] fields [OF x(2)] oid_ne [OF x] m
      by (auto simp: resting_ok_def)
  qed
  show "unat (oid (ords bk' x)) = i \<and> x \<in> set (?L (is_buy (ords bk' x)) (unat (oprice (ords bk' x))))"
    if i: "i < N" and x: "vat (order_map bk') i = Some x" for i x
  proof -
    have ne: "i \<noteq> unat (oid (ords bk q))" using x m by (auto simp: vat_vupd)
    then have "vat (order_map bk) i = Some x" using x m by simp
    note old = D(7) [OF i this]
    have "x \<noteq> q" using old ne by auto
    then show ?thesis using old fields sup by auto
  qed
qed

section \<open>Changing the quantity of a resting order\<close>

lemma heap_inv_requantity:
  assumes inv: "heap_inv T N bk L" and q: "q \<in> set (L b p)"
    and sizes: "book_sizes T N bk'"
    and h': "ords bk' = (ords bk)(q := (ords bk q)\<lparr>quantity := y\<rparr>)" and y: "y \<noteq> 0"
    and fl: "free_list (pool bk') = free_list (pool bk)"
    and m: "order_map bk' = order_map bk"
    and other: "\<And>b' p'. \<not> (b' = b \<and> p' = p) \<Longrightarrow> lvl b' p' bk' = lvl b' p' bk"
    and l': "head (lvl b p bk') = head (lvl b p bk)" "tail (lvl b p bk') = tail (lvl b p bk)"
      "unat (total_quantity (lvl b p bk')) + unat (quantity (ords bk q)) =
       unat (total_quantity (lvl b p bk)) + unat y"
  shows "heap_inv T N bk' L"
proof (rule heap_invI)
  note D = heap_invD [OF inv]
  note M = heap_inv_member [OF inv q]
  have sz: "vsize (slots (pool bk')) = N" "vsize (slots (pool bk)) = N"
    using sizes D(1) by (simp_all add: book_sizes_def)
  have fields: "is_buy (ords bk' x) = is_buy (ords bk x)" "oprice (ords bk' x) = oprice (ords bk x)"
    "oid (ords bk' x) = oid (ords bk x)" "prv (ords bk' x) = prv (ords bk x)"
    "nxt (ords bk' x) = nxt (ords bk x)" "quantity (ords bk' x) = (if x = q then y else quantity (ords bk x))" for x
    using h' by simp_all
  show "book_sizes T N bk'" by (rule sizes)
  show "pool_inv (pool bk')" using D(2) fl sz fields by (simp add: pool_inv_def)
  show "pool_used (pool bk') = {x. \<exists>b p. x \<in> set (L b p)}"
    using D(3) fl sz by (simp add: pool_used_def)
  show "L b' p' = []" if "T \<le> p'" for b' p' using D(4) [OF that] .
  show "level_inv (ords bk') (lvl b' p' bk') (L b' p')" if "p' < T" for b' p'
  proof (cases "b' = b \<and> p' = p")
    case True
    obtain xs ys where L: "L b p = xs @ q # ys" using q by (auto simp: in_set_conv_decomp)
    have old: "level_inv (ords bk) (lvl b p bk) (L b p)" using D(5) [OF M(1)] .
    have "q \<notin> set (xs @ ys)" using old L by (simp add: level_inv_def)
    then have "qty_sum (ords bk') (xs @ ys) = qty_sum (ords bk) (xs @ ys)"
      by (intro qty_sum_cong) (auto simp: fields)
    then have "qty_sum (ords bk') (L b p) + unat (quantity (ords bk q)) = qty_sum (ords bk) (L b p) + unat y"
      using L by (simp add: fields)
    moreover have "unat (total_quantity (lvl b p bk)) = qty_sum (ords bk) (L b p)"
      using old by (simp add: level_inv_def)
    ultimately have tot: "unat (total_quantity (lvl b p bk')) = qty_sum (ords bk') (L b p)"
      using l'(3) by linarith
    have "dllseg (ords bk') None (head (lvl b p bk')) (L b p) (tail (lvl b p bk')) None"
      using old l'(1,2) dllseg_cong [of "L b p" "ords bk" "ords bk'"] fields
      by (simp add: level_inv_def)
    then show ?thesis using True tot old by (simp add: level_inv_def)
  next
    case False
    then have "q \<notin> set (L b' p')" using heap_inv_disjoint [OF inv q, of b' p'] by blast
    then have "level_inv (ords bk') (lvl b' p' bk) (L b' p') \<longleftrightarrow> level_inv (ords bk) (lvl b' p' bk) (L b' p')"
      by (intro level_inv_cong) (auto simp: fields)
    then show ?thesis using D(5) [OF that] other [OF False] by simp
  qed
  show "resting_ok N bk' b' p' x" if "x \<in> set (L b' p')" for b' p' x
    using D(6) [OF that] y m by (auto simp: resting_ok_def fields)
  show "unat (oid (ords bk' x)) = i \<and> x \<in> set (L (is_buy (ords bk' x)) (unat (oprice (ords bk' x))))"
    if "i < N" "vat (order_map bk') i = Some x" for i x
    using D(7) [of i x] that m by (simp add: fields)
qed

section \<open>Adding an order\<close>

lemma level_inv_snoc:
  assumes lv: "level_inv h l qs" and fresh: "q \<notin> set qs"
    and hq: "prv (h' q) = tail l" "nxt (h' q) = None"
    and h': "\<And>x. x \<in> set qs \<Longrightarrow> prv (h' x) = prv (h x) \<and> quantity (h' x) = quantity (h x) \<and>
               nxt (h' x) = (if tail l = Some x then Some q else nxt (h x))"
    and l': "head l' = (if head l = None then Some q else head l)" "tail l' = Some q"
      "unat (total_quantity l') = unat (total_quantity l) + unat (quantity (h' q))"
  shows "level_inv h' l' (qs @ [q])"
proof -
  have seg: "dllseg h None (head l) qs (tail l) None" and d: "distinct qs"
    and tot: "unat (total_quantity l) = qty_sum h qs" using lv by (simp_all add: level_inv_def)
  have "dllseg h' None (head l') (qs @ [q]) (tail l') None"
    using dllseg_snoc [where h' = h', OF seg fresh d hq] h' l'(1,2) by simp
  moreover have "qty_sum h' qs = qty_sum h qs" using h' by (intro qty_sum_cong) simp
  ultimately show ?thesis using tot l'(3) d fresh by (simp add: level_inv_def)
qed

lemma heap_inv_add:
  assumes inv: "heap_inv T N bk L" and p: "p < T" and i: "unat i < N"
    and new_id: "vat (order_map bk) (unat i) = None"
    and q: "q < N" "q \<notin> pool_used (pool bk)"
    and sizes: "book_sizes T N bk'"
    and hq: "oid (ords bk' q) = i" "unat (oprice (ords bk' q)) = p" "is_buy (ords bk' q) = b"
      "quantity (ords bk' q) \<noteq> 0" "prv (ords bk' q) = tail (lvl b p bk)" "nxt (ords bk' q) = None"
    and h': "\<And>x. x \<noteq> q \<Longrightarrow> ords bk' x =
               (if tail (lvl b p bk) = Some x then (ords bk x)\<lparr>nxt := Some q\<rparr> else ords bk x)"
    and fl: "free_list (pool bk) = free_list (pool bk') @ [q]"
    and m: "order_map bk' = vupd (order_map bk) (unat i) (Some q)"
    and other: "\<And>b' p'. \<not> (b' = b \<and> p' = p) \<Longrightarrow> lvl b' p' bk' = lvl b' p' bk"
    and l': "head (lvl b p bk') = (if head (lvl b p bk) = None then Some q else head (lvl b p bk))"
      "tail (lvl b p bk') = Some q"
      "unat (total_quantity (lvl b p bk')) = unat (total_quantity (lvl b p bk)) + unat (quantity (ords bk' q))"
  shows "heap_inv T N bk' (Lset L b p (L b p @ [q]))" (is "heap_inv T N bk' ?L")
proof (rule heap_invI)
  note D = heap_invD [OF inv]
  have sz: "vsize (slots (pool bk')) = N" "vsize (slots (pool bk)) = N"
    using sizes D(1) by (simp_all add: book_sizes_def)
  have nq: "q \<notin> set (L b' p')" for b' p' using q(2) D(3) by blast
  have mem: "x \<in> set (?L b' p') \<longleftrightarrow> x \<in> set (L b' p') \<or> (x = q \<and> b' = b \<and> p' = p)" for x b' p'
    by (cases "b' = b \<and> p' = p") (auto simp: Lset_other)
  have lvp: "level_inv (ords bk) (lvl b p bk) (L b p)" using D(5) [OF p] .
  have tail: "x \<in> set (L b p)" if "tail (lvl b p bk) = Some x" for x
    using lvp that dllseg_tail [of "ords bk" None "head (lvl b p bk)" "L b p" "tail (lvl b p bk)" None]
    by (auto simp: level_inv_def split: if_splits)
  have fields: "is_buy (ords bk' x) = is_buy (ords bk x)" "oprice (ords bk' x) = oprice (ords bk x)"
    "oid (ords bk' x) = oid (ords bk x)" "prv (ords bk' x) = prv (ords bk x)"
    "quantity (ords bk' x) = quantity (ords bk x)"
    "nxt (ords bk' x) = (if tail (lvl b p bk) = Some x then Some q else nxt (ords bk x))" if "x \<noteq> q" for x
    using h' [OF that] by simp_all
  have ne: "x \<noteq> q" if "x \<in> set (L b' p')" for x b' p' using nq that by blast
  show "book_sizes T N bk'" by (rule sizes)
  have frees: "ords bk' x = ords bk x" if "x \<in> set (free_list (pool bk'))" for x
  proof -
    have "x \<noteq> q" using that fl D(2) by (auto simp: pool_inv_def)
    moreover have "tail (lvl b p bk) \<noteq> Some x"
      using tail heap_inv_member(3) [OF inv] that fl by fastforce
    ultimately show ?thesis using h' by simp
  qed
  show "pool_inv (pool bk')" using D(2) fl frees sz by (auto simp: pool_inv_def)
  have "pool_used (pool bk') = insert q (pool_used (pool bk))"
    using fl sz q D(2) by (auto simp: pool_used_def pool_inv_def)
  then show "pool_used (pool bk') = {x. \<exists>b p. x \<in> set (?L b p)}"
    using D(3) mem by auto
  show "?L b' p' = []" if "T \<le> p'" for b' p'
    using D(4) [OF that] p that by (cases "b' = b \<and> p' = p") (auto simp: Lset_other)
  show "level_inv (ords bk') (lvl b' p' bk') (?L b' p')" if "p' < T" for b' p'
  proof (cases "b' = b \<and> p' = p")
    case True
    have "level_inv (ords bk') (lvl b p bk') (L b p @ [q])"
      using fields ne hq l' by (intro level_inv_snoc [OF lvp nq]) auto
    then show ?thesis using True by simp
  next
    case False
    have "tail (lvl b p bk) \<noteq> Some x" if "x \<in> set (L b' p')" for x
      using tail False that heap_inv_disjoint [OF inv, of x b p b' p'] by blast
    then have "level_inv (ords bk') (lvl b' p' bk) (L b' p') \<longleftrightarrow> level_inv (ords bk) (lvl b' p' bk) (L b' p')"
      using fields ne by (intro level_inv_cong) auto
    then show ?thesis using D(5) [OF that] other [OF False] Lset_other [OF False] by metis
  qed
  have map_other: "vat (order_map bk') j = vat (order_map bk) j" if "j \<noteq> unat i" for j
    using m that by simp
  show "resting_ok N bk' b' p' x" if "x \<in> set (?L b' p')" for b' p' x
  proof (cases "x = q")
    case True
    then have "b' = b \<and> p' = p" using that mem nq by blast
    then show ?thesis using True hq i m by (simp add: resting_ok_def)
  next
    case False
    then have x: "x \<in> set (L b' p')" using that mem by blast
    have old: "resting_ok N bk b' p' x" using D(6) [OF x] .
    then have "unat (oid (ords bk x)) \<noteq> unat i" using new_id by (auto simp: resting_ok_def)
    then show ?thesis using old map_other by (simp add: resting_ok_def fields [OF False])
  qed
  show "unat (oid (ords bk' x)) = j \<and> x \<in> set (?L (is_buy (ords bk' x)) (unat (oprice (ords bk' x))))"
    if j: "j < N" and x: "vat (order_map bk') j = Some x" for j x
  proof (cases "j = unat i")
    case True
    then have "x = q" using x m by simp
    then show ?thesis using True hq mem by simp
  next
    case False
    then have old: "unat (oid (ords bk x)) = j \<and> x \<in> set (L (is_buy (ords bk x)) (unat (oprice (ords bk x))))"
      using D(7) [OF j] x map_other by simp
    then have "x \<noteq> q" using nq by blast
    then show ?thesis using old fields mem by simp
  qed
qed

end
