(* ===== verification/OrderBookSpec.thy ===== *)
theory OrderBookSpec
  imports OrderBookInv
begin

text \<open>
  What the order book promises: price-time priority on an abstract book (for each side and price
  a FIFO queue of identifiers and quantities), and the abstraction from the concrete book. The
  refinement theorems are in \<open>OrderBookMatch\<close> and \<open>OrderBookOps\<close>.
\<close>

section \<open>The abstract book\<close>

type_synonym queue = "(u64 \<times> nat) list"
type_synonym abook = "bool \<Rightarrow> nat \<Rightarrow> queue"

text \<open>Trade \<open>q\<close> units against a queue, oldest order first.\<close>

fun fill :: "nat \<Rightarrow> queue \<Rightarrow> nat \<times> queue" where
  "fill q [] = (q, [])"
| "fill q ((i, n) # xs) =
     (if q = 0 then (0, (i, n) # xs)
      else if n \<le> q then fill (q - n) xs
      else (0, (i, n - q) # xs))"

text \<open>Trade against the queues of the prices \<open>ps\<close>, best price first.\<close>

fun sweep :: "nat \<Rightarrow> nat list \<Rightarrow> (nat \<Rightarrow> queue) \<Rightarrow> nat \<times> (nat \<Rightarrow> queue)" where
  "sweep q [] A = (q, A)"
| "sweep q (p # ps) A = sweep (fst (fill q (A p))) ps (A(p := snd (fill q (A p))))"

definition crossing_prices :: "nat \<Rightarrow> nat \<Rightarrow> bool \<Rightarrow> nat list" where
  "crossing_prices T p buy = (if buy then [0..<Suc p] else rev [p..<T])"

definition spec_match :: "nat \<Rightarrow> nat \<Rightarrow> nat \<Rightarrow> bool \<Rightarrow> abook \<Rightarrow> nat \<times> abook" where
  "spec_match T p q buy A =
     (let r = sweep q (crossing_prices T p buy) (A (\<not> buy)) in (fst r, A((\<not> buy) := snd r)))"

definition spec_add :: "nat \<Rightarrow> u64 \<Rightarrow> nat \<Rightarrow> nat \<Rightarrow> bool \<Rightarrow> abook \<Rightarrow> abook" where
  "spec_add T i p q buy A =
     (let (r, A') = spec_match T p q buy A
      in if r = 0 then A' else Lset A' buy p (A' buy p @ [(i, r)]))"

definition spec_cancel :: "u64 \<Rightarrow> abook \<Rightarrow> abook" where
  "spec_cancel i A = (\<lambda>b p. filter (\<lambda>(j, n). j \<noteq> i) (A b p))"

text \<open>Modifying the live order \<open>i\<close>, which rests on side \<open>b\<close> at price \<open>p\<close> for \<open>n\<close> units.\<close>

definition spec_modify ::
  "nat \<Rightarrow> u64 \<Rightarrow> bool \<Rightarrow> nat \<Rightarrow> nat \<Rightarrow> nat \<Rightarrow> nat \<Rightarrow> abook \<Rightarrow> abook" where
  "spec_modify T i b p n p' n' A =
     (if p' \<noteq> p \<or> n' > n then spec_add T i p' n' b (spec_cancel i A)
      else if n' = 0 then spec_cancel i A
      else Lset A b p (map (\<lambda>(j, k). if j = i then (j, n') else (j, k)) (A b p)))"

definition side_total :: "nat \<Rightarrow> (nat \<Rightarrow> queue) \<Rightarrow> nat" where
  "side_total T A = (\<Sum>p<T. sum_list (map snd (A p)))"

section \<open>Abstraction\<close>

definition entry :: "order_heap \<Rightarrow> nat \<Rightarrow> u64 \<times> nat" where
  "entry h q = (oid (h q), unat (quantity (h q)))"

definition labs :: "OrderBook \<Rightarrow> ladder \<Rightarrow> abook" where
  "labs bk L = (\<lambda>b p. map (entry (ords bk)) (L b p))"

definition abs_book :: "OrderBook \<Rightarrow> abook" where
  "abs_book bk = labs bk (ladder_of bk)"

definition same_index :: "OrderBook \<Rightarrow> OrderBook \<Rightarrow> bool" where
  "same_index bk bk' \<longleftrightarrow>
     bid_bits bk' = bid_bits bk \<and> ask_bits bk' = ask_bits bk \<and>
     best_bid bk' = best_bid bk \<and> best_ask bk' = best_ask bk"

section \<open>Facts about the specification\<close>

lemma fill_0 [simp]: "fill 0 xs = (0, xs)"
  by (cases "(0 :: nat, xs)" rule: fill.cases) auto

lemma fst_fill: "fst (fill q xs) = q - sum_list (map snd xs)"
  by (induction q xs rule: fill.induct) auto

lemma sum_snd_fill: "sum_list (map snd (snd (fill q xs))) = sum_list (map snd xs) - q"
  by (induction q xs rule: fill.induct) auto

lemma fill_conserves: "sum_list (map snd (snd (fill q xs))) + (q - fst (fill q xs)) = sum_list (map snd xs)"
  unfolding fst_fill sum_snd_fill by linarith

lemma fill_remaining_empty: "0 < fst (fill q xs) \<Longrightarrow> snd (fill q xs) = []"
  by (induction q xs rule: fill.induct) (auto split: if_splits)

lemma fill_positive: "(\<forall>x\<in>set xs. 0 < snd x) \<Longrightarrow> \<forall>x\<in>set (snd (fill q xs)). 0 < snd x"
  by (induction q xs rule: fill.induct) auto

lemma fill_ids_suffix: "\<exists>ys. map fst xs = ys @ map fst (snd (fill q xs))"
  by (induction q xs rule: fill.induct) (auto intro: exI [of _ "[]"] exI [of _ "_ # _"])

lemma sweep_append:
  "sweep q (ps @ rs) A = sweep (fst (sweep q ps A)) rs (snd (sweep q ps A))"
  by (induction ps arbitrary: q A) auto

lemma sweep_empty: "(\<And>p. p \<in> set ps \<Longrightarrow> A p = []) \<Longrightarrow> sweep q ps A = (q, A)"
proof (induction ps)
  case (Cons p ps)
  then have "A(p := []) = A" by auto
  then show ?case using Cons by simp
qed simp

lemma sweep_0 [simp]: "sweep 0 ps A = (0, A)"
  by (induction ps arbitrary: A) auto

lemma labs_Lset_other:
  "(\<And>b' p' x. x \<in> set (L b' p') \<Longrightarrow> \<not> (b' = b \<and> p' = p) \<Longrightarrow> entry (ords bk') x = entry (ords bk) x) \<Longrightarrow>
   labs bk' (Lset L b p qs) = Lset (labs bk L) b p (map (entry (ords bk')) qs)"
  by (intro ext) (auto simp: labs_def Lset_apply)

lemma sweep_step:
  fixes q :: nat
  assumes "\<And>x. x \<in> set ps1 \<Longrightarrow> A x = []" "mp \<notin> set ps1"
  defines "q' \<equiv> fst (fill q (A mp))" and "A' \<equiv> A(mp := snd (fill q (A mp)))"
  shows "sweep q (ps1 @ mp # ps2) A = sweep q' (ps1 @ mp # ps2) A'"
proof -
  have 1: "sweep q (ps1 @ mp # ps2) A = sweep q' ps2 A'"
    using sweep_empty [of ps1 A q] assms(1) by (simp add: sweep_append q'_def A'_def)
  have e: "sweep q' ps1 A' = (q', A')"
    using assms(1,2) by (intro sweep_empty) (auto simp: A'_def)
  have 2: "sweep q' ps2 A' = sweep q' (ps1 @ mp # ps2) A'"
  proof (cases "q' = 0")
    case False
    then have "A' mp = []" using fill_remaining_empty [of q "A mp"] by (simp add: q'_def A'_def)
    then have "fill q' (A' mp) = (q', [])" "A'(mp := []) = A'" by auto
    then show ?thesis using e by (simp add: sweep_append)
  qed simp
  show ?thesis using 1 2 by simp
qed

lemma upt_split: "i \<le> m \<Longrightarrow> m < j \<Longrightarrow> [i..<j] = [i..<m] @ m # [Suc m..<j]"
  using upt_add_eq_append [of i m "j - m"] upt_conv_Cons [of m j] by simp

lemma crossing_prices_split:
  assumes "mp < T" "if buy then mp \<le> p else p \<le> mp"
  shows "\<exists>ps1 ps2. crossing_prices T p buy = ps1 @ mp # ps2 \<and> mp \<notin> set ps1 \<and>
     (\<forall>x\<in>set ps1. if buy then x < mp else mp < x)"
proof (cases buy)
  case True
  then have "[0..<Suc p] = [0..<mp] @ mp # [Suc mp..<Suc p]"
    using assms(2) by (intro upt_split) auto
  then show ?thesis
    using True by (intro exI [of _ "[0..<mp]"] exI [of _ "[Suc mp..<Suc p]"]) (simp add: crossing_prices_def)
next
  case False
  then have "[p..<T] = [p..<mp] @ mp # [Suc mp..<T]"
    using assms by (intro upt_split) auto
  then show ?thesis
    using False by (intro exI [of _ "rev [Suc mp..<T]"] exI [of _ "rev [p..<mp]"]) (simp add: crossing_prices_def)
qed

lemma set_crossing_prices:
  "x \<in> set (crossing_prices T p buy) \<longleftrightarrow> (if buy then x \<le> p else p \<le> x \<and> x < T)"
  by (auto simp: crossing_prices_def)

lemma spec_match_step:
  assumes "mp < T" "if buy then mp \<le> p else p \<le> mp"
    and empty: "\<And>x. (if buy then x < mp else mp < x) \<Longrightarrow> A (\<not> buy) x = []"
  shows "spec_match T p q buy A =
     spec_match T p (fst (fill q (A (\<not> buy) mp))) buy (Lset A (\<not> buy) mp (snd (fill q (A (\<not> buy) mp))))"
proof -
  obtain ps1 ps2 where ps: "crossing_prices T p buy = ps1 @ mp # ps2" "mp \<notin> set ps1"
    "\<And>x. x \<in> set ps1 \<Longrightarrow> A (\<not> buy) x = []"
    using crossing_prices_split [OF assms(1,2)] empty by meson
  show ?thesis
    using sweep_step [of ps1 "A (\<not> buy)" mp q ps2, OF ps(3,2)]
    by (simp add: spec_match_def Let_def ps(1) Lset_def)
qed

lemma spec_match_stop:
  assumes "q = 0 \<or> (\<forall>x. (if buy then x \<le> p else p \<le> x \<and> x < T) \<longrightarrow> A (\<not> buy) x = [])"
  shows "spec_match T p q buy A = (q, A)"
proof -
  have "sweep q (crossing_prices T p buy) (A (\<not> buy)) = (q, A (\<not> buy))"
    using assms sweep_empty [of "crossing_prices T p buy" "A (\<not> buy)" q]
    by (auto simp: set_crossing_prices)
  then show ?thesis by (simp add: spec_match_def)
qed

lemma side_total_upd:
  assumes "p < T"
  shows "side_total T (A(p := xs)) + sum_list (map snd (A p)) = side_total T A + sum_list (map snd xs)"
proof -
  let ?f = "\<lambda>A p. sum_list (map snd (A p))"
  have r: "(\<Sum>x\<in>{..<T} - {p}. ?f (A(p := xs)) x) = (\<Sum>x\<in>{..<T} - {p}. ?f A x)"
    by (intro sum.cong) auto
  have split: "side_total T A' = ?f A' p + (\<Sum>x\<in>{..<T} - {p}. ?f A' x)" for A'
    using assms(1) by (simp add: side_total_def sum.remove)
  show ?thesis unfolding split [of A] split [of "A(p := xs)"] r by simp
qed

lemma side_total_fill:
  assumes "p < T" "q \<le> side_total T A"
  shows "fst (fill q (A p)) \<le> side_total T (A(p := snd (fill q (A p))))"
proof -
  let ?f = "\<lambda>A p. sum_list (map snd (A p))"
  have r: "(\<Sum>x\<in>{..<T} - {p}. ?f (A(p := xs)) x) = (\<Sum>x\<in>{..<T} - {p}. ?f A x)" for xs
    by (intro sum.cong) auto
  have split: "side_total T A' = ?f A' p + (\<Sum>x\<in>{..<T} - {p}. ?f A' x)" for A'
    using assms(1) by (simp add: side_total_def sum.remove)
  show ?thesis
    using assms(2) unfolding split [of A] split [of "A(p := _)"] r
    by (simp add: fst_fill sum_snd_fill)
qed

lemma side_total_empty: "(\<And>p. p < T \<Longrightarrow> A p = []) \<Longrightarrow> side_total T A = 0"
  by (simp add: side_total_def)

section \<open>Identifiers and quantities under the specification\<close>

definition live_ids :: "abook \<Rightarrow> u64 set" where
  "live_ids A = {i. \<exists>b p. i \<in> fst ` set (A b p)}"

lemma fill_ids: "fst ` set (snd (fill q xs)) \<subseteq> fst ` set xs"
proof -
  obtain ys where "map fst xs = ys @ map fst (snd (fill q xs))" using fill_ids_suffix by blast
  then have "set (map fst (snd (fill q xs))) \<subseteq> set (map fst xs)" by simp
  then show ?thesis by simp
qed

lemma sweep_ids: "fst ` set (snd (sweep q ps A) p) \<subseteq> fst ` set (A p)"
proof (induction ps arbitrary: q A)
  case (Cons x ps)
  have "fst ` set (snd (sweep q (x # ps) A) p) \<subseteq> fst ` set ((A(x := snd (fill q (A x)))) p)"
    unfolding sweep.simps by (rule Cons.IH)
  also have "\<dots> \<subseteq> fst ` set (A p)" using fill_ids by (cases "p = x") auto
  finally show ?case .
qed simp

lemma spec_match_ids: "live_ids (snd (spec_match T p q buy A)) \<subseteq> live_ids A"
proof -
  have "fst ` set (snd (spec_match T p q buy A) b x) \<subseteq> fst ` set (A b x)" for b x
    using sweep_ids [of q "crossing_prices T p buy" "A (\<not> buy)" x]
    by (cases "b = (\<not> buy)") (simp_all add: spec_match_def Let_def)
  then show ?thesis unfolding live_ids_def by blast
qed

lemma spec_match_empty: "A b x = [] \<Longrightarrow> snd (spec_match T p q buy A) b x = []"
  using sweep_ids [of q "crossing_prices T p buy" "A (\<not> buy)" x]
  by (cases "b = (\<not> buy)") (simp_all add: spec_match_def Let_def)

lemma fst_sweep_le: "fst (sweep q ps A) \<le> q"
proof (induction ps arbitrary: q A)
  case (Cons x ps)
  have "fst (sweep q (x # ps) A) \<le> fst (fill q (A x))" using Cons.IH by simp
  also have "\<dots> \<le> q" by (simp add: fst_fill)
  finally show ?case .
qed simp

lemma spec_match_le: "fst (spec_match T p q buy A) \<le> q"
  by (simp add: spec_match_def Let_def fst_sweep_le)

lemma spec_match_own_side: "snd (spec_match T p q buy A) buy = A buy"
  by (simp add: spec_match_def Let_def)

section \<open>Identifiers in the concrete book\<close>

lemma order_map_live:
  assumes inv: "heap_inv T N bk L" and i: "unat i < N"
  shows "vat (order_map bk) (unat i) = None \<longleftrightarrow> i \<notin> live_ids (labs bk L)"
proof
  assume n: "vat (order_map bk) (unat i) = None"
  show "i \<notin> live_ids (labs bk L)"
  proof
    assume "i \<in> live_ids (labs bk L)"
    then obtain b p q where "q \<in> set (L b p)" "oid (ords bk q) = i"
      by (auto simp: live_ids_def labs_def entry_def)
    then show False using heap_inv_member(4) [OF inv] n by (auto simp: resting_ok_def)
  qed
next
  assume n: "i \<notin> live_ids (labs bk L)"
  show "vat (order_map bk) (unat i) = None"
  proof (cases "vat (order_map bk) (unat i)")
    case (Some q)
    note D = heap_invD(7) [OF inv i Some]
    then have "oid (ords bk q) = i" by (simp add: word_unat_eq_iff)
    then have "i \<in> live_ids (labs bk L)" using D by (force simp: live_ids_def labs_def entry_def)
    then show ?thesis using n by simp
  qed simp
qed

lemma pool_has_room:
  assumes inv: "heap_inv T N bk L" and i: "unat i < N" and new: "vat (order_map bk) (unat i) = None"
  shows "card (pool_used (pool bk)) < N"
proof -
  let ?U = "pool_used (pool bk)" and ?f = "\<lambda>q. unat (oid (ords bk q))"
  have ok: "?f q < N \<and> vat (order_map bk) (?f q) = Some q" if "q \<in> ?U" for q
    using that heap_invD(3) [OF inv] heap_inv_member(4) [OF inv] by (fastforce simp: resting_ok_def)
  have "inj_on ?f ?U" by (rule inj_onI) (metis ok option.inject)
  moreover have "?f ` ?U \<subseteq> {..<N} - {unat i}" using ok new by force
  ultimately have "card ?U \<le> card ({..<N} - {unat i})" by (metis card_image card_mono finite_Diff finite_lessThan)
  also have "\<dots> < N" using i by simp
  finally show ?thesis .
qed

end
