(* ===== verification/OrderBookMatch.thy ===== *)
theory OrderBookMatch
  imports OrderBookSpec
begin

text \<open>
  The matching loops: \<open>match_level\<close> trades against one level exactly as \<open>fill\<close> does, and
  \<open>match_order\<close> sweeps the crossing levels as \<open>spec_match\<close> does, whenever the loop can
  end at all.
\<close>

section \<open>One level\<close>

lemma unlink_heap_requantity:
  "x \<noteq> q \<Longrightarrow> unlink_heap q (h(q := (h q)\<lparr>quantity := y\<rparr>)) x = unlink_heap q h x"
  by (simp add: unlink_heap_def)

lemma unat_min_32: "unat (min a b :: u32) = min (unat a) (unat b)"
  by (simp add: min_def word_le_nat_alt)

definition removed :: "nat \<Rightarrow> bool \<Rightarrow> nat \<Rightarrow> OrderBook \<Rightarrow> OrderBook" where
  "removed q b p bk =
     (upd_lvl b p (unlink_level (ords bk q) (lvl b p bk)) bk)
       \<lparr>pool := \<lparr>slots = vupd (Vector (vsize (slots (pool bk))) (unlink_heap q (ords bk))) q
                         ((unlink_heap q (ords bk) q)\<lparr>prv := None, nxt := None\<rparr>),
                free_list = free_list (pool bk) @ [q]\<rparr>,
        order_map := vupd (order_map bk) (unat (oid (ords bk q))) None\<rparr>"

lemma pool_update_id: "(pl\<lparr>slots := v, free_list := fl\<rparr>) = (\<lparr>slots = v, free_list = fl\<rparr> :: OrderPool)"
  by simp

lemma unlink_release_eq:
  assumes "q < vsize (slots (pool bk))" "unat p < side_size b bk"
    and "unat (oid (ords bk q)) < vsize (order_map bk)"
    and "\<And>a. prv (ords bk q) = Some a \<Longrightarrow> a < vsize (slots (pool bk)) \<and> a \<noteq> q"
    and "\<And>a. nxt (ords bk q) = Some a \<Longrightarrow> a < vsize (slots (pool bk)) \<and> a \<noteq> q"
  shows "seqc (unlink q b p bk) (\<lambda>bk'. seqc (set_map (oid (ords bk q)) None bk') (free_order q)) =
     ret (removed q b (unat p) bk)"
  using assms(1-3) by (simp add: unlink_eq [OF assms(1,2,4,5)] removed_def)

lemma heap_inv_removed:
  assumes inv: "heap_inv T N bk L" and q: "q \<in> set (L b p)"
    and h1: "ords bk1 = (ords bk)(q := (ords bk q)\<lparr>quantity := y\<rparr>)"
    and same: "free_list (pool bk1) = free_list (pool bk)" "order_map bk1 = order_map bk"
      "book_sizes T N bk1" "\<And>b' p'. \<not> (b' = b \<and> p' = p) \<Longrightarrow> lvl b' p' bk1 = lvl b' p' bk"
      "lvl b p bk1 = (lvl b p bk)\<lparr>total_quantity := total_quantity (lvl b p bk) - ucast (quantity (ords bk q))\<rparr>"
  shows "heap_inv T N (removed q b p bk1) (Lset L b p (remove1 q (L b p)))"
    and "labs (removed q b p bk1) (Lset L b p (remove1 q (L b p))) =
         Lset (labs bk L) b p (map (entry (ords bk)) (remove1 q (L b p)))"
    and "same_index bk1 (removed q b p bk1)"
proof -
  have fields: "prv (ords bk1 q) = prv (ords bk q)" "nxt (ords bk1 q) = nxt (ords bk q)"
    "oid (ords bk1 q) = oid (ords bk q)" using h1 by simp_all
  have h': "ords (removed q b p bk1) x = unlink_heap q (ords bk) x" if "x \<noteq> q" for x
    using that by (simp add: removed_def h1 unlink_heap_requantity)
  show "heap_inv T N (removed q b p bk1) (Lset L b p (remove1 q (L b p)))"
  proof (rule heap_inv_remove [OF inv q _ h'])
    show "book_sizes T N (removed q b p bk1)"
      using same(3) by (simp add: book_sizes_def removed_def)
  qed (use same fields in \<open>auto simp: removed_def lvl_upd_lvl unlink_level_def\<close>)
  have d: "distinct (L b p)"
    using heap_invD(5) [OF inv heap_inv_member(1) [OF inv q]] by (simp add: level_inv_def)
  have ent: "entry (ords (removed q b p bk1)) x = entry (ords bk) x" if "x \<noteq> q" for x
    using h' [OF that] by (simp add: entry_def unlink_heap_def)
  have "x \<noteq> q" if "x \<in> set (L b' p')" "\<not> (b' = b \<and> p' = p)" for b' p' x
    using that heap_inv_disjoint [OF inv q, of b' p'] by blast
  then have "labs (removed q b p bk1) (Lset L b p (remove1 q (L b p))) =
        Lset (labs bk L) b p (map (entry (ords (removed q b p bk1))) (remove1 q (L b p)))"
    using ent by (intro labs_Lset_other) blast
  also have "map (entry (ords (removed q b p bk1))) (remove1 q (L b p)) =
        map (entry (ords bk)) (remove1 q (L b p))"
    using ent d by auto
  finally show "labs (removed q b p bk1) (Lset L b p (remove1 q (L b p))) =
         Lset (labs bk L) b p (map (entry (ords bk)) (remove1 q (L b p)))" .
  show "same_index bk1 (removed q b p bk1)"
    by (simp add: same_index_def removed_def)
qed

text \<open>The book after \<open>resting_order->quantity -= d; level.total_quantity -= d;\<close>\<close>

definition traded :: "nat \<Rightarrow> bool \<Rightarrow> nat \<Rightarrow> 31 word \<Rightarrow> u32 \<Rightarrow> OrderBook \<Rightarrow> OrderBook" where
  "traded q b p left d bk =
     upd_lvl b p ((lvl b p bk)\<lparr>total_quantity := total_quantity (lvl b p bk) - ucast d\<rparr>)
       (bk\<lparr>pool := (pool bk)\<lparr>slots := vupd (slots (pool bk)) q ((ords bk q)\<lparr>quantity := left\<rparr>)\<rparr>\<rparr>)"

lemma traded_sel [simp]:
  "free_list (pool (traded q b p l d bk)) = free_list (pool bk)"
  "vsize (slots (pool (traded q b p l d bk))) = vsize (slots (pool bk))"
  "ords (traded q b p l d bk) = (ords bk)(q := (ords bk q)\<lparr>quantity := l\<rparr>)"
  "order_map (traded q b p l d bk) = order_map bk"
  "book_sizes T N (traded q b p l d bk) = book_sizes T N bk"
  "side_size b' (traded q b p l d bk) = side_size b' bk"
  "same_index bk (traded q b p l d bk)"
  by (simp_all add: traded_def book_sizes_def same_index_def vupd_def)

lemma lvl_traded: "lvl b' p' (traded q b p l d bk) =
  (if b' = b \<and> p' = p then (lvl b p bk)\<lparr>total_quantity := total_quantity (lvl b p bk) - ucast d\<rparr> else lvl b' p' bk)"
  by (simp add: traded_def lvl_upd_lvl)

lemma same_index_trans: "same_index a b \<Longrightarrow> same_index b c \<Longrightarrow> same_index a c"
  by (simp add: same_index_def)

lemma ucast_31_64_via_32: "ucast (ucast (x :: 31 word) :: u32) = (ucast x :: u64)"
  by (simp add: word_unat_eq_iff)

lemma ucast_31_32_31: "ucast (ucast (x :: 31 word) :: u32) = x"
  using unat_31_less [of x] by (simp add: word_unat_eq_iff [of _ x] unat_ucast_32_31)

lemma match_level_unfold:
  assumes inv: "heap_inv T N bk L" and q: "q \<in> set (L (\<not> buy) (unat mp))" and rem: "rem \<noteq> 0"
  defines "d \<equiv> min (ucast (quantity (ords bk q))) rem"
  defines "left \<equiv> quantity (ords bk q) - ucast d"
  defines "bk1 \<equiv> traded q (\<not> buy) (unat mp) left d bk"
  shows "match_level buy mp (Some q) rem bk =
    (if left = 0 then match_level buy mp (nxt (ords bk q)) (rem - d) (removed q (\<not> buy) (unat mp) bk1)
     else match_level buy mp (Some q) (rem - d) bk1)"
proof -
  note M = heap_inv_member [OF inv q]
  note D = heap_invD [OF inv]
  have sz: "vsize (slots (pool bk)) = N" "side_size (\<not> buy) bk = T" "vsize (order_map bk) = N"
    using D(1) by (simp_all add: book_sizes_def side_size_def)
  have oid: "unat (oid (ords bk q)) < N" using M(4) by (simp add: resting_ok_def)
  have nb: "\<And>a. prv (ords bk q) = Some a \<Longrightarrow> a < N \<and> a \<noteq> q"
      "\<And>a. nxt (ords bk q) = Some a \<Longrightarrow> a < N \<and> a \<noteq> q"
    using resting_neighbours [OF inv q] heap_inv_member(2) [OF inv] by blast+
  have rel: "seqc (unlink q (\<not> buy) mp bk1)
      (\<lambda>bk'. seqc (set_map (oid (ords bk q)) None bk') (free_order q)) = ret (removed q (\<not> buy) (unat mp) bk1)"
    using unlink_release_eq [of q bk1 mp "\<not> buy"] sz M(1,2) oid nb by (simp add: bk1_def)
  have rel': "seqc (unlink q (\<not> buy) mp bk1) (\<lambda>bk'. seqc (set_map (oid (ords bk q)) None bk')
      (\<lambda>bk'. seqc (free_order q bk') k)) = k (removed q (\<not> buy) (unat mp) bk1)" for k :: "OrderBook \<Rightarrow> (u32 \<times> OrderBook) comp"
    using arg_cong [OF rel, of "\<lambda>m. seqc m k"] by (simp add: seqc_assoc)
  have "match_level buy mp (Some q) rem bk =
    (if left = 0 then seqc (unlink q (\<not> buy) mp bk1) (\<lambda>bk'. seqc (set_map (oid (ords bk q)) None bk')
      (\<lambda>bk'. seqc (free_order q bk') (match_level buy mp (nxt (ords bk q)) (rem - d))))
     else match_level buy mp (Some q) (rem - d) bk1)"
    using rem M(1,2) sz
    by (subst match_level.simps)
      (simp add: Let_def word_neq_0_conv bk1_def traded_def left_def d_def)
  then show ?thesis by (simp only: rel')
qed

lemma match_level_stop [simp]: "match_level buy mp r 0 bk = ret (0, bk)"
  by (subst match_level.simps) simp

lemma match_level_none [simp]: "match_level buy mp None rem bk = ret (rem, bk)"
  by (subst match_level.simps) simp

lemma level_head:
  assumes "heap_inv T N bk L" "p < T"
  shows "head (lvl b p bk) = (if L b p = [] then None else Some (hd (L b p)))"
  using heap_invD(5) [OF assms, of b] dllseg_head [of "ords bk" None "head (lvl b p bk)" "L b p"]
  by (auto simp: level_inv_def)

lemma match_level_consume:
  assumes inv: "heap_inv T N bk L" and b: "b = (\<not> buy)" and L: "L b (unat mp) = q # qs"
    and rem: "rem \<noteq> 0" and le: "unat (quantity (ords bk q)) \<le> unat rem"
  shows "\<exists>bk'. match_level buy mp (Some q) rem bk =
       match_level buy mp (head (lvl b (unat mp) bk')) (rem - ucast (quantity (ords bk q))) bk' \<and>
     heap_inv T N bk' (Lset L b (unat mp) qs) \<and> same_index bk bk' \<and>
     labs bk' (Lset L b (unat mp) qs) = Lset (labs bk L) b (unat mp) (map (entry (ords bk)) qs)"
proof -
  have q: "q \<in> set (L b (unat mp))" using L by simp
  define d where "d = min (ucast (quantity (ords bk q))) rem"
  define bk1 where "bk1 = traded q b (unat mp) 0 d bk"
  define bk2 where "bk2 = removed q b (unat mp) bk1"
  have dq: "d = ucast (quantity (ords bk q))" using le by (simp add: d_def min_def word_le_nat_alt)
  have left0: "quantity (ords bk q) - ucast d = 0"
    by (simp add: dq ucast_31_32_31)
  have step: "match_level buy mp (Some q) rem bk = match_level buy mp (nxt (ords bk q)) (rem - d) bk2"
    using match_level_unfold [OF inv q [unfolded b] rem] left0 b
    by (simp add: bk2_def bk1_def d_def)
  have tot: "lvl b (unat mp) bk1 = (lvl b (unat mp) bk)\<lparr>total_quantity :=
      total_quantity (lvl b (unat mp) bk) - ucast (quantity (ords bk q))\<rparr>"
    by (simp add: bk1_def lvl_traded dq ucast_31_64_via_32)
  have pre: "ords bk1 = (ords bk)(q := (ords bk q)\<lparr>quantity := 0\<rparr>)"
    "free_list (pool bk1) = free_list (pool bk)" "order_map bk1 = order_map bk" "book_sizes T N bk1"
    using heap_invD(1) [OF inv] by (simp_all add: bk1_def)
  have other: "lvl b' p' bk1 = lvl b' p' bk" if "\<not> (b' = b \<and> p' = unat mp)" for b' p'
    using that unfolding bk1_def lvl_traded by auto
  note rm = heap_inv_removed [OF inv q pre other tot]
  have inv2: "heap_inv T N bk2 (Lset L b (unat mp) qs)"
    and lab2: "labs bk2 (Lset L b (unat mp) qs) = Lset (labs bk L) b (unat mp) (map (entry (ords bk)) qs)"
    and si: "same_index bk1 bk2"
    using rm by (simp_all add: bk2_def L)
  have "prv (ords bk q) = None"
    using heap_invD(5) [OF inv heap_inv_member(1) [OF inv q], of b] by (simp add: level_inv_def L)
  then have "head (lvl b (unat mp) bk2) = nxt (ords bk q)"
    by (simp add: bk2_def removed_def lvl_upd_lvl unlink_level_def bk1_def lvl_traded)
  moreover have "same_index bk bk2"
    using same_index_trans [OF _ si] by (simp add: bk1_def)
  ultimately show ?thesis using step inv2 lab2 dq by (intro exI [of _ bk2]) simp
qed

lemma match_level_partial:
  assumes inv: "heap_inv T N bk L" and b: "b = (\<not> buy)" and L: "L b (unat mp) = q # qs"
    and rem: "rem \<noteq> 0" and lt: "unat rem < unat (quantity (ords bk q))"
  shows "\<exists>bk'. match_level buy mp (Some q) rem bk = ret (0, bk') \<and>
     heap_inv T N bk' L \<and> same_index bk bk' \<and>
     labs bk' L = Lset (labs bk L) b (unat mp)
       ((oid (ords bk q), unat (quantity (ords bk q)) - unat rem) # map (entry (ords bk)) qs)"
proof -
  have q: "q \<in> set (L b (unat mp))" using L by simp
  define left where "left = quantity (ords bk q) - ucast rem"
  define bk1 where "bk1 = traded q b (unat mp) left rem bk"
  have d: "min (ucast (quantity (ords bk q))) rem = rem" using lt by (simp add: min_def word_le_nat_alt)
  have "unat (ucast rem :: 31 word) = unat rem"
    using lt unat_31_less [of "quantity (ords bk q)"] by (simp add: unat_ucast_32_31)
  then have uleft: "unat left = unat (quantity (ords bk q)) - unat rem"
    using lt by (simp add: left_def unat_sub word_le_nat_alt)
  then have left: "left \<noteq> 0" using lt by auto
  have step: "match_level buy mp (Some q) rem bk = ret (0, bk1)"
    using match_level_unfold [OF inv q [unfolded b] rem] d left b by (simp add: bk1_def left_def)
  have lv: "level_inv (ords bk) (lvl b (unat mp) bk) (q # qs)"
    using heap_invD(5) [OF inv heap_inv_member(1) [OF inv q], of b] L by simp
  have tot: "unat (total_quantity (lvl b (unat mp) bk) - ucast rem) =
      unat (total_quantity (lvl b (unat mp) bk)) - unat rem"
    and le: "unat rem \<le> unat (total_quantity (lvl b (unat mp) bk))"
    using lv lt by (simp_all add: level_inv_def unat_sub word_le_nat_alt)
  have inv1: "heap_inv T N bk1 L"
    by (rule heap_inv_requantity [OF inv q, where y = left])
      (use left heap_invD(1) [OF inv] tot le uleft lt in \<open>auto simp: bk1_def lvl_traded\<close>)
  have dis: "x \<noteq> q" if "x \<in> set (L b' p')" "\<not> (b' = b \<and> p' = unat mp)" for b' p' x
    using that heap_inv_disjoint [OF inv q, of b' p'] by blast
  have "labs bk1 (Lset L b (unat mp) (L b (unat mp))) =
      Lset (labs bk L) b (unat mp) (map (entry (ords bk1)) (L b (unat mp)))"
    using dis by (intro labs_Lset_other) (auto simp: entry_def bk1_def)
  moreover have "map (entry (ords bk1)) (L b (unat mp)) =
      (oid (ords bk q), unat (quantity (ords bk q)) - unat rem) # map (entry (ords bk)) qs"
    using lv uleft by (auto simp: entry_def bk1_def level_inv_def L)
  ultimately show ?thesis
    using step inv1 by (intro exI [of _ bk1]) (simp add: bk1_def)
qed

lemma match_level_fill:
  assumes "heap_inv T N bk L" and "unat mp < T" and "b = (\<not> buy)"
  shows "\<exists>rem' bk' L'. match_level buy mp (head (lvl b (unat mp) bk)) rem bk = ret (rem', bk') \<and>
     heap_inv T N bk' L' \<and> same_index bk bk' \<and>
     unat rem' = fst (fill (unat rem) (labs bk L b (unat mp))) \<and>
     labs bk' L' = Lset (labs bk L) b (unat mp) (snd (fill (unat rem) (labs bk L b (unat mp))))"
  using assms
proof (induction "L b (unat mp)" arbitrary: bk L rem)
  case Nil
  have lab: "labs bk L b (unat mp) = []" using Nil(1) by (simp add: labs_def)
  then have "Lset (labs bk L) b (unat mp) [] = labs bk L" by (metis Lset_self)
  then show ?case
    using Nil lab level_head [OF Nil(2,3), of b]
    by (intro exI [of _ rem] exI [of _ bk] exI [of _ L]) (simp add: same_index_def)
next
  case (Cons q qs)
  note inv = Cons.prems(1) and L = Cons.hyps(2) [symmetric]
  have hd: "head (lvl b (unat mp) bk) = Some q" using level_head [OF inv Cons.prems(2), of b] L by simp
  have lab: "labs bk L b (unat mp) = (oid (ords bk q), unat (quantity (ords bk q))) # map (entry (ords bk)) qs"
    using L by (simp add: labs_def entry_def)
  consider (zero) "rem = 0" | (all) "rem \<noteq> 0" "unat (quantity (ords bk q)) \<le> unat rem"
    | (some) "rem \<noteq> 0" "unat rem < unat (quantity (ords bk q))" by linarith
  then show ?case
  proof cases
    case zero
    then show ?thesis
      using inv by (intro exI [of _ rem] exI [of _ bk] exI [of _ L]) (simp add: same_index_def)
  next
    case all
    let ?rem = "rem - ucast (quantity (ords bk q))" and ?L = "Lset L b (unat mp) qs"
    obtain bk2 where bk2: "match_level buy mp (Some q) rem bk = match_level buy mp (head (lvl b (unat mp) bk2)) ?rem bk2"
      "heap_inv T N bk2 ?L" "same_index bk bk2"
      "labs bk2 ?L = Lset (labs bk L) b (unat mp) (map (entry (ords bk)) qs)"
      using match_level_consume [OF inv Cons.prems(3) L all] by blast
    obtain rem' bk' L' where IH: "match_level buy mp (head (lvl b (unat mp) bk2)) ?rem bk2 = ret (rem', bk')"
      "heap_inv T N bk' L'" "same_index bk2 bk'"
      "unat rem' = fst (fill (unat ?rem) (labs bk2 ?L b (unat mp)))"
      "labs bk' L' = Lset (labs bk2 ?L) b (unat mp) (snd (fill (unat ?rem) (labs bk2 ?L b (unat mp))))"
      using Cons.hyps(1) [of ?L bk2 ?rem] bk2(2) Cons.prems(2,3) by auto
    have "unat ?rem = unat rem - unat (quantity (ords bk q))"
      using all(2) by (simp add: unat_sub word_le_nat_alt)
    then have "fill (unat rem) (labs bk L b (unat mp)) = fill (unat ?rem) (labs bk2 ?L b (unat mp))"
      using all bk2(4) by (simp add: lab unat_eq_0)
    then show ?thesis
      using IH bk2 hd same_index_trans [OF bk2(3) IH(3)]
      by (intro exI [of _ rem'] exI [of _ bk'] exI [of _ L']) simp
  next
    case some
    then have f: "fill (unat rem) (labs bk L b (unat mp)) =
        (0, (oid (ords bk q), unat (quantity (ords bk q)) - unat rem) # map (entry (ords bk)) qs)"
      by (simp add: lab unat_eq_0)
    obtain bk' where "match_level buy mp (Some q) rem bk = ret (0, bk')" "heap_inv T N bk' L" "same_index bk bk'"
      "labs bk' L = Lset (labs bk L) b (unat mp)
         ((oid (ords bk q), unat (quantity (ords bk q)) - unat rem) # map (entry (ords bk)) qs)"
      using match_level_partial [OF inv Cons.prems(3) L some] by blast
    then show ?thesis
      using f hd by (intro exI [of _ 0] exI [of _ bk'] exI [of _ L]) simp
  qed
qed

section \<open>Keeping the index in step\<close>

definition reindexed :: "PriceBitSet \<Rightarrow> PriceBitSet \<Rightarrow> u32 \<Rightarrow> u32 \<Rightarrow> OrderBook \<Rightarrow> OrderBook" where
  "reindexed bb ab hb la bk = bk\<lparr>bid_bits := bb, ask_bits := ab, best_bid := hb, best_ask := la\<rparr>"

lemma reindexed_sel [simp]:
  "pool (reindexed bb ab hb la bk) = pool bk" "order_map (reindexed bb ab hb la bk) = order_map bk"
  "bids (reindexed bb ab hb la bk) = bids bk" "asks (reindexed bb ab hb la bk) = asks bk"
  "bid_bits (reindexed bb ab hb la bk) = bb" "ask_bits (reindexed bb ab hb la bk) = ab"
  "best_bid (reindexed bb ab hb la bk) = hb" "best_ask (reindexed bb ab hb la bk) = la"
  "lvl b p (reindexed bb ab hb la bk) = lvl b p bk"
  "side_size b (reindexed bb ab hb la bk) = side_size b bk"
  "upd_lvl b p l (reindexed bb ab hb la bk) = reindexed bb ab hb la (upd_lvl b p l bk)"
  by (simp_all add: reindexed_def side_size_def upd_lvl_def)

lemma heap_inv_reindexed [simp]: "heap_inv T N (reindexed bb ab hb la bk) L = heap_inv T N bk L"
  by (simp add: heap_inv_def book_sizes_def resting_ok_def)

lemma labs_reindexed [simp]: "labs (reindexed bb ab hb la bk) L = labs bk L"
  by (simp add: labs_def)

lemma index_inv_cong: "same_index bk bk' \<Longrightarrow> (\<And>b p. L b p = [] \<longleftrightarrow> L' b p = []) \<Longrightarrow>
   index_inv T bk L = index_inv T bk' L'"
  by (simp add: index_inv_def same_index_def)

lemma clear_refresh:
  assumes idx: "index_inv T bk L" and p: "unat p < T"
  shows "\<exists>bb ab hb la. seqc (clear_side_bit b p bk) refresh_best = ret (reindexed bb ab hb la bk) \<and>
    (\<forall>bk' L'. L' b (unat p) = [] \<longrightarrow> (\<forall>b' p'. \<not> (b' = b \<and> p' = unat p) \<longrightarrow> (L' b' p' = [] \<longleftrightarrow> L b' p' = [])) \<longrightarrow>
       index_inv T (reindexed bb ab hb la bk') L')"
proof -
  let ?bits = "if b then bid_bits bk else ask_bits bk"
  have inv: "bs_inv T (bid_bits bk)" "bs_inv T (ask_bits bk)"
    and mem: "bs_members (bid_bits bk) = {x. L True x \<noteq> []}" "bs_members (ask_bits bk) = {x. L False x \<noteq> []}"
    using idx by (simp_all add: index_inv_def)
  obtain s' where s': "bs_clear p ?bits = ret s'" "bs_inv T s'" "bs_members s' = bs_members ?bits - {unat p}"
    using pbs.clear_law [of T ?bits p] inv p by (metis (full_types))
  define bb where "bb = (if b then s' else bid_bits bk)"
  define ab where "ab = (if b then ask_bits bk else s')"
  have ib: "bs_inv T bb" "bs_inv T ab" using s'(2) inv by (simp_all add: bb_def ab_def)
  obtain hb where hb: "get_highest bb = ret hb" using pbs.highest_law [OF ib(1)] by blast
  obtain la where la: "get_lowest ab = ret la" using pbs.lowest_law [OF ib(2)] by blast
  have eq: "seqc (clear_side_bit b p bk) refresh_best = ret (reindexed bb ab hb la bk)"
    using s'(1) hb la
    by (cases b) (simp_all add: clear_side_bit_def refresh_best_def reindexed_def bb_def ab_def)
  have "index_inv T (reindexed bb ab hb la bk') L'"
    if L': "L' b (unat p) = []" "\<And>b' p'. \<not> (b' = b \<and> p' = unat p) \<Longrightarrow> L' b' p' = [] \<longleftrightarrow> L b' p' = []" for bk' L'
  proof -
    have ne: "L' b' x \<noteq> [] \<longleftrightarrow> L b' x \<noteq> [] \<and> \<not> (b' = b \<and> x = unat p)" for b' x
      using L'(1) L'(2) [of b' x] by (cases "b' = b \<and> x = unat p") blast+
    have "{x. L' True x \<noteq> []} = bs_members bb" "{x. L' False x \<noteq> []} = bs_members ab"
      unfolding ne using mem s'(3) by (cases b; auto simp: bb_def ab_def)+
    then show ?thesis using ib hb la by (simp add: index_inv_def)
  qed
  then show ?thesis using eq by blast
qed

section \<open>The outer loop\<close>

definition best_opposite :: "bool \<Rightarrow> OrderBook \<Rightarrow> u32" where
  "best_opposite buy bk = (if buy then best_ask bk else best_bid bk)"

definition crosses :: "bool \<Rightarrow> u32 \<Rightarrow> OrderBook \<Rightarrow> bool" where
  "crosses buy p bk = (if buy then p \<ge> best_ask bk else p \<le> best_bid bk)"

lemma match_order_exit: "rem = 0 \<or> \<not> crosses buy p bk \<Longrightarrow> match_order p rem buy bk = ret (rem, bk)"
  by (subst match_order.simps) (auto simp: crosses_def)

lemma best_opposite_spec:
  assumes "index_inv T bk L" "L (\<not> buy) x \<noteq> []"
  shows "L (\<not> buy) (unat (best_opposite buy bk)) \<noteq> []"
    "\<And>x. L (\<not> buy) x \<noteq> [] \<Longrightarrow>
       if buy then unat (best_opposite buy bk) \<le> x else x \<le> unat (best_opposite buy bk)"
proof -
  have ask: "\<exists>h. get_lowest (ask_bits bk) = ret h \<and> unat h \<in> {p. L False p \<noteq> []} \<and> (\<forall>p\<in>{p. L False p \<noteq> []}. unat h \<le> p)" if buy
    using pbs.lowest_member [of T "ask_bits bk"] assms that by (auto simp: index_inv_def)
  have bid: "\<exists>h. get_highest (bid_bits bk) = ret h \<and> unat h \<in> {p. L True p \<noteq> []} \<and> (\<forall>p\<in>{p. L True p \<noteq> []}. p \<le> unat h)" if "\<not> buy"
    using pbs.highest_member [of T "bid_bits bk"] assms that by (auto simp: index_inv_def)
  show "L (\<not> buy) (unat (best_opposite buy bk)) \<noteq> []"
    using ask bid assms(1) by (cases buy) (auto simp: best_opposite_def index_inv_def)
  show "if buy then unat (best_opposite buy bk) \<le> y else y \<le> unat (best_opposite buy bk)"
    if "L (\<not> buy) y \<noteq> []" for y
    using ask bid assms(1) that by (cases buy) (auto simp: best_opposite_def index_inv_def)
qed

lemma best_opposite_empty:
  assumes "index_inv T bk L" "\<And>x. L (\<not> buy) x = []"
  shows "best_opposite buy bk = (if buy then UINT32_MAX else 0)"
  using assms pbs.lowest_law [of T "ask_bits bk"] pbs.highest_law [of T "bid_bits bk"]
  by (cases buy) (auto simp: best_opposite_def index_inv_def)

lemma labs_empty_iff: "labs bk L b p = [] \<longleftrightarrow> L b p = []"
  by (simp add: labs_def)

lemma match_order_step:
  assumes inv: "heap_inv T N bk L" and idx: "index_inv T bk L" and rem: "rem \<noteq> 0"
    and cr: "crosses buy p bk" and ne: "L (\<not> buy) x \<noteq> []"
  defines "mp \<equiv> unat (best_opposite buy bk)"
  shows "\<exists>rem' bk' L'. match_order p rem buy bk = match_order p rem' buy bk' \<and>
     heap_inv T N bk' L' \<and> index_inv T bk' L' \<and>
     unat rem' = fst (fill (unat rem) (labs bk L (\<not> buy) mp)) \<and>
     labs bk' L' = Lset (labs bk L) (\<not> buy) mp (snd (fill (unat rem) (labs bk L (\<not> buy) mp)))"
proof -
  let ?b = "\<not> buy" and ?mp = "best_opposite buy bk"
  have Lmp: "L ?b mp \<noteq> []" using best_opposite_spec(1) [OF idx ne] by (simp add: mp_def)
  have mpT: "unat ?mp < T"
    using heap_inv_member(1) [OF inv, of "hd (L ?b mp)" ?b mp] Lmp by (simp add: mp_def)
  have side: "side_size ?b bk = T" using heap_invD(1) [OF inv] by simp
  obtain rem' bk1 L' where ml: "match_level buy ?mp (head (lvl ?b (unat ?mp) bk)) rem bk = ret (rem', bk1)"
    "heap_inv T N bk1 L'" "same_index bk bk1"
    "unat rem' = fst (fill (unat rem) (labs bk L ?b mp))"
    "labs bk1 L' = Lset (labs bk L) ?b mp (snd (fill (unat rem) (labs bk L ?b mp)))"
    using match_level_fill [OF inv mpT refl, of buy rem] unfolding mp_def by blast
  have side1: "side_size ?b bk1 = T" using heap_invD(1) [OF ml(2)] by simp
  have tot: "total_quantity (lvl ?b (unat ?mp) bk1) = 0 \<longleftrightarrow> L' ?b (unat ?mp) = []"
    using level_total_zero_iff [OF ml(2) mpT] .
  have unfold: "match_order p rem buy bk =
     (if L' ?b (unat ?mp) = [] then seqc (seqc (clear_side_bit ?b ?mp bk1) refresh_best) (match_order p rem' buy)
      else match_order p rem' buy bk1)"
    using rem cr ml(1) mpT side side1 tot
    by (subst match_order.simps)
      (simp add: crosses_def best_opposite_def [symmetric] Let_def word_neq_0_conv seqc_assoc)
  have same: "L' b' p' = [] \<longleftrightarrow> L b' p' = []" if "\<not> (b' = ?b \<and> p' = mp)" for b' p'
    using arg_cong [OF ml(5), of "\<lambda>A. A b' p'"] Lset_other [OF that, of "labs bk L"]
    by (metis labs_empty_iff)
  show ?thesis
  proof (cases "L' ?b mp = []")
    case True
    have idx1: "index_inv T bk1 L" using idx index_inv_cong [OF ml(3), of L L] by simp
    obtain bb ab hb la where r: "seqc (clear_side_bit ?b ?mp bk1) refresh_best = ret (reindexed bb ab hb la bk1)"
      "index_inv T (reindexed bb ab hb la bk1) L'"
      using clear_refresh [OF idx1 mpT, of ?b] True same by (auto simp: mp_def)
    then show ?thesis
      using unfold True ml by (intro exI [of _ rem'] exI [of _ "reindexed bb ab hb la bk1"] exI [of _ L']) (simp add: mp_def)
  next
    case False
    have "L b' p' = [] \<longleftrightarrow> L' b' p' = []" for b' p'
      using same [of b' p'] False Lmp by (cases "b' = ?b \<and> p' = mp") blast+
    then have "index_inv T bk1 L'" using idx index_inv_cong [OF ml(3), of L L'] by simp
    then show ?thesis
      using unfold False ml by (intro exI [of _ rem'] exI [of _ bk1] exI [of _ L']) (simp add: mp_def)
  qed
qed

text \<open>The loop ends unless a sell at price 0 exceeds what all bids together hold.\<close>

definition match_ends :: "nat \<Rightarrow> u32 \<Rightarrow> u32 \<Rightarrow> bool \<Rightarrow> abook \<Rightarrow> bool" where
  "match_ends T p qty buy A \<longleftrightarrow> buy \<or> p \<noteq> 0 \<or> unat qty \<le> side_total T (A True)"

lemma match_order_refines:
  assumes "heap_inv T N bk L" "index_inv T bk L" "unat p < T" "match_ends T p rem buy (labs bk L)"
  shows "\<exists>rem' bk' L'. match_order p rem buy bk = ret (rem', bk') \<and>
     heap_inv T N bk' L' \<and> index_inv T bk' L' \<and>
     spec_match T (unat p) (unat rem) buy (labs bk L) = (unat rem', labs bk' L') \<and>
     (rem' \<noteq> 0 \<longrightarrow> \<not> crosses buy p bk')"
  using assms
proof (induction "unat rem" arbitrary: rem bk L rule: less_induct)
  case less
  note inv = less.prems(1) and idx = less.prems(2) and pT = less.prems(3) and ends = less.prems(4)
  have "T \<le> 2 ^ 18" using heap_invD(1) [OF inv] by (simp add: book_sizes_def)
  then have pmax: "p < UINT32_MAX" using pT by (simp add: word_less_nat_alt)
  show ?case
  proof (cases "rem = 0 \<or> \<not> crosses buy p bk")
    case True
    have "labs bk L (\<not> buy) x = []"
      if "\<not> crosses buy p bk" "if buy then x \<le> unat p else unat p \<le> x \<and> x < T" for x
    proof (rule ccontr)
      assume "labs bk L (\<not> buy) x \<noteq> []"
      then have "L (\<not> buy) x \<noteq> []" by (simp add: labs_empty_iff)
      from best_opposite_spec(2) [OF idx this this] that show False
        by (auto simp: crosses_def best_opposite_def word_le_nat_alt split: if_splits)
    qed
    then have "spec_match T (unat p) (unat rem) buy (labs bk L) = (unat rem, labs bk L)"
      using True by (intro spec_match_stop) auto
    then show ?thesis using match_order_exit [OF True] inv idx True by blast
  next
    case False
    have ne: "\<exists>x. L (\<not> buy) x \<noteq> []"
    proof (rule ccontr)
      assume "\<nexists>x. L (\<not> buy) x \<noteq> []"
      then have e: "\<And>x. L (\<not> buy) x = []" by blast
      have "best_opposite buy bk = (if buy then UINT32_MAX else 0)"
        using best_opposite_empty [OF idx e] .
      then have "\<not> buy" "p = 0" using False pmax by (auto simp: crosses_def best_opposite_def split: if_splits)
      then have "unat rem \<le> side_total T (labs bk L True)" using ends by (simp add: match_ends_def)
      moreover have "side_total T (labs bk L True) = 0"
        using e \<open>\<not> buy\<close> by (intro side_total_empty) (simp add: labs_empty_iff)
      ultimately show False using False by (simp add: unat_eq_0)
    qed
    then obtain x where x: "L (\<not> buy) x \<noteq> []" by blast
    define mp where "mp = unat (best_opposite buy bk)"
    note best = best_opposite_spec [OF idx x, folded mp_def]
    let ?A = "labs bk L (\<not> buy) mp"
    obtain rem' bk' L' where st: "match_order p rem buy bk = match_order p rem' buy bk'"
      "heap_inv T N bk' L'" "index_inv T bk' L'" "unat rem' = fst (fill (unat rem) ?A)"
      "labs bk' L' = Lset (labs bk L) (\<not> buy) mp (snd (fill (unat rem) ?A))"
      using match_order_step [OF inv idx _ _ x, of rem p] False unfolding mp_def by blast
    have mpT: "mp < T" using heap_invD(4) [OF inv, of mp "\<not> buy"] best(1) by (cases "mp < T") auto
    have "total_quantity (lvl (\<not> buy) mp bk) \<noteq> 0" using level_total_zero_iff [OF inv mpT] best(1) by blast
    moreover have "unat (total_quantity (lvl (\<not> buy) mp bk)) = sum_list (map snd ?A)"
      using heap_invD(5) [OF inv mpT, of "\<not> buy"]
      by (simp add: level_inv_def labs_def qty_sum_def entry_def comp_def)
    ultimately have "0 < sum_list (map snd ?A)" by (metis unat_eq_0 neq0_conv)
    moreover have "0 < unat rem" using False by (simp add: unat_gt_0)
    ultimately have dec: "unat rem' < unat rem" using st(4) by (simp add: fst_fill)
    have mpc: "if buy then mp \<le> unat p else unat p \<le> mp"
      using False by (auto simp: mp_def crosses_def best_opposite_def word_le_nat_alt split: if_splits)
    have emp: "labs bk L (\<not> buy) y = []" if "if buy then y < mp else mp < y" for y
      using best(2) [of y] that by (auto simp: labs_empty_iff split: if_splits)
    have spec: "spec_match T (unat p) (unat rem) buy (labs bk L) =
        spec_match T (unat p) (unat rem') buy (labs bk' L')"
      using spec_match_step [where A = "labs bk L", OF mpT mpc emp] st(4,5) by simp
    have ends': "match_ends T p rem' buy (labs bk' L')"
      using ends side_total_fill [OF mpT, of "unat rem" "labs bk L (\<not> buy)"] st(4,5)
      by (auto simp: match_ends_def Lset_def)
    from less.hyps [OF dec st(2,3) pT ends'] show ?thesis using st(1) spec by auto
  qed
qed

end
