(* ===== verification/OrderBookOps.thy ===== *)
theory OrderBookOps
  imports OrderBookMatch
begin

text \<open>
  The public operations of the book refine the abstract specification and keep the invariant:
  \<open>add_order\<close>, \<open>cancel_order\<close>, \<open>modify_order\<close>.
\<close>

section \<open>Adding\<close>

lemma set_side_index:
  fixes buy :: bool
  assumes idx: "index_inv T bk L" and p: "unat p < T"
  defines "hb \<equiv> (if buy \<and> p > best_bid bk then p else best_bid bk)"
    and "la \<equiv> (if \<not> buy \<and> p < best_ask bk then p else best_ask bk)"
  shows "\<exists>bb ab. (\<forall>bk'. same_index bk bk' \<longrightarrow>
       (if L buy (unat p) = [] then set_side_bit buy p bk' else ret bk') =
       ret (reindexed bb ab (best_bid bk) (best_ask bk) bk')) \<and>
    (\<forall>bk' L'. L' buy (unat p) \<noteq> [] \<longrightarrow> (\<forall>b' p'. \<not> (b' = buy \<and> p' = unat p) \<longrightarrow> (L' b' p' = [] \<longleftrightarrow> L b' p' = [])) \<longrightarrow>
       index_inv T (reindexed bb ab hb la bk') L')"
proof -
  have inv: "bs_inv T (bid_bits bk)" "bs_inv T (ask_bits bk)"
    and mem: "bs_members (bid_bits bk) = {x. L True x \<noteq> []}" "bs_members (ask_bits bk) = {x. L False x \<noteq> []}"
    and best: "get_highest (bid_bits bk) = ret (best_bid bk)" "get_lowest (ask_bits bk) = ret (best_ask bk)"
    using idx by (simp_all add: index_inv_def)
  let ?bits = "if buy then bid_bits bk else ask_bits bk"
  have "bs_inv T ?bits" using inv by simp
  then obtain s' where s': "bs_set p ?bits = ret s'" "bs_inv T s'" "bs_members s' = insert (unat p) (bs_members ?bits)"
    using pbs.set_law p by blast
  define e where "e \<longleftrightarrow> L buy (unat p) = []"
  define bb where "bb = (if buy \<and> e then s' else bid_bits bk)"
  define ab where "ab = (if \<not> buy \<and> e then s' else ask_bits bk)"
  have ib: "bs_inv T bb" "bs_inv T ab" using s'(2) inv by (simp_all add: bb_def ab_def)
  have op: "(if L buy (unat p) = [] then set_side_bit buy p bk' else ret bk') =
      ret (reindexed bb ab (best_bid bk) (best_ask bk) bk')" if "same_index bk bk'" for bk'
    using s'(1) that
    by (cases buy) (auto simp: set_side_bit_def reindexed_def bb_def ab_def e_def same_index_def)
  have nb: "bs_members bb = (if buy then insert (unat p) (bs_members (bid_bits bk)) else bs_members (bid_bits bk))"
    "bs_members ab = (if buy then bs_members (ask_bits bk) else insert (unat p) (bs_members (ask_bits bk)))"
    using s'(3) mem by (auto simp: bb_def ab_def e_def)
  have hb: "get_highest bb = ret hb"
  proof (cases "buy \<and> e")
    case True
    then show ?thesis using pbs.highest_set [OF inv(1) p _ best(1), of s'] s'(1) by (simp add: bb_def hb_def)
  next
    case False
    have "\<not> p > best_bid bk" if buy
    proof -
      have ne: "unat p \<in> bs_members (bid_bits bk)" using mem(1) False that by (simp add: e_def)
      then obtain h where "get_highest (bid_bits bk) = ret h" "\<forall>x\<in>bs_members (bid_bits bk). x \<le> unat h"
        using pbs.highest_member [OF inv(1)] by blast
      then show ?thesis using ne best(1) by (auto simp: word_less_nat_alt)
    qed
    then show ?thesis using False best(1) by (auto simp: bb_def hb_def)
  qed
  have la: "get_lowest ab = ret la"
  proof (cases "\<not> buy \<and> e")
    case True
    then show ?thesis using pbs.lowest_set [OF inv(2) p _ best(2), of s'] s'(1) by (simp add: ab_def la_def)
  next
    case False
    have "\<not> p < best_ask bk" if "\<not> buy"
    proof -
      have ne: "unat p \<in> bs_members (ask_bits bk)" using mem(2) False that by (simp add: e_def)
      then obtain h where "get_lowest (ask_bits bk) = ret h" "\<forall>x\<in>bs_members (ask_bits bk). unat h \<le> x"
        using pbs.lowest_member [OF inv(2)] by blast
      then show ?thesis using ne best(2) by (auto simp: word_less_nat_alt)
    qed
    then show ?thesis using False best(2) by (auto simp: ab_def la_def)
  qed
  have "index_inv T (reindexed bb ab hb la bk') L'"
    if L': "L' buy (unat p) \<noteq> []" "\<And>b' p'. \<not> (b' = buy \<and> p' = unat p) \<Longrightarrow> L' b' p' = [] \<longleftrightarrow> L b' p' = []" for bk' L'
  proof -
    have ne: "L' b' x \<noteq> [] \<longleftrightarrow> L b' x \<noteq> [] \<or> (b' = buy \<and> x = unat p)" for b' x
      using L'(1) L'(2) [of b' x] by (cases "b' = buy \<and> x = unat p") blast+
    have "{x. L' True x \<noteq> []} = bs_members bb" "{x. L' False x \<noteq> []} = bs_members ab"
      unfolding ne nb using mem by auto
    then show ?thesis using ib hb la by (simp add: index_inv_def)
  qed
  then show ?thesis using op by blast
qed

text \<open>The net effect of linking a fresh order at the tail of its level.\<close>

definition linked :: "nat \<Rightarrow> u64 \<Rightarrow> u32 \<Rightarrow> u32 \<Rightarrow> bool \<Rightarrow> OrderBook \<Rightarrow> OrderBook" where
  "linked q i p r b bk =
     (let l = lvl b (unat p) bk;
          v = vupd (slots (pool bk)) q
                \<lparr>oid = i, prv = tail l, nxt = None, oprice = p, quantity = ucast r, is_buy = b\<rparr>;
          v' = (case tail l of None \<Rightarrow> v | Some t \<Rightarrow> vupd v t ((vat v t)\<lparr>nxt := Some q\<rparr>))
      in (upd_lvl b (unat p)
            \<lparr>head = if head l = None then Some q else head l, tail = Some q,
             total_quantity = total_quantity l + ucast r\<rparr> bk)
           \<lparr>pool := \<lparr>slots = v', free_list = butlast (free_list (pool bk))\<rparr>,
            order_map := vupd (order_map bk) (unat i) (Some q)\<rparr>)"

lemma linked_index [simp]: "same_index bk (linked q i p r b bk)"
  by (simp add: linked_def same_index_def Let_def)

lemma level_tail:
  assumes "heap_inv T N bk L" "p < T"
  shows "tail (lvl b p bk) = (if L b p = [] then None else Some (last (L b p)))"
  using heap_invD(5) [OF assms, of b] dllseg_tail [of "ords bk" None "head (lvl b p bk)" "L b p"]
  by (auto simp: level_inv_def)

lemma level_total_room:
  assumes inv: "heap_inv T N bk L" and p: "p < T"
  shows "unat (total_quantity (lvl b p bk) + ucast (r :: u32)) = unat (total_quantity (lvl b p bk)) + unat r"
proof -
  have "length (L b p) * 2 ^ 31 \<le> 2 ^ 32 * 2 ^ 31"
    using heap_inv_length [OF inv, of b p] heap_invD(1) [OF inv]
    by (intro mult_right_mono) (simp_all add: book_sizes_def)
  moreover have "unat (total_quantity (lvl b p bk)) \<le> length (L b p) * 2 ^ 31"
    using heap_invD(5) [OF inv p, of b] qty_sum_bound [of "ords bk" "L b p"] by (simp add: level_inv_def)
  ultimately have "unat (total_quantity (lvl b p bk)) + unat r < 2 ^ 64"
    using unat_32_less [of r] by simp
  then show ?thesis by (simp add: unat_word_ariths)
qed

lemma heap_inv_linked:
  assumes inv: "heap_inv T N bk L" and p: "unat p < T" and i: "unat i < N"
    and new: "vat (order_map bk) (unat i) = None"
    and al: "allocate (pool bk) = (Some q, pl)" and r: "unat r < 2 ^ 31" "r \<noteq> 0"
  shows "heap_inv T N (linked q i p r b bk) (Lset L b (unat p) (L b (unat p) @ [q]))"
    and "labs (linked q i p r b bk) (Lset L b (unat p) (L b (unat p) @ [q])) =
         Lset (labs bk L) b (unat p) (labs bk L b (unat p) @ [(i, unat r)])"
proof -
  let ?bk = "linked q i p r b bk"
  note D = heap_invD [OF inv]
  have fl: "free_list (pool bk) = butlast (free_list (pool bk)) @ [q]"
    using al by (auto simp: allocate_def split: if_splits)
  have q: "q < N" "q \<notin> pool_used (pool bk)"
    using opool.alloc_some [OF D(2) al] D(1) by (simp_all add: book_sizes_def)
  have nq: "x \<noteq> q" if "x \<in> set (L b' p')" for x b' p' using that q(2) D(3) by auto
  have tq: "tail (lvl b (unat p) bk) \<noteq> Some q"
    using level_tail [OF inv p, of b] nq [OF last_in_set, of b "unat p"] by (auto split: if_splits)
  have hq: "ords ?bk q = \<lparr>oid = i, prv = tail (lvl b (unat p) bk), nxt = None, oprice = p, quantity = ucast r, is_buy = b\<rparr>"
    using tq by (auto simp: linked_def Let_def split: option.split)
  have h': "ords ?bk x = (if tail (lvl b (unat p) bk) = Some x then (ords bk x)\<lparr>nxt := Some q\<rparr> else ords bk x)"
    if "x \<noteq> q" for x
    using that tq by (auto simp: linked_def Let_def vat_vupd split: option.split)
  have ur: "unat (ucast r :: 31 word) = unat r" using r(1) by (simp add: unat_ucast_32_31)
  show "heap_inv T N ?bk (Lset L b (unat p) (L b (unat p) @ [q]))"
  proof (rule heap_inv_add [OF inv p i new q _ _ _ _ _ _ _ h'])
    show "book_sizes T N ?bk" using D(1) by (simp add: linked_def Let_def book_sizes_def split: option.split)
    show "quantity (ords ?bk q) \<noteq> 0" using ur r(2) hq by (auto simp: unat_eq_0 [symmetric])
    show "free_list (pool bk) = free_list (pool ?bk) @ [q]" using fl by (simp add: linked_def Let_def)
    show "unat (total_quantity (lvl b (unat p) ?bk)) =
        unat (total_quantity (lvl b (unat p) bk)) + unat (quantity (ords ?bk q))"
      using level_total_room [OF inv p] hq ur by (simp add: linked_def Let_def lvl_upd_lvl)
    show "lvl b' p' ?bk = lvl b' p' bk" if "\<not> (b' = b \<and> p' = unat p)" for b' p'
      using that unfolding linked_def Let_def lvl_update lvl_upd_lvl by auto
  qed (use hq in \<open>simp_all add: linked_def Let_def lvl_upd_lvl\<close>)
  have ent: "entry (ords ?bk) x = entry (ords bk) x" if "x \<in> set (L b' p')" for x b' p'
    using h' [OF nq [OF that]] by (simp add: entry_def)
  have "labs ?bk (Lset L b (unat p) (L b (unat p) @ [q])) =
      Lset (labs bk L) b (unat p) (map (entry (ords ?bk)) (L b (unat p) @ [q]))"
    using ent by (intro labs_Lset_other) blast
  also have "map (entry (ords ?bk)) (L b (unat p) @ [q]) = labs bk L b (unat p) @ [(i, unat r)]"
    using ent hq ur by (simp add: labs_def entry_def)
  finally show "labs ?bk (Lset L b (unat p) (L b (unat p) @ [q])) =
         Lset (labs bk L) b (unat p) (labs bk L b (unat p) @ [(i, unat r)])" .
qed

lemma Order_overwrite:
  "x\<lparr>oid := i, oprice := p, quantity := n, is_buy := b\<rparr> =
   (\<lparr>oid = i, prv = prv x, nxt = nxt x, oprice = p, quantity = n, is_buy = b\<rparr> :: Order)"
  by (cases x) simp

lemma OrderPool_overwrite:
  "pl\<lparr>free_list := fl, slots := v\<rparr> = (\<lparr>slots = v, free_list = fl\<rparr> :: OrderPool)"
  by (cases pl) simp

lemma PriceLevel_overwrite:
  "l\<lparr>total_quantity := t, head := x, tail := y\<rparr> = (\<lparr>head = x, tail = y, total_quantity = t\<rparr> :: PriceLevel)"
  "l\<lparr>total_quantity := t, tail := y\<rparr> = (\<lparr>head = head l, tail = y, total_quantity = t\<rparr> :: PriceLevel)"
  by (cases l; simp)+

lemmas overwrite = Order_overwrite OrderPool_overwrite PriceLevel_overwrite

lemma best_update:
  "(if buy then ret (if p > best_bid bk then bk\<lparr>best_bid := p\<rparr> else bk)
    else ret (if p < best_ask bk then bk\<lparr>best_ask := p\<rparr> else bk)) =
   ret (reindexed (bid_bits bk) (ask_bits bk) (if buy \<and> p > best_bid bk then p else best_bid bk)
          (if \<not> buy \<and> p < best_ask bk then p else best_ask bk) bk)"
  by (simp add: reindexed_def)

lemma reindexed_reindexed [simp]:
  "reindexed a b c d (reindexed a' b' c' d' bk) = reindexed a b c d bk"
  by (simp add: reindexed_def)

lemma add_order_linked:
  assumes inv: "heap_inv T N bk1 L" and idx: "index_inv T bk1 L" and p: "unat p < T" and i: "unat i < N"
    and new: "vat (order_map bk1) (unat i) = None"
    and m: "match_order p qty buy bk = ret (r, bk1)" and r: "r \<noteq> 0"
  defines "hb \<equiv> (if buy \<and> p > best_bid bk1 then p else best_bid bk1)"
    and "la \<equiv> (if \<not> buy \<and> p < best_ask bk1 then p else best_ask bk1)"
  shows "\<exists>bb ab q pl. add_order i p qty buy bk = ret (reindexed bb ab hb la (linked q i p r buy bk1)) \<and>
     allocate (pool bk1) = (Some q, pl) \<and>
     (\<forall>bk' L'. L' buy (unat p) \<noteq> [] \<longrightarrow>
        (\<forall>b' p'. \<not> (b' = buy \<and> p' = unat p) \<longrightarrow> (L' b' p' = [] \<longleftrightarrow> L b' p' = [])) \<longrightarrow>
        index_inv T (reindexed bb ab hb la bk') L')"
proof -
  note D = heap_invD [OF inv]
  have sz: "vsize (slots (pool bk1)) = N" "vsize (order_map bk1) = N" "side_size buy bk1 = T"
    using D(1) by (simp_all add: book_sizes_def side_size_def)
  obtain q pl where al: "allocate (pool bk1) = (Some q, pl)"
    using opool.alloc_succeeds_if_room [OF D(2)] pool_has_room [OF inv i new] sz by auto
  have q: "q < N" "q \<notin> pool_used (pool bk1)" and clr: "prv (vat (slots pl) q) = None \<and> nxt (vat (slots pl) q) = None"
    using opool.alloc_some [OF D(2) al] sz by simp_all
  have pl: "pl = (pool bk1)\<lparr>free_list := butlast (free_list (pool bk1))\<rparr>"
    using al by (auto simp: allocate_def split: if_splits)
  obtain bb ab where bits: "\<And>bk'. same_index bk1 bk' \<Longrightarrow>
        (if L buy (unat p) = [] then set_side_bit buy p bk' else ret bk') =
        ret (reindexed bb ab (best_bid bk1) (best_ask bk1) bk')"
    and idx': "\<forall>bk' L'. L' buy (unat p) \<noteq> [] \<longrightarrow> (\<forall>b' p'. \<not> (b' = buy \<and> p' = unat p) \<longrightarrow> (L' b' p' = [] \<longleftrightarrow> L b' p' = [])) \<longrightarrow>
       index_inv T (reindexed bb ab hb la bk') L'"
    using set_side_index [OF idx p, of buy] unfolding hb_def la_def by blast
  let ?l = "lvl buy (unat p) bk1"
  have tot: "total_quantity ?l = 0 \<longleftrightarrow> L buy (unat p) = []" using level_total_zero_iff [OF inv p] .
  have hd: "head ?l = None \<longleftrightarrow> L buy (unat p) = []" using level_head [OF inv p] by simp
  have tl: "tail ?l = (if L buy (unat p) = [] then None else Some (last (L buy (unat p))))" using level_tail [OF inv p] .
  have tN: "last (L buy (unat p)) < N \<and> last (L buy (unat p)) \<noteq> q" if "L buy (unat p) \<noteq> []"
    using heap_inv_member(2) [OF inv] last_in_set [OF that] q(2) D(3) by blast
  have add: "add_order i p qty buy bk = ret (reindexed bb ab hb la (linked q i p r buy bk1))"
  proof (cases "L buy (unat p) = []")
    case True
    have bits': "set_side_bit buy p bk' = ret (reindexed bb ab (best_bid bk1) (best_ask bk1) bk')"
      if "same_index bk1 bk'" for bk'
      using bits [OF that] True by simp
    show ?thesis
      using m r al q(1) sz i p clr tot hd tl True
      by (simp add: add_order_def pl same_index_def bits' best_update hb_def la_def linked_def overwrite Let_def)
  next
    case False
    have "bk1 = reindexed bb ab (best_bid bk1) (best_ask bk1) bk1"
      using bits [of bk1] False by (simp add: same_index_def)
    then have eq: "bid_bits bk1 = bb" "ask_bits bk1 = ab" by (metis reindexed_sel(5,6))+
    show ?thesis
      using m r al q(1) sz i p clr tN [OF False] tot level_head [OF inv p, of buy] tl False eq
      by (simp add: add_order_def pl same_index_def best_update hb_def la_def linked_def overwrite Let_def)
  qed
  then show ?thesis using al idx' by blast
qed

lemma add_order_link:
  assumes inv: "heap_inv T N bk1 L" and idx: "index_inv T bk1 L" and p: "unat p < T" and i: "unat i < N"
    and new: "vat (order_map bk1) (unat i) = None"
    and m: "match_order p qty buy bk = ret (r, bk1)" and r: "unat r < 2 ^ 31" "r \<noteq> 0"
  shows "\<exists>bk' q. add_order i p qty buy bk = ret bk' \<and>
     heap_inv T N bk' (Lset L buy (unat p) (L buy (unat p) @ [q])) \<and>
     index_inv T bk' (Lset L buy (unat p) (L buy (unat p) @ [q])) \<and>
     labs bk' (Lset L buy (unat p) (L buy (unat p) @ [q])) =
       Lset (labs bk1 L) buy (unat p) (labs bk1 L buy (unat p) @ [(i, unat r)])"
proof -
  obtain bb ab hb la q pl where add: "add_order i p qty buy bk = ret (reindexed bb ab hb la (linked q i p r buy bk1))"
    "allocate (pool bk1) = (Some q, pl)"
    and idx': "\<And>bk' L'. L' buy (unat p) \<noteq> [] \<Longrightarrow> \<forall>b' p'. \<not> (b' = buy \<and> p' = unat p) \<longrightarrow> (L' b' p' = [] \<longleftrightarrow> L b' p' = []) \<Longrightarrow>
       index_inv T (reindexed bb ab hb la bk') L'"
    using add_order_linked [OF inv idx p i new m r(2)] by blast
  show ?thesis
    using add heap_inv_linked [OF inv p i new add(2) r, of buy]
      idx' [of "Lset L buy (unat p) (L buy (unat p) @ [q])" "linked q i p r buy bk1"]
    by (intro exI [of _ "reindexed bb ab hb la (linked q i p r buy bk1)"] exI [of _ q]) (auto simp: Lset_other)
qed

lemma book_invI:
  assumes "heap_inv T N bk L" "index_inv T bk L" "uncrossed L"
  shows "book_inv T N bk" "abs_book bk = labs bk L"
  using assms heap_inv_ladder [OF assms(1)] by (simp_all add: book_inv_def abs_book_def)

lemma book_invD:
  assumes "book_inv T N bk"
  shows "heap_inv T N bk (ladder_of bk)" "index_inv T bk (ladder_of bk)" "uncrossed (ladder_of bk)"
    "abs_book bk = labs bk (ladder_of bk)"
  using assms by (simp_all add: book_inv_def abs_book_def)

lemma not_crosses_apart:
  assumes "index_inv T bk L" "\<not> crosses buy p bk" "L (\<not> buy) x \<noteq> []"
  shows "if buy then unat p < x else x < unat p"
  using best_opposite_spec(2) [OF assms(1,3,3)] assms(2)
  by (auto simp: crosses_def best_opposite_def word_le_nat_alt split: if_splits)

lemma uncrossed_Lset:
  assumes "uncrossed L" "\<And>x. L (\<not> buy) x \<noteq> [] \<Longrightarrow> if buy then p < x else x < p"
  shows "uncrossed (Lset L buy p qs)"
  using assms unfolding uncrossed_def Lset_apply by (cases buy) auto

lemma match_order_book:
  assumes inv: "book_inv T N bk" and p: "unat p < T" and ends: "match_ends T p qty buy (abs_book bk)"
  shows "\<exists>r bk1. match_order p qty buy bk = ret (r, bk1) \<and> book_inv T N bk1 \<and>
     spec_match T (unat p) (unat qty) buy (abs_book bk) = (unat r, abs_book bk1) \<and>
     (r \<noteq> 0 \<longrightarrow> \<not> crosses buy p bk1)"
proof -
  note B = book_invD [OF inv]
  obtain r bk1 L where m: "match_order p qty buy bk = ret (r, bk1)" "heap_inv T N bk1 L" "index_inv T bk1 L"
    "spec_match T (unat p) (unat qty) buy (abs_book bk) = (unat r, labs bk1 L)"
    "r \<noteq> 0 \<longrightarrow> \<not> crosses buy p bk1"
    using match_order_refines [OF B(1,2) p ends [unfolded B(4)]] unfolding B(4) by blast
  have "L b x \<noteq> [] \<Longrightarrow> ladder_of bk b x \<noteq> []" for b x
    using spec_match_empty [of "abs_book bk" b x T "unat p" "unat qty" buy] m(4) B(4)
    by (auto simp: labs_empty_iff)
  then have "uncrossed L" using B(3) unfolding uncrossed_def by blast
  then show ?thesis using m book_invI [OF m(2,3)] by auto
qed

lemma order_map_live_book:
  "book_inv T N bk \<Longrightarrow> unat i < N \<Longrightarrow> vat (order_map bk) (unat i) = None \<longleftrightarrow> i \<notin> live_ids (abs_book bk)"
  using order_map_live [OF book_invD(1)] book_invD(4) by metis

lemma add_order_book:
  assumes inv: "book_inv T N bk" and i: "unat i < N" "i \<notin> live_ids (abs_book bk)"
    and p: "unat p < T" and qty: "unat qty < 2 ^ 31" and ends: "match_ends T p qty buy (abs_book bk)"
  shows "\<exists>bk'. add_order i p qty buy bk = ret bk' \<and> book_inv T N bk' \<and>
     abs_book bk' = spec_add T i (unat p) (unat qty) buy (abs_book bk)"
proof -
  obtain r bk1 where m: "match_order p qty buy bk = ret (r, bk1)" "book_inv T N bk1"
    "spec_match T (unat p) (unat qty) buy (abs_book bk) = (unat r, abs_book bk1)"
    "r \<noteq> 0 \<longrightarrow> \<not> crosses buy p bk1"
    using match_order_book [OF inv p ends] by blast
  show ?thesis
  proof (cases "r = 0")
    case True
    then show ?thesis using m by (simp add: add_order_def spec_add_def)
  next
    case False
    note B = book_invD [OF m(2)]
    have r: "unat r < 2 ^ 31"
      using spec_match_le [of T "unat p" "unat qty" buy "abs_book bk"] m(3) qty by simp
    have "i \<notin> live_ids (abs_book bk1)"
      using spec_match_ids [of T "unat p" "unat qty" buy "abs_book bk"] m(3) i(2) by auto
    then have new: "vat (order_map bk1) (unat i) = None" using order_map_live_book [OF m(2) i(1)] by simp
    obtain bk' q where add: "add_order i p qty buy bk = ret bk'"
      "heap_inv T N bk' (Lset (ladder_of bk1) buy (unat p) (ladder_of bk1 buy (unat p) @ [q]))"
      "index_inv T bk' (Lset (ladder_of bk1) buy (unat p) (ladder_of bk1 buy (unat p) @ [q]))"
      "labs bk' (Lset (ladder_of bk1) buy (unat p) (ladder_of bk1 buy (unat p) @ [q])) =
        Lset (abs_book bk1) buy (unat p) (abs_book bk1 buy (unat p) @ [(i, unat r)])"
      using add_order_link [OF B(1,2) p i(1) new m(1) r False] B(4) by auto
    have "uncrossed (Lset (ladder_of bk1) buy (unat p) (ladder_of bk1 buy (unat p) @ [q]))"
      using not_crosses_apart [OF B(2)] m(4) False by (intro uncrossed_Lset [OF B(3)]) blast
    from book_invI [OF add(2,3) this] show ?thesis
      using add(1,4) m(3) False by (simp add: spec_add_def unat_eq_0)
  qed
qed

section \<open>Cancelling\<close>

lemma filter_remove1_id:
  assumes "distinct qs" "q \<in> set qs" "\<And>x. x \<in> set qs \<Longrightarrow> x \<noteq> q \<Longrightarrow> fst (f x) \<noteq> fst (f q)"
  shows "map f (remove1 q qs) = filter (\<lambda>(j, n). j \<noteq> fst (f q)) (map f qs)"
proof -
  have "remove1 q qs = filter (\<lambda>x. x \<noteq> q) qs" using assms(1) by (induction qs) (auto intro!: filter_True [symmetric])
  also have "\<dots> = filter (\<lambda>x. fst (f x) \<noteq> fst (f q)) qs" using assms(3) by (intro filter_cong) auto
  finally show ?thesis by (simp add: filter_map comp_def split_beta)
qed

lemma entry_id_unique:
  assumes inv: "heap_inv T N bk L" and "q \<in> set (L b p)" "x \<in> set (L b' p')" "x \<noteq> q"
  shows "oid (ords bk x) \<noteq> oid (ords bk q)"
  using heap_inv_member(4) [OF inv assms(2)] heap_inv_member(4) [OF inv assms(3)] assms(4)
  by (auto simp: resting_ok_def)

lemma cancel_removes:
  assumes inv: "heap_inv T N bk L" and q: "q \<in> set (L b p)"
  shows "Lset (labs bk L) b p (map (entry (ords bk)) (remove1 q (L b p))) =
     spec_cancel (oid (ords bk q)) (labs bk L)"
proof (intro ext)
  fix b' p'
  have other: "oid (ords bk x) \<noteq> oid (ords bk q)" if "x \<in> set (L b' p')" "x \<noteq> q" for x b' p'
    using entry_id_unique [OF inv q that] .
  show "Lset (labs bk L) b p (map (entry (ords bk)) (remove1 q (L b p))) b' p' =
     spec_cancel (oid (ords bk q)) (labs bk L) b' p'"
  proof (cases "b' = b \<and> p' = p")
    case True
    have "distinct (L b p)"
      using heap_invD(5) [OF inv heap_inv_member(1) [OF inv q], of b] by (simp add: level_inv_def)
    then have "map (entry (ords bk)) (remove1 q (L b p)) =
        filter (\<lambda>(j, n). j \<noteq> fst (entry (ords bk) q)) (map (entry (ords bk)) (L b p))"
      using other [of _ b p] by (intro filter_remove1_id [OF _ q]) (simp_all add: entry_def)
    then show ?thesis using True by (simp add: spec_cancel_def labs_def entry_def)
  next
    case False
    then have "x \<noteq> q" if "x \<in> set (L b' p')" for x
      using that heap_inv_disjoint [OF inv q, of b' p'] by blast
    then have "filter (\<lambda>(j, n). j \<noteq> oid (ords bk q)) (labs bk L b' p') = labs bk L b' p'"
      using other by (auto simp: labs_def entry_def filter_id_conv)
    then show ?thesis using Lset_other [OF False, of "labs bk L"] by (simp add: spec_cancel_def)
  qed
qed

text \<open>\<open>cancel_order\<close> on a live order, with the index refreshed when the level empties.\<close>

lemma cancel_order_live:
  assumes inv: "heap_inv T N bk L" and idx: "index_inv T bk L" and q: "q \<in> set (L b p)"
  defines "L' \<equiv> Lset L b p (remove1 q (L b p))"
  shows "\<exists>bk'. cancel_order (oid (ords bk q)) bk = ret bk' \<and> heap_inv T N bk' L' \<and> index_inv T bk' L' \<and>
     labs bk' L' = spec_cancel (oid (ords bk q)) (labs bk L)"
proof -
  note D = heap_invD [OF inv] and M = heap_inv_member [OF inv q]
  let ?o = "ords bk q"
  have ok: "is_buy ?o = b" "unat (oprice ?o) = p" "unat (oid ?o) < N" "vat (order_map bk) (unat (oid ?o)) = Some q"
    using M(4) by (simp_all add: resting_ok_def)
  have sz: "vsize (slots (pool bk)) = N" "vsize (order_map bk) = N" "side_size b bk = T"
    using D(1) by (simp_all add: book_sizes_def side_size_def)
  define bk1 where "bk1 = upd_lvl b p ((lvl b p bk)\<lparr>total_quantity := total_quantity (lvl b p bk) - ucast (quantity ?o)\<rparr>) bk"
  define bk2 where "bk2 = upd_lvl b p (unlink_level ?o (lvl b p bk1))
      (bk1\<lparr>pool := (pool bk)\<lparr>slots := Vector N (unlink_heap q (ords bk))\<rparr>\<rparr>)"
  have nb: "\<And>a. prv ?o = Some a \<Longrightarrow> a < N \<and> a \<noteq> q" "\<And>a. nxt ?o = Some a \<Longrightarrow> a < N \<and> a \<noteq> q"
    using resting_neighbours [OF inv q] heap_inv_member(2) [OF inv] by blast+
  have pre: "ords bk1 = (ords bk)(q := ?o\<lparr>quantity := quantity ?o\<rparr>)" "free_list (pool bk1) = free_list (pool bk)"
    "order_map bk1 = order_map bk" "book_sizes T N bk1"
    using D(1) by (simp_all add: bk1_def book_sizes_def)
  have other: "lvl b' p' bk1 = lvl b' p' bk" if "\<not> (b' = b \<and> p' = p)" for b' p'
    using that unfolding bk1_def lvl_upd_lvl by auto
  have tot: "lvl b p bk1 = (lvl b p bk)\<lparr>total_quantity := total_quantity (lvl b p bk) - ucast (quantity ?o)\<rparr>"
    by (simp add: bk1_def lvl_upd_lvl)
  note rm = heap_inv_removed [OF inv q pre other tot]
  have unl: "unlink q b (oprice ?o) bk1 = ret bk2"
    using unlink_eq [of q bk1 "oprice ?o" b] M(1,2) sz nb ok by (simp add: bk1_def bk2_def)
  have idx1: "index_inv T bk2 L"
    using idx by (simp add: index_inv_def bk1_def bk2_def)
  have lv2: "lvl b p bk2 = lvl b p (removed q b p bk1)" by (simp add: bk2_def removed_def lvl_upd_lvl bk1_def)
  have tot2: "total_quantity (lvl b p bk2) = 0 \<longleftrightarrow> L' b p = []"
    using level_total_zero_iff [OF rm(1) M(1), of b] lv2 by (simp add: L'_def)
  have rmv: "seqc (set_map (oid ?o) None (reindexed bb ab hb la bk2)) (free_order q) =
      ret (reindexed bb ab hb la (removed q b p bk1))" for bb ab hb la
    using sz ok M(2) by (simp add: reindexed_def bk1_def bk2_def removed_def)
  have rmv': "seqc (set_map (oid ?o) None bk2) (free_order q) = ret (removed q b p bk1)"
    using sz ok M(2) by (simp add: bk1_def bk2_def removed_def)
  have run: "cancel_order (oid ?o) bk =
      seqc (if L' b p = [] then seqc (clear_side_bit b (oprice ?o) bk2) refresh_best else ret bk2)
        (\<lambda>bk. seqc (set_map (oid ?o) None bk) (free_order q))"
    using ok sz M(1,2) unl tot2 by (simp add: cancel_order_def bk1_def [symmetric] bk2_def [symmetric]) (simp add: bk2_def bk1_def)
  have same: "L' b' p' = [] \<longleftrightarrow> L b' p' = []" if "\<not> (b' = b \<and> p' = p)" for b' p'
    unfolding L'_def Lset_other [OF that] ..
  show ?thesis
  proof (cases "L' b p = []")
    case True
    obtain bb ab hb la where r: "seqc (clear_side_bit b (oprice ?o) bk2) refresh_best = ret (reindexed bb ab hb la bk2)"
      "\<And>bk'. index_inv T (reindexed bb ab hb la bk') L'"
      using clear_refresh [OF idx1, of "oprice ?o" b] True same ok(2) M(1) by blast
    then show ?thesis
      using run True rmv rm cancel_removes [OF inv q] by (auto simp: L'_def)
  next
    case False
    have "L b p \<noteq> []" using q by auto
    then have "L b' p' = [] \<longleftrightarrow> L' b' p' = []" for b' p'
      using same [of b' p'] False by (cases "b' = b \<and> p' = p") blast+
    moreover have "same_index bk (removed q b p bk1)"
      using rm(3) by (simp add: same_index_def bk1_def)
    ultimately have "index_inv T (removed q b p bk1) L'"
      using idx index_inv_cong [of bk "removed q b p bk1" L L'] by simp
    then show ?thesis
      using run False rmv' rm cancel_removes [OF inv q] by (auto simp: L'_def)
  qed
qed

lemma spec_cancel_not_live: "i \<notin> live_ids A \<Longrightarrow> spec_cancel i A = A"
  by (force simp: spec_cancel_def live_ids_def filter_id_conv intro!: ext)

lemma live_ids_spec_cancel: "live_ids (spec_cancel i A) = live_ids A - {i}"
  by (force simp: spec_cancel_def live_ids_def)

lemma spec_cancel_empty: "A b p = [] \<Longrightarrow> spec_cancel i A b p = []"
  by (simp add: spec_cancel_def)

lemma live_order:
  assumes inv: "book_inv T N bk" and i: "unat i < N" and m: "vat (order_map bk) (unat i) = Some q"
  shows "oid (ords bk q) = i" "q \<in> set (ladder_of bk (is_buy (ords bk q)) (unat (oprice (ords bk q))))"
  using heap_invD(7) [OF book_invD(1) [OF inv] i m] by (simp_all add: word_unat_eq_iff)

lemma cancel_order_book:
  assumes inv: "book_inv T N bk" and i: "unat i < N"
  shows "\<exists>bk'. cancel_order i bk = ret bk' \<and> book_inv T N bk' \<and> abs_book bk' = spec_cancel i (abs_book bk)"
proof (cases "vat (order_map bk) (unat i)")
  case None
  have "vsize (order_map bk) = N" using heap_invD(1) [OF book_invD(1) [OF inv]] by (simp add: book_sizes_def)
  moreover have "spec_cancel i (abs_book bk) = abs_book bk"
    using None order_map_live_book [OF inv i] by (intro spec_cancel_not_live) simp
  ultimately show ?thesis using None i inv by (simp add: cancel_order_def)
next
  case (Some q)
  note lo = live_order [OF inv i Some]
  note B = book_invD [OF inv]
  let ?b = "is_buy (ords bk q)" and ?p = "unat (oprice (ords bk q))"
  let ?L = "Lset (ladder_of bk) ?b ?p (remove1 q (ladder_of bk ?b ?p))"
  obtain bk' where c: "cancel_order i bk = ret bk'" "heap_inv T N bk' ?L" "index_inv T bk' ?L"
    "labs bk' ?L = spec_cancel i (abs_book bk)"
    using cancel_order_live [OF B(1,2) lo(2)] lo(1) B(4) by auto
  have "?L b' p' \<noteq> [] \<Longrightarrow> ladder_of bk b' p' \<noteq> []" for b' p'
    using spec_cancel_empty [of "abs_book bk" b' p' i] c(4) B(4) labs_empty_iff by metis
  then have "uncrossed ?L" using B(3) unfolding uncrossed_def by blast
  then show ?thesis using c book_invI [OF c(2,3)] by auto
qed

section \<open>Modifying\<close>

lemma modify_in_place:
  assumes inv: "heap_inv T N bk L" and q: "q \<in> set (L b p)"
    and n': "new_qty \<noteq> 0" "unat new_qty \<le> unat (quantity (ords bk q))"
  defines "i \<equiv> oid (ords bk q)"
  shows "\<exists>bk'. modify_order i (oprice (ords bk q)) new_qty bk = ret bk' \<and> heap_inv T N bk' L \<and> same_index bk bk' \<and>
     labs bk' L = Lset (labs bk L) b p (map (\<lambda>(j, k). if j = i then (j, unat new_qty) else (j, k)) (labs bk L b p))"
proof -
  note D = heap_invD [OF inv] and M = heap_inv_member [OF inv q]
  let ?o = "ords bk q"
  have ok: "is_buy ?o = b" "unat (oprice ?o) = p" "unat (oid ?o) < N" "vat (order_map bk) (unat (oid ?o)) = Some q"
    using M(4) by (simp_all add: resting_ok_def)
  have sz: "vsize (slots (pool bk)) = N" "vsize (order_map bk) = N" "side_size b bk = T"
    using D(1) by (simp_all add: book_sizes_def side_size_def)
  define d where "d = ucast (quantity ?o) - new_qty"
  define bk1 where "bk1 = traded q b p (ucast new_qty) d bk"
  have ud: "unat d = unat (quantity ?o) - unat new_qty"
    using n'(2) by (simp add: d_def unat_sub word_le_nat_alt)
  have un: "unat (ucast new_qty :: 31 word) = unat new_qty"
    using n'(2) unat_31_less [of "quantity ?o"] by (simp add: unat_ucast_32_31)
  have run: "modify_order i (oprice ?o) new_qty bk = ret bk1"
    using ok sz M(1,2) n' by (simp add: modify_order_def i_def bk1_def traded_def d_def word_less_nat_alt)
  have le: "unat (quantity ?o) \<le> unat (total_quantity (lvl b p bk))"
    using D(5) [OF M(1), of b] q by (auto simp: level_inv_def in_set_conv_decomp)
  have tot: "unat (total_quantity (lvl b p bk) - ucast d) = unat (total_quantity (lvl b p bk)) - unat d"
    using le ud by (simp add: unat_sub word_le_nat_alt)
  have nz: "(ucast new_qty :: 31 word) \<noteq> 0" using un n'(1) by (auto simp: unat_eq_0 [symmetric])
  have inv1: "heap_inv T N bk1 L"
    by (rule heap_inv_requantity [OF inv q, where y = "ucast new_qty"])
      (use nz D(1) tot le ud un n'(2) in \<open>auto simp: bk1_def lvl_traded\<close>)
  have ent: "entry (ords bk1) x = (if x = q then (oid (ords bk q), unat new_qty) else entry (ords bk) x)" for x
    using un by (simp add: entry_def bk1_def)
  have dis: "x \<noteq> q" if "x \<in> set (L b' p')" "\<not> (b' = b \<and> p' = p)" for b' p' x
    using that heap_inv_disjoint [OF inv q, of b' p'] by blast
  have "labs bk1 (Lset L b p (L b p)) = Lset (labs bk L) b p (map (entry (ords bk1)) (L b p))"
    using dis ent by (intro labs_Lset_other) simp
  moreover have "map (entry (ords bk1)) (L b p) = map (\<lambda>(j, k). if j = i then (j, unat new_qty) else (j, k)) (labs bk L b p)"
    using entry_id_unique [OF inv q, of _ b p] un by (auto simp: labs_def i_def entry_def bk1_def)
  ultimately show ?thesis using run inv1 by (intro exI [of _ bk1]) (simp add: bk1_def)
qed

lemma live_entry:
  assumes inv: "heap_inv T N bk L" and e: "(i, n) \<in> set (labs bk L b p)"
  shows "\<exists>q. q \<in> set (L b p) \<and> oid (ords bk q) = i \<and> unat (quantity (ords bk q)) = n \<and>
     is_buy (ords bk q) = b \<and> unat (oprice (ords bk q)) = p \<and> unat i < N \<and> vat (order_map bk) (unat i) = Some q"
proof -
  obtain q where q: "q \<in> set (L b p)" "entry (ords bk) q = (i, n)" using e by (auto simp: labs_def)
  then show ?thesis using heap_inv_member(4) [OF inv q(1)] by (auto simp: resting_ok_def entry_def)
qed

lemma modify_order_book:
  assumes inv: "book_inv T N bk" and e: "(i, n) \<in> set (abs_book bk b p)"
    and p': "unat p' < T" and n': "unat n' < 2 ^ 31"
    and ends: "match_ends T p' n' b (spec_cancel i (abs_book bk))"
  shows "\<exists>bk'. modify_order i p' n' bk = ret bk' \<and> book_inv T N bk' \<and>
     abs_book bk' = spec_modify T i b p n (unat p') (unat n') (abs_book bk)"
proof -
  note B = book_invD [OF inv]
  obtain q where q: "q \<in> set (ladder_of bk b p)" "oid (ords bk q) = i" "unat (quantity (ords bk q)) = n"
    "is_buy (ords bk q) = b" "unat (oprice (ords bk q)) = p" "unat i < N" "vat (order_map bk) (unat i) = Some q"
    using live_entry [OF B(1)] e B(4) by metis
  have sz: "vsize (order_map bk) = N" "vsize (slots (pool bk)) = N"
    using heap_invD(1) [OF B(1)] by (simp_all add: book_sizes_def)
  have qN: "q < N" using heap_inv_member(2) [OF B(1) q(1)] .
  have pe: "p' \<noteq> oprice (ords bk q) \<longleftrightarrow> unat p' \<noteq> p" using q(5) by (auto simp: word_unat_eq_iff)
  have ne: "n' > ucast (quantity (ords bk q)) \<longleftrightarrow> unat n' > n" using q(3) by (simp add: word_less_nat_alt)
  consider (replace) "unat p' \<noteq> p \<or> unat n' > n" | (cancel) "unat p' = p" "unat n' \<le> n" "n' = 0"
    | (inplace) "unat p' = p" "unat n' \<le> n" "n' \<noteq> 0" by linarith
  then show ?thesis
  proof cases
    case replace
    obtain bk1 where c: "cancel_order i bk = ret bk1" "book_inv T N bk1" "abs_book bk1 = spec_cancel i (abs_book bk)"
      using cancel_order_book [OF inv q(6)] by blast
    have run: "modify_order i p' n' bk = add_order i p' n' b bk1"
      using replace q sz qN pe ne c(1) by (simp add: modify_order_def)
    show ?thesis
      using add_order_book [OF c(2) q(6) _ p' n', of b] ends c(3) run replace
      by (simp add: live_ids_spec_cancel spec_modify_def)
  next
    case cancel
    have "modify_order i p' n' bk = cancel_order i bk"
      using cancel q sz qN pe ne by (simp add: modify_order_def)
    then show ?thesis using cancel_order_book [OF inv q(6)] cancel by (simp add: spec_modify_def)
  next
    case inplace
    have eq: "p' = oprice (ords bk q)" using inplace(1) pe by blast
    obtain bk' where m: "modify_order i p' n' bk = ret bk'" "heap_inv T N bk' (ladder_of bk)" "same_index bk bk'"
      "labs bk' (ladder_of bk) = Lset (abs_book bk) b p (map (\<lambda>(j, k). if j = i then (j, unat n') else (j, k)) (abs_book bk b p))"
      using modify_in_place [OF B(1) q(1) inplace(3)] inplace(2) q(2,3) eq B(4) by auto
    have "index_inv T bk' (ladder_of bk)" using B(2) index_inv_cong [OF m(3)] by blast
    from book_invI [OF m(2) this B(3)] show ?thesis
      using m(1,4) inplace by (simp add: spec_modify_def unat_eq_0)
  qed
qed

lemma modify_order_unknown:
  assumes inv: "book_inv T N bk" and i: "unat i < N" "i \<notin> live_ids (abs_book bk)"
  shows "modify_order i p' n' bk = ret bk"
proof -
  have "vsize (order_map bk) = N" using heap_invD(1) [OF book_invD(1) [OF inv]] by (simp add: book_sizes_def)
  then show ?thesis using order_map_live_book [OF inv i(1)] i by (simp add: modify_order_def)
qed

section \<open>The empty book\<close>

lemma book_new_inv:
  assumes "T \<le> 2 ^ 18" "N \<le> 2 ^ 32"
  shows "book_inv T N (OrderBook_new T N)" "abs_book (OrderBook_new T N) = (\<lambda>_ _. [])"
proof -
  let ?bk = "OrderBook_new T N" and ?L = "\<lambda>_ _. []"
  have l: "lvl b p ?bk = PriceLevel_init" for b p by (simp add: lvl_def OrderBook_new_def)
  have "heap_inv T N ?bk ?L"
    using assms pool_new_inv pool_new_used
    by (intro heap_invI) (simp_all add: l level_inv_def PriceLevel_init_def book_sizes_def, simp_all add: OrderBook_new_def)
  moreover have "index_inv T ?bk ?L"
    using assms bs_init_inv [of T] bs_init_members [of T]
    by (simp add: index_inv_def OrderBook_new_def pbs.highest_law [of T] pbs.lowest_law [of T])
  ultimately show "book_inv T N ?bk" "abs_book ?bk = (\<lambda>_ _. [])"
    using book_invI [of T N ?bk ?L] by (simp_all add: uncrossed_def labs_def)
qed

end
