(* ===== verification/OrderBookLimits.thy ===== *)
theory OrderBookLimits
  imports OrderBookOps
begin

text \<open>
  Where the operations stop being defined or stop returning: identifiers and prices past the end
  of the vectors, sells at price 0, quantities that do not fit the 31-bit field, and identifiers
  that are reused while live.
\<close>

section \<open>Loops that never end\<close>

text \<open>
  A set \<open>S\<close> of loop states that every iteration of \<open>match_order\<close> leads back into:
  from such a state the function never returns.
\<close>

definition stuck_in :: "(u32 \<Rightarrow> u32 \<Rightarrow> bool \<Rightarrow> OrderBook \<Rightarrow> bool) \<Rightarrow> bool" where
  "stuck_in S \<longleftrightarrow> (\<forall>p rem buy bk. S p rem buy bk \<longrightarrow>
     rem \<noteq> 0 \<and> crosses buy p bk \<and> unat (best_opposite buy bk) < side_size (\<not> buy) bk \<and>
     (\<exists>rem' bk1 l. match_level buy (best_opposite buy bk)
           (head (lvl (\<not> buy) (unat (best_opposite buy bk)) bk)) rem bk = ret (rem', bk1) \<and>
        get_level (\<not> buy) (best_opposite buy bk) bk1 = ret l \<and>
        (if total_quantity l = 0
         then \<exists>bk2. seqc (clear_side_bit (\<not> buy) (best_opposite buy bk) bk1) refresh_best = ret bk2 \<and>
                S p rem' buy bk2
         else S p rem' buy bk1)))"

lemma match_order_diverges:
  assumes stuck: "stuck_in S" and S: "S p rem buy bk"
  shows "match_order p rem buy bk = None"
proof (rule ccontr)
  assume "match_order p rem buy bk \<noteq> None"
  then obtain y where y: "match_order p rem buy bk = Some y" by auto
  have "\<not> S p rem buy bk"
  proof (rule match_order.raw_induct [where P = "\<lambda>p rem buy bk y. \<not> S p rem buy bk", OF _ y], rule notI)
    fix f :: "u32 \<Rightarrow> u32 \<Rightarrow> bool \<Rightarrow> OrderBook \<Rightarrow> (u32 \<times> OrderBook) comp" and p rem buy bk y
    assume IH: "\<And>p rem buy bk y. f p rem buy bk = Some y \<Longrightarrow> \<not> S p rem buy bk"
      and body: "(if 0 < rem \<and> (if buy then p \<ge> best_ask bk else p \<le> best_bid bk)
        then let match_price = if buy then best_ask bk else best_bid bk
             in seqc (get_level (\<not> buy) match_price bk) (\<lambda>lvl.
                seqc (match_level buy match_price (head lvl) rem bk) (\<lambda>(remaining_qty, bk).
                seqc (get_level (\<not> buy) match_price bk) (\<lambda>lvl.
                if total_quantity lvl = 0
                then seqc (clear_side_bit (\<not> buy) match_price bk) (\<lambda>bk. seqc (refresh_best bk) (f p remaining_qty buy))
                else f p remaining_qty buy bk)))
        else ret (rem, bk)) = Some y"
      and st: "S p rem buy bk"
    let ?mp = "best_opposite buy bk" and ?b = "\<not> buy"
    obtain rem' bk1 l where it: "rem \<noteq> 0" "crosses buy p bk" "unat ?mp < side_size ?b bk"
      "match_level buy ?mp (head (lvl ?b (unat ?mp) bk)) rem bk = ret (rem', bk1)"
      "get_level ?b ?mp bk1 = ret l"
      "if total_quantity l = 0 then \<exists>bk2. seqc (clear_side_bit ?b ?mp bk1) refresh_best = ret bk2 \<and> S p rem' buy bk2
       else S p rem' buy bk1"
      using stuck st unfolding stuck_in_def by blast
    have "(if total_quantity l = 0 then seqc (seqc (clear_side_bit ?b ?mp bk1) refresh_best) (f p rem' buy)
           else f p rem' buy bk1) = Some y"
      using body it(1-5)
      by (cases buy) (auto simp: best_opposite_def crosses_def Let_def seqc_assoc word_gt_0 split: if_splits)
    then obtain bk2 where "f p rem' buy bk2 = Some y" "S p rem' buy bk2"
      using it(6) by (auto split: if_splits)
    then show False using IH by blast
  qed
  then show False using S by blast
qed

text \<open>A non-empty total on a level without orders keeps the outer loop where it is.\<close>

definition ghost_level :: "u32 \<Rightarrow> u32 \<Rightarrow> bool \<Rightarrow> OrderBook \<Rightarrow> bool" where
  "ghost_level p rem buy bk \<longleftrightarrow>
     (let mp = unat (best_opposite buy bk) in
      rem \<noteq> 0 \<and> crosses buy p bk \<and> mp < side_size (\<not> buy) bk \<and>
      head (lvl (\<not> buy) mp bk) = None \<and> total_quantity (lvl (\<not> buy) mp bk) \<noteq> 0)"

lemma ghost_level_stuck: "stuck_in ghost_level"
  by (simp add: stuck_in_def ghost_level_def Let_def)

text \<open>A sell at price 0 crosses the value \<open>best_bid = 0\<close> that an empty bid side reports.\<close>

definition no_bids :: "nat \<Rightarrow> u32 \<Rightarrow> u32 \<Rightarrow> bool \<Rightarrow> OrderBook \<Rightarrow> bool" where
  "no_bids T p rem buy bk \<longleftrightarrow>
     p = 0 \<and> rem \<noteq> 0 \<and> \<not> buy \<and>
     0 < T \<and> side_size True bk = T \<and> head (lvl True 0 bk) = None \<and> total_quantity (lvl True 0 bk) = 0 \<and>
     bs_inv T (bid_bits bk) \<and> bs_members (bid_bits bk) = {} \<and> bs_inv T (ask_bits bk) \<and> best_bid bk = 0"

lemma no_bids_refresh:
  assumes "no_bids T p rem buy bk"
  shows "\<exists>bk'. seqc (clear_side_bit True 0 bk) refresh_best = ret bk' \<and> no_bids T p rem buy bk'"
proof -
  have inv: "bs_inv T (bid_bits bk)" "bs_inv T (ask_bits bk)" "bs_members (bid_bits bk) = {}" "0 < T"
    using assms by (simp_all add: no_bids_def)
  obtain s' where s': "bs_clear 0 (bid_bits bk) = ret s'" "bs_inv T s'" "bs_members s' = {}"
    using pbs.clear_law [OF inv(1), of 0] inv by auto
  then have "get_highest s' = ret 0" using pbs.highest_law [OF s'(2)] by simp
  then show ?thesis
    using s' assms pbs.lowest_law [OF inv(2)]
    by (auto simp: clear_side_bit_def refresh_best_def no_bids_def side_size_def)
qed

lemma no_bids_stuck: "stuck_in (no_bids T)"
  unfolding stuck_in_def
proof (intro allI impI)
  fix p rem buy bk assume nb: "no_bids T p rem buy bk"
  then have "\<exists>bk2. seqc (clear_side_bit True 0 bk) refresh_best = ret bk2 \<and> no_bids T 0 rem False bk2"
    using no_bids_refresh [OF nb] by (simp add: no_bids_def)
  then show "rem \<noteq> 0 \<and> crosses buy p bk \<and> unat (best_opposite buy bk) < side_size (\<not> buy) bk \<and>
     (\<exists>rem' bk1 l. match_level buy (best_opposite buy bk)
           (head (lvl (\<not> buy) (unat (best_opposite buy bk)) bk)) rem bk = ret (rem', bk1) \<and>
        get_level (\<not> buy) (best_opposite buy bk) bk1 = ret l \<and>
        (if total_quantity l = 0
         then \<exists>bk2. seqc (clear_side_bit (\<not> buy) (best_opposite buy bk) bk1) refresh_best = ret bk2 \<and>
                no_bids T p rem' buy bk2
         else no_bids T p rem' buy bk1))"
    using nb by (simp add: no_bids_def best_opposite_def crosses_def)
qed

lemma no_bids_of_inv:
  assumes inv: "heap_inv T N bk L" and idx: "index_inv T bk L" and T: "0 < T"
    and e: "\<And>x. L True x = []" and rem: "rem \<noteq> 0"
  shows "no_bids T 0 rem False bk"
proof -
  have "bs_members (bid_bits bk) = {}" "bs_inv T (bid_bits bk)" "bs_inv T (ask_bits bk)"
    using idx e by (simp_all add: index_inv_def)
  moreover have "best_bid bk = 0"
    using best_opposite_empty [OF idx, of False] e by (simp add: best_opposite_def)
  ultimately show ?thesis
    using rem T level_head [OF inv T, of True] level_total_zero_iff [OF inv T, of True] e heap_invD(1) [OF inv]
    by (simp add: no_bids_def)
qed

lemma side_total_fill_less:
  assumes "p < T" "side_total T A < q"
  shows "side_total T (A(p := snd (fill q (A p)))) < fst (fill q (A p))"
proof -
  let ?f = "\<lambda>A p. sum_list (map snd (A p))"
  have r: "(\<Sum>x\<in>{..<T} - {p}. ?f (A(p := xs)) x) = (\<Sum>x\<in>{..<T} - {p}. ?f A x)" for xs
    by (intro sum.cong) auto
  have split: "side_total T A' = ?f A' p + (\<Sum>x\<in>{..<T} - {p}. ?f A' x)" for A'
    using assms(1) by (simp add: side_total_def sum.remove)
  show ?thesis
    using assms(2) unfolding split [of A] split [of "A(p := _)"] r
    by (simp add: fst_fill sum_snd_fill)
qed

lemma match_order_zero_diverges:
  assumes "heap_inv T N bk L" "index_inv T bk L" "0 < T" "side_total T (labs bk L True) < unat rem"
  shows "match_order 0 rem False bk = None"
  using assms
proof (induction "unat rem" arbitrary: rem bk L rule: less_induct)
  case less
  note inv = less.prems(1) and idx = less.prems(2) and T = less.prems(3) and big = less.prems(4)
  have rem: "rem \<noteq> 0" using big by auto
  show ?case
  proof (cases "\<exists>x. L True x \<noteq> []")
    case False
    then show ?thesis
      using match_order_diverges [OF no_bids_stuck no_bids_of_inv [OF inv idx T _ rem]] by blast
  next
    case True
    then obtain x where x: "L (\<not> False) x \<noteq> []" by auto
    define mp where "mp = unat (best_opposite False bk)"
    have Lmp: "L True mp \<noteq> []" using best_opposite_spec(1) [OF idx x] by (simp add: mp_def)
    have mpT: "mp < T" using heap_invD(4) [OF inv, of mp True] Lmp by (cases "mp < T") auto
    let ?A = "labs bk L True mp"
    obtain rem' bk' L' where st: "match_order 0 rem False bk = match_order 0 rem' False bk'"
      "heap_inv T N bk' L'" "index_inv T bk' L'" "unat rem' = fst (fill (unat rem) ?A)"
      "labs bk' L' = Lset (labs bk L) True mp (snd (fill (unat rem) ?A))"
      using match_order_step [OF inv idx rem _ x, of 0] by (auto simp: mp_def crosses_def)
    have "total_quantity (lvl True mp bk) \<noteq> 0" using level_total_zero_iff [OF inv mpT] Lmp by blast
    moreover have "unat (total_quantity (lvl True mp bk)) = sum_list (map snd ?A)"
      using heap_invD(5) [OF inv mpT, of True]
      by (simp add: level_inv_def labs_def qty_sum_def entry_def comp_def)
    ultimately have "0 < sum_list (map snd ?A)" by (metis unat_eq_0 neq0_conv)
    then have dec: "unat rem' < unat rem" using st(4) rem by (simp add: fst_fill unat_gt_0)
    have "side_total T (labs bk' L' True) < unat rem'"
      using side_total_fill_less [OF mpT big] st(4,5) by (simp add: Lset_def)
    from less.hyps [OF dec st(2,3) T this] show ?thesis using st(1) by simp
  qed
qed

section \<open>A quantity that does not fit its field\<close>

text \<open>
  A level that holds one order whose stored quantity differs from the level's total: once the
  order is gone the total stays positive, and the next crossing order never returns.
\<close>

definition lone_order :: "nat \<Rightarrow> u32 \<Rightarrow> OrderBook \<Rightarrow> bool" where
  "lone_order q p bk \<longleftrightarrow>
     q < vsize (slots (pool bk)) \<and> unat p < side_size False bk \<and>
     prv (ords bk q) = None \<and> nxt (ords bk q) = None \<and>
     unat (oid (ords bk q)) < vsize (order_map bk) \<and>
     head (lvl False (unat p) bk) = Some q \<and> best_ask bk = p"

lemma match_order_lone:
  assumes lone: "lone_order q p bk" and p': "p \<le> p'" and rem: "unat (quantity (ords bk q)) < unat rem"
    and tot: "total_quantity (lvl False (unat p) bk) \<noteq> ucast (quantity (ords bk q))"
  shows "match_order p' rem True bk = None"
proof -
  let ?o = "ords bk q" and ?l = "lvl False (unat p) bk"
  have sz: "q < vsize (slots (pool bk))" "unat p < side_size False bk" "unat (oid ?o) < vsize (order_map bk)"
    and lk: "prv ?o = None" "nxt ?o = None" "head ?l = Some q" "best_ask bk = p"
    using lone by (simp_all add: lone_order_def)
  have rem0: "rem \<noteq> 0" using rem by auto
  define d where "d = (ucast (quantity ?o) :: u32)"
  have min: "min (ucast (quantity ?o)) rem = d" using rem by (simp add: d_def min_def word_le_nat_alt)
  have left: "quantity ?o - ucast d = 0" by (simp add: d_def ucast_31_32_31)
  define bk1 where "bk1 = traded q False (unat p) 0 d bk"
  define bk2 where "bk2 = removed q False (unat p) bk1"
  have rel: "seqc (unlink q False p bk1) (\<lambda>bk'. seqc (set_map (oid ?o) None bk') (free_order q)) = ret bk2"
    using unlink_release_eq [of q bk1 p False] sz lk by (simp add: bk1_def bk2_def)
  have rel': "seqc (unlink q False p bk1) (\<lambda>bk'. seqc (set_map (oid ?o) None bk')
      (\<lambda>bk'. seqc (free_order q bk') k)) = k bk2" for k :: "OrderBook \<Rightarrow> (u32 \<times> OrderBook) comp"
    using arg_cong [OF rel, of "\<lambda>m. seqc m k"] by (simp add: seqc_assoc)
  have "match_level True p (Some q) rem bk = seqc (unlink q False p bk1) (\<lambda>bk'. seqc (set_map (oid ?o) None bk')
      (\<lambda>bk'. seqc (free_order q bk') (match_level True p (nxt ?o) (rem - d))))"
    using rem0 sz by (subst match_level.simps) (simp add: Let_def min left bk1_def traded_def word_gt_0 del: right_minus_eq)
  then have ml: "match_level True p (Some q) rem bk = ret (rem - d, bk2)"
    by (simp only: rel') (simp add: lk)
  have l2: "lvl False (unat p) bk2 = ?l\<lparr>head := None, tail := None, total_quantity := total_quantity ?l - ucast d\<rparr>"
    by (simp add: bk2_def removed_def lvl_upd_lvl unlink_level_def bk1_def lvl_traded lk)
  have sz2: "side_size False bk2 = side_size False bk" "best_ask bk2 = p"
    using lk(4) by (simp_all add: bk2_def removed_def bk1_def traded_def)
  have tot2: "total_quantity ?l - ucast d \<noteq> 0" using tot by (simp add: d_def ucast_31_64_via_32)
  have "rem - d \<noteq> 0" using rem by (auto simp: d_def)
  then have g: "ghost_level p' (rem - d) True bk2"
    using l2 sz2 tot2 p' sz(2) by (simp add: ghost_level_def Let_def crosses_def best_opposite_def)
  have "match_order p' rem True bk = match_order p' (rem - d) True bk2"
    using rem0 p' lk sz(2) ml l2 sz2 tot2 by (subst match_order.simps) (simp add: Let_def word_gt_0)
  then show ?thesis using match_order_diverges [OF ghost_level_stuck g] by simp
qed

lemma truncated_add:
  assumes inv: "book_inv T N bk" and i: "unat i < N" "i \<notin> live_ids (abs_book bk)"
    and p: "unat p < T" "best_bid bk < p" "p < best_ask bk" and qty: "2 ^ 31 \<le> unat qty"
  shows "\<exists>bk' q. add_order i p qty False bk = ret bk' \<and> lone_order q p bk' \<and>
     unat (quantity (ords bk' q)) = unat qty - 2 ^ 31 \<and>
     total_quantity (lvl False (unat p) bk') = ucast qty"
proof -
  note B = book_invD [OF inv]
  have q0: "qty \<noteq> 0" using qty by auto
  have m: "match_order p qty False bk = ret (qty, bk)"
    using p(2) by (intro match_order_exit) (auto simp: crosses_def not_le)
  have new: "vat (order_map bk) (unat i) = None" using order_map_live_book [OF inv i(1)] i(2) by simp
  obtain bb ab q pl where add: "add_order i p qty False bk = ret (reindexed bb ab (best_bid bk) p (linked q i p qty False bk))"
    "allocate (pool bk) = (Some q, pl)"
    using add_order_linked [OF B(1,2) p(1) i(1) new m q0] p(3) by auto
  let ?bk = "reindexed bb ab (best_bid bk) p (linked q i p qty False bk)"
  have e: "ladder_of bk False (unat p) = []"
  proof (rule ccontr)
    assume ne: "ladder_of bk False (unat p) \<noteq> []"
    then have "unat (best_ask bk) \<le> unat p"
      using best_opposite_spec(2) [OF B(2), of True "unat p" "unat p"] by (simp add: best_opposite_def)
    then show False using p(3) by (simp add: word_less_nat_alt)
  qed
  have lv: "head (lvl False (unat p) bk) = None" "tail (lvl False (unat p) bk) = None"
    "total_quantity (lvl False (unat p) bk) = 0"
    using level_head [OF B(1) p(1)] level_tail [OF B(1) p(1)] level_total_zero_iff [OF B(1) p(1)] e by simp_all
  have qN: "q < N" using opool.alloc_some [OF heap_invD(2) [OF B(1)] add(2)] heap_invD(1) [OF B(1)]
    by (simp add: book_sizes_def)
  have "unat qty mod 2 ^ 31 = unat qty - 2 ^ 31"
    using qty unat_32_less [of qty] by (simp add: mod_if)
  then have uq: "unat (ucast qty :: 31 word) = unat qty - 2 ^ 31" by (simp add: unat_ucast_32_31)
  have "lone_order q p ?bk"
    using lv qN i(1) p(1) heap_invD(1) [OF B(1)]
    by (simp add: lone_order_def linked_def Let_def lvl_upd_lvl book_sizes_def side_size_def)
  moreover have "unat (quantity (ords ?bk q)) = unat qty - 2 ^ 31" "total_quantity (lvl False (unat p) ?bk) = ucast qty"
    using lv uq by (simp_all add: linked_def Let_def lvl_upd_lvl)
  ultimately show ?thesis using add(1) by blast
qed

section \<open>Accesses out of range\<close>

lemma cancel_out_of_range: "vsize (order_map bk) \<le> unat i \<Longrightarrow> cancel_order i bk = undef OutOfBounds"
  by (simp add: cancel_order_def)

lemma modify_out_of_range: "vsize (order_map bk) \<le> unat i \<Longrightarrow> modify_order i p n bk = undef OutOfBounds"
  by (simp add: modify_order_def)

end
