(* ===== verification/OrderBookInterface.thy ===== *)
theory OrderBookInterface
  imports OrderBookLimits
begin

text \<open>
  What the matching engine relies on of the order book: the three operations as commands, their
  abstract meaning as an executable function, the inputs for which they are defined
  (\<open>admissible\<close>), and the locale \<open>limit_order_book\<close> whose laws the model of
  \<^verbatim>\<open>include/OrderBook.h\<close> is shown to satisfy. The engine's lemma on whole command
  sequences is proved once inside the locale.
\<close>

section \<open>Commands and their meaning\<close>

datatype book_command =
    AddOrder u64 u32 u32 bool
  | CancelOrder u64
  | ModifyOrder u64 u32 u32

definition live_orders :: "nat \<Rightarrow> abook \<Rightarrow> (u64 \<times> bool \<times> nat \<times> nat) list" where
  "live_orders T A =
     concat (map (\<lambda>b. concat (map (\<lambda>p. map (\<lambda>(j, n). (j, b, p, n)) (A b p)) [0..<T])) [True, False])"

definition find_live :: "nat \<Rightarrow> u64 \<Rightarrow> abook \<Rightarrow> (bool \<times> nat \<times> nat) option" where
  "find_live T i A = map_option snd (List.find (\<lambda>(j, _). j = i) (live_orders T A))"

fun spec_exec :: "nat \<Rightarrow> book_command \<Rightarrow> abook \<Rightarrow> abook" where
  "spec_exec T (AddOrder i p q b) A = spec_add T i (unat p) (unat q) b A"
| "spec_exec T (CancelOrder i) A = spec_cancel i A"
| "spec_exec T (ModifyOrder i p' n') A =
     (case find_live T i A of
        None \<Rightarrow> A
      | Some (b, p, n) \<Rightarrow> spec_modify T i b p n (unat p') (unat n') A)"

fun admissible :: "nat \<Rightarrow> nat \<Rightarrow> abook \<Rightarrow> book_command \<Rightarrow> bool" where
  "admissible T N A (AddOrder i p q b) \<longleftrightarrow>
     unat i < N \<and> find_live T i A = None \<and> unat p < T \<and> unat q < 2 ^ 31 \<and> match_ends T p q b A"
| "admissible T N A (CancelOrder i) \<longleftrightarrow> unat i < N"
| "admissible T N A (ModifyOrder i p' n') \<longleftrightarrow>
     unat i < N \<and>
     (case find_live T i A of
        None \<Rightarrow> True
      | Some (b, _) \<Rightarrow> unat p' < T \<and> unat n' < 2 ^ 31 \<and> match_ends T p' n' b (spec_cancel i A))"

fun admissible_run :: "nat \<Rightarrow> nat \<Rightarrow> abook \<Rightarrow> book_command list \<Rightarrow> bool" where
  "admissible_run T N A [] \<longleftrightarrow> True"
| "admissible_run T N A (c # cs) \<longleftrightarrow> admissible T N A c \<and> admissible_run T N (spec_exec T c A) cs"

definition spec_run :: "nat \<Rightarrow> book_command list \<Rightarrow> abook \<Rightarrow> abook" where
  "spec_run T cs A = fold (spec_exec T) cs A"

lemma admissible_run_append:
  "admissible_run T N A (cs @ ds) \<longleftrightarrow> admissible_run T N A cs \<and> admissible_run T N (spec_run T cs A) ds"
  by (induction cs arbitrary: A) (simp_all add: spec_run_def)

section \<open>The interface\<close>

locale limit_order_book =
  fixes add :: "u64 \<Rightarrow> u32 \<Rightarrow> u32 \<Rightarrow> bool \<Rightarrow> 'b \<Rightarrow> 'b comp"
    and cancel :: "u64 \<Rightarrow> 'b \<Rightarrow> 'b comp"
    and modify :: "u64 \<Rightarrow> u32 \<Rightarrow> u32 \<Rightarrow> 'b \<Rightarrow> 'b comp"
    and absb :: "'b \<Rightarrow> abook"
    and invar :: "'b \<Rightarrow> bool"
    and ticks :: nat
    and ids :: nat
  assumes add_law: "invar bk \<Longrightarrow> admissible ticks ids (absb bk) (AddOrder i p q b) \<Longrightarrow>
        \<exists>bk'. add i p q b bk = ret bk' \<and> invar bk' \<and> absb bk' = spec_exec ticks (AddOrder i p q b) (absb bk)"
    and cancel_law: "invar bk \<Longrightarrow> admissible ticks ids (absb bk) (CancelOrder i) \<Longrightarrow>
        \<exists>bk'. cancel i bk = ret bk' \<and> invar bk' \<and> absb bk' = spec_exec ticks (CancelOrder i) (absb bk)"
    and modify_law: "invar bk \<Longrightarrow> admissible ticks ids (absb bk) (ModifyOrder i p n) \<Longrightarrow>
        \<exists>bk'. modify i p n bk = ret bk' \<and> invar bk' \<and> absb bk' = spec_exec ticks (ModifyOrder i p n) (absb bk)"
begin

fun exec :: "book_command \<Rightarrow> 'b \<Rightarrow> 'b comp" where
  "exec (AddOrder i p q b) bk = add i p q b bk"
| "exec (CancelOrder i) bk = cancel i bk"
| "exec (ModifyOrder i p n) bk = modify i p n bk"

fun exec_all :: "book_command list \<Rightarrow> 'b \<Rightarrow> 'b comp" where
  "exec_all [] bk = ret bk"
| "exec_all (c # cs) bk = seqc (exec c bk) (exec_all cs)"

lemma exec_all_Nil [simp]: "exec_all [] = ret"
  by (rule ext) simp

lemma exec_law:
  "invar bk \<Longrightarrow> admissible ticks ids (absb bk) c \<Longrightarrow>
     \<exists>bk'. exec c bk = ret bk' \<and> invar bk' \<and> absb bk' = spec_exec ticks c (absb bk)"
  using add_law cancel_law modify_law by (cases c) simp_all

lemma exec_all_law:
  "invar bk \<Longrightarrow> admissible_run ticks ids (absb bk) cs \<Longrightarrow>
     \<exists>bk'. exec_all cs bk = ret bk' \<and> invar bk' \<and> absb bk' = spec_run ticks cs (absb bk)"
proof (induction cs arbitrary: bk)
  case Nil
  then show ?case by (simp add: spec_run_def)
next
  case (Cons c cs)
  then obtain bk1 where bk1: "exec c bk = ret bk1" "invar bk1" "absb bk1 = spec_exec ticks c (absb bk)"
    using exec_law by (metis admissible_run.simps(2))
  then obtain bk' where "exec_all cs bk1 = ret bk'" "invar bk'" "absb bk' = spec_run ticks cs (absb bk1)"
    using Cons by (metis admissible_run.simps(2))
  then show ?case using bk1 by (simp add: spec_run_def)
qed

lemma exec_all_append: "exec_all (cs @ ds) bk = seqc (exec_all cs bk) (exec_all ds)"
proof (induction cs arbitrary: bk)
  case (Cons c cs)
  then have "exec_all (cs @ ds) = (\<lambda>bk. seqc (exec_all cs bk) (exec_all ds))" by blast
  then show ?case by (simp add: seqc_assoc)
qed simp

end

section \<open>The model of the order book satisfies it\<close>

lemma find_live_Some: "find_live T i A = Some (b, p, n) \<Longrightarrow> (i, n) \<in> set (A b p) \<and> p < T"
proof -
  assume "find_live T i A = Some (b, p, n)"
  then obtain x where "List.find (\<lambda>(j, _). j = i) (live_orders T A) = Some x" "snd x = (b, p, n)"
    by (auto simp: find_live_def)
  then have "(i, b, p, n) \<in> set (live_orders T A)"
    by (auto simp: find_Some_iff) (metis nth_mem)
  then show ?thesis by (auto simp: live_orders_def)
qed

lemma find_live_None:
  assumes "\<And>b p. T \<le> p \<Longrightarrow> A b p = []"
  shows "find_live T i A = None \<longleftrightarrow> i \<notin> live_ids A"
proof
  assume "find_live T i A = None"
  then have none: "\<And>x. x \<in> set (live_orders T A) \<Longrightarrow> fst x \<noteq> i"
    by (auto simp: find_live_def find_None_iff)
  show "i \<notin> live_ids A"
  proof
    assume "i \<in> live_ids A"
    then obtain b p n where e: "(i, n) \<in> set (A b p)" by (auto simp: live_ids_def)
    then have "p < T" using assms [of p b] by (cases "p < T") auto
    then have "(i, b, p, n) \<in> set (live_orders T A)"
      using e by (cases b) (auto simp: live_orders_def intro!: bexI [of _ p] rev_image_eqI)
    then show False using none by fastforce
  qed
next
  assume "i \<notin> live_ids A"
  then show "find_live T i A = None"
    using find_live_Some [of T i A] by (cases "find_live T i A") (force simp: live_ids_def)+
qed

lemma abs_book_range: "book_inv T N bk \<Longrightarrow> T \<le> p \<Longrightarrow> abs_book bk b p = []"
  using book_invD(1,4) by (metis heap_invD(4) labs_empty_iff)

lemma find_live_book: "book_inv T N bk \<Longrightarrow> find_live T i (abs_book bk) = None \<longleftrightarrow> i \<notin> live_ids (abs_book bk)"
  using abs_book_range by (intro find_live_None)

lemma book_add_law:
  assumes "book_inv T N bk" "admissible T N (abs_book bk) (AddOrder i p q b)"
  shows "\<exists>bk'. add_order i p q b bk = ret bk' \<and> book_inv T N bk' \<and>
    abs_book bk' = spec_exec T (AddOrder i p q b) (abs_book bk)"
  using assms add_order_book [OF assms(1), of i p q b] by (simp add: find_live_book)

lemma book_cancel_law:
  assumes "book_inv T N bk" "admissible T N (abs_book bk) (CancelOrder i)"
  shows "\<exists>bk'. cancel_order i bk = ret bk' \<and> book_inv T N bk' \<and>
    abs_book bk' = spec_exec T (CancelOrder i) (abs_book bk)"
  using assms cancel_order_book [OF assms(1), of i] by simp

lemma book_modify_law:
  assumes "book_inv T N bk" "admissible T N (abs_book bk) (ModifyOrder i p' n')"
  shows "\<exists>bk'. modify_order i p' n' bk = ret bk' \<and> book_inv T N bk' \<and>
    abs_book bk' = spec_exec T (ModifyOrder i p' n') (abs_book bk)"
proof (cases "find_live T i (abs_book bk)")
  case None
  then show ?thesis
    using assms modify_order_unknown [OF assms(1), of i p' n'] find_live_book [OF assms(1), of i] by auto
next
  case (Some x)
  obtain b p n where x: "x = (b, p, n)" by (cases x)
  then have "(i, n) \<in> set (abs_book bk b p)" using find_live_Some Some by blast
  from modify_order_book [OF assms(1) this, of p' n'] show ?thesis using Some x assms(2) by simp
qed

interpretation book: limit_order_book add_order cancel_order modify_order abs_book "book_inv T N" T N for T N
  by unfold_locales (rule book_add_law book_cancel_law book_modify_law; assumption)+

text \<open>The same commands executed by the functions of the book.\<close>

fun run_command :: "book_command \<Rightarrow> OrderBook \<Rightarrow> OrderBook comp" where
  "run_command (AddOrder i p q b) bk = add_order i p q b bk"
| "run_command (CancelOrder i) bk = cancel_order i bk"
| "run_command (ModifyOrder i p n) bk = modify_order i p n bk"

fun run_commands :: "book_command list \<Rightarrow> OrderBook \<Rightarrow> OrderBook comp" where
  "run_commands [] bk = ret bk"
| "run_commands (c # cs) bk = seqc (run_command c bk) (run_commands cs)"

lemma run_commands_exec: "run_commands cs bk = book.exec_all cs bk"
proof (induction cs arbitrary: bk)
  case (Cons c cs)
  then have "run_commands cs = book.exec_all cs" by blast
  then show ?case by (cases c) simp_all
qed simp

definition EMPTY_BOOK :: abook where
  "EMPTY_BOOK = (\<lambda>_ _. [])"

lemma OrderBook_init_inv:
  "book_inv MAX_TICKS MAX_ORDERS OrderBook_init" "abs_book OrderBook_init = EMPTY_BOOK"
  using book_new_inv [of MAX_TICKS MAX_ORDERS]
  by (simp_all add: OrderBook_init_def EMPTY_BOOK_def MAX_TICKS_def MAX_ORDERS_def)

lemma run_commands_law:
  assumes "admissible_run MAX_TICKS MAX_ORDERS EMPTY_BOOK cs"
  shows "\<exists>bk. run_commands cs OrderBook_init = ret bk \<and> book_inv MAX_TICKS MAX_ORDERS bk \<and>
    abs_book bk = spec_run MAX_TICKS cs EMPTY_BOOK"
  using book.exec_all_law [OF OrderBook_init_inv(1), of cs] assms
  unfolding run_commands_exec OrderBook_init_inv(2) by simp

lemma index_levels:
  assumes "book_inv T N bk"
  shows "bs_members (bid_bits bk) = {p. abs_book bk True p \<noteq> []}" "bs_members (ask_bits bk) = {p. abs_book bk False p \<noteq> []}"
  using book_invD(2,4) [OF assms] by (simp_all add: index_inv_def labs_empty_iff)

lemma book_best_bid:
  assumes "book_inv T N bk"
  shows "get_best_bid bk = (if {p. abs_book bk True p \<noteq> []} = {} then 0 else of_nat (Max {p. abs_book bk True p \<noteq> []}))"
proof -
  have "bs_inv T (bid_bits bk)" "get_highest (bid_bits bk) = ret (get_best_bid bk)"
    using book_invD(2) [OF assms] by (simp_all add: index_inv_def get_best_bid_def)
  then show ?thesis using pbs.highest_law [of T "bid_bits bk"] unfolding index_levels(1) [OF assms] by simp
qed

lemma book_best_ask:
  assumes "book_inv T N bk"
  shows "get_best_ask bk = (if {p. abs_book bk False p \<noteq> []} = {} then UINT32_MAX else of_nat (Min {p. abs_book bk False p \<noteq> []}))"
proof -
  have "bs_inv T (ask_bits bk)" "get_lowest (ask_bits bk) = ret (get_best_ask bk)"
    using book_invD(2) [OF assms] by (simp_all add: index_inv_def get_best_ask_def)
  then show ?thesis using pbs.lowest_law [of T "ask_bits bk"] unfolding index_levels(2) [OF assms] by simp
qed

lemma book_uncrossed:
  assumes "book_inv T N bk" "abs_book bk True p \<noteq> []" "abs_book bk False p' \<noteq> []"
  shows "p < p'"
  using book_invD(3,4) [OF assms(1)] assms(2,3) by (auto simp: uncrossed_def labs_empty_iff)

lemma sweep_conserves:
  "\<lbrakk>distinct ps; \<And>p. p \<in> set ps \<Longrightarrow> p < T\<rbrakk> \<Longrightarrow>
     q + side_total T (snd (sweep q ps A)) = fst (sweep q ps A) + side_total T A"
proof (induction ps arbitrary: q A)
  case (Cons p ps)
  let ?A = "A(p := snd (fill q (A p)))"
  have "side_total T ?A + sum_list (map snd (A p)) = side_total T A + sum_list (map snd (snd (fill q (A p))))"
    using Cons.prems(2) [of p] side_total_upd [of p T A "snd (fill q (A p))"] by simp
  moreover have "fst (fill q (A p)) + sum_list (map snd (A p)) = q + sum_list (map snd (snd (fill q (A p))))"
    unfolding fst_fill sum_snd_fill by linarith
  moreover have "fst (fill q (A p)) + side_total T (snd (sweep (fst (fill q (A p))) ps ?A)) =
      fst (sweep (fst (fill q (A p))) ps ?A) + side_total T ?A"
    using Cons by simp
  ultimately show ?case by simp
qed simp

lemma spec_match_conserves:
  assumes "p < T"
  shows "q + side_total T (snd (spec_match T p q buy A) (\<not> buy)) = fst (spec_match T p q buy A) + side_total T (A (\<not> buy))"
proof -
  have "distinct (crossing_prices T p buy)" by (simp add: crossing_prices_def)
  then have "q + side_total T (snd (sweep q (crossing_prices T p buy) (A (\<not> buy)))) =
      fst (sweep q (crossing_prices T p buy) (A (\<not> buy))) + side_total T (A (\<not> buy))"
    using assms by (intro sweep_conserves) (auto simp: crossing_prices_def split: if_splits)
  then show ?thesis by (simp add: spec_match_def Let_def)
qed

section \<open>Properties\<close>

text \<open>C1. The order book implements price-time priority. Every sequence of admissible commands, executed on a
  freshly constructed book, returns, keeps the book's invariant, and leaves the book whose levels are those
  of the abstract specification run on the same commands.\<close>

theorem book_refines_price_time_priority:
  assumes "admissible_run MAX_TICKS MAX_ORDERS EMPTY_BOOK cs"
  shows "\<exists>bk. run_commands cs OrderBook_init = ret bk \<and> book_inv MAX_TICKS MAX_ORDERS bk \<and>
    abs_book bk = spec_run MAX_TICKS cs EMPTY_BOOK"
  using assms by (rule run_commands_law)

lemma find_live_EMPTY [simp]: "find_live T i EMPTY_BOOK = None"
  by (intro find_live_None [THEN iffD2]) (simp_all add: EMPTY_BOOK_def live_ids_def)

lemma book_refines_price_time_priority_witness:
  "\<exists>bk. run_commands [AddOrder 1 100500 100 True, CancelOrder 1] OrderBook_init = ret bk \<and>
    book_inv MAX_TICKS MAX_ORDERS bk \<and>
    abs_book bk = spec_run MAX_TICKS [AddOrder 1 100500 100 True, CancelOrder 1] EMPTY_BOOK"
  by (rule book_refines_price_time_priority) (simp add: MAX_TICKS_def MAX_ORDERS_def match_ends_def)

text \<open>C2. After every admissible sequence of commands the cached best prices are exact: \<open>get_best_bid\<close> is the
  highest price with a resting bid (0 when there is none), \<open>get_best_ask\<close> the lowest price with a resting ask
  (\<open>UINT32_MAX\<close> when there is none), and no bid rests at or above an ask.\<close>

theorem best_prices_exact_and_uncrossed:
  assumes "admissible_run MAX_TICKS MAX_ORDERS EMPTY_BOOK cs"
  shows "\<exists>bk. run_commands cs OrderBook_init = ret bk \<and>
    get_best_bid bk = (if {p. abs_book bk True p \<noteq> []} = {} then 0 else of_nat (Max {p. abs_book bk True p \<noteq> []})) \<and>
    get_best_ask bk = (if {p. abs_book bk False p \<noteq> []} = {} then UINT32_MAX else of_nat (Min {p. abs_book bk False p \<noteq> []})) \<and>
    (\<forall>p p'. abs_book bk True p \<noteq> [] \<longrightarrow> abs_book bk False p' \<noteq> [] \<longrightarrow> p < p')"
  using run_commands_law [OF assms] book_best_bid book_best_ask book_uncrossed by blast

lemma best_prices_exact_and_uncrossed_witness:
  "\<exists>bk. run_commands [AddOrder 1 100500 100 True, CancelOrder 1] OrderBook_init = ret bk \<and>
    get_best_bid bk = (if {p. abs_book bk True p \<noteq> []} = {} then 0 else of_nat (Max {p. abs_book bk True p \<noteq> []})) \<and>
    get_best_ask bk = (if {p. abs_book bk False p \<noteq> []} = {} then UINT32_MAX else of_nat (Min {p. abs_book bk False p \<noteq> []})) \<and>
    (\<forall>p p'. abs_book bk True p \<noteq> [] \<longrightarrow> abs_book bk False p' \<noteq> [] \<longrightarrow> p < p')"
  by (rule best_prices_exact_and_uncrossed) (simp add: MAX_TICKS_def MAX_ORDERS_def match_ends_def)

text \<open>C5. \<open>add_order\<close> on any book that satisfies the invariant: for a new identifier, a price on the ladder and a quantity
  that fits its field it returns, trades against the opposite side in price-time priority, rests exactly the untraded
  remainder at the back of its level (the pool is never exhausted on the way), and keeps the invariant.\<close>

theorem add_order_correct:
  assumes "book_inv T N bk" "unat i < N" "i \<notin> live_ids (abs_book bk)" "unat p < T" "unat qty < 2 ^ 31"
    and "buy \<or> p \<noteq> 0 \<or> unat qty \<le> side_total T (abs_book bk True)"
  shows "\<exists>bk'. add_order i p qty buy bk = ret bk' \<and> book_inv T N bk' \<and>
    abs_book bk' = spec_add T i (unat p) (unat qty) buy (abs_book bk)"
  using assms add_order_book [of T N bk i p qty buy] by (simp add: match_ends_def)

text \<open>A book that holds one ask of 100 at 100500.\<close>

lemma one_ask_book:
  "\<exists>bk. run_commands [AddOrder 1 100500 100 False] OrderBook_init = ret bk \<and> book_inv MAX_TICKS MAX_ORDERS bk \<and>
    abs_book bk = Lset EMPTY_BOOK False 100500 [(1, 100)]"
proof -
  have e: "spec_match MAX_TICKS 100500 100 False EMPTY_BOOK = (100, EMPTY_BOOK)"
    by (rule spec_match_stop) (simp add: EMPTY_BOOK_def)
  have "admissible_run MAX_TICKS MAX_ORDERS EMPTY_BOOK [AddOrder 1 100500 100 False]"
    by (simp add: MAX_TICKS_def MAX_ORDERS_def match_ends_def)
  moreover have "spec_run MAX_TICKS [AddOrder 1 100500 100 False] EMPTY_BOOK = Lset EMPTY_BOOK False 100500 [(1, 100)]"
    by (simp add: spec_run_def spec_add_def e) (simp add: EMPTY_BOOK_def)
  ultimately show ?thesis using run_commands_law by fastforce
qed

lemma live_one_ask: "live_ids (Lset EMPTY_BOOK b p [(i, n)]) = {i}"
  by (force simp: live_ids_def EMPTY_BOOK_def Lset_apply)

lemma add_order_correct_witness:
  "\<exists>bk bk'. run_commands [AddOrder 1 100500 100 False] OrderBook_init = ret bk \<and>
    add_order 2 100600 250 True bk = ret bk' \<and> book_inv MAX_TICKS MAX_ORDERS bk' \<and>
    abs_book bk' = spec_add MAX_TICKS 2 100600 250 True (Lset EMPTY_BOOK False 100500 [(1, 100)])"
proof -
  obtain bk where bk: "run_commands [AddOrder 1 100500 100 False] OrderBook_init = ret bk" "book_inv MAX_TICKS MAX_ORDERS bk"
    "abs_book bk = Lset EMPTY_BOOK False 100500 [(1, 100)]" using one_ask_book by blast
  then show ?thesis
    using add_order_correct [OF bk(2), of 2 100600 250 True] by (simp add: live_one_ask MAX_TICKS_def MAX_ORDERS_def)
qed

text \<open>C9. Matching conserves quantity: \<open>match_order\<close> returns, what it reports as remaining plus what left the opposite side
  is the quantity it was given, the order's own side is untouched, and a positive remainder means that nothing on
  the opposite side still crosses the limit price.\<close>

theorem match_order_conserves:
  assumes "book_inv T N bk" "unat p < T" "buy \<or> p \<noteq> 0 \<or> unat qty \<le> side_total T (abs_book bk True)"
  shows "\<exists>r bk'. match_order p qty buy bk = ret (r, bk') \<and> book_inv T N bk' \<and>
    unat qty + side_total T (abs_book bk' (\<not> buy)) = unat r + side_total T (abs_book bk (\<not> buy)) \<and>
    abs_book bk' buy = abs_book bk buy \<and>
    (r \<noteq> 0 \<longrightarrow> (\<forall>x. abs_book bk' (\<not> buy) x \<noteq> [] \<longrightarrow> (if buy then unat p < x else x < unat p)))"
proof -
  have "match_ends T p qty buy (abs_book bk)" using assms(3) by (simp add: match_ends_def)
  then obtain r bk' where m: "match_order p qty buy bk = ret (r, bk')" "book_inv T N bk'"
    "spec_match T (unat p) (unat qty) buy (abs_book bk) = (unat r, abs_book bk')" "r \<noteq> 0 \<longrightarrow> \<not> crosses buy p bk'"
    using match_order_book [OF assms(1,2)] by blast
  have "unat qty + side_total T (abs_book bk' (\<not> buy)) = unat r + side_total T (abs_book bk (\<not> buy))"
    using spec_match_conserves [OF assms(2), of "unat qty" buy "abs_book bk"] m(3) by simp
  moreover have "abs_book bk' buy = abs_book bk buy"
    using arg_cong [OF m(3), of "\<lambda>x. snd x buy"] by (simp add: spec_match_own_side)
  ultimately show ?thesis
    using m not_crosses_apart [OF book_invD(2) [OF m(2)]] book_invD(4) [OF m(2)] labs_empty_iff by metis
qed

lemma match_order_conserves_witness:
  "\<exists>bk r bk'. run_commands [AddOrder 1 100500 100 False] OrderBook_init = ret bk \<and>
    match_order 100600 250 True bk = ret (r, bk') \<and>
    250 + side_total MAX_TICKS (abs_book bk' False) = unat r + side_total MAX_TICKS (abs_book bk False)"
proof -
  obtain bk where bk: "run_commands [AddOrder 1 100500 100 False] OrderBook_init = ret bk" "book_inv MAX_TICKS MAX_ORDERS bk"
    using one_ask_book by blast
  then show ?thesis using match_order_conserves [OF bk(2), of 100600 True 250] by (auto simp: MAX_TICKS_def)
qed

text \<open>C10. \<open>cancel_order\<close> returns for every identifier below \<open>MAX_ORDERS\<close>, live or not; it removes exactly the order with that
  identifier, keeps all others in their places, keeps the invariant, and the identifier is free afterwards.\<close>

theorem cancel_order_correct:
  assumes "book_inv T N bk" "unat i < N"
  shows "\<exists>bk'. cancel_order i bk = ret bk' \<and> book_inv T N bk' \<and>
    (\<forall>b p. abs_book bk' b p = filter (\<lambda>(j, n). j \<noteq> i) (abs_book bk b p)) \<and> i \<notin> live_ids (abs_book bk')"
  using cancel_order_book [OF assms] by (force simp: spec_cancel_def live_ids_def)

lemma cancel_order_correct_witness:
  "\<exists>bk bk'. run_commands [AddOrder 1 100500 100 False] OrderBook_init = ret bk \<and> cancel_order 1 bk = ret bk' \<and>
    abs_book bk' = EMPTY_BOOK"
proof -
  obtain bk where bk: "run_commands [AddOrder 1 100500 100 False] OrderBook_init = ret bk" "book_inv MAX_TICKS MAX_ORDERS bk"
    "abs_book bk = Lset EMPTY_BOOK False 100500 [(1, 100)]" using one_ask_book by blast
  obtain bk' where "cancel_order 1 bk = ret bk'" "\<And>b p. abs_book bk' b p = filter (\<lambda>(j, n). j \<noteq> 1) (abs_book bk b p)"
    using cancel_order_correct [OF bk(2), of 1] by (auto simp: MAX_ORDERS_def)
  then have "cancel_order 1 bk = ret bk'" "abs_book bk' = EMPTY_BOOK"
    by (auto simp: bk(3) EMPTY_BOOK_def Lset_apply fun_eq_iff)
  then show ?thesis using bk(1) by blast
qed

text \<open>C11. \<open>modify_order\<close> of a live order: lowering the quantity at the same price changes it in place, so the order keeps its
  position in the queue and every other order keeps its own; quantity 0 cancels; a new price or a greater quantity
  cancels and adds again, which may trade and loses the position.\<close>

theorem modify_order_correct:
  assumes "book_inv T N bk" "(i, n) \<in> set (abs_book bk b p)" "unat p' < T" "unat n' < 2 ^ 31"
    and "b \<or> p' \<noteq> 0 \<or> unat n' \<le> side_total T (spec_cancel i (abs_book bk) True)"
  shows "\<exists>bk'. modify_order i p' n' bk = ret bk' \<and> book_inv T N bk' \<and>
    abs_book bk' =
      (if unat p' \<noteq> p \<or> n < unat n' then spec_add T i (unat p') (unat n') b (spec_cancel i (abs_book bk))
       else if n' = 0 then spec_cancel i (abs_book bk)
       else Lset (abs_book bk) b p (map (\<lambda>(j, k). if j = i then (j, unat n') else (j, k)) (abs_book bk b p)))"
proof -
  have "match_ends T p' n' b (spec_cancel i (abs_book bk))" using assms(5) by (simp add: match_ends_def)
  from modify_order_book [OF assms(1-4) this] show ?thesis unfolding spec_modify_def by (simp only: unat_eq_0)
qed

lemma modify_order_correct_witness:
  "\<exists>bk bk'. run_commands [AddOrder 1 100500 100 False] OrderBook_init = ret bk \<and> modify_order 1 100500 40 bk = ret bk' \<and>
    abs_book bk' = Lset EMPTY_BOOK False 100500 [(1, 40)]"
proof -
  obtain bk where bk: "run_commands [AddOrder 1 100500 100 False] OrderBook_init = ret bk" "book_inv MAX_TICKS MAX_ORDERS bk"
    "abs_book bk = Lset EMPTY_BOOK False 100500 [(1, 100)]" using one_ask_book by blast
  have "(1, 100) \<in> set (abs_book bk False 100500)" by (simp add: bk(3))
  from modify_order_correct [OF bk(2) this, of 100500 40] bk show ?thesis
    by (auto simp: MAX_TICKS_def)
qed

end
