(* ===== verification/MatchingEngine.thy ===== *)
theory MatchingEngine
  imports OrderBookInterface Protocol SPSCQueue
begin

text \<open>
  The matching engine of \<^verbatim>\<open>src/main.cpp\<close> (\<open>run_matching_engine\<close>): taking packets off the
  ring, dispatching them to the order book, recording latencies in a bounded array and computing
  the report when the loop is told to stop. Time-stamp reads are arguments; printing and the
  conversion of cycles to nanoseconds are left out.
\<close>

section \<open>Dispatch\<close>

text \<open>The switch on the message type, which \<^verbatim>\<open>benchmarks/bench_worker.cpp\<close> repeats as \<open>dispatch\<close>.\<close>

definition dispatch :: "PacketPayload \<Rightarrow> OrderBook \<Rightarrow> OrderBook comp" where
  "dispatch packet book =
     (let t = message_type (header packet) in
      if t = char_of_ascii CHR ''A'' then
        add_order (add_order_id (add_msg packet)) (add_price (add_msg packet)) (add_quantity (add_msg packet))
          (add_is_buy (add_msg packet) = char_of_ascii CHR ''B'') book
      else if t = char_of_ascii CHR ''X'' then cancel_order (cancel_order_id (cancel_msg packet)) book
      else if t = char_of_ascii CHR ''M'' then
        modify_order (modify_order_id (modify_msg packet)) (modify_new_price (modify_msg packet))
          (modify_new_quantity (modify_msg packet)) book
      else ret book)"

fun dispatch_all :: "PacketPayload list \<Rightarrow> OrderBook \<Rightarrow> OrderBook comp" where
  "dispatch_all [] book = ret book"
| "dispatch_all (p # ps) book = seqc (dispatch p book) (dispatch_all ps)"

text \<open>The command a packet stands for; a packet of another type stands for none.\<close>

definition packet_command :: "PacketPayload \<Rightarrow> book_command list" where
  "packet_command packet =
     (let t = message_type (header packet) in
      if t = char_of_ascii CHR ''A'' then
        [AddOrder (add_order_id (add_msg packet)) (add_price (add_msg packet)) (add_quantity (add_msg packet))
          (add_is_buy (add_msg packet) = char_of_ascii CHR ''B'')]
      else if t = char_of_ascii CHR ''X'' then [CancelOrder (cancel_order_id (cancel_msg packet))]
      else if t = char_of_ascii CHR ''M'' then
        [ModifyOrder (modify_order_id (modify_msg packet)) (modify_new_price (modify_msg packet))
          (modify_new_quantity (modify_msg packet))]
      else [])"

section \<open>The polling loop\<close>

definition MAX_SAMPLES :: nat where
  "MAX_SAMPLES = 1000000"

record Engine =
  equeue :: "PacketPayload SPSCQueue"
  ebook :: OrderBook
  messages_processed :: u64
  cycle_deltas :: "u64 vector"
  sample_count :: nat
  idle_polls :: u64
  pauses :: nat

definition Engine_start :: "PacketPayload SPSCQueue \<Rightarrow> OrderBook \<Rightarrow> Engine" where
  "Engine_start q bk = \<lparr>equeue = q, ebook = bk, messages_processed = 0,
     cycle_deltas = vreplicate MAX_SAMPLES 0, sample_count = 0, idle_polls = 0, pauses = 0\<rparr>"

text \<open>\<open>if (sample_count < MAX_SAMPLES) cycle_deltas[sample_count++] = egress_tsc - packet.ingress_tsc;\<close>\<close>

definition record_sample :: "u64 \<Rightarrow> PacketPayload \<Rightarrow> Engine \<Rightarrow> Engine comp" where
  "record_sample egress_tsc packet e =
     (if sample_count e < MAX_SAMPLES then
        seqc (vset (cycle_deltas e) (sample_count e) (egress_tsc - ingress_tsc packet)) (\<lambda>v.
        ret (e\<lparr>cycle_deltas := v, sample_count := sample_count e + 1\<rparr>))
      else ret e)"

text \<open>The body of the loop; \<open>egress_tsc\<close> is what \<open>__rdtsc\<close> returns in this iteration.\<close>

definition poll :: "u64 \<Rightarrow> Engine \<Rightarrow> Engine comp" where
  "poll egress_tsc e =
     seqc (pop (equeue e)) (\<lambda>(r, q).
     let e = e\<lparr>equeue := q\<rparr> in
     case r of
       Some packet \<Rightarrow>
         let e = e\<lparr>idle_polls := 0\<rparr> in
         seqc (dispatch packet (ebook e)) (\<lambda>bk.
         seqc (record_sample egress_tsc packet (e\<lparr>ebook := bk\<rparr>)) (\<lambda>e.
         ret (e\<lparr>messages_processed := messages_processed e + 1\<rparr>)))
     | None \<Rightarrow>
         let e = e\<lparr>idle_polls := idle_polls e + 1\<rparr> in
         ret (if idle_polls e > 64 then e\<lparr>pauses := pauses e + 1\<rparr> else e))"

text \<open>One entry of the list per iteration for which \<open>running\<close> was still set.\<close>

fun engine_loop :: "u64 list \<Rightarrow> Engine \<Rightarrow> Engine comp" where
  "engine_loop [] e = ret e"
| "engine_loop (t # ts) e = seqc (poll t e) (engine_loop ts)"

section \<open>The latency report\<close>

text \<open>
  \<open>sample_count * 0.99\<close> in double precision: the literal is \<open>8917127262193582 / 2 ^ 53\<close>, the product
  is rounded to 53 significant bits, to nearest, ties to even; the cast truncates. Values below are
  numerators over \<open>2 ^ 53\<close>.
\<close>

fun bit_length :: "nat \<Rightarrow> nat" where
  "bit_length n = (if n = 0 then 0 else Suc (bit_length (n div 2)))"

declare bit_length.simps [simp del]

definition round_half_even :: "nat \<Rightarrow> nat \<Rightarrow> nat" where
  "round_half_even s a =
     (let q = a div 2 ^ s; r = a mod 2 ^ s in
      if 2 * r < 2 ^ s \<or> (2 * r = 2 ^ s \<and> even q) then q * 2 ^ s else (q + 1) * 2 ^ s)"

definition double_round :: "nat \<Rightarrow> nat" where
  "double_round a = round_half_even (bit_length a - 53) a"

definition p99_index :: "nat \<Rightarrow> nat" where
  "p99_index n = double_round (n * 8917127262193582) div 2 ^ 53"

record LatencyReport =
  median_cycles :: u64
  p99_cycles :: u64
  max_cycles :: u64

definition sort_prefix :: "nat \<Rightarrow> u64 vector \<Rightarrow> u64 vector" where
  "sort_prefix n v =
     (let xs = sort (map (vat v) [0..<n]) in Vector (vsize v) (\<lambda>i. if i < n then xs ! i else vat v i))"

definition latency_report :: "Engine \<Rightarrow> LatencyReport option comp" where
  "latency_report e =
     (let n = sample_count e in
      if n > 0 then
        let v = sort_prefix n (cycle_deltas e) in
        seqc (vget v (n div 2)) (\<lambda>median.
        seqc (vget v (p99_index n)) (\<lambda>p99.
        seqc (vget v (n - 1)) (\<lambda>mx.
        ret (Some \<lparr>median_cycles = median, p99_cycles = p99, max_cycles = mx\<rparr>))))
      else ret None)"

definition run_matching_engine ::
  "u64 list \<Rightarrow> PacketPayload SPSCQueue \<Rightarrow> OrderBook \<Rightarrow> (Engine \<times> LatencyReport option) comp" where
  "run_matching_engine ts q bk =
     seqc (engine_loop ts (Engine_start q bk)) (\<lambda>e.
     seqc (latency_report e) (\<lambda>r. ret (e, r)))"

section \<open>Dispatch as commands\<close>

lemma ascii_distinct [simp]:
  "char_of_ascii CHR ''A'' \<noteq> char_of_ascii CHR ''X''" "char_of_ascii CHR ''A'' \<noteq> char_of_ascii CHR ''M''"
  "char_of_ascii CHR ''X'' \<noteq> char_of_ascii CHR ''A''" "char_of_ascii CHR ''X'' \<noteq> char_of_ascii CHR ''M''"
  "char_of_ascii CHR ''M'' \<noteq> char_of_ascii CHR ''A''" "char_of_ascii CHR ''M'' \<noteq> char_of_ascii CHR ''X''"
  "char_of_ascii CHR ''B'' \<noteq> char_of_ascii CHR ''S''" "char_of_ascii CHR ''S'' \<noteq> char_of_ascii CHR ''B''"
  by (simp_all add: char_of_ascii_def)

lemma dispatch_commands: "dispatch p bk = book.exec_all (packet_command p) bk"
  by (simp add: dispatch_def packet_command_def Let_def)

lemma dispatch_all_commands: "dispatch_all ps bk = book.exec_all (concat (map packet_command ps)) bk"
proof (induction ps arbitrary: bk)
  case (Cons p ps)
  then have "dispatch_all ps = book.exec_all (concat (map packet_command ps))" by blast
  then show ?case by (simp add: dispatch_commands book.exec_all_append)
qed simp

lemma packet_command_created:
  "body pk = create_add_order i p q s \<Longrightarrow> packet_command pk = [AddOrder i p q (s = char_of_ascii CHR ''B'')]"
  "body pk = create_cancel_order i \<Longrightarrow> packet_command pk = [CancelOrder i]"
  "body pk = create_modify_order i p q \<Longrightarrow> packet_command pk = [ModifyOrder i p q]"
proof -
  have h: "header pk = add_header (add_msg pk)" "header pk = cancel_header (cancel_msg pk)" "header pk = modify_header (modify_msg pk)"
    by (simp_all add: add_msg_def cancel_msg_def modify_msg_def)
  show "packet_command pk = [AddOrder i p q (s = char_of_ascii CHR ''B'')]" if "body pk = create_add_order i p q s"
    using add_roundtrip [OF that] h(1) by (simp add: packet_command_def)
  show "packet_command pk = [CancelOrder i]" if "body pk = create_cancel_order i"
    using cancel_roundtrip [OF that] h(2) by (simp add: packet_command_def)
  show "packet_command pk = [ModifyOrder i p q]" if "body pk = create_modify_order i p q"
    using modify_roundtrip [OF that] h(3) by (simp add: packet_command_def)
qed

section \<open>The loop\<close>

definition engine_ok :: "Engine \<Rightarrow> bool" where
  "engine_ok e \<longleftrightarrow> q_inv (equeue e) \<and> vsize (cycle_deltas e) = MAX_SAMPLES \<and> sample_count e \<le> MAX_SAMPLES"

definition samples :: "Engine \<Rightarrow> u64 list" where
  "samples e = map (vat (cycle_deltas e)) [0..<sample_count e]"

lemma length_samples [simp]: "length (samples e) = sample_count e"
  by (simp add: samples_def)

lemma map_vupd_snoc: "map (vat (vupd v n x)) [0..<Suc n] = map (vat v) [0..<n] @ [x]"
  by simp

lemma take_take_append: "take n (take n xs @ ys) = take n (xs @ ys)"
  by (simp add: min_def)

lemma record_sample_law:
  assumes "vsize (cycle_deltas e) = MAX_SAMPLES" "sample_count e \<le> MAX_SAMPLES"
  shows "\<exists>v n. record_sample t p e = ret (e\<lparr>cycle_deltas := v, sample_count := n\<rparr>) \<and>
    vsize v = MAX_SAMPLES \<and> n \<le> MAX_SAMPLES \<and>
    map (vat v) [0..<n] = take MAX_SAMPLES (samples e @ [t - ingress_tsc p])"
proof (cases "sample_count e < MAX_SAMPLES")
  case True
  then show ?thesis
    using assms
    by (intro exI [of _ "vupd (cycle_deltas e) (sample_count e) (t - ingress_tsc p)"] exI [of _ "Suc (sample_count e)"])
      (simp add: record_sample_def samples_def map_vupd_snoc del: upt_Suc)
next
  case False
  then show ?thesis
    using assms
    by (intro exI [of _ "cycle_deltas e"] exI [of _ "sample_count e"])
      (simp add: record_sample_def samples_def)
qed

lemma poll_idle:
  assumes "engine_ok e" "q_contents (equeue e) = []"
  shows "\<exists>e'. poll t e = ret e' \<and> engine_ok e' \<and> q_contents (equeue e') = [] \<and> ebook e' = ebook e \<and>
    messages_processed e' = messages_processed e \<and> samples e' = samples e \<and>
    idle_polls e' = idle_polls e + 1"
proof -
  obtain q' where "pop (equeue e) = ret (None, q')" "q_inv q'" "q_contents q' = []"
    using spsc.deq_empty [of "equeue e"] assms by (auto simp: engine_ok_def)
  then show ?thesis using assms by (simp add: poll_def engine_ok_def samples_def Let_def)
qed

lemma poll_packet:
  assumes "engine_ok e" "q_contents (equeue e) = p # ps" "dispatch p (ebook e) = ret bk"
  shows "\<exists>e'. poll t e = ret e' \<and> engine_ok e' \<and> q_contents (equeue e') = ps \<and> ebook e' = bk \<and>
    messages_processed e' = messages_processed e + 1 \<and>
    samples e' = take MAX_SAMPLES (samples e @ [t - ingress_tsc p]) \<and> idle_polls e' = 0"
proof -
  obtain q' where q': "pop (equeue e) = ret (Some p, q')" "q_inv q'" "q_contents q' = ps"
    using spsc.deq_some [of "equeue e" p ps] assms by (auto simp: engine_ok_def)
  let ?e = "e\<lparr>equeue := q', idle_polls := 0, ebook := bk\<rparr>"
  obtain v n where "record_sample t p ?e = ret (?e\<lparr>cycle_deltas := v, sample_count := n\<rparr>)"
    "vsize v = MAX_SAMPLES" "n \<le> MAX_SAMPLES"
    "map (vat v) [0..<n] = take MAX_SAMPLES (samples e @ [t - ingress_tsc p])"
    using record_sample_law [of ?e t p] assms(1) by (auto simp: engine_ok_def samples_def)
  then show ?thesis using q' assms(3) by (simp add: poll_def Let_def engine_ok_def samples_def)
qed

lemma poll_stuck: "\<lbrakk>engine_ok e; q_contents (equeue e) = p # ps; dispatch p (ebook e) = None\<rbrakk> \<Longrightarrow> poll t e = None"
  using spsc.deq_some [of "equeue e" p ps] by (force simp: poll_def engine_ok_def Let_def)

lemma engine_loop_law:
  assumes "engine_ok e" "dispatch_all (take (length ts) (q_contents (equeue e))) (ebook e) = ret bk"
  shows "\<exists>e'. engine_loop ts e = ret e' \<and> engine_ok e' \<and> ebook e' = bk \<and>
    q_contents (equeue e') = drop (length ts) (q_contents (equeue e)) \<and>
    messages_processed e' = messages_processed e + of_nat (min (length ts) (length (q_contents (equeue e)))) \<and>
    samples e' = take MAX_SAMPLES (samples e @ map2 (\<lambda>t p. t - ingress_tsc p) ts (q_contents (equeue e)))"
  using assms
proof (induction ts arbitrary: e)
  case Nil
  then show ?case by (auto simp: engine_ok_def)
next
  case (Cons t ts)
  show ?case
  proof (cases "q_contents (equeue e)")
    case Nil
    obtain e1 where e1: "poll t e = ret e1" "engine_ok e1" "q_contents (equeue e1) = []" "ebook e1 = ebook e"
      "messages_processed e1 = messages_processed e" "samples e1 = samples e"
      using poll_idle [OF Cons.prems(1) Nil] by blast
    then show ?thesis using Cons.IH [of e1] Cons.prems(2) Nil by (simp del: length_q_contents)
  next
    case (Cons p ps)
    obtain bk1 where bk1: "dispatch p (ebook e) = ret bk1" "dispatch_all (take (length ts) ps) bk1 = ret bk"
      using Cons.prems(2) Cons by (auto simp: seqc_eq_ret_iff)
    obtain e1 where e1: "poll t e = ret e1" "engine_ok e1" "q_contents (equeue e1) = ps" "ebook e1 = bk1"
      "messages_processed e1 = messages_processed e + 1"
      "samples e1 = take MAX_SAMPLES (samples e @ [t - ingress_tsc p])"
      using poll_packet [OF Cons.prems(1) Cons bk1(1)] by blast
    obtain e' where "engine_loop ts e1 = ret e'" "engine_ok e'" "ebook e' = bk" "q_contents (equeue e') = drop (length ts) ps"
      "messages_processed e' = messages_processed e1 + of_nat (min (length ts) (length ps))"
      "samples e' = take MAX_SAMPLES (samples e1 @ map2 (\<lambda>t p. t - ingress_tsc p) ts ps)"
      using Cons.IH [OF e1(2)] bk1(2) e1(3,4) by auto
    moreover have "take MAX_SAMPLES (samples e1 @ map2 (\<lambda>t p. t - ingress_tsc p) ts ps) =
        take MAX_SAMPLES (samples e @ map2 (\<lambda>t p. t - ingress_tsc p) (t # ts) (p # ps))"
      unfolding e1(6) take_take_append by simp
    ultimately show ?thesis using e1(1,5) Cons by (simp del: length_q_contents take_append)
  qed
qed

section \<open>The report\<close>

lemma bit_length_bounds: "0 < n \<Longrightarrow> 2 ^ (bit_length n - 1) \<le> n \<and> n < 2 ^ bit_length n"
proof (induction n rule: bit_length.induct)
  case (1 n)
  show ?case
  proof (cases "n div 2 = 0")
    case True
    then have "n = 1" using 1(2) by simp
    then show ?thesis by (simp add: bit_length.simps)
  next
    case False
    then have IH: "2 ^ (bit_length (n div 2) - 1) \<le> n div 2" "n div 2 < 2 ^ bit_length (n div 2)"
      using 1 by auto
    have l: "bit_length n = Suc (bit_length (n div 2))" using 1(2) by (subst bit_length.simps) simp
    have "bit_length (n div 2) \<noteq> 0" using False by (subst bit_length.simps) simp
    then obtain k where "bit_length (n div 2) = Suc k" using not0_implies_Suc by blast
    then show ?thesis using IH l by auto
  qed
qed

lemma round_half_even_near:
  "2 * round_half_even s a \<le> 2 * a + 2 ^ s" "2 * a \<le> 2 * round_half_even s a + 2 ^ s"
proof -
  have a: "a = a div 2 ^ s * 2 ^ s + a mod 2 ^ s" by (rule div_mult_mod_eq [symmetric])
  have r: "a mod 2 ^ s < 2 ^ s" by simp
  define q where "q = a div 2 ^ s"
  have "round_half_even s a = q * 2 ^ s \<and> 2 * (a mod 2 ^ s) \<le> 2 ^ s \<or>
      round_half_even s a = q * 2 ^ s + 2 ^ s \<and> 2 ^ s \<le> 2 * (a mod 2 ^ s)"
    by (auto simp: round_half_even_def Let_def q_def)
  then show "2 * round_half_even s a \<le> 2 * a + 2 ^ s" "2 * a \<le> 2 * round_half_even s a + 2 ^ s"
    using a r unfolding q_def [symmetric] by linarith+
qed

lemma round_half_even_up:
  assumes "a + d = K * 2 ^ s" "2 * d < 2 ^ s"
  shows "round_half_even s a = K * 2 ^ s"
proof (cases "d = 0")
  case True
  then show ?thesis using assms by (simp add: round_half_even_def Let_def)
next
  case False
  have d: "d < 2 ^ s" using assms(2) by simp
  then have "0 < K" using assms(1) False by (cases K) auto
  then obtain J where K: "K = Suc J" by (cases K) auto
  have a: "a = J * 2 ^ s + (2 ^ s - d)" using assms(1) K d by simp
  have lt: "2 ^ s - d < 2 ^ s" using False by simp
  have "a div 2 ^ s = J" "a mod 2 ^ s = 2 ^ s - d"
    unfolding a using lt by (simp_all add: div_mult_self3 mod_mult_self3)
  moreover have "2 ^ s < 2 * (2 ^ s - d)" using assms(2) by simp
  ultimately show ?thesis using K by (simp add: round_half_even_def Let_def)
qed

lemma p99_index_eq:
  assumes n: "0 < n" "n \<le> MAX_SAMPLES"
  shows "p99_index n = 99 * n div 100"
proof -
  define a where "a = n * 8917127262193582"
  define s where "s = bit_length a - 53"
  define k r where "k = 99 * n div 100" and "r = 99 * n mod 100"
  have kr: "99 * n = 100 * k + r" "r < 100" by (simp_all add: k_def r_def)
  have n6: "n \<le> 1000000" using n by (simp add: MAX_SAMPLES_def)
  have a100: "100 * a + 8 * n = 99 * n * 2 ^ 53" by (simp add: a_def)
  have bl: "2 ^ (bit_length a - 1) \<le> a" "a < 2 ^ bit_length a"
    using bit_length_bounds [of a] n by (simp_all add: a_def)
  have hi: "2 ^ s \<le> 2 * n"
  proof (cases "s = 0")
    case False
    then have "bit_length a - 1 = s + 52" by (simp add: s_def)
    then have "2 ^ s * 2 ^ 52 \<le> a" using bl(1) by (simp add: power_add)
    then show ?thesis by (simp add: a_def)
  qed (use n in simp)
  have "a < 2 ^ (s + 53)"
    using bl(2) by (rule less_le_trans) (auto simp: s_def intro: power_increasing)
  then have lo: "9 * n < 10 * 2 ^ s" by (simp add: a_def power_add)
  let ?R = "round_half_even s a"
  have "?R < (k + 1) * 2 ^ 53"
    using round_half_even_near(1) [of s a] a100 hi kr n6 by simp
  moreover have "k * 2 ^ 53 \<le> ?R"
  proof (cases "r = 0")
    case False
    then show ?thesis using round_half_even_near(2) [of a s] a100 hi kr n6 by simp
  next
    case True
    have "s \<le> 53"
    proof (rule ccontr)
      assume "\<not> s \<le> 53"
      then have "(2::nat) ^ 53 \<le> 2 ^ s" by (intro power_increasing) auto
      then show False using hi n6 by simp
    qed
    then have p: "(2::nat) ^ 53 = 2 ^ (53 - s) * 2 ^ s" by (simp flip: power_add)
    obtain d where d: "a + d = k * 2 ^ 53" "100 * d = 8 * n"
    proof -
      have "a \<le> k * 2 ^ 53" using a100 kr True by simp
      then obtain d where "k * 2 ^ 53 = a + d" using le_Suc_ex by blast
      then show thesis using a100 kr True by (intro that [of d]) simp_all
    qed
    have "a + d = (k * 2 ^ (53 - s)) * 2 ^ s" using d(1) p by simp
    moreover have "2 * d < 2 ^ s" using d(2) lo by linarith
    ultimately have "?R = (k * 2 ^ (53 - s)) * 2 ^ s" by (rule round_half_even_up)
    then show ?thesis using p by simp
  qed
  ultimately have "?R div 2 ^ 53 = k" by (intro div_nat_eqI) (simp_all add: mult.commute)
  then show ?thesis by (simp add: p99_index_def double_round_def a_def s_def k_def)
qed

lemma Max_sorted: "sorted xs \<Longrightarrow> xs \<noteq> [] \<Longrightarrow> Max (set xs) = last (xs :: 'a::linorder list)"
  by (intro Max_eqI last_in_set) (auto simp: in_set_conv_nth last_conv_nth intro: sorted_nth_mono)

lemma latency_report_law:
  assumes "engine_ok e" "0 < sample_count e"
  shows "latency_report e = ret (Some
    \<lparr>median_cycles = sort (samples e) ! (sample_count e div 2),
     p99_cycles = sort (samples e) ! (99 * sample_count e div 100),
     max_cycles = Max (set (samples e))\<rparr>)"
proof -
  let ?n = "sample_count e" and ?xs = "sort (samples e)"
  have n: "?n \<le> MAX_SAMPLES" "vsize (cycle_deltas e) = MAX_SAMPLES" using assms(1) by (simp_all add: engine_ok_def)
  have get: "vget (sort_prefix ?n (cycle_deltas e)) i = ret (?xs ! i)" if "i < ?n" for i
    using that n by (simp add: sort_prefix_def samples_def)
  have "?xs \<noteq> []" using assms(2) by (metis length_0_conv length_samples length_sort less_numeral_extra(3))
  then have "Max (set ?xs) = last ?xs" by (intro Max_sorted) simp_all
  then have mx: "Max (set (samples e)) = ?xs ! (?n - 1)" using \<open>?xs \<noteq> []\<close> by (simp add: last_conv_nth)
  have "99 * ?n div 100 < ?n" using assms(2) by (simp add: div_less_iff_less_mult)
  then show ?thesis
    using get [of "?n div 2"] get [of "99 * ?n div 100"] get [of "?n - 1"] assms(2) p99_index_eq [OF assms(2) n(1)]
    by (simp add: latency_report_def Let_def mx)
qed

section \<open>Properties\<close>

text \<open>The polling loop: as long as the order book can process the packets at hand, \<open>n\<close> iterations take the first
  \<open>n\<close> queued packets in order, dispatch each exactly once, leave the rest queued, count what was processed
  and keep the first million latencies, never writing past the sample array.\<close>

theorem engine_processes_in_order:
  assumes "engine_ok e" "dispatch_all (take (length ts) (q_contents (equeue e))) (ebook e) = ret bk"
  shows "\<exists>e'. engine_loop ts e = ret e' \<and> engine_ok e' \<and> ebook e' = bk \<and>
    q_contents (equeue e') = drop (length ts) (q_contents (equeue e)) \<and>
    messages_processed e' = messages_processed e + of_nat (min (length ts) (length (q_contents (equeue e)))) \<and>
    samples e' = take MAX_SAMPLES (samples e @ map2 (\<lambda>t p. t - ingress_tsc p) ts (q_contents (equeue e)))"
  using assms by (rule engine_loop_law)

lemma engine_start_ok: "has_single_bit cap \<Longrightarrow> engine_ok (Engine_start (SPSCQueue_new cap) bk)"
  using SPSCQueue_new_inv(1) [of cap] by (simp add: engine_ok_def Engine_start_def)

lemma single_bit_ring: "has_single_bit 1048576"
  unfolding has_single_bit_def by (intro exI [of _ 20]) simp

lemma engine_processes_in_order_witness:
  "\<exists>q e'. push \<lparr>ingress_tsc = 3, body = replicate 56 0\<rparr> (SPSCQueue_new 1048576) = ret (True, q) \<and>
    engine_loop [5, 6] (Engine_start q OrderBook_init) = ret e' \<and> ebook e' = OrderBook_init \<and>
    messages_processed e' = 1 \<and> samples e' = [2]"
proof -
  let ?p = "\<lparr>ingress_tsc = 3, body = replicate 56 0\<rparr>"
  note new = SPSCQueue_new_inv [OF single_bit_ring]
  obtain q where q: "push ?p (SPSCQueue_new 1048576) = ret (True, q)" "q_inv q" "q_contents q = [?p]"
  proof -
    have "length (q_contents (SPSCQueue_new 1048576)) < unat (capacity (SPSCQueue_new 1048576))"
      unfolding new(2) by (simp add: SPSCQueue_new_def)
    from spsc.enq_room [OF new(1) this, of ?p] show thesis using that new(2) by auto
  qed
  let ?e = "Engine_start q OrderBook_init"
  have ok: "engine_ok ?e" using q(2) by (simp add: engine_ok_def Engine_start_def)
  have "dispatch ?p OrderBook_init = ret OrderBook_init"
    by (simp add: dispatch_def header_def field_def char_of_ascii_def)
  then have d: "dispatch_all (take (length [5, 6 :: u64]) (q_contents (equeue ?e))) (ebook ?e) = ret OrderBook_init"
    using q(3) by (simp add: Engine_start_def)
  show ?thesis
    using engine_processes_in_order [OF ok d] q by (auto simp: Engine_start_def samples_def MAX_SAMPLES_def)
qed

text \<open>C13. The latency report reads inside the recorded samples and reports what it names: with at least one sample it
  returns the element of rank \<open>n div 2\<close> of the sorted samples, the element of rank \<open>99 n div 100\<close> (the double-precision
  product \<open>n * 0.99\<close>, truncated, is exactly that rank for every possible count), and the maximum.\<close>

theorem latency_report_correct:
  assumes "engine_ok e" "0 < sample_count e"
  shows "latency_report e = ret (Some
    \<lparr>median_cycles = sort (samples e) ! (sample_count e div 2),
     p99_cycles = sort (samples e) ! (99 * sample_count e div 100),
     max_cycles = Max (set (samples e))\<rparr>)"
  using assms by (rule latency_report_law)

definition sampled_engine :: Engine where
  "sampled_engine = (Engine_start (SPSCQueue_new 1048576) OrderBook_init)
     \<lparr>cycle_deltas := Vector MAX_SAMPLES (\<lambda>i. if i = 0 then 30 else if i = 1 then 10 else 20), sample_count := 3\<rparr>"

lemma latency_report_correct_witness:
  "latency_report sampled_engine = ret (Some \<lparr>median_cycles = 20, p99_cycles = 30, max_cycles = 30\<rparr>)"
proof -
  have ok: "engine_ok sampled_engine" "0 < sample_count sampled_engine"
    using engine_start_ok [OF single_bit_ring, of OrderBook_init]
    by (simp_all add: sampled_engine_def engine_ok_def MAX_SAMPLES_def)
  have s: "samples sampled_engine = [30, 10, 20]"
    by (simp add: samples_def sampled_engine_def upt_rec)
  show ?thesis using latency_report_correct [OF ok] unfolding s
    by (simp add: sampled_engine_def)
qed

end
