(* ===== verification/MarketSystem.thy ===== *)
theory MarketSystem
  imports SPSCConcurrent FeedHandler MatchingEngine "HOL-Library.Sublist"
begin

text \<open>
  The two threads of \<^verbatim>\<open>src/main.cpp\<close> together: the network thread runs the completion handler of
  the feed handler, the worker thread polls the ring and dispatches to the order book; both use the
  ring at the granularity of \<open>SPSCConcurrent\<close>, so every interleaving of their shared-memory
  accesses is covered. \<open>running\<close> is the atomic flag that the signal handler clears; the worker
  looks at it before each poll.
\<close>

record market =
  mring :: "PacketPayload conc"
  mbuffer :: PacketPayload
  mdropped :: u64
  merrors :: "string list"
  mbook :: OrderBook
  mrunning :: bool
  moffered :: "PacketPayload list"   \<comment> \<open>ghost: the packets handed to \<open>push\<close>\<close>
  mrefused :: nat                    \<comment> \<open>ghost: how many of them \<open>push\<close> refused\<close>

definition RING_CAPACITY :: u64 where
  "RING_CAPACITY = 1048576"

definition market_init :: "PacketPayload \<Rightarrow> market" where
  "market_init buf = \<lparr>mring = conc_init RING_CAPACITY, mbuffer = buf, mdropped = 0, merrors = [],
     mbook = OrderBook_init, mrunning = True, moffered = [], mrefused = 0\<rparr>"

inductive market_step :: "market \<Rightarrow> market \<Rightarrow> bool" where
  net_packet: "ppc (mring m) = PIdle \<Longrightarrow> PAYLOAD_SIZE - 8 \<le> length dgram \<Longrightarrow>
    buf = (receive_into (take (PAYLOAD_SIZE - 8) dgram) (mbuffer m))\<lparr>ingress_tsc := tsc\<rparr> \<Longrightarrow>
    market_step m (m\<lparr>mbuffer := buf, mring := (mring m)\<lparr>ppc := PCheck buf\<rparr>, moffered := moffered m @ [buf]\<rparr>)"
| net_short: "ppc (mring m) = PIdle \<Longrightarrow> length dgram < PAYLOAD_SIZE - 8 \<Longrightarrow>
    market_step m (m\<lparr>mbuffer := (receive_into dgram (mbuffer m))\<lparr>ingress_tsc := tsc\<rparr>\<rparr>)"
| net_error: "ppc (mring m) = PIdle \<Longrightarrow>
    market_step m (m\<lparr>mbuffer := (mbuffer m)\<lparr>ingress_tsc := tsc\<rparr>, merrors := merrors m @ [''Receive error: '' @ msg]\<rparr>)"
| net_push: "ppc (mring m) \<noteq> PIdle \<Longrightarrow> pstep (mring m) c \<Longrightarrow> ppc c = PIdle \<longrightarrow> pushed c \<noteq> pushed (mring m) \<Longrightarrow>
    market_step m (m\<lparr>mring := c\<rparr>)"
| net_refused: "ppc (mring m) \<noteq> PIdle \<Longrightarrow> pstep (mring m) c \<Longrightarrow> ppc c = PIdle \<Longrightarrow> pushed c = pushed (mring m) \<Longrightarrow>
    market_step m (m\<lparr>mring := c, mdropped := mdropped m + 1, mrefused := mrefused m + 1\<rparr>)"
| worker_pop: "cpc (mring m) = CIdle \<longrightarrow> mrunning m \<Longrightarrow> cstep (mring m) c \<Longrightarrow> popped c = popped (mring m) \<Longrightarrow>
    market_step m (m\<lparr>mring := c\<rparr>)"
| worker_dispatch: "cpc (mring m) = CPublish v \<Longrightarrow> cstep (mring m) c \<Longrightarrow> dispatch v (mbook m) = ret bk \<Longrightarrow>
    market_step m (m\<lparr>mring := c, mbook := bk\<rparr>)"
| signal: "market_step m (m\<lparr>mrunning := False\<rparr>)"

inductive_cases market_stepE: "market_step m m'"

inductive market_reachable :: "PacketPayload \<Rightarrow> market \<Rightarrow> bool" for buf where
  start: "market_reachable buf (market_init buf)"
| step: "market_reachable buf m \<Longrightarrow> market_step m m' \<Longrightarrow> market_reachable buf m'"

section \<open>Invariant\<close>

fun in_flight :: "'a producer_pc \<Rightarrow> 'a list" where
  "in_flight PIdle = []"
| "in_flight (PCheck v) = [v]"
| "in_flight (PReload v) = [v]"
| "in_flight (PWrite v) = [v]"
| "in_flight (PPublish v) = [v]"

definition market_inv :: "market \<Rightarrow> bool" where
  "market_inv m \<longleftrightarrow>
     conc_inv RING_CAPACITY (mring m) \<and>
     dispatch_all (popped (mring m)) OrderBook_init = ret (mbook m) \<and>
     subseq (pushed (mring m) @ in_flight (ppc (mring m))) (moffered m) \<and>
     length (moffered m) = length (pushed (mring m)) + length (in_flight (ppc (mring m))) + mrefused m \<and>
     mdropped m = of_nat (mrefused m) \<and>
     payload_ok (mbuffer m) \<and> (\<forall>p\<in>set (moffered m). payload_ok p)"

lemma RING_CAPACITY_pow2: "has_single_bit RING_CAPACITY"
  unfolding has_single_bit_def RING_CAPACITY_def by (intro exI [of _ 20]) simp

lemma pstep_in_flight:
  assumes "pstep c c'" "ppc c \<noteq> PIdle"
  shows "pushed c' @ in_flight (ppc c') = pushed c @ in_flight (ppc c) \<or>
    (ppc c' = PIdle \<and> pushed c' = pushed c)"
    "popped c' = popped c" "cpc c' = cpc c"
    "ppc c' = PIdle \<Longrightarrow> pushed c' = pushed c \<Longrightarrow> \<exists>v. in_flight (ppc c) = [v]"
  using assms by (auto elim!: pstepE split: if_splits)

lemma cstep_ppc: "cstep c c' \<Longrightarrow> ppc c' = ppc c \<and> pushed c' = pushed c"
  by (auto elim!: cstepE)

lemma cstep_popped:
  "cstep c c' \<Longrightarrow> popped c' = (case cpc c of CPublish v \<Rightarrow> popped c @ [v] | _ \<Rightarrow> popped c)"
  by (auto elim!: cstepE)

lemma dispatch_all_Nil [simp]: "dispatch_all [] = ret"
  by (rule ext) simp

lemma dispatch_all_snoc: "dispatch_all (ps @ [p]) bk = seqc (dispatch_all ps bk) (dispatch p)"
proof (induction ps arbitrary: bk)
  case (Cons a ps)
  then have "dispatch_all (ps @ [p]) = (\<lambda>bk. seqc (dispatch_all ps bk) (dispatch p))" by blast
  then show ?case by (simp add: seqc_assoc)
qed simp

lemma conc_inv_call: "conc_inv cap c \<Longrightarrow> ppc c = PIdle \<Longrightarrow> conc_inv cap (c\<lparr>ppc := PCheck v\<rparr>)"
  using conc_invD(2,6) [of cap c] by (intro conc_inv_pstep [OF _ P_call]) auto

lemma market_inv_init: "payload_ok buf \<Longrightarrow> market_inv (market_init buf)"
  using conc_inv_init [OF RING_CAPACITY_pow2]
  by (simp add: market_inv_def market_init_def) (simp add: conc_init_def)

lemma market_inv_step:
  assumes inv: "market_inv m" and step: "market_step m m'"
  shows "market_inv m'"
  using step
proof cases
  case (net_packet dgram buf tsc)
  have "payload_ok buf"
    using inv receive_into_ok [of "mbuffer m" "take 56 dgram"]
    by (simp add: net_packet(4) market_inv_def payload_ok_def PAYLOAD_SIZE_def)
  then show ?thesis
    using inv net_packet(1,2) conc_inv_call [of RING_CAPACITY "mring m"]
    by (auto simp: market_inv_def intro: list_emb_append_mono)
next
  case (net_short dgram tsc)
  then show ?thesis
    using inv receive_into_ok [of "mbuffer m" dgram] by (simp add: market_inv_def payload_ok_def PAYLOAD_SIZE_def)
next
  case (net_error tsc msg)
  then show ?thesis using inv by (simp add: market_inv_def payload_ok_def)
next
  case (net_push c)
  have fl: "pushed c @ in_flight (ppc c) = pushed (mring m) @ in_flight (ppc (mring m))"
    using pstep_in_flight(1) [OF net_push(3,2)] net_push(4) by auto
  have "length (pushed c) + length (in_flight (ppc c)) = length (pushed (mring m)) + length (in_flight (ppc (mring m)))"
    using arg_cong [OF fl, of length] by simp
  then show ?thesis
    using inv conc_inv_pstep [OF _ net_push(3)] pstep_in_flight(2) [OF net_push(3,2)] fl net_push(1)
    by (simp add: market_inv_def)
next
  case (net_refused c)
  obtain v where v: "in_flight (ppc (mring m)) = [v]" using pstep_in_flight(4) [OF net_refused(3,2,4,5)] by blast
  have "subseq (pushed (mring m)) (moffered m)"
    using inv v unfolding market_inv_def by (metis subseq_order.trans list_emb_append2 prefix_imp_subseq append_prefixD prefix_order.refl prefixI)
  then show ?thesis
    using inv conc_inv_pstep [OF _ net_refused(3)] pstep_in_flight(2) [OF net_refused(3,2)] v net_refused
    by (simp add: market_inv_def)
next
  case (worker_pop c)
  then show ?thesis
    using inv conc_inv_cstep [OF _ worker_pop(3)] cstep_ppc [OF worker_pop(3)] by (simp add: market_inv_def)
next
  case (worker_dispatch v c bk)
  then show ?thesis
    using inv conc_inv_cstep [OF _ worker_dispatch(3)] cstep_ppc [OF worker_dispatch(3)] cstep_popped [OF worker_dispatch(3)]
    by (simp add: market_inv_def dispatch_all_snoc)
next
  case signal
  then show ?thesis using inv by (simp add: market_inv_def)
qed

lemma market_reachable_inv: "market_reachable buf m \<Longrightarrow> payload_ok buf \<Longrightarrow> market_inv m"
  by (induction rule: market_reachable.induct) (auto intro: market_inv_init market_inv_step)

lemma conc_inv_popped_prefix: "conc_inv cap c \<Longrightarrow> popped c = take (length (popped c)) (pushed c)"
  using conc_invD(4) [of cap c] by (simp add: values_ok_def)

section \<open>The book that the worker has built\<close>

lemma dispatch_all_refines:
  assumes "admissible_run MAX_TICKS MAX_ORDERS EMPTY_BOOK (concat (map packet_command ps))"
  shows "\<exists>bk. dispatch_all ps OrderBook_init = ret bk \<and> book_inv MAX_TICKS MAX_ORDERS bk \<and>
    abs_book bk = spec_run MAX_TICKS (concat (map packet_command ps)) EMPTY_BOOK"
  using book.exec_all_law [OF OrderBook_init_inv(1), of "concat (map packet_command ps)"] assms
  unfolding dispatch_all_commands OrderBook_init_inv(2) by simp

section \<open>Properties\<close>

text \<open>C3. End to end, under every interleaving of the network thread and the worker thread: in each reachable state of the
  program the order book is the result of dispatching the popped packets in order to a new book; the popped packets
  are a prefix of the accepted ones; the accepted ones are a subsequence of the packets offered by the network, so
  nothing is reordered, duplicated or invented; and every offered packet is accepted, counted as dropped, or
  in flight.\<close>

theorem market_end_to_end:
  assumes "market_reachable buf m" "payload_ok buf"
  shows "dispatch_all (popped (mring m)) OrderBook_init = ret (mbook m) \<and>
    popped (mring m) = take (length (popped (mring m))) (pushed (mring m)) \<and>
    subseq (pushed (mring m)) (moffered m) \<and>
    length (moffered m) = length (pushed (mring m)) + length (in_flight (ppc (mring m))) + mrefused m \<and>
    mdropped m = of_nat (mrefused m)"
proof -
  have inv: "market_inv m" using assms by (rule market_reachable_inv)
  have "subseq (pushed (mring m)) (pushed (mring m) @ in_flight (ppc (mring m)))" by (intro prefix_imp_subseq prefixI) simp
  then show ?thesis
    using inv conc_inv_popped_prefix unfolding market_inv_def by (metis subseq_order.trans)
qed

definition zero_buffer :: PacketPayload where
  "zero_buffer = \<lparr>ingress_tsc = 0, body = replicate 56 0\<rparr>"

lemma zero_buffer_ok: "payload_ok zero_buffer"
  by (simp add: zero_buffer_def payload_ok_def PAYLOAD_SIZE_def)

definition market_first :: market where
  "market_first = (market_init zero_buffer)\<lparr>mbuffer := \<lparr>ingress_tsc = 9, body = replicate 56 1\<rparr>,
     mring := (mring (market_init zero_buffer))\<lparr>ppc := PCheck \<lparr>ingress_tsc = 9, body = replicate 56 1\<rparr>\<rparr>,
     moffered := [\<lparr>ingress_tsc = 9, body = replicate 56 1\<rparr>]\<rparr>"

lemma market_first_reachable: "market_reachable zero_buffer market_first"
proof -
  have "market_step (market_init zero_buffer) market_first"
    using net_packet [of "market_init zero_buffer" "replicate 60 1" _ 9]
    by (simp add: market_first_def market_init_def conc_init_def PAYLOAD_SIZE_def receive_into_def zero_buffer_def)
  then show ?thesis using market_reachable.start market_reachable.step by blast
qed

lemma market_end_to_end_witness:
  "dispatch_all (popped (mring market_first)) OrderBook_init = ret (mbook market_first) \<and>
    popped (mring market_first) = take (length (popped (mring market_first))) (pushed (mring market_first)) \<and>
    subseq (pushed (mring market_first)) (moffered market_first) \<and>
    length (moffered market_first) =
      length (pushed (mring market_first)) + length (in_flight (ppc (mring market_first))) + mrefused market_first \<and>
    mdropped market_first = of_nat (mrefused market_first)"
  by (rule market_end_to_end [OF market_first_reachable zero_buffer_ok])

text \<open>C4. If the packets popped so far and the next one stand for admissible commands, the book of the running program is the
  book of the price-time-priority specification for those commands, and the worker's next dispatch returns: it neither
  hangs nor runs into undefined behaviour.\<close>

theorem market_book_refines:
  assumes "market_reachable buf m" "payload_ok buf"
    and "admissible_run MAX_TICKS MAX_ORDERS EMPTY_BOOK (concat (map packet_command (popped (mring m) @ [p])))"
  shows "abs_book (mbook m) = spec_run MAX_TICKS (concat (map packet_command (popped (mring m)))) EMPTY_BOOK \<and>
    book_inv MAX_TICKS MAX_ORDERS (mbook m) \<and>
    (\<exists>bk. dispatch p (mbook m) = ret bk \<and> book_inv MAX_TICKS MAX_ORDERS bk)"
proof -
  have d: "dispatch_all (popped (mring m)) OrderBook_init = ret (mbook m)"
    using market_reachable_inv [OF assms(1,2)] by (simp add: market_inv_def)
  obtain bk where bk: "dispatch_all (popped (mring m) @ [p]) OrderBook_init = ret bk" "book_inv MAX_TICKS MAX_ORDERS bk"
    using dispatch_all_refines [OF assms(3)] by blast
  have "admissible_run MAX_TICKS MAX_ORDERS EMPTY_BOOK (concat (map packet_command (popped (mring m))))"
    using assms(3) by (simp add: admissible_run_append)
  then obtain b where "dispatch_all (popped (mring m)) OrderBook_init = ret b" "book_inv MAX_TICKS MAX_ORDERS b"
    "abs_book b = spec_run MAX_TICKS (concat (map packet_command (popped (mring m)))) EMPTY_BOOK"
    using dispatch_all_refines by blast
  then show ?thesis using d bk by (simp add: dispatch_all_snoc)
qed

lemma market_book_refines_witness:
  "abs_book (mbook market_first) = EMPTY_BOOK \<and>
    (\<exists>bk. dispatch \<lparr>ingress_tsc = 9, body = create_add_order 1 100500 100 (char_of_ascii CHR ''B'')\<rparr> (mbook market_first) = ret bk \<and>
      book_inv MAX_TICKS MAX_ORDERS bk)"
proof -
  let ?p = "\<lparr>ingress_tsc = 9, body = create_add_order 1 100500 100 (char_of_ascii CHR ''B'')\<rparr>"
  have e: "popped (mring market_first) = []" by (simp add: market_first_def market_init_def conc_init_def)
  have "packet_command ?p = [AddOrder 1 100500 100 True]"
    using packet_command_created(1) [of ?p 1 100500 100 "char_of_ascii CHR ''B''"] by simp
  then have "admissible_run MAX_TICKS MAX_ORDERS EMPTY_BOOK (concat (map packet_command (popped (mring market_first) @ [?p])))"
    unfolding e by (simp add: MAX_TICKS_def MAX_ORDERS_def match_ends_def)
  from market_book_refines [OF market_first_reachable zero_buffer_ok this] show ?thesis
    by (simp add: e spec_run_def)
qed

end
