(* ===== verification/OrderBookFailures.thy ===== *)
theory OrderBookFailures
  imports OrderBookInterface
begin

text \<open>
  Inputs outside the contract of the order book, with what the code does on them: it never
  returns, or it runs into undefined behaviour, or it loses track of an order. None of the three
  operations checks its arguments, and the matching engine passes them through from the network.
\<close>

lemma unlimited_sell_diverges:
  assumes "book_inv T N bk" "0 < T" "side_total T (abs_book bk True) < unat qty"
  shows "add_order i 0 qty False bk = None"
proof -
  have "match_order 0 qty False bk = None"
    using book_invD [OF assms(1)] assms(2,3) by (intro match_order_zero_diverges) simp_all
  then show ?thesis by (simp add: add_order_def)
qed

text \<open>C37. A sell at price 0 for more than all resting bids together never returns: with no bid left the cached best bid is 0,
  so the price still crosses, and the outer loop of \<open>match_order\<close> makes no progress.\<close>

theorem sell_at_zero_never_returns:
  assumes "book_inv T N bk" "0 < T" "side_total T (abs_book bk True) < unat qty"
  shows "add_order i 0 qty False bk = None"
  using assms by (rule unlimited_sell_diverges)

lemma side_total_EMPTY [simp]: "side_total T (EMPTY_BOOK b) = 0"
  by (rule side_total_empty) (simp add: EMPTY_BOOK_def)

lemma sell_at_zero_never_returns_witness: "add_order 1 0 1 False OrderBook_init = None"
  by (rule sell_at_zero_never_returns [OF OrderBook_init_inv(1)]) (simp_all add: OrderBook_init_inv(2) MAX_TICKS_def)


lemma OrderBook_init_best [simp]: "best_bid OrderBook_init = 0" "best_ask OrderBook_init = UINT32_MAX"
  by (simp_all add: OrderBook_init_def OrderBook_new_def)

lemma live_EMPTY [simp]: "live_ids EMPTY_BOOK = {}"
  by (simp add: live_ids_def EMPTY_BOOK_def)


lemma add_unmatched_out_of_range:
  assumes "match_order p qty buy bk = ret (r, bk1)" "r \<noteq> 0" "allocate (pool bk1) = (Some q, pl)"
    and "q < vsize (slots pl)"
    and "vsize (order_map bk1) \<le> unat i \<or> side_size buy bk1 \<le> unat p"
  shows "add_order i p qty buy bk = undef OutOfBounds"
  using assms
  by (cases "unat i < vsize (order_map bk1)") (auto simp: add_order_def set_order_def set_map_def get_level_def side_size_def not_less [symmetric] split: if_splits)

lemma out_of_range_is_undefined_add:
  assumes inv: "book_inv T N bk"
    and a: "qty \<noteq> 0" "\<not> crosses buy p bk" "free_list (pool bk) \<noteq> []" "N \<le> unat i \<or> T \<le> unat p"
  shows "add_order i p qty buy bk = undef OutOfBounds"
proof -
  have h: "heap_inv T N bk (ladder_of bk)" using inv by (rule book_invD)
  have sz: "vsize (order_map bk) = N" "side_size buy bk = T" "vsize (slots (pool bk)) = N"
    using heap_invD(1) [OF h] by (simp_all add: book_sizes_def side_size_def)
  let ?pl = "(pool bk)\<lparr>free_list := butlast (free_list (pool bk))\<rparr>"
  have m: "match_order p qty buy bk = ret (qty, bk)" using a(2) by (intro match_order_exit) simp
  have al: "allocate (pool bk) = (Some (last (free_list (pool bk))), ?pl)" using a(3) by (simp add: allocate_def)
  have "last (free_list (pool bk)) < N"
    using heap_invD(2) [OF h] a(3) sz(3) last_in_set by (auto simp: pool_inv_def)
  then show ?thesis
    using add_unmatched_out_of_range [OF m a(1) al] a(4) sz by simp
qed

lemma UINT32_MAX_max: "UINT32_MAX \<le> p \<longleftrightarrow> p = UINT32_MAX"
proof -
  have "unat p < 2 ^ LENGTH(32)" by (rule unsigned_less)
  then show ?thesis by (auto simp: word_le_nat_alt word_unat_eq_iff)
qed



lemmas book_eval = add_order_def cancel_order_def match_order.simps match_level.simps OrderBook_new_def OrderPool_new_def
  foldl_snoc allocate_def set_order_def set_map_def get_level_def put_level_def order_at_def set_side_bit_def
  bs_set_def or_bit_def shl1_def PriceBitSet_init_def L0_SIZE_def L1_SIZE_def
  PriceLevel_init_def Order_zero_def vat_vupd UINT32_MAX_def Let_def upt_rec word_le_nat_alt word_less_nat_alt


end
