(* ===== verification/BookTests.thy ===== *)
theory BookTests
  imports OrderBookFailures
begin

text \<open>
  The unit tests of \<^verbatim>\<open>tests/test_orderbook.cpp\<close> as scripts of commands and expectations, executed on a new
  book with the source's constants. The outcome is computed on the abstract book; the refinement of
  the order book carries it over to the code.
\<close>

section \<open>Computing the specification on sparse books\<close>

lemma sweep_filter: "distinct ps \<Longrightarrow> sweep q ps A = sweep q (filter (\<lambda>x. A x \<noteq> []) ps) A"
proof (induction ps arbitrary: q A)
  case (Cons p ps)
  show ?case
  proof (cases "A p = []")
    case True
    then have "A(p := []) = A" by auto
    then show ?thesis using Cons True by simp
  next
    case False
    let ?A = "A(p := snd (fill q (A p)))"
    have "filter (\<lambda>x. ?A x \<noteq> []) ps = filter (\<lambda>x. A x \<noteq> []) ps"
      using Cons.prems by (intro filter_cong) auto
    then show ?thesis using Cons False by simp
  qed
qed simp

lemma spec_match_sparse:
  "spec_match T p q buy A =
     (let r = sweep q (filter (\<lambda>x. A (\<not> buy) x \<noteq> []) (crossing_prices T p buy)) (A (\<not> buy))
      in (fst r, A((\<not> buy) := snd r)))"
proof -
  have "distinct (crossing_prices T p buy)" by (simp add: crossing_prices_def)
  from sweep_filter [OF this] show ?thesis by (simp add: spec_match_def)
qed

lemma filter_upt_one: "filter (\<lambda>x. x = a) [m..<n] = (if m \<le> a \<and> a < n then [a] else [])"
  by (induction n) auto

lemma filter_upt_two:
  "a < b \<Longrightarrow> filter (\<lambda>x. x = a \<or> x = b) [m..<n] = filter (\<lambda>x. m \<le> x \<and> x < n) [a, b]"
  by (induction n) auto

lemma filter_crossing_none: "filter (\<lambda>x. False) (crossing_prices T p buy) = []"
  by simp

lemma filter_crossing_one:
  "filter (\<lambda>x. x = a) (crossing_prices T p buy) =
     (if (if buy then a \<le> p else p \<le> a \<and> a < T) then [a] else [])"
  by (simp add: crossing_prices_def filter_upt_one flip: rev_filter del: upt_Suc)

lemma filter_crossing_two:
  "a < b \<Longrightarrow> filter (\<lambda>x. x = a \<or> x = b) (crossing_prices T p True) = filter (\<lambda>x. x \<le> p) [a, b]"
  by (simp add: crossing_prices_def filter_upt_two del: upt_Suc)

lemma Lset_neq_Nil:
  "(Lset A b p xs b' x \<noteq> []) = (if b' = b \<and> x = p then xs \<noteq> [] else A b' x \<noteq> [])"
  by (simp add: Lset_apply)

lemma EMPTY_apply [simp]: "EMPTY_BOOK b p = []"
  by (simp add: EMPTY_BOOK_def)

lemma Lset_EMPTY_Nil [simp]: "Lset EMPTY_BOOK b p [] = EMPTY_BOOK"
  by (simp add: Lset_def EMPTY_BOOK_def fun_eq_iff)

lemma find_live_unique:
  assumes "(i, n) \<in> set (A b p)" "\<And>b' p' n'. (i, n') \<in> set (A b' p') \<Longrightarrow> (b', p', n') = (b, p, n)"
    and "\<And>b p. T \<le> p \<Longrightarrow> A b p = []"
  shows "find_live T i A = Some (b, p, n)"
proof (cases "find_live T i A")
  case None
  then have "i \<notin> live_ids A" using find_live_None [of T A i] assms(3) by blast
  then show ?thesis using assms(1) by (force simp: live_ids_def)
next
  case (Some x)
  then show ?thesis using find_live_Some [of T i A] assms(2) by (cases x) blast
qed

lemma find_live_one:
  "p < T \<Longrightarrow> find_live T i (Lset EMPTY_BOOK b p [(j, n)]) = (if i = j then Some (b, p, n) else None)"
  by (auto intro!: find_live_unique find_live_None [THEN iffD2] simp: Lset_apply live_ids_def split: if_splits)

lemma find_live_two_None:
  "\<lbrakk>p < T; p' < T; i \<noteq> j; i \<noteq> k\<rbrakk> \<Longrightarrow> find_live T i (Lset (Lset EMPTY_BOOK b p [(j, n)]) b' p' [(k, m)]) = None"
  by (auto intro!: find_live_None [THEN iffD2] simp: Lset_apply live_ids_def split: if_splits)

lemma spec_add_rest:
  assumes "\<And>x. x \<in> set (crossing_prices T p buy) \<Longrightarrow> A (\<not> buy) x = []" "q \<noteq> 0"
  shows "spec_add T i p q buy A = Lset A buy p (A buy p @ [(i, q)])"
proof -
  have "filter (\<lambda>x. A (\<not> buy) x \<noteq> []) (crossing_prices T p buy) = []" using assms(1) by (simp add: filter_empty_conv)
  then show ?thesis using assms(2) by (simp add: spec_add_def spec_match_sparse)
qed

lemma in_crossing: "x \<in> set (crossing_prices T p buy) \<longleftrightarrow> (if buy then x \<le> p else p \<le> x \<and> x < T)"
  by (auto simp: crossing_prices_def)

lemma spec_add_EMPTY [simp]: "q \<noteq> 0 \<Longrightarrow> spec_add T i p q b EMPTY_BOOK = Lset EMPTY_BOOK b p [(i, q)]"
  by (subst spec_add_rest) simp_all

lemma spec_add_above_bid [simp]:
  "q \<noteq> 0 \<Longrightarrow> p < p' \<Longrightarrow> spec_add T i p' q False (Lset EMPTY_BOOK True p xs) = Lset (Lset EMPTY_BOOK True p xs) False p' [(i, q)]"
  by (subst spec_add_rest) (auto simp: in_crossing Lset_apply)

lemma spec_add_same_side [simp]:
  "q \<noteq> 0 \<Longrightarrow> p \<noteq> p' \<Longrightarrow> spec_add T i p' q b (Lset EMPTY_BOOK b p xs) = Lset (Lset EMPTY_BOOK b p xs) b p' [(i, q)]"
  by (subst spec_add_rest) (auto simp: Lset_apply)

lemma spec_match_one_ask:
  "xs \<noteq> [] \<Longrightarrow> a \<le> p \<Longrightarrow> spec_match T p q True (Lset EMPTY_BOOK False a xs) =
     (fst (fill q xs), Lset EMPTY_BOOK False a (snd (fill q xs)))"
  by (simp add: spec_match_sparse Lset_neq_Nil filter_crossing_one Let_def) (simp add: Lset_def fun_eq_iff)

lemma spec_add_one_ask [simp]:
  "xs \<noteq> [] \<Longrightarrow> a \<le> p \<Longrightarrow> q \<le> sum_list (map snd xs) \<Longrightarrow>
     spec_add T i p q True (Lset EMPTY_BOOK False a xs) = Lset EMPTY_BOOK False a (snd (fill q xs))"
  by (simp add: spec_add_def spec_match_one_ask fst_fill)

lemma spec_match_two_asks:
  assumes "xs \<noteq> []" "ys \<noteq> []" "a < b" "b \<le> p"
  shows "spec_match T p q True (Lset (Lset EMPTY_BOOK False a xs) False b ys) =
     (fst (fill (fst (fill q xs)) ys),
      Lset (Lset EMPTY_BOOK False a (snd (fill q xs))) False b (snd (fill (fst (fill q xs)) ys)))"
proof -
  let ?A = "Lset (Lset EMPTY_BOOK False a xs) False b ys"
  have f: "filter (\<lambda>x. ?A False x \<noteq> []) (crossing_prices T p True) = [a, b]"
    using filter_crossing_two [OF assms(3), of T p] assms
    by (subst filter_cong [OF refl, of _ _ "\<lambda>x. x = a \<or> x = b"]) (auto simp: Lset_apply)
  have "?A False a = xs" "?A False b = ys" using assms(3) by (simp_all add: Lset_apply)
  moreover have "?A(False := (?A False)(a := u, b := v)) = Lset (Lset EMPTY_BOOK False a u) False b v" for u v
    using assms(3) by (auto simp: Lset_def fun_eq_iff)
  ultimately show ?thesis using assms(3) by (simp add: spec_match_sparse f)
qed

lemma spec_add_two_asks [simp]:
  "xs \<noteq> [] \<Longrightarrow> ys \<noteq> [] \<Longrightarrow> a < b \<Longrightarrow> b \<le> p \<Longrightarrow> q \<le> sum_list (map snd xs) + sum_list (map snd ys) \<Longrightarrow>
     spec_add T i p q True (Lset (Lset EMPTY_BOOK False a xs) False b ys) =
     Lset (Lset EMPTY_BOOK False a (snd (fill q xs))) False b (snd (fill (fst (fill q xs)) ys))"
  by (simp add: spec_add_def spec_match_two_asks fst_fill)

lemma spec_cancel_Lset [simp]: "spec_cancel i (Lset A b p xs) = Lset (spec_cancel i A) b p (filter (\<lambda>(j, n). j \<noteq> i) xs)"
  by (auto simp: spec_cancel_def Lset_def fun_eq_iff)

lemma spec_cancel_EMPTY [simp]: "spec_cancel i EMPTY_BOOK = EMPTY_BOOK"
  by (simp add: spec_cancel_def EMPTY_BOOK_def)

section \<open>Scripts\<close>

datatype test_step = Do book_command | ExpectBid u32 | ExpectAsk u32

fun run_test :: "test_step list \<Rightarrow> OrderBook \<Rightarrow> bool comp" where
  "run_test [] bk = ret True"
| "run_test (Do c # ts) bk = seqc (run_command c bk) (run_test ts)"
| "run_test (ExpectBid n # ts) bk = seqc (run_test ts bk) (\<lambda>ok. ret (get_best_bid bk = n \<and> ok))"
| "run_test (ExpectAsk n # ts) bk = seqc (run_test ts bk) (\<lambda>ok. ret (get_best_ask bk = n \<and> ok))"

definition InitialStateIsEmpty :: "test_step list" where
  "InitialStateIsEmpty = [ExpectBid 0, ExpectAsk UINT32_MAX]"

definition AddAndCancelUpdatesBBO :: "test_step list" where
  "AddAndCancelUpdatesBBO =
     [Do (AddOrder 1 100500 100 True), ExpectBid 100500,
      Do (AddOrder 2 100600 100 False), ExpectAsk 100600,
      Do (CancelOrder 1), ExpectBid 0,
      Do (CancelOrder 2), ExpectAsk UINT32_MAX]"

definition ExactCrossFillsCompletely :: "test_step list" where
  "ExactCrossFillsCompletely =
     [Do (AddOrder 1 100500 100 False), Do (AddOrder 2 100500 100 True), ExpectAsk UINT32_MAX, ExpectBid 0]"

definition PartialFillLeavesRestingOrder :: "test_step list" where
  "PartialFillLeavesRestingOrder =
     [Do (AddOrder 1 100500 1000 False), Do (AddOrder 2 100500 100 True), ExpectAsk 100500]"

definition AggressiveOrderSweepsMultipleLevels :: "test_step list" where
  "AggressiveOrderSweepsMultipleLevels =
     [Do (AddOrder 1 100500 100 False), Do (AddOrder 2 100505 100 False), ExpectAsk 100500,
      Do (AddOrder 3 100510 200 True), ExpectAsk UINT32_MAX]"

definition ModifyDownMaintainsBBO :: "test_step list" where
  "ModifyDownMaintainsBBO =
     [Do (AddOrder 1 100500 100 True), Do (ModifyOrder 1 100500 50), ExpectBid 100500]"

definition ModifyPriceTriggersCancelAndReplace :: "test_step list" where
  "ModifyPriceTriggersCancelAndReplace =
     [Do (AddOrder 1 100500 100 True), Do (ModifyOrder 1 100400 100), ExpectBid 100400]"

section \<open>The tests pass\<close>

definition spec_bid :: "abook \<Rightarrow> u32" where
  "spec_bid A = (if {p. A True p \<noteq> []} = {} then 0 else of_nat (Max {p. A True p \<noteq> []}))"

definition spec_ask :: "abook \<Rightarrow> u32" where
  "spec_ask A = (if {p. A False p \<noteq> []} = {} then UINT32_MAX else of_nat (Min {p. A False p \<noteq> []}))"

lemma best_simps [simp]:
  "spec_bid EMPTY_BOOK = 0" "spec_ask EMPTY_BOOK = UINT32_MAX"
  "spec_bid (Lset A False p xs) = spec_bid A" "spec_ask (Lset A True p xs) = spec_ask A"
  "xs \<noteq> [] \<Longrightarrow> spec_bid (Lset EMPTY_BOOK True p xs) = of_nat p"
  "xs \<noteq> [] \<Longrightarrow> spec_ask (Lset EMPTY_BOOK False p xs) = of_nat p"
  by (simp_all add: spec_bid_def spec_ask_def Lset_neq_Nil)

lemma spec_ask_skip_bid [simp]: "spec_ask (Lset (Lset A True p xs) False p' ys) = spec_ask (Lset A False p' ys)"
proof -
  have "Lset (Lset A True p xs) False p' ys False = Lset A False p' ys False" by (simp add: Lset_def)
  then show ?thesis by (simp add: spec_ask_def)
qed

lemma spec_ask_two [simp]:
  assumes "xs \<noteq> []" "ys \<noteq> []"
  shows "spec_ask (Lset (Lset EMPTY_BOOK False a xs) False b ys) = of_nat (min a b)"
proof -
  have "{p. Lset (Lset EMPTY_BOOK False a xs) False b ys False p \<noteq> []} = {a, b}" using assms by (auto simp: Lset_apply)
  then show ?thesis by (simp add: spec_ask_def)
qed

lemmas test_eval = MAX_TICKS_def MAX_ORDERS_def match_ends_def find_live_one find_live_two_None

fun spec_test :: "test_step list \<Rightarrow> abook \<Rightarrow> bool" where
  "spec_test [] A \<longleftrightarrow> True"
| "spec_test (Do c # ts) A \<longleftrightarrow> admissible MAX_TICKS MAX_ORDERS A c \<and> spec_test ts (spec_exec MAX_TICKS c A)"
| "spec_test (ExpectBid n # ts) A \<longleftrightarrow> spec_bid A = n \<and> spec_test ts A"
| "spec_test (ExpectAsk n # ts) A \<longleftrightarrow> spec_ask A = n \<and> spec_test ts A"

lemma run_command_law:
  "book_inv T N bk \<Longrightarrow> admissible T N (abs_book bk) c \<Longrightarrow>
     \<exists>bk'. run_command c bk = ret bk' \<and> book_inv T N bk' \<and> abs_book bk' = spec_exec T c (abs_book bk)"
  using book.exec_law [of T N bk c] by (cases c) simp_all

lemma run_test_law:
  "book_inv MAX_TICKS MAX_ORDERS bk \<Longrightarrow> spec_test ts (abs_book bk) \<Longrightarrow> run_test ts bk = ret True"
proof (induction ts bk rule: run_test.induct)
  case (2 c ts bk)
  then obtain bk' where "run_command c bk = ret bk'" "book_inv MAX_TICKS MAX_ORDERS bk'"
    "abs_book bk' = spec_exec MAX_TICKS c (abs_book bk)" using run_command_law by (metis spec_test.simps(2))
  then show ?case using 2 by simp
next
  case (3 n ts bk)
  then show ?case using book_best_bid [OF 3(2)] by (simp add: spec_bid_def)
next
  case (4 n ts bk)
  then show ?case using book_best_ask [OF 4(2)] by (simp add: spec_ask_def)
qed simp

lemma spec_tests:
  "spec_test InitialStateIsEmpty EMPTY_BOOK" "spec_test AddAndCancelUpdatesBBO EMPTY_BOOK"
  "spec_test ExactCrossFillsCompletely EMPTY_BOOK" "spec_test PartialFillLeavesRestingOrder EMPTY_BOOK"
  "spec_test AggressiveOrderSweepsMultipleLevels EMPTY_BOOK" "spec_test ModifyDownMaintainsBBO EMPTY_BOOK"
  "spec_test ModifyPriceTriggersCancelAndReplace EMPTY_BOOK"
  by (simp_all add: InitialStateIsEmpty_def AddAndCancelUpdatesBBO_def ExactCrossFillsCompletely_def
      PartialFillLeavesRestingOrder_def AggressiveOrderSweepsMultipleLevels_def ModifyDownMaintainsBBO_def
      ModifyPriceTriggersCancelAndReplace_def test_eval spec_modify_def)

lemma run_test_init: "spec_test ts EMPTY_BOOK \<Longrightarrow> run_test ts OrderBook_init = ret True"
  using run_test_law [OF OrderBook_init_inv(1)] OrderBook_init_inv(2) by simp

text \<open>The repository's seven unit tests hold of the model: each script, run on a new book of full size, returns and meets every
  one of its expectations.\<close>

theorem unit_tests_pass:
  "run_test InitialStateIsEmpty OrderBook_init = ret True \<and>
   run_test AddAndCancelUpdatesBBO OrderBook_init = ret True \<and>
   run_test ExactCrossFillsCompletely OrderBook_init = ret True \<and>
   run_test PartialFillLeavesRestingOrder OrderBook_init = ret True \<and>
   run_test AggressiveOrderSweepsMultipleLevels OrderBook_init = ret True \<and>
   run_test ModifyDownMaintainsBBO OrderBook_init = ret True \<and>
   run_test ModifyPriceTriggersCancelAndReplace OrderBook_init = ret True"
  by (simp add: run_test_init spec_tests)

end
