(* ===== verification/Benchmarks.thy ===== *)
theory Benchmarks
  imports BookTests MatchingEngine
begin

text \<open>
  The benchmark programs. The three loops of \<^verbatim>\<open>benchmarks/bench_orderbook.cpp\<close>, one function per loop body
  and one for a number of iterations; the burst generator of \<^verbatim>\<open>benchmarks/bench_worker.cpp\<close>, with the
  values drawn from the random distributions as arguments.
\<close>

section \<open>Order book micro-benchmarks\<close>

definition BM_Modify_InPlace :: "u64 \<times> OrderBook \<Rightarrow> (u64 \<times> OrderBook) comp" where
  "BM_Modify_InPlace = (\<lambda>(i, bk).
     seqc (add_order i 100000 100 True bk) (\<lambda>bk.
     seqc (modify_order i 100000 50 bk) (\<lambda>bk.
     seqc (cancel_order i bk) (\<lambda>bk.
     ret (i + 1, bk)))))"

definition BM_Modify_CancelReplace :: "u64 \<times> OrderBook \<Rightarrow> (u64 \<times> OrderBook) comp" where
  "BM_Modify_CancelReplace = (\<lambda>(i, bk).
     seqc (add_order i 100000 100 True bk) (\<lambda>bk.
     seqc (modify_order i 100005 100 bk) (\<lambda>bk.
     seqc (cancel_order i bk) (\<lambda>bk.
     ret (i + 1, bk)))))"

definition BM_Match_AggressiveOrder :: "u64 \<times> OrderBook \<Rightarrow> (u64 \<times> OrderBook) comp" where
  "BM_Match_AggressiveOrder = (\<lambda>(i, bk).
     seqc (add_order i 100500 100 False bk) (\<lambda>bk.
     seqc (add_order (i + 1) 100500 100 True bk) (\<lambda>bk.
     ret (i + 2, bk))))"

text \<open>\<open>for (auto _ : state)\<close> with the number of iterations that the harness chooses.\<close>

fun bm_iterations :: "('s \<Rightarrow> 's comp) \<Rightarrow> nat \<Rightarrow> 's \<Rightarrow> 's comp" where
  "bm_iterations f 0 s = ret s"
| "bm_iterations f (Suc n) s = seqc (f s) (bm_iterations f n)"

lemma bm_iterations_snoc: "bm_iterations f (Suc n) s = seqc (bm_iterations f n s) f"
proof (induction n arbitrary: s)
  case 0
  have "bm_iterations f 0 = ret" by (rule ext) simp
  then show ?case by simp
next
  case (Suc n)
  then have "bm_iterations f (Suc n) = (\<lambda>s. seqc (bm_iterations f n s) f)" by blast
  then show ?case by (subst bm_iterations.simps(2)) (simp add: seqc_assoc)
qed

abbreviation empty_book :: "OrderBook \<Rightarrow> bool" where
  "empty_book bk \<equiv> book_inv MAX_TICKS MAX_ORDERS bk \<and> abs_book bk = EMPTY_BOOK"

lemma run_commands_from:
  assumes "book_inv MAX_TICKS MAX_ORDERS bk" "admissible_run MAX_TICKS MAX_ORDERS (abs_book bk) cs"
    and "spec_run MAX_TICKS cs (abs_book bk) = EMPTY_BOOK"
  shows "\<exists>bk'. run_commands cs bk = ret bk' \<and> empty_book bk'"
  using book.exec_all_law [OF assms(1,2)] assms(3) unfolding run_commands_exec by auto

lemma BM_Modify_InPlace_ok:
  assumes "empty_book bk" "unat i < MAX_ORDERS"
  shows "\<exists>bk'. BM_Modify_InPlace (i, bk) = ret (i + 1, bk') \<and> empty_book bk'"
proof -
  have "\<exists>bk'. run_commands [AddOrder i 100000 100 True, ModifyOrder i 100000 50, CancelOrder i] bk = ret bk' \<and> empty_book bk'"
    using assms by (intro run_commands_from)
      (simp_all add: spec_run_def find_live_one MAX_TICKS_def match_ends_def spec_modify_def)
  then show ?thesis by (auto simp: BM_Modify_InPlace_def seqc_eq_ret_iff)
qed

lemma BM_Modify_CancelReplace_ok:
  assumes "empty_book bk" "unat i < MAX_ORDERS"
  shows "\<exists>bk'. BM_Modify_CancelReplace (i, bk) = ret (i + 1, bk') \<and> empty_book bk'"
proof -
  have "\<exists>bk'. run_commands [AddOrder i 100000 100 True, ModifyOrder i 100005 100, CancelOrder i] bk = ret bk' \<and> empty_book bk'"
    using assms by (intro run_commands_from)
      (simp_all add: spec_run_def find_live_one MAX_TICKS_def match_ends_def spec_modify_def)
  then show ?thesis by (auto simp: BM_Modify_CancelReplace_def seqc_eq_ret_iff)
qed

lemma BM_Match_AggressiveOrder_ok:
  assumes "empty_book bk" "unat (i + 1) < MAX_ORDERS" "unat i < MAX_ORDERS"
  shows "\<exists>bk'. BM_Match_AggressiveOrder (i, bk) = ret (i + 2, bk') \<and> empty_book bk'"
proof -
  have "\<exists>bk'. run_commands [AddOrder i 100500 100 False, AddOrder (i + 1) 100500 100 True] bk = ret bk' \<and> empty_book bk'"
    using assms by (intro run_commands_from)
      (simp_all add: spec_run_def find_live_one MAX_TICKS_def match_ends_def)
  then show ?thesis by (auto simp: BM_Match_AggressiveOrder_def seqc_eq_ret_iff)
qed

lemma empty_book_facts:
  assumes "empty_book bk"
  shows "free_list (pool bk) \<noteq> []" "best_bid bk = 0" "best_ask bk = UINT32_MAX"
proof -
  have inv: "book_inv MAX_TICKS MAX_ORDERS bk" and e: "abs_book bk = EMPTY_BOOK" using assms by auto
  have h: "heap_inv MAX_TICKS MAX_ORDERS bk (ladder_of bk)" using inv by (rule book_invD)
  have "ladder_of bk b p = []" for b p using book_invD(4) [OF inv] e labs_empty_iff by (metis EMPTY_apply)
  then have "pool_used (pool bk) = {}" using heap_invD(3) [OF h] by simp
  then have "{i. i < MAX_ORDERS} \<subseteq> set (free_list (pool bk))"
    using heap_invD(1) [OF h] by (auto simp: pool_used_def book_sizes_def)
  then have "0 \<in> set (free_list (pool bk))" by (auto simp: MAX_ORDERS_def)
  then show "free_list (pool bk) \<noteq> []" by auto
  show "best_bid bk = 0" "best_ask bk = UINT32_MAX"
    using book_best_bid [OF inv] book_best_ask [OF inv] e by (simp_all add: get_best_bid_def get_best_ask_def)
qed

lemma add_past_end:
  assumes "empty_book bk" "MAX_ORDERS \<le> unat i" "qty \<noteq> 0" "p \<noteq> UINT32_MAX" "p \<noteq> 0"
  shows "add_order i p qty b bk = undef OutOfBounds"
proof -
  have "\<not> crosses b p bk"
    using empty_book_facts(2,3) [OF assms(1)] assms(4,5) UINT32_MAX_max [of p]
    by (auto simp: crosses_def)
  then show ?thesis
    using out_of_range_is_undefined_add [of MAX_TICKS MAX_ORDERS bk qty b p i] assms empty_book_facts(1) by blast
qed

text \<open>A loop body that works on an empty book and advances the identifier until it leaves the order map.\<close>

lemma bm_iterations_until:
  assumes ok: "\<And>bk n. empty_book bk \<Longrightarrow> n < m \<Longrightarrow>
      \<exists>bk'. f (of_nat (1 + n * k), bk) = ret (of_nat (1 + Suc n * k), bk') \<and> empty_book bk'"
  shows "n \<le> m \<Longrightarrow> \<exists>bk'. bm_iterations f n (1, OrderBook_init) = ret (of_nat (1 + n * k), bk') \<and> empty_book bk'"
proof (induction n)
  case 0
  have "bm_iterations f 0 (1, OrderBook_init) = ret (of_nat (1 + 0 * k), OrderBook_init)" by simp
  then show ?case using OrderBook_init_inv by blast
next
  case (Suc n)
  then obtain bk where bk: "bm_iterations f n (1, OrderBook_init) = ret (of_nat (1 + n * k), bk)" "empty_book bk"
    using Suc_leD by blast
  have "bm_iterations f (Suc n) (1, OrderBook_init) = f (of_nat (1 + n * k), bk)"
    unfolding bm_iterations_snoc bk(1) by simp
  then show ?case using ok [OF bk(2), of n] Suc.prems by (simp only: Suc_le_eq)
qed

lemma bm_iterations_fails:
  assumes "bm_iterations f n s = ret s'" "f s' = undef e" "n < m"
  shows "bm_iterations f m s = undef e"
proof -
  have "bm_iterations f (Suc n + d) s = undef e" for d
  proof (induction d)
    case 0
    then show ?case using assms unfolding bm_iterations_snoc Nat.add_0_right by simp
  next
    case (Suc d)
    then show ?case unfolding add_Suc_right bm_iterations_snoc by simp
  qed
  from this [of "m - Suc n"] show ?thesis using assms(3) by simp
qed

lemma unat_small: "n < 2 ^ 64 \<Longrightarrow> unat (of_nat n :: u64) = n"
  by (simp add: unat_of_nat)

lemma bm_in_place_until:
  "n < MAX_ORDERS \<Longrightarrow> \<exists>bk. bm_iterations BM_Modify_InPlace n (1, OrderBook_init) = ret (of_nat (1 + n * 1), bk) \<and> empty_book bk"
proof (rule bm_iterations_until [where m = "MAX_ORDERS - 1"])
  fix bk n assume "empty_book bk" "n < MAX_ORDERS - 1"
  then show "\<exists>bk'. BM_Modify_InPlace (of_nat (1 + n * 1), bk) = ret (of_nat (1 + Suc n * 1), bk') \<and> empty_book bk'"
    using BM_Modify_InPlace_ok [of bk "of_nat (1 + n)"] unat_small [of "1 + n"]
    by (simp add: MAX_ORDERS_def algebra_simps)
qed simp

lemma bm_cancel_replace_until:
  "n < MAX_ORDERS \<Longrightarrow> \<exists>bk. bm_iterations BM_Modify_CancelReplace n (1, OrderBook_init) = ret (of_nat (1 + n * 1), bk) \<and> empty_book bk"
proof (rule bm_iterations_until [where m = "MAX_ORDERS - 1"])
  fix bk n assume "empty_book bk" "n < MAX_ORDERS - 1"
  then show "\<exists>bk'. BM_Modify_CancelReplace (of_nat (1 + n * 1), bk) = ret (of_nat (1 + Suc n * 1), bk') \<and> empty_book bk'"
    using BM_Modify_CancelReplace_ok [of bk "of_nat (1 + n)"] unat_small [of "1 + n"]
    by (simp add: MAX_ORDERS_def algebra_simps)
qed simp

lemma bm_aggressive_until:
  "n < 750000 \<Longrightarrow> \<exists>bk. bm_iterations BM_Match_AggressiveOrder n (1, OrderBook_init) = ret (of_nat (1 + n * 2), bk) \<and> empty_book bk"
proof (rule bm_iterations_until [where m = "749999"])
  fix bk n assume a: "empty_book bk" "n < (749999::nat)"
  then show "\<exists>bk'. BM_Match_AggressiveOrder (of_nat (1 + n * 2), bk) = ret (of_nat (1 + Suc n * 2), bk') \<and> empty_book bk'"
    using BM_Match_AggressiveOrder_ok [of bk "of_nat (1 + n * 2)"] unat_small [of "1 + n * 2"] unat_small [of "2 + n * 2"]
    by (simp add: MAX_ORDERS_def algebra_simps)
qed simp

section \<open>The worker benchmark\<close>

text \<open>Writing a member of the union: the bytes around it keep their (indeterminate) values.\<close>

definition put_field :: "nat \<Rightarrow> nat \<Rightarrow> 'a::len word \<Rightarrow> bytes \<Rightarrow> bytes" where
  "put_field off n v bs = take off bs @ le_bytes n v @ drop (off + n) bs"

text \<open>\<open>std::max<uint64_t>(1, i - 5)\<close> on unsigned 64-bit integers\<close>

definition burst_target :: "u64 \<Rightarrow> u64" where
  "burst_target i = max 1 (i - 5)"

text \<open>The packet of iteration \<open>i\<close>, from the drawn values and the uninitialised local.\<close>

definition burst_packet :: "nat \<Rightarrow> u32 \<Rightarrow> u32 \<Rightarrow> PacketPayload \<Rightarrow> u64 \<Rightarrow> PacketPayload" where
  "burst_packet roll price qty packet i =
     (if roll \<le> 70 then
        packet\<lparr>body := put_field 17 1 (if roll mod 2 = 0 then char_of_ascii CHR ''B'' else char_of_ascii CHR ''S'')
          (put_field 13 4 qty (put_field 9 4 price (put_field 1 8 i
          (put_field 0 1 (char_of_ascii CHR ''A'') (body packet)))))\<rparr>
      else if roll \<le> 85 then
        packet\<lparr>body := put_field 1 8 (burst_target i) (put_field 0 1 (char_of_ascii CHR ''X'') (body packet))\<rparr>
      else
        packet\<lparr>body := put_field 13 4 (50 :: u32) (put_field 9 4 price (put_field 1 8 (burst_target i)
          (put_field 0 1 (char_of_ascii CHR ''M'') (body packet))))\<rparr>)"

definition generate_market_burst ::
  "(nat \<Rightarrow> nat) \<Rightarrow> (nat \<Rightarrow> u32) \<Rightarrow> (nat \<Rightarrow> u32) \<Rightarrow> (nat \<Rightarrow> PacketPayload) \<Rightarrow> nat \<Rightarrow> PacketPayload list" where
  "generate_market_burst roll price qty uninit count =
     map (\<lambda>i. burst_packet (roll i) (price i) (qty i) (uninit i) (of_nat i)) [1..<count + 1]"

text \<open>\<open>while (!queue.pop(pkt)) {}\<close>\<close>

partial_function (option) spin_pop ::
  "PacketPayload SPSCQueue \<Rightarrow> (undefined_behaviour + PacketPayload \<times> PacketPayload SPSCQueue) option" where
  "spin_pop q = seqc (pop q) (\<lambda>(r, q). case r of None \<Rightarrow> spin_pop q | Some p \<Rightarrow> ret (p, q))"

fun push_burst :: "PacketPayload list \<Rightarrow> PacketPayload SPSCQueue \<Rightarrow> PacketPayload SPSCQueue comp" where
  "push_burst [] q = ret q"
| "push_burst (p # ps) q = seqc (push p q) (\<lambda>(ok, q). push_burst ps q)"

fun drain :: "nat \<Rightarrow> PacketPayload SPSCQueue \<Rightarrow> OrderBook \<Rightarrow> (PacketPayload SPSCQueue \<times> OrderBook) comp" where
  "drain 0 q bk = ret (q, bk)"
| "drain (Suc n) q bk =
     seqc (spin_pop q) (\<lambda>(p, q). seqc (dispatch p bk) (\<lambda>bk. drain n q bk))"

text \<open>One iteration of \<open>BM_Worker_Throughput\<close>, up to the untimed reset of the book.\<close>

definition BM_Worker_Throughput ::
  "PacketPayload list \<Rightarrow> PacketPayload SPSCQueue \<Rightarrow> OrderBook \<Rightarrow> (PacketPayload SPSCQueue \<times> OrderBook) comp" where
  "BM_Worker_Throughput burst q bk = seqc (push_burst burst q) (\<lambda>q. drain (length burst) q bk)"

lemma push_burst_law:
  "q_inv q \<Longrightarrow> length (q_contents q) + length ps \<le> unat (capacity q) \<Longrightarrow>
     \<exists>q'. push_burst ps q = ret q' \<and> q_inv q' \<and> q_contents q' = q_contents q @ ps \<and> unat (capacity q') = unat (capacity q)"
proof (induction ps arbitrary: q)
  case (Cons p ps)
  obtain q1 where q1: "push p q = ret (True, q1)" "q_inv q1" "q_contents q1 = q_contents q @ [p]"
    "unat (capacity q1) = unat (capacity q)"
    using spsc.enq_room [of q p] Cons.prems by (auto simp del: length_q_contents)
  have "length (q_contents q1) + length ps \<le> unat (capacity q1)" using Cons.prems(2) q1(3,4) by (simp del: length_q_contents)
  from Cons.IH [OF q1(2) this] obtain q' where "push_burst ps q1 = ret q'" "q_inv q'" "q_contents q' = q_contents q1 @ ps"
    "unat (capacity q') = unat (capacity q1)" by blast
  then show ?case using q1 by auto
qed auto

lemma spin_pop_some:
  assumes "q_inv q" "q_contents q = p # ps"
  shows "\<exists>q'. spin_pop q = ret (p, q') \<and> q_inv q' \<and> q_contents q' = ps"
  using spsc.deq_some [OF assms] by (subst spin_pop.simps) auto

lemma drain_law:
  "q_inv q \<Longrightarrow> q_contents q = ps @ rest \<Longrightarrow> dispatch_all ps bk = ret bk' \<Longrightarrow>
     \<exists>q'. drain (length ps) q bk = ret (q', bk') \<and> q_inv q' \<and> q_contents q' = rest"
proof (induction ps arbitrary: q bk)
  case (Cons p ps)
  obtain b where b: "dispatch p bk = ret b" "dispatch_all ps b = ret bk'"
    using Cons.prems(3) by (auto simp: seqc_eq_ret_iff)
  obtain q1 where q1: "spin_pop q = ret (p, q1)" "q_inv q1" "q_contents q1 = ps @ rest"
    using spin_pop_some [OF Cons.prems(1)] Cons.prems(2) by auto
  obtain q' where "drain (length ps) q1 b = ret (q', bk')" "q_inv q'" "q_contents q' = rest"
    using Cons.IH [OF q1(2,3) b(2)] by blast
  then show ?case using q1(1) b(1) by simp
qed auto

lemma field_put_same: "off \<le> length bs \<Longrightarrow> LENGTH('a) = 8 * n \<Longrightarrow> field off n (put_field off n (v :: 'a::len word) bs) = v"
  by (simp add: field_def put_field_def of_le_bytes)

lemma field_put_before: "off + n \<le> off' \<Longrightarrow> off' \<le> length bs \<Longrightarrow> field off n (put_field off' m v bs) = field off n bs"
  by (simp add: field_def put_field_def take_drop min_def)

lemma length_put_field: "off + n \<le> length bs \<Longrightarrow> length (put_field off n v bs) = length bs"
  by (simp add: put_field_def)

lemma burst_packet_command:
  assumes "payload_ok packet"
  shows "packet_command (burst_packet roll price qty packet i) =
    [if roll \<le> 70 then AddOrder i price qty (roll mod 2 = 0)
     else if roll \<le> 85 then CancelOrder (burst_target i) else ModifyOrder (burst_target i) price 50]"
  using assms
  by (simp add: burst_packet_def packet_command_def header_def add_msg_def cancel_msg_def modify_msg_def
      payload_ok_def PAYLOAD_SIZE_def field_put_same field_put_before length_put_field)

section \<open>Properties\<close>

lemma BM_past_end:
  assumes "empty_book bk" "MAX_ORDERS \<le> unat i"
  shows "BM_Modify_InPlace (i, bk) = undef OutOfBounds" "BM_Modify_CancelReplace (i, bk) = undef OutOfBounds"
    "BM_Match_AggressiveOrder (i, bk) = undef OutOfBounds"
  using add_past_end [OF assms]
  by (simp_all add: BM_Modify_InPlace_def BM_Modify_CancelReplace_def BM_Match_AggressiveOrder_def UINT32_MAX_def)

lemma bm_in_place_fails:
  assumes "MAX_ORDERS \<le> n"
  shows "bm_iterations BM_Modify_InPlace n (1, OrderBook_init) = undef OutOfBounds"
    "bm_iterations BM_Modify_CancelReplace n (1, OrderBook_init) = undef OutOfBounds"
proof -
  have n: "MAX_ORDERS - 1 < MAX_ORDERS" "MAX_ORDERS - 1 < n" using assms by (simp_all add: MAX_ORDERS_def)
  have i: "MAX_ORDERS \<le> unat (of_nat (1 + (MAX_ORDERS - 1) * 1) :: u64)" by (simp add: MAX_ORDERS_def)
  show "bm_iterations BM_Modify_InPlace n (1, OrderBook_init) = undef OutOfBounds"
  proof -
    obtain bk where bk: "bm_iterations BM_Modify_InPlace (MAX_ORDERS - 1) (1, OrderBook_init) =
        ret (of_nat (1 + (MAX_ORDERS - 1) * 1), bk)" "empty_book bk" using bm_in_place_until [OF n(1)] by auto
    show ?thesis by (rule bm_iterations_fails [OF bk(1) BM_past_end(1) [OF bk(2) i] n(2)])
  qed
  show "bm_iterations BM_Modify_CancelReplace n (1, OrderBook_init) = undef OutOfBounds"
  proof -
    obtain bk where bk: "bm_iterations BM_Modify_CancelReplace (MAX_ORDERS - 1) (1, OrderBook_init) =
        ret (of_nat (1 + (MAX_ORDERS - 1) * 1), bk)" "empty_book bk" using bm_cancel_replace_until [OF n(1)] by auto
    show ?thesis by (rule bm_iterations_fails [OF bk(1) BM_past_end(2) [OF bk(2) i] n(2)])
  qed
qed

text \<open>The modify benchmarks of \<open>bench_orderbook.cpp\<close> use a fresh identifier in every iteration and never reset it: up to
  1499999 iterations they run on a book that is empty between iterations, and from 1500000 iterations on (a fraction of
  a second at the published speed) they access the order map out of bounds.\<close>

theorem benchmark_leaves_order_map:
  "(n < MAX_ORDERS \<longrightarrow>
      (\<exists>bk. bm_iterations BM_Modify_InPlace n (1, OrderBook_init) = ret (of_nat (1 + n * 1), bk) \<and> abs_book bk = EMPTY_BOOK) \<and>
      (\<exists>bk. bm_iterations BM_Modify_CancelReplace n (1, OrderBook_init) = ret (of_nat (1 + n * 1), bk) \<and> abs_book bk = EMPTY_BOOK)) \<and>
   (MAX_ORDERS \<le> n \<longrightarrow>
      bm_iterations BM_Modify_InPlace n (1, OrderBook_init) = undef OutOfBounds \<and>
      bm_iterations BM_Modify_CancelReplace n (1, OrderBook_init) = undef OutOfBounds)"
  using bm_in_place_until bm_cancel_replace_until bm_in_place_fails by blast

lemma benchmark_leaves_order_map_witness:
  "(\<exists>bk. bm_iterations BM_Modify_InPlace 1499999 (1, OrderBook_init) = ret (of_nat (1 + 1499999 * 1), bk) \<and> abs_book bk = EMPTY_BOOK) \<and>
   bm_iterations BM_Modify_InPlace 1500000 (1, OrderBook_init) = undef OutOfBounds"
proof -
  have "1499999 < MAX_ORDERS" "MAX_ORDERS \<le> 1500000" by (simp_all add: MAX_ORDERS_def)
  then show ?thesis
    using benchmark_leaves_order_map [of 1499999] benchmark_leaves_order_map [of 1500000] by blast
qed

text \<open>One iteration of the worker benchmark: a burst that fits the ring is pushed completely, the drain loop never spins on
  an empty ring, and the book ends as if the burst had been dispatched directly and in order; the ring is
  empty again for the next iteration.\<close>

theorem worker_benchmark_dispatches_burst:
  assumes "q_inv q" "q_contents q = []" "length burst \<le> unat (capacity q)" "dispatch_all burst bk = ret bk'"
  shows "\<exists>q'. BM_Worker_Throughput burst q bk = ret (q', bk') \<and> q_inv q' \<and> q_contents q' = []"
proof -
  obtain q1 where q1: "push_burst burst q = ret q1" "q_inv q1" "q_contents q1 = burst @ []"
    using push_burst_law [OF assms(1), of burst] assms(2,3) by auto
  from drain_law [OF q1(2,3) assms(4)] q1(1) show ?thesis by (simp add: BM_Worker_Throughput_def)
qed

lemma worker_benchmark_dispatches_burst_witness:
  "\<exists>q' bk'. BM_Worker_Throughput [\<lparr>ingress_tsc = 0, body = create_cancel_order 7\<rparr>] (SPSCQueue_new 131072) OrderBook_init = ret (q', bk') \<and>
     q_contents q' = []"
proof -
  let ?p = "\<lparr>ingress_tsc = 0, body = create_cancel_order 7\<rparr>"
  have cap: "has_single_bit 131072" unfolding has_single_bit_def by (intro exI [of _ 17]) simp
  obtain bk' where "cancel_order 7 OrderBook_init = ret bk'"
    using cancel_order_book [OF OrderBook_init_inv(1), of 7] by (auto simp: MAX_ORDERS_def)
  then have "dispatch_all [?p] OrderBook_init = ret bk'"
    using packet_command_created(2) [of ?p 7] by (simp add: dispatch_commands)
  from worker_benchmark_dispatches_burst [OF SPSCQueue_new_inv [OF cap] _ this]
  show ?thesis by (auto simp: SPSCQueue_new_def)
qed

text \<open>The burst generator computes \<open>max(1, i - 5)\<close> in unsigned arithmetic: for the first four packets the difference wraps
  around, so a cancel or a modify drawn there names an identifier near \<open>2 ^ 64\<close>, and dispatching it accesses the order
  map out of bounds; from the fifth packet on the target is an identifier in range.\<close>

theorem burst_target_wraps:
  assumes "payload_ok packet" "70 < roll" "0 < i" "book_inv T N bk"
  shows "(i < 5 \<longrightarrow> dispatch (burst_packet roll price qty packet i) bk = undef OutOfBounds) \<and>
    (5 \<le> i \<longrightarrow> 1 \<le> unat (burst_target i) \<and> unat (burst_target i) < unat i)"
proof (intro conjI impI)
  have cmd: "packet_command (burst_packet roll price qty packet i) =
      [if roll \<le> 85 then CancelOrder (burst_target i) else ModifyOrder (burst_target i) price 50]"
    using burst_packet_command [OF assms(1), of roll price qty i] assms(2) by simp
  have N: "vsize (order_map bk) = N" "N \<le> 2 ^ 32"
    using heap_invD(1) [OF book_invD(1) [OF assms(4)]] by (simp_all add: book_sizes_def)
  assume "i < 5"
  then show "dispatch (burst_packet roll price qty packet i) bk = undef OutOfBounds"
  proof -
    have "unat i \<in> {1, 2, 3, 4}" using \<open>i < 5\<close> assms(3) by (auto simp: word_less_nat_alt)
    then have "i \<in> {1, 2, 3, 4}" by (auto simp: word_unat_eq_iff)
    then have "2 ^ 32 \<le> unat (burst_target i)" by (auto simp: burst_target_def max_def word_le_nat_alt unsigned_minus_1_eq_mask mask_eq_exp_minus_1)
    then show ?thesis using cancel_out_of_range modify_out_of_range N by (simp add: dispatch_commands cmd)
  qed
next
  assume five: "5 \<le> i"
  have "unat (i - 5) = unat i - 5" using unat_sub [OF five] by simp
  then show "1 \<le> unat (burst_target i)" "unat (burst_target i) < unat i"
    using five by (auto simp: burst_target_def max_def word_le_nat_alt)
qed

lemma burst_target_wraps_witness:
  "dispatch (burst_packet 80 0 0 \<lparr>ingress_tsc = 0, body = replicate 56 0\<rparr> 1) OrderBook_init = undef OutOfBounds \<and>
   1 \<le> unat (burst_target 6) \<and> unat (burst_target 6) < unat (6 :: u64)"
proof -
  have p: "payload_ok \<lparr>ingress_tsc = 0, body = replicate 56 0\<rparr>" by (simp add: payload_ok_def PAYLOAD_SIZE_def)
  show ?thesis
    using burst_target_wraps [OF p, of 80 1 MAX_TICKS MAX_ORDERS OrderBook_init 0 0]
      burst_target_wraps [OF p, of 80 6 MAX_TICKS MAX_ORDERS OrderBook_init 0 0] OrderBook_init_inv(1)
    by (simp add: word_less_nat_alt word_le_nat_alt)
qed

end
