(* ===== verification/AsioOpQueue.thy ===== *)
theory AsioOpQueue
  imports Prelude
begin

text \<open>
  The intrusive operation queue of \<^verbatim>\<open>include/asio/detail/op_queue.hpp\<close>, on which the scheduler, the
  reactor and the signal service of the vendored Asio keep their operations. Operations are
  addresses; the \<open>next_\<close> field of every operation is a function, so that linking an operation
  into a queue changes the heap that all queues share.
\<close>

section \<open>Model\<close>

type_synonym next_heap = "nat \<Rightarrow> ptr"

record op_queue =
  qfront :: ptr
  qback :: ptr

definition op_queue_new :: op_queue where
  "op_queue_new = \<lparr>qfront = None, qback = None\<rparr>"

definition oq_front :: "op_queue \<Rightarrow> ptr" where
  "oq_front q = qfront q"

definition oq_pop :: "op_queue \<Rightarrow> next_heap \<Rightarrow> op_queue \<times> next_heap" where
  "oq_pop q h =
     (case qfront q of
        None \<Rightarrow> (q, h)
      | Some tmp \<Rightarrow>
          let q = q\<lparr>qfront := h tmp\<rparr>;
              q = (if qfront q = None then q\<lparr>qback := None\<rparr> else q)
          in (q, h(tmp := None)))"

definition oq_push :: "nat \<Rightarrow> op_queue \<Rightarrow> next_heap \<Rightarrow> op_queue \<times> next_heap" where
  "oq_push o_new q h =
     (let h = h(o_new := None) in
      case qback q of
        Some b \<Rightarrow> (q\<lparr>qback := Some o_new\<rparr>, h(b := Some o_new))
      | None \<Rightarrow> (q\<lparr>qfront := Some o_new, qback := Some o_new\<rparr>, h))"

text \<open>Moving all operations of \<open>q2\<close> to the back of \<open>q1\<close>.\<close>

definition oq_push_queue :: "op_queue \<Rightarrow> op_queue \<Rightarrow> next_heap \<Rightarrow> op_queue \<times> op_queue \<times> next_heap" where
  "oq_push_queue q2 q1 h =
     (case qfront q2 of
        None \<Rightarrow> (q1, q2, h)
      | Some other_front \<Rightarrow>
          let (q1, h) = (case qback q1 of
                           Some b \<Rightarrow> (q1, h(b := Some other_front))
                         | None \<Rightarrow> (q1\<lparr>qfront := Some other_front\<rparr>, h))
          in (q1\<lparr>qback := qback q2\<rparr>, q2\<lparr>qfront := None, qback := None\<rparr>, h))"

definition oq_empty :: "op_queue \<Rightarrow> bool" where
  "oq_empty q \<longleftrightarrow> qfront q = None"

definition oq_is_enqueued :: "nat \<Rightarrow> op_queue \<Rightarrow> next_heap \<Rightarrow> bool" where
  "oq_is_enqueued o_op q h \<longleftrightarrow> h o_op \<noteq> None \<or> qback q = Some o_op"

text \<open>The destructor: pop and destroy until the queue is empty. It yields the destroyed operations.\<close>

partial_function (option) oq_destroy :: "op_queue \<Rightarrow> next_heap \<Rightarrow> nat list option" where
  "oq_destroy q h =
     (case oq_front q of
        None \<Rightarrow> Some []
      | Some x \<Rightarrow> (let (q, h) = oq_pop q h in Option.bind (oq_destroy q h) (\<lambda>xs. Some (x # xs))))"

section \<open>Abstraction to lists\<close>

fun opseg :: "next_heap \<Rightarrow> ptr \<Rightarrow> nat list \<Rightarrow> bool" where
  "opseg h p [] \<longleftrightarrow> p = None"
| "opseg h p (x # xs) \<longleftrightarrow> p = Some x \<and> opseg h (h x) xs"

definition oq_list :: "op_queue \<Rightarrow> next_heap \<Rightarrow> nat list \<Rightarrow> bool" where
  "oq_list q h xs \<longleftrightarrow> opseg h (qfront q) xs \<and> distinct xs \<and> qback q = (if xs = [] then None else Some (last xs))"

lemma opseg_upd [simp]: "x \<notin> set xs \<Longrightarrow> opseg (h(x := y)) p xs = opseg h p xs"
  by (induction xs arbitrary: p) auto

lemma opseg_append: "opseg h p (xs @ [x]) \<Longrightarrow> opseg h None ys \<Longrightarrow> h x = None"
  by (induction xs arbitrary: p) auto

lemma opseg_link:
  "distinct (xs @ ys) \<Longrightarrow> xs \<noteq> [] \<Longrightarrow> opseg h p xs \<Longrightarrow> opseg h q ys \<Longrightarrow> opseg (h(last xs := q)) p (xs @ ys)"
proof (induction xs arbitrary: p)
  case (Cons x xs)
  then show ?case
  proof (cases "xs = []")
    case True
    then show ?thesis using Cons.prems by (simp del: fun_upd_apply add: fun_upd_same)
  next
    case False
    then have "last xs \<in> set xs" by simp
    then show ?thesis using Cons False by auto
  qed
qed simp

lemma opseg_next_None: "distinct xs \<Longrightarrow> opseg h p xs \<Longrightarrow> x \<in> set xs \<Longrightarrow> h x = None \<longleftrightarrow> x = last xs"
  by (induction xs arbitrary: p) (auto simp: neq_Nil_conv, (metis last_in_set)+)

lemma oq_new_list: "oq_list op_queue_new h []"
  by (simp add: oq_list_def op_queue_new_def)

lemma oq_front_list: "oq_list q h xs \<Longrightarrow> oq_front q = (case xs of [] \<Rightarrow> None | x # _ \<Rightarrow> Some x)"
  by (cases xs) (simp_all add: oq_list_def oq_front_def)

lemma oq_empty_list: "oq_list q h xs \<Longrightarrow> oq_empty q \<longleftrightarrow> xs = []"
  by (cases xs) (simp_all add: oq_list_def oq_empty_def)

lemma oq_pop_list:
  assumes "oq_list q h xs"
  shows "oq_list (fst (oq_pop q h)) (snd (oq_pop q h)) (tl xs)"
    "\<And>x. x \<notin> set xs \<Longrightarrow> snd (oq_pop q h) x = h x"
  using assms by (cases xs; cases "tl xs"; auto simp: oq_list_def oq_pop_def Let_def)+

lemma oq_push_list:
  assumes "oq_list q h xs" "x \<notin> set xs"
  shows "oq_list (fst (oq_push x q h)) (snd (oq_push x q h)) (xs @ [x])"
proof (cases "xs = []")
  case True
  then show ?thesis using assms by (simp add: oq_list_def oq_push_def)
next
  case False
  have "opseg (h(x := None)) (qfront q) xs" "opseg (h(x := None)) (Some x) [x]"
    using assms by (simp_all add: oq_list_def)
  from opseg_link [OF _ False this] show ?thesis
    using assms False by (auto simp: oq_list_def oq_push_def Let_def)
qed

lemma oq_push_queue_list:
  assumes "oq_list q1 h xs" "oq_list q2 h ys" "set xs \<inter> set ys = {}"
  shows "case oq_push_queue q2 q1 h of (q1', q2', h') \<Rightarrow> oq_list q1' h' (xs @ ys) \<and> oq_list q2' h' []"
proof (cases "ys = []")
  case True
  then show ?thesis using assms by (auto simp: oq_list_def oq_push_queue_def)
next
  case ys: False
  then obtain y where y: "qfront q2 = Some y" using assms(2) by (cases ys) (auto simp: oq_list_def)
  show ?thesis
  proof (cases "xs = []")
    case True
    then show ?thesis using assms ys y by (auto simp: oq_list_def oq_push_queue_def Let_def)
  next
    case False
    have "opseg (h(last xs := qfront q2)) (qfront q1) (xs @ ys)"
      using assms False by (intro opseg_link) (auto simp: oq_list_def)
    then show ?thesis using assms ys y False by (auto simp: oq_list_def oq_push_queue_def Let_def)
  qed
qed

lemma oq_is_enqueued_list:
  assumes "oq_list q h xs"
  shows "x \<in> set xs \<Longrightarrow> oq_is_enqueued x q h"
    and "x \<notin> set xs \<Longrightarrow> h x = None \<Longrightarrow> \<not> oq_is_enqueued x q h"
  using assms opseg_next_None [of xs h "qfront q" x]
  by (auto simp: oq_list_def oq_is_enqueued_def split: if_splits)

lemma oq_destroy_list: "oq_list q h xs \<Longrightarrow> oq_destroy q h = Some xs"
proof (induction xs arbitrary: q h)
  case Nil
  then show ?case using oq_front_list [OF Nil] by (subst oq_destroy.simps) simp
next
  case (Cons x xs)
  have "oq_destroy (fst (oq_pop q h)) (snd (oq_pop q h)) = Some xs"
    using oq_pop_list(1) [OF Cons.prems] Cons.IH by simp
  then show ?case
    using oq_front_list [OF Cons.prems] by (subst oq_destroy.simps) (simp add: case_prod_beta)
qed

section \<open>The queue interface\<close>

text \<open>What the scheduler, the reactor and the signal service rely on: queues that share one heap of links behave
  as disjoint lists. The loop \<open>while (op = front) { pop; other.push(op); }\<close> of their cancel operations then moves
  the whole list.\<close>

locale intrusive_queue =
  fixes rel :: "'q \<Rightarrow> 'h \<Rightarrow> nat list \<Rightarrow> bool"
    and front :: "'q \<Rightarrow> nat option"
    and pop :: "'q \<Rightarrow> 'h \<Rightarrow> 'q \<times> 'h"
    and push :: "nat \<Rightarrow> 'q \<Rightarrow> 'h \<Rightarrow> 'q \<times> 'h"
  assumes front_law: "rel q h xs \<Longrightarrow> front q = (case xs of [] \<Rightarrow> None | x # _ \<Rightarrow> Some x)"
    and pop_law: "rel q h xs \<Longrightarrow> rel (fst (pop q h)) (snd (pop q h)) (tl xs)"
    and pop_frame: "rel q h xs \<Longrightarrow> rel q' h ys \<Longrightarrow> set xs \<inter> set ys = {} \<Longrightarrow> rel q' (snd (pop q h)) ys"
    and push_law: "rel q h xs \<Longrightarrow> x \<notin> set xs \<Longrightarrow> rel (fst (push x q h)) (snd (push x q h)) (xs @ [x])"
    and push_frame: "rel q h xs \<Longrightarrow> rel q' h ys \<Longrightarrow> set xs \<inter> set ys = {} \<Longrightarrow> x \<notin> set ys \<Longrightarrow>
      rel q' (snd (push x q h)) ys"
    and distinct_law: "rel q h xs \<Longrightarrow> distinct xs"
begin

primrec move_all :: "nat \<Rightarrow> 'q \<Rightarrow> 'q \<Rightarrow> 'h \<Rightarrow> 'q \<times> 'q \<times> 'h" where
  "move_all 0 q1 q2 h = (q1, q2, h)"
| "move_all (Suc n) q1 q2 h =
     (case front q1 of
        None \<Rightarrow> (q1, q2, h)
      | Some x \<Rightarrow> let (q1, h) = pop q1 h; (q2, h) = push x q2 h in move_all n q1 q2 h)"

lemma move_all_list:
  assumes "rel q1 h xs" "rel q2 h ys" "set xs \<inter> set ys = {}" "length xs \<le> n"
  shows "\<exists>q1' q2' h'. move_all n q1 q2 h = (q1', q2', h') \<and> rel q1' h' [] \<and> rel q2' h' (ys @ xs)"
  using assms
proof (induction n arbitrary: q1 q2 h xs ys)
  case (Suc n)
  show ?case
  proof (cases xs)
    case Nil
    then show ?thesis using Suc.prems front_law [OF Suc.prems(1)] by auto
  next
    case (Cons x zs)
    obtain q1a ha where p: "pop q1 h = (q1a, ha)" by fastforce
    obtain q2a hb where u: "push x q2 ha = (q2a, hb)" by fastforce
    have z: "x \<notin> set zs" "x \<notin> set ys" "set zs \<inter> set ys = {}"
      using Suc.prems(3) distinct_law [OF Suc.prems(1)] Cons by auto
    have 1: "rel q1a ha zs" "rel q2 ha ys"
      using pop_law [OF Suc.prems(1)] pop_frame [OF Suc.prems(1,2,3)] by (simp_all add: p Cons)
    have 2: "rel q2a hb (ys @ [x])" "rel q1a hb zs"
      using push_law [OF 1(2) z(2)] push_frame [OF 1(2,1), of x] z by (auto simp: u)
    have "\<exists>q1' q2' h'. move_all n q1a q2a hb = (q1', q2', h') \<and> rel q1' h' [] \<and> rel q2' h' ((ys @ [x]) @ zs)"
      using 2 z Suc.prems(4) Cons by (intro Suc.IH) auto
    then show ?thesis using front_law [OF Suc.prems(1)] by (simp add: Cons p u)
  qed
qed auto

end

lemma oq_pop_frame:
  assumes "oq_list q h xs" "oq_list q' h ys" "set xs \<inter> set ys = {}"
  shows "oq_list q' (snd (oq_pop q h)) ys"
proof (cases xs)
  case (Cons x zs)
  then have "snd (oq_pop q h) = h(x := None)" "x \<notin> set ys"
    using assms by (auto simp: oq_list_def oq_pop_def Let_def)
  then show ?thesis using assms(2) by (simp add: oq_list_def)
qed (use assms in \<open>auto simp: oq_list_def oq_pop_def\<close>)

lemma oq_push_frame:
  assumes "oq_list q h xs" "oq_list q' h ys" "set xs \<inter> set ys = {}" "x \<notin> set ys"
  shows "oq_list q' (snd (oq_push x q h)) ys"
proof (cases "xs = []")
  case False
  then have "last xs \<notin> set ys" using assms(3) last_in_set by fastforce
  then show ?thesis using assms False by (simp add: oq_list_def oq_push_def Let_def)
qed (use assms in \<open>auto simp: oq_list_def oq_push_def\<close>)

interpretation opq: intrusive_queue oq_list oq_front oq_pop oq_push
proof
  show "oq_front q = (case xs of [] \<Rightarrow> None | x # _ \<Rightarrow> Some x)" if "oq_list q h xs" for q h xs
    using that by (rule oq_front_list)
  show "oq_list (fst (oq_pop q h)) (snd (oq_pop q h)) (tl xs)" if "oq_list q h xs" for q h xs
    using that by (rule oq_pop_list(1))
  show "distinct xs" if "oq_list q h xs" for q h xs
    using that by (simp add: oq_list_def)
qed (use oq_push_list oq_pop_frame oq_push_frame in blast)+

text \<open>The intrusive queue implements a FIFO list of distinct operations: \<open>front\<close> and \<open>pop\<close>
  work on the oldest operation, \<open>push\<close> appends one, splicing appends a whole other queue and empties it,
  \<open>is_enqueued\<close> finds exactly the members, the destructor destroys every operation once in order, and no
  operation on one queue disturbs another one.\<close>

theorem op_queue_refines_list:
  assumes "oq_list q h xs" "oq_list q' h ys" "set xs \<inter> set ys = {}" "x \<notin> set xs" "x \<notin> set ys"
  shows "oq_front q = (case xs of [] \<Rightarrow> None | y # _ \<Rightarrow> Some y) \<and> (oq_empty q \<longleftrightarrow> xs = []) \<and>
    (case oq_pop q h of (q1, h1) \<Rightarrow> oq_list q1 h1 (tl xs) \<and> oq_list q' h1 ys) \<and>
    (case oq_push x q h of (q1, h1) \<Rightarrow> oq_list q1 h1 (xs @ [x]) \<and> oq_list q' h1 ys) \<and>
    (case oq_push_queue q' q h of (q1, q2, h1) \<Rightarrow> oq_list q1 h1 (xs @ ys) \<and> oq_list q2 h1 []) \<and>
    (\<exists>q1 q2 h1. opq.move_all (length xs) q q' h = (q1, q2, h1) \<and> oq_list q1 h1 [] \<and> oq_list q2 h1 (ys @ xs)) \<and>
    (\<forall>y. h y = None \<or> y \<in> set xs \<longrightarrow> (oq_is_enqueued y q h \<longleftrightarrow> y \<in> set xs)) \<and>
    oq_destroy q h = Some xs"
  using assms oq_front_list oq_empty_list oq_pop_list(1) oq_pop_frame oq_push_list oq_push_frame
    oq_push_queue_list [OF assms(1-3)] opq.move_all_list [OF assms(1-3)] oq_is_enqueued_list [OF assms(1)] oq_destroy_list
  by (auto simp: case_prod_beta)

theorem op_queue_refines_list_witness:
  "oq_front \<lparr>qfront = Some 1, qback = Some 2\<rparr> = Some 1 \<and>
   oq_destroy \<lparr>qfront = Some 1, qback = Some 2\<rparr> ((\<lambda>_. None)(1 := Some 2)) = Some [1, 2]"
proof -
  have q: "oq_list \<lparr>qfront = Some 1, qback = Some 2\<rparr> ((\<lambda>_. None)(1 := Some 2)) [1, 2]"
    "oq_list op_queue_new ((\<lambda>_. None)(1 := Some 2)) []"
    by (simp_all add: oq_list_def op_queue_new_def)
  show ?thesis using op_queue_refines_list [OF q, of 3] by simp
qed

end
