(* ===== verification/AsioScheduler.thy ===== *)
theory AsioScheduler
  imports AsioOpQueue
begin

text \<open>
  The scheduler behind \<open>asio::io_context\<close> (\<^verbatim>\<open>include/asio/detail/impl/scheduler.ipp\<close>), as the program uses it:
  one thread calls \<open>run\<close>. Locks are dropped; operation queues are lists, which
  \<open>AsioOpQueue\<close> refines. What the queued operations and the reactor do is outside and given by
  an environment: \<open>env_complete\<close> (the completion of an operation, which may call the scheduler back),
  \<open>env_task_run\<close> (one run of the reactor), \<open>env_interrupt\<close>. A call that blocks for ever is \<open>None\<close>.
  Exceptions thrown by handlers are not modelled.
\<close>

section \<open>The wake-up event\<close>

text \<open>\<open>posix_event\<close>: bit 0 of the state says signalled, the rest counts waiters twice.\<close>

definition ev_signal_all :: "nat \<Rightarrow> nat" where
  "ev_signal_all st = (st OR 1)"

definition ev_unlock_and_signal_one :: "nat \<Rightarrow> nat" where
  "ev_unlock_and_signal_one st = (st OR 1)"

definition ev_maybe_signal_one :: "nat \<Rightarrow> bool \<times> nat" where
  "ev_maybe_signal_one st = (let st = st OR 1 in (st > 1, st))"

definition ev_clear :: "nat \<Rightarrow> nat" where
  "ev_clear st = 2 * (st div 2)"

text \<open>With no other thread to signal it, a wait on an event that is not signalled never returns, and a timed wait
  returns after its time with the state it had.\<close>

definition ev_wait :: "nat \<Rightarrow> nat option" where
  "ev_wait st = (if st AND 1 = 0 then None else Some st)"

definition ev_wait_for_usec :: "int \<Rightarrow> nat \<Rightarrow> bool \<times> nat" where
  "ev_wait_for_usec usec st = (st AND 1 \<noteq> 0, st)"

section \<open>State\<close>

datatype 'o sched_op = TaskOp | Op 'o

record ('o, 'w) scheduler =
  op_q :: "'o sched_op list"
  task_set :: bool
  task_interrupted :: bool
  sched_stopped :: bool
  sched_shutdown :: bool
  outstanding_work :: int
  one_thread :: bool
  task_usec :: int
  wait_usec :: int
  wakeup_event :: nat
  in_scheduler :: bool                   \<comment> \<open>the call stack of this thread contains the scheduler\<close>
  private_work :: int
  private_q :: "'o sched_op list"
  world :: 'w

record ('o, 'w) sched_env =
  env_task_run :: "int \<Rightarrow> 'w \<Rightarrow> ('o list \<times> 'w) option"
  env_interrupt :: "'w \<Rightarrow> 'w"
  env_result :: "'o \<Rightarrow> 'w \<Rightarrow> u32"
  env_complete :: "'o \<Rightarrow> u32 \<Rightarrow> ('o, 'w) scheduler \<Rightarrow> ('o, 'w) scheduler option"

definition scheduler_new :: "int \<Rightarrow> int \<Rightarrow> int \<Rightarrow> 'w \<Rightarrow> ('o, 'w) scheduler" where
  "scheduler_new concurrency_hint t_usec w_usec w =
     \<lparr>op_q = [], task_set = False, task_interrupted = True, sched_stopped = False, sched_shutdown = False,
      outstanding_work = 0, one_thread = (concurrency_hint = 1), task_usec = t_usec, wait_usec = w_usec,
      wakeup_event = 0, in_scheduler = False, private_work = 0, private_q = [], world = w\<rparr>"

section \<open>Waking and stopping\<close>

definition interrupt_task :: "('w \<Rightarrow> 'w) \<Rightarrow> ('o, 'w) scheduler \<Rightarrow> ('o, 'w) scheduler" where
  "interrupt_task intr s =
     (if \<not> task_interrupted s \<and> task_set s
      then s\<lparr>task_interrupted := True, world := intr (world s)\<rparr> else s)"

definition stop_all_threads :: "('w \<Rightarrow> 'w) \<Rightarrow> ('o, 'w) scheduler \<Rightarrow> ('o, 'w) scheduler" where
  "stop_all_threads intr s =
     interrupt_task intr (s\<lparr>sched_stopped := True, wakeup_event := ev_signal_all (wakeup_event s)\<rparr>)"

definition wake_one_thread_and_unlock :: "('w \<Rightarrow> 'w) \<Rightarrow> ('o, 'w) scheduler \<Rightarrow> ('o, 'w) scheduler" where
  "wake_one_thread_and_unlock intr s =
     (if wait_usec s = 0 then interrupt_task intr s
      else
        let (signalled, st) = ev_maybe_signal_one (wakeup_event s);
            s = s\<lparr>wakeup_event := st\<rparr>
        in if \<not> signalled then interrupt_task intr s else s)"

definition sched_stop :: "('w \<Rightarrow> 'w) \<Rightarrow> ('o, 'w) scheduler \<Rightarrow> ('o, 'w) scheduler" where
  "sched_stop intr s = stop_all_threads intr s"

definition sched_is_stopped :: "('o, 'w) scheduler \<Rightarrow> bool" where
  "sched_is_stopped s = sched_stopped s"

definition sched_restart :: "('o, 'w) scheduler \<Rightarrow> ('o, 'w) scheduler" where
  "sched_restart s = s\<lparr>sched_stopped := False\<rparr>"

definition init_task :: "('w \<Rightarrow> 'w) \<Rightarrow> ('o, 'w) scheduler \<Rightarrow> ('o, 'w) scheduler" where
  "init_task intr s =
     (if \<not> sched_shutdown s \<and> \<not> task_set s
      then wake_one_thread_and_unlock intr (s\<lparr>task_set := True, op_q := op_q s @ [TaskOp]\<rparr>) else s)"

text \<open>\<open>shutdown\<close> without an own thread: it yields the operations that are destroyed.\<close>

definition sched_shut_down :: "('o, 'w) scheduler \<Rightarrow> 'o sched_op list \<times> ('o, 'w) scheduler" where
  "sched_shut_down s =
     (filter (\<lambda>o_op. o_op \<noteq> TaskOp) (op_q s), s\<lparr>sched_shutdown := True, op_q := [], task_set := False\<rparr>)"

section \<open>Counting work\<close>

definition work_started :: "('o, 'w) scheduler \<Rightarrow> ('o, 'w) scheduler" where
  "work_started s = s\<lparr>outstanding_work := outstanding_work s + 1\<rparr>"

definition work_finished :: "('w \<Rightarrow> 'w) \<Rightarrow> ('o, 'w) scheduler \<Rightarrow> ('o, 'w) scheduler" where
  "work_finished intr s =
     (let s = s\<lparr>outstanding_work := outstanding_work s - 1\<rparr> in
      if outstanding_work s = 0 then sched_stop intr s else s)"

definition compensating_work_started :: "('o, 'w) scheduler \<Rightarrow> ('o, 'w) scheduler" where
  "compensating_work_started s = s\<lparr>private_work := private_work s + 1\<rparr>"

definition can_dispatch :: "('o, 'w) scheduler \<Rightarrow> bool" where
  "can_dispatch s = in_scheduler s"

definition task_cleanup :: "('o, 'w) scheduler \<Rightarrow> ('o, 'w) scheduler" where
  "task_cleanup s =
     (let s = (if private_work s > 0 then s\<lparr>outstanding_work := outstanding_work s + private_work s\<rparr> else s)
      in s\<lparr>private_work := 0, task_interrupted := True, op_q := op_q s @ private_q s @ [TaskOp], private_q := []\<rparr>)"

definition work_cleanup :: "('w \<Rightarrow> 'w) \<Rightarrow> ('o, 'w) scheduler \<Rightarrow> ('o, 'w) scheduler" where
  "work_cleanup intr s =
     (let s = (if private_work s > 1 then s\<lparr>outstanding_work := outstanding_work s + (private_work s - 1)\<rparr>
               else if private_work s < 1 then work_finished intr s
               else s);
          s = s\<lparr>private_work := 0\<rparr>
      in if private_q s \<noteq> [] then s\<lparr>op_q := op_q s @ private_q s, private_q := []\<rparr> else s)"

section \<open>Posting operations\<close>

definition post_immediate_completion :: "('w \<Rightarrow> 'w) \<Rightarrow> 'o \<Rightarrow> bool \<Rightarrow> ('o, 'w) scheduler \<Rightarrow> ('o, 'w) scheduler" where
  "post_immediate_completion intr o_op is_continuation s =
     (if (one_thread s \<or> is_continuation) \<and> in_scheduler s
      then s\<lparr>private_work := private_work s + 1, private_q := private_q s @ [Op o_op]\<rparr>
      else
        let s = work_started s
        in wake_one_thread_and_unlock intr (s\<lparr>op_q := op_q s @ [Op o_op]\<rparr>))"

definition post_immediate_completions :: "('w \<Rightarrow> 'w) \<Rightarrow> nat \<Rightarrow> 'o list \<Rightarrow> bool \<Rightarrow> ('o, 'w) scheduler \<Rightarrow> ('o, 'w) scheduler" where
  "post_immediate_completions intr n ops is_continuation s =
     (if (one_thread s \<or> is_continuation) \<and> in_scheduler s
      then s\<lparr>private_work := private_work s + int n, private_q := private_q s @ map Op ops\<rparr>
      else
        let s = s\<lparr>outstanding_work := outstanding_work s + int n\<rparr>
        in wake_one_thread_and_unlock intr (s\<lparr>op_q := op_q s @ map Op ops\<rparr>))"

definition post_deferred_completion :: "('w \<Rightarrow> 'w) \<Rightarrow> 'o \<Rightarrow> ('o, 'w) scheduler \<Rightarrow> ('o, 'w) scheduler" where
  "post_deferred_completion intr o_op s =
     (if one_thread s \<and> in_scheduler s
      then s\<lparr>private_q := private_q s @ [Op o_op]\<rparr>
      else wake_one_thread_and_unlock intr (s\<lparr>op_q := op_q s @ [Op o_op]\<rparr>))"

definition post_deferred_completions :: "('w \<Rightarrow> 'w) \<Rightarrow> 'o list \<Rightarrow> ('o, 'w) scheduler \<Rightarrow> ('o, 'w) scheduler" where
  "post_deferred_completions intr ops s =
     (if ops \<noteq> [] then
        if one_thread s \<and> in_scheduler s
        then s\<lparr>private_q := private_q s @ map Op ops\<rparr>
        else wake_one_thread_and_unlock intr (s\<lparr>op_q := op_q s @ map Op ops\<rparr>)
      else s)"

definition do_dispatch :: "('w \<Rightarrow> 'w) \<Rightarrow> 'o \<Rightarrow> ('o, 'w) scheduler \<Rightarrow> ('o, 'w) scheduler" where
  "do_dispatch intr o_op s =
     (let s = work_started s
      in wake_one_thread_and_unlock intr (s\<lparr>op_q := op_q s @ [Op o_op]\<rparr>))"

text \<open>The temporary queue takes the operations and its destructor destroys them.\<close>

definition abandon_operations :: "'o list \<Rightarrow> 'o list" where
  "abandon_operations ops = ops"

section \<open>Running\<close>

text \<open>Running the reactor: unlock, \<open>task_->run\<close> into the private queue, \<open>task_cleanup\<close>.\<close>

definition run_task :: "('o, 'w) sched_env \<Rightarrow> int \<Rightarrow> ('o, 'w) scheduler \<Rightarrow> ('o, 'w) scheduler option" where
  "run_task env usec s =
     Option.bind (env_task_run env usec (world s)) (\<lambda>(ops, w).
     Some (task_cleanup (s\<lparr>world := w, private_q := private_q s @ map Op ops\<rparr>)))"

text \<open>Completing an operation that has been popped: wake another thread if there is more, complete, \<open>work_cleanup\<close>.\<close>

definition complete_op :: "('o, 'w) sched_env \<Rightarrow> 'o \<Rightarrow> ('o, 'w) scheduler \<Rightarrow> ('o, 'w) scheduler option" where
  "complete_op env x s =
     (let more_handlers = (op_q s \<noteq> []);
          task_result = env_result env x (world s);
          s = (if more_handlers \<and> \<not> one_thread s then wake_one_thread_and_unlock (env_interrupt env) s else s)
      in Option.bind (env_complete env x task_result s) (\<lambda>s. Some (work_cleanup (env_interrupt env) s)))"

partial_function (option) do_run_one :: "('o, 'w) sched_env \<Rightarrow> ('o, 'w) scheduler \<Rightarrow> (nat \<times> ('o, 'w) scheduler) option" where
  "do_run_one env s =
     (if sched_stopped s then Some (0, s)
      else
        (case op_q s of
           TaskOp # rest \<Rightarrow>
             let s = s\<lparr>op_q := rest\<rparr>;
                 more_handlers = (rest \<noteq> []);
                 s = s\<lparr>task_interrupted := (more_handlers \<or> task_usec s = 0)\<rparr>;
                 s = (if more_handlers \<and> \<not> one_thread s \<and> wait_usec s \<noteq> 0
                      then s\<lparr>wakeup_event := ev_unlock_and_signal_one (wakeup_event s)\<rparr> else s)
             in Option.bind (run_task env (if more_handlers then 0 else task_usec s) s) (do_run_one env)
         | Op x # rest \<Rightarrow>
             Option.bind (complete_op env x (s\<lparr>op_q := rest\<rparr>)) (\<lambda>s. Some (1, s))
         | [] \<Rightarrow>
             if wait_usec s = 0 then do_run_one env s
             else
               let st = ev_clear (wakeup_event s) in
               if wait_usec s > 0 then do_run_one env (s\<lparr>wakeup_event := snd (ev_wait_for_usec (wait_usec s) st)\<rparr>)
               else Option.bind (ev_wait st) (\<lambda>st. do_run_one env (s\<lparr>wakeup_event := st\<rparr>))))"

text \<open>The last part of \<open>do_poll_one\<close> and \<open>do_wait_one\<close>: complete the operation at the front, if it is one.\<close>

definition pop_and_complete :: "('o, 'w) sched_env \<Rightarrow> ('o, 'w) scheduler \<Rightarrow> (nat \<times> ('o, 'w) scheduler) option" where
  "pop_and_complete env s =
     (case op_q s of
        Op x # rest \<Rightarrow> Option.bind (complete_op env x (s\<lparr>op_q := rest\<rparr>)) (\<lambda>s. Some (1, s))
      | _ \<Rightarrow> Some (0, s))"

definition do_poll_one :: "('o, 'w) sched_env \<Rightarrow> ('o, 'w) scheduler \<Rightarrow> (nat \<times> ('o, 'w) scheduler) option" where
  "do_poll_one env s =
     (if sched_stopped s then Some (0, s)
      else
        (case op_q s of
           TaskOp # rest \<Rightarrow>
             Option.bind (run_task env 0 (s\<lparr>op_q := rest\<rparr>)) (\<lambda>s.
             if hd (op_q s) = TaskOp
             then Some (0, s\<lparr>wakeup_event := snd (ev_maybe_signal_one (wakeup_event s))\<rparr>)
             else pop_and_complete env s)
         | _ \<Rightarrow> pop_and_complete env s))"

definition do_wait_one :: "('o, 'w) sched_env \<Rightarrow> int \<Rightarrow> ('o, 'w) scheduler \<Rightarrow> (nat \<times> ('o, 'w) scheduler) option" where
  "do_wait_one env usec s =
     (if sched_stopped s then Some (0, s)
      else
        let (usec, s) =
              (if op_q s = []
               then
                 let usec = (if wait_usec s \<ge> 0 \<and> wait_usec s < usec then wait_usec s else usec)
                 in (0, s\<lparr>wakeup_event := snd (ev_wait_for_usec usec (ev_clear (wakeup_event s)))\<rparr>)
               else (usec, s))
        in
        (case op_q s of
           TaskOp # rest \<Rightarrow>
             let s = s\<lparr>op_q := rest\<rparr>;
                 more_handlers = (rest \<noteq> []);
                 usec = (if task_usec s \<ge> 0 \<and> task_usec s < usec then task_usec s else usec);
                 s = s\<lparr>task_interrupted := (more_handlers \<or> usec = 0)\<rparr>;
                 s = (if more_handlers \<and> \<not> one_thread s \<and> wait_usec s \<noteq> 0
                      then s\<lparr>wakeup_event := ev_unlock_and_signal_one (wakeup_event s)\<rparr> else s)
             in Option.bind (run_task env (if more_handlers then 0 else usec) s) (\<lambda>s.
                if hd (op_q s) = TaskOp
                then Some (0, if \<not> one_thread s
                              then s\<lparr>wakeup_event := snd (ev_maybe_signal_one (wakeup_event s))\<rparr> else s)
                else pop_and_complete env s)
         | _ \<Rightarrow> pop_and_complete env s))"

text \<open>\<open>if (n != max) ++n\<close> on \<open>size_t\<close>\<close>

definition count_up :: "u64 \<Rightarrow> u64" where
  "count_up n = (if n \<noteq> - 1 then n + 1 else n)"

partial_function (option) run_loop ::
  "(('o, 'w) scheduler \<Rightarrow> (nat \<times> ('o, 'w) scheduler) option) \<Rightarrow> u64 \<Rightarrow> ('o, 'w) scheduler \<Rightarrow> (u64 \<times> ('o, 'w) scheduler) option" where
  "run_loop step n s =
     Option.bind (step s) (\<lambda>(k, s). if k = 0 then Some (n, s) else run_loop step (count_up n) s)"

text \<open>Entering the scheduler pushes a new \<open>thread_info\<close> on the call stack of the thread; leaving it gives the
  outer one back, if the call was nested.\<close>

definition enter_scheduler :: "('o, 'w) scheduler \<Rightarrow> ('o, 'w) scheduler" where
  "enter_scheduler s = s\<lparr>in_scheduler := True, private_work := 0, private_q := []\<rparr>"

definition leave_scheduler :: "('o, 'w) scheduler \<Rightarrow> ('o, 'w) scheduler \<Rightarrow> ('o, 'w) scheduler" where
  "leave_scheduler outer s =
     s\<lparr>in_scheduler := in_scheduler outer, private_work := private_work outer, private_q := private_q outer\<rparr>"

text \<open>Nested calls of \<open>poll\<close> and \<open>poll_one\<close> first move the outer private queue to the main queue.\<close>

definition flush_outer :: "('o, 'w) scheduler \<Rightarrow> ('o, 'w) scheduler" where
  "flush_outer s = (if one_thread s \<and> in_scheduler s then s\<lparr>op_q := op_q s @ private_q s, private_q := []\<rparr> else s)"

definition sched_run :: "('o, 'w) sched_env \<Rightarrow> ('o, 'w) scheduler \<Rightarrow> (u64 \<times> ('o, 'w) scheduler) option" where
  "sched_run env s =
     (if outstanding_work s = 0 then Some (0, sched_stop (env_interrupt env) s)
      else map_option (map_prod id (leave_scheduler s)) (run_loop (do_run_one env) 0 (enter_scheduler s)))"

definition sched_run_one :: "('o, 'w) sched_env \<Rightarrow> ('o, 'w) scheduler \<Rightarrow> (nat \<times> ('o, 'w) scheduler) option" where
  "sched_run_one env s =
     (if outstanding_work s = 0 then Some (0, sched_stop (env_interrupt env) s)
      else map_option (map_prod id (leave_scheduler s)) (do_run_one env (enter_scheduler s)))"

definition sched_wait_one :: "('o, 'w) sched_env \<Rightarrow> int \<Rightarrow> ('o, 'w) scheduler \<Rightarrow> (nat \<times> ('o, 'w) scheduler) option" where
  "sched_wait_one env usec s =
     (if outstanding_work s = 0 then Some (0, sched_stop (env_interrupt env) s)
      else map_option (map_prod id (leave_scheduler s)) (do_wait_one env usec (enter_scheduler s)))"

definition sched_poll :: "('o, 'w) sched_env \<Rightarrow> ('o, 'w) scheduler \<Rightarrow> (u64 \<times> ('o, 'w) scheduler) option" where
  "sched_poll env s =
     (if outstanding_work s = 0 then Some (0, sched_stop (env_interrupt env) s)
      else
        let s = flush_outer s in map_option (map_prod id (leave_scheduler s)) (run_loop (do_poll_one env) 0 (enter_scheduler s)))"

definition sched_poll_one :: "('o, 'w) sched_env \<Rightarrow> ('o, 'w) scheduler \<Rightarrow> (nat \<times> ('o, 'w) scheduler) option" where
  "sched_poll_one env s =
     (if outstanding_work s = 0 then Some (0, sched_stop (env_interrupt env) s)
      else
        let s = flush_outer s in map_option (map_prod id (leave_scheduler s)) (do_poll_one env (enter_scheduler s)))"

section \<open>Laws of the operations\<close>

lemma ev_clear_wait [simp]: "ev_wait (ev_clear st) = None"
  by (simp add: ev_wait_def ev_clear_def and_one_eq)

lemma interrupt_task_idle [simp]: "task_interrupted s \<Longrightarrow> interrupt_task intr s = s"
  by (simp add: interrupt_task_def)

text \<open>Waking a thread while the reactor is already interrupted touches the event only.\<close>

lemma wake_idle:
  assumes "task_interrupted s"
  shows "\<exists>st. wake_one_thread_and_unlock intr s = s\<lparr>wakeup_event := st\<rparr>"
proof (cases "wait_usec s = 0")
  case True
  then have "wake_one_thread_and_unlock intr s = s\<lparr>wakeup_event := wakeup_event s\<rparr>"
    using assms by (simp add: wake_one_thread_and_unlock_def)
  then show ?thesis by blast
next
  case False
  then have "wake_one_thread_and_unlock intr s = s\<lparr>wakeup_event := wakeup_event s OR 1\<rparr>"
    using assms by (simp add: wake_one_thread_and_unlock_def ev_maybe_signal_one_def Let_def)
  then show ?thesis by blast
qed

lemma interrupt_task_keeps [simp]:
  "op_q (interrupt_task intr s) = op_q s" "outstanding_work (interrupt_task intr s) = outstanding_work s"
  "private_work (interrupt_task intr s) = private_work s" "private_q (interrupt_task intr s) = private_q s"
  "sched_stopped (interrupt_task intr s) = sched_stopped s"
  "in_scheduler (interrupt_task intr s) = in_scheduler s" "one_thread (interrupt_task intr s) = one_thread s"
  by (simp_all add: interrupt_task_def)

lemma wake_keeps [simp]:
  "op_q (wake_one_thread_and_unlock intr s) = op_q s"
  "outstanding_work (wake_one_thread_and_unlock intr s) = outstanding_work s"
  "private_work (wake_one_thread_and_unlock intr s) = private_work s"
  "private_q (wake_one_thread_and_unlock intr s) = private_q s"
  "sched_stopped (wake_one_thread_and_unlock intr s) = sched_stopped s"
  "in_scheduler (wake_one_thread_and_unlock intr s) = in_scheduler s"
  "one_thread (wake_one_thread_and_unlock intr s) = one_thread s"
  by (simp_all add: wake_one_thread_and_unlock_def Let_def split: prod.splits)

lemma sched_stop_keeps [simp]:
  "op_q (sched_stop intr s) = op_q s" "outstanding_work (sched_stop intr s) = outstanding_work s"
  "private_work (sched_stop intr s) = private_work s" "private_q (sched_stop intr s) = private_q s"
  "sched_stopped (sched_stop intr s)"
  by (simp_all add: sched_stop_def stop_all_threads_def)

text \<open>The queue and the work counter after the two clean-up objects.\<close>

lemma work_cleanup_queue [simp]:
  "op_q (work_cleanup intr s) = op_q s @ private_q s"
  "private_q (work_cleanup intr s) = []" "private_work (work_cleanup intr s) = 0"
  by (auto simp: work_cleanup_def work_finished_def Let_def)

lemma work_cleanup_work:
  assumes "private_work s \<ge> 0"
  shows "outstanding_work (work_cleanup intr s) = outstanding_work s + private_work s - 1"
  using assms by (auto simp: work_cleanup_def work_finished_def Let_def)

lemma work_cleanup_stopped:
  assumes "private_work s \<ge> 0"
  shows "sched_stopped (work_cleanup intr s) =
    (sched_stopped s \<or> (private_work s = 0 \<and> outstanding_work s = 1))"
  using assms by (auto simp: work_cleanup_def work_finished_def Let_def)

lemma task_cleanup_queue [simp]:
  "op_q (task_cleanup s) = op_q s @ private_q s @ [TaskOp]"
  "private_q (task_cleanup s) = []" "private_work (task_cleanup s) = 0"
  "sched_stopped (task_cleanup s) = sched_stopped s" "task_interrupted (task_cleanup s)"
  by (auto simp: task_cleanup_def Let_def)

lemma task_cleanup_work:
  "private_work s \<ge> 0 \<Longrightarrow> outstanding_work (task_cleanup s) = outstanding_work s + private_work s"
  by (auto simp: task_cleanup_def Let_def)

text \<open>A clean-up after a handler that posted nothing.\<close>

lemma work_cleanup_passive:
  assumes "private_work s = 0" "private_q s = []" "task_interrupted s"
  shows "\<exists>st. work_cleanup intr s =
    s\<lparr>outstanding_work := outstanding_work s - 1, wakeup_event := st,
      sched_stopped := (sched_stopped s \<or> outstanding_work s = 1)\<rparr>"
proof (cases "outstanding_work s = 1")
  case True
  show ?thesis
    by (rule exI [of _ "ev_signal_all (wakeup_event s)"])
      (use True assms in \<open>simp add: work_cleanup_def work_finished_def sched_stop_def stop_all_threads_def Let_def\<close>)
next
  case False
  show ?thesis
    by (rule exI [of _ "wakeup_event s"])
      (use False assms in \<open>simp add: work_cleanup_def work_finished_def Let_def\<close>)
qed

section \<open>Handlers that only act on the outside\<close>

text \<open>The states a scheduler is in between two handlers that use neither the scheduler nor the reactor.\<close>

definition quiet :: "('o, 'w) scheduler \<Rightarrow> bool" where
  "quiet s = (private_work s = 0 \<and> private_q s = [] \<and> task_interrupted s)"

definition run_handlers :: "('o, 'w) sched_env \<Rightarrow> ('o \<Rightarrow> u32 \<Rightarrow> 'w \<Rightarrow> 'w) \<Rightarrow> 'o list \<Rightarrow> 'w \<Rightarrow> 'w" where
  "run_handlers env h xs w = fold (\<lambda>x w. h x (env_result env x w) w) xs w"

lemma complete_op_passive:
  assumes handler: "\<And>r s. env_complete env x r s = Some (s\<lparr>world := h x r (world s)\<rparr>)"
    and "quiet s"
  shows "\<exists>st. complete_op env x s =
    Some (s\<lparr>outstanding_work := outstanding_work s - 1, wakeup_event := st,
            sched_stopped := (sched_stopped s \<or> outstanding_work s = 1),
            world := run_handlers env h [x] (world s)\<rparr>)"
proof -
  define s1 where "s1 = (if op_q s \<noteq> [] \<and> \<not> one_thread s then wake_one_thread_and_unlock (env_interrupt env) s else s)"
  obtain st1 where s1: "s1 = s\<lparr>wakeup_event := st1\<rparr>"
  proof (cases "op_q s \<noteq> [] \<and> \<not> one_thread s")
    case True
    then show ?thesis using that wake_idle [of s "env_interrupt env"] assms(2) by (auto simp: s1_def quiet_def)
  next
    case False
    show ?thesis by (rule that [of "wakeup_event s"]) (simp only: s1_def False if_False, simp)
  qed
  let ?s2 = "s1\<lparr>world := h x (env_result env x (world s)) (world s1)\<rparr>"
  have "private_work ?s2 = 0" "private_q ?s2 = []" "task_interrupted ?s2"
    using assms(2) by (simp_all add: s1 quiet_def)
  from work_cleanup_passive [OF this, of "env_interrupt env"] obtain st where
    "work_cleanup (env_interrupt env) ?s2 = ?s2\<lparr>outstanding_work := outstanding_work ?s2 - 1, wakeup_event := st,
       sched_stopped := (sched_stopped ?s2 \<or> outstanding_work ?s2 = 1)\<rparr>" ..
  then show ?thesis
    by (intro exI [of _ st])
      (simp add: complete_op_def Let_def handler s1_def [symmetric] run_handlers_def s1 scheduler.equality)
qed

lemma do_run_one_passive:
  assumes handler: "\<And>r s. env_complete env x r s = Some (s\<lparr>world := h x r (world s)\<rparr>)"
    and "quiet s" "\<not> sched_stopped s" "op_q s = Op x # rest"
  shows "\<exists>st. do_run_one env s =
    Some (1, s\<lparr>op_q := rest, outstanding_work := outstanding_work s - 1, wakeup_event := st,
               sched_stopped := (outstanding_work s = 1), world := run_handlers env h [x] (world s)\<rparr>)"
proof -
  have "quiet (s\<lparr>op_q := rest\<rparr>)" using assms(2) by (simp add: quiet_def)
  from complete_op_passive [where h = h, OF handler this]
  show ?thesis using assms(3, 4) by (subst do_run_one.simps) auto
qed

lemma do_run_one_stopped [simp]: "sched_stopped s \<Longrightarrow> do_run_one env s = Some (0, s)"
  by (subst do_run_one.simps) simp

lemma run_loop_stopped:
  "sched_stopped s \<Longrightarrow> run_loop (do_run_one env) n s = Some (n, s)"
  by (subst run_loop.simps) simp

lemma run_loop_step:
  "do_run_one env s = Some (1, s') \<Longrightarrow>
   run_loop (do_run_one env) n s = run_loop (do_run_one env) (count_up n) s'"
  by (subst run_loop.simps) simp

text \<open>The loop over a prefix of such handlers, while other work keeps the scheduler running.\<close>

lemma run_loop_prefix:
  assumes "\<And>x r s. x \<in> set xs \<Longrightarrow> env_complete env x r s = Some (s\<lparr>world := h x r (world s)\<rparr>)"
    and "quiet s" "\<not> sched_stopped s" "op_q s = map Op xs @ rest" "outstanding_work s > int (length xs)"
  shows "\<exists>st. run_loop (do_run_one env) n s =
    run_loop (do_run_one env) ((count_up ^^ length xs) n)
      (s\<lparr>op_q := rest, outstanding_work := outstanding_work s - int (length xs), wakeup_event := st,
         world := run_handlers env h xs (world s)\<rparr>)"
  using assms
proof (induction xs arbitrary: s n)
  case Nil
  have "s = s\<lparr>op_q := rest, outstanding_work := outstanding_work s - int (length []),
              wakeup_event := wakeup_event s, world := run_handlers env h [] (world s)\<rparr>"
    using Nil by (simp add: run_handlers_def)
  then show ?case by (intro exI [of _ "wakeup_event s"]) simp
next
  case (Cons x xs)
  have "env_complete env x r s = Some (s\<lparr>world := h x r (world s)\<rparr>)" for r s using Cons.prems(1) by simp
  from do_run_one_passive [where h = h and rest = "map Op xs @ rest", OF this Cons.prems(2,3)] Cons.prems(4)
  obtain st where st: "do_run_one env s =
      Some (1, s\<lparr>op_q := map Op xs @ rest, outstanding_work := outstanding_work s - 1, wakeup_event := st,
                 sched_stopped := (outstanding_work s = 1), world := run_handlers env h [x] (world s)\<rparr>)"
    by auto
  let ?s = "s\<lparr>op_q := map Op xs @ rest, outstanding_work := outstanding_work s - 1, wakeup_event := st,
              sched_stopped := (outstanding_work s = 1), world := run_handlers env h [x] (world s)\<rparr>"
  have "\<exists>st. run_loop (do_run_one env) (count_up n) ?s =
    run_loop (do_run_one env) ((count_up ^^ length xs) (count_up n))
      (?s\<lparr>op_q := rest, outstanding_work := outstanding_work ?s - int (length xs), wakeup_event := st,
          world := run_handlers env h xs (world ?s)\<rparr>)"
    by (rule Cons.IH) (use Cons.prems in \<open>auto simp: quiet_def\<close>)
  moreover have "outstanding_work s \<noteq> 1" "s\<lparr>sched_stopped := False\<rparr> = s" using Cons.prems by auto
  ultimately show ?case
    using Cons.prems(3)
    by (simp add: run_loop_step [OF st] funpow_swap1 run_handlers_def algebra_simps)
qed

lemma count_up_iterate: "n < 2 ^ 64 \<Longrightarrow> (count_up ^^ n) 0 = word_of_nat n"
proof (induction n)
  case (Suc n)
  have "unat (word_of_nat n :: u64) = n" using Suc.prems by (simp add: unsigned_of_nat take_bit_nat_eq_self)
  moreover have "unat (- 1 :: u64) = 2 ^ 64 - 1" by (simp add: unsigned_minus_1_eq_mask mask_eq_exp_minus_1)
  ultimately have "word_of_nat n \<noteq> (- 1 :: u64)" using Suc.prems by (metis One_nat_def Suc_lessD less_diff_conv less_irrefl plus_1_eq_Suc add.commute)
  then show ?case using Suc by (simp add: count_up_def add.commute)
qed simp

lemma run_loop_all:
  assumes "\<And>x r s. x \<in> set xs \<Longrightarrow> env_complete env x r s = Some (s\<lparr>world := h x r (world s)\<rparr>)"
    and "quiet s" "\<not> sched_stopped s" "op_q s = map Op xs" "outstanding_work s = int (length xs)" "xs \<noteq> []"
  shows "\<exists>st. run_loop (do_run_one env) n s =
    Some ((count_up ^^ length xs) n,
      s\<lparr>op_q := [], outstanding_work := 0, wakeup_event := st, sched_stopped := True,
        world := run_handlers env h xs (world s)\<rparr>)"
proof -
  obtain ys y where xs: "xs = ys @ [y]" using \<open>xs \<noteq> []\<close> by (metis rev_exhaust)
  obtain st where st: "run_loop (do_run_one env) n s =
    run_loop (do_run_one env) ((count_up ^^ length ys) n)
      (s\<lparr>op_q := [Op y], outstanding_work := outstanding_work s - int (length ys), wakeup_event := st,
         world := run_handlers env h ys (world s)\<rparr>)"
    using run_loop_prefix [of ys env h s "[Op y]" n] assms xs by auto
  let ?s = "s\<lparr>op_q := [Op y], outstanding_work := outstanding_work s - int (length ys), wakeup_event := st,
              world := run_handlers env h ys (world s)\<rparr>"
  have "env_complete env y r s = Some (s\<lparr>world := h y r (world s)\<rparr>)" for r s using assms(1) xs by simp
  from do_run_one_passive [where h = h and s = ?s and rest = "[]", OF this] assms(2,3)
  obtain st' where "do_run_one env ?s =
      Some (1, ?s\<lparr>op_q := [], outstanding_work := outstanding_work ?s - 1, wakeup_event := st',
                 sched_stopped := (outstanding_work ?s = 1), world := run_handlers env h [y] (world ?s)\<rparr>)"
    by (auto simp: quiet_def)
  note r = run_loop_step [OF this]
  show ?thesis
    by (rule exI [of _ st'], subst st, subst r)
      (simp add: run_loop_stopped assms xs run_handlers_def scheduler.equality)
qed

text \<open>A handler that calls \<open>stop\<close>, as the signal handler of the program does.\<close>

lemma complete_op_stops:
  assumes handler: "\<And>r s. env_complete env x r s = Some (sched_stop (env_interrupt env) s)" and "quiet s"
  shows "\<exists>st. complete_op env x s =
    Some (s\<lparr>outstanding_work := outstanding_work s - 1, wakeup_event := st, sched_stopped := True\<rparr>)"
proof -
  define s1 where "s1 = (if op_q s \<noteq> [] \<and> \<not> one_thread s then wake_one_thread_and_unlock (env_interrupt env) s else s)"
  obtain st1 where s1: "s1 = s\<lparr>wakeup_event := st1\<rparr>"
  proof (cases "op_q s \<noteq> [] \<and> \<not> one_thread s")
    case True
    then show ?thesis using that wake_idle [of s "env_interrupt env"] assms(2) by (auto simp: s1_def quiet_def)
  next
    case False
    show ?thesis by (rule that [of "wakeup_event s"]) (simp only: s1_def False if_False, simp)
  qed
  let ?s2 = "s1\<lparr>sched_stopped := True, wakeup_event := ev_signal_all (wakeup_event s1)\<rparr>"
  have stop: "sched_stop (env_interrupt env) s1 = ?s2"
    using assms(2) by (simp add: sched_stop_def stop_all_threads_def s1 quiet_def)
  have "private_work ?s2 = 0" "private_q ?s2 = []" "task_interrupted ?s2"
    using assms(2) by (simp_all add: s1 quiet_def)
  from work_cleanup_passive [OF this, of "env_interrupt env"] obtain st where
    "work_cleanup (env_interrupt env) ?s2 = ?s2\<lparr>outstanding_work := outstanding_work ?s2 - 1, wakeup_event := st,
       sched_stopped := (sched_stopped ?s2 \<or> outstanding_work ?s2 = 1)\<rparr>" ..
  moreover have "complete_op env x s = Some (work_cleanup (env_interrupt env) (sched_stop (env_interrupt env) s1))"
    by (simp add: complete_op_def Let_def handler s1_def)
  ultimately show ?thesis
    by (intro exI [of _ st]) (simp add: stop, simp add: s1)
qed

text \<open>What every step keeps, the loop keeps.\<close>

lemma run_loop_keeps:
  assumes "run_loop step n s = Some (m, s')" "Q s"
    and "\<And>s k s'. step s = Some (k, s') \<Longrightarrow> Q s \<Longrightarrow> Q s'"
  shows "Q s'"
proof -
  let ?P = "\<lambda>st (n :: u64) s r. st = step \<longrightarrow> Q s \<longrightarrow> Q (snd r)"
  have "?P step n s (m, s')"
  proof (rule run_loop.raw_induct [where P = ?P, OF _ assms(1)], intro impI)
    fix f st n s r
    assume IH: "\<And>st n s r. f st n s = Some r \<Longrightarrow> ?P st n s r"
      and run: "Option.bind (st s) (\<lambda>(k, s). if k = 0 then Some (n, s) else f st (count_up n) s) = Some r"
      and "st = step" "Q s"
    then obtain k s1 where s1: "step s = Some (k, s1)" "(if k = 0 then Some (n, s1) else f step (count_up n) s1) = Some r"
      by (auto simp: bind_eq_Some_conv)
    have "Q s1" using assms(3) s1(1) \<open>Q s\<close> by blast
    then show "Q (snd r)" using s1(2) IH by (auto split: if_splits)
  qed
  then show ?thesis using assms(2) by simp
qed

text \<open>What the pieces of a round keep, a round keeps: taking the reactor's place from the queue, the flags, a run of the
  reactor, a completion.\<close>

lemma do_run_one_keeps:
  assumes run1: "do_run_one env s = Some (n, s')" and start: "P s"
    and event: "\<And>s e. P s \<Longrightarrow> P (s\<lparr>wakeup_event := e\<rparr>)" and flag: "\<And>s b. P s \<Longrightarrow> P (s\<lparr>task_interrupted := b\<rparr>)"
    and pop: "\<And>s rest. P s \<Longrightarrow> op_q s = TaskOp # rest \<Longrightarrow> P (s\<lparr>op_q := rest\<rparr>)"
    and task: "\<And>s usec s'. P s \<Longrightarrow> run_task env usec s = Some s' \<Longrightarrow> P s'"
    and complete: "\<And>s x rest s'. P s \<Longrightarrow> op_q s = Op x # rest \<Longrightarrow> complete_op env x (s\<lparr>op_q := rest\<rparr>) = Some s' \<Longrightarrow> P s'"
  shows "P s'"
proof -
  let ?Q = "\<lambda>e s r. e = env \<longrightarrow> P s \<longrightarrow> P (snd r)"
  have "?Q env s (n, s')"
  proof (rule do_run_one.raw_induct [where P = ?Q, OF _ run1], intro impI)
    fix f e s r
    assume IH: "\<And>e s r. f e s = Some r \<Longrightarrow> ?Q e s r"
      and run: "(if sched_stopped s then Some (0, s)
        else case op_q s of
           TaskOp # rest \<Rightarrow>
             let s = s\<lparr>op_q := rest\<rparr>; more_handlers = (rest \<noteq> []);
                 s = s\<lparr>task_interrupted := (more_handlers \<or> task_usec s = 0)\<rparr>;
                 s = (if more_handlers \<and> \<not> one_thread s \<and> wait_usec s \<noteq> 0
                      then s\<lparr>wakeup_event := ev_unlock_and_signal_one (wakeup_event s)\<rparr> else s)
             in Option.bind (run_task e (if more_handlers then 0 else task_usec s) s) (f e)
         | Op x # rest \<Rightarrow> Option.bind (complete_op e x (s\<lparr>op_q := rest\<rparr>)) (\<lambda>s. Some (1, s))
         | [] \<Rightarrow>
             if wait_usec s = 0 then f e s
             else let st = ev_clear (wakeup_event s) in
               if wait_usec s > 0 then f e (s\<lparr>wakeup_event := snd (ev_wait_for_usec (wait_usec s) st)\<rparr>)
               else Option.bind (ev_wait st) (\<lambda>st. f e (s\<lparr>wakeup_event := st\<rparr>))) = Some r"
      and e: "e = env" and inv: "P s"
    show "P (snd r)"
    proof (cases "sched_stopped s")
      case True
      then show ?thesis using run inv by auto
    next
      case False
      show ?thesis
      proof (cases "op_q s")
        case Nil
        then have "f e s = Some r \<or> (\<exists>st. f e (s\<lparr>wakeup_event := st\<rparr>) = Some r)"
          using run False by (auto simp: Let_def split: if_splits)
        then show ?thesis using IH inv event [OF inv] e by blast
      next
        case (Cons x rest)
        show ?thesis
        proof (cases x)
          case (Op y)
          then show ?thesis
            using run False Cons complete [OF inv, of y rest] by (auto simp: bind_eq_Some_conv e)
        next
          case TaskOp
          define s1 where "s1 = (s\<lparr>op_q := rest, task_interrupted := (rest \<noteq> [] \<or> task_usec s = 0)\<rparr>)"
          define s2 where "s2 = (if rest \<noteq> [] \<and> \<not> one_thread s \<and> wait_usec s \<noteq> 0
             then s1\<lparr>wakeup_event := ev_unlock_and_signal_one (wakeup_event s)\<rparr> else s1)"
          obtain s3 where s3: "run_task e (if rest \<noteq> [] then 0 else task_usec s) s2 = Some s3" and r: "f e s3 = Some r"
            using run False Cons TaskOp by (auto simp: Let_def bind_eq_Some_conv s1_def s2_def split: if_splits)
          have "P s1" using flag [OF pop [OF inv Cons [unfolded TaskOp]]] by (simp add: s1_def)
          then have "P s2" using event by (simp add: s2_def)
          then show ?thesis using task [OF _ s3 [unfolded e]] IH [OF r] e by blast
        qed
      qed
    qed
  qed
  then show ?thesis using start by simp
qed

text \<open>The private queue is empty and the private work zero between two rounds.\<close>

lemma do_run_one_private:
  assumes "do_run_one env s = Some (n, s')" "private_work s = 0" "private_q s = []"
  shows "private_work s' = 0 \<and> private_q s' = []"
  by (rule do_run_one_keeps [where P = "\<lambda>s. private_work s = 0 \<and> private_q s = []", OF assms(1)])
    (use assms(2,3) in \<open>auto simp: run_task_def complete_op_def Let_def bind_eq_Some_conv\<close>)

section \<open>Accounting\<close>

text \<open>The counted operations waiting in the two queues (a predicate says which operations count as work), and the
  outstanding work that no queued operation accounts for: what a reactor or a service still holds.\<close>

fun counts :: "('o \<Rightarrow> bool) \<Rightarrow> 'o sched_op \<Rightarrow> bool" where
  "counts P TaskOp = False"
| "counts P (Op x) = P x"

definition ops_queued :: "('o \<Rightarrow> bool) \<Rightarrow> ('o, 'w) scheduler \<Rightarrow> int" where
  "ops_queued P s = int (length (filter (counts P) (op_q s @ private_q s)))"

definition held_elsewhere :: "('o \<Rightarrow> bool) \<Rightarrow> ('o, 'w) scheduler \<Rightarrow> int" where
  "held_elsewhere P s = outstanding_work s + private_work s - ops_queued P s"

lemma filter_counts_map [simp]: "filter (counts P) (map Op xs) = map Op (filter P xs)"
  by (induction xs) auto

lemma held_work_started: "held_elsewhere P (work_started s) = held_elsewhere P s + 1"
  by (simp add: held_elsewhere_def work_started_def ops_queued_def)

lemma held_post_immediate:
  "P x \<Longrightarrow> held_elsewhere P (post_immediate_completion intr x c s) = held_elsewhere P s"
  by (simp add: held_elsewhere_def post_immediate_completion_def work_started_def ops_queued_def Let_def)

lemma held_post_immediates:
  "list_all P ops \<Longrightarrow>
   held_elsewhere P (post_immediate_completions intr (length ops) ops c s) = held_elsewhere P s"
  by (simp add: held_elsewhere_def post_immediate_completions_def ops_queued_def Let_def list_all_iff)

lemma held_post_deferred:
  "P x \<Longrightarrow> held_elsewhere P (post_deferred_completion intr x s) = held_elsewhere P s - 1"
  by (simp add: held_elsewhere_def post_deferred_completion_def ops_queued_def)

lemma held_post_deferreds:
  "list_all P ops \<Longrightarrow>
   held_elsewhere P (post_deferred_completions intr ops s) = held_elsewhere P s - int (length ops)"
  by (simp add: held_elsewhere_def post_deferred_completions_def ops_queued_def list_all_iff)

lemma held_task_cleanup: "private_work s \<ge> 0 \<Longrightarrow> held_elsewhere P (task_cleanup s) = held_elsewhere P s"
  by (simp add: held_elsewhere_def ops_queued_def task_cleanup_work)

lemma held_work_cleanup:
  "private_work s \<ge> 0 \<Longrightarrow> held_elsewhere P (work_cleanup intr s) = held_elsewhere P s - 1"
  by (simp add: held_elsewhere_def ops_queued_def work_cleanup_work)

lemmas held_simps = held_work_started held_post_immediate held_post_immediates held_post_deferred
  held_post_deferreds held_task_cleanup held_work_cleanup

section \<open>Properties\<close>

text \<open>\<open>run\<close> on a scheduler whose queue holds operations \<open>xs\<close>, each counted once as outstanding
  work and whose handlers only act on the outside, executes every handler exactly once in queue
  order, returns their number, and leaves the scheduler stopped with an empty queue and no
  outstanding work.\<close>

theorem sched_run_fifo:
  assumes "\<And>x r s. x \<in> set xs \<Longrightarrow> env_complete env x r s = Some (s\<lparr>world := h x r (world s)\<rparr>)"
    and "op_q s = map Op xs" "outstanding_work s = int (length xs)" "xs \<noteq> []" "length xs < 2 ^ 64"
    and "\<not> sched_stopped s" "task_interrupted s"
  shows "\<exists>s'. sched_run env s = Some (word_of_nat (length xs), s') \<and>
    world s' = run_handlers env h xs (world s) \<and> op_q s' = [] \<and> outstanding_work s' = 0 \<and>
    sched_stopped s' \<and> in_scheduler s' = in_scheduler s"
proof -
  have "quiet (enter_scheduler s)" using assms(7) by (simp add: quiet_def enter_scheduler_def)
  then obtain st where "run_loop (do_run_one env) 0 (enter_scheduler s) =
    Some ((count_up ^^ length xs) 0,
      (enter_scheduler s)\<lparr>op_q := [], outstanding_work := 0, wakeup_event := st, sched_stopped := True,
        world := run_handlers env h xs (world (enter_scheduler s))\<rparr>)"
    using run_loop_all [of xs env h "enter_scheduler s" 0] assms by (auto simp: enter_scheduler_def)
  then show ?thesis
    using assms(3,4) count_up_iterate [OF assms(5)]
    by (simp add: sched_run_def leave_scheduler_def enter_scheduler_def)
qed

text \<open>\<open>stop\<close> called from a handler ends \<open>run\<close> right after that handler: the operations
  queued before it have run in order, the ones queued behind it stay queued and uncompleted, the return value counts
  the handlers run.\<close>

theorem sched_run_stop_leaves_rest:
  assumes "\<And>z r s. z \<in> set xs \<Longrightarrow> env_complete env z r s = Some (s\<lparr>world := h z r (world s)\<rparr>)"
    and "\<And>r s. env_complete env x r s = Some (sched_stop (env_interrupt env) s)"
    and "op_q s = map Op xs @ Op x # rest" "outstanding_work s > int (length xs)" "length xs + 1 < 2 ^ 64"
    and "\<not> sched_stopped s" "task_interrupted s"
  shows "\<exists>s'. sched_run env s = Some (word_of_nat (length xs + 1), s') \<and>
    world s' = run_handlers env h xs (world s) \<and> op_q s' = rest \<and>
    outstanding_work s' = outstanding_work s - int (length xs) - 1 \<and> sched_stopped s'"
proof -
  let ?e = "enter_scheduler s"
  have q: "quiet ?e" using assms(7) by (simp add: quiet_def enter_scheduler_def)
  obtain st where st: "run_loop (do_run_one env) 0 ?e =
    run_loop (do_run_one env) ((count_up ^^ length xs) 0)
      (?e\<lparr>op_q := Op x # rest, outstanding_work := outstanding_work ?e - int (length xs), wakeup_event := st,
         world := run_handlers env h xs (world ?e)\<rparr>)"
    using run_loop_prefix [of xs env h ?e "Op x # rest" 0] q assms by (auto simp: enter_scheduler_def)
  let ?s = "?e\<lparr>op_q := Op x # rest, outstanding_work := outstanding_work ?e - int (length xs), wakeup_event := st,
              world := run_handlers env h xs (world ?e)\<rparr>"
  have "quiet (?s\<lparr>op_q := rest\<rparr>)" using q by (simp add: quiet_def)
  from complete_op_stops [OF assms(2) this] obtain st' where
    c: "complete_op env x (?s\<lparr>op_q := rest\<rparr>) =
      Some (?s\<lparr>op_q := rest, outstanding_work := outstanding_work ?s - 1, wakeup_event := st', sched_stopped := True\<rparr>)"
    by auto
  have "do_run_one env ?s =
      Some (1, ?s\<lparr>op_q := rest, outstanding_work := outstanding_work ?s - 1, wakeup_event := st', sched_stopped := True\<rparr>)"
    using c assms(6) by (subst do_run_one.simps) (simp add: enter_scheduler_def)
  note r = run_loop_step [OF this]
  have n: "count_up ((count_up ^^ length xs) 0) = word_of_nat (length xs + 1)"
    using count_up_iterate [OF assms(5)] by simp
  show ?thesis
    unfolding sched_run_def st r n using assms(4)
    by (simp add: run_loop_stopped leave_scheduler_def enter_scheduler_def)
qed

text \<open>An environment that logs the handlers it runs; operation 0 calls \<open>stop\<close>.\<close>

definition log_env :: "(nat, nat list) sched_env" where
  "log_env = \<lparr>env_task_run = (\<lambda>usec w. Some ([5, 6], w)), env_interrupt = id, env_result = (\<lambda>x w. 0),
     env_complete = (\<lambda>x r s. Some (if x = 0 then sched_stop id s
       else s\<lparr>world := world s @ [x]\<rparr>))\<rparr>"

lemma log_env_complete:
  "x \<noteq> 0 \<Longrightarrow> env_complete log_env x r s = Some (s\<lparr>world := world s @ [x]\<rparr>)"
  "env_complete log_env 0 r s = Some (sched_stop (env_interrupt log_env) s)"
  by (simp_all add: log_env_def sched_stop_def stop_all_threads_def interrupt_task_def)

theorem sched_run_fifo_witness:
  "\<exists>s'. sched_run log_env ((scheduler_new 1 (-1) (-1) [])\<lparr>op_q := map Op [7, 8, 9], outstanding_work := 3\<rparr>) =
      Some (3, s') \<and> world s' = [7, 8, 9] \<and> op_q s' = [] \<and> outstanding_work s' = 0 \<and> sched_stopped s'"
proof -
  have h: "env_complete log_env x r s = Some (s\<lparr>world := (\<lambda>x r w. w @ [x]) x r (world s)\<rparr>)"
    if "x \<in> set [7, 8, 9]" for x r s
    using that by (auto simp: log_env_complete)
  show ?thesis
    using sched_run_fifo [where xs = "[7, 8, 9]" and s =
        "(scheduler_new 1 (-1) (-1) [])\<lparr>op_q := map Op [7, 8, 9], outstanding_work := 3\<rparr>", OF h]
    by (auto simp: scheduler_new_def run_handlers_def)
qed

theorem sched_run_stop_leaves_rest_witness:
  "\<exists>s'. sched_run log_env ((scheduler_new 1 (-1) (-1) [])\<lparr>op_q := [Op 7, Op 0, Op 9], outstanding_work := 3\<rparr>) =
      Some (2, s') \<and> world s' = [7] \<and> op_q s' = [Op 9] \<and> outstanding_work s' = 1 \<and> sched_stopped s'"
proof -
  have h: "env_complete log_env x r s = Some (s\<lparr>world := (\<lambda>x r w. w @ [x]) x r (world s)\<rparr>)"
    if "x \<in> set [7]" for x r s
    using that by (auto simp: log_env_complete)
  show ?thesis
    using sched_run_stop_leaves_rest [where xs = "[7]" and x = 0 and rest = "[Op 9]" and s =
        "(scheduler_new 1 (-1) (-1) [])\<lparr>op_q := [Op 7, Op 0, Op 9], outstanding_work := 3\<rparr>",
        OF h log_env_complete(2)]
    by (auto simp: scheduler_new_def run_handlers_def)
qed

text \<open>When the reactor's marker is at the front, \<open>do_run_one\<close> runs the reactor (without waiting
  if handlers are queued), appends the completions it returned behind the handlers already queued and the marker
  behind them, and goes on; the work count is unchanged.\<close>

lemma do_run_one_reactor:
  assumes "\<not> sched_stopped s" "op_q s = TaskOp # rest" "private_work s = 0" "private_q s = []"
    and "env_task_run env (if rest = [] then task_usec s else 0) (world s) = Some (ops, w)"
  shows "\<exists>s'. do_run_one env s = do_run_one env s' \<and> op_q s' = rest @ map Op ops @ [TaskOp] \<and>
    world s' = w \<and> outstanding_work s' = outstanding_work s \<and> \<not> sched_stopped s' \<and> task_interrupted s'"
proof -
  let ?s1 = "s\<lparr>op_q := rest, task_interrupted := (rest \<noteq> [] \<or> task_usec s = 0)\<rparr>"
  let ?s2 = "if rest \<noteq> [] \<and> \<not> one_thread s \<and> wait_usec s \<noteq> 0
             then ?s1\<lparr>wakeup_event := ev_unlock_and_signal_one (wakeup_event s)\<rparr> else ?s1"
  let ?s' = "task_cleanup (?s2\<lparr>world := w, private_q := map Op ops\<rparr>)"
  have "do_run_one env s = do_run_one env ?s'"
    using assms by (subst do_run_one.simps) (auto simp: run_task_def Let_def)
  then show ?thesis
    using assms by (intro exI [of _ ?s']) (simp add: task_cleanup_work, simp add: task_cleanup_def)
qed

text \<open>Work accounting. Posting a completion immediately counts it; posting it deferred moves one
  unit of already counted work from its holder into the queue; the clean-up after a reactor run loses and invents
  nothing, and the clean-up after a handler retires exactly the unit of the operation just completed.\<close>

lemma work_accounting:
  "P x \<and> list_all P ops \<and> private_work s \<ge> 0 \<longrightarrow>
   held_elsewhere P (post_immediate_completion intr x c s) = held_elsewhere P s \<and>
   held_elsewhere P (post_immediate_completions intr (length ops) ops c s) = held_elsewhere P s \<and>
   held_elsewhere P (post_deferred_completion intr x s) = held_elsewhere P s - 1 \<and>
   held_elsewhere P (post_deferred_completions intr ops s) = held_elsewhere P s - int (length ops) \<and>
   held_elsewhere P (task_cleanup s) = held_elsewhere P s \<and>
   held_elsewhere P (work_cleanup intr s) = held_elsewhere P s - 1 \<and>
   (sched_stopped (work_cleanup intr s) \<longleftrightarrow> sched_stopped s \<or> outstanding_work s = 1 \<and> private_work s = 0)"
  by (auto simp: held_simps work_cleanup_stopped)

end
