(* ===== verification/AsioObjectPool.thy ===== *)
theory AsioObjectPool
  imports Prelude
begin

text \<open>
  The object pool of \<^verbatim>\<open>include/asio/detail/object_pool.hpp\<close>, which owns the reactor's per-descriptor
  state: a doubly linked list of live objects and a singly linked list of free ones, through
  the same two link fields. Objects are addresses; \<open>fresh\<close> is the next address the allocator
  returns.
\<close>

section \<open>Model\<close>

record object_pool =
  live_list :: ptr
  pool_free_list :: ptr
  next_of :: "nat \<Rightarrow> ptr"
  prev_of :: "nat \<Rightarrow> ptr"
  fresh :: nat

definition allocate_object :: "object_pool \<Rightarrow> nat \<times> object_pool" where
  "allocate_object p = (fresh p, p\<lparr>fresh := fresh p + 1\<rparr>)"

text \<open>The constructor's loop over \<open>preallocated\<close>.\<close>

fun preallocate :: "nat \<Rightarrow> object_pool \<Rightarrow> object_pool" where
  "preallocate 0 p = p"
| "preallocate (Suc n) p =
     (let (obj, p) = allocate_object p in
      preallocate n (p\<lparr>next_of := (next_of p)(obj := pool_free_list p), prev_of := (prev_of p)(obj := None),
                       pool_free_list := Some obj\<rparr>))"

definition object_pool_new :: "nat \<Rightarrow> object_pool" where
  "object_pool_new preallocated =
     preallocate preallocated
       \<lparr>live_list = None, pool_free_list = None, next_of = (\<lambda>_. None), prev_of = (\<lambda>_. None), fresh = 0\<rparr>"

definition pool_first :: "object_pool \<Rightarrow> ptr" where
  "pool_first p = live_list p"

definition pool_alloc :: "object_pool \<Rightarrow> nat \<times> object_pool" where
  "pool_alloc p =
     (let (obj, p) = (case pool_free_list p of
                        Some f \<Rightarrow> (f, p\<lparr>pool_free_list := next_of p f\<rparr>)
                      | None \<Rightarrow> allocate_object p);
          p = p\<lparr>next_of := (next_of p)(obj := live_list p), prev_of := (prev_of p)(obj := None)\<rparr>;
          p = (case live_list p of
                 Some l \<Rightarrow> p\<lparr>prev_of := (prev_of p)(l := Some obj)\<rparr>
               | None \<Rightarrow> p)
      in (obj, p\<lparr>live_list := Some obj\<rparr>))"

definition pool_free :: "nat \<Rightarrow> object_pool \<Rightarrow> object_pool" where
  "pool_free obj p =
     (let p = (if live_list p = Some obj then p\<lparr>live_list := next_of p obj\<rparr> else p);
          p = (case prev_of p obj of
                 Some a \<Rightarrow> p\<lparr>next_of := (next_of p)(a := next_of p obj)\<rparr>
               | None \<Rightarrow> p);
          p = (case next_of p obj of
                 Some b \<Rightarrow> p\<lparr>prev_of := (prev_of p)(b := prev_of p obj)\<rparr>
               | None \<Rightarrow> p)
      in p\<lparr>next_of := (next_of p)(obj := pool_free_list p), prev_of := (prev_of p)(obj := None),
           pool_free_list := Some obj\<rparr>)"

text \<open>The destructor's \<open>destroy_list\<close>, which yields the deallocated objects.\<close>

partial_function (option) destroy_list :: "(nat \<Rightarrow> ptr) \<Rightarrow> ptr \<Rightarrow> nat list option" where
  "destroy_list nx l =
     (case l of None \<Rightarrow> Some [] | Some obj \<Rightarrow> Option.bind (destroy_list nx (nx obj)) (\<lambda>xs. Some (obj # xs)))"

section \<open>Lists of objects\<close>

fun dll :: "(nat \<Rightarrow> ptr) \<Rightarrow> (nat \<Rightarrow> ptr) \<Rightarrow> ptr \<Rightarrow> ptr \<Rightarrow> nat list \<Rightarrow> bool" where
  "dll nx pv p q [] \<longleftrightarrow> q = None"
| "dll nx pv p q (x # xs) \<longleftrightarrow> q = Some x \<and> pv x = p \<and> dll nx pv (Some x) (nx x) xs"

fun sll :: "(nat \<Rightarrow> ptr) \<Rightarrow> ptr \<Rightarrow> nat list \<Rightarrow> bool" where
  "sll nx q [] \<longleftrightarrow> q = None"
| "sll nx q (x # xs) \<longleftrightarrow> q = Some x \<and> sll nx (nx x) xs"

lemma dll_cong:
  "(\<And>x. x \<in> set xs \<Longrightarrow> nx x = nx' x \<and> pv x = pv' x) \<Longrightarrow> dll nx pv p q xs = dll nx' pv' p q xs"
  by (induction xs arbitrary: p q) auto

lemma sll_cong: "(\<And>x. x \<in> set xs \<Longrightarrow> nx x = nx' x) \<Longrightarrow> sll nx q xs = sll nx' q xs"
  by (induction xs arbitrary: q) auto

lemma dll_next: "dll nx pv p q xs \<Longrightarrow> x \<in> set xs \<Longrightarrow> distinct xs \<Longrightarrow> nx x = None \<or> (\<exists>z\<in>set xs. nx x = Some z \<and> z \<noteq> x)"
proof (induction xs arbitrary: p q)
  case (Cons y ys)
  show ?case
  proof (cases "x = y")
    case True
    then show ?thesis using Cons.prems by (cases ys) auto
  next
    case False
    then show ?thesis using Cons by auto
  qed
qed simp

lemma dll_prev: "dll nx pv p q xs \<Longrightarrow> x \<in> set xs \<Longrightarrow> distinct xs \<Longrightarrow>
  (if q = Some x then pv x = p else \<exists>z\<in>set xs. pv x = Some z \<and> z \<noteq> x)"
proof (induction xs arbitrary: p q)
  case (Cons y ys)
  show ?case
  proof (cases "x = y")
    case False
    then have "if nx y = Some x then pv x = Some y else \<exists>z\<in>set ys. pv x = Some z \<and> z \<noteq> x"
      using Cons by auto
    then show ?thesis using Cons.prems False by (auto split: if_splits)
  qed (use Cons in auto)
qed simp

text \<open>Unlinking an object anywhere in the list.\<close>

lemma dll_unlink:
  assumes "dll nx pv p q xs" "distinct xs" "x \<in> set xs" "\<And>a. p = Some a \<Longrightarrow> a \<notin> set xs"
    and "\<And>y. y \<in> set xs \<Longrightarrow> y \<noteq> x \<Longrightarrow> nx' y = (if pv x = Some y then nx x else nx y)"
    and "\<And>y. y \<in> set xs \<Longrightarrow> y \<noteq> x \<Longrightarrow> pv' y = (if nx x = Some y then pv x else pv y)"
  shows "dll nx' pv' p (if q = Some x then nx x else q) (remove1 x xs)"
  using assms
proof (induction xs arbitrary: p q)
  case (Cons y ys)
  show ?case
  proof (cases "x = y")
    case True
    have rest: "dll nx pv (Some x) (nx x) ys" "pv x = p" "q = Some x" using Cons.prems(1) True by auto
    have p: "p \<noteq> Some z" if "z \<in> set ys" for z using Cons.prems(4) that by auto
    show ?thesis
    proof (cases ys)
      case Nil
      then show ?thesis using rest True by simp
    next
      case (Cons z zs)
      have z: "nx x = Some z" "dll nx pv (Some z) (nx z) zs" using rest(1) Cons by auto
      have "nx' u = nx u \<and> pv' u = pv u" if u: "u \<in> set zs" for u
      proof -
        have "u \<noteq> x" "u \<noteq> z" "u \<in> set (y # ys)" using u Cons Cons.prems(2) True by auto
        then show ?thesis using Cons.prems(5,6) [of u] z(1) p [of u] rest(2) u Cons by auto
      qed
      then have "dll nx' pv' (Some z) (nx z) zs" using z(2) dll_cong [of zs nx' nx pv' pv] by simp
      then show ?thesis using z Cons True rest Cons.prems(2,5,6) p by auto
    qed
  next
    case False
    have tail: "dll nx pv (Some y) (nx y) ys" "q = Some y" "pv y = p" "x \<in> set ys" "distinct ys" "y \<notin> set ys"
      using Cons.prems False by auto
    have IH: "dll nx' pv' (Some y) (if nx y = Some x then nx x else nx y) (remove1 x ys)"
      using Cons.prems(5,6) tail by (intro Cons.IH) auto
    have "nx x \<noteq> Some y" using dll_next [OF tail(1,4,5)] tail(6) by auto
    then have "pv' y = p" using Cons.prems(6) [of y] False tail(3) by simp
    moreover have "nx' y = (if nx y = Some x then nx x else nx y)"
      using Cons.prems(5) [of y] False dll_prev [OF tail(1,4,5)] tail(6) by (auto split: if_splits)
    ultimately show ?thesis using IH False tail(2) by simp
  qed
qed simp

section \<open>The two lists of a pool\<close>

definition pool_lists :: "object_pool \<Rightarrow> nat list \<Rightarrow> nat list \<Rightarrow> bool" where
  "pool_lists p live free \<longleftrightarrow>
     dll (next_of p) (prev_of p) None (live_list p) live \<and> sll (next_of p) (pool_free_list p) free \<and>
     distinct (live @ free) \<and> (\<forall>x\<in>set (live @ free). x < fresh p)"

lemma preallocate_lists:
  "pool_lists p [] free \<Longrightarrow> \<exists>free'. pool_lists (preallocate n p) [] free' \<and> length free' = n + length free"
proof (induction n arbitrary: p free)
  case (Suc n)
  let ?p = "p\<lparr>fresh := fresh p + 1, next_of := (next_of p)(fresh p := pool_free_list p),
     prev_of := (prev_of p)(fresh p := None), pool_free_list := Some (fresh p)\<rparr>"
  have "sll ((next_of p)(fresh p := pool_free_list p)) (pool_free_list p) free"
    using Suc.prems by (subst sll_cong [of free _ "next_of p"]) (auto simp: pool_lists_def)
  then have "pool_lists ?p [] (fresh p # free)" using Suc.prems by (auto simp: pool_lists_def less_Suc_eq)
  from Suc.IH [OF this] show ?case by (simp add: allocate_object_def)
qed auto

lemma object_pool_new_lists: "\<exists>free. pool_lists (object_pool_new n) [] free \<and> length free = n"
  using preallocate_lists [of _ "[]" n] by (simp add: object_pool_new_def pool_lists_def)

lemma pool_alloc_lists:
  assumes "pool_lists p live free"
  shows "\<exists>obj p'. pool_alloc p = (obj, p') \<and> obj \<notin> set live \<and> pool_lists p' (obj # live) (tl free) \<and>
    (free \<noteq> [] \<longrightarrow> obj = hd free)"
proof -
  define obj where "obj = (case free of [] \<Rightarrow> fresh p | x # _ \<Rightarrow> x)"
  define p1 where "p1 = (case free of [] \<Rightarrow> p\<lparr>fresh := fresh p + 1\<rparr> | x # _ \<Rightarrow> p\<lparr>pool_free_list := next_of p x\<rparr>)"
  have new: "obj \<notin> set live" "obj \<notin> set (tl free)" "obj < fresh p1"
    using assms by (cases free; force simp: pool_lists_def obj_def p1_def)+
  have p1: "dll (next_of p1) (prev_of p1) None (live_list p1) live" "sll (next_of p1) (pool_free_list p1) (tl free)"
    "distinct (live @ tl free)" "\<forall>x\<in>set (live @ tl free). x < fresh p1"
    using assms by (cases free; force simp: pool_lists_def p1_def)+
  let ?nx = "(next_of p1)(obj := live_list p1)"
  let ?pv = "(case live_list p1 of Some l \<Rightarrow> ((prev_of p1)(obj := None))(l := Some obj) | None \<Rightarrow> (prev_of p1)(obj := None))"
  let ?p = "p1\<lparr>next_of := ?nx, prev_of := ?pv, live_list := Some obj\<rparr>"
  have "pool_alloc p = (obj, ?p)"
    using assms by (cases free; cases "live_list p")
      (auto simp: pool_alloc_def obj_def p1_def pool_lists_def allocate_object_def Let_def)
  moreover have "dll ?nx ?pv (Some obj) (live_list p1) live"
  proof (cases live)
    case (Cons l ls)
    then have l: "live_list p1 = Some l" "dll (next_of p1) (prev_of p1) (Some l) (next_of p1 l) ls" using p1(1) by auto
    have "dll ?nx ?pv (Some l) (next_of p1 l) ls"
      using l(2) by (subst dll_cong [of ls ?nx "next_of p1" ?pv "prev_of p1"]) (use new Cons l(1) p1(3) in auto)
    then show ?thesis using Cons l new by auto
  qed (use p1(1) in simp)
  moreover have "sll ?nx (pool_free_list p1) (tl free)"
    using p1(2) new by (subst sll_cong [of "tl free" ?nx "next_of p1"]) auto
  moreover have "?pv obj = None" using p1(1) new by (cases live) auto
  ultimately have "pool_lists ?p (obj # live) (tl free)"
    using p1(3,4) new by (simp add: pool_lists_def)
  then show ?thesis
    using \<open>pool_alloc p = (obj, ?p)\<close> new(1) by (cases free) (auto simp: obj_def)
qed

lemma pool_free_eq:
  assumes "prev_of p obj \<noteq> Some obj" "next_of p obj \<noteq> Some obj"
  shows "pool_free obj p = p\<lparr>live_list := (if live_list p = Some obj then next_of p obj else live_list p),
    next_of := (\<lambda>y. if y = obj then pool_free_list p else if prev_of p obj = Some y then next_of p obj else next_of p y),
    prev_of := (\<lambda>y. if y = obj then None else if next_of p obj = Some y then prev_of p obj else prev_of p y),
    pool_free_list := Some obj\<rparr>"
  using assms by (cases p) (auto simp: pool_free_def Let_def fun_eq_iff split: option.splits)

lemma pool_free_lists:
  assumes "pool_lists p live free" "obj \<in> set live"
  shows "pool_lists (pool_free obj p) (remove1 obj live) (obj # free)"
proof -
  have dl: "dll (next_of p) (prev_of p) None (live_list p) live" "distinct live" "sll (next_of p) (pool_free_list p) free"
    and rest: "set live \<inter> set free = {}" "distinct free" "\<forall>x\<in>set (live @ free). x < fresh p"
    using assms(1) by (auto simp: pool_lists_def)
  have nx: "next_of p obj = None \<or> (\<exists>z\<in>set live. next_of p obj = Some z \<and> z \<noteq> obj)"
    using dll_next [OF dl(1) assms(2) dl(2)] .
  have pv: "prev_of p obj = None \<or> (\<exists>z\<in>set live. prev_of p obj = Some z \<and> z \<noteq> obj)"
    using dll_prev [OF dl(1) assms(2) dl(2)] by (auto split: if_splits)
  let ?nx = "\<lambda>y. if y = obj then pool_free_list p else if prev_of p obj = Some y then next_of p obj else next_of p y"
  let ?pv = "\<lambda>y. if y = obj then None else if next_of p obj = Some y then prev_of p obj else prev_of p y"
  have "dll ?nx ?pv None (if live_list p = Some obj then next_of p obj else live_list p) (remove1 obj live)"
    using dl assms(2) by (intro dll_unlink) auto
  moreover have "sll ?nx (pool_free_list p) free"
    using dl(3) rest(1) pv assms(2) by (subst sll_cong [of free ?nx "next_of p"]) auto
  ultimately show ?thesis
    using rest dl(2) assms(2) nx pv by (subst pool_free_eq) (auto simp: pool_lists_def dest: notin_set_remove1)
qed

lemma destroy_list_sll: "sll nx l xs \<Longrightarrow> destroy_list nx l = Some xs"
  by (induction xs arbitrary: l) (subst destroy_list.simps, simp)+

lemma dll_sll: "dll nx pv p q xs \<Longrightarrow> sll nx q xs"
  by (induction xs arbitrary: p q) auto

end
