(* ===== verification/AsioSys.thy ===== *)
theory AsioSys
  imports Prelude
begin

text \<open>
  The operating system below the vendored Asio, as a parameter: one field per system call the
  modelled code makes, on a kernel state of any type. A call returns its result, the value of
  \<open>errno\<close> (meaningful when the result says so) and the new kernel state; a call that blocks
  for ever returns \<open>None\<close>. The second half models
  \<^verbatim>\<open>include/asio/detail/impl/eventfd_select_interrupter.ipp\<close>.
\<close>

abbreviation operation_aborted :: int where "operation_aborted \<equiv> 125"

section \<open>System calls\<close>

datatype ctl_op = EPOLL_CTL_ADD | EPOLL_CTL_MOD | EPOLL_CTL_DEL

text \<open>What \<open>ev.data.ptr\<close> points to: the interrupter, the timer descriptor, or a descriptor state.\<close>

datatype event_ptr = NullPtr | InterrupterPtr | TimerFdPtr | DescriptorPtr nat

datatype fcntl_cmd = SetNonblock | SetCloexec

record 'k os =
  sys_epoll_create1 :: "'k \<Rightarrow> int \<times> int \<times> 'k"
  sys_epoll_create :: "int \<Rightarrow> 'k \<Rightarrow> int \<times> int \<times> 'k"
  sys_epoll_ctl :: "int \<Rightarrow> ctl_op \<Rightarrow> int \<Rightarrow> u32 \<Rightarrow> event_ptr \<Rightarrow> 'k \<Rightarrow> int \<times> int \<times> 'k"
  sys_epoll_wait :: "int \<Rightarrow> int \<Rightarrow> 'k \<Rightarrow> ((event_ptr \<times> u32) list \<times> 'k) option"
  sys_timerfd_create :: "bool \<Rightarrow> 'k \<Rightarrow> int \<times> int \<times> 'k"      \<comment> \<open>with or without \<open>TFD_CLOEXEC\<close>\<close>
  sys_timerfd_settime :: "int \<Rightarrow> bool \<Rightarrow> int \<Rightarrow> int \<Rightarrow> 'k \<Rightarrow> 'k" \<comment> \<open>\<open>TFD_TIMER_ABSTIME\<close>?, seconds, nanoseconds\<close>
  sys_eventfd :: "bool \<Rightarrow> 'k \<Rightarrow> int \<times> int \<times> 'k"             \<comment> \<open>with or without the two flags\<close>
  sys_pipe :: "'k \<Rightarrow> (int \<times> int) option \<times> int \<times> 'k"
  sys_fcntl :: "int \<Rightarrow> fcntl_cmd \<Rightarrow> 'k \<Rightarrow> 'k"
  sys_close :: "int \<Rightarrow> 'k \<Rightarrow> 'k"
  sys_write :: "int \<Rightarrow> int \<Rightarrow> nat \<Rightarrow> 'k \<Rightarrow> 'k"                \<comment> \<open>descriptor, value, size\<close>
  sys_read :: "int \<Rightarrow> nat \<Rightarrow> 'k \<Rightarrow> int \<times> int \<times> int \<times> 'k"    \<comment> \<open>result, \<open>errno\<close>, the value read\<close>
  sys_sigaction :: "int \<Rightarrow> bool \<Rightarrow> int \<Rightarrow> 'k \<Rightarrow> int \<times> int \<times> 'k" \<comment> \<open>signal, install the handler?, flags\<close>

abbreviation EPERM :: int where "EPERM \<equiv> 1"
abbreviation EINTR :: int where "EINTR \<equiv> 4"
abbreviation EAGAIN :: int where "EAGAIN \<equiv> 11"
abbreviation EWOULDBLOCK :: int where "EWOULDBLOCK \<equiv> 11"
abbreviation EINVAL :: int where "EINVAL \<equiv> 22"
abbreviation ENOSYS :: int where "ENOSYS \<equiv> 38"

section \<open>The interrupter\<close>

record interrupter =
  read_descriptor :: int
  write_descriptor :: int

text \<open>\<open>open_descriptors\<close>: an event descriptor with flags, without, or a pipe; the error is thrown.\<close>

definition intr_open_pipe :: "'k os \<Rightarrow> 'k \<Rightarrow> (int + interrupter) \<times> 'k" where
  "intr_open_pipe os k =
     (let (fds, errno, k) = sys_pipe os k in
      case fds of
        Some (r, w) \<Rightarrow>
          let k = sys_fcntl os r SetNonblock k;
              k = sys_fcntl os r SetCloexec k;
              k = sys_fcntl os w SetNonblock k;
              k = sys_fcntl os w SetCloexec k
          in (Inr \<lparr>read_descriptor = r, write_descriptor = w\<rparr>, k)
      | None \<Rightarrow> (Inl errno, k))"

definition intr_open_descriptors :: "'k os \<Rightarrow> 'k \<Rightarrow> (int + interrupter) \<times> 'k" where
  "intr_open_descriptors os k =
     (let (fd, errno, k) = sys_eventfd os True k;
          (fd, k) =
            (if fd = -1 \<and> errno = EINVAL then
               let (fd, errno, k) = sys_eventfd os False k in
               if fd \<noteq> -1 then (fd, sys_fcntl os fd SetCloexec (sys_fcntl os fd SetNonblock k)) else (fd, k)
             else (fd, k))
      in if fd = -1 then intr_open_pipe os k
         else (Inr \<lparr>read_descriptor = fd, write_descriptor = fd\<rparr>, k))"

definition intr_close_descriptors :: "'k os \<Rightarrow> interrupter \<Rightarrow> 'k \<Rightarrow> 'k" where
  "intr_close_descriptors os i k =
     (let k = (if write_descriptor i \<noteq> -1 \<and> write_descriptor i \<noteq> read_descriptor i
               then sys_close os (write_descriptor i) k else k)
      in if read_descriptor i \<noteq> -1 then sys_close os (read_descriptor i) k else k)"

definition intr_recreate :: "'k os \<Rightarrow> interrupter \<Rightarrow> 'k \<Rightarrow> (int + interrupter) \<times> 'k" where
  "intr_recreate os i k = intr_open_descriptors os (intr_close_descriptors os i k)"

definition intr_interrupt :: "'k os \<Rightarrow> interrupter \<Rightarrow> 'k \<Rightarrow> 'k" where
  "intr_interrupt os i k = sys_write os (write_descriptor i) 1 8 k"

partial_function (option) intr_reset_eventfd :: "'k os \<Rightarrow> interrupter \<Rightarrow> 'k \<Rightarrow> (bool \<times> 'k) option" where
  "intr_reset_eventfd os i k =
     (let (bytes_read, errno, v, k) = sys_read os (read_descriptor i) 8 k in
      if bytes_read < 0 \<and> errno = EINTR then intr_reset_eventfd os i k else Some (True, k))"

partial_function (option) intr_reset_pipe :: "'k os \<Rightarrow> interrupter \<Rightarrow> 'k \<Rightarrow> (bool \<times> 'k) option" where
  "intr_reset_pipe os i k =
     (let (bytes_read, errno, v, k) = sys_read os (read_descriptor i) 1024 k in
      if bytes_read = 1024 then intr_reset_pipe os i k
      else if bytes_read > 0 then Some (True, k)
      else if bytes_read = 0 then Some (False, k)
      else if errno = EINTR then intr_reset_pipe os i k
      else if errno = EWOULDBLOCK then Some (True, k)
      else if errno = EAGAIN then Some (True, k)
      else Some (False, k))"

definition intr_reset :: "'k os \<Rightarrow> interrupter \<Rightarrow> 'k \<Rightarrow> (bool \<times> 'k) option" where
  "intr_reset os i k =
     (if write_descriptor i = read_descriptor i then intr_reset_eventfd os i k else intr_reset_pipe os i k)"

text \<open>Reading a pipe that holds less than the buffer at a time ends; a descriptor is closed once.\<close>

lemma intr_reset_one_read:
  assumes "sys_read os (read_descriptor i) (if write_descriptor i = read_descriptor i then 8 else 1024) k =
      (n, errno, v, k')" "n > 0" "n < 1024"
  shows "intr_reset os i k = Some (True, k')"
  using assms
  by (auto simp: intr_reset_def intr_reset_eventfd.simps [of os i k] intr_reset_pipe.simps [of os i k]
      split: if_splits)

lemma intr_open_descriptors_valid:
  assumes "intr_open_descriptors os k = (Inr i, k')"
    and "\<And>k r w errno k'. sys_pipe os k = (Some (r, w), errno, k') \<Longrightarrow> r \<noteq> -1 \<and> w \<noteq> -1"
  shows "read_descriptor i \<noteq> -1 \<and> write_descriptor i \<noteq> -1"
  using assms
  by (auto simp: intr_open_descriptors_def intr_open_pipe_def Let_def split: prod.splits option.splits if_splits)

section \<open>A quiet operating system\<close>

text \<open>Every call succeeds and \<open>epoll_wait\<close> reports the events held in the kernel state, once. Used to evaluate
  the model on concrete inputs.\<close>

definition quiet_os :: "(event_ptr \<times> u32) list os" where
  "quiet_os =
     \<lparr>sys_epoll_create1 = (\<lambda>k. (3, 0, k)), sys_epoll_create = (\<lambda>n k. (3, 0, k)),
      sys_epoll_ctl = (\<lambda>e c fd evs p k. (0, 0, k)), sys_epoll_wait = (\<lambda>e t k. Some (k, [])),
      sys_timerfd_create = (\<lambda>b k. (4, 0, k)), sys_timerfd_settime = (\<lambda>fd b s n k. k),
      sys_eventfd = (\<lambda>b k. (5, 0, k)), sys_pipe = (\<lambda>k. (Some (6, 7), 0, k)), sys_fcntl = (\<lambda>fd c k. k),
      sys_close = (\<lambda>fd k. k), sys_write = (\<lambda>fd v n k. k), sys_read = (\<lambda>fd n k. (-1, EAGAIN, 0, k)),
      sys_sigaction = (\<lambda>n h f k. (0, 0, k))\<rparr>"

end
