(* ===== verification/AsioReactor.thy ===== *)
theory AsioReactor
  imports AsioScheduler AsioObjectPool AsioSys "HOL-Library.Signed_Division" "HOL-Library.Multiset"
begin

text \<open>
  The epoll reactor of the vendored Asio (\<^verbatim>\<open>include/asio/detail/impl/epoll_reactor.ipp\<close>,
  \<^verbatim>\<open>epoll_reactor.hpp\<close>, \<^verbatim>\<open>timer_queue_set.ipp\<close>) with event and timer descriptors (Linux), on top of the
  scheduler: its state is the scheduler's \<open>world\<close>. Descriptor states and operations are addresses.
  The \<open>perform\<close> function of an operation acts on the operation's error code and on the kernel and
  is a parameter; so are the virtual functions of the timer queues. Locks are dropped.
\<close>

section \<open>State\<close>

abbreviation EPOLLIN :: u32 where "EPOLLIN \<equiv> 1"
abbreviation EPOLLPRI :: u32 where "EPOLLPRI \<equiv> 2"
abbreviation EPOLLOUT :: u32 where "EPOLLOUT \<equiv> 4"
abbreviation EPOLLERR :: u32 where "EPOLLERR \<equiv> 8"
abbreviation EPOLLHUP :: u32 where "EPOLLHUP \<equiv> 16"
abbreviation EPOLLET :: u32 where "EPOLLET \<equiv> 2147483648"

text \<open>\<open>enum op_types\<close>; \<open>connect_op\<close> is \<open>write_op\<close>.\<close>

abbreviation read_op :: nat where "read_op \<equiv> 0"
abbreviation write_op :: nat where "write_op \<equiv> 1"
abbreviation except_op :: nat where "except_op \<equiv> 2"
abbreviation max_ops :: nat where "max_ops \<equiv> 3"

abbreviation bad_descriptor :: int where "bad_descriptor \<equiv> 9"
abbreviation operation_not_supported :: int where "operation_not_supported \<equiv> 95"

datatype perform_status = not_done | op_done | done_and_exhausted

text \<open>An operation in the scheduler's queue is a descriptor state or an operation of a client.\<close>

datatype operation = DescriptorOp nat | ClientOp nat

record descriptor_state =
  descriptor :: int
  registered_events :: u32
  ds_op_queue :: "nat \<Rightarrow> nat list"
  try_speculative :: "nat \<Rightarrow> bool"
  ds_shutdown :: bool
  task_result :: u32

record ('q, 'k) reactor =
  registered_descriptors :: object_pool
  ds :: "nat \<Rightarrow> descriptor_state"
  op_ec :: "nat \<Rightarrow> int"
  cancellation_key :: "nat \<Rightarrow> nat"
  timer_queues :: "(nat \<times> 'q) list"
  epoll_fd :: int
  timer_fd :: int
  rinterrupter :: interrupter
  r_shutdown :: bool
  kernel :: 'k

type_synonym ('q, 'k) io = "(operation, ('q, 'k) reactor) scheduler"

text \<open>The virtual functions of \<open>timer_queue_base\<close> and \<open>reactor_op::perform\<close>.\<close>

record ('q, 'k) reactor_env =
  the_os :: "'k os"
  tq_empty :: "'q \<Rightarrow> bool"
  tq_wait_duration_msec :: "int \<Rightarrow> 'q \<Rightarrow> int"
  tq_wait_duration_usec :: "int \<Rightarrow> 'q \<Rightarrow> int"
  tq_get_ready_timers :: "'q \<Rightarrow> nat list \<times> 'q"
  tq_get_all_timers :: "'q \<Rightarrow> nat list \<times> 'q"
  op_perform :: "nat \<Rightarrow> int \<Rightarrow> 'k \<Rightarrow> perform_status \<times> int \<times> 'k"

definition upd_ds :: "nat \<Rightarrow> (descriptor_state \<Rightarrow> descriptor_state) \<Rightarrow> ('q, 'k) io \<Rightarrow> ('q, 'k) io" where
  "upd_ds d f s = s\<lparr>world := (world s)\<lparr>ds := (ds (world s))(d := f (ds (world s) d))\<rparr>\<rparr>"

definition set_op_ec :: "nat \<Rightarrow> int \<Rightarrow> ('q, 'k) io \<Rightarrow> ('q, 'k) io" where
  "set_op_ec x ec s = s\<lparr>world := (world s)\<lparr>op_ec := (op_ec (world s))(x := ec)\<rparr>\<rparr>"

definition call_epoll_ctl ::
  "('q, 'k) reactor_env \<Rightarrow> ctl_op \<Rightarrow> int \<Rightarrow> u32 \<Rightarrow> event_ptr \<Rightarrow> ('q, 'k) reactor \<Rightarrow> int \<times> int \<times> ('q, 'k) reactor" where
  "call_epoll_ctl env c fd evs ptr r =
     (let (result, errno, k) = sys_epoll_ctl (the_os env) (epoll_fd r) c fd evs ptr (kernel r)
      in (result, errno, r\<lparr>kernel := k\<rparr>))"

section \<open>The set of timer queues\<close>

definition tqs_insert :: "nat \<times> 'q \<Rightarrow> (nat \<times> 'q) list \<Rightarrow> (nat \<times> 'q) list" where
  "tqs_insert q qs = q # qs"

fun tqs_erase :: "nat \<Rightarrow> (nat \<times> 'q) list \<Rightarrow> (nat \<times> 'q) list" where
  "tqs_erase q [] = []"
| "tqs_erase q (p # qs) = (if fst p = q then qs else p # tqs_erase q qs)"

definition tqs_all_empty :: "('q, 'k) reactor_env \<Rightarrow> (nat \<times> 'q) list \<Rightarrow> bool" where
  "tqs_all_empty env qs = list_all (\<lambda>p. tq_empty env (snd p)) qs"

definition tqs_wait_duration_msec :: "('q, 'k) reactor_env \<Rightarrow> int \<Rightarrow> (nat \<times> 'q) list \<Rightarrow> int" where
  "tqs_wait_duration_msec env max_duration qs = fold (\<lambda>p d. tq_wait_duration_msec env d (snd p)) qs max_duration"

definition tqs_wait_duration_usec :: "('q, 'k) reactor_env \<Rightarrow> int \<Rightarrow> (nat \<times> 'q) list \<Rightarrow> int" where
  "tqs_wait_duration_usec env max_duration qs = fold (\<lambda>p d. tq_wait_duration_usec env d (snd p)) qs max_duration"

definition tqs_get_ready_timers :: "('q, 'k) reactor_env \<Rightarrow> (nat \<times> 'q) list \<Rightarrow> nat list \<times> (nat \<times> 'q) list" where
  "tqs_get_ready_timers env qs =
     (concat (map (\<lambda>p. fst (tq_get_ready_timers env (snd p))) qs),
      map (\<lambda>p. (fst p, snd (tq_get_ready_timers env (snd p)))) qs)"

definition tqs_get_all_timers :: "('q, 'k) reactor_env \<Rightarrow> (nat \<times> 'q) list \<Rightarrow> nat list \<times> (nat \<times> 'q) list" where
  "tqs_get_all_timers env qs =
     (concat (map (\<lambda>p. fst (tq_get_all_timers env (snd p))) qs),
      map (\<lambda>p. (fst p, snd (tq_get_all_timers env (snd p)))) qs)"

section \<open>Descriptors of the reactor itself\<close>

text \<open>\<open>do_epoll_create\<close> throws when both calls fail (\<open>Inl\<close>); \<open>do_timerfd_create\<close> returns -1.\<close>

definition do_epoll_create :: "'k os \<Rightarrow> 'k \<Rightarrow> (int + int) \<times> 'k" where
  "do_epoll_create os k =
     (let (fd, errno, k) = sys_epoll_create1 os k;
          (fd, errno, k) =
            (if fd = -1 \<and> (errno = EINVAL \<or> errno = ENOSYS) then
               let (fd, errno, k) = sys_epoll_create os 20000 k
               in (fd, errno, if fd \<noteq> -1 then sys_fcntl os fd SetCloexec k else k)
             else (fd, errno, k))
      in if fd = -1 then (Inl errno, k) else (Inr fd, k))"

definition do_timerfd_create :: "'k os \<Rightarrow> 'k \<Rightarrow> int \<times> 'k" where
  "do_timerfd_create os k =
     (let (fd, errno, k) = sys_timerfd_create os True k in
      if fd = -1 \<and> errno = EINVAL then
        let (fd, errno, k) = sys_timerfd_create os False k
        in (fd, if fd \<noteq> -1 then sys_fcntl os fd SetCloexec k else k)
      else (fd, k))"

text \<open>Adding the interrupter and the timer descriptor to epoll (constructor and fork).\<close>

definition add_own_descriptors :: "('q, 'k) reactor_env \<Rightarrow> ('q, 'k) reactor \<Rightarrow> ('q, 'k) reactor" where
  "add_own_descriptors env r =
     (let (_, _, r) = call_epoll_ctl env EPOLL_CTL_ADD (read_descriptor (rinterrupter r))
                        (EPOLLIN OR EPOLLERR OR EPOLLET) InterrupterPtr r;
          r = r\<lparr>kernel := intr_interrupt (the_os env) (rinterrupter r) (kernel r)\<rparr>
      in if timer_fd r \<noteq> -1
         then snd (snd (call_epoll_ctl env EPOLL_CTL_ADD (timer_fd r) (EPOLLIN OR EPOLLERR) TimerFdPtr r))
         else r)"

definition descriptor_state_new :: "descriptor_state \<Rightarrow> descriptor_state" where
  "descriptor_state_new st = st\<lparr>ds_op_queue := (\<lambda>_. []), task_result := 0\<rparr>"

definition epoll_reactor_new ::
  "('q, 'k) reactor_env \<Rightarrow> nat \<Rightarrow> (nat \<Rightarrow> descriptor_state) \<Rightarrow> (nat \<Rightarrow> int) \<Rightarrow> (nat \<Rightarrow> nat) \<Rightarrow> 'k \<Rightarrow> int + ('q, 'k) reactor" where
  "epoll_reactor_new env preallocated mem ecs keys k =
     (case intr_open_descriptors (the_os env) k of
        (Inl e, k) \<Rightarrow> Inl e
      | (Inr i, k) \<Rightarrow>
          (case do_epoll_create (the_os env) k of
             (Inl e, k) \<Rightarrow> Inl e
           | (Inr efd, k) \<Rightarrow>
               let (tfd, k) = do_timerfd_create (the_os env) k
               in Inr (add_own_descriptors env
                    \<lparr>registered_descriptors = object_pool_new preallocated,
                     ds = (\<lambda>d. if d < preallocated then descriptor_state_new (mem d) else mem d),
                     op_ec = ecs, cancellation_key = keys, timer_queues = [], epoll_fd = efd, timer_fd = tfd,
                     rinterrupter = i, r_shutdown = False, kernel = k\<rparr>)))"

definition epoll_reactor_destroy :: "('q, 'k) reactor_env \<Rightarrow> ('q, 'k) reactor \<Rightarrow> 'k" where
  "epoll_reactor_destroy env r =
     (let k = (if epoll_fd r \<noteq> -1 then sys_close (the_os env) (epoll_fd r) (kernel r) else kernel r)
      in if timer_fd r \<noteq> -1 then sys_close (the_os env) (timer_fd r) k else k)"

definition reactor_interrupt :: "('q, 'k) reactor_env \<Rightarrow> ('q, 'k) reactor \<Rightarrow> ('q, 'k) reactor" where
  "reactor_interrupt env r =
     snd (snd (call_epoll_ctl env EPOLL_CTL_MOD (read_descriptor (rinterrupter r))
                 (EPOLLIN OR EPOLLERR OR EPOLLET) InterrupterPtr r))"

section \<open>Timeouts\<close>

definition get_timeout_msec :: "('q, 'k) reactor_env \<Rightarrow> int \<Rightarrow> ('q, 'k) reactor \<Rightarrow> int" where
  "get_timeout_msec env msec r =
     (let max_msec = 5 * 60 * 1000
      in tqs_wait_duration_msec env (if msec < 0 \<or> max_msec < msec then max_msec else msec) (timer_queues r))"

text \<open>\<open>get_timeout(itimerspec&)\<close>: whether the time is absolute, seconds, nanoseconds.\<close>

definition get_timeout_itimerspec :: "('q, 'k) reactor_env \<Rightarrow> ('q, 'k) reactor \<Rightarrow> bool \<times> int \<times> int" where
  "get_timeout_itimerspec env r =
     (let usec = tqs_wait_duration_usec env (5 * 60 * 1000 * 1000) (timer_queues r)
      in (usec = 0, usec sdiv 1000000, if usec \<noteq> 0 then (usec smod 1000000) * 1000 else 1))"

definition set_timerfd :: "('q, 'k) reactor_env \<Rightarrow> ('q, 'k) reactor \<Rightarrow> ('q, 'k) reactor" where
  "set_timerfd env r =
     (let (abstime, sec, nsec) = get_timeout_itimerspec env r
      in r\<lparr>kernel := sys_timerfd_settime (the_os env) (timer_fd r) abstime sec nsec (kernel r)\<rparr>)"

definition update_timeout :: "('q, 'k) reactor_env \<Rightarrow> ('q, 'k) reactor \<Rightarrow> ('q, 'k) reactor" where
  "update_timeout env r = (if timer_fd r \<noteq> -1 then set_timerfd env r else reactor_interrupt env r)"

definition do_add_timer_queue :: "nat \<times> 'q \<Rightarrow> ('q, 'k) reactor \<Rightarrow> ('q, 'k) reactor" where
  "do_add_timer_queue q r = r\<lparr>timer_queues := tqs_insert q (timer_queues r)\<rparr>"

definition do_remove_timer_queue :: "nat \<Rightarrow> ('q, 'k) reactor \<Rightarrow> ('q, 'k) reactor" where
  "do_remove_timer_queue q r = r\<lparr>timer_queues := tqs_erase q (timer_queues r)\<rparr>"

section \<open>Registering descriptors\<close>

definition allocate_descriptor_state :: "('q, 'k) reactor \<Rightarrow> nat \<times> ('q, 'k) reactor" where
  "allocate_descriptor_state r =
     (let newly_created = (pool_free_list (registered_descriptors r) = None);
          (d, p) = pool_alloc (registered_descriptors r)
      in (d, r\<lparr>registered_descriptors := p,
               ds := (if newly_created then (ds r)(d := descriptor_state_new (ds r d)) else ds r)\<rparr>))"

definition free_descriptor_state :: "nat \<Rightarrow> ('q, 'k) reactor \<Rightarrow> ('q, 'k) reactor" where
  "free_descriptor_state d r = r\<lparr>registered_descriptors := pool_free d (registered_descriptors r)\<rparr>"

abbreviation registration_events :: u32 where
  "registration_events \<equiv> EPOLLIN OR EPOLLERR OR EPOLLHUP OR EPOLLPRI OR EPOLLET"

definition register_descriptor ::
  "('q, 'k) reactor_env \<Rightarrow> int \<Rightarrow> ('q, 'k) reactor \<Rightarrow> int \<times> nat \<times> ('q, 'k) reactor" where
  "register_descriptor env fd r =
     (let (d, r) = allocate_descriptor_state r;
          st = (ds r d)\<lparr>descriptor := fd, ds_shutdown := False,
                        try_speculative := (\<lambda>i. if i < max_ops then True else try_speculative (ds r d) i),
                        registered_events := registration_events\<rparr>;
          r = r\<lparr>ds := (ds r)(d := st)\<rparr>;
          (result, errno, r) = call_epoll_ctl env EPOLL_CTL_ADD fd registration_events (DescriptorPtr d) r
      in if result \<noteq> 0 then
           if errno = EPERM then (0, d, r\<lparr>ds := (ds r)(d := (ds r d)\<lparr>registered_events := 0\<rparr>)\<rparr>)
           else (errno, d, r)
         else (0, d, r))"

definition register_internal_descriptor ::
  "('q, 'k) reactor_env \<Rightarrow> nat \<Rightarrow> int \<Rightarrow> nat \<Rightarrow> ('q, 'k) reactor \<Rightarrow> int \<times> nat \<times> ('q, 'k) reactor" where
  "register_internal_descriptor env op_type fd x r =
     (let (d, r) = allocate_descriptor_state r;
          st = (ds r d)\<lparr>descriptor := fd, ds_shutdown := False,
                        ds_op_queue := (ds_op_queue (ds r d))(op_type := ds_op_queue (ds r d) op_type @ [x]),
                        try_speculative := (\<lambda>i. if i < max_ops then True else try_speculative (ds r d) i),
                        registered_events := registration_events\<rparr>;
          r = r\<lparr>ds := (ds r)(d := st)\<rparr>;
          (result, errno, r) = call_epoll_ctl env EPOLL_CTL_ADD fd registration_events (DescriptorPtr d) r
      in if result \<noteq> 0 then (errno, d, r\<lparr>ds := (ds r)(d := (ds r d)\<lparr>registered_events := 0\<rparr>)\<rparr>)
         else (0, d, r))"

text \<open>\<open>move_descriptor\<close>: the new target and the new source.\<close>

definition move_descriptor :: "nat option \<Rightarrow> nat option \<Rightarrow> nat option \<times> nat option" where
  "move_descriptor target source = (source, None)"

section \<open>Starting and cancelling operations\<close>

text \<open>\<open>on_immediate\<close> is a callback; the reactor's own is \<open>call_post_immediate_completion\<close>.\<close>

type_synonym ('q, 'k) on_immediate = "nat \<Rightarrow> bool \<Rightarrow> ('q, 'k) io \<Rightarrow> ('q, 'k) io"

definition reactor_post_immediate_completion ::
  "('q, 'k) reactor_env \<Rightarrow> nat \<Rightarrow> bool \<Rightarrow> ('q, 'k) io \<Rightarrow> ('q, 'k) io" where
  "reactor_post_immediate_completion env x is_continuation s =
     post_immediate_completion (reactor_interrupt env) (ClientOp x) is_continuation s"

definition call_post_immediate_completion :: "('q, 'k) reactor_env \<Rightarrow> ('q, 'k) on_immediate" where
  "call_post_immediate_completion env x is_continuation s =
     reactor_post_immediate_completion env x is_continuation s"

definition perform_op :: "('q, 'k) reactor_env \<Rightarrow> nat \<Rightarrow> ('q, 'k) reactor \<Rightarrow> perform_status \<times> ('q, 'k) reactor" where
  "perform_op env x r =
     (let (status, ec, k) = op_perform env x (op_ec r x) (kernel r)
      in (status, r\<lparr>op_ec := (op_ec r)(x := ec), kernel := k\<rparr>))"

definition enqueue_op :: "nat \<Rightarrow> nat \<Rightarrow> nat \<Rightarrow> ('q, 'k) io \<Rightarrow> ('q, 'k) io" where
  "enqueue_op op_type d x s =
     work_started (upd_ds d (\<lambda>st. st\<lparr>ds_op_queue := (ds_op_queue st)(op_type := ds_op_queue st op_type @ [x])\<rparr>) s)"

definition start_op ::
  "('q, 'k) reactor_env \<Rightarrow> nat \<Rightarrow> int \<Rightarrow> nat option \<Rightarrow> nat \<Rightarrow> bool \<Rightarrow> bool \<Rightarrow> ('q, 'k) on_immediate \<Rightarrow> ('q, 'k) io \<Rightarrow> ('q, 'k) io" where
  "start_op env op_type fd descriptor_data x is_continuation allow_speculative on_immediate s =
     (case descriptor_data of
        None \<Rightarrow> on_immediate x is_continuation (set_op_ec x bad_descriptor s)
      | Some d \<Rightarrow>
          let st = ds (world s) d in
          if ds_shutdown st then on_immediate x is_continuation s
          else if ds_op_queue st op_type = [] then
            if allow_speculative \<and> (op_type \<noteq> read_op \<or> ds_op_queue st except_op = []) then
              let (status, s) = (if try_speculative st op_type
                                 then let (status, r) = perform_op env x (world s) in (status, s\<lparr>world := r\<rparr>)
                                 else (not_done, s)) in
              if status \<noteq> not_done then
                on_immediate x is_continuation
                  (if status = done_and_exhausted \<and> registered_events st \<noteq> 0
                   then upd_ds d (\<lambda>st. st\<lparr>try_speculative := (try_speculative st)(op_type := False)\<rparr>) s else s)
              else if registered_events st = 0 then
                on_immediate x is_continuation (set_op_ec x operation_not_supported s)
              else if op_type = write_op \<and> registered_events st AND EPOLLOUT = 0 then
                let evs = registered_events st OR EPOLLOUT;
                    (result, errno, r) = call_epoll_ctl env EPOLL_CTL_MOD fd evs (DescriptorPtr d) (world s);
                    s = s\<lparr>world := r\<rparr>
                in if result = 0
                   then enqueue_op op_type d x (upd_ds d (\<lambda>st. st\<lparr>registered_events := registered_events st OR evs\<rparr>) s)
                   else on_immediate x is_continuation (set_op_ec x errno s)
              else enqueue_op op_type d x s
            else if registered_events st = 0 then
              on_immediate x is_continuation (set_op_ec x operation_not_supported s)
            else
              let s = (if op_type = write_op
                       then upd_ds d (\<lambda>st. st\<lparr>registered_events := registered_events st OR EPOLLOUT\<rparr>) s else s);
                  (_, _, r) = call_epoll_ctl env EPOLL_CTL_MOD fd (registered_events (ds (world s) d)) (DescriptorPtr d) (world s)
              in enqueue_op op_type d x (s\<lparr>world := r\<rparr>)
          else enqueue_op op_type d x s)"

text \<open>Draining the queues of a descriptor, each operation marked as aborted.\<close>

definition abort_all :: "nat list \<Rightarrow> ('q, 'k) io \<Rightarrow> ('q, 'k) io" where
  "abort_all xs s = fold (\<lambda>x. set_op_ec x operation_aborted) xs s"

definition all_queued :: "descriptor_state \<Rightarrow> nat list" where
  "all_queued st = ds_op_queue st read_op @ ds_op_queue st write_op @ ds_op_queue st except_op"

definition clear_queues :: "descriptor_state \<Rightarrow> descriptor_state" where
  "clear_queues st = st\<lparr>ds_op_queue := (\<lambda>i. if i < max_ops then [] else ds_op_queue st i)\<rparr>"

definition cancel_ops :: "('q, 'k) reactor_env \<Rightarrow> nat option \<Rightarrow> ('q, 'k) io \<Rightarrow> ('q, 'k) io" where
  "cancel_ops env descriptor_data s =
     (case descriptor_data of
        None \<Rightarrow> s
      | Some d \<Rightarrow>
          let ops = all_queued (ds (world s) d)
          in post_deferred_completions (reactor_interrupt env) (map ClientOp ops)
               (upd_ds d clear_queues (abort_all ops s)))"

definition cancel_ops_by_key :: "('q, 'k) reactor_env \<Rightarrow> nat option \<Rightarrow> nat \<Rightarrow> nat \<Rightarrow> ('q, 'k) io \<Rightarrow> ('q, 'k) io" where
  "cancel_ops_by_key env descriptor_data op_type key s =
     (case descriptor_data of
        None \<Rightarrow> s
      | Some d \<Rightarrow>
          let queue = ds_op_queue (ds (world s) d) op_type;
              ops = filter (\<lambda>x. cancellation_key (world s) x = key) queue;
              other_ops = filter (\<lambda>x. cancellation_key (world s) x \<noteq> key) queue
          in post_deferred_completions (reactor_interrupt env) (map ClientOp ops)
               (upd_ds d (\<lambda>st. st\<lparr>ds_op_queue := (ds_op_queue st)(op_type := other_ops)\<rparr>) (abort_all ops s)))"

text \<open>The new value of \<open>descriptor_data\<close> and the state.\<close>

definition deregister_descriptor ::
  "('q, 'k) reactor_env \<Rightarrow> int \<Rightarrow> nat option \<Rightarrow> bool \<Rightarrow> ('q, 'k) io \<Rightarrow> nat option \<times> ('q, 'k) io" where
  "deregister_descriptor env fd descriptor_data closing s =
     (case descriptor_data of
        None \<Rightarrow> (None, s)
      | Some d \<Rightarrow>
          if \<not> ds_shutdown (ds (world s) d) then
            let s = (if closing then s
                     else if registered_events (ds (world s) d) \<noteq> 0
                     then s\<lparr>world := snd (snd (call_epoll_ctl env EPOLL_CTL_DEL fd 0 NullPtr (world s)))\<rparr>
                     else s);
                ops = all_queued (ds (world s) d);
                s = upd_ds d (\<lambda>st. (clear_queues st)\<lparr>descriptor := -1, ds_shutdown := True\<rparr>) (abort_all ops s)
            in (Some d, post_deferred_completions (reactor_interrupt env) (map ClientOp ops) s)
          else (None, s))"

text \<open>The operations of an internal descriptor move to a local queue, whose destructor destroys them.\<close>

definition deregister_internal_descriptor ::
  "('q, 'k) reactor_env \<Rightarrow> int \<Rightarrow> nat option \<Rightarrow> ('q, 'k) io \<Rightarrow> nat list \<times> nat option \<times> ('q, 'k) io" where
  "deregister_internal_descriptor env fd descriptor_data s =
     (case descriptor_data of
        None \<Rightarrow> ([], None, s)
      | Some d \<Rightarrow>
          if \<not> ds_shutdown (ds (world s) d) then
            let s = s\<lparr>world := snd (snd (call_epoll_ctl env EPOLL_CTL_DEL fd 0 NullPtr (world s)))\<rparr>;
                ops = all_queued (ds (world s) d)
            in (ops, Some d, upd_ds d (\<lambda>st. (clear_queues st)\<lparr>descriptor := -1, ds_shutdown := True\<rparr>) s)
          else ([], None, s))"

definition cleanup_descriptor_data :: "nat option \<Rightarrow> ('q, 'k) io \<Rightarrow> nat option \<times> ('q, 'k) io" where
  "cleanup_descriptor_data descriptor_data s =
     (case descriptor_data of
        None \<Rightarrow> (None, s)
      | Some d \<Rightarrow> (None, s\<lparr>world := free_descriptor_state d (world s)\<rparr>))"

section \<open>Running\<close>

text \<open>One event of the loop over \<open>events\<close>: the operations collected, whether to check the timers, the states.\<close>

definition set_ready_events :: "u32 \<Rightarrow> descriptor_state \<Rightarrow> descriptor_state" where
  "set_ready_events evs st = st\<lparr>task_result := evs\<rparr>"

definition add_ready_events :: "u32 \<Rightarrow> descriptor_state \<Rightarrow> descriptor_state" where
  "add_ready_events evs st = st\<lparr>task_result := task_result st OR evs\<rparr>"

fun dispatch_events ::
  "(event_ptr \<times> u32) list \<Rightarrow> operation list \<Rightarrow> bool \<Rightarrow> ('q, 'k) reactor \<Rightarrow> operation list \<times> bool \<times> ('q, 'k) reactor" where
  "dispatch_events [] ops check_timers r = (ops, check_timers, r)"
| "dispatch_events ((ptr, evs) # events) ops check_timers r =
     (case ptr of
        InterrupterPtr \<Rightarrow> dispatch_events events ops (if timer_fd r = -1 then True else check_timers) r
      | TimerFdPtr \<Rightarrow> dispatch_events events ops True r
      | DescriptorPtr d \<Rightarrow>
          if DescriptorOp d \<notin> set ops
          then dispatch_events events (ops @ [DescriptorOp d]) check_timers
                 (r\<lparr>ds := (ds r)(d := set_ready_events evs (ds r d))\<rparr>)
          else dispatch_events events ops check_timers
                 (r\<lparr>ds := (ds r)(d := add_ready_events evs (ds r d))\<rparr>)
      | NullPtr \<Rightarrow> dispatch_events events ops check_timers r)"

definition run_timeout :: "('q, 'k) reactor_env \<Rightarrow> int \<Rightarrow> ('q, 'k) reactor \<Rightarrow> int" where
  "run_timeout env usec r =
     (if usec = 0 then 0
      else let timeout = (if usec < 0 then -1 else (usec - 1) sdiv 1000 + 1)
           in if timer_fd r = -1 then get_timeout_msec env timeout r else timeout)"

definition reactor_run :: "('q, 'k) reactor_env \<Rightarrow> int \<Rightarrow> ('q, 'k) reactor \<Rightarrow> (operation list \<times> ('q, 'k) reactor) option" where
  "reactor_run env usec r =
     (case sys_epoll_wait (the_os env) (epoll_fd r) (run_timeout env usec r) (kernel r) of
        None \<Rightarrow> None
      | Some (events, k) \<Rightarrow>
          let (ops, check_timers, r) = dispatch_events events [] (timer_fd r = -1) (r\<lparr>kernel := k\<rparr>)
          in if check_timers then
               let (timers, qs) = tqs_get_ready_timers env (timer_queues r);
                   r = r\<lparr>timer_queues := qs\<rparr>
               in Some (ops @ map ClientOp timers, if timer_fd r \<noteq> -1 then set_timerfd env r else r)
             else Some (ops, r))"

text \<open>The inner loop of \<open>perform_io\<close> on one queue: the completed operations, the rest, \<open>try_speculative\<close>.\<close>

fun perform_queue ::
  "('q, 'k) reactor_env \<Rightarrow> nat list \<Rightarrow> ('q, 'k) reactor \<Rightarrow> nat list \<times> nat list \<times> bool \<times> ('q, 'k) reactor" where
  "perform_queue env [] r = ([], [], True, r)"
| "perform_queue env (x # xs) r =
     (case perform_op env x r of
        (not_done, r) \<Rightarrow> ([], x # xs, True, r)
      | (done_and_exhausted, r) \<Rightarrow> ([x], xs, False, r)
      | (op_done, r) \<Rightarrow>
          let (ops, rest, spec, r) = perform_queue env xs r in (x # ops, rest, spec, r))"

definition perform_flag :: "nat \<Rightarrow> u32" where
  "perform_flag j = [EPOLLIN, EPOLLOUT, EPOLLPRI] ! j"

definition perform_slot ::
  "('q, 'k) reactor_env \<Rightarrow> nat \<Rightarrow> u32 \<Rightarrow> nat \<Rightarrow> ('q, 'k) reactor \<Rightarrow> nat list \<times> ('q, 'k) reactor" where
  "perform_slot env d evs j r =
     (if evs AND (perform_flag j OR EPOLLERR OR EPOLLHUP) \<noteq> 0 then
        let (ops, rest, spec, r) = perform_queue env (ds_op_queue (ds r d) j) r;
            st = ds r d;
            st = st\<lparr>ds_op_queue := (ds_op_queue st)(j := rest), try_speculative := (try_speculative st)(j := spec)\<rparr>
        in (ops, r\<lparr>ds := (ds r)(d := st)\<rparr>)
      else ([], r))"

text \<open>The destructor of \<open>perform_io_cleanup_on_block_exit\<close>.\<close>

definition perform_io_cleanup :: "('q, 'k) reactor_env \<Rightarrow> nat option \<Rightarrow> nat list \<Rightarrow> ('q, 'k) io \<Rightarrow> ('q, 'k) io" where
  "perform_io_cleanup env first_op ops s =
     (case first_op of
        Some _ \<Rightarrow> if ops \<noteq> [] then post_deferred_completions (reactor_interrupt env) (map ClientOp ops) s else s
      | None \<Rightarrow> compensating_work_started s)"

text \<open>\<open>perform_io\<close>: the operation to complete now, if any.\<close>

definition perform_io :: "('q, 'k) reactor_env \<Rightarrow> nat \<Rightarrow> u32 \<Rightarrow> ('q, 'k) io \<Rightarrow> nat option \<times> ('q, 'k) io" where
  "perform_io env d evs s =
     (let (ops2, r) = perform_slot env d evs except_op (world s);
          (ops1, r) = perform_slot env d evs write_op r;
          (ops0, r) = perform_slot env d evs read_op r;
          ops = ops2 @ ops1 @ ops0;
          first_op = (case ops of [] \<Rightarrow> None | x # _ \<Rightarrow> Some x)
      in (first_op, perform_io_cleanup env first_op (tl ops) (s\<lparr>world := r\<rparr>)))"

text \<open>The scheduler's environment made of this reactor: \<open>handler\<close> completes a client operation.\<close>

definition do_complete ::
  "('q, 'k) reactor_env \<Rightarrow> (nat \<Rightarrow> u32 \<Rightarrow> ('q, 'k) io \<Rightarrow> ('q, 'k) io option) \<Rightarrow> nat \<Rightarrow> u32 \<Rightarrow> ('q, 'k) io \<Rightarrow> ('q, 'k) io option" where
  "do_complete env handler d bytes_transferred s =
     (case perform_io env d bytes_transferred s of
        (None, s) \<Rightarrow> Some s
      | (Some x, s) \<Rightarrow> handler x 0 s)"

definition io_env ::
  "('q, 'k) reactor_env \<Rightarrow> (nat \<Rightarrow> u32 \<Rightarrow> ('q, 'k) io \<Rightarrow> ('q, 'k) io option) \<Rightarrow> (operation, ('q, 'k) reactor) sched_env" where
  "io_env env handler =
     \<lparr>env_task_run = reactor_run env, env_interrupt = reactor_interrupt env,
      env_result = (\<lambda>x r. case x of DescriptorOp d \<Rightarrow> task_result (ds r d) | ClientOp _ \<Rightarrow> 0),
      env_complete = (\<lambda>x res s. case x of DescriptorOp d \<Rightarrow> do_complete env handler d res s | ClientOp n \<Rightarrow> handler n res s)\<rparr>"

section \<open>Shutdown and fork\<close>

text \<open>\<open>shutdown\<close> frees every live descriptor state and yields the operations it abandons. The loop
  ends because every round frees one live object; \<open>fuel\<close> bounds the number of live objects.\<close>

fun shutdown_states :: "nat \<Rightarrow> nat list \<Rightarrow> ('q, 'k) reactor \<Rightarrow> nat list \<times> ('q, 'k) reactor" where
  "shutdown_states 0 ops r = (ops, r)"
| "shutdown_states (Suc fuel) ops r =
     (case pool_first (registered_descriptors r) of
        None \<Rightarrow> (ops, r)
      | Some d \<Rightarrow>
          let st = ds r d;
              r = r\<lparr>ds := (ds r)(d := (clear_queues st)\<lparr>ds_shutdown := True\<rparr>)\<rparr>
          in shutdown_states fuel (ops @ all_queued st) (free_descriptor_state d r))"

definition reactor_shutdown :: "('q, 'k) reactor_env \<Rightarrow> ('q, 'k) reactor \<Rightarrow> nat list \<times> ('q, 'k) reactor" where
  "reactor_shutdown env r =
     (let (ops, r) = shutdown_states (fresh (registered_descriptors r)) [] (r\<lparr>r_shutdown := True\<rparr>);
          (timers, qs) = tqs_get_all_timers env (timer_queues r)
      in (abandon_operations (ops @ timers), r\<lparr>timer_queues := qs\<rparr>))"

text \<open>Re-registration after a fork walks the live list (again \<open>fuel\<close> bounds its length); the first error is
  thrown.\<close>

fun reregister_states :: "('q, 'k) reactor_env \<Rightarrow> nat \<Rightarrow> ptr \<Rightarrow> ('q, 'k) reactor \<Rightarrow> int option \<times> ('q, 'k) reactor" where
  "reregister_states env 0 p r = (None, r)"
| "reregister_states env (Suc fuel) p r =
     (case p of
        None \<Rightarrow> (None, r)
      | Some d \<Rightarrow>
          if registered_events (ds r d) \<noteq> 0 then
            let (result, errno, r) = call_epoll_ctl env EPOLL_CTL_ADD (descriptor (ds r d)) (registered_events (ds r d)) (DescriptorPtr d) r
            in if result \<noteq> 0 then (Some errno, r)
               else reregister_states env fuel (next_of (registered_descriptors r) d) r
          else reregister_states env fuel (next_of (registered_descriptors r) d) r)"

datatype fork_event = fork_prepare | fork_parent | fork_child

definition reactor_notify_fork :: "('q, 'k) reactor_env \<Rightarrow> fork_event \<Rightarrow> ('q, 'k) reactor \<Rightarrow> int + ('q, 'k) reactor" where
  "reactor_notify_fork env fork_ev r =
     (if fork_ev = fork_child then
        let r = (if epoll_fd r \<noteq> -1 then r\<lparr>kernel := sys_close (the_os env) (epoll_fd r) (kernel r)\<rparr> else r)
        in case do_epoll_create (the_os env) (kernel r) of
           (Inl e, k) \<Rightarrow> Inl e
         | (Inr fd, k) \<Rightarrow>
             let r = r\<lparr>epoll_fd := fd, kernel := k\<rparr>;
                 r = (if timer_fd r \<noteq> -1 then r\<lparr>kernel := sys_close (the_os env) (timer_fd r) (kernel r)\<rparr> else r);
                 (tfd, k) = do_timerfd_create (the_os env) (kernel r);
                 r = r\<lparr>timer_fd := tfd, kernel := k\<rparr>
             in case intr_recreate (the_os env) (rinterrupter r) (kernel r) of
                  (Inl e, k) \<Rightarrow> Inl e
                | (Inr i, k) \<Rightarrow>
                    let r = update_timeout env (add_own_descriptors env (r\<lparr>rinterrupter := i, kernel := k\<rparr>))
                    in case reregister_states env (fresh (registered_descriptors r))
                              (pool_first (registered_descriptors r)) r of
                         (Some e, r) \<Rightarrow> Inl e
                       | (None, r) \<Rightarrow> Inr r
      else Inr r)"

section \<open>Frame laws\<close>

text \<open>Only operations of clients count as work; a descriptor operation does not.\<close>

fun is_client :: "operation \<Rightarrow> bool" where
  "is_client (ClientOp x) = True"
| "is_client (DescriptorOp d) = False"

lemma list_all_is_client [simp]: "list_all is_client (map ClientOp xs)"
  by (simp add: list_all_iff)

named_theorems io_frame

lemma ds_call_epoll_ctl [io_frame]: "ds (snd (snd (call_epoll_ctl env c fd evs p r))) = ds r"
  by (simp add: call_epoll_ctl_def Let_def split: prod.splits)

lemma ds_call_epoll_ctl_eq: "call_epoll_ctl env c fd evs p r = (result, errno, r') \<Longrightarrow> ds r' = ds r"
  by (metis ds_call_epoll_ctl snd_conv)

lemma ds_reactor_interrupt [io_frame]: "ds (reactor_interrupt env r) = ds r"
  by (simp add: reactor_interrupt_def io_frame)

lemma op_ec_reactor_interrupt [io_frame]: "op_ec (reactor_interrupt env r) = op_ec r"
  by (simp add: reactor_interrupt_def call_epoll_ctl_def Let_def split: prod.splits)

lemma ds_interrupt_task [io_frame]: "ds (world (interrupt_task (reactor_interrupt env) s)) = ds (world s)"
  by (simp add: interrupt_task_def io_frame)

lemma op_ec_interrupt_task [io_frame]: "op_ec (world (interrupt_task (reactor_interrupt env) s)) = op_ec (world s)"
  by (simp add: interrupt_task_def io_frame)

lemma ds_wake [io_frame]: "ds (world (wake_one_thread_and_unlock (reactor_interrupt env) s)) = ds (world s)"
  by (simp add: wake_one_thread_and_unlock_def io_frame Let_def split: prod.splits)

lemma op_ec_wake [io_frame]: "op_ec (world (wake_one_thread_and_unlock (reactor_interrupt env) s)) = op_ec (world s)"
  by (simp add: wake_one_thread_and_unlock_def io_frame Let_def split: prod.splits)

lemma ds_post_immediate [io_frame]:
  "ds (world (post_immediate_completion (reactor_interrupt env) x c s)) = ds (world s)"
  by (simp add: post_immediate_completion_def work_started_def io_frame Let_def)

lemma op_ec_post_immediate [io_frame]:
  "op_ec (world (post_immediate_completion (reactor_interrupt env) x c s)) = op_ec (world s)"
  by (simp add: post_immediate_completion_def work_started_def io_frame Let_def)

lemma ds_post_deferreds [io_frame]:
  "ds (world (post_deferred_completions (reactor_interrupt env) xs s)) = ds (world s)"
  by (simp add: post_deferred_completions_def io_frame)

lemma op_ec_post_deferreds [io_frame]:
  "op_ec (world (post_deferred_completions (reactor_interrupt env) xs s)) = op_ec (world s)"
  by (simp add: post_deferred_completions_def io_frame)

lemma held_world [io_frame]: "held_elsewhere is_client (s\<lparr>world := w\<rparr>) = held_elsewhere is_client s"
  by (simp add: held_elsewhere_def ops_queued_def)

lemma held_upd_ds [io_frame]: "held_elsewhere is_client (upd_ds d f s) = held_elsewhere is_client s"
  by (simp add: upd_ds_def io_frame)

lemma held_set_op_ec [io_frame]: "held_elsewhere is_client (set_op_ec x ec s) = held_elsewhere is_client s"
  by (simp add: set_op_ec_def io_frame)

lemma ds_upd_ds [io_frame]: "ds (world (upd_ds d f s)) = (ds (world s))(d := f (ds (world s) d))"
  by (simp add: upd_ds_def)

lemma ds_set_op_ec [io_frame]: "ds (world (set_op_ec x ec s)) = ds (world s)"
  by (simp add: set_op_ec_def)

lemma ds_perform_op: "perform_op env x r = (st, r') \<Longrightarrow> ds r' = ds r"
  by (auto simp: perform_op_def Let_def split: prod.splits)

lemma abort_all_world:
  "\<exists>f. abort_all xs s = s\<lparr>world := (world s)\<lparr>op_ec := f\<rparr>\<rparr> \<and> f = (\<lambda>x. if x \<in> set xs then operation_aborted else op_ec (world s) x)"
proof (induction xs arbitrary: s)
  case (Cons x xs)
  have "abort_all (x # xs) s = abort_all xs (set_op_ec x operation_aborted s)" by (simp add: abort_all_def)
  then show ?case using Cons [of "set_op_ec x operation_aborted s"] by (auto simp: set_op_ec_def fun_eq_iff)
qed (simp add: abort_all_def)

lemma abort_all_eq:
  "abort_all xs s = s\<lparr>world := (world s)\<lparr>op_ec := (\<lambda>x. if x \<in> set xs then operation_aborted else op_ec (world s) x)\<rparr>\<rparr>"
  using abort_all_world by blast

lemma ds_abort_all [io_frame]: "ds (world (abort_all xs s)) = ds (world s)"
  by (simp add: abort_all_eq)

lemma held_abort_all [io_frame]: "held_elsewhere is_client (abort_all xs s) = held_elsewhere is_client s"
  by (simp add: abort_all_eq io_frame)

section \<open>Shutdown\<close>

lemma live_bounded:
  assumes "pool_lists p live free"
  shows "length live \<le> fresh p"
proof -
  have "set live \<subseteq> {..<fresh p}" "distinct live" using assms by (auto simp: pool_lists_def)
  then show ?thesis using card_mono [of "{..<fresh p}" "set live"] by (simp add: distinct_card)
qed

text \<open>The fuel is enough: every live state is freed, and the operations abandoned are those that waited on the live
  states, in the order of the live list.\<close>

lemma shutdown_states_complete:
  assumes "pool_lists (registered_descriptors r) live free" "length live \<le> fuel"
  shows "\<exists>r' free'. shutdown_states fuel ops r = (ops @ concat (map (\<lambda>d. all_queued (ds r d)) live), r') \<and>
     pool_lists (registered_descriptors r') [] free'"
  using assms
proof (induction live arbitrary: r ops fuel free)
  case Nil
  then show ?case by (cases fuel) (auto simp: pool_lists_def pool_first_def)
next
  case (Cons d live)
  then obtain n where n: "fuel = Suc n" "length live \<le> n" by (cases fuel) auto
  let ?r = "free_descriptor_state d (r\<lparr>ds := (ds r)(d := (clear_queues (ds r d))\<lparr>ds_shutdown := True\<rparr>)\<rparr>)"
  have "d \<notin> set live" using Cons.prems(1) by (simp add: pool_lists_def)
  moreover have "pool_lists (registered_descriptors ?r) live (d # free)"
    using pool_free_lists [OF Cons.prems(1), of d] by (simp add: free_descriptor_state_def)
  ultimately have "\<exists>r' free'. shutdown_states n (ops @ all_queued (ds r d)) ?r =
      ((ops @ all_queued (ds r d)) @ concat (map (\<lambda>e. all_queued (ds ?r e)) live), r') \<and>
      pool_lists (registered_descriptors r') [] free'"
    using n by (intro Cons.IH)
  moreover have "map (\<lambda>e. all_queued (ds ?r e)) live = map (\<lambda>e. all_queued (ds r e)) live"
    using \<open>d \<notin> set live\<close> by (intro map_cong) (auto simp: free_descriptor_state_def)
  moreover have "pool_first (registered_descriptors r) = Some d"
    using Cons.prems(1) by (simp add: pool_lists_def pool_first_def)
  ultimately show ?case by (simp add: n Let_def)
qed

lemma reactor_shutdown_complete:
  assumes "pool_lists (registered_descriptors r) live free"
  shows "\<exists>timers r' free'. reactor_shutdown env r = (concat (map (\<lambda>d. all_queued (ds r d)) live) @ timers, r') \<and>
     pool_lists (registered_descriptors r') [] free'"
proof -
  have "pool_lists (registered_descriptors (r\<lparr>r_shutdown := True\<rparr>)) live free" using assms by simp
  from shutdown_states_complete [OF this, of "fresh (registered_descriptors r)" "[]"] live_bounded [OF assms]
  obtain r' free' where "shutdown_states (fresh (registered_descriptors r)) [] (r\<lparr>r_shutdown := True\<rparr>) =
      (concat (map (\<lambda>d. all_queued (ds r d)) live), r')" "pool_lists (registered_descriptors r') [] free'"
    by auto
  then show ?thesis by (auto simp: reactor_shutdown_def abandon_operations_def split: prod.splits)
qed

section \<open>Work accounting\<close>

text \<open>The operations waiting in the descriptor states \<open>D\<close>, and the outstanding work that neither
  they nor the queued completions account for. No operation of the reactor changes this balance.\<close>

definition ops_held :: "nat set \<Rightarrow> ('q, 'k) reactor \<Rightarrow> int" where
  "ops_held D r = (\<Sum>d\<in>D. int (length (all_queued (ds r d))))"

definition work_balance :: "nat set \<Rightarrow> ('q, 'k) io \<Rightarrow> int" where
  "work_balance D s = held_elsewhere is_client s - ops_held D (world s)"

lemma ops_held_cong: "ds r = ds r' \<Longrightarrow> ops_held D r = ops_held D r'"
  by (simp add: ops_held_def)

lemma ops_held_upd:
  assumes "finite D" "d \<in> D" "ds r' = (ds r)(d := st)"
  shows "ops_held D r' = ops_held D r - int (length (all_queued (ds r d))) + int (length (all_queued st))"
proof -
  have "(\<Sum>e\<in>D - {d}. int (length (all_queued (ds r' e)))) = (\<Sum>e\<in>D - {d}. int (length (all_queued (ds r e))))"
    using assms(3) by (intro sum.cong) auto
  then show ?thesis
    using assms(3) by (simp add: ops_held_def sum.remove [OF assms(1,2)])
qed

lemma all_queued_clear [simp]: "all_queued (clear_queues st) = []"
  by (simp add: all_queued_def clear_queues_def)

lemma all_queued_more [simp]:
  "all_queued (st\<lparr>registered_events := e\<rparr>) = all_queued st"
  "all_queued (st\<lparr>try_speculative := t\<rparr>) = all_queued st"
  "all_queued (st\<lparr>descriptor := f\<rparr>) = all_queued st"
  "all_queued (st\<lparr>ds_shutdown := b\<rparr>) = all_queued st"
  "all_queued (st\<lparr>task_result := u\<rparr>) = all_queued st"
  by (simp_all add: all_queued_def)

lemma length_all_queued_upd:
  assumes "i < max_ops"
  shows "int (length (all_queued (st\<lparr>ds_op_queue := (ds_op_queue st)(i := xs)\<rparr>))) =
    int (length (all_queued st)) - int (length (ds_op_queue st i)) + int (length xs)"
proof -
  have "i = 0 \<or> i = 1 \<or> i = 2" using assms by linarith
  then show ?thesis by (elim disjE) (simp_all add: all_queued_def)
qed

lemma balance_upd_ds:
  assumes "finite D" "d \<in> D"
  shows "work_balance D (upd_ds d f s) =
    work_balance D s + int (length (all_queued (ds (world s) d))) - int (length (all_queued (f (ds (world s) d))))"
  using ops_held_upd [OF assms ds_upd_ds [of d f s]] by (simp add: work_balance_def io_frame)

lemma balance_upd_ds_same [simp]:
  assumes "\<And>st. all_queued (f st) = all_queued st"
  shows "work_balance D (upd_ds d f s) = work_balance D s"
proof -
  have "length (all_queued (ds (world (upd_ds d f s)) e)) = length (all_queued (ds (world s) e))" for e
    using assms by (simp add: io_frame)
  then show ?thesis by (simp add: work_balance_def ops_held_def io_frame)
qed

lemma balance_cong: "held_elsewhere is_client s = held_elsewhere is_client s' \<Longrightarrow> ds (world s) = ds (world s') \<Longrightarrow> work_balance D s = work_balance D s'"
  by (simp add: work_balance_def ops_held_def)

lemma balance_set_op_ec [simp]: "work_balance D (set_op_ec x ec s) = work_balance D s"
  by (rule balance_cong) (simp_all add: io_frame)

lemma balance_abort_all [simp]: "work_balance D (abort_all xs s) = work_balance D s"
  by (rule balance_cong) (simp_all add: io_frame)

lemma balance_post_immediate [simp]:
  "work_balance D (post_immediate_completion (reactor_interrupt env) (ClientOp x) c s) = work_balance D s"
  by (rule balance_cong) (simp_all add: io_frame held_simps)

lemma balance_post_deferreds:
  "work_balance D (post_deferred_completions (reactor_interrupt env) (map ClientOp xs) s) =
     work_balance D s - int (length xs)"
  by (simp add: work_balance_def ops_held_def io_frame held_simps)

lemma balance_enqueue:
  assumes "finite D" "d \<in> D" "op_type < max_ops"
  shows "work_balance D (enqueue_op op_type d x s) = work_balance D s"
proof -
  have "work_balance D (work_started s) = work_balance D s + 1" for s :: "('a, 'b) io"
    by (simp add: work_balance_def held_simps) (simp add: work_started_def)
  then show ?thesis
    using assms by (simp add: enqueue_op_def balance_upd_ds length_all_queued_upd)
qed

lemma balance_immediate [simp]:
  "work_balance D (call_post_immediate_completion env x c s) = work_balance D s"
  by (simp add: call_post_immediate_completion_def reactor_post_immediate_completion_def)

lemma balance_world [simp]: "ds r = ds (world s) \<Longrightarrow> work_balance D (s\<lparr>world := r\<rparr>) = work_balance D s"
  by (rule balance_cong) (simp_all add: io_frame)

lemma ds_perform_op_snd [io_frame]: "ds (snd (perform_op env x r)) = ds r"
  by (simp add: perform_op_def Let_def split: prod.splits)

lemma start_op_balance:
  assumes "finite D" "op_type < max_ops" "\<And>d. dd = Some d \<Longrightarrow> d \<in> D"
  shows "work_balance D (start_op env op_type fd dd x c spec (call_post_immediate_completion env) s) = work_balance D s"
proof (cases dd)
  case None
  then show ?thesis by (simp add: start_op_def)
next
  case (Some d)
  then have d: "d \<in> D" using assms by simp
  show ?thesis
    by (simp add: start_op_def Some Let_def case_prod_beta if_distrib [of "work_balance D"] if_distrib [of snd]
        io_frame balance_enqueue [OF assms(1) d] assms(2) cong: if_cong)
qed

lemma cancel_ops_balance:
  assumes "finite D" "\<And>d. dd = Some d \<Longrightarrow> d \<in> D"
  shows "work_balance D (cancel_ops env dd s) = work_balance D s"
  using assms
  by (auto simp: cancel_ops_def balance_post_deferreds balance_upd_ds io_frame Let_def split: option.splits)

lemma cancel_ops_by_key_balance:
  assumes "finite D" "\<And>d. dd = Some d \<Longrightarrow> d \<in> D" "op_type < max_ops"
  shows "work_balance D (cancel_ops_by_key env dd op_type key s) = work_balance D s"
proof (cases dd)
  case (Some d)
  let ?q = "ds_op_queue (ds (world s) d) op_type"
  have "int (length ?q) = int (length (filter (\<lambda>x. cancellation_key (world s) x = key) ?q)) +
      int (length (filter (\<lambda>x. cancellation_key (world s) x \<noteq> key) ?q))"
    using sum_length_filter_compl [of "\<lambda>x. cancellation_key (world s) x = key" ?q] by simp
  then show ?thesis
    using assms Some
    by (simp add: cancel_ops_by_key_def balance_post_deferreds balance_upd_ds io_frame Let_def length_all_queued_upd)
qed (simp add: cancel_ops_by_key_def)

lemma deregister_descriptor_balance:
  assumes "finite D" "\<And>d. dd = Some d \<Longrightarrow> d \<in> D"
  shows "work_balance D (snd (deregister_descriptor env fd dd closing s)) = work_balance D s"
  using assms
  by (auto simp: deregister_descriptor_def balance_post_deferreds balance_upd_ds io_frame Let_def split: option.splits)

lemma perform_queue_parts:
  "perform_queue env xs r = (ops, rest, spec, r') \<Longrightarrow> xs = ops @ rest \<and> ds r' = ds r"
  by (induction env xs r arbitrary: ops rest spec r' rule: perform_queue.induct)
    (auto dest: ds_perform_op split: prod.splits perform_status.splits)

lemma perform_slot_parts:
  assumes "perform_slot env d evs j r = (ops, r')"
  shows "\<exists>rest. ds_op_queue (ds r d) j = ops @ rest \<and> ds_op_queue (ds r' d) = (ds_op_queue (ds r d))(j := rest) \<and>
     (\<forall>e. e \<noteq> d \<longrightarrow> ds r' e = ds r e)"
  using assms
  by (force simp: perform_slot_def Let_def dest: perform_queue_parts split: prod.splits if_splits)

text \<open>\<open>perform_io\<close> completes a prefix of each of the three queues and leaves the rest.\<close>

lemma perform_slots_parts:
  assumes "perform_slot env d evs except_op r = (ops2, r2)" "perform_slot env d evs write_op r2 = (ops1, r1)"
    "perform_slot env d evs read_op r1 = (ops0, r0)"
  shows "\<exists>q0 q1 q2. ds_op_queue (ds r d) read_op = ops0 @ q0 \<and> ds_op_queue (ds r d) write_op = ops1 @ q1 \<and>
     ds_op_queue (ds r d) except_op = ops2 @ q2 \<and>
     ds_op_queue (ds r0 d) = (ds_op_queue (ds r d))(read_op := q0, write_op := q1, except_op := q2) \<and>
     (\<forall>e. e \<noteq> d \<longrightarrow> ds r0 e = ds r e)"
proof -
  from perform_slot_parts [OF assms(1)] obtain q2 where
    q2: "ds_op_queue (ds r d) except_op = ops2 @ q2" "ds_op_queue (ds r2 d) = (ds_op_queue (ds r d))(except_op := q2)"
      "\<forall>e. e \<noteq> d \<longrightarrow> ds r2 e = ds r e" by blast
  from perform_slot_parts [OF assms(2)] obtain q1 where
    q1: "ds_op_queue (ds r2 d) write_op = ops1 @ q1" "ds_op_queue (ds r1 d) = (ds_op_queue (ds r2 d))(write_op := q1)"
      "\<forall>e. e \<noteq> d \<longrightarrow> ds r1 e = ds r2 e" by blast
  from perform_slot_parts [OF assms(3)] obtain q0 where
    q0: "ds_op_queue (ds r1 d) read_op = ops0 @ q0" "ds_op_queue (ds r0 d) = (ds_op_queue (ds r1 d))(read_op := q0)"
      "\<forall>e. e \<noteq> d \<longrightarrow> ds r0 e = ds r1 e" by blast
  show ?thesis
    by (intro exI [of _ q0] exI [of _ q1] exI [of _ q2]) (use q0 q1 q2 in \<open>auto simp: fun_eq_iff\<close>)
qed

lemma perform_io_eq:
  assumes "perform_slot env d evs except_op (world s) = (ops2, r2)"
    "perform_slot env d evs write_op r2 = (ops1, r1)" "perform_slot env d evs read_op r1 = (ops0, r0)"
  shows "perform_io env d evs s = (case ops2 @ ops1 @ ops0 of
      [] \<Rightarrow> (None, compensating_work_started (s\<lparr>world := r0\<rparr>))
    | first_op # rest \<Rightarrow> (Some first_op, if rest \<noteq> []
         then post_deferred_completions (reactor_interrupt env) (map ClientOp rest) (s\<lparr>world := r0\<rparr>)
         else s\<lparr>world := r0\<rparr>))"
  using assms
  by (cases "ops2 @ ops1 @ ops0") (simp_all add: perform_io_def perform_io_cleanup_def Let_def del: One_nat_def)

text \<open>Completing a descriptor operation costs the scheduler one unit of work per completed client operation:
  the first is retired by the caller's clean-up, the others are posted, and with none the clean-up is compensated.\<close>

lemma perform_io_balance:
  assumes "finite D" "d \<in> D" "perform_io env d evs s = (fo, s')"
  shows "work_balance D s' = work_balance D s + 1"
proof -
  obtain ops2 r2 where 2: "perform_slot env d evs except_op (world s) = (ops2, r2)" by fastforce
  obtain ops1 r1 where 1: "perform_slot env d evs write_op r2 = (ops1, r1)" by fastforce
  obtain ops0 r0 where 0: "perform_slot env d evs read_op r1 = (ops0, r0)" by fastforce
  from perform_slots_parts [OF 2 1 0] obtain q0 q1 q2 where q:
    "ds_op_queue (ds (world s) d) read_op = ops0 @ q0" "ds_op_queue (ds (world s) d) write_op = ops1 @ q1"
    "ds_op_queue (ds (world s) d) except_op = ops2 @ q2"
    "ds_op_queue (ds r0 d) = (ds_op_queue (ds (world s) d))(read_op := q0, write_op := q1, except_op := q2)"
    "\<forall>e. e \<noteq> d \<longrightarrow> ds r0 e = ds (world s) e" by blast
  have "ds r0 = (ds (world s))(d := ds r0 d)" using q(5) by auto
  from ops_held_upd [OF assms(1,2) this]
  have h: "ops_held D r0 = ops_held D (world s) - int (length (ops2 @ ops1 @ ops0))"
    by (simp add: all_queued_def q del: One_nat_def)
  let ?s = "s\<lparr>world := r0\<rparr>"
  define ops where "ops = ops2 @ ops1 @ ops0"
  have b: "work_balance D ?s = work_balance D s + int (length ops)"
    unfolding work_balance_def ops_def by (simp add: h io_frame)
  have c: "work_balance D (compensating_work_started ?s) = work_balance D ?s + 1"
    by (simp add: work_balance_def compensating_work_started_def held_elsewhere_def ops_queued_def)
  have "perform_io env d evs s = (case ops of
      [] \<Rightarrow> (None, compensating_work_started ?s)
    | first_op # rest \<Rightarrow> (Some first_op, if rest \<noteq> []
         then post_deferred_completions (reactor_interrupt env) (map ClientOp rest) ?s else ?s))"
    unfolding ops_def by (rule perform_io_eq [OF 2 1 0])
  then show ?thesis
    using assms(3) b c by (auto simp: balance_post_deferreds split: list.splits if_splits)
qed

section \<open>The scheduler and the reactor together\<close>

text \<open>\<open>tc\<close> counts the operations waiting in a timer queue. The balance is what outstanding work remains when the
  queued completions, the operations on descriptors and the timers are taken off.\<close>

definition timers_held :: "('q \<Rightarrow> nat) \<Rightarrow> ('q, 'k) reactor \<Rightarrow> int" where
  "timers_held tc r = int (\<Sum>p\<leftarrow>timer_queues r. tc (snd p))"

definition io_balance :: "nat set \<Rightarrow> ('q \<Rightarrow> nat) \<Rightarrow> ('q, 'k) io \<Rightarrow> int" where
  "io_balance D tc s = work_balance D s - timers_held tc (world s)"

fun op_within :: "nat set \<Rightarrow> operation sched_op \<Rightarrow> bool" where
  "op_within D (Op (DescriptorOp d)) \<longleftrightarrow> d \<in> D"
| "op_within D _ \<longleftrightarrow> True"

text \<open>\<open>ti\<close> is the invariant of a timer queue.\<close>

definition io_inv :: "nat set \<Rightarrow> ('q \<Rightarrow> bool) \<Rightarrow> ('q, 'k) io \<Rightarrow> bool" where
  "io_inv D ti s \<longleftrightarrow> private_work s \<ge> 0 \<and> list_all (op_within D) (op_q s @ private_q s) \<and>
     list_all (\<lambda>p. ti (snd p)) (timer_queues (world s))"

text \<open>The interface \<open>timer_queue_base\<close>: taking the ready timers loses none and keeps the invariant; a wait is not
  negative, and more than the bound it is given only as the one tick that stands for a wait below the clock's unit.\<close>

locale timer_queue_base =
  fixes env :: "('q, 'k) reactor_env" and ti :: "'q \<Rightarrow> bool" and tc :: "'q \<Rightarrow> nat"
  assumes ready_count: "ti q \<Longrightarrow> length (fst (tq_get_ready_timers env q)) + tc (snd (tq_get_ready_timers env q)) = tc q"
    and ready_keeps: "ti q \<Longrightarrow> ti (snd (tq_get_ready_timers env q))"
    and wait_msec: "d \<ge> 0 \<Longrightarrow> 0 \<le> tq_wait_duration_msec env d q \<and> tq_wait_duration_msec env d q \<le> max d 1"
    and wait_usec: "d \<ge> 0 \<Longrightarrow> 0 \<le> tq_wait_duration_usec env d q \<and> tq_wait_duration_usec env d q \<le> max d 1"
begin

lemma ready_all:
  "list_all (\<lambda>p. ti (snd p)) qs \<Longrightarrow>
   length (fst (tqs_get_ready_timers env qs)) + (\<Sum>p\<leftarrow>snd (tqs_get_ready_timers env qs). tc (snd p)) =
     (\<Sum>p\<leftarrow>qs. tc (snd p)) \<and> list_all (\<lambda>p. ti (snd p)) (snd (tqs_get_ready_timers env qs))"
proof (induction qs)
  case (Cons p qs)
  then show ?case using ready_count [of "snd p"] ready_keeps [of "snd p"] by (simp add: tqs_get_ready_timers_def)
qed (simp add: tqs_get_ready_timers_def)

lemma fold_wait_bounds:
  assumes "\<And>d q. d \<ge> 0 \<Longrightarrow> 0 \<le> w d q \<and> w d q \<le> max (d :: int) 1" "m \<ge> 0"
  shows "0 \<le> fold (\<lambda>p d. w d (snd p)) qs m \<and> fold (\<lambda>p d. w d (snd p)) qs m \<le> max m 1"
  using assms(2)
proof (induction qs arbitrary: m)
  case (Cons p qs)
  have "0 \<le> w m (snd p)" "w m (snd p) \<le> max m 1" using assms(1) [OF Cons.prems] by auto
  then show ?case using Cons.IH [of "w m (snd p)"] by auto
qed simp

lemma wait_all:
  assumes "d \<ge> 0"
  shows "0 \<le> tqs_wait_duration_msec env d qs" "tqs_wait_duration_msec env d qs \<le> max d 1"
    "0 \<le> tqs_wait_duration_usec env d qs" "tqs_wait_duration_usec env d qs \<le> max d 1"
  using fold_wait_bounds [of "tq_wait_duration_msec env" d qs, OF wait_msec assms]
    fold_wait_bounds [of "tq_wait_duration_usec env" d qs, OF wait_usec assms]
  by (simp_all add: tqs_wait_duration_msec_def tqs_wait_duration_usec_def)

end

text \<open>What the run loop relies on: epoll reports registered descriptors only, the timer queues keep their promise,
  and the handlers keep the books.\<close>

definition io_contract ::
  "('q, 'k) reactor_env \<Rightarrow> (nat \<Rightarrow> u32 \<Rightarrow> ('q, 'k) io \<Rightarrow> ('q, 'k) io option) \<Rightarrow> nat set \<Rightarrow> ('q \<Rightarrow> bool) \<Rightarrow> ('q \<Rightarrow> nat) \<Rightarrow> bool" where
  "io_contract env handler D ti tc \<longleftrightarrow>
     finite D \<and>
     (\<forall>efd tmo k evs k' d e. sys_epoll_wait (the_os env) efd tmo k = Some (evs, k') \<and> (DescriptorPtr d, e) \<in> set evs \<longrightarrow> d \<in> D) \<and>
     timer_queue_base env ti tc \<and>
     (\<forall>x res s s'. handler x res s = Some s' \<and> io_inv D ti s \<longrightarrow>
        io_inv D ti s' \<and> io_balance D tc s' = io_balance D tc s)"

lemma dispatch_events_parts:
  assumes "dispatch_events events ops ct r = (ops', ct', r')"
    and "\<And>d e. (DescriptorPtr d, e) \<in> set events \<Longrightarrow> d \<in> D" "list_all (op_within D) (map Op ops)"
  shows "filter is_client ops' = filter is_client ops \<and> list_all (op_within D) (map Op ops') \<and>
    (\<forall>d. all_queued (ds r' d) = all_queued (ds r d)) \<and> timer_queues r' = timer_queues r"
  using assms
proof (induction events ops ct r rule: dispatch_events.induct)
  case (2 ptr evs events ops ct r)
  show ?case
  proof (cases ptr)
    case (DescriptorPtr d)
    then have "d \<in> D" using "2.prems"(2) by auto
    moreover have "\<And>d e. (DescriptorPtr d, e) \<in> set events \<Longrightarrow> d \<in> D" using "2.prems"(2) by auto
    ultimately show ?thesis
      using "2.IH" "2.prems" DescriptorPtr
      by (cases "DescriptorOp d \<in> set ops") (auto simp: set_ready_events_def add_ready_events_def)
  qed (use 2 in auto)
qed simp

lemma set_timerfd_frame [io_frame]:
  "ds (set_timerfd env r) = ds r" "timer_queues (set_timerfd env r) = timer_queues r"
  by (simp_all add: set_timerfd_def split: prod.splits)

lemma reactor_run_parts:
  assumes "reactor_run env usec r = Some (ops, r')" and "io_contract env handler D ti tc"
    and "list_all (\<lambda>p. ti (snd p)) (timer_queues r)"
  shows "list_all (op_within D) (map Op ops)" (is ?within)
    and "ops_held D r' = ops_held D r" (is ?held)
    and "int (length (filter is_client ops)) = timers_held tc r - timers_held tc r'" (is ?timers)
    and "list_all (\<lambda>p. ti (snd p)) (timer_queues r')" (is ?keeps)
proof -
  obtain evs k where w: "sys_epoll_wait (the_os env) (epoll_fd r) (run_timeout env usec r) (kernel r) = Some (evs, k)"
    using assms(1) by (auto simp: reactor_run_def split: option.splits)
  obtain ops1 ct r1 where d: "dispatch_events evs [] (timer_fd r = -1) (r\<lparr>kernel := k\<rparr>) = (ops1, ct, r1)"
    by (metis prod_cases3)
  have evs: "\<And>d e. (DescriptorPtr d, e) \<in> set evs \<Longrightarrow> d \<in> D"
    using assms(2) w unfolding io_contract_def by blast
  have p: "filter is_client ops1 = []" "list_all (op_within D) (map Op ops1)"
    "\<forall>d. all_queued (ds r1 d) = all_queued (ds r d)" "timer_queues r1 = timer_queues r"
    using dispatch_events_parts [OF d, of D] evs by simp_all
  have h1: "ops_held D r1 = ops_held D r" by (simp add: ops_held_def p(3))
  have "?within \<and> ?held \<and> ?timers \<and> ?keeps"
  proof (cases ct)
    case True
    obtain timers qs where t: "tqs_get_ready_timers env (timer_queues r1) = (timers, qs)" by fastforce
    have eq: "ops = ops1 @ map ClientOp timers" "ds r' = ds r1" "timer_queues r' = qs"
      using assms(1) True by (auto simp: reactor_run_def w d t io_frame Let_def)
    have "timer_queue_base env ti tc" using assms(2) by (simp add: io_contract_def)
    then have "length timers + (\<Sum>p\<leftarrow>qs. tc (snd p)) = (\<Sum>p\<leftarrow>timer_queues r. tc (snd p)) \<and> list_all (\<lambda>p. ti (snd p)) qs"
      using timer_queue_base.ready_all [of env ti tc "timer_queues r1"] assms(3) t by (simp add: p(4))
    moreover have "filter is_client (map ClientOp timers) = map ClientOp timers" by (induction timers) auto
    ultimately show ?thesis
      using p h1 eq ops_held_cong [of r' r1 D] by (auto simp: timers_held_def list_all_iff)
  next
    case False
    then have "ops = ops1" "r' = r1" using assms(1) by (auto simp: reactor_run_def w d Let_def)
    then show ?thesis
      using p h1 assms(3) by (simp add: timers_held_def)
  qed
  then show ?within ?held ?timers ?keeps by simp_all
qed

lemma io_contract_finite: "io_contract env handler D ti tc \<Longrightarrow> finite D"
  by (simp add: io_contract_def)

text \<open>One run of the reactor, one completion, one \<open>do_run_one\<close>, and the whole loop keep the balance.\<close>

lemma run_task_balance:
  assumes "run_task (io_env env handler) usec s = Some s'" "io_contract env handler D ti tc" "io_inv D ti s"
  shows "io_inv D ti s' \<and> io_balance D tc s' = io_balance D tc s"
proof -
  obtain ops r where run: "reactor_run env usec (world s) = Some (ops, r)"
    and s': "s' = task_cleanup (s\<lparr>world := r, private_q := private_q s @ map Op ops\<rparr>)" (is "_ = task_cleanup ?s")
    using assms(1) by (auto simp: run_task_def io_env_def bind_eq_Some_conv)
  note parts = reactor_run_parts [OF run assms(2)]
  have ti: "list_all (\<lambda>p. ti (snd p)) (timer_queues (world s))" using assms(3) by (simp add: io_inv_def)
  have "held_elsewhere is_client ?s = held_elsewhere is_client s - int (length (filter is_client ops))"
    by (simp add: held_elsewhere_def ops_queued_def)
  then have "io_balance D tc ?s = io_balance D tc s"
    using parts(2,3) [OF ti] by (simp add: io_balance_def work_balance_def)
  moreover have "io_balance D tc s' = io_balance D tc ?s"
    using assms(3) by (simp add: s' io_balance_def work_balance_def held_simps io_inv_def)
      (simp add: task_cleanup_def Let_def)
  moreover have "io_inv D ti s'" using assms(3) parts(1,4) [OF ti] by (simp add: io_inv_def s' task_cleanup_def Let_def)
  ultimately show ?thesis by simp
qed

lemma io_env_simps [simp]:
  "env_interrupt (io_env env handler) = reactor_interrupt env"
  "env_complete (io_env env handler) (DescriptorOp d) res s = do_complete env handler d res s"
  "env_complete (io_env env handler) (ClientOp x) res s = handler x res s"
  by (simp_all add: io_env_def)

lemma timer_queues_interrupt [io_frame]: "timer_queues (reactor_interrupt env r) = timer_queues r"
  by (simp add: reactor_interrupt_def call_epoll_ctl_def Let_def split: prod.splits)

lemma timer_queues_wake [io_frame]:
  "timer_queues (world (wake_one_thread_and_unlock (reactor_interrupt env) s)) = timer_queues (world s)"
  by (simp add: wake_one_thread_and_unlock_def interrupt_task_def io_frame Let_def split: prod.splits)

lemma io_balance_wake [simp]:
  "io_balance D tc (wake_one_thread_and_unlock (reactor_interrupt env) s) = io_balance D tc s"
  by (simp add: io_balance_def work_balance_def ops_held_def timers_held_def held_elsewhere_def ops_queued_def io_frame)

lemma io_inv_wake [simp]: "io_inv D ti (wake_one_thread_and_unlock (reactor_interrupt env) s) = io_inv D ti s"
  by (simp add: io_inv_def io_frame)

lemma world_work_cleanup:
  "ds (world (work_cleanup (reactor_interrupt env) s)) = ds (world s)"
  "timer_queues (world (work_cleanup (reactor_interrupt env) s)) = timer_queues (world s)"
  by (simp_all add: work_cleanup_def work_finished_def sched_stop_def stop_all_threads_def interrupt_task_def
      io_frame Let_def)

lemma io_balance_work_cleanup:
  "io_inv D ti s \<Longrightarrow> io_balance D tc (work_cleanup (reactor_interrupt env) s) = io_balance D tc s - 1"
  by (simp add: io_balance_def work_balance_def ops_held_def timers_held_def world_work_cleanup held_simps io_inv_def)

lemma io_inv_work_cleanup: "io_inv D ti s \<Longrightarrow> io_inv D ti (work_cleanup (reactor_interrupt env) s)"
  by (simp add: io_inv_def world_work_cleanup)

lemma perform_op_timers: "perform_op env x r = (st, r') \<Longrightarrow> timer_queues r' = timer_queues r"
  by (auto simp: perform_op_def Let_def split: prod.splits)

lemma perform_queue_timers:
  "perform_queue env xs r = (ops, rest, spec, r') \<Longrightarrow> timer_queues r' = timer_queues r"
  by (induction env xs r arbitrary: ops rest spec r' rule: perform_queue.induct)
    (auto dest: perform_op_timers split: prod.splits perform_status.splits)

lemma perform_slot_timers: "perform_slot env d evs j r = (ops, r') \<Longrightarrow> timer_queues r' = timer_queues r"
  by (auto simp: perform_slot_def Let_def dest: perform_queue_timers split: prod.splits if_splits)

lemma timer_queues_post_deferreds [io_frame]:
  "timer_queues (world (post_deferred_completions (reactor_interrupt env) xs s)) = timer_queues (world s)"
  by (simp add: post_deferred_completions_def io_frame)

lemma perform_io_inv:
  assumes "perform_io env d evs s = (fo, s')" "io_inv D ti s"
  shows "io_inv D ti s' \<and> timer_queues (world s') = timer_queues (world s)"
proof -
  obtain ops2 r2 where 2: "perform_slot env d evs except_op (world s) = (ops2, r2)" by fastforce
  obtain ops1 r1 where 1: "perform_slot env d evs write_op r2 = (ops1, r1)" by fastforce
  obtain ops0 r0 where 0: "perform_slot env d evs read_op r1 = (ops0, r0)" by fastforce
  have "timer_queues r0 = timer_queues (world s)"
    using 0 1 2 by (metis perform_slot_timers)
  moreover have "list_all (op_within D) (map (Op \<circ> ClientOp) xs)" for xs by (simp add: list_all_iff)
  ultimately show ?thesis
    using assms(2) assms(1) [unfolded perform_io_eq [OF 2 1 0]]
    by (auto simp: io_inv_def compensating_work_started_def io_frame post_deferred_completions_def
        split: list.splits if_splits)
qed

lemma complete_op_balance:
  assumes "complete_op (io_env env handler) x (s\<lparr>op_q := rest\<rparr>) = Some s'" "op_q s = Op x # rest"
    and "io_contract env handler D ti tc" "io_inv D ti s"
  shows "io_inv D ti s' \<and> io_balance D tc s' = io_balance D tc s"
proof -
  let ?s0 = "s\<lparr>op_q := rest\<rparr>"
  define s1 where "s1 = (if rest \<noteq> [] \<and> \<not> one_thread s then wake_one_thread_and_unlock (reactor_interrupt env) ?s0 else ?s0)"
  define res where "res = env_result (io_env env handler) x (world s)"
  obtain s2 where s2: "env_complete (io_env env handler) x res s1 = Some s2"
    and s': "s' = work_cleanup (reactor_interrupt env) s2"
    using assms(1) by (auto simp: complete_op_def Let_def bind_eq_Some_conv s1_def res_def cong: if_cong)
  have inv1: "io_inv D ti s1" using assms(2,4) by (simp add: s1_def io_inv_def io_frame)
  have bal1: "io_balance D tc s1 = io_balance D tc s + (if is_client x then 1 else 0)"
    using assms(2) by (simp add: s1_def io_balance_def work_balance_def held_elsewhere_def ops_queued_def
        ops_held_def timers_held_def io_frame)
  have hd: "io_inv D ti s'' \<and> io_balance D tc s'' = io_balance D tc s'" if "handler y r s' = Some s''" "io_inv D ti s'" for y r s' s''
    using assms(3) that by (simp add: io_contract_def)
  have "io_inv D ti s2 \<and> io_balance D tc s2 = io_balance D tc s + 1"
  proof (cases x)
    case (ClientOp y)
    then show ?thesis using hd s2 inv1 bal1 by simp
  next
    case (DescriptorOp d)
    then have "d \<in> D" using assms(2,4) by (simp add: io_inv_def)
    obtain fo s3 where p: "perform_io env d res s1 = (fo, s3)" by fastforce
    have b: "work_balance D s3 = work_balance D s1 + 1"
      by (rule perform_io_balance [OF io_contract_finite [OF assms(3)] \<open>d \<in> D\<close> p])
    have i: "io_inv D ti s3" "timer_queues (world s3) = timer_queues (world s1)"
      using perform_io_inv [OF p inv1] by simp_all
    have "io_balance D tc s3 = io_balance D tc s + 1"
      using b bal1 i(2) DescriptorOp by (simp add: io_balance_def timers_held_def)
    then show ?thesis
      using s2 DescriptorOp p i(1) hd by (cases fo) (auto simp: do_complete_def)
  qed
  then show ?thesis
    by (simp add: s' io_balance_work_cleanup [of D ti] io_inv_work_cleanup)
qed

lemma io_keeps_event [simp]:
  "io_inv D ti (s\<lparr>wakeup_event := e\<rparr>) = io_inv D ti s" "io_balance D tc (s\<lparr>wakeup_event := e\<rparr>) = io_balance D tc s"
  "io_inv D ti (s\<lparr>task_interrupted := b\<rparr>) = io_inv D ti s" "io_balance D tc (s\<lparr>task_interrupted := b\<rparr>) = io_balance D tc s"
  by (simp_all add: io_inv_def io_balance_def work_balance_def held_elsewhere_def ops_queued_def)

lemma io_pop_task:
  assumes "op_q s = TaskOp # rest"
  shows "io_inv D ti (s\<lparr>op_q := rest\<rparr>) = io_inv D ti s" "io_balance D tc (s\<lparr>op_q := rest\<rparr>) = io_balance D tc s"
  using assms by (simp_all add: io_inv_def io_balance_def work_balance_def held_elsewhere_def ops_queued_def)

lemma do_run_one_balance:
  assumes "do_run_one (io_env env handler) s = Some (n, s')" "io_contract env handler D ti tc" "io_inv D ti s"
  shows "io_inv D ti s' \<and> io_balance D tc s' = io_balance D tc s"
proof (rule do_run_one_keeps [where P = "\<lambda>t. io_inv D ti t \<and> io_balance D tc t = io_balance D tc s", OF assms(1)])
  fix t usec t'
  assume "io_inv D ti t \<and> io_balance D tc t = io_balance D tc s" "run_task (io_env env handler) usec t = Some t'"
  then show "io_inv D ti t' \<and> io_balance D tc t' = io_balance D tc s"
    using run_task_balance [OF _ assms(2)] by metis
next
  fix t x rest t'
  assume "io_inv D ti t \<and> io_balance D tc t = io_balance D tc s" "op_q t = Op x # rest"
    "complete_op (io_env env handler) x (t\<lparr>op_q := rest\<rparr>) = Some t'"
  then show "io_inv D ti t' \<and> io_balance D tc t' = io_balance D tc s"
    using complete_op_balance [OF _ _ assms(2)] by metis
qed (use assms(3) in \<open>simp_all add: io_pop_task\<close>)

section \<open>Behaviour of the operations\<close>

lemma upd_ds_fields [simp]:
  "op_q (upd_ds d f s) = op_q s" "outstanding_work (upd_ds d f s) = outstanding_work s"
  "private_q (upd_ds d f s) = private_q s" "private_work (upd_ds d f s) = private_work s"
  by (simp_all add: upd_ds_def)

lemma set_op_ec_fields [simp]:
  "op_q (set_op_ec x ec s) = op_q s" "outstanding_work (set_op_ec x ec s) = outstanding_work s"
  "private_q (set_op_ec x ec s) = private_q s" "private_work (set_op_ec x ec s) = private_work s"
  by (simp_all add: set_op_ec_def)

text \<open>A state with the queues of another: nothing has been queued, completed or counted.\<close>

definition same_queues :: "('q, 'k) io \<Rightarrow> ('q, 'k) io \<Rightarrow> bool" where
  "same_queues s s' \<longleftrightarrow> (\<forall>e. ds_op_queue (ds (world s') e) = ds_op_queue (ds (world s) e)) \<and>
     op_q s' = op_q s \<and> private_q s' = private_q s \<and>
     outstanding_work s' = outstanding_work s \<and> private_work s' = private_work s"

lemma same_queues_refl [simp]: "same_queues s s"
  by (simp add: same_queues_def)

lemma same_queues_upd_ds [simp]:
  "(\<And>st. ds_op_queue (f st) = ds_op_queue st) \<Longrightarrow> same_queues s (upd_ds d f s') = same_queues s s'"
  by (auto simp: same_queues_def io_frame)

lemma same_queues_set_op_ec [simp]: "same_queues s (set_op_ec x ec s') = same_queues s s'"
  by (simp add: same_queues_def io_frame)

lemma same_queues_world [simp]: "ds r = ds (world s') \<Longrightarrow> same_queues s (s'\<lparr>world := r\<rparr>) = same_queues s s'"
  by (simp add: same_queues_def)

definition start_op_immediate :: "('q, 'k) on_immediate \<Rightarrow> nat \<Rightarrow> bool \<Rightarrow> ('q, 'k) io \<Rightarrow> ('q, 'k) io \<Rightarrow> bool" where
  "start_op_immediate on_immediate x c s s' \<longleftrightarrow> (\<exists>s1. same_queues s s1 \<and> s' = on_immediate x c s1)"

definition start_op_queued :: "nat \<Rightarrow> nat \<Rightarrow> nat \<Rightarrow> ('q, 'k) io \<Rightarrow> ('q, 'k) io \<Rightarrow> bool" where
  "start_op_queued op_type d x s s' \<longleftrightarrow> (\<exists>s1. same_queues s s1 \<and> s' = enqueue_op op_type d x s1)"

lemma immediateI: "same_queues s s1 \<Longrightarrow> start_op_immediate oi x c s (oi x c s1)"
  by (auto simp: start_op_immediate_def)

lemma queuedI: "same_queues s s1 \<Longrightarrow> start_op_queued op_type d x s (enqueue_op op_type d x s1)"
  by (auto simp: start_op_queued_def)

lemma enqueue_op_effect:
  "outstanding_work (enqueue_op op_type d x s) = outstanding_work s + 1 \<and>
   ds_op_queue (ds (world (enqueue_op op_type d x s)) d) op_type = ds_op_queue (ds (world s) d) op_type @ [x] \<and>
   op_q (enqueue_op op_type d x s) = op_q s"
  by (simp add: enqueue_op_def work_started_def upd_ds_def)

lemma start_op_cases:
  fixes oi :: "('q, 'k) on_immediate" and s :: "('q, 'k) io"
  assumes "\<not> ds_shutdown (ds (world s) d)"
  shows "start_op_immediate oi x c s (start_op env op_type fd (Some d) x c spec oi s) \<or>
    start_op_queued op_type d x s (start_op env op_type fd (Some d) x c spec oi s)"
proof -
  define R where "R s' \<longleftrightarrow> start_op_immediate oi x c s s' \<or> start_op_queued op_type d x s s'" for s'
  have i: "R (oi x c s1)" if "same_queues s s1" for s1
    using immediateI [OF that] by (simp add: R_def)
  have q: "R (enqueue_op ot d x s1)" if "same_queues s s1" "ot = op_type" for s1 ot
    using queuedI [OF that(1)] that(2) by (simp add: R_def)
  have "R (start_op env op_type fd (Some d) x c spec oi s)"
    using assms
    by (simp add: start_op_def Let_def case_prod_beta if_distrib [of R] if_distrib [of snd] io_frame i q cong: if_cong)
  then show ?thesis by (simp add: R_def)
qed

lemma cancel_ops_effect:
  assumes "s' = cancel_ops env (Some d) s"
  shows "all_queued (ds (world s') d) = []" "e \<noteq> d \<Longrightarrow> ds (world s') e = ds (world s) e"
    "op_ec (world s') x = (if x \<in> set (all_queued (ds (world s) d)) then operation_aborted else op_ec (world s) x)"
    "op_q s' @ private_q s' = op_q s @ map (Op \<circ> ClientOp) (all_queued (ds (world s) d)) @ private_q s \<or>
     op_q s' @ private_q s' = op_q s @ private_q s @ map (Op \<circ> ClientOp) (all_queued (ds (world s) d))"
  unfolding assms cancel_ops_def
  by (simp_all add: Let_def io_frame upd_ds_def)
    (simp_all add: post_deferred_completions_def abort_all_eq)

lemma sdiv_pos: "a \<ge> 0 \<Longrightarrow> (b :: int) > 0 \<Longrightarrow> a sdiv b = a div b"
  by (cases "a = 0") (simp_all add: signed_divide_int_def)

lemma smod_pos: "a \<ge> 0 \<Longrightarrow> (b :: int) > 0 \<Longrightarrow> a smod b = a mod b"
  by (cases "a = 0") (simp_all add: signed_modulo_int_def signed_divide_int_def minus_div_mult_eq_mod)

section \<open>Properties\<close>

text \<open>C20. A whole \<open>io_context::run\<close> keeps the books. If the outstanding work equals the queued client
  completions plus the operations waiting on descriptors and timers before the run, it does so after it, so
  a run that ends because the work count reached zero leaves no operation anywhere.\<close>

theorem io_run_accounts:
  assumes "sched_run (io_env env handler) s = Some (n, s')" "io_contract env handler D ti tc"
    and "io_inv D ti s" "private_work s = 0" "private_q s = []" "io_balance D tc s = 0" "outstanding_work s \<noteq> 0"
  shows "outstanding_work s' = int (length (filter (counts is_client) (op_q s'))) + ops_held D (world s') + timers_held tc (world s')"
proof -
  let ?Q = "\<lambda>s. io_inv D ti s \<and> io_balance D tc s = 0 \<and> private_work s = 0 \<and> private_q s = []"
  obtain s1 where loop: "run_loop (do_run_one (io_env env handler)) 0 (enter_scheduler s) = Some (n, s1)"
    and s': "s' = leave_scheduler s s1"
    using assms(1,7) by (auto simp: sched_run_def)
  have "?Q (enter_scheduler s)"
    using assms(3-6) by (simp add: enter_scheduler_def io_inv_def io_balance_def work_balance_def held_elsewhere_def ops_queued_def)
  then have "?Q s1"
  proof (rule run_loop_keeps [OF loop])
    fix s k s'
    assume "do_run_one (io_env env handler) s = Some (k, s')" "?Q s"
    then show "?Q s'" using do_run_one_balance [OF _ assms(2)] do_run_one_private by metis
  qed
  then show ?thesis
    by (auto simp: s' leave_scheduler_def io_balance_def work_balance_def held_elsewhere_def ops_queued_def)
qed

text \<open>Starting an operation, on every branch: without a descriptor it completes at once with
  \<open>bad_descriptor\<close>; on a descriptor being shut down it completes at once; otherwise it either completes at once,
  with no queue changed, or is appended to its queue and counted as work; and behind a waiting operation it is always
  queued, never tried first.\<close>

theorem start_op_outcome:
  "start_op env op_type fd None x c spec oi s = oi x c (set_op_ec x bad_descriptor s) \<and>
   (ds_shutdown (ds (world s) d) \<longrightarrow> start_op env op_type fd (Some d) x c spec oi s = oi x c s) \<and>
   (\<not> ds_shutdown (ds (world s) d) \<longrightarrow>
      start_op_immediate oi x c s (start_op env op_type fd (Some d) x c spec oi s) \<or>
      start_op_queued op_type d x s (start_op env op_type fd (Some d) x c spec oi s)) \<and>
   (\<not> ds_shutdown (ds (world s) d) \<and> ds_op_queue (ds (world s) d) op_type \<noteq> [] \<longrightarrow>
      start_op env op_type fd (Some d) x c spec oi s = enqueue_op op_type d x s)"
  using start_op_cases [of s d oi x c env op_type fd spec] by (simp add: start_op_def)

text \<open>\<open>cancel_ops\<close> takes every operation waiting on the descriptor, in queue order, marks
  exactly those as aborted, posts each of them once for completion and touches no other descriptor.\<close>

theorem cancel_ops_aborts:
  "let s' = cancel_ops env (Some d) s; ops = all_queued (ds (world s) d)
   in all_queued (ds (world s') d) = [] \<and> (\<forall>e. e \<noteq> d \<longrightarrow> ds (world s') e = ds (world s) e) \<and>
      (\<forall>x. op_ec (world s') x = (if x \<in> set ops then operation_aborted else op_ec (world s) x)) \<and>
      mset (op_q s' @ private_q s') = mset (op_q s @ private_q s) + mset (map (Op \<circ> ClientOp) ops) \<and>
      work_balance {d} s' = work_balance {d} s"
proof -
  define s' where "s' = cancel_ops env (Some d) s"
  note eff = cancel_ops_effect [OF s'_def]
  have "mset (op_q s' @ private_q s') = mset (op_q s @ private_q s) + mset (map (Op \<circ> ClientOp) (all_queued (ds (world s) d)))"
    using eff(4) by (elim disjE) (simp_all add: ac_simps)
  moreover have "work_balance {d} s' = work_balance {d} s"
    unfolding s'_def by (rule cancel_ops_balance) auto
  ultimately show ?thesis
    unfolding Let_def s'_def [symmetric] using eff(1-3) by (auto simp del: mset_append mset_map)
qed

text \<open>\<open>perform_io\<close> completes a prefix of each queue that is flagged ready, exception operations
  before writes before reads, returns the first of them for immediate completion, posts the others in that order,
  and leaves the rest of each queue in place.\<close>

theorem perform_io_order:
  "\<exists>ops0 q0 ops1 q1 ops2 q2 r0.
     ds_op_queue (ds (world s) d) read_op = ops0 @ q0 \<and> ds_op_queue (ds (world s) d) write_op = ops1 @ q1 \<and>
     ds_op_queue (ds (world s) d) except_op = ops2 @ q2 \<and>
     ds_op_queue (ds r0 d) = (ds_op_queue (ds (world s) d))(read_op := q0, write_op := q1, except_op := q2) \<and>
     perform_io env d evs s = (case ops2 @ ops1 @ ops0 of
         [] \<Rightarrow> (None, compensating_work_started (s\<lparr>world := r0\<rparr>))
       | first_op # rest \<Rightarrow> (Some first_op, if rest \<noteq> []
            then post_deferred_completions (reactor_interrupt env) (map ClientOp rest) (s\<lparr>world := r0\<rparr>)
            else s\<lparr>world := r0\<rparr>))"
proof -
  obtain ops2 r2 where 2: "perform_slot env d evs except_op (world s) = (ops2, r2)" by fastforce
  obtain ops1 r1 where 1: "perform_slot env d evs write_op r2 = (ops1, r1)" by fastforce
  obtain ops0 r0 where 0: "perform_slot env d evs read_op r1 = (ops0, r0)" by fastforce
  from perform_slots_parts [OF 2 1 0] perform_io_eq [OF 2 1 0] show ?thesis by blast
qed

text \<open>Timeouts. With a timer descriptor the timeout of a positive wait is the wait rounded up
  to whole milliseconds; without one it never exceeds five minutes; and the value set on the timer descriptor
  is a normalised time of at most five minutes that is never zero, so that it never disarms the timer.\<close>

theorem reactor_timeouts:
  assumes "timer_queue_base env ti tc" and "get_timeout_itimerspec env r = (abstime, sec, nsec)"
  shows "(timer_fd r \<noteq> -1 \<and> usec > 0 \<longrightarrow>
            run_timeout env usec r \<ge> 1 \<and> (run_timeout env usec r - 1) * 1000 < usec \<and> usec \<le> run_timeout env usec r * 1000) \<and>
         (timer_fd r = -1 \<longrightarrow> 0 \<le> run_timeout env usec r \<and> run_timeout env usec r \<le> 300000) \<and>
         (timer_fd r \<noteq> -1 \<and> usec < 0 \<longrightarrow> run_timeout env usec r = -1) \<and>
         0 \<le> sec \<and> sec \<le> 300 \<and> 0 \<le> nsec \<and> nsec < 1000000000 \<and> (sec \<noteq> 0 \<or> nsec \<noteq> 0)"
proof -
  define u where "u = tqs_wait_duration_usec env 300000000 (timer_queues r)"
  have u: "0 \<le> u" "u \<le> 300000000"
    using timer_queue_base.wait_all(3,4) [OF assms(1), of 300000000 "timer_queues r"] by (simp_all add: u_def)
  have "sec = u div 1000000" "nsec = (if u \<noteq> 0 then (u mod 1000000) * 1000 else 1)"
    using assms(2) u by (auto simp: get_timeout_itimerspec_def Let_def u_def [symmetric] sdiv_pos smod_pos)
  then have s: "0 \<le> sec" "sec \<le> 300" "0 \<le> nsec" "nsec < 1000000000" "sec \<noteq> 0 \<or> nsec \<noteq> 0"
    using u by auto
  have m: "0 \<le> get_timeout_msec env t r \<and> get_timeout_msec env t r \<le> 300000" for t
    using timer_queue_base.wait_all(1,2) [OF assms(1), of "if t < 0 \<or> 300000 < t then 300000 else t" "timer_queues r"]
    by (auto simp: get_timeout_msec_def)
  have c: "(usec - 1) div 1000 * 1000 \<le> usec - 1" "usec - 1 < ((usec - 1) div 1000 + 1) * 1000" by simp_all
  show ?thesis
    using s m c by (auto simp: run_timeout_def sdiv_pos)
qed

section \<open>Concrete instances\<close>

text \<open>A reactor on the quiet system whose operations are done at their first try; one descriptor with two waiting
  operations, of which the second waits for an exception.\<close>

definition demo_env :: "(unit, (event_ptr \<times> u32) list) reactor_env" where
  "demo_env = \<lparr>the_os = quiet_os, tq_empty = (\<lambda>q. True), tq_wait_duration_msec = (\<lambda>d q. d),
     tq_wait_duration_usec = (\<lambda>d q. d), tq_get_ready_timers = (\<lambda>q. ([], q)), tq_get_all_timers = (\<lambda>q. ([], q)),
     op_perform = (\<lambda>x ec k. (op_done, 0, k))\<rparr>"

interpretation demo_timers: timer_queue_base demo_env "\<lambda>q. True" "\<lambda>q. 0"
  by unfold_locales (simp_all add: demo_env_def)

definition demo_state :: descriptor_state where
  "demo_state = \<lparr>descriptor = 8, registered_events = registration_events,
     ds_op_queue = (\<lambda>_. [])(read_op := [7], except_op := [9]), try_speculative = (\<lambda>_. True),
     ds_shutdown = False, task_result = 0\<rparr>"

definition demo_reactor :: "(unit, (event_ptr \<times> u32) list) reactor" where
  "demo_reactor = \<lparr>registered_descriptors = object_pool_new 0, ds = (\<lambda>_. demo_state), op_ec = (\<lambda>_. 0),
     cancellation_key = (\<lambda>_. 0), timer_queues = [], epoll_fd = 3, timer_fd = 4,
     rinterrupter = \<lparr>read_descriptor = 5, write_descriptor = 5\<rparr>, r_shutdown = False, kernel = []\<rparr>"

definition demo_io :: "(unit, (event_ptr \<times> u32) list) io" where
  "demo_io = (scheduler_new 1 (-1) (-1) demo_reactor)\<lparr>op_q := [Op (ClientOp 1)], outstanding_work := 1\<rparr>"

theorem start_op_outcome_witness:
  "start_op demo_env read_op 8 (Some 0) 11 False True (call_post_immediate_completion demo_env) demo_io =
     enqueue_op read_op 0 11 demo_io"
  using start_op_outcome [of demo_env read_op 8 11 False True "call_post_immediate_completion demo_env" demo_io 0]
  by (simp add: demo_io_def scheduler_new_def demo_reactor_def demo_state_def)

theorem cancel_ops_aborts_witness:
  "let s' = cancel_ops demo_env (Some 0) demo_io
   in all_queued (ds (world s') 0) = [] \<and> ds (world s') 1 = demo_state \<and>
      op_ec (world s') 7 = operation_aborted \<and> op_ec (world s') 8 = 0"
  using cancel_ops_aborts [of demo_env 0 demo_io]
  by (simp add: Let_def demo_io_def scheduler_new_def demo_reactor_def demo_state_def all_queued_def)

theorem reactor_timeouts_witness:
  "(1 :: int) \<le> run_timeout demo_env 1500 demo_reactor \<and> (run_timeout demo_env 1500 demo_reactor - 1) * 1000 < 1500 \<and>
   1500 \<le> run_timeout demo_env 1500 demo_reactor * 1000"
proof -
  have g: "get_timeout_itimerspec demo_env demo_reactor = (False, 300, 0)"
    by (simp add: get_timeout_itimerspec_def tqs_wait_duration_usec_def demo_reactor_def sdiv_pos smod_pos)
  show ?thesis
    using reactor_timeouts [OF demo_timers.timer_queue_base_axioms g, of 1500] by (simp add: demo_reactor_def)
qed

text \<open>A run to the end: one queued completion and the two operations on the descriptor, which epoll reports as
  readable and exceptional.\<close>

definition busy_env :: "(unit, (event_ptr \<times> u32) list) reactor_env" where
  "busy_env = demo_env\<lparr>the_os := quiet_os\<lparr>sys_epoll_wait :=
     (\<lambda>e t k. Some ([(DescriptorPtr 0, EPOLLIN), (DescriptorPtr 0, EPOLLPRI)], k))\<rparr>\<rparr>"

definition busy_io :: "(unit, (event_ptr \<times> u32) list) io" where
  "busy_io = (scheduler_new 1 (-1) (-1) demo_reactor)\<lparr>op_q := [Op (ClientOp 1), TaskOp], outstanding_work := 3\<rparr>"

lemma busy_contract: "io_contract busy_env (\<lambda>x res s. Some s) {0} (\<lambda>q. True) (\<lambda>q. 0)"
  by (auto simp: io_contract_def busy_env_def demo_env_def timer_queue_base_def)

lemma busy_sys [simp]:
  "sys_epoll_wait (the_os busy_env) e t k = Some ([(DescriptorPtr 0, EPOLLIN), (DescriptorPtr 0, EPOLLPRI)], k)"
  "op_perform busy_env x ec k = (op_done, 0, k)" "reactor_interrupt busy_env r = r"
  by (simp_all add: busy_env_def demo_env_def quiet_os_def reactor_interrupt_def call_epoll_ctl_def)

lemma io_env_more:
  "env_task_run (io_env env handler) = reactor_run env"
  "env_result (io_env env handler) (DescriptorOp d) r = task_result (ds r d)"
  by (simp_all add: io_env_def)

lemmas busy_simps = io_env_more complete_op_def work_cleanup_def work_finished_def sched_stop_def stop_all_threads_def
  interrupt_task_def run_task_def task_cleanup_def reactor_run_def set_ready_events_def add_ready_events_def
  do_complete_def perform_io_def perform_io_cleanup_def perform_slot_def perform_op_def perform_flag_def post_deferred_completions_def
  count_up_def Let_def demo_reactor_def demo_state_def

lemma busy_run: "\<exists>s'. sched_run (io_env busy_env (\<lambda>x res s. Some s)) busy_io = Some (3, s') \<and> outstanding_work s' = 0"
  apply (simp add: sched_run_def busy_io_def scheduler_new_def enter_scheduler_def)
  apply (subst run_loop.simps, subst do_run_one.simps, simp add: busy_simps)
  apply (subst run_loop.simps, subst do_run_one.simps, simp add: busy_simps)
  apply (subst do_run_one.simps, simp add: busy_simps)
  apply (subst run_loop.simps, subst do_run_one.simps, simp add: busy_simps)
  apply (subst do_run_one.simps, simp add: busy_simps)
  apply (subst run_loop.simps, subst do_run_one.simps, simp add: busy_simps leave_scheduler_def)
  done

theorem io_run_accounts_witness:
  "\<exists>s'. sched_run (io_env busy_env (\<lambda>x res s. Some s)) busy_io = Some (3, s') \<and> outstanding_work s' = 0 \<and>
     int (length (filter (counts is_client) (op_q s'))) + ops_held {0} (world s') + timers_held (\<lambda>q. 0) (world s') = 0"
proof -
  obtain s' where s': "sched_run (io_env busy_env (\<lambda>x res s. Some s)) busy_io = Some (3, s')" "outstanding_work s' = 0"
    using busy_run by blast
  have "io_inv {0} (\<lambda>q. True) busy_io" "private_work busy_io = 0" "private_q busy_io = []"
    "io_balance {0} (\<lambda>q. 0) busy_io = 0" "outstanding_work busy_io \<noteq> 0"
    by (simp_all add: busy_io_def scheduler_new_def io_inv_def io_balance_def work_balance_def held_elsewhere_def
        ops_queued_def ops_held_def timers_held_def all_queued_def demo_reactor_def demo_state_def)
  from io_run_accounts [OF s'(1) busy_contract this] s' show ?thesis by auto
qed

end
