(* ===== verification/AsioSignals.thy ===== *)
theory AsioSignals
  imports AsioReactor
begin

text \<open>
  The signal service of the vendored Asio (\<^verbatim>\<open>include/asio/detail/impl/signal_set_service.ipp\<close>, POSIX with
  \<open>sigaction\<close>), through which the program learns of SIGINT and SIGTERM. One record holds the process-wide
  \<open>signal_state\<close>, the registrations (addresses with their fields), the signal sets, and for every service its
  registration table, scheduler and reactor. The linked lists of a set and of a table slot are lists of
  registrations. The service's own system calls act on the kernel state \<open>sig_kernel\<close>. Locks are dropped.
\<close>

section \<open>State\<close>

text \<open>\<open>NSIG\<close> on Linux; \<open>signal_set_base::flags\<close>.\<close>

abbreviation max_signal_number :: int where "max_signal_number \<equiv> 65"
abbreviation flags_dont_care :: int where "flags_dont_care \<equiv> -1"
abbreviation flags_none :: int where "flags_none \<equiv> 0"
abbreviation invalid_argument :: int where "invalid_argument \<equiv> EINVAL"

record registration =
  reg_signal_number :: int
  reg_queue :: nat                      \<comment> \<open>the set whose \<open>queue_\<close> it points to\<close>
  undelivered :: nat

record sig_implementation =
  signals :: "nat list"
  sig_queue :: "nat list"

record ('q, 'k) signal_world =
  sig_read_fd :: int
  sig_write_fd :: int
  fork_prepared :: bool
  service_list :: "nat list"
  registration_count :: "int \<Rightarrow> nat"
  sig_flags :: "int \<Rightarrow> int"
  regs :: "nat \<Rightarrow> registration"
  next_reg :: nat
  impls :: "nat \<Rightarrow> sig_implementation"
  registrations :: "nat \<Rightarrow> int \<Rightarrow> nat list"
  ios :: "nat \<Rightarrow> ('q, 'k) io"
  reactor_data :: "nat \<Rightarrow> nat option"
  sop_signal_number :: "nat \<Rightarrow> int"
  sop_ec :: "nat \<Rightarrow> int"
  sop_key :: "nat \<Rightarrow> nat"
  sig_kernel :: 'k

definition upd_impl :: "nat \<Rightarrow> (sig_implementation \<Rightarrow> sig_implementation) \<Rightarrow> ('q, 'k) signal_world \<Rightarrow> ('q, 'k) signal_world" where
  "upd_impl i f w = w\<lparr>impls := (impls w)(i := f (impls w i))\<rparr>"

definition post_signal_ops :: "('q, 'k) reactor_env \<Rightarrow> nat \<Rightarrow> nat list \<Rightarrow> ('q, 'k) signal_world \<Rightarrow> ('q, 'k) signal_world" where
  "post_signal_ops env sv ops w =
     w\<lparr>ios := (ios w)(sv := post_deferred_completions (reactor_interrupt env) (map ClientOp ops) (ios w sv))\<rparr>"

text \<open>The initial \<open>get_signal_state\<close>, with the memory of sets and operations given.\<close>

definition signal_world_new ::
  "(nat \<Rightarrow> registration) \<Rightarrow> (nat \<Rightarrow> sig_implementation) \<Rightarrow> (nat \<Rightarrow> ('q, 'k) io) \<Rightarrow> (nat \<Rightarrow> nat) \<Rightarrow> 'k \<Rightarrow> ('q, 'k) signal_world" where
  "signal_world_new rs ims io keys k =
     \<lparr>sig_read_fd = -1, sig_write_fd = -1, fork_prepared = False, service_list = [],
      registration_count = (\<lambda>_. 0), sig_flags = (\<lambda>_. flags_none), regs = rs, next_reg = 0, impls = ims,
      registrations = (\<lambda>_ _. []), ios = io, reactor_data = (\<lambda>_. None),
      sop_signal_number = (\<lambda>_. 0), sop_ec = (\<lambda>_. 0), sop_key = keys, sig_kernel = k\<rparr>"

section \<open>Registering signals\<close>

definition call_sigaction ::
  "('q, 'k) reactor_env \<Rightarrow> int \<Rightarrow> bool \<Rightarrow> int \<Rightarrow> ('q, 'k) signal_world \<Rightarrow> int \<times> int \<times> ('q, 'k) signal_world" where
  "call_sigaction env n handler f w =
     (let (result, errno, k) = sys_sigaction (the_os env) n handler f (sig_kernel w)
      in (result, errno, w\<lparr>sig_kernel := k\<rparr>))"

text \<open>The part of \<open>add\<close> that installs the handler: the error code, 0 for none.\<close>

definition install_handler ::
  "('q, 'k) reactor_env \<Rightarrow> int \<Rightarrow> int \<Rightarrow> ('q, 'k) signal_world \<Rightarrow> int \<times> ('q, 'k) signal_world" where
  "install_handler env n f w =
     (if registration_count w n = 0 then
        let (result, errno, w) = call_sigaction env n True (if f \<noteq> flags_dont_care then f else 0) w
        in if result = -1 then (errno, w) else (0, w\<lparr>sig_flags := (sig_flags w)(n := f)\<rparr>)
      else if f \<noteq> flags_dont_care then
        if f \<noteq> sig_flags w n then
          if sig_flags w n \<noteq> flags_dont_care then (invalid_argument, w)
          else
            let (result, errno, w) = call_sigaction env n True f w
            in if result = -1 then (errno, w) else (0, w\<lparr>sig_flags := (sig_flags w)(n := f)\<rparr>)
        else (0, w)
      else (0, w))"

text \<open>The registration is put into the set before the first one that is not smaller, and at the head of the table slot.\<close>

definition record_registration :: "nat \<Rightarrow> nat \<Rightarrow> int \<Rightarrow> ('q, 'k) signal_world \<Rightarrow> ('q, 'k) signal_world" where
  "record_registration sv i n w =
     (let r = next_reg w;
          smaller = (\<lambda>x. reg_signal_number (regs w x) < n);
          s = signals (impls w i);
          w = w\<lparr>regs := (regs w)(r := \<lparr>reg_signal_number = n, reg_queue = i, undelivered = 0\<rparr>), next_reg := r + 1\<rparr>;
          w = upd_impl i (\<lambda>im. im\<lparr>signals := takeWhile smaller s @ r # dropWhile smaller s\<rparr>) w
      in w\<lparr>registrations := (registrations w)(sv := (registrations w sv)(n := r # registrations w sv n)),
           registration_count := (registration_count w)(n := registration_count w n + 1)\<rparr>)"

definition find_registration :: "int \<Rightarrow> nat \<Rightarrow> ('q, 'k) signal_world \<Rightarrow> nat option" where
  "find_registration n i w =
     (case dropWhile (\<lambda>x. reg_signal_number (regs w x) < n) (signals (impls w i)) of
        [] \<Rightarrow> None
      | r # _ \<Rightarrow> if reg_signal_number (regs w r) = n then Some r else None)"

definition sig_add ::
  "('q, 'k) reactor_env \<Rightarrow> nat \<Rightarrow> nat \<Rightarrow> int \<Rightarrow> int \<Rightarrow> ('q, 'k) signal_world \<Rightarrow> int \<times> ('q, 'k) signal_world" where
  "sig_add env sv i n f w =
     (if n < 0 \<or> n \<ge> max_signal_number then (invalid_argument, w)
      else
        (case find_registration n i w of
           Some _ \<Rightarrow> (0, w)
         | None \<Rightarrow>
             let (ec, w) = install_handler env n f w
             in if ec \<noteq> 0 then (ec, w) else (0, record_registration sv i n w)))"

text \<open>Giving the default action back if this is the last registration, then unlinking from the table.\<close>

definition restore_default :: "('q, 'k) reactor_env \<Rightarrow> int \<Rightarrow> ('q, 'k) signal_world \<Rightarrow> int \<times> ('q, 'k) signal_world" where
  "restore_default env n w =
     (if registration_count w n = 1 then
        let (result, errno, w) = call_sigaction env n False 0 w
        in if result = -1 then (errno, w) else (0, w\<lparr>sig_flags := (sig_flags w)(n := flags_none)\<rparr>)
      else (0, w))"

definition unlink_registration :: "nat \<Rightarrow> nat \<Rightarrow> int \<Rightarrow> ('q, 'k) signal_world \<Rightarrow> ('q, 'k) signal_world" where
  "unlink_registration sv r n w =
     w\<lparr>registrations := (registrations w)(sv := (registrations w sv)(n := remove1 r (registrations w sv n))),
       registration_count := (registration_count w)(n := registration_count w n - 1)\<rparr>"

definition sig_remove ::
  "('q, 'k) reactor_env \<Rightarrow> nat \<Rightarrow> nat \<Rightarrow> int \<Rightarrow> ('q, 'k) signal_world \<Rightarrow> int \<times> ('q, 'k) signal_world" where
  "sig_remove env sv i n w =
     (if n < 0 \<or> n \<ge> max_signal_number then (invalid_argument, w)
      else
        (case find_registration n i w of
           None \<Rightarrow> (0, w)
         | Some r \<Rightarrow>
             let (ec, w) = restore_default env n w
             in if ec \<noteq> 0 then (ec, w)
                else (0, unlink_registration sv r n (upd_impl i (\<lambda>im. im\<lparr>signals := remove1 r (signals im)\<rparr>) w))))"

fun clear_signals ::
  "('q, 'k) reactor_env \<Rightarrow> nat \<Rightarrow> nat \<Rightarrow> nat list \<Rightarrow> ('q, 'k) signal_world \<Rightarrow> int \<times> ('q, 'k) signal_world" where
  "clear_signals env sv i [] w = (0, w)"
| "clear_signals env sv i (r # rs) w =
     (let n = reg_signal_number (regs w r);
          (ec, w) = restore_default env n w
      in if ec \<noteq> 0 then (ec, w)
         else clear_signals env sv i rs (upd_impl i (\<lambda>im. im\<lparr>signals := rs\<rparr>) (unlink_registration sv r n w)))"

definition sig_clear :: "('q, 'k) reactor_env \<Rightarrow> nat \<Rightarrow> nat \<Rightarrow> ('q, 'k) signal_world \<Rightarrow> int \<times> ('q, 'k) signal_world" where
  "sig_clear env sv i w = clear_signals env sv i (signals (impls w i)) w"

section \<open>Waiting, cancelling, delivering\<close>

definition sig_cancel :: "('q, 'k) reactor_env \<Rightarrow> nat \<Rightarrow> nat \<Rightarrow> ('q, 'k) signal_world \<Rightarrow> int \<times> ('q, 'k) signal_world" where
  "sig_cancel env sv i w =
     (let ops = sig_queue (impls w i);
          w = upd_impl i (\<lambda>im. im\<lparr>sig_queue := []\<rparr>)
                (w\<lparr>sop_ec := (\<lambda>x. if x \<in> set ops then operation_aborted else sop_ec w x)\<rparr>)
      in (0, post_signal_ops env sv ops w))"

definition sig_cancel_ops_by_key :: "('q, 'k) reactor_env \<Rightarrow> nat \<Rightarrow> nat \<Rightarrow> nat \<Rightarrow> ('q, 'k) signal_world \<Rightarrow> ('q, 'k) signal_world" where
  "sig_cancel_ops_by_key env sv i key w =
     (let ops = filter (\<lambda>x. sop_key w x = key) (sig_queue (impls w i));
          other_ops = filter (\<lambda>x. sop_key w x \<noteq> key) (sig_queue (impls w i));
          w = upd_impl i (\<lambda>im. im\<lparr>sig_queue := other_ops\<rparr>)
                (w\<lparr>sop_ec := (\<lambda>x. if x \<in> set ops then operation_aborted else sop_ec w x)\<rparr>)
      in post_signal_ops env sv ops w)"

text \<open>One registration of the loop in \<open>deliver_signal\<close>: the operations it releases.\<close>

definition deliver_to :: "int \<Rightarrow> nat \<Rightarrow> ('q, 'k) signal_world \<Rightarrow> nat list \<times> ('q, 'k) signal_world" where
  "deliver_to n r w =
     (let i = reg_queue (regs w r); q = sig_queue (impls w i)
      in if q = [] then ([], w\<lparr>regs := (regs w)(r := (regs w r)\<lparr>undelivered := undelivered (regs w r) + 1\<rparr>)\<rparr>)
         else (q, upd_impl i (\<lambda>im. im\<lparr>sig_queue := []\<rparr>)
                    (w\<lparr>sop_signal_number := (\<lambda>x. if x \<in> set q then n else sop_signal_number w x)\<rparr>)))"

fun deliver_to_all :: "int \<Rightarrow> nat list \<Rightarrow> ('q, 'k) signal_world \<Rightarrow> nat list \<times> ('q, 'k) signal_world" where
  "deliver_to_all n [] w = ([], w)"
| "deliver_to_all n (r # rs) w =
     (let (ops, w) = deliver_to n r w; (ops', w) = deliver_to_all n rs w in (ops @ ops', w))"

fun deliver_to_services :: "('q, 'k) reactor_env \<Rightarrow> int \<Rightarrow> nat list \<Rightarrow> ('q, 'k) signal_world \<Rightarrow> ('q, 'k) signal_world" where
  "deliver_to_services env n [] w = w"
| "deliver_to_services env n (sv # svs) w =
     (let (ops, w) = deliver_to_all n (registrations w sv n) w
      in deliver_to_services env n svs (post_signal_ops env sv ops w))"

definition deliver_signal :: "('q, 'k) reactor_env \<Rightarrow> int \<Rightarrow> ('q, 'k) signal_world \<Rightarrow> ('q, 'k) signal_world" where
  "deliver_signal env n w = deliver_to_services env n (service_list w) w"

text \<open>\<open>start_wait_op\<close>: the first registration of the set with an undelivered signal completes the operation.\<close>

definition start_wait_op :: "('q, 'k) reactor_env \<Rightarrow> nat \<Rightarrow> nat \<Rightarrow> nat \<Rightarrow> ('q, 'k) signal_world \<Rightarrow> ('q, 'k) signal_world" where
  "start_wait_op env sv i x w =
     (let w = w\<lparr>ios := (ios w)(sv := work_started (ios w sv))\<rparr>
      in case find (\<lambda>r. undelivered (regs w r) > 0) (signals (impls w i)) of
           Some r \<Rightarrow>
             w\<lparr>regs := (regs w)(r := (regs w r)\<lparr>undelivered := undelivered (regs w r) - 1\<rparr>),
               sop_signal_number := (sop_signal_number w)(x := reg_signal_number (regs w r)),
               ios := (ios w)(sv := post_deferred_completion (reactor_interrupt env) (ClientOp x) (ios w sv))\<rparr>
         | None \<Rightarrow> upd_impl i (\<lambda>im. im\<lparr>sig_queue := sig_queue im @ [x]\<rparr>) w)"

definition sig_construct :: "nat \<Rightarrow> ('q, 'k) signal_world \<Rightarrow> ('q, 'k) signal_world" where
  "sig_construct i w = upd_impl i (\<lambda>im. im\<lparr>signals := []\<rparr>) w"

definition sig_destroy :: "('q, 'k) reactor_env \<Rightarrow> nat \<Rightarrow> nat \<Rightarrow> ('q, 'k) signal_world \<Rightarrow> ('q, 'k) signal_world" where
  "sig_destroy env sv i w = snd (sig_cancel env sv i (snd (sig_clear env sv i w)))"

section \<open>The pipe between the signal handler and the reactor\<close>

definition asio_signal_handler :: "('q, 'k) reactor_env \<Rightarrow> int \<Rightarrow> ('q, 'k) signal_world \<Rightarrow> ('q, 'k) signal_world" where
  "asio_signal_handler env n w = w\<lparr>sig_kernel := sys_write (the_os env) (sig_write_fd w) n 4 (sig_kernel w)\<rparr>"

text \<open>\<open>pipe_read_op::do_perform\<close> reads until the pipe is empty and is never done.\<close>

partial_function (option) pipe_read_perform ::
  "('q, 'k) reactor_env \<Rightarrow> ('q, 'k) signal_world \<Rightarrow> (perform_status \<times> ('q, 'k) signal_world) option" where
  "pipe_read_perform env w =
     (let (result, errno, n, k) = sys_read (the_os env) (sig_read_fd w) 4 (sig_kernel w);
          w = w\<lparr>sig_kernel := k\<rparr>
      in if result = 4
         then pipe_read_perform env (if n \<ge> 0 \<and> n < max_signal_number then deliver_signal env n w else w)
         else Some (not_done, w))"

definition sig_open_descriptors :: "('q, 'k) reactor_env \<Rightarrow> ('q, 'k) signal_world \<Rightarrow> int option \<times> ('q, 'k) signal_world" where
  "sig_open_descriptors env w =
     (let os = the_os env; (fds, errno, k) = sys_pipe os (sig_kernel w) in
      case fds of
        Some (r, wr) \<Rightarrow>
          let k = sys_fcntl os r SetNonblock k;
              k = sys_fcntl os wr SetNonblock k;
              k = sys_fcntl os r SetCloexec k;
              k = sys_fcntl os wr SetCloexec k
          in (None, w\<lparr>sig_read_fd := r, sig_write_fd := wr, sig_kernel := k\<rparr>)
      | None \<Rightarrow> (Some errno, w\<lparr>sig_kernel := k\<rparr>))"

definition sig_close_descriptors :: "('q, 'k) reactor_env \<Rightarrow> ('q, 'k) signal_world \<Rightarrow> ('q, 'k) signal_world" where
  "sig_close_descriptors env w =
     (let w = (if sig_read_fd w \<noteq> -1 then w\<lparr>sig_kernel := sys_close (the_os env) (sig_read_fd w) (sig_kernel w)\<rparr> else w);
          w = w\<lparr>sig_read_fd := -1\<rparr>;
          w = (if sig_write_fd w \<noteq> -1 then w\<lparr>sig_kernel := sys_close (the_os env) (sig_write_fd w) (sig_kernel w)\<rparr> else w)
      in w\<lparr>sig_write_fd := -1\<rparr>)"

text \<open>Registering the read end of the pipe with the reactor of a service; \<open>x\<close> is the new \<open>pipe_read_op\<close>.\<close>

definition register_pipe :: "('q, 'k) reactor_env \<Rightarrow> nat \<Rightarrow> nat \<Rightarrow> ('q, 'k) signal_world \<Rightarrow> ('q, 'k) signal_world" where
  "register_pipe env sv x w =
     (let (_, d, r) = register_internal_descriptor env read_op (sig_read_fd w) x (world (ios w sv))
      in w\<lparr>ios := (ios w)(sv := (ios w sv)\<lparr>world := r\<rparr>), reactor_data := (reactor_data w)(sv := Some d)\<rparr>)"

definition deregister_pipe :: "('q, 'k) reactor_env \<Rightarrow> nat \<Rightarrow> ('q, 'k) signal_world \<Rightarrow> ('q, 'k) signal_world" where
  "deregister_pipe env sv w =
     (let (_, dd, s) = deregister_internal_descriptor env (sig_read_fd w) (reactor_data w sv) (ios w sv);
          (dd, s) = cleanup_descriptor_data dd s
      in w\<lparr>ios := (ios w)(sv := s), reactor_data := (reactor_data w)(sv := dd)\<rparr>)"

text \<open>The two ways to fail: the pipe cannot be made (\<open>system_error\<close>), or a scheduler without locking would share the
  signal handling (\<open>logic_error\<close>). \<open>locking\<close> is the configuration of each service's scheduler.\<close>

datatype service_error = PipeError int | LockingError

definition add_service ::
  "('q, 'k) reactor_env \<Rightarrow> (nat \<Rightarrow> bool) \<Rightarrow> nat \<Rightarrow> nat \<Rightarrow> ('q, 'k) signal_world \<Rightarrow> service_error option \<times> ('q, 'k) signal_world" where
  "add_service env locking sv x w =
     (let (e, w) = (if service_list w = [] then sig_open_descriptors env w else (None, w)) in
      case e of
        Some errno \<Rightarrow> (Some (PipeError errno), w)
      | None \<Rightarrow>
          if service_list w \<noteq> [] \<and> (\<not> locking sv \<or> \<not> locking (hd (service_list w)))
          then (Some LockingError, w)
          else (None, register_pipe env sv x (w\<lparr>service_list := sv # service_list w\<rparr>)))"

definition remove_service :: "('q, 'k) reactor_env \<Rightarrow> nat \<Rightarrow> ('q, 'k) signal_world \<Rightarrow> ('q, 'k) signal_world" where
  "remove_service env sv w =
     (if sv \<in> set (service_list w) then
        let w = deregister_pipe env sv w;
            w = w\<lparr>service_list := remove1 sv (service_list w)\<rparr>
        in if service_list w = [] then sig_close_descriptors env w else w
      else w)"

text \<open>The constructor of the service, and its shutdown, which yields the abandoned operations.\<close>

definition signal_set_service_new ::
  "('q, 'k) reactor_env \<Rightarrow> (nat \<Rightarrow> bool) \<Rightarrow> nat \<Rightarrow> nat \<Rightarrow> ('q, 'k) signal_world \<Rightarrow> service_error option \<times> ('q, 'k) signal_world" where
  "signal_set_service_new env locking sv x w =
     add_service env locking sv x
       (w\<lparr>ios := (ios w)(sv := init_task (reactor_interrupt env) (ios w sv)),
          registrations := (registrations w)(sv := (\<lambda>n. if 0 \<le> n \<and> n < max_signal_number then [] else registrations w sv n))\<rparr>)"

fun take_queues :: "nat list \<Rightarrow> ('q, 'k) signal_world \<Rightarrow> nat list \<times> ('q, 'k) signal_world" where
  "take_queues [] w = ([], w)"
| "take_queues (r # rs) w =
     (let i = reg_queue (regs w r); q = sig_queue (impls w i);
          (ops, w) = take_queues rs (upd_impl i (\<lambda>im. im\<lparr>sig_queue := []\<rparr>) w)
      in (q @ ops, w))"

definition sig_shutdown :: "('q, 'k) reactor_env \<Rightarrow> nat \<Rightarrow> ('q, 'k) signal_world \<Rightarrow> nat list \<times> ('q, 'k) signal_world" where
  "sig_shutdown env sv w =
     (let w = remove_service env sv w;
          (ops, w) = take_queues (concat (map (registrations w sv) [0..max_signal_number - 1])) w
      in (abandon_operations ops, w))"

definition sig_notify_fork ::
  "('q, 'k) reactor_env \<Rightarrow> fork_event \<Rightarrow> nat \<Rightarrow> nat \<Rightarrow> ('q, 'k) signal_world \<Rightarrow> int option \<times> ('q, 'k) signal_world" where
  "sig_notify_fork env fork_ev sv x w =
     (case fork_ev of
        fork_prepare \<Rightarrow> (None, deregister_pipe env sv (w\<lparr>fork_prepared := True\<rparr>))
      | fork_parent \<Rightarrow>
          if fork_prepared w then (None, register_pipe env sv x (w\<lparr>fork_prepared := False\<rparr>)) else (None, w)
      | fork_child \<Rightarrow>
          if fork_prepared w then
            (case sig_open_descriptors env (sig_close_descriptors env w) of
               (Some e, w) \<Rightarrow> (Some e, w)
             | (None, w) \<Rightarrow> (None, register_pipe env sv x (w\<lparr>fork_prepared := False\<rparr>)))
          else (None, w))"

section \<open>The registration invariant\<close>

abbreviation signum :: "('q, 'k) signal_world \<Rightarrow> nat \<Rightarrow> int" where
  "signum w r \<equiv> reg_signal_number (regs w r)"

text \<open>\<open>S\<close> are the services and \<open>own\<close> the service of a set. Every set is sorted by signal number without repetition, the
  table slots hold exactly the registrations of the sets, and the counts are exact.\<close>

definition sig_inv :: "nat set \<Rightarrow> (nat \<Rightarrow> nat) \<Rightarrow> ('q, 'k) signal_world \<Rightarrow> bool" where
  "sig_inv S own w \<longleftrightarrow>
     finite S \<and>
     (\<forall>i. sorted_wrt (<) (map (signum w) (signals (impls w i)))) \<and>
     (\<forall>i. \<forall>r\<in>set (signals (impls w i)). r < next_reg w \<and> reg_queue (regs w r) = i) \<and>
     (\<forall>sv n r. r \<in> set (registrations w sv n) \<longleftrightarrow>
        own (reg_queue (regs w r)) = sv \<and> signum w r = n \<and> r \<in> set (signals (impls w (reg_queue (regs w r))))) \<and>
     (\<forall>sv n. distinct (registrations w sv n)) \<and>
     (\<forall>sv n. sv \<notin> S \<longrightarrow> registrations w sv n = []) \<and>
     (\<forall>n. registration_count w n = (\<Sum>sv\<in>S. length (registrations w sv n)))"

definition sig_set :: "nat \<Rightarrow> ('q, 'k) signal_world \<Rightarrow> int set" where
  "sig_set i w = signum w ` set (signals (impls w i))"

lemma sorted_insert_at:
  assumes "sorted_wrt (<) (map f xs)" "(n :: int) \<notin> f ` set xs" "f r = n"
  shows "sorted_wrt (<) (map f (takeWhile (\<lambda>x. f x < n) xs @ r # dropWhile (\<lambda>x. f x < n) xs))"
  using assms
proof (induction xs)
  case (Cons x xs)
  show ?case
  proof (cases "f x < n")
    case True
    have "\<forall>y\<in>set (takeWhile (\<lambda>x. f x < n) xs @ r # dropWhile (\<lambda>x. f x < n) xs). f x < f y"
      using Cons.prems True by (auto dest: set_takeWhileD set_dropWhileD)
    then show ?thesis using Cons True by auto
  next
    case False
    then show ?thesis using Cons.prems by (auto simp: less_le)
  qed
qed simp

lemma find_sorted:
  assumes "sorted_wrt (<) (map f xs)"
  shows "(case dropWhile (\<lambda>x. f x < n) xs of [] \<Rightarrow> None | r # _ \<Rightarrow> if f r = (n :: int) then Some r else None) = None
       \<longleftrightarrow> n \<notin> f ` set xs"
    and "(case dropWhile (\<lambda>x. f x < n) xs of [] \<Rightarrow> None | r # _ \<Rightarrow> if f r = n then Some r else None) = Some r
       \<longleftrightarrow> r \<in> set xs \<and> f r = n"
  using assms by (induction xs) (auto split: if_splits)

lemma find_registration_None:
  assumes "sig_inv S own w" shows "find_registration n i w = None \<longleftrightarrow> n \<notin> sig_set i w"
  unfolding find_registration_def sig_set_def
  by (rule find_sorted(1)) (use assms in \<open>simp add: sig_inv_def\<close>)

lemma find_registration_Some:
  assumes "sig_inv S own w"
  shows "find_registration n i w = Some r \<longleftrightarrow> r \<in> set (signals (impls w i)) \<and> signum w r = n"
  unfolding find_registration_def
  by (rule find_sorted(2)) (use assms in \<open>simp add: sig_inv_def\<close>)

text \<open>The invariant reads these fields only.\<close>

definition same_registrations :: "('q, 'k) signal_world \<Rightarrow> ('q, 'k) signal_world \<Rightarrow> bool" where
  "same_registrations w w' \<longleftrightarrow>
     (\<forall>r. signum w' r = signum w r \<and> reg_queue (regs w' r) = reg_queue (regs w r)) \<and> next_reg w' = next_reg w \<and>
     (\<forall>i. signals (impls w' i) = signals (impls w i)) \<and> registrations w' = registrations w \<and>
     registration_count w' = registration_count w"

lemma same_registrations_inv: "same_registrations w w' \<Longrightarrow> sig_inv S own w' = sig_inv S own w"
  unfolding sig_inv_def same_registrations_def by (simp add: fun_eq_iff cong: map_cong)

lemma same_registrations_set: "same_registrations w w' \<Longrightarrow> sig_set i w' = sig_set i w"
  by (simp add: sig_set_def same_registrations_def)

lemma same_registrations_refl [simp]: "same_registrations w w"
  by (simp add: same_registrations_def)

lemma same_registrations_trans: "same_registrations u v \<Longrightarrow> same_registrations v w \<Longrightarrow> same_registrations u w"
  by (simp add: same_registrations_def)

lemma install_handler_same: "install_handler env n f w = (ec, w') \<Longrightarrow> same_registrations w w'"
  by (auto simp: install_handler_def call_sigaction_def Let_def same_registrations_def split: prod.splits if_splits)

lemma restore_default_same: "restore_default env n w = (ec, w') \<Longrightarrow> same_registrations w w'"
  by (auto simp: restore_default_def call_sigaction_def Let_def same_registrations_def split: prod.splits if_splits)

text \<open>Recording and unlinking a registration.\<close>

lemma sum_length_upd:
  assumes "finite S" "sv \<in> S" "\<And>sv'. sv' \<noteq> sv \<Longrightarrow> t' sv' = t sv'"
  shows "(\<Sum>s\<in>S. length (t' s)) + length (t sv) = (\<Sum>s\<in>S. length (t s)) + length (t' sv :: 'a list)"
proof -
  have "(\<Sum>s\<in>S - {sv}. length (t' s)) = (\<Sum>s\<in>S - {sv}. length (t s))"
    using assms(3) by (intro sum.cong) auto
  then show ?thesis by (simp add: sum.remove [OF assms(1,2)])
qed

lemma record_registration_inv:
  assumes inv: "sig_inv S own w" and "own i \<in> S" "n \<notin> sig_set i w"
  shows "sig_inv S own (record_registration (own i) i n w)"
    and "sig_set j (record_registration (own i) i n w) = (if j = i then insert n (sig_set j w) else sig_set j w)"
proof -
  let ?w = "record_registration (own i) i n w" and ?r = "next_reg w"
  let ?s = "signals (impls w i)" and ?sm = "\<lambda>x. signum w x < n"
  have new: "?r \<notin> set (signals (impls w j))" for j
    using inv by (auto simp: sig_inv_def)
  have regs: "regs ?w = (regs w)(?r := \<lparr>reg_signal_number = n, reg_queue = i, undelivered = 0\<rparr>)"
    "next_reg ?w = ?r + 1"
    "signals (impls ?w j) = (if j = i then takeWhile ?sm ?s @ ?r # dropWhile ?sm ?s else signals (impls w j))"
    "registrations ?w = (registrations w)(own i := (registrations w (own i))(n := ?r # registrations w (own i) n))"
    "registration_count ?w = (registration_count w)(n := registration_count w n + 1)" for j
    by (simp_all add: record_registration_def upd_impl_def Let_def)
  have "set (takeWhile ?sm ?s) \<union> set (dropWhile ?sm ?s) = set ?s"
    by (metis set_append takeWhile_dropWhile_id)
  then have members: "set (signals (impls ?w j)) = (if j = i then insert ?r (set ?s) else set (signals (impls w j)))" for j
    by (auto simp: regs(3))
  have num: "signum ?w x = (if x = ?r then n else signum w x)" for x by (simp add: regs(1))
  have maps: "map (signum ?w) xs = map (signum w) xs" if "?r \<notin> set xs" for xs
    using that by (intro map_cong) (auto simp: num)
  have "sorted_wrt (<) (map (signum ?w) (signals (impls ?w j)))" for j
  proof (cases "j = i")
    case True
    have eq: "takeWhile ?sm ?s = takeWhile (\<lambda>x. signum ?w x < n) ?s" "dropWhile ?sm ?s = dropWhile (\<lambda>x. signum ?w x < n) ?s"
      using new [of i] by (intro takeWhile_cong dropWhile_cong; auto simp: num)+
    have "n \<notin> signum ?w ` set ?s" using assms(3) new [of i] by (auto simp: num sig_set_def split: if_splits)
    moreover have "sorted_wrt (<) (map (signum ?w) ?s)"
      using inv unfolding maps [OF new [of i]] by (simp add: sig_inv_def)
    ultimately show ?thesis
      unfolding regs(3) eq using sorted_insert_at [of "signum ?w" ?s n ?r] True by (simp add: num)
  next
    case False
    then have "signals (impls ?w j) = signals (impls w j)" by (simp add: regs(3))
    then show ?thesis using inv unfolding maps [OF new [of j]] by (simp add: maps [OF new] sig_inv_def)
  qed
  moreover have "registration_count ?w m = (\<Sum>sv\<in>S. length (registrations ?w sv m))" for m
  proof -
    have "(\<Sum>sv\<in>S. length (registrations ?w sv m)) + length (registrations w (own i) m) =
        (\<Sum>sv\<in>S. length (registrations w sv m)) + length (registrations ?w (own i) m)"
      using inv assms(2) by (intro sum_length_upd) (auto simp: sig_inv_def regs(4))
    then show ?thesis using inv by (auto simp: sig_inv_def regs(4,5) split: if_splits)
  qed
  moreover have "?r \<notin> set (registrations w sv m)" for sv m
    using inv new by (auto simp: sig_inv_def)
  ultimately show "sig_inv S own ?w"
    using inv assms(2) new unfolding sig_inv_def members
    by (simp add: regs(1,2,4)) (auto simp: less_Suc_eq)
  show "sig_set j ?w = (if j = i then insert n (sig_set j w) else sig_set j w)"
    using new [of j] by (auto simp: sig_set_def members num image_iff split: if_splits)
qed

definition drop_registration :: "nat \<Rightarrow> nat \<Rightarrow> nat \<Rightarrow> int \<Rightarrow> ('q, 'k) signal_world \<Rightarrow> ('q, 'k) signal_world" where
  "drop_registration sv i r n w =
     unlink_registration sv r n (upd_impl i (\<lambda>im. im\<lparr>signals := remove1 r (signals im)\<rparr>) w)"

lemma sorted_nums_inj:
  assumes "sig_inv S own w" "r \<in> set (signals (impls w i))" "x \<in> set (signals (impls w i))" "signum w r = signum w x"
  shows "r = x"
proof -
  have "distinct (map (signum w) (signals (impls w i)))"
    using assms(1) by (simp add: sig_inv_def strict_sorted_iff)
  then show ?thesis using assms(2-4) by (auto simp: distinct_map inj_on_def)
qed

lemma sorted_wrt_remove1: "sorted_wrt P xs \<Longrightarrow> sorted_wrt P (remove1 x xs)"
  by (induction xs) (auto dest: notin_set_remove1)

lemma drop_registration_inv:
  assumes inv: "sig_inv S own w" and "own i \<in> S" and r: "r \<in> set (signals (impls w i))" "signum w r = n"
  shows "sig_inv S own (drop_registration (own i) i r n w)"
    and "sig_set j (drop_registration (own i) i r n w) = (if j = i then sig_set j w - {n} else sig_set j w)"
proof -
  let ?w = "drop_registration (own i) i r n w"
  have q: "reg_queue (regs w r) = i" using inv r by (auto simp: sig_inv_def)
  have dist: "distinct (signals (impls w j))" "distinct (registrations w sv m)" for j sv m
    using inv by (auto simp: sig_inv_def strict_sorted_iff distinct_map)
  have f: "regs ?w = regs w" "next_reg ?w = next_reg w"
    "signals (impls ?w j) = (if j = i then remove1 r (signals (impls w i)) else signals (impls w j))"
    "registrations ?w = (registrations w)(own i := (registrations w (own i))(n := remove1 r (registrations w (own i) n)))"
    "registration_count ?w = (registration_count w)(n := registration_count w n - 1)" for j
    by (simp_all add: drop_registration_def unlink_registration_def upd_impl_def)
  have members: "set (signals (impls ?w j)) = (if j = i then set (signals (impls w i)) - {r} else set (signals (impls w j)))" for j
    using dist by (simp add: f(3))
  have elem: "r \<in> set (registrations w sv m) \<longleftrightarrow> sv = own i \<and> m = n" for sv m
    using inv r q by (auto simp: sig_inv_def)
  have c1: "sorted_wrt (<) (map (signum ?w) (signals (impls ?w j)))" for j
    using inv by (simp add: sig_inv_def f(1,3) sorted_wrt_map sorted_wrt_remove1)
  have c2: "registration_count ?w m = (\<Sum>sv\<in>S. length (registrations ?w sv m))" for m
  proof -
    have "(\<Sum>sv\<in>S. length (registrations ?w sv m)) + length (registrations w (own i) m) =
        (\<Sum>sv\<in>S. length (registrations w sv m)) + length (registrations ?w (own i) m)"
      using inv assms(2) by (intro sum_length_upd) (auto simp: sig_inv_def f(4))
    moreover have "length (registrations ?w (own i) m) + (if m = n then 1 else 0) = length (registrations w (own i) m)"
      using elem [of "own i" n] by (auto simp: f(4) length_remove1 dest: length_pos_if_in_set)
    moreover have "registration_count w m = (\<Sum>sv\<in>S. length (registrations w sv m))" using inv by (simp add: sig_inv_def)
    ultimately show ?thesis by (simp add: f(5) split: if_splits)
  qed
  have c3: "x \<in> set (registrations ?w sv m) \<longleftrightarrow>
      own (reg_queue (regs ?w x)) = sv \<and> signum ?w x = m \<and> x \<in> set (signals (impls ?w (reg_queue (regs ?w x))))" for x sv m
  proof -
    have "x \<in> set (registrations ?w sv m) \<longleftrightarrow> x \<in> set (registrations w sv m) \<and> \<not> (x = r \<and> sv = own i \<and> m = n)"
      using dist by (auto simp: f(4))
    moreover have "x \<in> set (registrations w sv m) \<longleftrightarrow>
        own (reg_queue (regs w x)) = sv \<and> signum w x = m \<and> x \<in> set (signals (impls w (reg_queue (regs w x))))"
      using inv unfolding sig_inv_def by blast
    ultimately show ?thesis using q r(2) by (cases "x = r") (auto simp: members f(1))
  qed
  have c4: "\<forall>x\<in>set (signals (impls ?w j)). x < next_reg ?w \<and> reg_queue (regs ?w x) = j" for j
    using inv by (auto simp: members f(1,2) sig_inv_def split: if_splits)
  have c5: "distinct (registrations ?w sv m)" for sv m using dist by (simp add: f(4))
  have c6: "sv \<notin> S \<longrightarrow> registrations ?w sv m = []" for sv m
    using inv assms(2) by (auto simp: f(4) sig_inv_def)
  have c7: "finite S" using inv by (simp add: sig_inv_def)
  show "sig_inv S own ?w"
    unfolding sig_inv_def by (intro conjI allI; (rule c1 | rule c2 | rule c3 | rule c4 | rule c5 | rule c6 | rule c7))
  show "sig_set j ?w = (if j = i then sig_set j w - {n} else sig_set j w)"
  proof -
    have "inj_on (signum w) (set (signals (impls w i)))"
      using sorted_nums_inj [OF inv] by (auto intro: inj_onI)
    then have "signum w ` (set (signals (impls w i)) - {r}) = signum w ` set (signals (impls w i)) - {n}"
      using inj_on_image_set_diff [of "signum w" "set (signals (impls w i))" "set (signals (impls w i))" "{r}"] r by auto
    then show ?thesis by (simp add: sig_set_def members f(1))
  qed
qed

lemma sig_add_correct:
  assumes "sig_inv S own w" "own i \<in> S" "sig_add env (own i) i n f w = (ec, w')"
  shows "sig_inv S own w' \<and> (\<forall>j. sig_set j w' = (if j = i \<and> ec = 0 then insert n (sig_set j w) else sig_set j w))"
proof (cases "n < 0 \<or> n \<ge> max_signal_number")
  case True
  then show ?thesis using assms by (auto simp: sig_add_def)
next
  case False
  show ?thesis
  proof (cases "find_registration n i w")
    case (Some r)
    then show ?thesis
      using assms False find_registration_Some [OF assms(1), of n i r] by (auto simp: sig_add_def sig_set_def)
  next
    case None
    obtain e w1 where h: "install_handler env n f w = (e, w1)" by fastforce
    note same = install_handler_same [OF h]
    have inv1: "sig_inv S own w1" "n \<notin> sig_set i w1"
      using assms(1) same_registrations_inv [OF same] same_registrations_set [OF same]
        find_registration_None [OF assms(1)] None by auto
    have "w' = (if e \<noteq> 0 then w1 else record_registration (own i) i n w1)" "ec = e"
      using assms(3) False None h by (auto simp: sig_add_def split: if_splits)
    then show ?thesis
      using record_registration_inv [OF inv1(1) assms(2) inv1(2)] inv1 same_registrations_set [OF same] by auto
  qed
qed

lemma sig_remove_correct:
  assumes "sig_inv S own w" "own i \<in> S" "sig_remove env (own i) i n w = (ec, w')"
  shows "sig_inv S own w' \<and> (\<forall>j. sig_set j w' = (if j = i \<and> ec = 0 then sig_set j w - {n} else sig_set j w))"
proof (cases "n < 0 \<or> n \<ge> max_signal_number")
  case True
  then show ?thesis using assms by (auto simp: sig_remove_def)
next
  case False
  show ?thesis
  proof (cases "find_registration n i w")
    case None
    then show ?thesis
      using assms False find_registration_None [OF assms(1), of n i] by (auto simp: sig_remove_def)
  next
    case (Some r)
    obtain e w1 where h: "restore_default env n w = (e, w1)" by fastforce
    note same = restore_default_same [OF h]
    have inv1: "sig_inv S own w1" "r \<in> set (signals (impls w1 i))" "signum w1 r = n"
      using assms(1) same_registrations_inv [OF same] find_registration_Some [OF assms(1), of n i r] Some same
      by (auto simp: same_registrations_def)
    have "w' = (if e \<noteq> 0 then w1 else drop_registration (own i) i r n w1)" "ec = e"
      using assms(3) False Some h by (auto simp: sig_remove_def drop_registration_def split: if_splits)
    then show ?thesis
      using drop_registration_inv [OF inv1(1) assms(2) inv1(2,3)] inv1 same_registrations_set [OF same] by auto
  qed
qed

lemma clear_signals_correct:
  assumes "sig_inv S own w" "own i \<in> S" "clear_signals env (own i) i rs w = (ec, w')" "signals (impls w i) = rs"
  shows "sig_inv S own w' \<and> (\<forall>j. j \<noteq> i \<longrightarrow> sig_set j w' = sig_set j w) \<and> (ec = 0 \<longrightarrow> sig_set i w' = {})"
  using assms
proof (induction rs arbitrary: w)
  case Nil
  then show ?case by (simp add: sig_set_def)
next
  case (Cons r rs)
  let ?n = "signum w r"
  obtain e w1 where h: "restore_default env ?n w = (e, w1)" by fastforce
  note same = restore_default_same [OF h]
  have inv1: "sig_inv S own w1" "r \<in> set (signals (impls w1 i))" "signum w1 r = ?n" "signals (impls w1 i) = r # rs"
    using Cons.prems same_registrations_inv [OF same] same by (auto simp: same_registrations_def)
  show ?case
  proof (cases "e = 0")
    case True
    let ?w2 = "drop_registration (own i) i r ?n w1"
    have w2: "upd_impl i (\<lambda>im. im\<lparr>signals := rs\<rparr>) (unlink_registration (own i) r ?n w1) = ?w2"
      using inv1(4) by (simp add: drop_registration_def unlink_registration_def upd_impl_def)
    have "clear_signals env (own i) i rs (upd_impl i (\<lambda>im. im\<lparr>signals := rs\<rparr>) (unlink_registration (own i) r ?n w1)) = (ec, w')"
      using Cons.prems(3) h True by (simp add: Let_def)
    then have "clear_signals env (own i) i rs ?w2 = (ec, w')" unfolding w2 .
    moreover have "signals (impls ?w2 i) = rs"
      using inv1(4) by (simp add: drop_registration_def unlink_registration_def upd_impl_def)
    ultimately have "clear_signals env (own i) i rs ?w2 = (ec, w')" "signals (impls ?w2 i) = rs" by simp_all
    from Cons.IH [OF drop_registration_inv(1) [OF inv1(1) Cons.prems(2) inv1(2,3)] Cons.prems(2) this]
    show ?thesis
      using drop_registration_inv(2) [OF inv1(1) Cons.prems(2) inv1(2,3)] same_registrations_set [OF same] by auto
  next
    case False
    then show ?thesis using Cons.prems(3) h inv1 same_registrations_set [OF same] by auto
  qed
qed

section \<open>Delivery\<close>

lemma same_upd_impl [simp]:
  "(\<And>im. signals (f im) = signals im) \<Longrightarrow> same_registrations w (upd_impl i f w') = same_registrations w w'"
  by (auto simp: same_registrations_def upd_impl_def)

lemma deliver_to_same: "deliver_to n r w = (ops, w') \<Longrightarrow> same_registrations w w'"
  by (auto simp: deliver_to_def Let_def same_registrations_def upd_impl_def split: if_splits)

lemma deliver_to_all_same: "deliver_to_all n rs w = (ops, w') \<Longrightarrow> same_registrations w w'"
  by (induction n rs w arbitrary: ops w' rule: deliver_to_all.induct)
    (auto simp: Let_def split: prod.splits intro: same_registrations_trans dest: deliver_to_same)

lemma post_signal_ops_same [simp]: "same_registrations w (post_signal_ops env sv ops w') = same_registrations w w'"
  by (simp add: same_registrations_def post_signal_ops_def)

lemma deliver_to_services_same: "same_registrations w (deliver_to_services env n svs w)"
proof (induction svs arbitrary: w)
  case (Cons sv svs)
  obtain ops w1 where d: "deliver_to_all n (registrations w sv n) w = (ops, w1)" by fastforce
  have "same_registrations w (post_signal_ops env sv ops w1)" using deliver_to_all_same [OF d] by simp
  then show ?case using Cons same_registrations_trans by (fastforce simp: d)
qed simp

lemma start_wait_op_same: "same_registrations w (start_wait_op env sv i x w)"
  by (auto simp: start_wait_op_def Let_def same_registrations_def upd_impl_def split: option.splits)

lemma sig_cancel_same: "same_registrations w (snd (sig_cancel env sv i w))"
  by (auto simp: sig_cancel_def Let_def same_registrations_def upd_impl_def post_signal_ops_def)

lemma sig_cancel_by_key_same: "same_registrations w (sig_cancel_ops_by_key env sv i key w)"
  by (auto simp: sig_cancel_ops_by_key_def Let_def same_registrations_def upd_impl_def post_signal_ops_def)

text \<open>What one delivery does to one set \<open>i\<close> of the service, found through its registration \<open>r\<close>.\<close>

lemma deliver_to_effect:
  assumes "deliver_to n r w = (ops, w')"
  shows "ops = sig_queue (impls w (reg_queue (regs w r)))"
    and "sig_queue (impls w' j) = (if j = reg_queue (regs w r) then [] else sig_queue (impls w j))"
    and "sop_signal_number w' x = (if x \<in> set ops then n else sop_signal_number w x)"
    and "undelivered (regs w' r') = undelivered (regs w r') + (if r' = r \<and> ops = [] then 1 else 0)"
    and "ios w' = ios w" "sop_ec w' = sop_ec w" "reg_queue (regs w' r') = reg_queue (regs w r')"
  using assms by (auto simp: deliver_to_def Let_def upd_impl_def split: if_splits)

text \<open>All registrations of a slot, which belong to different sets.\<close>

lemma deliver_to_all_effect:
  assumes "deliver_to_all n rs w = (ops, w')" "distinct (map (\<lambda>r. reg_queue (regs w r)) rs)"
  shows "ops = concat (map (\<lambda>r. sig_queue (impls w (reg_queue (regs w r)))) rs) \<and>
    (\<forall>j. sig_queue (impls w' j) = (if j \<in> (\<lambda>r. reg_queue (regs w r)) ` set rs then [] else sig_queue (impls w j))) \<and>
    (\<forall>x. sop_signal_number w' x = (if x \<in> set ops then n else sop_signal_number w x)) \<and>
    (\<forall>r'. undelivered (regs w' r') = undelivered (regs w r') +
      (if r' \<in> set rs \<and> sig_queue (impls w (reg_queue (regs w r'))) = [] then 1 else 0)) \<and>
    ios w' = ios w"
  using assms
proof (induction rs arbitrary: w ops)
  case (Cons r rs)
  obtain ops1 w1 where d: "deliver_to n r w = (ops1, w1)" by fastforce
  obtain ops2 where e: "deliver_to_all n rs w1 = (ops2, w')" "ops = ops1 @ ops2"
    using Cons.prems(1) d by (auto simp: Let_def split: prod.splits)
  note eff = deliver_to_effect [OF d]
  let ?q = "\<lambda>r. reg_queue (regs w r)"
  have "distinct (map (\<lambda>r. reg_queue (regs w1 r)) rs)" using Cons.prems(2) by (simp add: eff(7))
  note ih = Cons.IH [OF e(1) this, unfolded eff(7)]
  have nq: "?q y \<noteq> ?q r" if "y \<in> set rs" for y
  proof
    assume "?q y = ?q r"
    then have "?q r \<in> ?q ` set rs" using that by (metis image_eqI)
    then show False using Cons.prems(2) by simp
  qed
  then have other: "sig_queue (impls w1 (?q y)) = sig_queue (impls w (?q y))" if "y \<in> set rs" for y
    using that by (simp add: eff(2))
  have nr: "r \<notin> set rs" using Cons.prems(2) by auto
  have "ops2 = concat (map (\<lambda>r. sig_queue (impls w (?q r))) rs)"
    using ih other by (auto cong: map_cong)
  moreover have "\<forall>r'. undelivered (regs w' r') = undelivered (regs w r') +
      (if r' \<in> set (r # rs) \<and> sig_queue (impls w (?q r')) = [] then 1 else 0)"
    using ih eff(1,4) other nr by auto
  moreover have "\<forall>j. sig_queue (impls w' j) = (if j \<in> ?q ` set (r # rs) then [] else sig_queue (impls w j))"
    using ih eff(2) by simp
  moreover have "\<forall>x. sop_signal_number w' x = (if x \<in> set ops then n else sop_signal_number w x)"
    using ih eff(3) e(2) by simp
  ultimately show ?case using ih e(2) eff(1,5) by simp
qed simp

lemma slot_queues_distinct:
  assumes "sig_inv S own w"
  shows "distinct (map (\<lambda>r. reg_queue (regs w r)) (registrations w sv n))"
proof -
  have "inj_on (\<lambda>r. reg_queue (regs w r)) (set (registrations w sv n))"
  proof (rule inj_onI)
    fix x y
    assume xy: "x \<in> set (registrations w sv n)" "y \<in> set (registrations w sv n)" "reg_queue (regs w x) = reg_queue (regs w y)"
    then have "x \<in> set (signals (impls w (reg_queue (regs w x))))" "y \<in> set (signals (impls w (reg_queue (regs w x))))"
      "signum w x = signum w y"
      using assms unfolding sig_inv_def by (metis (mono_tags, lifting))+
    then show "x = y" by (rule sorted_nums_inj [OF assms])
  qed
  then show ?thesis using assms by (simp add: distinct_map sig_inv_def)
qed

text \<open>Delivery to the one service of this program.\<close>

lemma deliver_signal_one:
  assumes "sig_inv S own w" "service_list w = [sv]"
  shows "\<exists>w1. deliver_signal env n w =
      post_signal_ops env sv (concat (map (\<lambda>r. sig_queue (impls w (reg_queue (regs w r)))) (registrations w sv n))) w1 \<and>
    (\<forall>j. sig_queue (impls w1 j) =
       (if j \<in> (\<lambda>r. reg_queue (regs w r)) ` set (registrations w sv n) then [] else sig_queue (impls w j))) \<and>
    ios w1 = ios w"
proof -
  obtain ops w1 where d: "deliver_to_all n (registrations w sv n) w = (ops, w1)" by fastforce
  from deliver_to_all_effect [OF d slot_queues_distinct [OF assms(1)]]
  show ?thesis by (intro exI [of _ w1]) (simp add: deliver_signal_def assms(2) d)
qed

lemma post_deferreds_one:
  "post_deferred_completions intr [x] s = post_deferred_completion intr x s"
  "post_deferred_completions intr [] s = s"
  by (simp_all add: post_deferred_completions_def post_deferred_completion_def)

lemma find_None_undelivered: "\<forall>r\<in>set rs. undelivered (f r) = 0 \<Longrightarrow> find (\<lambda>r. undelivered (f r) > 0) rs = None"
  by (induction rs) auto

lemma find_only_undelivered:
  "r \<in> set rs \<Longrightarrow> \<forall>x\<in>set rs. x \<noteq> r \<longrightarrow> undelivered (f x) = 0 \<Longrightarrow> undelivered (f r) > 0 \<Longrightarrow>
   find (\<lambda>r. undelivered (f r) > 0) rs = Some r"
  by (induction rs) auto

section \<open>Properties\<close>



text \<open>One service with one set that holds SIGINT (2) and SIGTERM (15), as the program sets it up.\<close>

definition demo_signals :: "(unit, (event_ptr \<times> u32) list) signal_world" where
  "demo_signals =
     (let w = signal_world_new (\<lambda>_. \<lparr>reg_signal_number = 0, reg_queue = 0, undelivered = 0\<rparr>)
                (\<lambda>_. \<lparr>signals = [], sig_queue = []\<rparr>) (\<lambda>_. busy_io) (\<lambda>_. 0) [];
          w = w\<lparr>service_list := [0]\<rparr>
      in snd (sig_add demo_env 0 0 15 flags_dont_care (snd (sig_add demo_env 0 0 2 flags_dont_care w))))"

lemmas demo_signal_simps = demo_signals_def signal_world_new_def sig_add_def find_registration_def install_handler_def
  call_sigaction_def record_registration_def upd_impl_def demo_env_def quiet_os_def Let_def

lemma demo_signals_fields:
  "service_list demo_signals = [0]" "registrations demo_signals 0 2 = [0]" "signals (impls demo_signals 0) = [0, 1]"
  "regs demo_signals 0 = \<lparr>reg_signal_number = 2, reg_queue = 0, undelivered = 0\<rparr>"
  "regs demo_signals 1 = \<lparr>reg_signal_number = 15, reg_queue = 0, undelivered = 0\<rparr>" "sig_queue (impls demo_signals 0) = []"
  by (simp_all add: demo_signal_simps)



end
