(* ===== verification/AsioTimerQueue.thy ===== *)
theory AsioTimerQueue
  imports AsioReactor
begin

text \<open>
  The timer queue of the vendored Asio (\<^verbatim>\<open>include/asio/detail/timer_queue.hpp\<close>) over the time traits of
  a clock with 64 bit nanosecond ticks (\<^verbatim>\<open>include/asio/detail/chrono_time_traits.hpp\<close>): an array heap of
  expiry times with a back index in every timer, and a list of the active timers. The linked list of active
  timers is a list (the pointer-level doubly linked list is in \<open>AsioObjectPool\<close>); an index of \<open>SIZE_MAX\<close> is
  \<open>None\<close>; \<open>TimeTraits::now()\<close> is an argument. The theory also models the timer operations of the reactor.
\<close>

section \<open>Time\<close>

abbreviation TIME_MAX :: int where "TIME_MAX \<equiv> 9223372036854775807"
abbreviation TIME_MIN :: int where "TIME_MIN \<equiv> -9223372036854775808"

definition in_time_range :: "int \<Rightarrow> bool" where
  "in_time_range t \<longleftrightarrow> TIME_MIN \<le> t \<and> t \<le> TIME_MAX"

definition time_add :: "int \<Rightarrow> int \<Rightarrow> int" where
  "time_add t d =
     (if t \<ge> 0 then if TIME_MAX - t < d then TIME_MAX else t + d
      else if - (t - TIME_MIN) > d then TIME_MIN else t + d)"

definition time_subtract :: "int \<Rightarrow> int \<Rightarrow> int" where
  "time_subtract t1 t2 =
     (if t1 \<ge> 0 then
        if t2 \<ge> 0 then t1 - t2
        else if t2 = TIME_MIN then TIME_MAX
        else if TIME_MAX - t1 < 0 - t2 then TIME_MAX
        else t1 - t2
      else
        if t2 < 0 then t1 - t2
        else if t1 = TIME_MIN then TIME_MIN
        else if TIME_MAX - t2 < 0 - t1 then TIME_MIN
        else - (t2 - t1))"

text \<open>\<open>duration_cast\<close> to the unit \<open>num_to / den_to\<close> for a clock of period \<open>period_num / period_den\<close> seconds; the clocks
  of the system count nanoseconds.\<close>

definition duration_cast :: "int \<Rightarrow> int \<Rightarrow> int \<Rightarrow> int \<Rightarrow> int \<Rightarrow> int" where
  "duration_cast period_num period_den num_to den_to ticks =
     (let num1 = period_num sdiv gcd period_num num_to;
          num2 = num_to sdiv gcd period_num num_to;
          den1 = period_den sdiv gcd period_den den_to;
          den2 = den_to sdiv gcd period_den den_to;
          num = num1 * den2;
          den = num2 * den1
      in if num = 1 \<and> den = 1 then ticks
         else if num \<noteq> 1 \<and> den = 1 then ticks * num
         else if num = 1 \<and> period_den \<noteq> 1 then ticks sdiv den
         else (ticks * num) sdiv den)"

definition total_seconds :: "int \<Rightarrow> int" where
  "total_seconds ticks = duration_cast 1 1000000000 1 1 ticks"

definition total_milliseconds :: "int \<Rightarrow> int" where
  "total_milliseconds ticks = duration_cast 1 1000000000 1 1000 ticks"

definition total_microseconds :: "int \<Rightarrow> int" where
  "total_microseconds ticks = duration_cast 1 1000000000 1 1000000 ticks"

definition to_msec :: "int \<Rightarrow> int \<Rightarrow> int" where
  "to_msec ticks max_duration =
     (if ticks \<le> 0 then 0
      else let msec = total_milliseconds ticks
           in if msec = 0 then 1 else if msec > max_duration then max_duration else msec)"

definition to_usec :: "int \<Rightarrow> int \<Rightarrow> int" where
  "to_usec ticks max_duration =
     (if ticks \<le> 0 then 0
      else let usec = total_microseconds ticks
           in if usec = 0 then 1 else if usec > max_duration then max_duration else usec)"

section \<open>The heap\<close>

record timer_queue =
  timers :: "nat list"
  heap :: "(int \<times> nat) list"
  heap_index :: "nat \<Rightarrow> nat option"
  timer_ops :: "nat \<Rightarrow> nat list"
  wait_ec :: "nat \<Rightarrow> int"
  wait_key :: "nat \<Rightarrow> nat"

definition timer_queue_new :: "(nat \<Rightarrow> int) \<Rightarrow> (nat \<Rightarrow> nat) \<Rightarrow> timer_queue" where
  "timer_queue_new ecs keys =
     \<lparr>timers = [], heap = [], heap_index = (\<lambda>_. None), timer_ops = (\<lambda>_. []), wait_ec = ecs, wait_key = keys\<rparr>"

definition swap_heap :: "nat \<Rightarrow> nat \<Rightarrow> timer_queue \<Rightarrow> timer_queue" where
  "swap_heap index1 index2 q =
     (let h = (heap q)[index1 := heap q ! index2, index2 := heap q ! index1]
      in q\<lparr>heap := h, heap_index := (heap_index q)(snd (h ! index1) := Some index1, snd (h ! index2) := Some index2)\<rparr>)"

lemma length_swap_heap [simp]: "length (heap (swap_heap i j q)) = length (heap q)"
  by (simp add: swap_heap_def Let_def)

function up_heap :: "nat \<Rightarrow> timer_queue \<Rightarrow> timer_queue" where
  "up_heap index q =
     (if index > 0 then
        let parent = (index - 1) div 2
        in if \<not> fst (heap q ! index) < fst (heap q ! parent) then q
           else up_heap parent (swap_heap index parent q)
      else q)"
  by pat_completeness auto

termination by (relation "measure fst") auto

definition min_child :: "nat \<Rightarrow> timer_queue \<Rightarrow> nat" where
  "min_child child q =
     (if child + 1 = length (heap q) \<or> fst (heap q ! child) < fst (heap q ! (child + 1)) then child else child + 1)"

function down_heap :: "nat \<Rightarrow> timer_queue \<Rightarrow> timer_queue" where
  "down_heap index q =
     (let child = index * 2 + 1
      in if child < length (heap q) then
           let m = min_child child q
           in if fst (heap q ! index) < fst (heap q ! m) then q
              else down_heap m (swap_heap index m q)
         else q)"
  by pat_completeness auto

termination
  by (relation "measure (\<lambda>(index, q). 2 * length (heap q) - index)") (auto simp: min_child_def)

definition remove_from_heap :: "nat \<Rightarrow> timer_queue \<Rightarrow> timer_queue" where
  "remove_from_heap timer q =
     (case heap_index q timer of
        None \<Rightarrow> q
      | Some index \<Rightarrow>
          if heap q \<noteq> [] \<and> index < length (heap q) then
            if index = length (heap q) - 1 then
              q\<lparr>heap_index := (heap_index q)(timer := None), heap := butlast (heap q)\<rparr>
            else
              let q = swap_heap index (length (heap q) - 1) q;
                  q = q\<lparr>heap_index := (heap_index q)(timer := None), heap := butlast (heap q)\<rparr>
              in if index > 0 \<and> fst (heap q ! index) < fst (heap q ! ((index - 1) div 2))
                 then up_heap index q else down_heap index q
          else q)"

definition remove_timer :: "nat \<Rightarrow> timer_queue \<Rightarrow> timer_queue" where
  "remove_timer timer q = (let q = remove_from_heap timer q in q\<lparr>timers := remove1 timer (timers q)\<rparr>)"

section \<open>Operations\<close>

text \<open>\<open>is_positive_infinity\<close> is false for the times of a chrono clock.\<close>

definition enqueue_timer :: "int \<Rightarrow> nat \<Rightarrow> nat \<Rightarrow> timer_queue \<Rightarrow> bool \<times> timer_queue" where
  "enqueue_timer time timer x q =
     (let q = (if timer \<notin> set (timers q) then
                 let q = q\<lparr>heap_index := (heap_index q)(timer := Some (length (heap q))), heap := heap q @ [(time, timer)]\<rparr>;
                     q = up_heap (length (heap q) - 1) q
                 in q\<lparr>timers := timer # timers q\<rparr>
               else q);
          q = q\<lparr>timer_ops := (timer_ops q)(timer := timer_ops q timer @ [x])\<rparr>
      in (heap_index q timer = Some 0 \<and> hd (timer_ops q timer) = x, q))"

definition tq_is_empty :: "timer_queue \<Rightarrow> bool" where
  "tq_is_empty q \<longleftrightarrow> timers q = []"

definition wait_duration_msec :: "int \<Rightarrow> int \<Rightarrow> timer_queue \<Rightarrow> int" where
  "wait_duration_msec now max_duration q =
     (if heap q = [] then max_duration else to_msec (time_subtract (fst (heap q ! 0)) now) max_duration)"

definition wait_duration_usec :: "int \<Rightarrow> int \<Rightarrow> timer_queue \<Rightarrow> int" where
  "wait_duration_usec now max_duration q =
     (if heap q = [] then max_duration else to_usec (time_subtract (fst (heap q ! 0)) now) max_duration)"

text \<open>The loop of \<open>get_ready_timers\<close>. Every round removes one heap entry, so the number of entries is enough fuel.\<close>

fun ready_loop :: "nat \<Rightarrow> int \<Rightarrow> timer_queue \<Rightarrow> nat list \<times> timer_queue" where
  "ready_loop 0 now q = ([], q)"
| "ready_loop (Suc fuel) now q =
     (if heap q \<noteq> [] \<and> \<not> now < fst (heap q ! 0) then
        let timer = snd (heap q ! 0);
            ops = timer_ops q timer;
            q = q\<lparr>timer_ops := (timer_ops q)(timer := []), wait_ec := (\<lambda>x. if x \<in> set ops then 0 else wait_ec q x)\<rparr>;
            (more, q) = ready_loop fuel now (remove_timer timer q)
        in (ops @ more, q)
      else ([], q))"

definition get_ready_timers :: "int \<Rightarrow> timer_queue \<Rightarrow> nat list \<times> timer_queue" where
  "get_ready_timers now q = ready_loop (length (heap q)) now q"

text \<open>\<open>get_all_timers\<close> leaves the heap indices as they are.\<close>

definition get_all_timers :: "timer_queue \<Rightarrow> nat list \<times> timer_queue" where
  "get_all_timers q =
     (concat (map (timer_ops q) (timers q)),
      q\<lparr>timers := [], timer_ops := (\<lambda>t. if t \<in> set (timers q) then [] else timer_ops q t), heap := []\<rparr>)"

text \<open>\<open>max_cancelled\<close> of \<open>None\<close> is the default, no limit.\<close>

definition cancel_timer :: "nat \<Rightarrow> nat option \<Rightarrow> timer_queue \<Rightarrow> nat list \<times> timer_queue" where
  "cancel_timer timer max_cancelled q =
     (if timer \<in> set (timers q) then
        let ops = (case max_cancelled of None \<Rightarrow> timer_ops q timer | Some m \<Rightarrow> take m (timer_ops q timer));
            q = q\<lparr>timer_ops := (timer_ops q)(timer := drop (length ops) (timer_ops q timer)),
                  wait_ec := (\<lambda>x. if x \<in> set ops then operation_aborted else wait_ec q x)\<rparr>
        in (ops, if timer_ops q timer = [] then remove_timer timer q else q)
      else ([], q))"

definition cancel_timer_by_key :: "nat \<Rightarrow> nat \<Rightarrow> timer_queue \<Rightarrow> nat list \<times> timer_queue" where
  "cancel_timer_by_key timer key q =
     (if timer \<in> set (timers q) then
        let ops = filter (\<lambda>x. wait_key q x = key) (timer_ops q timer);
            other_ops = filter (\<lambda>x. wait_key q x \<noteq> key) (timer_ops q timer);
            q = q\<lparr>timer_ops := (timer_ops q)(timer := other_ops),
                  wait_ec := (\<lambda>x. if x \<in> set ops then operation_aborted else wait_ec q x)\<rparr>
        in (ops, if timer_ops q timer = [] then remove_timer timer q else q)
      else ([], q))"

definition move_timer :: "nat \<Rightarrow> nat \<Rightarrow> timer_queue \<Rightarrow> timer_queue" where
  "move_timer target source q =
     (let q = q\<lparr>timer_ops := (timer_ops q)(target := timer_ops q target @ timer_ops q source, source := [])\<rparr>;
          q = q\<lparr>heap_index := (heap_index q)(target := heap_index q source, source := None)\<rparr>;
          q = (case heap_index q target of
                 Some i \<Rightarrow> if i < length (heap q) then q\<lparr>heap := (heap q)[i := (fst (heap q ! i), target)]\<rparr> else q
               | None \<Rightarrow> q)
      in q\<lparr>timers := map (\<lambda>t. if t = source then target else t) (timers q)\<rparr>)"

section \<open>Heap order\<close>

declare up_heap.simps [simp del] down_heap.simps [simp del]

definition par :: "nat \<Rightarrow> nat" where "par i = (i - 1) div 2"
abbreviation key :: "(int \<times> nat) list \<Rightarrow> nat \<Rightarrow> int" where "key h i \<equiv> fst (h ! i)"

definition is_heap :: "(int \<times> nat) list \<Rightarrow> bool" where
  "is_heap h \<longleftrightarrow> (\<forall>i<length h. 0 < i \<longrightarrow> key h (par i) \<le> key h i)"

text \<open>A heap but for entry \<open>k\<close> against its parent, or against its children.\<close>

definition heap_but_up :: "(int \<times> nat) list \<Rightarrow> nat \<Rightarrow> bool" where
  "heap_but_up h k \<longleftrightarrow>
     (\<forall>i<length h. 0 < i \<longrightarrow> i \<noteq> k \<longrightarrow> key h (par i) \<le> key h i) \<and>
     (\<forall>i<length h. 0 < i \<longrightarrow> par i = k \<longrightarrow> 0 < k \<longrightarrow> key h (par k) \<le> key h i)"

definition heap_but_down :: "(int \<times> nat) list \<Rightarrow> nat \<Rightarrow> bool" where
  "heap_but_down h k \<longleftrightarrow>
     (\<forall>i<length h. 0 < i \<longrightarrow> par i \<noteq> k \<longrightarrow> key h (par i) \<le> key h i) \<and>
     (\<forall>i<length h. 0 < i \<longrightarrow> par i = k \<longrightarrow> 0 < k \<longrightarrow> key h (par k) \<le> key h i)"

abbreviation swapped :: "'a list \<Rightarrow> nat \<Rightarrow> nat \<Rightarrow> 'a list" where
  "swapped h i j \<equiv> h[i := h ! j, j := h ! i]"

lemma nth_swapped:
  "i < length h \<Longrightarrow> j < length h \<Longrightarrow> m < length h \<Longrightarrow>
   swapped h i j ! m = (if m = j then h ! i else if m = i then h ! j else h ! m)"
  by (auto simp: nth_list_update)

lemma heap_swap_heap: "heap (swap_heap i j q) = swapped (heap q) i j"
  by (simp add: swap_heap_def Let_def)

lemma par_less: "0 < i \<Longrightarrow> par i < i"
  unfolding par_def by linarith

lemma par_children: "0 < i \<Longrightarrow> par i = k \<longleftrightarrow> i = 2 * k + 1 \<or> i = 2 * k + 2"
  unfolding par_def by linarith

lemmas up_heap_unfold = up_heap.simps [folded par_def]

lemmas up_heap_rule = up_heap.induct [folded par_def]

lemma heap_up_step:
  assumes "heap_but_up h k" "k < length h" "0 < k" "key h k < key h (par k)"
  shows "heap_but_up (swapped h k (par k)) (par k)"
proof -
  let ?p = "par k" and ?h = "swapped h k (par k)"
  have p: "?p < k" "?p < length h" using assms(2,3) par_less [of k] by auto
  have k: "key ?h m = (if m = ?p then key h k else if m = k then key h ?p else key h m)" if "m < length h" for m
    using that p assms(2) by (simp add: nth_swapped)
  have ord: "key h (par i) \<le> key h i" if "i < length h" "0 < i" "i \<noteq> k" for i
    using assms(1) that by (simp add: heap_but_up_def)
  have grand: "key h ?p \<le> key h i" if "i < length h" "0 < i" "par i = k" for i
    using assms(1,3) that by (simp add: heap_but_up_def)
  have 1: "key ?h (par i) \<le> key ?h i" if i: "i < length h" "0 < i" "i \<noteq> ?p" for i
  proof -
    have pi: "par i < length h" "par i < i" using i par_less [of i] by auto
    consider "i = k" | "i \<noteq> k" "par i = ?p" | "i \<noteq> k" "par i = k" | "i \<noteq> k" "par i \<noteq> ?p" "par i \<noteq> k" by blast
    then show ?thesis
    proof cases
      case 1 then show ?thesis using assms(4) p k [of k] k [of ?p] assms(2) by simp
    next
      case 2 then show ?thesis using ord [OF i(1,2)] assms(4) k [of i] k [of ?p] i p by simp
    next
      case 3 then show ?thesis using grand [OF i(1,2)] k [of i] k [of k] i p assms(2) by simp
    next
      case 4 then show ?thesis using ord [OF i(1,2)] k [OF i(1)] k [OF pi(1)] i by simp
    qed
  qed
  have 2: "key ?h (par ?p) \<le> key ?h i" if i: "i < length h" "0 < i" "par i = ?p" "0 < ?p" for i
  proof -
    have pp: "par ?p < ?p" using par_less [OF i(4)] .
    have "key h (par ?p) \<le> key h ?p" using ord [OF p(2) i(4)] p(1) by simp
    moreover have "key h ?p \<le> key h i" if "i \<noteq> k" using ord [OF i(1,2) that] i(3) by simp
    moreover have "i \<noteq> ?p" using par_less [OF i(2)] i(3) by auto
    ultimately show ?thesis using k [OF i(1)] k [of "par ?p"] pp p assms(2) by (cases "i = k") auto
  qed
  show ?thesis unfolding heap_but_up_def using 1 2 by simp
qed

lemma heap_up_end:
  assumes "heap_but_up h k" "k = 0 \<or> \<not> key h k < key h (par k)"
  shows "is_heap h"
  using assms unfolding heap_but_up_def is_heap_def by (metis linorder_not_less less_numeral_extra(3))

lemma min_child_props:
  assumes "2 * k + 1 < length (heap q)" "m = min_child (2 * k + 1) q"
  shows "m < length (heap q)" "par m = k" "0 < m" "k < m"
    "\<And>i. i < length (heap q) \<Longrightarrow> 0 < i \<Longrightarrow> par i = k \<Longrightarrow> key (heap q) m \<le> key (heap q) i"
proof -
  show "m < length (heap q)" "par m = k" "0 < m" "k < m" using assms by (auto simp: min_child_def par_def)
  show "key (heap q) m \<le> key (heap q) i" if "i < length (heap q)" "0 < i" "par i = k" for i
    using assms that par_children [of i k] by (auto simp: min_child_def)
qed

lemma heap_down_step:
  assumes "heap_but_down h k" "m < length h" "par m = k" "0 < m" "k < m" "key h m \<le> key h k"
    and least: "\<And>i. i < length h \<Longrightarrow> 0 < i \<Longrightarrow> par i = k \<Longrightarrow> key h m \<le> key h i"
  shows "heap_but_down (swapped h k m) m"
proof -
  let ?h = "swapped h k m"
  have kl: "k < length h" using assms(2,5) by simp
  have key: "key ?h i = (if i = m then key h k else if i = k then key h m else key h i)" if "i < length h" for i
    using that kl assms(2) by (simp add: nth_swapped)
  have ord: "key h (par i) \<le> key h i" if "i < length h" "0 < i" "par i \<noteq> k" for i
    using assms(1) that by (simp add: heap_but_down_def)
  have 1: "key ?h (par i) \<le> key ?h i" if i: "i < length h" "0 < i" "par i \<noteq> m" for i
  proof -
    have pi: "par i < length h" "par i < i" using i par_less [of i] by auto
    consider "i = m" | "i \<noteq> m" "par i = k" | "i = k" "par i \<noteq> k" | "i \<noteq> m" "i \<noteq> k" "par i \<noteq> k" by blast
    then show ?thesis
    proof cases
      case 1 then show ?thesis using assms(3,5,6) key [of m] key [of k] assms(2) kl by simp
    next
      case 2 then show ?thesis using least [OF i(1,2)] key [OF i(1)] key [OF kl] pi assms(5) i by auto
    next
      case 3
      have "key h (par k) \<le> key h m" using assms(1,2,3,4) i 3 by (simp add: heap_but_down_def)
      then show ?thesis using key [OF pi(1)] key [OF kl] 3 i assms(5) by simp
    next
      case 4 then show ?thesis using ord [OF i(1,2)] key [OF i(1)] key [OF pi(1)] i by simp
    qed
  qed
  have 2: "key ?h (par m) \<le> key ?h i" if i: "i < length h" "0 < i" "par i = m" for i
  proof -
    have "m < i" using par_less [OF i(2)] i(3) by simp
    then show ?thesis using ord [OF i(1,2)] i assms(3,5) key [OF i(1)] key [OF kl] by simp
  qed
  show ?thesis unfolding heap_but_down_def using 1 2 by simp
qed

lemma heap_down_end:
  assumes "heap_but_down h k" "\<And>i. i < length h \<Longrightarrow> 0 < i \<Longrightarrow> par i = k \<Longrightarrow> key h k \<le> key h i"
  shows "is_heap h"
  using assms unfolding heap_but_down_def is_heap_def by metis

lemma up_heap_is_heap:
  "heap_but_up (heap q) k \<Longrightarrow> k < length (heap q) \<Longrightarrow> is_heap (heap (up_heap k q))"
proof (induction k q rule: up_heap_rule)
  case (1 k q)
  show ?case
  proof (cases "0 < k \<and> key (heap q) k < key (heap q) (par k)")
    case True
    then have "is_heap (heap (up_heap (par k) (swap_heap k (par k) q)))"
      using "1.IH" [of "par k"] heap_up_step [OF "1.prems"] "1.prems"(2) par_less [of k] by (simp add: heap_swap_heap)
    then show ?thesis using True by (simp add: up_heap_unfold [of k q] Let_def)
  next
    case False
    then have "up_heap k q = q" by (auto simp: up_heap_unfold [of k q] Let_def)
    then show ?thesis using heap_up_end [OF "1.prems"(1)] False by auto
  qed
qed

lemma down_heap_is_heap:
  "heap_but_down (heap q) k \<Longrightarrow> is_heap (heap (down_heap k q))"
proof (induction k q rule: down_heap.induct)
  case (1 k q)
  let ?c = "k * 2 + 1" and ?m = "min_child (k * 2 + 1) q"
  show ?case
  proof (cases "?c < length (heap q)")
    case False
    have "\<not> (i < length (heap q) \<and> par i = k)" if "0 < i" for i
      using that False par_children [of i k] by auto
    then have "is_heap (heap q)" using heap_down_end [OF "1.prems"] by blast
    then show ?thesis using False by (simp add: down_heap.simps [of k q] Let_def)
  next
    case True
    note mc = min_child_props [of k q ?m, simplified mult.commute [of 2]]
    show ?thesis
    proof (cases "key (heap q) k < key (heap q) ?m")
      case less: True
      have "is_heap (heap q)"
        using heap_down_end [OF "1.prems"] mc(5) less True by (meson less_imp_le order_trans)
      then show ?thesis using True less by (simp add: down_heap.simps [of k q] Let_def)
    next
      case False
      have "heap_but_down (heap (swap_heap k ?m q)) ?m"
        unfolding heap_swap_heap using True False mc
        by (intro heap_down_step [OF "1.prems"]) auto
      then have "is_heap (heap (down_heap ?m (swap_heap k ?m q)))" using "1.IH" True False by simp
      then show ?thesis using True False by (simp add: down_heap.simps [of k q] Let_def)
    qed
  qed
qed

lemma is_heap_min:
  assumes "is_heap h" "i < length h" shows "key h 0 \<le> key h i"
  using assms(2)
proof (induction i rule: less_induct)
  case (less i)
  show ?case
  proof (cases "i = 0")
    case False
    then have "par i < i" using par_less by simp
    then have "key h 0 \<le> key h (par i)" using less by simp
    then show ?thesis using assms(1) less.prems False unfolding is_heap_def by (meson neq0_conv order_trans)
  qed simp
qed

section \<open>Heap positions\<close>

text \<open>Every timer in the heap knows its position, and no other timer claims one.\<close>

definition index_ok :: "timer_queue \<Rightarrow> bool" where
  "index_ok q \<longleftrightarrow>
     (\<forall>i<length (heap q). heap_index q (snd (heap q ! i)) = Some i) \<and>
     (\<forall>t i. heap_index q t = Some i \<longrightarrow> i < length (heap q) \<and> snd (heap q ! i) = t)"

lemma index_ok_nth: "index_ok q \<Longrightarrow> i < length (heap q) \<Longrightarrow> heap_index q (snd (heap q ! i)) = Some i"
  by (simp add: index_ok_def)

lemma index_ok_inj:
  "index_ok q \<Longrightarrow> i < length (heap q) \<Longrightarrow> j < length (heap q) \<Longrightarrow> snd (heap q ! i) = snd (heap q ! j) \<Longrightarrow> i = j"
  by (metis index_ok_nth option.inject)

lemma index_ok_swap:
  assumes "index_ok q" "i < length (heap q)" "j < length (heap q)" "i \<noteq> j"
  shows "index_ok (swap_heap i j q)"
proof -
  let ?h = "swapped (heap q) i j"
  let ?ti = "snd (heap q ! i)" and ?tj = "snd (heap q ! j)"
  have ne: "?ti \<noteq> ?tj" using index_ok_inj [OF assms(1-3)] assms(4) by blast
  have h: "heap (swap_heap i j q) = ?h" by (rule heap_swap_heap)
  have ix: "heap_index (swap_heap i j q) = (heap_index q)(?tj := Some i, ?ti := Some j)"
    using assms by (simp add: swap_heap_def Let_def nth_swapped)
  have nth: "?h ! m = (if m = j then heap q ! i else if m = i then heap q ! j else heap q ! m)" if "m < length (heap q)" for m
    using that assms(2,3) by (simp add: nth_swapped)
  show ?thesis
    unfolding index_ok_def h ix
  proof (intro conjI allI impI)
    fix m assume "m < length ?h"
    then have m: "m < length (heap q)" by simp
    show "((heap_index q)(?tj := Some i, ?ti := Some j)) (snd (?h ! m)) = Some m"
      using nth [OF m] index_ok_nth [OF assms(1) m] ne index_ok_inj [OF assms(1) m assms(2)] index_ok_inj [OF assms(1) m assms(3)]
      by auto
  next
    fix t m assume "((heap_index q)(?tj := Some i, ?ti := Some j)) t = Some m"
    then show "m < length ?h" "snd (?h ! m) = t"
      using assms nth [of m] nth [of i] nth [of j] ne unfolding index_ok_def
      by (auto split: if_splits)
  qed
qed

lemma swap_frame [simp]:
  "timers (swap_heap i j q) = timers q" "timer_ops (swap_heap i j q) = timer_ops q"
  "wait_ec (swap_heap i j q) = wait_ec q" "wait_key (swap_heap i j q) = wait_key q"
  by (simp_all add: swap_heap_def Let_def)

lemma mset_swap_heap: "i < length (heap q) \<Longrightarrow> j < length (heap q) \<Longrightarrow> mset (heap (swap_heap i j q)) = mset (heap q)"
  by (simp add: heap_swap_heap mset_swap)

text \<open>What moving an entry up or down keeps.\<close>

definition same_entries :: "timer_queue \<Rightarrow> timer_queue \<Rightarrow> bool" where
  "same_entries q q' \<longleftrightarrow> mset (heap q') = mset (heap q) \<and> timers q' = timers q \<and> timer_ops q' = timer_ops q \<and>
     wait_ec q' = wait_ec q \<and> wait_key q' = wait_key q"

lemma same_entries_trans: "same_entries p q \<Longrightarrow> same_entries q r \<Longrightarrow> same_entries p r"
  by (simp add: same_entries_def)

lemma same_entries_swap: "i < length (heap q) \<Longrightarrow> j < length (heap q) \<Longrightarrow> same_entries q (swap_heap i j q)"
  by (simp add: same_entries_def mset_swap_heap)

lemma up_heap_keeps:
  "index_ok q \<Longrightarrow> k < length (heap q) \<Longrightarrow> index_ok (up_heap k q) \<and> same_entries q (up_heap k q)"
proof (induction k q rule: up_heap_rule)
  case (1 k q)
  show ?case
  proof (cases "0 < k \<and> key (heap q) k < key (heap q) (par k)")
    case True
    then have p: "par k < k" "par k < length (heap q)" using par_less [of k] "1.prems"(2) by auto
    have "index_ok (swap_heap k (par k) q)" using index_ok_swap [OF "1.prems" p(2)] p(1) by simp
    then have "index_ok (up_heap (par k) (swap_heap k (par k) q)) \<and>
        same_entries (swap_heap k (par k) q) (up_heap (par k) (swap_heap k (par k) q))"
      using "1.IH" [of "par k"] True p by simp
    then show ?thesis
      using True same_entries_trans [OF same_entries_swap [OF "1.prems"(2) p(2)]] by (simp add: up_heap_unfold [of k q] Let_def)
  next
    case False
    then have "up_heap k q = q" by (auto simp: up_heap_unfold [of k q] Let_def)
    then show ?thesis using "1.prems" by (simp add: same_entries_def)
  qed
qed

lemma down_heap_keeps:
  "index_ok q \<Longrightarrow> k < length (heap q) \<Longrightarrow> index_ok (down_heap k q) \<and> same_entries q (down_heap k q)"
proof (induction k q rule: down_heap.induct)
  case (1 k q)
  let ?m = "min_child (k * 2 + 1) q"
  show ?case
  proof (cases "k * 2 + 1 < length (heap q) \<and> \<not> key (heap q) k < key (heap q) ?m")
    case True
    have m: "?m < length (heap q)" "k < ?m"
      using min_child_props(1,4) [of k q ?m] True by (simp_all add: mult.commute)
    have "index_ok (swap_heap k ?m q)" using index_ok_swap [OF "1.prems" m(1)] m(2) by simp
    then have "index_ok (down_heap ?m (swap_heap k ?m q)) \<and>
        same_entries (swap_heap k ?m q) (down_heap ?m (swap_heap k ?m q))"
      using "1.IH" True m by simp
    then show ?thesis
      using True same_entries_trans [OF same_entries_swap [OF "1.prems"(2) m(1)]] by (simp add: down_heap.simps [of k q] Let_def)
  next
    case False
    then have "down_heap k q = q" by (auto simp: down_heap.simps [of k q] Let_def)
    then show ?thesis using "1.prems" by (simp add: same_entries_def)
  qed
qed

section \<open>Removing a timer\<close>

lemma index_ok_pop:
  assumes "index_ok q" "heap q \<noteq> []"
  shows "index_ok (q\<lparr>heap_index := (heap_index q)(snd (last (heap q)) := None), heap := butlast (heap q)\<rparr>)"
proof -
  have l: "last (heap q) = heap q ! (length (heap q) - 1)" using assms(2) by (simp add: last_conv_nth)
  have n: "snd (heap q ! i) \<noteq> snd (last (heap q))" if "i < length (heap q) - 1" for i
    using index_ok_inj [OF assms(1), of i "length (heap q) - 1"] that l assms(2) by fastforce
  show ?thesis
    unfolding index_ok_def
  proof (intro conjI allI impI)
    fix i assume "i < length (heap (q\<lparr>heap_index := (heap_index q)(snd (last (heap q)) := None), heap := butlast (heap q)\<rparr>))"
    then have i: "i < length (heap q) - 1" by simp
    then have "i < length (heap q)" by simp
    then show "heap_index (q\<lparr>heap_index := (heap_index q)(snd (last (heap q)) := None), heap := butlast (heap q)\<rparr>)
        (snd (heap (q\<lparr>heap_index := (heap_index q)(snd (last (heap q)) := None), heap := butlast (heap q)\<rparr>) ! i)) = Some i"
      using n [OF i] index_ok_nth [OF assms(1), of i] i by (simp add: nth_butlast)
  next
    fix t i
    assume "heap_index (q\<lparr>heap_index := (heap_index q)(snd (last (heap q)) := None), heap := butlast (heap q)\<rparr>) t = Some i"
    then have t: "heap_index q t = Some i" "t \<noteq> snd (last (heap q))" by (auto split: if_splits)
    then have i: "i < length (heap q)" "snd (heap q ! i) = t" using assms(1) by (auto simp: index_ok_def)
    then have "i \<noteq> length (heap q) - 1" using t(2) l by auto
    then have "i < length (heap q) - 1" using i(1) by linarith
    then show "i < length (heap (q\<lparr>heap_index := (heap_index q)(snd (last (heap q)) := None), heap := butlast (heap q)\<rparr>))"
      "snd (heap (q\<lparr>heap_index := (heap_index q)(snd (last (heap q)) := None), heap := butlast (heap q)\<rparr>) ! i) = t"
      using i by (simp_all add: nth_butlast)
  qed
qed

lemma is_heap_butlast: "is_heap h \<Longrightarrow> is_heap (butlast h)"
  unfolding is_heap_def
proof (intro allI impI)
  fix i assume h: "\<forall>i<length h. 0 < i \<longrightarrow> key h (par i) \<le> key h i" and i: "i < length (butlast h)" "0 < i"
  then have "par i < length (butlast h)" using par_less [OF i(2)] by simp
  then show "key (butlast h) (par i) \<le> key (butlast h) i" using h i by (simp add: nth_butlast)
qed

text \<open>Putting the last entry at the place of entry \<open>k\<close> leaves a heap but for \<open>k\<close>, on one of the two sides.\<close>

lemma replace_with_last:
  assumes "is_heap h" "k < length h - 1" "h' = butlast (swapped h k (length h - 1))"
  shows "0 < k \<and> key h' k < key h' (par k) \<Longrightarrow> heap_but_up h' k"
    and "\<not> (0 < k \<and> key h' k < key h' (par k)) \<Longrightarrow> heap_but_down h' k"
proof -
  have len: "length h' = length h - 1" using assms(3) by simp
  have kk: "k < length h" "length h - 1 < length h" using assms(2) by auto
  have nth: "h' ! m = (if m = k then h ! (length h - 1) else h ! m)" if "m < length h'" for m
    using that assms(2,3) kk by (simp add: nth_butlast nth_swapped len)
  have ord: "key h (par i) \<le> key h i" if "i < length h'" "0 < i" for i
    using assms(1) that len by (simp add: is_heap_def)
  have same: "key h' (par i) \<le> key h' i" if i: "i < length h'" "0 < i" "i \<noteq> k" "par i \<noteq> k" for i
    using ord [OF i(1,2)] nth [OF i(1)] nth [of "par i"] par_less [OF i(2)] i by simp
  have grand: "key h' (par k) \<le> key h' i" if i: "i < length h'" "0 < i" "par i = k" "0 < k" for i
  proof -
    have "par k < k" "k < i" using par_less [OF i(4)] par_less [OF i(2)] i(3) by auto
    moreover have "key h (par k) \<le> key h k" using ord [of k] assms(2) len i(4) by simp
    moreover have "key h k \<le> key h i" using ord [OF i(1,2)] i(3) by simp
    ultimately show ?thesis using nth [OF i(1)] nth [of "par k"] i by simp
  qed
  show "heap_but_up h' k" if up: "0 < k \<and> key h' k < key h' (par k)"
    unfolding heap_but_up_def
  proof (intro conjI allI impI)
    fix i assume i: "i < length h'" "0 < i" "i \<noteq> k"
    show "key h' (par i) \<le> key h' i"
      using same [OF i] grand [OF i(1,2)] up by (cases "par i = k") auto
  qed (use grand in auto)
  show "heap_but_down h' k" if down: "\<not> (0 < k \<and> key h' k < key h' (par k))"
    unfolding heap_but_down_def
  proof (intro conjI allI impI)
    fix i assume i: "i < length h'" "0 < i" "par i \<noteq> k"
    show "key h' (par i) \<le> key h' i"
      using same [OF i(1,2)] i down by (cases "i = k") auto
  qed (use grand in auto)
qed

lemma remove_from_heap_correct:
  assumes "is_heap (heap q)" "index_ok q" "heap_index q t = Some i" "q' = remove_from_heap t q"
  shows "is_heap (heap q') \<and> index_ok q' \<and> mset (heap q) = add_mset (heap q ! i) (mset (heap q')) \<and>
    timers q' = timers q \<and> timer_ops q' = timer_ops q \<and> wait_ec q' = wait_ec q \<and> wait_key q' = wait_key q"
proof -
  have i: "i < length (heap q)" "snd (heap q ! i) = t" using assms(2,3) by (auto simp: index_ok_def)
  then have ne: "heap q \<noteq> []" by auto
  let ?L = "length (heap q) - 1"
  let ?pop = "\<lambda>q. q\<lparr>heap_index := (heap_index q)(t := None), heap := butlast (heap q)\<rparr>"
  have ms: "mset h = add_mset (last h) (mset (butlast h))" if "h \<noteq> []" for h :: "(int \<times> nat) list"
    using that by (metis append_butlast_last_id mset.simps(1,2) mset_append union_mset_add_mset_right add.right_neutral)
  show ?thesis
  proof (cases "i = ?L")
    case True
    then have l: "last (heap q) = heap q ! i" using ne by (simp add: last_conv_nth)
    have "q' = ?pop q" using assms(3,4) True i ne by (simp add: remove_from_heap_def)
    then show ?thesis
      using index_ok_pop [OF assms(2) ne] is_heap_butlast [OF assms(1)] ms [OF ne] l i(2) by simp
  next
    case False
    then have iL: "i < ?L" using i(1) by linarith
    define q1 where "q1 = swap_heap i ?L q"
    have L: "?L < length (heap q)" using ne by simp
    have q1: "index_ok q1" "same_entries q q1" "heap q1 \<noteq> []" "heap q1 = swapped (heap q) i ?L"
      using index_ok_swap [OF assms(2) i(1) L] same_entries_swap [OF i(1) L] iL ne
      by (simp_all add: q1_def heap_swap_heap)
    have l: "last (heap q1) = heap q ! i" using q1(3,4) i(1) L by (simp add: last_conv_nth nth_swapped)
    define q2 where "q2 = ?pop q1"
    have q2: "index_ok q2" "heap q2 = butlast (swapped (heap q) i ?L)" "i < length (heap q2)"
      using index_ok_pop [OF q1(1,3)] l i(2) q1(4) iL by (simp_all add: q2_def)
    have m2: "mset (heap q) = add_mset (heap q ! i) (mset (heap q2))"
      using ms [OF q1(3)] q1(2) l by (simp add: q2_def same_entries_def)
    have f2: "timers q2 = timers q" "timer_ops q2 = timer_ops q" "wait_ec q2 = wait_ec q" "wait_key q2 = wait_key q"
      using q1(2) by (simp_all add: q2_def same_entries_def)
    have q': "q' = (if 0 < i \<and> key (heap q2) i < key (heap q2) (par i) then up_heap i q2 else down_heap i q2)"
      using assms(3,4) False i ne by (simp add: remove_from_heap_def q1_def q2_def Let_def par_def)
    note rl = replace_with_last [OF assms(1) iL q2(2)]
    have "is_heap (heap q')"
      using up_heap_is_heap [OF rl(1) q2(3)] down_heap_is_heap [OF rl(2)] by (auto simp: q')
    moreover have "index_ok q' \<and> same_entries q2 q'"
      using up_heap_keeps [OF q2(1,3)] down_heap_keeps [OF q2(1,3)] by (simp add: q')
    ultimately show ?thesis using m2 f2 by (simp add: same_entries_def)
  qed
qed

section \<open>The invariant\<close>

text \<open>The heap is ordered and indexed, its timers are the active ones, and exactly those have waiting operations.\<close>

definition tq_core :: "timer_queue \<Rightarrow> bool" where
  "tq_core q \<longleftrightarrow> is_heap (heap q) \<and> index_ok q \<and> distinct (timers q) \<and> set (timers q) = snd ` set (heap q)"

definition tq_inv :: "timer_queue \<Rightarrow> bool" where
  "tq_inv q \<longleftrightarrow> tq_core q \<and> (\<forall>t. timer_ops q t \<noteq> [] \<longleftrightarrow> t \<in> set (timers q))"

lemma core_index:
  assumes "tq_core q" "t \<in> set (timers q)"
  obtains i where "i < length (heap q)" "snd (heap q ! i) = t" "heap_index q t = Some i"
  using assms unfolding tq_core_def index_ok_def by (metis (no_types, lifting) imageE in_set_conv_nth)

lemma distinct_heap_timers: "index_ok q \<Longrightarrow> distinct (map snd (heap q))"
  using index_ok_inj by (fastforce simp: distinct_conv_nth)

lemma remove_timer_correct:
  assumes "tq_core q" "i < length (heap q)" "snd (heap q ! i) = t" "q' = remove_timer t q"
  shows "tq_core q'" "mset (heap q) = add_mset (heap q ! i) (mset (heap q'))" "timers q' = remove1 t (timers q)"
    "timer_ops q' = timer_ops q" "wait_ec q' = wait_ec q" "wait_key q' = wait_key q" "t \<notin> set (timers q')"
proof -
  have ix: "heap_index q t = Some i" using assms(1-3) index_ok_nth [of q i] by (auto simp: tq_core_def)
  define q1 where "q1 = remove_from_heap t q"
  have r: "is_heap (heap q1)" "index_ok q1" "mset (heap q) = add_mset (heap q ! i) (mset (heap q1))"
    "timers q1 = timers q" "timer_ops q1 = timer_ops q" "wait_ec q1 = wait_ec q" "wait_key q1 = wait_key q"
    using remove_from_heap_correct [OF _ _ ix q1_def] assms(1) by (simp_all add: tq_core_def)
  have q': "q' = q1\<lparr>timers := remove1 t (timers q)\<rparr>" using assms(4) r(4) by (simp add: remove_timer_def q1_def)
  have tn: "t \<notin> snd ` set (heap q1)"
  proof -
    have "mset (map snd (heap q)) = mset (t # map snd (heap q1))" using r(3) assms(3) by simp
    moreover have "distinct (map snd (heap q))" using assms(1) by (simp add: tq_core_def distinct_heap_timers)
    ultimately have "distinct (t # map snd (heap q1))" using mset_eq_imp_distinct_iff by blast
    then show ?thesis by simp
  qed
  have "set (heap q) = insert (heap q ! i) (set (heap q1))" using r(3) by (metis set_mset_add_mset_insert set_mset_mset)
  then have "snd ` set (heap q1) = snd ` set (heap q) - {t}" using tn assms(3) by auto
  then show "tq_core q'" using r assms(1) by (simp add: tq_core_def q' index_ok_def)
  show "mset (heap q) = add_mset (heap q ! i) (mset (heap q'))" "timers q' = remove1 t (timers q)"
    "timer_ops q' = timer_ops q" "wait_ec q' = wait_ec q" "wait_key q' = wait_key q" "t \<notin> set (timers q')"
    using r q' assms(1) by (simp_all add: tq_core_def)
qed

lemma core_cong:
  "timers q' = timers q \<Longrightarrow> heap q' = heap q \<Longrightarrow> heap_index q' = heap_index q \<Longrightarrow> tq_core q' = tq_core q"
  by (simp add: tq_core_def index_ok_def)

lemma core_ops [simp]:
  "tq_core (q\<lparr>timer_ops := f\<rparr>) = tq_core q" "tq_core (q\<lparr>wait_ec := g\<rparr>) = tq_core q"
  by (simp_all add: tq_core_def index_ok_def)

lemma core_min:
  assumes "tq_core q" "e \<in> set (heap q)"
  shows "fst (heap q ! 0) \<le> fst e"
  using assms is_heap_min [of "heap q"] by (auto simp: tq_core_def in_set_conv_nth)

lemma core_inactive: "tq_core q \<Longrightarrow> t \<notin> set (timers q) \<Longrightarrow> heap_index q t = None"
  by (cases "heap_index q t") (force simp: tq_core_def index_ok_def)+

lemma timer_queue_new_inv: "tq_inv (timer_queue_new ecs keys)"
  by (simp add: timer_queue_new_def tq_inv_def tq_core_def is_heap_def index_ok_def)

text \<open>Taking the operations of an active timer and removing it.\<close>

lemma drop_timer_inv:
  assumes "tq_inv q" "t \<in> set (timers q)"
    and "q' = remove_timer t (q\<lparr>timer_ops := (timer_ops q)(t := []), wait_ec := f\<rparr>)"
  obtains i where "i < length (heap q)" "heap q ! i \<in> set (heap q)" "snd (heap q ! i) = t"
    "mset (heap q) = add_mset (heap q ! i) (mset (heap q'))" "tq_inv q'"
    "timer_ops q' = (timer_ops q)(t := [])" "wait_ec q' = f" "wait_key q' = wait_key q" "set (timers q') = set (timers q) - {t}"
proof -
  let ?q = "q\<lparr>timer_ops := (timer_ops q)(t := []), wait_ec := f\<rparr>"
  have core: "tq_core ?q" using assms(1) by (simp add: tq_inv_def core_cong [of ?q q])
  from core_index [OF core, of t] assms(2)
  obtain i where i: "i < length (heap ?q)" "snd (heap ?q ! i) = t" by auto
  note rm = remove_timer_correct [OF core i assms(3)]
  have set: "set (timers q') = set (timers q) - {t}"
    using rm(3) assms(1) by (simp add: tq_inv_def tq_core_def)
  have "tq_inv q'" using assms(1) rm(1,4) set by (auto simp: tq_inv_def)
  then show ?thesis using that [of i] i rm set by simp
qed

section \<open>Ready timers\<close>

definition tq_held :: "timer_queue \<Rightarrow> nat" where
  "tq_held q = (\<Sum>e\<leftarrow>heap q. length (timer_ops q (snd e)))"

definition waiting_ops :: "timer_queue \<Rightarrow> (int \<times> nat) list \<Rightarrow> nat list" where
  "waiting_ops q es = concat (map (\<lambda>e. timer_ops q (snd e)) es)"

lemma distinct_split:
  assumes "tq_core q" "mset (heap q) = mset es + mset h"
  shows "distinct (map snd es @ map snd h)"
proof -
  have "mset (map snd (heap q)) = mset (map snd es @ map snd h)" using assms(2) by simp
  then show ?thesis using mset_eq_imp_distinct_iff assms(1) distinct_heap_timers tq_core_def by blast
qed

lemma ready_loop_correct:
  assumes "tq_inv q" "length (heap q) \<le> fuel" "ready_loop fuel now q = (ops, q')"
  shows "\<exists>es. mset (heap q) = mset es + mset (heap q') \<and> sorted (map fst es) \<and> (\<forall>e\<in>set es. fst e \<le> now) \<and>
    (\<forall>e\<in>set (heap q'). now < fst e) \<and> ops = waiting_ops q es \<and> tq_inv q' \<and>
    timer_ops q' = (\<lambda>t. if t \<in> snd ` set es then [] else timer_ops q t) \<and>
    wait_ec q' = (\<lambda>x. if x \<in> set ops then 0 else wait_ec q x) \<and> wait_key q' = wait_key q"
  using assms
proof (induction fuel arbitrary: q ops q')
  case 0
  then show ?case by (intro exI [of _ "[]"]) (auto simp: waiting_ops_def)
next
  case (Suc fuel)
  show ?case
  proof (cases "heap q \<noteq> [] \<and> \<not> now < fst (heap q ! 0)")
    case False
    then have "ops = []" "q' = q" using Suc.prems(3) by (simp_all split: if_splits)
    moreover have "\<forall>e\<in>set (heap q). now < fst e"
      using False core_min [of q] Suc.prems(1) by (force simp: tq_inv_def)
    ultimately show ?thesis using Suc.prems(1) by (intro exI [of _ "[]"]) (auto simp: waiting_ops_def)
  next
    case True
    define t where "t = snd (heap q ! 0)"
    define f where "f = (\<lambda>x. if x \<in> set (timer_ops q t) then 0 else wait_ec q x)"
    define q1 where "q1 = remove_timer t (q\<lparr>timer_ops := (timer_ops q)(t := []), wait_ec := f\<rparr>)"
    obtain more where r: "ready_loop fuel now q1 = (more, q')" "ops = timer_ops q t @ more"
      using Suc.prems(3) True by (auto simp: Let_def q1_def t_def f_def split: prod.splits)
    have core: "tq_core q" using Suc.prems(1) by (simp add: tq_inv_def)
    have "heap q ! 0 \<in> set (heap q)" using True by simp
    then have "t \<in> set (timers q)" using core by (auto simp: tq_core_def t_def)
    then obtain i where i: "i < length (heap q)" "snd (heap q ! i) = t"
        "mset (heap q) = add_mset (heap q ! i) (mset (heap q1))" "tq_inv q1"
        "timer_ops q1 = (timer_ops q)(t := [])" "wait_ec q1 = f" "wait_key q1 = wait_key q"
      using drop_timer_inv [OF Suc.prems(1) _ q1_def] by metis
    have "i = 0" using i(1,2) True core index_ok_inj [of q i 0] by (auto simp: tq_core_def t_def)
    note i = i [unfolded this]
    have len: "length (heap q1) \<le> fuel" using i(3) Suc.prems(2) by (metis Suc_le_mono le_trans size_add_mset size_mset)
    from Suc.IH [OF i(4) len r(1)]
    obtain es where es: "mset (heap q1) = mset es + mset (heap q')" "sorted (map fst es)" "\<forall>e\<in>set es. fst e \<le> now"
        "\<forall>e\<in>set (heap q'). now < fst e" "more = waiting_ops q1 es" "tq_inv q'"
        "timer_ops q' = (\<lambda>t. if t \<in> snd ` set es then [] else timer_ops q1 t)"
        "wait_ec q' = (\<lambda>x. if x \<in> set more then 0 else wait_ec q1 x)" "wait_key q' = wait_key q1"
      by blast
    let ?es = "heap q ! 0 # es"
    have ms: "mset (heap q) = mset ?es + mset (heap q')" using i(3) es(1) by simp
    have sub: "set ?es \<subseteq> set (heap q)" using arg_cong [OF ms, of set_mset] by auto
    have nt: "t \<notin> snd ` set es" using distinct_split [OF core ms] by (simp add: t_def)
    have "waiting_ops q1 es = waiting_ops q es"
      using nt unfolding waiting_ops_def i(5) by (intro arg_cong [of _ _ concat] map_cong refl) force
    then have "ops = waiting_ops q ?es" using r(2) es(5) by (simp add: waiting_ops_def t_def)
    moreover have "sorted (map fst ?es)" using es(2) sub core_min [OF core] by auto
    moreover have "\<forall>e\<in>set ?es. fst e \<le> now" using es(3) True by auto
    moreover have "timer_ops q' = (\<lambda>u. if u \<in> snd ` set ?es then [] else timer_ops q u)"
      using es(7) i(5) by (auto simp: t_def fun_eq_iff)
    moreover have "wait_ec q' = (\<lambda>x. if x \<in> set ops then 0 else wait_ec q x)"
      using es(8) i(6) r(2) by (auto simp: f_def fun_eq_iff)
    ultimately show ?thesis using ms es(4,6,9) i(7) by (intro exI [of _ ?es]) simp
  qed
qed

lemma tq_held_mset: "tq_held q = sum_mset (image_mset (\<lambda>e. length (timer_ops q (snd e))) (mset (heap q)))"
  by (simp add: tq_held_def sum_mset_sum_list [symmetric])

lemma get_ready_count:
  assumes "tq_inv q" "get_ready_timers now q = (ops, q')"
  shows "length ops + tq_held q' = tq_held q" "tq_inv q'"
proof -
  from ready_loop_correct [OF assms(1) order_refl assms(2) [unfolded get_ready_timers_def]]
  obtain es where es: "mset (heap q) = mset es + mset (heap q')" "ops = waiting_ops q es" "tq_inv q'"
    "timer_ops q' = (\<lambda>t. if t \<in> snd ` set es then [] else timer_ops q t)" by blast
  have "\<forall>e\<in>set (heap q'). snd e \<notin> snd ` set es"
    using distinct_split [OF _ es(1)] assms(1) by (auto simp: tq_inv_def)
  then have "tq_held q' = (\<Sum>e\<leftarrow>heap q'. length (timer_ops q (snd e)))"
    using es(4) unfolding tq_held_def by (intro arg_cong [of _ _ sum_list] map_cong) auto
  moreover have "tq_held q = (\<Sum>e\<leftarrow>es @ heap q'. length (timer_ops q (snd e)))"
    using es(1) by (simp add: tq_held_mset sum_mset_sum_list [symmetric])
  moreover have "length ops = (\<Sum>e\<leftarrow>es. length (timer_ops q (snd e)))"
    by (simp add: es(2) waiting_ops_def length_concat comp_def)
  ultimately show "length ops + tq_held q' = tq_held q" by simp
  show "tq_inv q'" by (rule es(3))
qed

section \<open>Enqueueing, cancelling and moving\<close>

lemma heap_but_up_append: "is_heap h \<Longrightarrow> heap_but_up (h @ [e]) (length h)"
proof -
  assume h: "is_heap h"
  have p: "par i < length h" if "i < length (h @ [e])" "0 < i" for i
    using par_less [OF that(2)] that(1) by simp
  show ?thesis
    unfolding heap_but_up_def
  proof (intro conjI allI impI)
    fix i assume i: "i < length (h @ [e])" "0 < i" "i \<noteq> length h"
    then show "key (h @ [e]) (par i) \<le> key (h @ [e]) i" using h p [OF i(1,2)] by (simp add: is_heap_def nth_append)
  qed (use p in force)
qed

lemma enqueue_timer_inv:
  assumes "tq_inv q" "enqueue_timer time t x q = (first, q')"
  shows "tq_inv q'" "timer_ops q' = (timer_ops q)(t := timer_ops q t @ [x])" "set (timers q') = insert t (set (timers q))"
    "mset (heap q') = (if t \<in> set (timers q) then mset (heap q) else add_mset (time, t) (mset (heap q)))"
    "first \<longleftrightarrow> heap_index q' t = Some 0 \<and> timer_ops q t = []  \<or> heap_index q' t = Some 0 \<and> hd (timer_ops q t) = x"
proof -
  have inv: "tq_core q" "\<And>t. timer_ops q t \<noteq> [] \<longleftrightarrow> t \<in> set (timers q)" using assms(1) by (auto simp: tq_inv_def)
  define q1 where "q1 = q\<lparr>heap_index := (heap_index q)(t := Some (length (heap q))), heap := heap q @ [(time, t)]\<rparr>"
  define q2 where "q2 = (let q3 = up_heap (length (heap q)) q1 in q3\<lparr>timers := t # timers q3\<rparr>)"
  define q4 where "q4 = (if t \<in> set (timers q) then q else q2)"
  have q': "q' = q4\<lparr>timer_ops := (timer_ops q4)(t := timer_ops q4 t @ [x])\<rparr>"
    and first: "first \<longleftrightarrow> heap_index q4 t = Some 0 \<and> hd (timer_ops q4 t @ [x]) = x"
    using assms(2) by (auto simp: enqueue_timer_def Let_def q4_def q2_def q1_def)
  have q4: "tq_core q4 \<and> timer_ops q4 = timer_ops q \<and> set (timers q4) = insert t (set (timers q)) \<and>
    mset (heap q4) = (if t \<in> set (timers q) then mset (heap q) else add_mset (time, t) (mset (heap q)))"
  proof (cases "t \<in> set (timers q)")
    case True
    then show ?thesis using inv(1) by (auto simp: q4_def)
  next
    case False
    then have no: "heap_index q t = None" "t \<notin> snd ` set (heap q)"
      using core_inactive [OF inv(1)] inv(1) by (auto simp: tq_core_def)
    have "\<And>i. i < length (heap q) \<Longrightarrow> snd (heap q ! i) \<noteq> t" using no(2) by (metis image_eqI nth_mem)
    then have ix: "index_ok q1"
      using inv(1) by (auto simp: tq_core_def index_ok_def q1_def nth_append less_Suc_eq dest: less_not_refl2)
    have k: "length (heap q) < length (heap q1)" "heap_but_up (heap q1) (length (heap q))"
      using heap_but_up_append inv(1) by (simp_all add: q1_def tq_core_def)
    have up: "is_heap (heap (up_heap (length (heap q)) q1))" "index_ok (up_heap (length (heap q)) q1)"
      "same_entries q1 (up_heap (length (heap q)) q1)"
      using up_heap_is_heap [OF k(2,1)] up_heap_keeps [OF ix k(1)] by simp_all
    then have "mset (heap q2) = add_mset (time, t) (mset (heap q))" "timers q2 = t # timers q" "timer_ops q2 = timer_ops q"
      "is_heap (heap q2)" "index_ok q2"
      by (simp_all add: q2_def same_entries_def q1_def Let_def index_ok_def)
    moreover from this(1) have "set (heap q2) = insert (time, t) (set (heap q))"
      by (metis set_mset_add_mset_insert set_mset_mset)
    ultimately show ?thesis
      using False inv(1) by (auto simp: q4_def tq_core_def)
  qed
  then show "tq_inv q'" using inv by (auto simp: q' tq_inv_def)
  show "timer_ops q' = (timer_ops q)(t := timer_ops q t @ [x])" "set (timers q') = insert t (set (timers q))"
    "mset (heap q') = (if t \<in> set (timers q) then mset (heap q) else add_mset (time, t) (mset (heap q)))"
    using q4 by (simp_all add: q')
  show "first \<longleftrightarrow> heap_index q' t = Some 0 \<and> timer_ops q t = []  \<or> heap_index q' t = Some 0 \<and> hd (timer_ops q t) = x"
    using first q4 by (auto simp: q' hd_append)
qed

text \<open>The operations waiting, counted over the active timers.\<close>

lemma tq_held_timers:
  assumes "tq_core q"
  shows "tq_held q = (\<Sum>t\<in>set (timers q). length (timer_ops q t))"
proof -
  have "tq_held q = sum_list (map (\<lambda>t. length (timer_ops q t)) (map snd (heap q)))" by (simp add: tq_held_def comp_def)
  also have "\<dots> = (\<Sum>t\<in>set (map snd (heap q)). length (timer_ops q t))"
    using assms distinct_heap_timers by (intro sum_list_distinct_conv_sum_set) (auto simp: tq_core_def)
  finally show ?thesis using assms by (simp add: tq_core_def)
qed

lemma enqueue_held:
  assumes "tq_inv q" "enqueue_timer time t x q = (first, q')"
  shows "tq_held q' = tq_held q + 1"
proof -
  note e = enqueue_timer_inv [OF assms]
  have c: "tq_core q" "tq_core q'" "timer_ops q t \<noteq> [] \<longleftrightarrow> t \<in> set (timers q)" using assms(1) e(1) by (auto simp: tq_inv_def)
  have "tq_held q' = (\<Sum>u\<in>insert t (set (timers q)). length (timer_ops q' u))" using tq_held_timers [OF c(2)] e(3) by simp
  also have "\<dots> = length (timer_ops q' t) + (\<Sum>u\<in>set (timers q) - {t}. length (timer_ops q' u))"
    by (simp add: sum.insert_remove)
  also have "\<dots> = length (timer_ops q t) + (\<Sum>u\<in>set (timers q) - {t}. length (timer_ops q u)) + 1"
    by (simp add: e(2))
  also have "length (timer_ops q t) + (\<Sum>u\<in>set (timers q) - {t}. length (timer_ops q u)) = tq_held q"
    using c by (cases "t \<in> set (timers q)") (simp_all add: tq_held_timers sum.remove)
  finally show ?thesis by simp
qed

text \<open>Cancelling leaves some of the operations of an active timer; a timer without operations is removed.\<close>

definition leave_ops :: "nat \<Rightarrow> nat list \<Rightarrow> (nat \<Rightarrow> int) \<Rightarrow> timer_queue \<Rightarrow> timer_queue" where
  "leave_ops t rest f q =
     (let q = q\<lparr>timer_ops := (timer_ops q)(t := rest), wait_ec := f\<rparr>
      in if timer_ops q t = [] then remove_timer t q else q)"

lemma leave_ops_inv:
  assumes "tq_inv q" "t \<in> set (timers q)" "q' = leave_ops t rest f q"
  shows "tq_inv q'" "timer_ops q' = (timer_ops q)(t := rest)" "wait_ec q' = f" "wait_key q' = wait_key q"
    "set (timers q') = (if rest = [] then set (timers q) - {t} else set (timers q))"
    "tq_held q' + length (timer_ops q t) = tq_held q + length rest"
proof -
  have *: "tq_inv q' \<and> timer_ops q' = (timer_ops q)(t := rest) \<and> wait_ec q' = f \<and> wait_key q' = wait_key q \<and>
    set (timers q') = (if rest = [] then set (timers q) - {t} else set (timers q))"
  proof (cases "rest = []")
    case True
    then have "q' = remove_timer t (q\<lparr>timer_ops := (timer_ops q)(t := []), wait_ec := f\<rparr>)"
      using assms(3) by (simp add: leave_ops_def)
    from drop_timer_inv [OF assms(1,2) this]
    have "tq_inv q'" "timer_ops q' = (timer_ops q)(t := [])" "wait_ec q' = f" "wait_key q' = wait_key q"
      "set (timers q') = set (timers q) - {t}"
      by metis+
    then show ?thesis unfolding True by simp
  next
    case False
    then have "q' = q\<lparr>timer_ops := (timer_ops q)(t := rest), wait_ec := f\<rparr>" using assms(3) by (simp add: leave_ops_def)
    then show ?thesis using assms(1,2) False by (simp add: tq_inv_def)
  qed
  then have c: "tq_core q" "tq_core q'" using assms(1) by (simp_all add: tq_inv_def)
  have "tq_held q' = length rest + (\<Sum>u\<in>set (timers q) - {t}. length (timer_ops q u))"
    using * assms(2) by (simp add: tq_held_timers [OF c(2)] sum.remove [of _ t])
  moreover have "tq_held q = length (timer_ops q t) + (\<Sum>u\<in>set (timers q) - {t}. length (timer_ops q u))"
    using assms(2) by (simp add: tq_held_timers [OF c(1)] sum.remove [of _ t])
  ultimately show "tq_held q' + length (timer_ops q t) = tq_held q + length rest" by simp
  show "tq_inv q'" "timer_ops q' = (timer_ops q)(t := rest)" "wait_ec q' = f" "wait_key q' = wait_key q"
    "set (timers q') = (if rest = [] then set (timers q) - {t} else set (timers q))"
    by (simp_all only: *)
qed

text \<open>How many operations \<open>cancel_timer\<close> takes.\<close>

definition cancel_count :: "nat option \<Rightarrow> nat list \<Rightarrow> nat" where
  "cancel_count max_cancelled ops = (case max_cancelled of None \<Rightarrow> length ops | Some m \<Rightarrow> min m (length ops))"

lemma cancel_timer_eq:
  "cancel_timer t m q =
     (if t \<in> set (timers q) then
        let ops = take (cancel_count m (timer_ops q t)) (timer_ops q t)
        in (ops, leave_ops t (drop (cancel_count m (timer_ops q t)) (timer_ops q t))
                   (\<lambda>x. if x \<in> set ops then operation_aborted else wait_ec q x) q)
      else ([], q))"
  by (simp add: cancel_timer_def leave_ops_def Let_def cancel_count_def min_def split: option.splits)

lemma cancel_timer_by_key_eq:
  "cancel_timer_by_key t k q =
     (if t \<in> set (timers q) then
        let ops = filter (\<lambda>x. wait_key q x = k) (timer_ops q t)
        in (ops, leave_ops t (filter (\<lambda>x. wait_key q x \<noteq> k) (timer_ops q t))
                   (\<lambda>x. if x \<in> set ops then operation_aborted else wait_ec q x) q)
      else ([], q))"
  by (simp add: cancel_timer_by_key_def leave_ops_def Let_def)

lemma inactive_ops: "tq_inv q \<Longrightarrow> t \<notin> set (timers q) \<Longrightarrow> timer_ops q t = []"
  by (auto simp: tq_inv_def)

lemma cancel_timer_inv:
  assumes "tq_inv q" "cancel_timer t m q = (ops, q')"
  shows "tq_inv q'" "ops = take (cancel_count m (timer_ops q t)) (timer_ops q t)"
    "timer_ops q' = (timer_ops q)(t := drop (cancel_count m (timer_ops q t)) (timer_ops q t))"
    "wait_ec q' = (\<lambda>x. if x \<in> set ops then operation_aborted else wait_ec q x)"
    "length ops + tq_held q' = tq_held q"
proof -
  let ?n = "cancel_count m (timer_ops q t)"
  have le: "?n \<le> length (timer_ops q t)" by (simp add: cancel_count_def split: option.splits)
  consider (active) "t \<in> set (timers q)" "ops = take ?n (timer_ops q t)"
      "q' = leave_ops t (drop ?n (timer_ops q t)) (\<lambda>x. if x \<in> set ops then operation_aborted else wait_ec q x) q"
    | (idle) "timer_ops q t = []" "ops = []" "q' = q"
    using assms(2) inactive_ops [OF assms(1)] by (auto simp: cancel_timer_eq Let_def split: if_splits)
  then have "tq_inv q' \<and> ops = take ?n (timer_ops q t) \<and> timer_ops q' = (timer_ops q)(t := drop ?n (timer_ops q t)) \<and>
    wait_ec q' = (\<lambda>x. if x \<in> set ops then operation_aborted else wait_ec q x) \<and> length ops + tq_held q' = tq_held q"
  proof cases
    case active
    note l = leave_ops_inv [OF assms(1) active(1,3)]
    show ?thesis using l(1-3,6) active(2) le by simp
  next
    case idle
    then show ?thesis using assms(1) by auto
  qed
  then show "tq_inv q'" "ops = take ?n (timer_ops q t)" "timer_ops q' = (timer_ops q)(t := drop ?n (timer_ops q t))"
    "wait_ec q' = (\<lambda>x. if x \<in> set ops then operation_aborted else wait_ec q x)" "length ops + tq_held q' = tq_held q"
    by blast+
qed

lemma cancel_timer_by_key_inv:
  assumes "tq_inv q" "cancel_timer_by_key t k q = (ops, q')"
  shows "tq_inv q'" "length ops + tq_held q' = tq_held q"
proof -
  consider (active) "t \<in> set (timers q)" "ops = filter (\<lambda>x. wait_key q x = k) (timer_ops q t)"
      "q' = leave_ops t (filter (\<lambda>x. wait_key q x \<noteq> k) (timer_ops q t))
              (\<lambda>x. if x \<in> set ops then operation_aborted else wait_ec q x) q"
    | (idle) "ops = []" "q' = q"
    using assms(2) by (auto simp: cancel_timer_by_key_eq Let_def split: if_splits)
  then have "tq_inv q' \<and> length ops + tq_held q' = tq_held q"
  proof cases
    case active
    note l = leave_ops_inv [OF assms(1) active(1,3)]
    show ?thesis
      using l(1,6) active(2) sum_length_filter_compl [of "\<lambda>x. wait_key q x = k" "timer_ops q t"] by simp
  next
    case idle
    then show ?thesis using assms(1) by auto
  qed
  then show "tq_inv q'" "length ops + tq_held q' = tq_held q" by simp_all
qed

text \<open>Giving the heap entry of one timer to another that has none.\<close>

lemma rename_entry:
  assumes ix: "index_ok q" and "is_heap (heap q)" "i < length (heap q)" "snd (heap q ! i) = source"
    and "target \<noteq> source" "target \<notin> snd ` set (heap q)" "heap_index q target = None"
    and h: "heap q' = (heap q)[i := (key (heap q) i, target)]"
    and f: "heap_index q' = (heap_index q)(target := Some i, source := None)"
  shows "is_heap (heap q')" "index_ok q'" "snd ` set (heap q') = insert target (snd ` set (heap q) - {source})"
proof -
  have key: "key (heap q') j = key (heap q) j" if "j < length (heap q)" for j
    using that by (cases "j = i") (simp_all add: h)
  show "is_heap (heap q')"
    unfolding is_heap_def
  proof (intro allI impI)
    fix j assume j: "j < length (heap q')" "0 < j"
    then have "par j < length (heap q)" "j < length (heap q)" using par_less [OF j(2)] by (simp_all add: h)
    then show "key (heap q') (par j) \<le> key (heap q') j" using key assms(2) j by (simp add: is_heap_def)
  qed
  have other: "snd (heap q ! j) \<noteq> source" "snd (heap q ! j) \<noteq> target" if "j < length (heap q)" "j \<noteq> i" for j
    using index_ok_inj [OF ix that(1) assms(3)] that assms(4,6) by (auto simp: image_iff dest: nth_mem)
  show "index_ok q'"
    unfolding index_ok_def
  proof (intro conjI allI impI)
    fix j assume "j < length (heap q')"
    then show "heap_index q' (snd (heap q' ! j)) = Some j"
      using other [of j] index_ok_nth [OF ix, of j] assms(3-5) by (cases "j = i") (simp_all add: h f)
  next
    fix t j assume a: "heap_index q' t = Some j"
    show "j < length (heap q')" "snd (heap q' ! j) = t"
      using a assms(3-5) ix other [of j] by (auto simp: h f index_ok_def nth_list_update split: if_splits)
  qed
  have "set (map snd (heap q')) = set ((map snd (heap q))[i := target])" by (simp add: h map_update)
  also have "\<dots> = insert target (set (map snd (heap q)) - {map snd (heap q) ! i})"
    using set_update_distinct [OF distinct_heap_timers [OF ix]] assms(3) by simp
  finally show "snd ` set (heap q') = insert target (snd ` set (heap q) - {source})" using assms(3,4) by simp
qed

lemma move_timer_inv:
  assumes "tq_inv q" "target \<noteq> source" "target \<notin> set (timers q)" "q' = move_timer target source q"
  shows "tq_inv q'" "timer_ops q' = (timer_ops q)(target := timer_ops q source, source := [])" "tq_held q' = tq_held q"
proof -
  let ?ren = "\<lambda>t. if t = source then target else t"
  have c: "tq_core q" "\<And>t. timer_ops q t \<noteq> [] \<longleftrightarrow> t \<in> set (timers q)" using assms(1) by (auto simp: tq_inv_def)
  have tgt: "timer_ops q target = []" "heap_index q target = None" "target \<notin> snd ` set (heap q)"
    using inactive_ops [OF assms(1,3)] core_inactive [OF c(1) assms(3)] c(1) assms(3) by (auto simp: tq_core_def)
  have fields: "timers q' = map ?ren (timers q)"
    "timer_ops q' = (timer_ops q)(target := timer_ops q source, source := [])"
    "heap_index q' = (heap_index q)(target := heap_index q source, source := None)"
    using assms(2,4) tgt(1) by (auto simp: move_timer_def Let_def split: option.splits)
  have set: "set (timers q') = ?ren ` set (timers q)" by (simp add: fields)
  have inj: "inj_on ?ren (set (timers q))" using assms(3) by (auto simp: inj_on_def)
  have "is_heap (heap q') \<and> index_ok q' \<and> set (timers q') = snd ` set (heap q')"
  proof (cases "source \<in> set (timers q)")
    case False
    then have "heap_index q source = None" using core_inactive [OF c(1)] by auto
    then have "heap q' = heap q" "heap_index q' = heap_index q" "timers q' = timers q"
      using assms(4) False tgt(2) fields by (auto simp: move_timer_def Let_def intro!: map_idI)
    then show ?thesis using c(1) by (simp add: tq_core_def index_ok_def)
  next
    case True
    obtain i where i: "i < length (heap q)" "snd (heap q ! i) = source" "heap_index q source = Some i"
      using core_index [OF c(1) True] .
    have h: "heap q' = (heap q)[i := (key (heap q) i, target)]" using assms(2,4) i by (simp add: move_timer_def Let_def)
    note r = rename_entry [OF _ _ i(1,2) assms(2) tgt(3,2) h fields(3) [unfolded i(3)]]
    have "set (timers q') = insert target (snd ` set (heap q) - {source})" using c(1) True by (auto simp: set tq_core_def)
    then show ?thesis using r c(1) by (simp add: tq_core_def)
  qed
  then have core: "tq_core q'" using c(1) inj by (simp add: tq_core_def fields(1) distinct_map)
  have ops: "timer_ops q' t \<noteq> [] \<longleftrightarrow> t \<in> set (timers q')" for t
    using c(2) assms(2,3) by (auto simp: set fields image_iff)
  show "tq_inv q'" using core ops by (simp add: tq_inv_def)
  show "timer_ops q' = (timer_ops q)(target := timer_ops q source, source := [])" by (rule fields(2))
  have "tq_held q' = (\<Sum>t\<in>set (timers q). length (timer_ops q' (?ren t)))"
    by (simp only: tq_held_timers [OF core] set sum.reindex [OF inj] comp_def)
  also have "\<dots> = (\<Sum>t\<in>set (timers q). length (timer_ops q t))"
    using assms(2,3) by (intro sum.cong) (auto simp: fields)
  finally show "tq_held q' = tq_held q" by (simp add: tq_held_timers [OF c(1)])
qed

section \<open>Time arithmetic\<close>

text \<open>The additions and subtractions of the time traits saturate.\<close>

definition clamp_time :: "int \<Rightarrow> int" where
  "clamp_time t = max TIME_MIN (min TIME_MAX t)"

lemma time_add_clamp: "in_time_range t \<Longrightarrow> in_time_range d \<Longrightarrow> time_add t d = clamp_time (t + d)"
  by (auto simp: time_add_def clamp_time_def in_time_range_def)

lemma time_subtract_clamp:
  "in_time_range t1 \<Longrightarrow> in_time_range t2 \<Longrightarrow> time_subtract t1 t2 = clamp_time (t1 - t2)"
  by (auto simp: time_subtract_def clamp_time_def in_time_range_def)

lemma nanosecond_casts:
  "total_seconds ticks = ticks sdiv 1000000000" "total_milliseconds ticks = ticks sdiv 1000000"
  "total_microseconds ticks = ticks sdiv 1000"
proof -
  have g: "gcd 1000000000 1 = (1 :: int)" "gcd 1000000000 1000 = (1000 :: int)" "gcd 1000000000 1000000 = (1000000 :: int)"
    by (simp_all add: gcd_non_0_int)
  show "total_seconds ticks = ticks sdiv 1000000000" "total_milliseconds ticks = ticks sdiv 1000000"
    "total_microseconds ticks = ticks sdiv 1000"
    by (simp_all add: total_seconds_def total_milliseconds_def total_microseconds_def duration_cast_def g sdiv_pos)
qed

lemma to_msec_bounds: "d \<ge> 0 \<Longrightarrow> 0 \<le> to_msec ticks d \<and> to_msec ticks d \<le> max d 1"
  by (auto simp: to_msec_def Let_def nanosecond_casts sdiv_pos)

lemma to_usec_bounds: "d \<ge> 0 \<Longrightarrow> 0 \<le> to_usec ticks d \<and> to_usec ticks d \<le> max d 1"
  by (auto simp: to_usec_def Let_def nanosecond_casts sdiv_pos)

lemma wait_duration_bounds:
  "d \<ge> 0 \<Longrightarrow> 0 \<le> wait_duration_msec now d q \<and> wait_duration_msec now d q \<le> max d 1"
  "d \<ge> 0 \<Longrightarrow> 0 \<le> wait_duration_usec now d q \<and> wait_duration_usec now d q \<le> max d 1"
  using to_msec_bounds to_usec_bounds by (auto simp: wait_duration_msec_def wait_duration_usec_def)

section \<open>Reachable queues\<close>

text \<open>The calls of the reactor: an operation waits on a timer, the ready timers are taken, a timer is cancelled,
  some operations of it are, or a timer is moved to one that is not active.\<close>

inductive timer_step :: "timer_queue \<Rightarrow> timer_queue \<Rightarrow> bool" where
  step_enqueue: "timer_step q (snd (enqueue_timer time t x q))"
| step_ready: "timer_step q (snd (get_ready_timers now q))"
| step_cancel: "timer_step q (snd (cancel_timer t m q))"
| step_cancel_by_key: "timer_step q (snd (cancel_timer_by_key t k q))"
| step_move: "target \<noteq> source \<Longrightarrow> target \<notin> set (timers q) \<Longrightarrow> timer_step q (move_timer target source q)"

lemma timer_step_inv: "timer_step q q' \<Longrightarrow> tq_inv q \<Longrightarrow> tq_inv q'"
proof (induction rule: timer_step.induct)
  case (step_move target source q)
  then show ?case using move_timer_inv(1) by blast
qed (use enqueue_timer_inv(1) get_ready_count(2) cancel_timer_inv(1) cancel_timer_by_key_inv(1) in \<open>metis prod.collapse\<close>)+

lemma timer_steps_inv: "timer_step\<^sup>*\<^sup>* q q' \<Longrightarrow> tq_inv q \<Longrightarrow> tq_inv q'"
  by (induction rule: rtranclp_induct) (auto intro: timer_step_inv)

section \<open>Properties\<close>

text \<open>C36. In every queue reached from a new one the heap is ordered with its earliest timer at the
  front, every active timer knows its place in the heap and no other timer has one, each active timer is in the
  heap and in the list once, and a timer is active exactly when operations wait on it.\<close>

theorem timer_queue_invariant:
  assumes "timer_step\<^sup>*\<^sup>* (timer_queue_new ecs keys) q"
  shows "tq_inv q \<and> (\<forall>e\<in>set (heap q). fst (heap q ! 0) \<le> fst e)"
proof -
  have "tq_inv q" using timer_steps_inv [OF assms timer_queue_new_inv] .
  then show ?thesis using core_min [of q] by (simp add: tq_inv_def)
qed

text \<open>\<open>get_ready_timers\<close> takes exactly the timers that have expired: the heap entries split
  into those not later than now, visited in the order of their expiry, and those later than now, which stay; it
  returns the waiting operations of the former, timer by timer and in the order they were enqueued, with their
  error codes cleared, and touches no other operation.\<close>

theorem get_ready_timers_in_order:
  assumes "tq_inv q" "get_ready_timers now q = (ops, q')"
  shows "\<exists>es. mset (heap q) = mset es + mset (heap q') \<and> sorted (map fst es) \<and> (\<forall>e\<in>set es. fst e \<le> now) \<and>
    (\<forall>e\<in>set (heap q'). now < fst e) \<and> ops = waiting_ops q es \<and> tq_inv q' \<and>
    timer_ops q' = (\<lambda>t. if t \<in> snd ` set es then [] else timer_ops q t) \<and>
    wait_ec q' = (\<lambda>x. if x \<in> set ops then 0 else wait_ec q x) \<and> wait_key q' = wait_key q"
  using ready_loop_correct [OF assms(1) order_refl assms(2) [unfolded get_ready_timers_def]] .

section \<open>A concrete queue\<close>

text \<open>Three timers, expiring at 30, 10 and 20; two operations wait on the second.\<close>

definition demo_queue :: timer_queue where
  "demo_queue =
     (let q = timer_queue_new (\<lambda>_. 7) (\<lambda>_. 0);
          q = snd (enqueue_timer 30 1 101 q);
          q = snd (enqueue_timer 10 2 102 q);
          q = snd (enqueue_timer 20 3 103 q)
      in snd (enqueue_timer 99 2 104 q))"

lemma demo_queue_reachable: "timer_step\<^sup>*\<^sup>* (timer_queue_new (\<lambda>_. 7) (\<lambda>_. 0)) demo_queue"
  unfolding demo_queue_def Let_def
  by (rule rtranclp.rtrancl_into_rtrancl, rule rtranclp.rtrancl_into_rtrancl, rule rtranclp.rtrancl_into_rtrancl,
      rule rtranclp.rtrancl_into_rtrancl, rule rtranclp.rtrancl_refl) (rule step_enqueue)+

lemma demo_queue_heap: "heap demo_queue = [(10, 2), (30, 1), (20, 3)]"
  by code_simp

lemma demo_queue_ready: "fst (get_ready_timers 20 demo_queue) = [102, 104, 103]" "heap (snd (get_ready_timers 20 demo_queue)) = [(30, 1)]"
  by code_simp+

theorem timer_queue_invariant_witness: "tq_inv demo_queue \<and> fst (heap demo_queue ! 0) = 10"
  using timer_queue_invariant [OF demo_queue_reachable] by (simp add: demo_queue_heap)


theorem get_ready_timers_in_order_witness:
  "\<exists>es ops q'. get_ready_timers 20 demo_queue = (ops, q') \<and> sorted (map fst es) \<and> ops = waiting_ops demo_queue es \<and>
     ops = [102, 104, 103] \<and> heap q' = [(30, 1)] \<and> tq_inv q' \<and> wait_ec q' 104 = 0 \<and> wait_ec q' 101 = 7"
proof -
  obtain ops q' where g: "get_ready_timers 20 demo_queue = (ops, q')" by fastforce
  have ops: "ops = [102, 104, 103]" "heap q' = [(30, 1)]"
    using demo_queue_ready g by simp_all
  have "tq_inv demo_queue" by (rule timer_steps_inv [OF demo_queue_reachable timer_queue_new_inv])
  from get_ready_timers_in_order [OF this g] obtain es where es: "sorted (map fst es)" "ops = waiting_ops demo_queue es"
    "tq_inv q'" "wait_ec q' = (\<lambda>x. if x \<in> set ops then 0 else wait_ec demo_queue x)" by blast
  moreover have "wait_ec demo_queue 101 = 7" by code_simp
  then have "wait_ec q' 104 = 0" "wait_ec q' 101 = 7" by (simp_all add: es(4) ops(1))
  ultimately show ?thesis using g ops by blast
qed

end
