(* ===== verification/AsioTimers.thy ===== *)
theory AsioTimers
  imports AsioTimerQueue
begin

text \<open>
  The timer operations of the reactor (\<^verbatim>\<open>include/asio/detail/impl/epoll_reactor.hpp\<close>) on the timer queues of
  \<open>AsioTimerQueue\<close>. A queue is one of the reactor's, named by its identity: the service that owns it adds it in its
  constructor and removes it in its destructor. The theory discharges the interface \<open>timer_queue_base\<close> for the timer
  queue and shows that the timer operations keep the count of outstanding work.
\<close>

section \<open>Operations\<close>

definition set_timer_queue :: "nat \<Rightarrow> timer_queue \<Rightarrow> (timer_queue, 'k) io \<Rightarrow> (timer_queue, 'k) io" where
  "set_timer_queue i q s =
     s\<lparr>world := (world s)\<lparr>timer_queues := map (\<lambda>p. if fst p = i then (i, q) else p) (timer_queues (world s))\<rparr>\<rparr>"

definition reactor_schedule_timer ::
  "(timer_queue, 'k) reactor_env \<Rightarrow> nat \<Rightarrow> int \<Rightarrow> nat \<Rightarrow> nat \<Rightarrow> (timer_queue, 'k) io \<Rightarrow> (timer_queue, 'k) io" where
  "reactor_schedule_timer env queue time timer x s =
     (if r_shutdown (world s) then post_immediate_completion (reactor_interrupt env) (ClientOp x) False s
      else case map_of (timer_queues (world s)) queue of
          None \<Rightarrow> s
        | Some q \<Rightarrow>
            let (earliest, q) = enqueue_timer time timer x q;
                s = work_started (set_timer_queue queue q s)
            in if earliest then s\<lparr>world := update_timeout env (world s)\<rparr> else s)"

definition reactor_cancel_timer ::
  "(timer_queue, 'k) reactor_env \<Rightarrow> nat \<Rightarrow> nat \<Rightarrow> nat option \<Rightarrow> (timer_queue, 'k) io \<Rightarrow> nat \<times> (timer_queue, 'k) io" where
  "reactor_cancel_timer env queue timer max_cancelled s =
     (case map_of (timer_queues (world s)) queue of
        None \<Rightarrow> (0, s)
      | Some q \<Rightarrow>
          let (ops, q) = AsioTimerQueue.cancel_timer timer max_cancelled q;
              s = set_timer_queue queue q s
          in (length ops, post_deferred_completions (reactor_interrupt env) (map ClientOp ops) s))"

definition reactor_cancel_timer_by_key ::
  "(timer_queue, 'k) reactor_env \<Rightarrow> nat \<Rightarrow> nat \<Rightarrow> nat \<Rightarrow> (timer_queue, 'k) io \<Rightarrow> (timer_queue, 'k) io" where
  "reactor_cancel_timer_by_key env queue timer ckey s =
     (case map_of (timer_queues (world s)) queue of
        None \<Rightarrow> s
      | Some q \<Rightarrow>
          let (ops, q) = AsioTimerQueue.cancel_timer_by_key timer ckey q;
              s = set_timer_queue queue q s
          in post_deferred_completions (reactor_interrupt env) (map ClientOp ops) s)"

definition reactor_move_timer ::
  "(timer_queue, 'k) reactor_env \<Rightarrow> nat \<Rightarrow> nat \<Rightarrow> nat \<Rightarrow> (timer_queue, 'k) io \<Rightarrow> (timer_queue, 'k) io" where
  "reactor_move_timer env queue target source s =
     (case map_of (timer_queues (world s)) queue of
        None \<Rightarrow> s
      | Some q \<Rightarrow>
          let (ops, q) = AsioTimerQueue.cancel_timer target None q;
              q = move_timer target source q;
              s = set_timer_queue queue q s
          in post_deferred_completions (reactor_interrupt env) (map ClientOp ops) s)"

text \<open>The virtual functions of the timer queue, at a time \<open>now\<close>.\<close>

definition timer_env :: "'k os \<Rightarrow> (nat \<Rightarrow> int \<Rightarrow> 'k \<Rightarrow> perform_status \<times> int \<times> 'k) \<Rightarrow> int \<Rightarrow> (timer_queue, 'k) reactor_env" where
  "timer_env os perform now =
     \<lparr>the_os = os, tq_empty = tq_is_empty, tq_wait_duration_msec = wait_duration_msec now,
      tq_wait_duration_usec = wait_duration_usec now, tq_get_ready_timers = get_ready_timers now,
      tq_get_all_timers = get_all_timers, op_perform = perform\<rparr>"

section \<open>The interface of the timer queue\<close>

interpretation tqb: timer_queue_base "timer_env os perform now" tq_inv tq_held
proof unfold_locales
  fix q assume "tq_inv q"
  then show "length (fst (tq_get_ready_timers (timer_env os perform now) q)) +
      tq_held (snd (tq_get_ready_timers (timer_env os perform now) q)) = tq_held q"
    "tq_inv (snd (tq_get_ready_timers (timer_env os perform now) q))"
    using get_ready_count [of q now, OF _ prod.collapse [symmetric]] by (simp_all add: timer_env_def)
qed (use wait_duration_bounds in \<open>simp_all add: timer_env_def\<close>)

section \<open>Accounting\<close>

lemma timers_held_set:
  assumes "distinct (map fst (timer_queues (world s)))" "map_of (timer_queues (world s)) i = Some q"
  shows "timers_held tc (world (set_timer_queue i q' s)) = timers_held tc (world s) - int (tc q) + int (tc q')"
proof -
  have "int (\<Sum>p\<leftarrow>map (\<lambda>p. if fst p = i then (i, q') else p) qs. tc (snd p)) =
      int (\<Sum>p\<leftarrow>qs. tc (snd p)) - int (tc q) + int (tc q')"
    if "distinct (map fst qs)" "map_of qs i = Some q" for qs
    using that
  proof (induction qs)
    case (Cons p qs)
    show ?case
    proof (cases "fst p = i")
      case True
      then have "map (\<lambda>p. if fst p = i then (i, q') else p) qs = qs"
        using Cons.prems(1) by (intro map_idI) (force simp: image_iff)
      then show ?thesis using True Cons.prems(2) by simp
    qed (use Cons in auto)
  qed simp
  then show ?thesis using assms by (simp add: timers_held_def set_timer_queue_def)
qed

lemma set_timer_queue_frame [io_frame]:
  "ds (world (set_timer_queue i q s)) = ds (world s)" "op_q (set_timer_queue i q s) = op_q s"
  "private_q (set_timer_queue i q s) = private_q s" "private_work (set_timer_queue i q s) = private_work s"
  "outstanding_work (set_timer_queue i q s) = outstanding_work s"
  "held_elsewhere P (set_timer_queue i q s) = held_elsewhere P s"
  by (simp_all add: set_timer_queue_def held_elsewhere_def ops_queued_def)

lemma balance_set_timer_queue [simp]: "work_balance D (set_timer_queue i q s) = work_balance D s"
  by (rule balance_cong) (simp_all add: io_frame)

lemma timer_queues_update_timeout [io_frame]:
  "timer_queues (update_timeout env r) = timer_queues r" "ds (update_timeout env r) = ds r"
  by (simp_all add: update_timeout_def io_frame)

lemma timers_held_cong: "timer_queues r = timer_queues r' \<Longrightarrow> timers_held tc r = timers_held tc r'"
  by (simp add: timers_held_def)

text \<open>Posting operations taken from a queue.\<close>

lemma post_taken_balance:
  assumes "distinct (map fst (timer_queues (world s)))" "map_of (timer_queues (world s)) i = Some q"
    and "length ops + tq_held q' = tq_held q"
  shows "io_balance D tq_held (post_deferred_completions (reactor_interrupt env) (map ClientOp ops) (set_timer_queue i q' s)) =
    io_balance D tq_held s"
proof -
  have "timers_held tq_held (world (post_deferred_completions (reactor_interrupt env) (map ClientOp ops) (set_timer_queue i q' s))) =
      timers_held tq_held (world s) - int (length ops)"
    using timers_held_set [OF assms(1,2), of tq_held q'] assms(3)
    by (simp add: timers_held_def io_frame)
  then show ?thesis by (simp add: io_balance_def balance_post_deferreds)
qed

lemma schedule_timer_balance:
  assumes "distinct (map fst (timer_queues (world s)))" "\<And>q. map_of (timer_queues (world s)) i = Some q \<Longrightarrow> tq_inv q"
  shows "io_balance D tq_held (reactor_schedule_timer env i time t x s) = io_balance D tq_held s"
proof (cases "r_shutdown (world s)")
  case True
  have "timer_queues (world (post_immediate_completion (reactor_interrupt env) (ClientOp x) False s)) = timer_queues (world s)"
    by (simp add: post_immediate_completion_def work_started_def io_frame)
  then show ?thesis
    using True by (simp add: reactor_schedule_timer_def io_balance_def timers_held_def)
next
  case False
  show ?thesis
  proof (cases "map_of (timer_queues (world s)) i")
    case None
    then show ?thesis using False by (simp add: reactor_schedule_timer_def)
  next
    case (Some q)
    obtain e q' where e: "enqueue_timer time t x q = (e, q')" by fastforce
    have h: "tq_held q' = tq_held q + 1" using enqueue_held [OF assms(2) [OF Some] e] .
    let ?s = "work_started (set_timer_queue i q' s)"
    have "work_balance D ?s = work_balance D s + 1"
      by (simp add: work_balance_def ops_held_def held_simps io_frame) (simp add: work_started_def io_frame)
    moreover have "timers_held tq_held (world ?s) = timers_held tq_held (world s) + 1"
      using timers_held_set [OF assms(1) Some, of tq_held q'] h by (simp add: work_started_def)
    ultimately have b: "io_balance D tq_held ?s = io_balance D tq_held s" by (simp add: io_balance_def)
    have "io_balance D tq_held (?s\<lparr>world := update_timeout env (world ?s)\<rparr>) = io_balance D tq_held ?s"
      using balance_world [of "update_timeout env (world ?s)" ?s D] timers_held_cong [of "update_timeout env (world ?s)" "world ?s" tq_held]
      by (simp add: io_balance_def io_frame)
    then show ?thesis using False Some e b by (simp add: reactor_schedule_timer_def Let_def)
  qed
qed

lemma cancel_timer_balance:
  assumes "distinct (map fst (timer_queues (world s)))" "\<And>q. map_of (timer_queues (world s)) i = Some q \<Longrightarrow> tq_inv q"
  shows "io_balance D tq_held (snd (reactor_cancel_timer env i t m s)) = io_balance D tq_held s"
    and "io_balance D tq_held (reactor_cancel_timer_by_key env i t k s) = io_balance D tq_held s"
    and "t \<noteq> u \<Longrightarrow> io_balance D tq_held (reactor_move_timer env i t u s) = io_balance D tq_held s"
proof -
  have "io_balance D tq_held (snd (reactor_cancel_timer env i t m s)) = io_balance D tq_held s \<and>
    io_balance D tq_held (reactor_cancel_timer_by_key env i t k s) = io_balance D tq_held s \<and>
    (t \<noteq> u \<longrightarrow> io_balance D tq_held (reactor_move_timer env i t u s) = io_balance D tq_held s)"
  proof (cases "map_of (timer_queues (world s)) i")
    case None
    then show ?thesis by (simp add: reactor_cancel_timer_def reactor_cancel_timer_by_key_def reactor_move_timer_def)
  next
    case (Some q)
    obtain ops1 q1 where 1: "AsioTimerQueue.cancel_timer t m q = (ops1, q1)" by fastforce
    obtain ops2 q2 where 2: "AsioTimerQueue.cancel_timer_by_key t k q = (ops2, q2)" by fastforce
    obtain ops3 q3 where 3: "AsioTimerQueue.cancel_timer t None q = (ops3, q3)" by fastforce
    note inv = assms(2) [OF Some]
    note post = post_taken_balance [OF assms(1) Some]
    have n: "t \<notin> set (timers q3)"
      using cancel_timer_inv(1,3) [OF inv 3] unfolding tq_inv_def cancel_count_def by (metis drop_all fun_upd_same option.simps(4) order_refl)
    have "t \<noteq> u \<Longrightarrow> tq_held (move_timer t u q3) = tq_held q3"
      using move_timer_inv(3) [OF cancel_timer_inv(1) [OF inv 3] _ n refl] .
    then show ?thesis
      using Some 1 2 3 post [OF cancel_timer_inv(5) [OF inv 1]] post [OF cancel_timer_by_key_inv(2) [OF inv 2]]
        post [of ops3 "move_timer t u q3"] cancel_timer_inv(5) [OF inv 3]
      by (simp add: reactor_cancel_timer_def reactor_cancel_timer_by_key_def reactor_move_timer_def)
  qed
  then show "io_balance D tq_held (snd (reactor_cancel_timer env i t m s)) = io_balance D tq_held s"
    "io_balance D tq_held (reactor_cancel_timer_by_key env i t k s) = io_balance D tq_held s"
    "t \<noteq> u \<Longrightarrow> io_balance D tq_held (reactor_move_timer env i t u s) = io_balance D tq_held s"
    by blast+
qed

end
