(* ===== verification/AsioSocketOps.thy ===== *)
theory AsioSocketOps
  imports AsioReactor Protocol
begin

text \<open>
  The socket functions of the vendored Asio (\<^verbatim>\<open>include/asio/detail/impl/socket_ops.ipp\<close>) as they are compiled on
  Linux: opening, closing, binding and connecting, the blocking mode, socket options, and sending and receiving in
  the blocking and the non-blocking variants. The system calls are fields of a record over a kernel state of any
  type; a call returns its result, \<open>errno\<close>, what it writes and the new kernel state, and \<open>poll\<close> may never return
  (\<open>None\<close>). An error code is an integer: the number of a system error, 0 for no error, the negated number of an
  error of Asio's own category. Addresses and option values are byte sequences.
\<close>

section \<open>System calls and constants\<close>

record 'k sock_sys =
  sys_socket :: "int \<Rightarrow> int \<Rightarrow> int \<Rightarrow> 'k \<Rightarrow> int \<times> int \<times> 'k"
  sys_socketpair :: "int \<Rightarrow> int \<Rightarrow> int \<Rightarrow> 'k \<Rightarrow> int \<times> int \<times> (int \<times> int) \<times> 'k"
  sys_accept :: "int \<Rightarrow> nat option \<Rightarrow> 'k \<Rightarrow> int \<times> int \<times> bytes \<times> 'k"
  sys_bind :: "int \<Rightarrow> bytes \<Rightarrow> 'k \<Rightarrow> int \<times> int \<times> 'k"
  sys_listen :: "int \<Rightarrow> int \<Rightarrow> 'k \<Rightarrow> int \<times> int \<times> 'k"
  sys_connect :: "int \<Rightarrow> bytes \<Rightarrow> 'k \<Rightarrow> int \<times> int \<times> 'k"
  sys_shutdown :: "int \<Rightarrow> int \<Rightarrow> 'k \<Rightarrow> int \<times> int \<times> 'k"
  sys_sock_close :: "int \<Rightarrow> 'k \<Rightarrow> int \<times> int \<times> 'k"
  sys_ioctl :: "int \<Rightarrow> int \<Rightarrow> int \<Rightarrow> 'k \<Rightarrow> int \<times> int \<times> int \<times> 'k"    \<comment> \<open>descriptor, request, argument; the argument after\<close>
  sys_getfl :: "int \<Rightarrow> 'k \<Rightarrow> int \<times> int \<times> 'k"
  sys_setfl :: "int \<Rightarrow> int \<Rightarrow> 'k \<Rightarrow> int \<times> int \<times> 'k"
  sys_recv :: "int \<Rightarrow> nat \<Rightarrow> int \<Rightarrow> 'k \<Rightarrow> int \<times> int \<times> bytes \<times> 'k"
  sys_recvfrom :: "int \<Rightarrow> nat \<Rightarrow> int \<Rightarrow> nat \<Rightarrow> 'k \<Rightarrow> int \<times> int \<times> (bytes \<times> bytes) \<times> 'k"
  sys_recvmsg :: "int \<Rightarrow> nat list \<Rightarrow> nat \<Rightarrow> int \<Rightarrow> 'k \<Rightarrow> int \<times> int \<times> (bytes \<times> bytes \<times> int) \<times> 'k"
  sys_send :: "int \<Rightarrow> bytes \<Rightarrow> int \<Rightarrow> 'k \<Rightarrow> int \<times> int \<times> 'k"
  sys_sendto :: "int \<Rightarrow> bytes \<Rightarrow> int \<Rightarrow> bytes \<Rightarrow> 'k \<Rightarrow> int \<times> int \<times> 'k"
  sys_sendmsg :: "int \<Rightarrow> bytes list \<Rightarrow> bytes \<Rightarrow> int \<Rightarrow> 'k \<Rightarrow> int \<times> int \<times> 'k"
  sys_setsockopt :: "int \<Rightarrow> int \<Rightarrow> int \<Rightarrow> bytes \<Rightarrow> 'k \<Rightarrow> int \<times> int \<times> 'k"
  sys_getsockopt :: "int \<Rightarrow> int \<Rightarrow> int \<Rightarrow> nat \<Rightarrow> 'k \<Rightarrow> int \<times> int \<times> bytes \<times> 'k"
  sys_getpeername :: "int \<Rightarrow> nat \<Rightarrow> 'k \<Rightarrow> int \<times> int \<times> bytes \<times> 'k"
  sys_getsockname :: "int \<Rightarrow> nat \<Rightarrow> 'k \<Rightarrow> int \<times> int \<times> bytes \<times> 'k"
  sys_poll :: "int \<Rightarrow> int \<Rightarrow> int \<Rightarrow> 'k \<Rightarrow> (int \<times> int \<times> 'k) option"

abbreviation invalid_socket :: int where "invalid_socket \<equiv> -1"
abbreviation socket_error_retval :: int where "socket_error_retval \<equiv> -1"

abbreviation would_block :: int where "would_block \<equiv> 11"
abbreviation try_again :: int where "try_again \<equiv> 11"
abbreviation interrupted :: int where "interrupted \<equiv> 4"
abbreviation connection_aborted :: int where "connection_aborted \<equiv> 103"
abbreviation in_progress :: int where "in_progress \<equiv> 115"
abbreviation no_buffer_space :: int where "no_buffer_space \<equiv> 105"
abbreviation invalid_argument :: int where "invalid_argument \<equiv> 22"
abbreviation not_socket :: int where "not_socket \<equiv> 88"
abbreviation EPROTO :: int where "EPROTO \<equiv> 71"
abbreviation ENOTTY :: int where "ENOTTY \<equiv> 25"
abbreviation already_open :: int where "already_open \<equiv> -1"
abbreviation eof :: int where "eof \<equiv> -2"

abbreviation FIONBIO :: int where "FIONBIO \<equiv> 0x5421"
abbreviation FIONREAD :: int where "FIONREAD \<equiv> 0x541B"
abbreviation SIOCATMARK :: int where "SIOCATMARK \<equiv> 0x8905"
abbreviation O_NONBLOCK :: int where "O_NONBLOCK \<equiv> 2048"
abbreviation POLLIN :: int where "POLLIN \<equiv> 1"
abbreviation POLLPRI :: int where "POLLPRI \<equiv> 2"
abbreviation POLLOUT :: int where "POLLOUT \<equiv> 4"
abbreviation POLLERR :: int where "POLLERR \<equiv> 8"
abbreviation POLLHUP :: int where "POLLHUP \<equiv> 16"
abbreviation MSG_NOSIGNAL :: int where "MSG_NOSIGNAL \<equiv> 0x4000"
abbreviation AF_UNIX :: nat where "AF_UNIX \<equiv> 1"
abbreviation SOCK_STREAM :: int where "SOCK_STREAM \<equiv> 1"
abbreviation SOCK_DGRAM :: int where "SOCK_DGRAM \<equiv> 2"
abbreviation SOL_SOCKET :: int where "SOL_SOCKET \<equiv> 1"
abbreviation SO_ERROR :: int where "SO_ERROR \<equiv> 4"
abbreviation SO_SNDBUF :: int where "SO_SNDBUF \<equiv> 7"
abbreviation SO_RCVBUF :: int where "SO_RCVBUF \<equiv> 8"
abbreviation SO_LINGER :: int where "SO_LINGER \<equiv> 13"

text \<open>\<open>0xA5100000\<close> does not fit a signed integer of 32 bits.\<close>

abbreviation custom_socket_option_level :: int where "custom_socket_option_level \<equiv> 0xA5100000 - 2 ^ 32"
abbreviation enable_connection_aborted_option :: int where "enable_connection_aborted_option \<equiv> 1"
abbreviation always_fail_option :: int where "always_fail_option \<equiv> 2"

text \<open>The bits of a socket's state.\<close>

abbreviation user_set_non_blocking :: u8 where "user_set_non_blocking \<equiv> 1"
abbreviation internal_non_blocking :: u8 where "internal_non_blocking \<equiv> 2"
abbreviation non_blocking :: u8 where "non_blocking \<equiv> 3"
abbreviation enable_connection_aborted :: u8 where "enable_connection_aborted \<equiv> 4"
abbreviation user_set_linger :: u8 where "user_set_linger \<equiv> 8"
abbreviation stream_oriented :: u8 where "stream_oriented \<equiv> 16"
abbreviation datagram_oriented :: u8 where "datagram_oriented \<equiv> 32"
abbreviation possible_dup :: u8 where "possible_dup \<equiv> 64"

abbreviation has :: "u8 \<Rightarrow> u8 \<Rightarrow> bool" where "has state flag \<equiv> state AND flag \<noteq> 0"

definition get_last_error :: "int \<Rightarrow> bool \<Rightarrow> int" where
  "get_last_error errno is_error_condition = (if \<not> is_error_condition then 0 else errno)"

section \<open>Options\<close>

text \<open>The result, the error code, the state and the kernel.\<close>

definition so_setsockopt :: "'k sock_sys \<Rightarrow> int \<Rightarrow> u8 \<Rightarrow> int \<Rightarrow> int \<Rightarrow> bytes \<Rightarrow> 'k \<Rightarrow> int \<times> int \<times> u8 \<times> 'k" where
  "so_setsockopt sys s state level optname optval k =
     (if s = invalid_socket then (socket_error_retval, bad_descriptor, state, k)
      else if level = custom_socket_option_level \<and> optname = always_fail_option
      then (socket_error_retval, invalid_argument, state, k)
      else if level = custom_socket_option_level \<and> optname = enable_connection_aborted_option then
        if length optval \<noteq> 4 then (socket_error_retval, invalid_argument, state, k)
        else (0, 0, if of_le optval \<noteq> (0 :: u32) then state OR enable_connection_aborted
                    else state AND NOT enable_connection_aborted, k)
      else
        let state = (if level = SOL_SOCKET \<and> optname = SO_LINGER then state OR user_set_linger else state);
            (result, errno, k) = sys_setsockopt sys s level optname optval k
        in (result, get_last_error errno (result \<noteq> 0), state, k))"

text \<open>The value of the two buffer sizes is halved, as a signed integer.\<close>

definition halve_int :: "bytes \<Rightarrow> bytes" where
  "halve_int v = le_bytes 4 (word_of_int (sint (of_le v :: u32) sdiv 2) :: u32)"

definition so_getsockopt :: "'k sock_sys \<Rightarrow> int \<Rightarrow> u8 \<Rightarrow> int \<Rightarrow> int \<Rightarrow> nat \<Rightarrow> 'k \<Rightarrow> int \<times> int \<times> bytes \<times> 'k" where
  "so_getsockopt sys s state level optname optlen k =
     (if s = invalid_socket then (socket_error_retval, bad_descriptor, [], k)
      else if level = custom_socket_option_level \<and> optname = always_fail_option
      then (socket_error_retval, invalid_argument, [], k)
      else if level = custom_socket_option_level \<and> optname = enable_connection_aborted_option then
        if optlen \<noteq> 4 then (socket_error_retval, invalid_argument, [], k)
        else (0, 0, le_bytes 4 (if has state enable_connection_aborted then 1 else 0 :: u32), k)
      else
        let (result, errno, v, k) = sys_getsockopt sys s level optname optlen k;
            v = (if result = 0 \<and> level = SOL_SOCKET \<and> length v = 4 \<and> (optname = SO_SNDBUF \<or> optname = SO_RCVBUF)
                 then halve_int v else v)
        in (result, get_last_error errno (result \<noteq> 0), v, k))"

section \<open>The blocking mode\<close>

text \<open>The common part of \<open>set_user_non_blocking\<close> and \<open>set_internal_non_blocking\<close>: \<open>ioctl\<close>, or \<open>fcntl\<close> where a duplicate
  of the descriptor may be in use or \<open>ioctl\<close> does not know the request.\<close>

definition change_fl :: "'k sock_sys \<Rightarrow> int \<Rightarrow> bool \<Rightarrow> 'k \<Rightarrow> int \<times> int \<times> 'k" where
  "change_fl sys s value k =
     (let (result, errno, k) = sys_getfl sys s k in
      if result \<ge> 0 then
        let flag = (if value then result OR O_NONBLOCK else result AND NOT O_NONBLOCK)
        in if flag \<noteq> result then
             let (result, errno, k) = sys_setfl sys s flag k in (result, get_last_error errno (result < 0), k)
           else (0, 0, k)
      else (result, get_last_error errno (result < 0), k))"

definition change_mode :: "'k sock_sys \<Rightarrow> int \<Rightarrow> u8 \<Rightarrow> bool \<Rightarrow> int \<Rightarrow> 'k \<Rightarrow> int \<times> int \<times> 'k" where
  "change_mode sys s state value ec k =
     (let (result, ec, k) =
            (if \<not> has state possible_dup then
               let (result, errno, _, k) = sys_ioctl sys s FIONBIO (if value then 1 else 0) k
               in (result, get_last_error errno (result < 0), k)
             else (0, ec, k))
      in if has state possible_dup \<or> ec = ENOTTY then change_fl sys s value k else (result, ec, k))"

definition set_user_non_blocking :: "'k sock_sys \<Rightarrow> int \<Rightarrow> u8 \<Rightarrow> bool \<Rightarrow> int \<Rightarrow> 'k \<Rightarrow> bool \<times> int \<times> u8 \<times> 'k" where
  "set_user_non_blocking sys s state value ec k =
     (if s = invalid_socket then (False, bad_descriptor, state, k)
      else let (result, ec, k) = change_mode sys s state value ec k in
        if result \<ge> 0 then
          (True, ec, if value then state OR user_set_non_blocking
                     else state AND NOT (user_set_non_blocking OR internal_non_blocking), k)
        else (False, ec, state, k))"

definition set_internal_non_blocking :: "'k sock_sys \<Rightarrow> int \<Rightarrow> u8 \<Rightarrow> bool \<Rightarrow> int \<Rightarrow> 'k \<Rightarrow> bool \<times> int \<times> u8 \<times> 'k" where
  "set_internal_non_blocking sys s state value ec k =
     (if s = invalid_socket then (False, bad_descriptor, state, k)
      else if \<not> value \<and> has state user_set_non_blocking then (False, invalid_argument, state, k)
      else let (result, ec, k) = change_mode sys s state value ec k in
        if result \<ge> 0 then
          (True, ec, if value then state OR internal_non_blocking else state AND NOT internal_non_blocking, k)
        else (False, ec, state, k))"

definition so_ioctl :: "'k sock_sys \<Rightarrow> int \<Rightarrow> u8 \<Rightarrow> int \<Rightarrow> int \<Rightarrow> 'k \<Rightarrow> int \<times> int \<times> int \<times> u8 \<times> 'k" where
  "so_ioctl sys s state cmd arg k =
     (if s = invalid_socket then (socket_error_retval, bad_descriptor, arg, state, k)
      else let (result, errno, arg, k) = sys_ioctl sys s cmd arg k;
               state = (if result \<ge> 0 \<and> cmd = FIONBIO then
                          if arg \<noteq> 0 then state OR user_set_non_blocking
                          else state AND NOT (user_set_non_blocking OR internal_non_blocking)
                        else state)
           in (result, get_last_error errno (result < 0), arg, state, k))"

section \<open>Opening, binding, closing\<close>

definition so_socket :: "'k sock_sys \<Rightarrow> int \<Rightarrow> int \<Rightarrow> int \<Rightarrow> 'k \<Rightarrow> int \<times> int \<times> 'k" where
  "so_socket sys af typ protocol k =
     (let (s, errno, k) = sys_socket sys af typ protocol k in (s, get_last_error errno (s < 0), k))"

definition so_socketpair :: "'k sock_sys \<Rightarrow> int \<Rightarrow> int \<Rightarrow> int \<Rightarrow> 'k \<Rightarrow> int \<times> int \<times> (int \<times> int) \<times> 'k" where
  "so_socketpair sys af typ protocol k =
     (let (result, errno, sv, k) = sys_socketpair sys af typ protocol k
      in (result, get_last_error errno (result \<noteq> 0), sv, k))"

definition so_bind :: "'k sock_sys \<Rightarrow> int \<Rightarrow> bytes \<Rightarrow> 'k \<Rightarrow> int \<times> int \<times> 'k" where
  "so_bind sys s addr k =
     (if s = invalid_socket then (socket_error_retval, bad_descriptor, k)
      else let (result, errno, k) = sys_bind sys s addr k in (result, get_last_error errno (result \<noteq> 0), k))"

definition so_listen :: "'k sock_sys \<Rightarrow> int \<Rightarrow> int \<Rightarrow> 'k \<Rightarrow> int \<times> int \<times> 'k" where
  "so_listen sys s backlog k =
     (if s = invalid_socket then (socket_error_retval, bad_descriptor, k)
      else let (result, errno, k) = sys_listen sys s backlog k in (result, get_last_error errno (result \<noteq> 0), k))"

definition so_shutdown :: "'k sock_sys \<Rightarrow> int \<Rightarrow> int \<Rightarrow> 'k \<Rightarrow> int \<times> int \<times> 'k" where
  "so_shutdown sys s what k =
     (if s = invalid_socket then (socket_error_retval, bad_descriptor, k)
      else let (result, errno, k) = sys_shutdown sys s what k in (result, get_last_error errno (result \<noteq> 0), k))"

text \<open>\<open>close\<close>: a destructor does not linger; where \<open>close\<close> would block, the descriptor is made blocking and closed again.
  The result and \<open>ec\<close> (which keeps its value when there is nothing to close), the state and the kernel.\<close>

definition make_blocking :: "'k sock_sys \<Rightarrow> int \<Rightarrow> u8 \<Rightarrow> int \<Rightarrow> 'k \<Rightarrow> 'k" where
  "make_blocking sys s state ec k =
     (let (ec, k) = (if \<not> has state possible_dup then
                       let (result, errno, _, k) = sys_ioctl sys s FIONBIO 0 k in (get_last_error errno (result < 0), k)
                     else (ec, k))
      in if has state possible_dup \<or> ec = ENOTTY then
           let (flags, errno, k) = sys_getfl sys s k
           in if flags \<ge> 0 then snd (snd (sys_setfl sys s (flags AND NOT O_NONBLOCK) k)) else k
         else k)"

definition so_close :: "'k sock_sys \<Rightarrow> int \<Rightarrow> u8 \<Rightarrow> bool \<Rightarrow> int \<Rightarrow> 'k \<Rightarrow> int \<times> int \<times> u8 \<times> 'k" where
  "so_close sys s state destruction ec k =
     (if s \<noteq> invalid_socket then
        let (state, k) = (if destruction \<and> has state user_set_linger
                          then let (_, _, state, k) = so_setsockopt sys s state SOL_SOCKET SO_LINGER (replicate 8 0) k
                               in (state, k)
                          else (state, k));
            (result, errno, k) = sys_sock_close sys s k;
            ec = get_last_error errno (result \<noteq> 0)
        in if result \<noteq> 0 \<and> (ec = would_block \<or> ec = try_again) then
             let k = make_blocking sys s state ec k;
                 state = state AND NOT non_blocking;
                 (result, errno, k) = sys_sock_close sys s k
             in (result, get_last_error errno (result \<noteq> 0), state, k)
           else (result, ec, state, k)
      else (0, ec, state, k))"

text \<open>Names of the two ends, at most \<open>addrlen\<close> bytes.\<close>

definition so_getpeername :: "'k sock_sys \<Rightarrow> int \<Rightarrow> nat \<Rightarrow> 'k \<Rightarrow> int \<times> int \<times> bytes \<times> 'k" where
  "so_getpeername sys s addrlen k =
     (if s = invalid_socket then (socket_error_retval, bad_descriptor, [], k)
      else let (result, errno, addr, k) = sys_getpeername sys s addrlen k
           in (result, get_last_error errno (result \<noteq> 0), addr, k))"

definition so_getsockname :: "'k sock_sys \<Rightarrow> int \<Rightarrow> nat \<Rightarrow> 'k \<Rightarrow> int \<times> int \<times> bytes \<times> 'k" where
  "so_getsockname sys s addrlen k =
     (if s = invalid_socket then (socket_error_retval, bad_descriptor, [], k)
      else let (result, errno, addr, k) = sys_getsockname sys s addrlen k
           in (result, get_last_error errno (result \<noteq> 0), addr, k))"

definition so_sockatmark :: "'k sock_sys \<Rightarrow> int \<Rightarrow> 'k \<Rightarrow> bool \<times> int \<times> 'k" where
  "so_sockatmark sys s k =
     (if s = invalid_socket then (False, bad_descriptor, k)
      else let (result, errno, value, k) = sys_ioctl sys s SIOCATMARK 0 k;
               ec = get_last_error errno (result < 0);
               ec = (if ec = ENOTTY then not_socket else ec)
           in (if ec \<noteq> 0 then False else value \<noteq> 0, ec, k))"

definition so_available :: "'k sock_sys \<Rightarrow> int \<Rightarrow> 'k \<Rightarrow> nat \<times> int \<times> 'k" where
  "so_available sys s k =
     (if s = invalid_socket then (0, bad_descriptor, k)
      else let (result, errno, value, k) = sys_ioctl sys s FIONREAD 0 k;
               ec = get_last_error errno (result < 0);
               ec = (if ec = ENOTTY then not_socket else ec)
           in (if ec \<noteq> 0 then 0 else nat value, ec, k))"

section \<open>Waiting for readiness\<close>

definition poll_for :: "int \<Rightarrow> 'k sock_sys \<Rightarrow> int \<Rightarrow> u8 \<Rightarrow> int \<Rightarrow> 'k \<Rightarrow> (int \<times> int \<times> 'k) option" where
  "poll_for events sys s state msec k =
     (if s = invalid_socket then Some (socket_error_retval, bad_descriptor, k)
      else Option.bind (sys_poll sys s events (if has state user_set_non_blocking then 0 else msec) k)
        (\<lambda>(result, errno, k).
           Some (result, if result = 0 \<and> has state user_set_non_blocking then would_block
                         else get_last_error errno (result < 0), k)))"

definition poll_read :: "'k sock_sys \<Rightarrow> int \<Rightarrow> u8 \<Rightarrow> int \<Rightarrow> 'k \<Rightarrow> (int \<times> int \<times> 'k) option" where
  "poll_read = poll_for POLLIN"

definition poll_write :: "'k sock_sys \<Rightarrow> int \<Rightarrow> u8 \<Rightarrow> int \<Rightarrow> 'k \<Rightarrow> (int \<times> int \<times> 'k) option" where
  "poll_write = poll_for POLLOUT"

definition poll_error :: "'k sock_sys \<Rightarrow> int \<Rightarrow> u8 \<Rightarrow> int \<Rightarrow> 'k \<Rightarrow> (int \<times> int \<times> 'k) option" where
  "poll_error = poll_for (POLLPRI OR POLLERR OR POLLHUP)"

definition poll_connect :: "'k sock_sys \<Rightarrow> int \<Rightarrow> int \<Rightarrow> 'k \<Rightarrow> (int \<times> int \<times> 'k) option" where
  "poll_connect sys s msec k =
     (if s = invalid_socket then Some (socket_error_retval, bad_descriptor, k)
      else Option.bind (sys_poll sys s POLLOUT msec k)
        (\<lambda>(result, errno, k). Some (result, get_last_error errno (result < 0), k)))"

section \<open>Connecting\<close>

text \<open>\<open>sa_family\<close> is the first two bytes of an address.\<close>

definition sa_family :: "bytes \<Rightarrow> nat" where
  "sa_family addr = unat (of_le (take 2 addr) :: u16)"

definition so_connect :: "'k sock_sys \<Rightarrow> int \<Rightarrow> bytes \<Rightarrow> 'k \<Rightarrow> int \<times> int \<times> 'k" where
  "so_connect sys s addr k =
     (if s = invalid_socket then (socket_error_retval, bad_descriptor, k)
      else let (result, errno, k) = sys_connect sys s addr k;
               ec = get_last_error errno (result \<noteq> 0);
               ec = (if result \<noteq> 0 \<and> ec = try_again
                     then if sa_family addr = AF_UNIX then in_progress else no_buffer_space else ec)
           in (result, ec, k))"

definition connect_result :: "'k sock_sys \<Rightarrow> int \<Rightarrow> 'k \<Rightarrow> int \<times> int \<times> int \<times> 'k" where
  "connect_result sys s k =
     (let (result, ec, v, k) = so_getsockopt sys s 0 SOL_SOCKET SO_ERROR 4 k
      in (result, ec, sint (of_le v :: u32), k))"

definition sync_connect :: "'k sock_sys \<Rightarrow> int \<Rightarrow> bytes \<Rightarrow> 'k \<Rightarrow> (int \<times> 'k) option" where
  "sync_connect sys s addr k =
     (let (_, ec, k) = so_connect sys s addr k in
      if ec \<noteq> in_progress \<and> ec \<noteq> would_block then Some (ec, k)
      else Option.bind (poll_connect sys s (-1) k) (\<lambda>(result, ec, k).
        if result < 0 then Some (ec, k)
        else let (result, ec, connect_error, k) = connect_result sys s k
             in if result = socket_error_retval then Some (ec, k) else Some (connect_error, k)))"

text \<open>Whether the connect is over, \<open>ec\<close> (left alone while it is not) and the kernel; a \<open>poll\<close> with timeout 0 returns.\<close>

definition non_blocking_connect :: "'k sock_sys \<Rightarrow> int \<Rightarrow> int \<Rightarrow> 'k \<Rightarrow> (bool \<times> int \<times> 'k) option" where
  "non_blocking_connect sys s ec k =
     Option.bind (sys_poll sys s POLLOUT 0 k) (\<lambda>(ready, _, k).
       if ready = 0 then Some (False, ec, k)
       else let (result, ec, connect_error, k) = connect_result sys s k
            in Some (True, if result = 0 then connect_error else ec, k))"

section \<open>Accepting\<close>

text \<open>The new socket, the error code, the peer's address and the kernel.\<close>

definition so_accept :: "'k sock_sys \<Rightarrow> int \<Rightarrow> nat option \<Rightarrow> 'k \<Rightarrow> int \<times> int \<times> bytes \<times> 'k" where
  "so_accept sys s addrlen k =
     (if s = invalid_socket then (invalid_socket, bad_descriptor, [], k)
      else let (new_s, errno, addr, k) = sys_accept sys s addrlen k
           in (new_s, get_last_error errno (new_s = invalid_socket), addr, k))"

partial_function (option) sync_accept ::
  "'k sock_sys \<Rightarrow> int \<Rightarrow> u8 \<Rightarrow> nat option \<Rightarrow> 'k \<Rightarrow> (int \<times> int \<times> bytes \<times> 'k) option" where
  "sync_accept sys s state addrlen k =
     (let (new_socket, ec, addr, k) = so_accept sys s addrlen k in
      if new_socket \<noteq> invalid_socket then Some (new_socket, ec, addr, k)
      else if (if ec = would_block \<or> ec = try_again then has state user_set_non_blocking
               else if ec = connection_aborted then has state enable_connection_aborted
               else if ec = EPROTO then has state enable_connection_aborted
               else True)
      then Some (invalid_socket, ec, addr, k)
      else Option.bind (poll_read sys s 0 (-1) k) (\<lambda>p.
        if fst p < 0 then Some (invalid_socket, fst (snd p), addr, snd (snd p))
        else sync_accept sys s state addrlen (snd (snd p))))"

partial_function (option) non_blocking_accept ::
  "'k sock_sys \<Rightarrow> int \<Rightarrow> u8 \<Rightarrow> nat option \<Rightarrow> 'k \<Rightarrow> (bool \<times> int \<times> int \<times> bytes \<times> 'k) option" where
  "non_blocking_accept sys s state addrlen k =
     (let (new_socket, ec, addr, k) = so_accept sys s addrlen k in
      if new_socket \<noteq> invalid_socket then Some (True, new_socket, ec, addr, k)
      else if ec = interrupted then non_blocking_accept sys s state addrlen k
      else Some (if ec = would_block \<or> ec = try_again then False
                 else if ec = connection_aborted then has state enable_connection_aborted
                 else if ec = EPROTO then has state enable_connection_aborted
                 else True, new_socket, ec, addr, k))"

section \<open>Sending and receiving\<close>

text \<open>One attempt: the bytes moved (negative for an error), the error code, what the call wrote, the kernel.\<close>

type_synonym ('d, 'k) attempt = "'k \<Rightarrow> int \<times> int \<times> 'd \<times> 'k"

definition so_recv :: "'k sock_sys \<Rightarrow> int \<Rightarrow> nat list \<Rightarrow> int \<Rightarrow> (bytes, 'k) attempt" where
  "so_recv sys s bufs flags k =
     (let (result, errno, (d, _, _), k) = sys_recvmsg sys s bufs 0 flags k
      in (result, get_last_error errno (result < 0), d, k))"

definition so_recv1 :: "'k sock_sys \<Rightarrow> int \<Rightarrow> nat \<Rightarrow> int \<Rightarrow> (bytes, 'k) attempt" where
  "so_recv1 sys s len flags k =
     (let (result, errno, d, k) = sys_recv sys s len flags k in (result, get_last_error errno (result < 0), d, k))"

definition so_recvfrom :: "'k sock_sys \<Rightarrow> int \<Rightarrow> nat list \<Rightarrow> int \<Rightarrow> nat \<Rightarrow> (bytes \<times> bytes, 'k) attempt" where
  "so_recvfrom sys s bufs flags addrlen k =
     (let (result, errno, (d, addr, _), k) = sys_recvmsg sys s bufs addrlen flags k
      in (result, get_last_error errno (result < 0), (d, addr), k))"

definition so_recvfrom1 :: "'k sock_sys \<Rightarrow> int \<Rightarrow> nat \<Rightarrow> int \<Rightarrow> nat \<Rightarrow> (bytes \<times> bytes, 'k) attempt" where
  "so_recvfrom1 sys s len flags addrlen k =
     (let (result, errno, d, k) = sys_recvfrom sys s len flags addrlen k
      in (result, get_last_error errno (result < 0), d, k))"

definition so_recvmsg :: "'k sock_sys \<Rightarrow> int \<Rightarrow> nat list \<Rightarrow> int \<Rightarrow> (bytes \<times> int, 'k) attempt" where
  "so_recvmsg sys s bufs in_flags k =
     (let (result, errno, (d, _, msg_flags), k) = sys_recvmsg sys s bufs 0 in_flags k
      in (result, get_last_error errno (result < 0), (d, if result \<ge> 0 then msg_flags else 0), k))"

definition so_send :: "'k sock_sys \<Rightarrow> int \<Rightarrow> bytes list \<Rightarrow> int \<Rightarrow> (unit, 'k) attempt" where
  "so_send sys s bufs flags k =
     (let (result, errno, k) = sys_sendmsg sys s bufs [] (flags OR MSG_NOSIGNAL) k
      in (result, get_last_error errno (result < 0), (), k))"

definition so_send1 :: "'k sock_sys \<Rightarrow> int \<Rightarrow> bytes \<Rightarrow> int \<Rightarrow> (unit, 'k) attempt" where
  "so_send1 sys s d flags k =
     (let (result, errno, k) = sys_send sys s d (flags OR MSG_NOSIGNAL) k
      in (result, get_last_error errno (result < 0), (), k))"

definition so_sendto :: "'k sock_sys \<Rightarrow> int \<Rightarrow> bytes list \<Rightarrow> int \<Rightarrow> bytes \<Rightarrow> (unit, 'k) attempt" where
  "so_sendto sys s bufs flags addr k =
     (let (result, errno, k) = sys_sendmsg sys s bufs addr (flags OR MSG_NOSIGNAL) k
      in (result, get_last_error errno (result < 0), (), k))"

definition so_sendto1 :: "'k sock_sys \<Rightarrow> int \<Rightarrow> bytes \<Rightarrow> int \<Rightarrow> bytes \<Rightarrow> (unit, 'k) attempt" where
  "so_sendto1 sys s d flags addr k =
     (let (result, errno, k) = sys_sendto sys s d (flags OR MSG_NOSIGNAL) addr k
      in (result, get_last_error errno (result < 0), (), k))"

text \<open>The loop of the blocking functions: bytes, error code, what was written, kernel. \<open>stream\<close> says whether 0 bytes
  mean the end of the stream; \<open>wait\<close> is \<open>poll_read\<close> or \<open>poll_write\<close>.\<close>

partial_function (option) sync_loop ::
  "bool \<Rightarrow> u8 \<Rightarrow> ('d, 'k) attempt \<Rightarrow> ('k \<Rightarrow> (int \<times> int \<times> 'k) option) \<Rightarrow> 'k \<Rightarrow> (nat \<times> int \<times> 'd \<times> 'k) option" where
  "sync_loop stream state attempt wait k =
     (let (bytes, ec, d, k) = attempt k in
      if stream \<and> bytes = 0 then Some (0, eof, d, k)
      else if bytes \<ge> 0 then Some (nat bytes, ec, d, k)
      else if has state user_set_non_blocking \<or> ec \<noteq> would_block \<and> ec \<noteq> try_again then Some (0, ec, d, k)
      else Option.bind (wait k) (\<lambda>p.
        if fst p < 0 then Some (0, fst (snd p), d, snd (snd p))
        else sync_loop stream state attempt wait (snd (snd p))))"

definition sync_recv ::
  "'k sock_sys \<Rightarrow> int \<Rightarrow> u8 \<Rightarrow> nat list \<Rightarrow> int \<Rightarrow> bool \<Rightarrow> 'k \<Rightarrow> (nat \<times> int \<times> bytes \<times> 'k) option" where
  "sync_recv sys s state bufs flags all_empty k =
     (if s = invalid_socket then Some (0, bad_descriptor, [], k)
      else if all_empty \<and> has state stream_oriented then Some (0, 0, [], k)
      else sync_loop (has state stream_oriented) state (so_recv sys s bufs flags) (poll_read sys s 0 (-1)) k)"

definition sync_recv1 :: "'k sock_sys \<Rightarrow> int \<Rightarrow> u8 \<Rightarrow> nat \<Rightarrow> int \<Rightarrow> 'k \<Rightarrow> (nat \<times> int \<times> bytes \<times> 'k) option" where
  "sync_recv1 sys s state len flags k =
     (if s = invalid_socket then Some (0, bad_descriptor, [], k)
      else if len = 0 \<and> has state stream_oriented then Some (0, 0, [], k)
      else sync_loop (has state stream_oriented) state (so_recv1 sys s len flags) (poll_read sys s 0 (-1)) k)"

definition sync_recvfrom ::
  "'k sock_sys \<Rightarrow> int \<Rightarrow> u8 \<Rightarrow> nat list \<Rightarrow> int \<Rightarrow> nat \<Rightarrow> 'k \<Rightarrow> (nat \<times> int \<times> (bytes \<times> bytes) \<times> 'k) option" where
  "sync_recvfrom sys s state bufs flags addrlen k =
     (if s = invalid_socket then Some (0, bad_descriptor, ([], []), k)
      else sync_loop False state (so_recvfrom sys s bufs flags addrlen) (poll_read sys s 0 (-1)) k)"

definition sync_recvfrom1 ::
  "'k sock_sys \<Rightarrow> int \<Rightarrow> u8 \<Rightarrow> nat \<Rightarrow> int \<Rightarrow> nat \<Rightarrow> 'k \<Rightarrow> (nat \<times> int \<times> (bytes \<times> bytes) \<times> 'k) option" where
  "sync_recvfrom1 sys s state len flags addrlen k =
     (if s = invalid_socket then Some (0, bad_descriptor, ([], []), k)
      else sync_loop False state (so_recvfrom1 sys s len flags addrlen) (poll_read sys s 0 (-1)) k)"

definition sync_recvmsg ::
  "'k sock_sys \<Rightarrow> int \<Rightarrow> u8 \<Rightarrow> nat list \<Rightarrow> int \<Rightarrow> 'k \<Rightarrow> (nat \<times> int \<times> (bytes \<times> int) \<times> 'k) option" where
  "sync_recvmsg sys s state bufs in_flags k =
     (if s = invalid_socket then Some (0, bad_descriptor, ([], 0), k)
      else sync_loop False state (so_recvmsg sys s bufs in_flags) (poll_read sys s 0 (-1)) k)"

definition sync_send ::
  "'k sock_sys \<Rightarrow> int \<Rightarrow> u8 \<Rightarrow> bytes list \<Rightarrow> int \<Rightarrow> bool \<Rightarrow> 'k \<Rightarrow> (nat \<times> int \<times> unit \<times> 'k) option" where
  "sync_send sys s state bufs flags all_empty k =
     (if s = invalid_socket then Some (0, bad_descriptor, (), k)
      else if all_empty \<and> has state stream_oriented then Some (0, 0, (), k)
      else sync_loop False state (so_send sys s bufs flags) (poll_write sys s 0 (-1)) k)"

definition sync_send1 :: "'k sock_sys \<Rightarrow> int \<Rightarrow> u8 \<Rightarrow> bytes \<Rightarrow> int \<Rightarrow> 'k \<Rightarrow> (nat \<times> int \<times> unit \<times> 'k) option" where
  "sync_send1 sys s state d flags k =
     (if s = invalid_socket then Some (0, bad_descriptor, (), k)
      else if d = [] \<and> has state stream_oriented then Some (0, 0, (), k)
      else sync_loop False state (so_send1 sys s d flags) (poll_write sys s 0 (-1)) k)"

definition sync_sendto ::
  "'k sock_sys \<Rightarrow> int \<Rightarrow> u8 \<Rightarrow> bytes list \<Rightarrow> int \<Rightarrow> bytes \<Rightarrow> 'k \<Rightarrow> (nat \<times> int \<times> unit \<times> 'k) option" where
  "sync_sendto sys s state bufs flags addr k =
     (if s = invalid_socket then Some (0, bad_descriptor, (), k)
      else sync_loop False state (so_sendto sys s bufs flags addr) (poll_write sys s 0 (-1)) k)"

definition sync_sendto1 ::
  "'k sock_sys \<Rightarrow> int \<Rightarrow> u8 \<Rightarrow> bytes \<Rightarrow> int \<Rightarrow> bytes \<Rightarrow> 'k \<Rightarrow> (nat \<times> int \<times> unit \<times> 'k) option" where
  "sync_sendto1 sys s state d flags addr k =
     (if s = invalid_socket then Some (0, bad_descriptor, (), k)
      else sync_loop False state (so_sendto1 sys s d flags addr) (poll_write sys s 0 (-1)) k)"

text \<open>The loop of the non-blocking functions: whether the operation is over, the error code, \<open>bytes_transferred\<close>
  (\<open>None\<close> when it is left alone), what was written, the kernel.\<close>

partial_function (option) non_blocking_loop ::
  "bool \<Rightarrow> ('d, 'k) attempt \<Rightarrow> 'k \<Rightarrow> (bool \<times> int \<times> nat option \<times> 'd \<times> 'k) option" where
  "non_blocking_loop stream attempt k =
     (let (bytes, ec, d, k) = attempt k in
      if stream \<and> bytes = 0 then Some (True, eof, None, d, k)
      else if bytes \<ge> 0 then Some (True, ec, Some (nat bytes), d, k)
      else if ec = interrupted then non_blocking_loop stream attempt k
      else if ec = would_block \<or> ec = try_again then Some (False, ec, None, d, k)
      else Some (True, ec, Some 0, d, k))"

definition non_blocking_recv ::
  "'k sock_sys \<Rightarrow> int \<Rightarrow> nat list \<Rightarrow> int \<Rightarrow> bool \<Rightarrow> 'k \<Rightarrow> (bool \<times> int \<times> nat option \<times> bytes \<times> 'k) option" where
  "non_blocking_recv sys s bufs flags is_stream = non_blocking_loop is_stream (so_recv sys s bufs flags)"

definition non_blocking_recv1 ::
  "'k sock_sys \<Rightarrow> int \<Rightarrow> nat \<Rightarrow> int \<Rightarrow> bool \<Rightarrow> 'k \<Rightarrow> (bool \<times> int \<times> nat option \<times> bytes \<times> 'k) option" where
  "non_blocking_recv1 sys s len flags is_stream = non_blocking_loop is_stream (so_recv1 sys s len flags)"

definition non_blocking_recvfrom ::
  "'k sock_sys \<Rightarrow> int \<Rightarrow> nat list \<Rightarrow> int \<Rightarrow> nat \<Rightarrow> 'k \<Rightarrow> (bool \<times> int \<times> nat option \<times> (bytes \<times> bytes) \<times> 'k) option" where
  "non_blocking_recvfrom sys s bufs flags addrlen = non_blocking_loop False (so_recvfrom sys s bufs flags addrlen)"

definition non_blocking_recvfrom1 ::
  "'k sock_sys \<Rightarrow> int \<Rightarrow> nat \<Rightarrow> int \<Rightarrow> nat \<Rightarrow> 'k \<Rightarrow> (bool \<times> int \<times> nat option \<times> (bytes \<times> bytes) \<times> 'k) option" where
  "non_blocking_recvfrom1 sys s len flags addrlen = non_blocking_loop False (so_recvfrom1 sys s len flags addrlen)"

definition non_blocking_recvmsg ::
  "'k sock_sys \<Rightarrow> int \<Rightarrow> nat list \<Rightarrow> int \<Rightarrow> 'k \<Rightarrow> (bool \<times> int \<times> nat option \<times> (bytes \<times> int) \<times> 'k) option" where
  "non_blocking_recvmsg sys s bufs in_flags = non_blocking_loop False (so_recvmsg sys s bufs in_flags)"

definition non_blocking_send ::
  "'k sock_sys \<Rightarrow> int \<Rightarrow> bytes list \<Rightarrow> int \<Rightarrow> 'k \<Rightarrow> (bool \<times> int \<times> nat option \<times> unit \<times> 'k) option" where
  "non_blocking_send sys s bufs flags = non_blocking_loop False (so_send sys s bufs flags)"

definition non_blocking_send1 ::
  "'k sock_sys \<Rightarrow> int \<Rightarrow> bytes \<Rightarrow> int \<Rightarrow> 'k \<Rightarrow> (bool \<times> int \<times> nat option \<times> unit \<times> 'k) option" where
  "non_blocking_send1 sys s d flags = non_blocking_loop False (so_send1 sys s d flags)"

definition non_blocking_sendto ::
  "'k sock_sys \<Rightarrow> int \<Rightarrow> bytes list \<Rightarrow> int \<Rightarrow> bytes \<Rightarrow> 'k \<Rightarrow> (bool \<times> int \<times> nat option \<times> unit \<times> 'k) option" where
  "non_blocking_sendto sys s bufs flags addr = non_blocking_loop False (so_sendto sys s bufs flags addr)"

definition non_blocking_sendto1 ::
  "'k sock_sys \<Rightarrow> int \<Rightarrow> bytes \<Rightarrow> int \<Rightarrow> bytes \<Rightarrow> 'k \<Rightarrow> (bool \<times> int \<times> nat option \<times> unit \<times> 'k) option" where
  "non_blocking_sendto1 sys s d flags addr = non_blocking_loop False (so_sendto1 sys s d flags addr)"

section \<open>The non-blocking loop\<close>

text \<open>The kernel after \<open>n\<close> attempts that a signal interrupted.\<close>

fun after_interrupts :: "nat \<Rightarrow> ('d, 'k) attempt \<Rightarrow> 'k \<Rightarrow> 'k option" where
  "after_interrupts 0 attempt k = Some k"
| "after_interrupts (Suc n) attempt k =
     (let (bytes, ec, d, k') = attempt k
      in if bytes < 0 \<and> ec = interrupted then after_interrupts n attempt k' else None)"

definition was_interrupted :: "('d, 'k) attempt \<Rightarrow> 'k \<Rightarrow> bool" where
  "was_interrupted attempt k \<longleftrightarrow> (let (bytes, ec, d, k') = attempt k in bytes < 0 \<and> ec = interrupted)"

text \<open>What an attempt that was not interrupted amounts to.\<close>

definition attempt_outcome :: "bool \<Rightarrow> int \<times> int \<times> 'd \<times> 'k \<Rightarrow> bool \<times> int \<times> nat option \<times> 'd \<times> 'k" where
  "attempt_outcome stream r =
     (let (bytes, ec, d, k) = r in
      if stream \<and> bytes = 0 then (True, eof, None, d, k)
      else if bytes \<ge> 0 then (True, ec, Some (nat bytes), d, k)
      else if ec = would_block then (False, ec, None, d, k)
      else (True, ec, Some 0, d, k))"

lemma non_blocking_loop_step:
  "non_blocking_loop stream attempt k =
     (if was_interrupted attempt k then non_blocking_loop stream attempt (snd (snd (snd (attempt k))))
      else Some (attempt_outcome stream (attempt k)))"
  by (subst non_blocking_loop.simps) (auto simp: was_interrupted_def attempt_outcome_def Let_def split: prod.splits)

lemma after_interrupts_Suc:
  "after_interrupts (Suc n) attempt k =
     (if was_interrupted attempt k then after_interrupts n attempt (snd (snd (snd (attempt k)))) else None)"
  by (simp add: was_interrupted_def split: prod.splits)

lemma non_blocking_loop_returns:
  assumes "after_interrupts n attempt k = Some k'" "\<not> was_interrupted attempt k'"
  shows "non_blocking_loop stream attempt k = Some (attempt_outcome stream (attempt k'))"
  using assms
proof (induction n arbitrary: k)
  case 0
  then show ?case by (simp add: non_blocking_loop_step [of stream attempt k'])
next
  case (Suc n)
  then show ?case
    by (simp add: after_interrupts_Suc non_blocking_loop_step [of stream attempt k] del: after_interrupts.simps split: if_splits)
qed

lemma non_blocking_loop_returned:
  assumes "non_blocking_loop stream attempt k = Some r"
  shows "\<exists>n k'. after_interrupts n attempt k = Some k' \<and> \<not> was_interrupted attempt k' \<and> r = attempt_outcome stream (attempt k')"
proof -
  let ?P = "\<lambda>st at k r. \<exists>n k'. after_interrupts n at k = Some k' \<and> \<not> was_interrupted at k' \<and> r = attempt_outcome st (at k')"
  have "?P stream attempt k r"
  proof (rule non_blocking_loop.raw_induct [where P = ?P, OF _ assms])
    fix f st at k r
    assume IH: "\<And>st at k r. f st at k = Some r \<Longrightarrow> ?P st at k r"
      and run: "(let (bytes, ec, d, k) = at k in
          if st \<and> bytes = 0 then Some (True, eof, None, d, k)
          else if bytes \<ge> 0 then Some (True, ec, Some (nat bytes), d, k)
          else if ec = interrupted then f st at k
          else if ec = would_block \<or> ec = try_again then Some (False, ec, None, d, k)
          else Some (True, ec, Some 0, d, k)) = Some r"
    show "?P st at k r"
    proof (cases "was_interrupted at k")
      case True
      then have "f st at (snd (snd (snd (at k)))) = Some r"
        using run by (auto simp: was_interrupted_def split: prod.splits)
      from IH [OF this] obtain n k' where *: "after_interrupts n at (snd (snd (snd (at k)))) = Some k'"
        "\<not> was_interrupted at k'" "r = attempt_outcome st (at k')" by blast
      then have "after_interrupts (Suc n) at k = Some k'" using True by (simp add: after_interrupts_Suc del: after_interrupts.simps)
      then show ?thesis using * by blast
    next
      case False
      then have "r = attempt_outcome st (at k)"
        using run by (auto simp: was_interrupted_def attempt_outcome_def Let_def split: prod.splits if_splits)
      then show ?thesis using False by (intro exI [of _ 0] exI [of _ k]) simp
    qed
  qed
  then show ?thesis .
qed

section \<open>The blocking loop\<close>

text \<open>In the mode the user asked for, a blocking function makes one attempt and never waits.\<close>

lemma sync_loop_user_non_blocking:
  assumes "has state user_set_non_blocking"
  shows "sync_loop stream state attempt wait k =
    (let (bytes, ec, d, k) = attempt k
     in Some (if stream \<and> bytes = 0 then (0, eof, d, k) else if bytes \<ge> 0 then (nat bytes, ec, d, k) else (0, ec, d, k)))"
  by (subst sync_loop.simps) (use assms in \<open>simp add: Let_def split: prod.splits\<close>)

section \<open>The blocking mode and the state bits\<close>

text \<open>\<open>nb\<close> tells whether a descriptor is in non-blocking mode; what \<open>ioctl\<close> and \<open>fcntl\<close> do to it.\<close>

definition mode_laws :: "'k sock_sys \<Rightarrow> (int \<Rightarrow> 'k \<Rightarrow> bool) \<Rightarrow> bool" where
  "mode_laws sys nb \<longleftrightarrow>
     (\<forall>s a k r e a' k'. sys_ioctl sys s FIONBIO a k = (r, e, a', k') \<longrightarrow>
        (r \<ge> 0 \<longrightarrow> a' = a \<and> nb s k' = (a \<noteq> 0)) \<and> (r < 0 \<longrightarrow> nb s k' = nb s k)) \<and>
     (\<forall>s k r e k'. sys_getfl sys s k = (r, e, k') \<longrightarrow> nb s k' = nb s k \<and> (r \<ge> 0 \<longrightarrow> nb s k = (r AND O_NONBLOCK \<noteq> 0))) \<and>
     (\<forall>s f k r e k'. sys_setfl sys s f k = (r, e, k') \<longrightarrow>
        nb s k' = (if r \<ge> 0 then f AND O_NONBLOCK \<noteq> 0 else nb s k))"

lemma ioctl_mode:
  "mode_laws sys nb \<Longrightarrow> sys_ioctl sys s FIONBIO a k = (r, e, a', k') \<Longrightarrow>
     (r \<ge> 0 \<longrightarrow> a' = a \<and> nb s k' = (a \<noteq> 0)) \<and> (r < 0 \<longrightarrow> nb s k' = nb s k)"
  unfolding mode_laws_def by blast

lemma getfl_mode:
  "mode_laws sys nb \<Longrightarrow> sys_getfl sys s k = (r, e, k') \<Longrightarrow> nb s k' = nb s k \<and> (r \<ge> 0 \<longrightarrow> nb s k = (r AND O_NONBLOCK \<noteq> 0))"
  unfolding mode_laws_def by blast

lemma setfl_mode:
  "mode_laws sys nb \<Longrightarrow> sys_setfl sys s f k = (r, e, k') \<Longrightarrow> nb s k' = (if r \<ge> 0 then f AND O_NONBLOCK \<noteq> 0 else nb s k)"
  unfolding mode_laws_def by blast

lemma nonblock_flag:
  "(f OR O_NONBLOCK) AND O_NONBLOCK \<noteq> 0" "(f AND NOT O_NONBLOCK) AND O_NONBLOCK = 0"
proof -
  have "bit O_NONBLOCK 11" by code_simp
  then have "bit ((f OR O_NONBLOCK) AND O_NONBLOCK) 11" by (simp add: bit_simps)
  then show "(f OR O_NONBLOCK) AND O_NONBLOCK \<noteq> 0" by (metis bit_0_eq bot_apply bot_bool_def)
  show "(f AND NOT O_NONBLOCK) AND O_NONBLOCK = 0" by (rule bit_eqI) (simp add: bit_simps)
qed

lemma change_mode_correct:
  assumes "mode_laws sys nb" "change_mode sys s state value ec k = (r, ec', k')"
  shows "nb s k' = (if r \<ge> 0 then value else nb s k)"
proof -
  have fl: "nb s k2 = (if r \<ge> 0 then value else nb s k1)" if "change_fl sys s value k1 = (r, e, k2)" for k1 r e k2
  proof -
    obtain fl e1 k3 where g: "sys_getfl sys s k1 = (fl, e1, k3)" using prod_cases3 by blast
    note gm = getfl_mode [OF assms(1) g]
    define flag where "flag = (if value then fl OR O_NONBLOCK else fl AND NOT O_NONBLOCK)"
    have fv: "flag AND O_NONBLOCK \<noteq> 0 \<longleftrightarrow> value" by (cases "value") (simp_all only: flag_def if_True if_False nonblock_flag simp_thms)
    obtain r2 e2 k4 where st: "sys_setfl sys s flag k3 = (r2, e2, k4)" using prod_cases3 by blast
    note sm = setfl_mode [OF assms(1) st]
    show ?thesis
      using that gm sm fv by (auto simp: change_fl_def g Let_def flag_def [symmetric] st split: if_splits)
  qed
  obtain r1 e1 a1 k1 where io: "sys_ioctl sys s FIONBIO (if value then 1 else 0) k = (r1, e1, a1, k1)" by (metis prod_cases4)
  note im = ioctl_mode [OF assms(1) io]
  show ?thesis
  proof (cases "has state possible_dup")
    case True
    then show ?thesis using assms(2) fl by (simp add: change_mode_def)
  next
    case False
    show ?thesis
    proof (cases "get_last_error e1 (r1 < 0) = ENOTTY")
      case True
      then have "r1 < 0" by (simp add: get_last_error_def split: if_splits)
      then show ?thesis using assms(2) False True fl [of k1 r _ k'] im by (simp add: change_mode_def io)
    next
      case ne: False
      then show ?thesis using assms(2) False im by (auto simp: change_mode_def io split: if_splits)
    qed
  qed
qed

text \<open>The bits of the mode say what the mode is.\<close>

definition mode_ok :: "(int \<Rightarrow> 'k \<Rightarrow> bool) \<Rightarrow> int \<Rightarrow> u8 \<Rightarrow> 'k \<Rightarrow> bool" where
  "mode_ok nb s state k \<longleftrightarrow> nb s k = has state non_blocking"

lemma state_bits:
  "bit (1 :: u8) n \<longleftrightarrow> n = 0" "bit (2 :: u8) n \<longleftrightarrow> n = 1" "bit (3 :: u8) n \<longleftrightarrow> n = 0 \<or> n = 1"
proof -
  have three: "(3 :: u8) = 1 OR 2" by code_simp
  show one: "bit (1 :: u8) n \<longleftrightarrow> n = 0" and two: "bit (2 :: u8) n \<longleftrightarrow> n = 1" by (auto simp: bit_1_iff bit_2_iff)
  show "bit (3 :: u8) n \<longleftrightarrow> n = 0 \<or> n = 1" unfolding three bit_or_iff one two ..
qed

lemma has_non_blocking: "has state non_blocking \<longleftrightarrow> bit state 0 \<or> bit state 1"
  unfolding bit_eq_iff [of "_ AND _"] bit_and_iff state_bits by (auto intro: exI [of _ 0] exI [of _ 1])

lemma has_user_non_blocking: "has state user_set_non_blocking \<longleftrightarrow> bit state 0"
  unfolding bit_eq_iff [of "_ AND _"] bit_and_iff state_bits by auto

lemma mode_bits:
  "has (state OR user_set_non_blocking) non_blocking" "has (state OR internal_non_blocking) non_blocking"
  "\<not> has (state AND NOT (user_set_non_blocking OR internal_non_blocking)) non_blocking"
  "\<not> has state user_set_non_blocking \<Longrightarrow> \<not> has (state AND NOT internal_non_blocking) non_blocking"
  unfolding has_non_blocking has_user_non_blocking by (auto simp: bit_simps state_bits simp del: or_numerals)

lemma set_user_non_blocking_correct:
  assumes "mode_laws sys nb" "set_user_non_blocking sys s state value ec k = (ok, ec', state', k')" "mode_ok nb s state k"
  shows "mode_ok nb s state' k' \<and> (ok \<longrightarrow> nb s k' = value) \<and> (\<not> ok \<longrightarrow> state' = state)"
proof -
  obtain r e k1 where m: "change_mode sys s state value ec k = (r, e, k1)" using prod_cases3 by blast
  show ?thesis
    using assms(2,3) change_mode_correct [OF assms(1) m] mode_bits(1,3) [of state]
    by (auto simp: set_user_non_blocking_def m mode_ok_def simp del: or_numerals split: if_splits)
qed

lemma set_internal_non_blocking_correct:
  assumes "mode_laws sys nb" "set_internal_non_blocking sys s state value ec k = (ok, ec', state', k')" "mode_ok nb s state k"
  shows "mode_ok nb s state' k' \<and> (ok \<longrightarrow> nb s k' = value) \<and> (\<not> ok \<longrightarrow> state' = state)"
proof -
  obtain r e k1 where m: "change_mode sys s state value ec k = (r, e, k1)" using prod_cases3 by blast
  show ?thesis
    using assms(2,3) change_mode_correct [OF assms(1) m] mode_bits(2,4) [of state]
    by (auto simp: set_internal_non_blocking_def m mode_ok_def split: if_splits)
qed

lemma so_ioctl_correct:
  assumes "mode_laws sys nb" "so_ioctl sys s state FIONBIO arg k = (r, ec, arg', state', k')" "mode_ok nb s state k"
  shows "mode_ok nb s state' k'"
proof -
  obtain r1 e a k1 where m: "sys_ioctl sys s FIONBIO arg k = (r1, e, a, k1)" by (metis prod_cases4)
  show ?thesis
    using assms(2,3) ioctl_mode [OF assms(1) m] mode_bits(1,3) [of state]
    by (auto simp: so_ioctl_def m mode_ok_def Let_def simp del: or_numerals split: if_splits)
qed

section \<open>Options\<close>

text \<open>Linux doubles the size of a buffer it is given; what is read back is the size that was set.\<close>

lemma buffer_size_roundtrip:
  assumes "n < 2 ^ 30"
  shows "halve_int (le_bytes 4 (word_of_nat (2 * n) :: u32)) = le_bytes 4 (word_of_nat n :: u32)"
proof -
  have "sint (word_of_int (int (2 * n)) :: u32) = int (2 * n)"
    using assms by (simp add: sint_sbintrunc' signed_take_bit_int_eq_self del: of_nat_mult of_int_of_nat_eq)
  then have "sint (word_of_nat (2 * n) :: u32) = int (2 * n)" by (simp only: of_int_of_nat_eq)
  then have "sint (of_le (le_bytes 4 (word_of_nat (2 * n) :: u32)) :: u32) sdiv 2 = int n"
    by (simp add: of_le_bytes sdiv_pos)
  then show ?thesis by (simp add: halve_int_def)
qed


section \<open>Properties\<close>

text \<open>The calls that change the mode of a descriptor, and what a sequence of them leaves of the state bits and the
  kernel.\<close>

datatype mode_call = SetUser bool | SetInternal bool | Fionbio int

fun mode_step :: "'k sock_sys \<Rightarrow> int \<Rightarrow> mode_call \<Rightarrow> u8 \<times> 'k \<Rightarrow> u8 \<times> 'k" where
  "mode_step sys s (SetUser v) (state, k) = (let (_, _, state, k) = set_user_non_blocking sys s state v 0 k in (state, k))"
| "mode_step sys s (SetInternal v) (state, k) = (let (_, _, state, k) = set_internal_non_blocking sys s state v 0 k in (state, k))"
| "mode_step sys s (Fionbio arg) (state, k) = (let (_, _, _, state, k) = so_ioctl sys s state FIONBIO arg k in (state, k))"

lemma mode_step_ok:
  assumes "mode_laws sys nb" "mode_ok nb s (fst p) (snd p)"
  shows "mode_ok nb s (fst (mode_step sys s c p)) (snd (mode_step sys s c p))"
proof (cases p)
  case (Pair state k)
  show ?thesis
  proof (cases c)
    case (SetUser v)
    obtain ok ec st k' where r: "set_user_non_blocking sys s state v 0 k = (ok, ec, st, k')" by (metis prod_cases4)
    then show ?thesis using set_user_non_blocking_correct [OF assms(1) r] assms(2) by (simp add: Pair SetUser)
  next
    case (SetInternal v)
    obtain ok ec st k' where r: "set_internal_non_blocking sys s state v 0 k = (ok, ec, st, k')" by (metis prod_cases4)
    then show ?thesis using set_internal_non_blocking_correct [OF assms(1) r] assms(2) by (simp add: Pair SetInternal)
  next
    case (Fionbio arg)
    obtain r ec a st k' where r: "so_ioctl sys s state FIONBIO arg k = (r, ec, a, st, k')" by (metis prod_cases5)
    then show ?thesis using so_ioctl_correct [OF assms(1) r] assms(2) by (simp add: Pair Fionbio)
  qed
qed

text \<open>After any sequence of calls that set or clear the user's or the library's own non-blocking mode, or that go
  through \<open>ioctl(FIONBIO)\<close>, failed calls included, the state bits say what the mode of the descriptor is: it is in
  non-blocking mode exactly when one of the two bits is set. \<open>mode_laws\<close> is what the manual pages of \<open>ioctl\<close> and
  \<open>fcntl\<close> say of the flag.\<close>

theorem blocking_mode_tracked:
  assumes "mode_laws sys nb" "nb s k \<longleftrightarrow> has state non_blocking"
    "fold (mode_step sys s) calls (state, k) = (state', k')"
  shows "nb s k' \<longleftrightarrow> has state' non_blocking"
proof -
  have "mode_ok nb s (fst (fold (mode_step sys s) calls p)) (snd (fold (mode_step sys s) calls p))" if "mode_ok nb s (fst p) (snd p)" for p
    using that by (induction calls arbitrary: p) (simp_all add: mode_step_ok [OF assms(1)])
  from this [of "(state, k)"] show ?thesis using assms(2,3) by (simp add: mode_ok_def)
qed

text \<open>C19. The loop of all non-blocking receive and send functions returns exactly when some attempt is not interrupted by
  a signal, and then with the outcome of the first such attempt: the interrupted ones before it leave nothing behind
  but their effect on the kernel. A result is therefore never \<open>interrupted\<close>, and an attempt that would block is
  never repeated.\<close>

theorem non_blocking_loop_outcome:
  "non_blocking_loop stream attempt k = Some r \<longleftrightarrow>
     (\<exists>n k'. after_interrupts n attempt k = Some k' \<and> \<not> was_interrupted attempt k' \<and> r = attempt_outcome stream (attempt k'))"
  using non_blocking_loop_returns non_blocking_loop_returned by metis

text \<open>A descriptor whose mode is a flag of the kernel.\<close>

definition flag_sys :: "bool sock_sys" where
  "flag_sys =
     \<lparr>sys_socket = (\<lambda>a t p k. (8, 0, k)), sys_socketpair = (\<lambda>a t p k. (-1, 1, (0, 0), k)),
      sys_accept = (\<lambda>s n k. (-1, 1, [], k)), sys_bind = (\<lambda>s a k. (0, 0, k)),
      sys_listen = (\<lambda>s b k. (0, 0, k)), sys_connect = (\<lambda>s a k. (0, 0, k)),
      sys_shutdown = (\<lambda>s h k. (0, 0, k)), sys_sock_close = (\<lambda>s k. (0, 0, k)),
      sys_ioctl = (\<lambda>s c a k. (0, 0, a, if c = FIONBIO then a \<noteq> 0 else k)),
      sys_getfl = (\<lambda>s k. (if k then O_NONBLOCK else 0, 0, k)),
      sys_setfl = (\<lambda>s f k. (0, 0, f AND O_NONBLOCK \<noteq> 0)), sys_recv = (\<lambda>s n f k. (-1, 11, [], k)),
      sys_recvfrom = (\<lambda>s n f a k. (-1, 11, ([], []), k)), sys_recvmsg = (\<lambda>s ns a f k. (-1, 11, ([], [], 0), k)),
      sys_send = (\<lambda>s d f k. (int (length d), 0, k)), sys_sendto = (\<lambda>s d f a k. (int (length d), 0, k)),
      sys_sendmsg = (\<lambda>s ds a f k. (0, 0, k)),
      sys_setsockopt = (\<lambda>s l n v k. (0, 0, k)), sys_getsockopt = (\<lambda>s l n m k. (0, 0, [], k)),
      sys_getpeername = (\<lambda>s n k. (-1, 107, [], k)), sys_getsockname = (\<lambda>s n k. (0, 0, [], k)),
      sys_poll = (\<lambda>s e t k. Some (0, 0, k))\<rparr>"

lemma flag_mode_laws: "mode_laws flag_sys (\<lambda>s k. k)"
proof -
  have "O_NONBLOCK AND O_NONBLOCK = O_NONBLOCK" by (rule and.idem)
  then show ?thesis by (simp add: mode_laws_def flag_sys_def)
qed

theorem blocking_mode_tracked_witness:
  "\<exists>state' k'. fold (mode_step flag_sys 8) [SetInternal True, SetUser True, SetInternal False, Fionbio 0] (0, False) = (state', k') \<and>
     (k' \<longleftrightarrow> has state' non_blocking)"
proof -
  obtain state' k' where f: "fold (mode_step flag_sys 8) [SetInternal True, SetUser True, SetInternal False, Fionbio 0] (0, False) = (state', k')"
    by fastforce
  from blocking_mode_tracked [OF flag_mode_laws _ f] show ?thesis using f by auto
qed

end
