(* ===== verification/AsioSockets.thy ===== *)
theory AsioSockets
  imports AsioSocketOps
begin

text \<open>
  The reactive socket service of the vendored Asio (\<^verbatim>\<open>include/asio/detail/impl/reactive_socket_service_base.ipp\<close>,
  \<^verbatim>\<open>reactive_socket_service_base.hpp\<close>, \<^verbatim>\<open>reactive_socket_service.hpp\<close>, \<^verbatim>\<open>socket_holder.hpp\<close>): the life of a socket,
  its options and modes, and the start of its asynchronous operations on the reactor of \<open>AsioReactor\<close>. The system
  calls on sockets act on the reactor's kernel. A per-operation cancellation slot is left out: the handlers of the
  program have none.
\<close>

section \<open>State\<close>

record sock_impl =
  sk_socket :: int
  sk_state :: u8
  sk_reactor_data :: "nat option"

definition set_kernel :: "'k \<Rightarrow> ('q, 'k) io \<Rightarrow> ('q, 'k) io" where
  "set_kernel k s = s\<lparr>world := (world s)\<lparr>kernel := k\<rparr>\<rparr>"

abbreviation kern :: "('q, 'k) io \<Rightarrow> 'k" where
  "kern s \<equiv> kernel (world s)"

section \<open>The life of a socket\<close>

text \<open>The destructor of \<open>socket_holder\<close>.\<close>

definition holder_destroy :: "'k sock_sys \<Rightarrow> int \<Rightarrow> 'k \<Rightarrow> 'k" where
  "holder_destroy sys s k =
     (if s \<noteq> invalid_socket then snd (snd (snd (so_close sys s 0 True 0 k))) else k)"

definition sock_construct :: sock_impl where
  "sock_construct = \<lparr>sk_socket = invalid_socket, sk_state = 0, sk_reactor_data = None\<rparr>"

definition sock_is_open :: "sock_impl \<Rightarrow> bool" where
  "sock_is_open impl \<longleftrightarrow> sk_socket impl \<noteq> invalid_socket"

text \<open>The new and the old socket.\<close>

definition base_move_construct :: "sock_impl \<Rightarrow> sock_impl \<Rightarrow> sock_impl \<times> sock_impl" where
  "base_move_construct impl other_impl =
     (let (target, source) = move_descriptor (sk_reactor_data impl) (sk_reactor_data other_impl)
      in (\<lparr>sk_socket = sk_socket other_impl, sk_state = sk_state other_impl, sk_reactor_data = target\<rparr>,
          \<lparr>sk_socket = invalid_socket, sk_state = 0, sk_reactor_data = source\<rparr>))"

definition sock_destroy ::
  "('q, 'k) reactor_env \<Rightarrow> 'k sock_sys \<Rightarrow> sock_impl \<Rightarrow> ('q, 'k) io \<Rightarrow> sock_impl \<times> ('q, 'k) io" where
  "sock_destroy env sys impl s =
     (if sk_socket impl \<noteq> invalid_socket then
        let (rd, s) = deregister_descriptor env (sk_socket impl) (sk_reactor_data impl) (\<not> has (sk_state impl) possible_dup) s;
            (_, _, state, k) = so_close sys (sk_socket impl) (sk_state impl) True 0 (kern s);
            s = set_kernel k s;
            (rd, s) = cleanup_descriptor_data rd s
        in (impl\<lparr>sk_state := state, sk_reactor_data := rd\<rparr>, s)
      else (impl, s))"

definition base_move_assign ::
  "('q, 'k) reactor_env \<Rightarrow> 'k sock_sys \<Rightarrow> sock_impl \<Rightarrow> sock_impl \<Rightarrow> ('q, 'k) io \<Rightarrow> (sock_impl \<times> sock_impl) \<times> ('q, 'k) io" where
  "base_move_assign env sys impl other_impl s =
     (let (impl, s) = sock_destroy env sys impl s in (base_move_construct impl other_impl, s))"

text \<open>\<open>close\<close>: the error code, the socket, which is always as constructed afterwards, and the state.\<close>

definition sock_close ::
  "('q, 'k) reactor_env \<Rightarrow> 'k sock_sys \<Rightarrow> sock_impl \<Rightarrow> int \<Rightarrow> ('q, 'k) io \<Rightarrow> int \<times> sock_impl \<times> ('q, 'k) io" where
  "sock_close env sys impl ec s =
     (if sock_is_open impl then
        let (rd, s) = deregister_descriptor env (sk_socket impl) (sk_reactor_data impl) (\<not> has (sk_state impl) possible_dup) s;
            (_, ec, _, k) = so_close sys (sk_socket impl) (sk_state impl) False ec (kern s);
            s = set_kernel k s;
            (_, s) = cleanup_descriptor_data rd s
        in (ec, sock_construct, s)
      else (0, sock_construct, s))"

definition sock_release ::
  "('q, 'k) reactor_env \<Rightarrow> sock_impl \<Rightarrow> ('q, 'k) io \<Rightarrow> int \<times> int \<times> sock_impl \<times> ('q, 'k) io" where
  "sock_release env impl s =
     (if \<not> sock_is_open impl then (invalid_socket, bad_descriptor, impl, s)
      else
        let (rd, s) = deregister_descriptor env (sk_socket impl) (sk_reactor_data impl) False s;
            (_, s) = cleanup_descriptor_data rd s
        in (sk_socket impl, 0, sock_construct, s))"

definition sock_cancel :: "('q, 'k) reactor_env \<Rightarrow> sock_impl \<Rightarrow> ('q, 'k) io \<Rightarrow> int \<times> ('q, 'k) io" where
  "sock_cancel env impl s =
     (if \<not> sock_is_open impl then (bad_descriptor, s) else (0, cancel_ops env (sk_reactor_data impl) s))"

definition type_state :: "int \<Rightarrow> u8" where
  "type_state typ = (if typ = SOCK_STREAM then stream_oriented else if typ = SOCK_DGRAM then datagram_oriented else 0)"

text \<open>A socket that cannot be registered is closed by its holder; the descriptor data stays with the socket.\<close>

definition do_open ::
  "('q, 'k) reactor_env \<Rightarrow> 'k sock_sys \<Rightarrow> sock_impl \<Rightarrow> int \<Rightarrow> int \<Rightarrow> int \<Rightarrow> ('q, 'k) io \<Rightarrow> int \<times> sock_impl \<times> ('q, 'k) io" where
  "do_open env sys impl af typ protocol s =
     (if sock_is_open impl then (already_open, impl, s)
      else
        let (sock, ec, k) = so_socket sys af typ protocol (kern s);
            s = set_kernel k s
        in if sock = invalid_socket then (ec, impl, s)
           else
             let (err, d, r) = register_descriptor env sock (world s);
                 s = s\<lparr>world := r\<rparr>;
                 impl = impl\<lparr>sk_reactor_data := Some d\<rparr>
             in if err \<noteq> 0 then (err, impl, set_kernel (holder_destroy sys sock (kern s)) s)
                else (0, impl\<lparr>sk_socket := sock, sk_state := type_state typ\<rparr>, s))"

definition do_assign ::
  "('q, 'k) reactor_env \<Rightarrow> sock_impl \<Rightarrow> int \<Rightarrow> int \<Rightarrow> ('q, 'k) io \<Rightarrow> int \<times> sock_impl \<times> ('q, 'k) io" where
  "do_assign env impl typ native_socket s =
     (if sock_is_open impl then (already_open, impl, s)
      else
        let (err, d, r) = register_descriptor env native_socket (world s);
            s = s\<lparr>world := r\<rparr>;
            impl = impl\<lparr>sk_reactor_data := Some d\<rparr>
        in if err \<noteq> 0 then (err, impl, s)
           else (0, impl\<lparr>sk_socket := native_socket, sk_state := type_state typ OR possible_dup\<rparr>, s))"

section \<open>Modes and options\<close>

definition sock_non_blocking :: "sock_impl \<Rightarrow> bool" where
  "sock_non_blocking impl \<longleftrightarrow> has (sk_state impl) user_set_non_blocking"

definition sock_set_non_blocking :: "'k sock_sys \<Rightarrow> sock_impl \<Rightarrow> bool \<Rightarrow> ('q, 'k) io \<Rightarrow> int \<times> sock_impl \<times> ('q, 'k) io" where
  "sock_set_non_blocking sys impl mode s =
     (let (_, ec, state, k) = set_user_non_blocking sys (sk_socket impl) (sk_state impl) mode 0 (kern s)
      in (ec, impl\<lparr>sk_state := state\<rparr>, set_kernel k s))"

definition sock_native_non_blocking :: "sock_impl \<Rightarrow> bool" where
  "sock_native_non_blocking impl \<longleftrightarrow> has (sk_state impl) internal_non_blocking"

definition sock_set_native_non_blocking ::
  "'k sock_sys \<Rightarrow> sock_impl \<Rightarrow> bool \<Rightarrow> ('q, 'k) io \<Rightarrow> int \<times> sock_impl \<times> ('q, 'k) io" where
  "sock_set_native_non_blocking sys impl mode s =
     (let (_, ec, state, k) = set_internal_non_blocking sys (sk_socket impl) (sk_state impl) mode 0 (kern s)
      in (ec, impl\<lparr>sk_state := state\<rparr>, set_kernel k s))"

definition sock_bind :: "'k sock_sys \<Rightarrow> sock_impl \<Rightarrow> bytes \<Rightarrow> ('q, 'k) io \<Rightarrow> int \<times> ('q, 'k) io" where
  "sock_bind sys impl endpoint s =
     (let (_, ec, k) = so_bind sys (sk_socket impl) endpoint (kern s) in (ec, set_kernel k s))"

definition sock_set_option ::
  "'k sock_sys \<Rightarrow> sock_impl \<Rightarrow> int \<Rightarrow> int \<Rightarrow> bytes \<Rightarrow> ('q, 'k) io \<Rightarrow> int \<times> sock_impl \<times> ('q, 'k) io" where
  "sock_set_option sys impl level name v s =
     (let (_, ec, state, k) = so_setsockopt sys (sk_socket impl) (sk_state impl) level name v (kern s)
      in (ec, impl\<lparr>sk_state := state\<rparr>, set_kernel k s))"

definition sock_get_option ::
  "'k sock_sys \<Rightarrow> sock_impl \<Rightarrow> int \<Rightarrow> int \<Rightarrow> nat \<Rightarrow> ('q, 'k) io \<Rightarrow> int \<times> bytes \<times> ('q, 'k) io" where
  "sock_get_option sys impl level name len s =
     (let (_, ec, v, k) = so_getsockopt sys (sk_socket impl) (sk_state impl) level name len (kern s)
      in (ec, v, set_kernel k s))"

text \<open>\<open>None\<close> is the default endpoint.\<close>

definition sock_local_endpoint :: "'k sock_sys \<Rightarrow> sock_impl \<Rightarrow> nat \<Rightarrow> ('q, 'k) io \<Rightarrow> bytes option \<times> int \<times> ('q, 'k) io" where
  "sock_local_endpoint sys impl capacity s =
     (let (result, ec, addr, k) = so_getsockname sys (sk_socket impl) capacity (kern s)
      in (if result \<noteq> 0 then None else Some addr, ec, set_kernel k s))"

definition sock_remote_endpoint :: "'k sock_sys \<Rightarrow> sock_impl \<Rightarrow> nat \<Rightarrow> ('q, 'k) io \<Rightarrow> bytes option \<times> int \<times> ('q, 'k) io" where
  "sock_remote_endpoint sys impl capacity s =
     (let (result, ec, addr, k) = so_getpeername sys (sk_socket impl) capacity (kern s)
      in (if result \<noteq> 0 then None else Some addr, ec, set_kernel k s))"

section \<open>Asynchronous operations\<close>

definition do_start_op ::
  "('q, 'k) reactor_env \<Rightarrow> 'k sock_sys \<Rightarrow> sock_impl \<Rightarrow> nat \<Rightarrow> nat \<Rightarrow> bool \<Rightarrow> bool \<Rightarrow> bool \<Rightarrow> bool \<Rightarrow> ('q, 'k) on_immediate \<Rightarrow>
   ('q, 'k) io \<Rightarrow> sock_impl \<times> ('q, 'k) io" where
  "do_start_op env sys impl op_type x is_continuation allow_speculative noop needs_non_blocking on_immediate s =
     (if \<not> noop then
        let (ready, impl, s) =
              (if has (sk_state impl) non_blocking then (True, impl, s)
               else if \<not> needs_non_blocking then (True, impl, s)
               else
                 let (ok, ec, state, k) =
                       set_internal_non_blocking sys (sk_socket impl) (sk_state impl) True (op_ec (world s) x) (kern s)
                 in (ok, impl\<lparr>sk_state := state\<rparr>, set_op_ec x ec (set_kernel k s)))
        in if ready
           then (impl, start_op env op_type (sk_socket impl) (sk_reactor_data impl) x is_continuation allow_speculative on_immediate s)
           else (impl, on_immediate x is_continuation s)
      else (impl, on_immediate x is_continuation s))"

definition do_start_accept_op ::
  "('q, 'k) reactor_env \<Rightarrow> 'k sock_sys \<Rightarrow> sock_impl \<Rightarrow> nat \<Rightarrow> bool \<Rightarrow> bool \<Rightarrow> ('q, 'k) on_immediate \<Rightarrow>
   ('q, 'k) io \<Rightarrow> sock_impl \<times> ('q, 'k) io" where
  "do_start_accept_op env sys impl x is_continuation peer_is_open on_immediate s =
     (if \<not> peer_is_open then do_start_op env sys impl read_op x is_continuation True False True on_immediate s
      else (impl, on_immediate x is_continuation (set_op_ec x already_open s)))"

definition do_start_connect_op ::
  "('q, 'k) reactor_env \<Rightarrow> 'k sock_sys \<Rightarrow> sock_impl \<Rightarrow> nat \<Rightarrow> bool \<Rightarrow> bytes \<Rightarrow> ('q, 'k) on_immediate \<Rightarrow>
   ('q, 'k) io \<Rightarrow> sock_impl \<times> ('q, 'k) io" where
  "do_start_connect_op env sys impl x is_continuation addr on_immediate s =
     (let (ready, impl, s) =
            (if has (sk_state impl) non_blocking then (True, impl, s)
             else
               let (ok, ec, state, k) =
                     set_internal_non_blocking sys (sk_socket impl) (sk_state impl) True (op_ec (world s) x) (kern s)
               in (ok, impl\<lparr>sk_state := state\<rparr>, set_op_ec x ec (set_kernel k s)))
      in if ready then
           let (result, ec, k) = so_connect sys (sk_socket impl) addr (kern s);
               s = set_op_ec x ec (set_kernel k s)
           in if result \<noteq> 0 \<and> (ec = in_progress \<or> ec = would_block)
              then (impl, start_op env write_op (sk_socket impl) (sk_reactor_data impl) x is_continuation False on_immediate
                            (set_op_ec x 0 s))
              else (impl, on_immediate x is_continuation s)
         else (impl, on_immediate x is_continuation s))"

text \<open>\<open>async_receive_from\<close>: the operation object \<open>x\<close> is new, without an error; it completes through the reactor, since
  the handler has no immediate executor of its own. \<open>out_of_band\<close> is the flag \<open>message_out_of_band\<close>.\<close>

definition sock_async_receive_from ::
  "('q, 'k) reactor_env \<Rightarrow> 'k sock_sys \<Rightarrow> sock_impl \<Rightarrow> bool \<Rightarrow> nat \<Rightarrow> bool \<Rightarrow> ('q, 'k) io \<Rightarrow> sock_impl \<times> ('q, 'k) io" where
  "sock_async_receive_from env sys impl out_of_band x is_continuation s =
     do_start_op env sys impl (if out_of_band then except_op else read_op) x is_continuation True False True
       (call_post_immediate_completion env) (set_op_ec x 0 s)"

text \<open>\<open>async_receive\<close> and \<open>async_send\<close>: an empty transfer on a stream is no operation at all.\<close>

definition sock_async_receive ::
  "('q, 'k) reactor_env \<Rightarrow> 'k sock_sys \<Rightarrow> sock_impl \<Rightarrow> bool \<Rightarrow> bool \<Rightarrow> nat \<Rightarrow> bool \<Rightarrow> ('q, 'k) io \<Rightarrow> sock_impl \<times> ('q, 'k) io" where
  "sock_async_receive env sys impl out_of_band all_empty x is_continuation s =
     do_start_op env sys impl (if out_of_band then except_op else read_op) x is_continuation (\<not> out_of_band)
       (has (sk_state impl) stream_oriented \<and> all_empty) True (call_post_immediate_completion env) (set_op_ec x 0 s)"

definition sock_async_send ::
  "('q, 'k) reactor_env \<Rightarrow> 'k sock_sys \<Rightarrow> sock_impl \<Rightarrow> bool \<Rightarrow> nat \<Rightarrow> bool \<Rightarrow> ('q, 'k) io \<Rightarrow> sock_impl \<times> ('q, 'k) io" where
  "sock_async_send env sys impl all_empty x is_continuation s =
     do_start_op env sys impl write_op x is_continuation True
       (has (sk_state impl) stream_oriented \<and> all_empty) True (call_post_immediate_completion env) (set_op_ec x 0 s)"

definition sock_async_send_to ::
  "('q, 'k) reactor_env \<Rightarrow> 'k sock_sys \<Rightarrow> sock_impl \<Rightarrow> nat \<Rightarrow> bool \<Rightarrow> ('q, 'k) io \<Rightarrow> sock_impl \<times> ('q, 'k) io" where
  "sock_async_send_to env sys impl x is_continuation s =
     do_start_op env sys impl write_op x is_continuation True False True (call_post_immediate_completion env) (set_op_ec x 0 s)"

datatype wait_type = wait_read | wait_write | wait_error

definition sock_wait :: "'k sock_sys \<Rightarrow> sock_impl \<Rightarrow> wait_type option \<Rightarrow> ('q, 'k) io \<Rightarrow> (int \<times> ('q, 'k) io) option" where
  "sock_wait sys impl w s =
     (let poll = (\<lambda>f. map_option (\<lambda>(_, ec, k). (ec, set_kernel k s)) (f sys (sk_socket impl) (sk_state impl) (-1) (kern s)))
      in case w of
           Some wait_read \<Rightarrow> poll poll_read
         | Some wait_write \<Rightarrow> poll poll_write
         | Some wait_error \<Rightarrow> poll poll_error
         | None \<Rightarrow> Some (invalid_argument, s))"

definition sock_async_wait ::
  "('q, 'k) reactor_env \<Rightarrow> 'k sock_sys \<Rightarrow> sock_impl \<Rightarrow> wait_type option \<Rightarrow> nat \<Rightarrow> bool \<Rightarrow> ('q, 'k) io \<Rightarrow> sock_impl \<times> ('q, 'k) io" where
  "sock_async_wait env sys impl w x is_continuation s =
     (let s = set_op_ec x 0 s;
          start = (\<lambda>op_type noop s. do_start_op env sys impl op_type x is_continuation False noop False
                     (call_post_immediate_completion env) s)
      in case w of
           Some wait_read \<Rightarrow> start read_op False s
         | Some wait_write \<Rightarrow> start write_op False s
         | Some wait_error \<Rightarrow> start except_op False s
         | None \<Rightarrow> start read_op True (set_op_ec x invalid_argument s))"


section \<open>The blocking mode of a socket in use\<close>

definition sock_mode_ok :: "(int \<Rightarrow> 'k \<Rightarrow> bool) \<Rightarrow> sock_impl \<Rightarrow> ('q, 'k) io \<Rightarrow> bool" where
  "sock_mode_ok nb impl s \<longleftrightarrow> mode_ok nb (sk_socket impl) (sk_state impl) (kern s)"

lemma kern_simps [simp]:
  "kern (set_kernel k s) = k" "kern (set_op_ec x ec s) = kern s" "ds (world (set_kernel k s)) = ds (world s)"
  by (simp_all add: set_kernel_def set_op_ec_def)

lemma same_queues_set_kernel [simp]: "same_queues s (set_kernel k s') = same_queues s s'"
  by (simp add: same_queues_def set_kernel_def)

text \<open>An operation that needs the non-blocking mode is started on the reactor in that mode only; where the mode cannot
  be set, it completes at once with the error.\<close>

lemma do_start_op_mode:
  assumes "mode_laws sys nb" "sock_mode_ok nb impl s"
  shows "\<exists>impl' s'. sock_mode_ok nb impl' s' \<and> same_queues s s' \<and> sk_socket impl' = sk_socket impl \<and>
    sk_reactor_data impl' = sk_reactor_data impl \<and>
    (do_start_op env sys impl op_type x c spec noop True oi s = (impl', oi x c s') \<or>
     nb (sk_socket impl) (kern s') \<and>
     do_start_op env sys impl op_type x c spec noop True oi s =
       (impl', start_op env op_type (sk_socket impl) (sk_reactor_data impl) x c spec oi s'))"
proof (cases "noop \<or> has (sk_state impl) non_blocking")
  case True
  show ?thesis
  proof (rule exI [of _ impl], rule exI [of _ s])
    show "sock_mode_ok nb impl s \<and> same_queues s s \<and> sk_socket impl = sk_socket impl \<and>
      sk_reactor_data impl = sk_reactor_data impl \<and>
      (do_start_op env sys impl op_type x c spec noop True oi s = (impl, oi x c s) \<or>
       nb (sk_socket impl) (kern s) \<and>
       do_start_op env sys impl op_type x c spec noop True oi s =
         (impl, start_op env op_type (sk_socket impl) (sk_reactor_data impl) x c spec oi s))"
      using True assms(2) by (auto simp: do_start_op_def sock_mode_ok_def mode_ok_def)
  qed
next
  case False
  obtain ok ec st k where m: "set_internal_non_blocking sys (sk_socket impl) (sk_state impl) True (op_ec (world s) x) (kern s) = (ok, ec, st, k)"
    by (metis prod_cases4)
  note sm = set_internal_non_blocking_correct [OF assms(1) m assms(2) [unfolded sock_mode_ok_def]]
  let ?impl = "impl\<lparr>sk_state := st\<rparr>" and ?s = "set_op_ec x ec (set_kernel k s)"
  have "do_start_op env sys impl op_type x c spec noop True oi s =
      (?impl, if ok then start_op env op_type (sk_socket impl) (sk_reactor_data impl) x c spec oi ?s else oi x c ?s)"
    using False by (simp add: do_start_op_def m)
  moreover have "sock_mode_ok nb ?impl ?s" "same_queues s ?s" "ok \<Longrightarrow> nb (sk_socket impl) (kern ?s)"
    using sm by (simp_all add: sock_mode_ok_def)
  ultimately show ?thesis by (cases ok) (force intro!: exI [of _ ?impl] exI [of _ ?s])+
qed

section \<open>Closing\<close>

text \<open>Closing a socket aborts what waits on it: every waiting operation is marked, taken off its queue and posted once,
  and the socket is as constructed.\<close>

lemma set_kernel_frame [io_frame]:
  "op_q (set_kernel k s) = op_q s" "private_q (set_kernel k s) = private_q s"
  "outstanding_work (set_kernel k s) = outstanding_work s" "private_work (set_kernel k s) = private_work s"
  "op_ec (world (set_kernel k s)) = op_ec (world s)"
  by (simp_all add: set_kernel_def)

lemma balance_set_kernel [simp]: "work_balance D (set_kernel k s) = work_balance D s"
  by (simp add: set_kernel_def)

lemma sock_close_balance:
  assumes "finite D" "\<And>d. sk_reactor_data impl = Some d \<Longrightarrow> d \<in> D"
  shows "work_balance D (snd (snd (sock_close env sys impl ec s))) = work_balance D s"
    and "fst (snd (sock_close env sys impl ec s)) = sock_construct"
proof -
  have c: "work_balance D (snd (cleanup_descriptor_data rd s)) = work_balance D s" for rd and s :: "('a, 'b) io"
    by (simp add: cleanup_descriptor_data_def free_descriptor_state_def split: option.splits)
  show "work_balance D (snd (snd (sock_close env sys impl ec s))) = work_balance D s"
    using deregister_descriptor_balance [OF assms, where env = env and fd = "sk_socket impl" and closing = "\<not> has (sk_state impl) possible_dup" and s = s] c
    by (auto simp: sock_close_def Let_def split: prod.splits) (metis balance_set_kernel snd_conv)
  show "fst (snd (sock_close env sys impl ec s)) = sock_construct"
    by (simp add: sock_close_def split: prod.splits)
qed

end
