(* ===== verification/FeedSocket.thy ===== *)
theory FeedSocket
  imports AsioSockets FeedHandler
begin

text \<open>
  The feed handler of \<^verbatim>\<open>include/FeedHandler.h\<close> on the vendored Asio: its socket, the receive operation
  (\<^verbatim>\<open>include/asio/detail/reactive_socket_recvfrom_op.hpp\<close>), the reactor and the scheduler run by
  \<open>io_context::run\<close> in \<^verbatim>\<open>src/main.cpp\<close>. The memory of the program is part of the state the system calls act on,
  which leave it alone, beside the kernel proper. Operation 0 is the receive operation: there is one at a time, and
  its memory is free again when its handler runs. Every other client operation is the wait for a signal, whose handler
  stops the scheduler. \<open>received\<close> records what \<open>recvfrom\<close> returned; it decides nothing.
\<close>

section \<open>State\<close>

record 'h feed_world =
  host :: 'h
  feed :: FeedHandler
  feed_socket :: sock_impl
  remote_endpoint :: bytes
  bytes_transferred :: nat
  received :: "bytes list"

text \<open>The system calls on the kernel proper.\<close>

definition on_host :: "('h \<Rightarrow> 'a \<times> 'h) \<Rightarrow> 'h feed_world \<Rightarrow> 'a \<times> 'h feed_world" where
  "on_host f w = (let (a, h) = f (host w) in (a, w\<lparr>host := h\<rparr>))"

definition on_host3 :: "('h \<Rightarrow> 'a \<times> 'b \<times> 'h) \<Rightarrow> 'h feed_world \<Rightarrow> 'a \<times> 'b \<times> 'h feed_world" where
  "on_host3 f w = (let (a, b, h) = f (host w) in (a, b, w\<lparr>host := h\<rparr>))"

definition on_host4 :: "('h \<Rightarrow> 'a \<times> 'b \<times> 'c \<times> 'h) \<Rightarrow> 'h feed_world \<Rightarrow> 'a \<times> 'b \<times> 'c \<times> 'h feed_world" where
  "on_host4 f w = (let (a, b, c, h) = f (host w) in (a, b, c, w\<lparr>host := h\<rparr>))"

definition on_host_only :: "('h \<Rightarrow> 'h) \<Rightarrow> 'h feed_world \<Rightarrow> 'h feed_world" where
  "on_host_only f w = w\<lparr>host := f (host w)\<rparr>"

definition feed_os :: "'h os \<Rightarrow> 'h feed_world os" where
  "feed_os os =
     \<lparr>sys_epoll_create1 = on_host3 (sys_epoll_create1 os), sys_epoll_create = (\<lambda>n. on_host3 (sys_epoll_create os n)),
      sys_epoll_ctl = (\<lambda>e c fd evs p. on_host3 (sys_epoll_ctl os e c fd evs p)),
      sys_epoll_wait = (\<lambda>e t w. map_option (\<lambda>(evs, h). (evs, w\<lparr>host := h\<rparr>)) (sys_epoll_wait os e t (host w))),
      sys_timerfd_create = (\<lambda>b. on_host3 (sys_timerfd_create os b)),
      sys_timerfd_settime = (\<lambda>fd b s n. on_host_only (sys_timerfd_settime os fd b s n)),
      sys_eventfd = (\<lambda>b. on_host3 (sys_eventfd os b)), sys_pipe = on_host3 (sys_pipe os),
      sys_fcntl = (\<lambda>fd c. on_host_only (sys_fcntl os fd c)), sys_close = (\<lambda>fd. on_host_only (sys_close os fd)),
      sys_write = (\<lambda>fd v n. on_host_only (sys_write os fd v n)), sys_read = (\<lambda>fd n. on_host4 (sys_read os fd n)),
      sys_sigaction = (\<lambda>n h f. on_host3 (sys_sigaction os n h f))\<rparr>"

definition feed_sys :: "'h sock_sys \<Rightarrow> 'h feed_world sock_sys" where
  "feed_sys sys =
     \<lparr>sys_socket = (\<lambda>a t p. on_host3 (sys_socket sys a t p)), sys_socketpair = (\<lambda>a t p. on_host4 (sys_socketpair sys a t p)),
      sys_accept = (\<lambda>s n. on_host4 (sys_accept sys s n)), sys_bind = (\<lambda>s a. on_host3 (sys_bind sys s a)),
      sys_listen = (\<lambda>s b. on_host3 (sys_listen sys s b)), sys_connect = (\<lambda>s a. on_host3 (sys_connect sys s a)),
      sys_shutdown = (\<lambda>s h. on_host3 (sys_shutdown sys s h)), sys_sock_close = (\<lambda>s. on_host3 (sys_sock_close sys s)),
      sys_ioctl = (\<lambda>s c a. on_host4 (sys_ioctl sys s c a)), sys_getfl = (\<lambda>s. on_host3 (sys_getfl sys s)),
      sys_setfl = (\<lambda>s f. on_host3 (sys_setfl sys s f)), sys_recv = (\<lambda>s n f. on_host4 (sys_recv sys s n f)),
      sys_recvfrom = (\<lambda>s n f a. on_host4 (sys_recvfrom sys s n f a)), sys_recvmsg = (\<lambda>s ns a f. on_host4 (sys_recvmsg sys s ns a f)),
      sys_send = (\<lambda>s d f. on_host3 (sys_send sys s d f)), sys_sendto = (\<lambda>s d f a. on_host3 (sys_sendto sys s d f a)),
      sys_sendmsg = (\<lambda>s ds a f. on_host3 (sys_sendmsg sys s ds a f)),
      sys_setsockopt = (\<lambda>s l n v. on_host3 (sys_setsockopt sys s l n v)),
      sys_getsockopt = (\<lambda>s l n m. on_host4 (sys_getsockopt sys s l n m)),
      sys_getpeername = (\<lambda>s n. on_host4 (sys_getpeername sys s n)), sys_getsockname = (\<lambda>s n. on_host4 (sys_getsockname sys s n)),
      sys_poll = (\<lambda>s e t w. map_option (\<lambda>(r, n, h). (r, n, w\<lparr>host := h\<rparr>)) (sys_poll sys s e t (host w)))\<rparr>"

section \<open>The receive operation\<close>

abbreviation receive_op :: nat where "receive_op \<equiv> 0"

text \<open>The capacity of an endpoint: \<open>sizeof(sockaddr_in6)\<close>.\<close>

abbreviation endpoint_capacity :: nat where "endpoint_capacity \<equiv> 28"

text \<open>\<open>reactive_socket_recvfrom_op_base::do_perform\<close> on the buffer behind the timestamp. A \<open>recvfrom\<close> that signals
  interrupt for ever would never return; \<open>recv_laws\<close> below excludes it, so the case \<open>None\<close> is not reached.\<close>

definition recv_perform :: "'h sock_sys \<Rightarrow> int \<Rightarrow> 'h feed_world \<Rightarrow> perform_status \<times> int \<times> 'h feed_world" where
  "recv_perform sys ec w =
     (case non_blocking_recvfrom1 sys (sk_socket (feed_socket w)) (PAYLOAD_SIZE - 8) 0 endpoint_capacity (host w) of
        None \<Rightarrow> (not_done, ec, w)
      | Some (fin, ec, bytes, (data, addr), h) \<Rightarrow>
          let w = w\<lparr>host := h, feed := (feed w)\<lparr>recv_buffer := receive_into data (recv_buffer (feed w))\<rparr>\<rparr>;
              w = (case bytes of None \<Rightarrow> w | Some n \<Rightarrow> w\<lparr>bytes_transferred := n\<rparr>);
              w = (if fin \<and> ec = 0 then w\<lparr>remote_endpoint := addr, received := received w @ [data]\<rparr> else w)
          in (if fin then op_done else not_done, ec, w))"

text \<open>The other operations act on the kernel proper.\<close>

definition feed_perform ::
  "'h sock_sys \<Rightarrow> (nat \<Rightarrow> int \<Rightarrow> 'h \<Rightarrow> perform_status \<times> int \<times> 'h) \<Rightarrow> nat \<Rightarrow> int \<Rightarrow> 'h feed_world \<Rightarrow> perform_status \<times> int \<times> 'h feed_world" where
  "feed_perform sys other x ec w = (if x = receive_op then recv_perform sys ec w else on_host3 (other x ec) w)"

definition feed_env ::
  "'h os \<Rightarrow> 'h sock_sys \<Rightarrow> (nat \<Rightarrow> int \<Rightarrow> 'h \<Rightarrow> perform_status \<times> int \<times> 'h) \<Rightarrow> (unit, 'h feed_world) reactor_env" where
  "feed_env os sys other =
     \<lparr>the_os = feed_os os, tq_empty = (\<lambda>q. True), tq_wait_duration_msec = (\<lambda>d q. d), tq_wait_duration_usec = (\<lambda>d q. d),
      tq_get_ready_timers = (\<lambda>q. ([], q)), tq_get_all_timers = (\<lambda>q. ([], q)), op_perform = feed_perform sys other\<rparr>"

section \<open>The handlers\<close>

type_synonym 'h feed_io = "(unit, 'h feed_world) io"

text \<open>\<open>async_receive_from\<close> of the feed handler: the operation starts without an error and without bytes.\<close>

definition feed_start_receive :: "(unit, 'h feed_world) reactor_env \<Rightarrow> 'h sock_sys \<Rightarrow> 'h feed_io \<Rightarrow> 'h feed_io" where
  "feed_start_receive env sys s =
     (let s = set_kernel ((kern s)\<lparr>bytes_transferred := 0\<rparr>) s;
          (impl, s) = sock_async_receive_from env (feed_sys sys) (feed_socket (kern s)) False receive_op False s
      in set_kernel ((kern s)\<lparr>feed_socket := impl\<rparr>) s)"

text \<open>The completion of the receive operation: the handler of the feed handler with the operation's error code and
  byte count; \<open>message\<close> is the text of an error, \<open>rdtsc\<close> the time stamp counter.\<close>

definition feed_complete ::
  "(unit, 'h feed_world) reactor_env \<Rightarrow> 'h sock_sys \<Rightarrow> (int \<Rightarrow> string) \<Rightarrow> ('h \<Rightarrow> u64 \<times> 'h) \<Rightarrow> 'h feed_io \<Rightarrow> 'h feed_io option" where
  "feed_complete env sys message rdtsc s =
     (let ec = op_ec (world s) receive_op;
          (tsc, w) = on_host rdtsc (kern s)
      in case on_receive tsc (if ec = 0 then None else Some (message ec)) (bytes_transferred w) (feed w) of
           Some (Inr fh) \<Rightarrow> Some (feed_start_receive env sys (set_kernel (w\<lparr>feed := fh\<rparr>) s))
         | _ \<Rightarrow> None)"

definition feed_handlers ::
  "(unit, 'h feed_world) reactor_env \<Rightarrow> 'h sock_sys \<Rightarrow> (int \<Rightarrow> string) \<Rightarrow> ('h \<Rightarrow> u64 \<times> 'h) \<Rightarrow> nat \<Rightarrow> u32 \<Rightarrow> 'h feed_io \<Rightarrow> 'h feed_io option" where
  "feed_handlers env sys message rdtsc x res s =
     (if x = receive_op then feed_complete env sys message rdtsc s
      else Some (sched_stop (reactor_interrupt env) s))"

text \<open>The constructor of \<open>basic_socket\<close> with an endpoint (open, bind), the receive buffer size, and the first receive. An
  error is thrown.\<close>

definition feed_construct ::
  "(unit, 'h feed_world) reactor_env \<Rightarrow> 'h sock_sys \<Rightarrow> bytes \<Rightarrow> 'h feed_io \<Rightarrow> int + 'h feed_io" where
  "feed_construct env sys endpoint s =
     (let (ec, impl, s) = do_open env (feed_sys sys) sock_construct 2 SOCK_DGRAM 17 s in
      if ec \<noteq> 0 then Inl ec
      else let (ec, s) = sock_bind (feed_sys sys) impl endpoint s in
      if ec \<noteq> 0 then Inl ec
      else let (ec, impl, s) =
                 sock_set_option (feed_sys sys) impl SOL_SOCKET SO_RCVBUF (le_bytes 4 (8 * 1024 * 1024 :: u32)) s in
      if ec \<noteq> 0 then Inl ec
      else let w = kern s;
               s = set_kernel (w\<lparr>feed_socket := impl, feed := start_receive (feed w)\<rparr>) s
           in Inr (feed_start_receive env sys s))"


section \<open>What the receive operation and its handler do\<close>

text \<open>What is documented of \<open>recvfrom\<close>: it returns the number of bytes it wrote, at most the size of the buffer, or an
  error and writes nothing; and it is not interrupted for ever. A call that changes the mode and fails has an error.\<close>

definition recv_laws :: "'h sock_sys \<Rightarrow> bool" where
  "recv_laws sys \<longleftrightarrow>
     (\<forall>s n f a h r e data addr h'. sys_recvfrom sys s n f a h = (r, e, (data, addr), h') \<longrightarrow>
        (r \<ge> 0 \<longrightarrow> r = int (length data) \<and> length data \<le> n) \<and> (r < 0 \<longrightarrow> data = [] \<and> e \<noteq> 0)) \<and>
     (\<forall>s n f a h. \<exists>m h'. after_interrupts m (so_recvfrom1 sys s n f a) h = Some h' \<and>
        \<not> was_interrupted (so_recvfrom1 sys s n f a) h') \<and>
     (\<forall>s c a h r e a' h'. sys_ioctl sys s c a h = (r, e, a', h') \<and> r < 0 \<longrightarrow> e \<noteq> 0) \<and>
     (\<forall>s h r e h'. sys_getfl sys s h = (r, e, h') \<and> r < 0 \<longrightarrow> e \<noteq> 0) \<and>
     (\<forall>s f h r e h'. sys_setfl sys s f h = (r, e, h') \<and> r < 0 \<longrightarrow> e \<noteq> 0)"

lemma recv_laws_returns:
  assumes "recv_laws sys"
  obtains m h' where "after_interrupts m (so_recvfrom1 sys s n f a) h = Some h'" "\<not> was_interrupted (so_recvfrom1 sys s n f a) h'"
  using conjunct1 [OF conjunct2 [OF assms [unfolded recv_laws_def]]] that by blast

lemma recv_laws_result:
  assumes "recv_laws sys" "sys_recvfrom sys s n f a h = (r, e, (data, addr), h')"
  shows "r \<ge> 0 \<longrightarrow> r = int (length data) \<and> length data \<le> n" "r < 0 \<longrightarrow> data = [] \<and> e \<noteq> 0"
  using conjunct1 [OF assms(1) [unfolded recv_laws_def]] assms(2) by blast+

lemma recv_laws_errors:
  assumes "recv_laws sys"
  shows "sys_ioctl sys s c b h = (r, e, b', h') \<Longrightarrow> r < 0 \<Longrightarrow> e \<noteq> 0"
    and "sys_getfl sys s h = (r, e, h') \<Longrightarrow> r < 0 \<Longrightarrow> e \<noteq> 0"
    and "sys_setfl sys s f h = (r, e, h') \<Longrightarrow> r < 0 \<Longrightarrow> e \<noteq> 0"
  using conjunct2 [OF conjunct2 [OF assms [unfolded recv_laws_def]]] by blast+

fun datagrams :: "net_event list \<Rightarrow> bytes list" where
  "datagrams [] = []"
| "datagrams (Datagram tsc d # es) = d # datagrams es"
| "datagrams (ReceiveError tsc msg # es) = datagrams es"

lemma datagrams_append [simp]: "datagrams (es @ fs) = datagrams es @ datagrams fs"
  by (induction es rule: datagrams.induct) auto

lemma on_events_append: "on_events (es @ fs) fh = seqc (on_events es fh) (on_events fs)"
proof (induction es arbitrary: fh)
  case (Cons e es)
  then have "on_events (es @ fs) = (\<lambda>fh. seqc (on_events es fh) (on_events fs))" by blast
  then show ?case by (simp add: seqc_assoc)
qed simp

text \<open>The feed handler has seen everything the socket gave; or the operation still carries the last result.\<close>

definition caught_up :: "FeedHandler \<Rightarrow> net_event list \<Rightarrow> 'h feed_world \<Rightarrow> bool" where
  "caught_up fh0 evs w \<longleftrightarrow> on_events evs fh0 = ret (feed w) \<and> handler_ok (feed w) \<and> received w = datagrams evs"

definition carrying :: "FeedHandler \<Rightarrow> net_event list \<Rightarrow> int \<Rightarrow> 'h feed_world \<Rightarrow> bool" where
  "carrying fh0 evs ec w \<longleftrightarrow> (\<exists>fh. on_events evs fh0 = ret fh \<and> handler_ok fh \<and>
     (if ec = 0
      then \<exists>data. received w = datagrams evs @ [data] \<and> length data \<le> PAYLOAD_SIZE - 8 \<and> bytes_transferred w = length data \<and>
             feed w = fh\<lparr>recv_buffer := receive_into data (recv_buffer fh)\<rparr>
      else received w = datagrams evs \<and> feed w = fh))"

lemma receive_into_nothing [simp]: "fh\<lparr>recv_buffer := receive_into [] (recv_buffer fh)\<rparr> = fh"
  by (simp add: receive_into_def)

lemma recv_perform_cases:
  assumes "recv_laws sys" "caught_up fh0 evs w" "recv_perform sys ec w = (st, ec', w')"
  shows "feed_socket w' = feed_socket w"
    and "st = not_done \<and> caught_up fh0 evs w' \<or> st = op_done \<and> carrying fh0 evs ec' w'"
proof -
  let ?at = "so_recvfrom1 sys (sk_socket (feed_socket w)) (PAYLOAD_SIZE - 8) 0 endpoint_capacity"
  obtain m h1 where h1: "after_interrupts m ?at (host w) = Some h1" "\<not> was_interrupted ?at h1"
    using recv_laws_returns [OF assms(1)] .
  obtain r e data addr h2 where c: "sys_recvfrom sys (sk_socket (feed_socket w)) (PAYLOAD_SIZE - 8) 0 endpoint_capacity h1 = (r, e, (data, addr), h2)"
    by (metis prod_cases3 surj_pair)
  note laws = recv_laws_result [OF assms(1) c]
  have at: "?at h1 = (r, get_last_error e (r < 0), (data, addr), h2)" by (simp add: so_recvfrom1_def c)
  have nb: "non_blocking_recvfrom1 sys (sk_socket (feed_socket w)) (PAYLOAD_SIZE - 8) 0 endpoint_capacity (host w) =
      Some (attempt_outcome False (r, get_last_error e (r < 0), (data, addr), h2))"
    using non_blocking_loop_returns [OF h1, of False] at by (simp add: non_blocking_recvfrom1_def)
  consider (data) "r \<ge> 0" | (again) "r < 0" "e = would_block" | (fail) "r < 0" "e \<noteq> would_block" by linarith
  then have "feed_socket w' = feed_socket w \<and> (st = not_done \<and> caught_up fh0 evs w' \<or> st = op_done \<and> carrying fh0 evs ec' w')"
  proof cases
    case data
    then show ?thesis
      using assms(2,3) laws(1) by (auto simp: recv_perform_def nb attempt_outcome_def get_last_error_def caught_up_def carrying_def)
  next
    case again
    then show ?thesis
      using assms(2,3) laws(2) by (auto simp: recv_perform_def nb attempt_outcome_def get_last_error_def caught_up_def)
  next
    case fail
    then show ?thesis
      using assms(2,3) laws(2) by (auto simp: recv_perform_def nb attempt_outcome_def get_last_error_def caught_up_def carrying_def)
  qed
  then show "feed_socket w' = feed_socket w"
    "st = not_done \<and> caught_up fh0 evs w' \<or> st = op_done \<and> carrying fh0 evs ec' w'" by auto
qed

text \<open>The handler turns what the operation carries into one more event.\<close>

lemma on_receive_carried:
  assumes "carrying fh0 evs ec w"
  obtains e fh' where "on_receive tsc (if ec = 0 then None else Some (message ec)) (bytes_transferred w) (feed w) = ret fh'"
    "on_events (evs @ [e]) fh0 = ret fh'" "handler_ok fh'" "received w = datagrams (evs @ [e])"
proof -
  obtain fh where fh: "on_events evs fh0 = ret fh" "handler_ok fh"
    and c: "if ec = 0
      then \<exists>data. received w = datagrams evs @ [data] \<and> length data \<le> PAYLOAD_SIZE - 8 \<and> bytes_transferred w = length data \<and>
             feed w = fh\<lparr>recv_buffer := receive_into data (recv_buffer fh)\<rparr>
      else received w = datagrams evs \<and> feed w = fh"
    using assms by (auto simp: carrying_def)
  show ?thesis
  proof (cases "ec = 0")
    case True
    then obtain data where d: "received w = datagrams evs @ [data]" "length data \<le> PAYLOAD_SIZE - 8"
      "bytes_transferred w = length data" "feed w = fh\<lparr>recv_buffer := receive_into data (recv_buffer fh)\<rparr>" using c by auto
    obtain fh' where f: "on_event (Datagram tsc data) fh = ret fh'" "handler_ok fh'"
      using on_event_law [OF fh(2), of "Datagram tsc data"] by blast
    show ?thesis
      using that [of fh' "Datagram tsc data"] f fh True d by (simp add: on_events_append)
  next
    case False
    obtain fh' where f: "on_event (ReceiveError tsc (message ec)) fh = ret fh'" "handler_ok fh'"
      using on_event_law [OF fh(2), of "ReceiveError tsc (message ec)"] by blast
    have "on_receive tsc (Some (message ec)) (bytes_transferred w) fh = ret fh'"
      using f(1) on_receive_error [OF fh(2)] by simp
    then show ?thesis
      using that [of fh' "ReceiveError tsc (message ec)"] f fh False c by (simp add: on_events_append)
  qed
qed


section \<open>Steps that leave the feed alone\<close>

text \<open>The program's memory, the operation's error code, the queues of the descriptors and the timer queues are the same.\<close>

definition same_memory :: "'h feed_world \<Rightarrow> 'h feed_world \<Rightarrow> bool" where
  "same_memory w w' \<longleftrightarrow> feed w' = feed w \<and> feed_socket w' = feed_socket w \<and>
     bytes_transferred w' = bytes_transferred w \<and> received w' = received w"

definition same_world :: "(unit, 'h feed_world) reactor \<Rightarrow> (unit, 'h feed_world) reactor \<Rightarrow> bool" where
  "same_world r r' \<longleftrightarrow> same_memory (kernel r) (kernel r') \<and> op_ec r' receive_op = op_ec r receive_op \<and>
     (\<forall>e. ds_op_queue (ds r' e) = ds_op_queue (ds r e) \<and> ds_shutdown (ds r' e) = ds_shutdown (ds r e)) \<and>
     timer_queues r' = timer_queues r"

lemma same_world_refl [simp]: "same_world r r"
  by (simp add: same_world_def same_memory_def)

lemma same_world_trans: "same_world p q \<Longrightarrow> same_world q r \<Longrightarrow> same_world p r"
  by (simp add: same_world_def same_memory_def)

lemma same_memory_host [simp]: "same_memory w (w\<lparr>host := h\<rparr>)" "same_memory w w"
  by (simp_all add: same_memory_def)

definition posted :: "(operation, 'w) scheduler \<Rightarrow> nat" where
  "posted s = count_list (op_q s @ private_q s) (Op (ClientOp receive_op))"

definition same_feed :: "'h feed_io \<Rightarrow> 'h feed_io \<Rightarrow> bool" where
  "same_feed s s' \<longleftrightarrow> same_world (world s) (world s') \<and> posted s' = posted s"

lemma same_feed_trans: "same_feed s t \<Longrightarrow> same_feed t u \<Longrightarrow> same_feed s u"
  using same_world_trans by (auto simp: same_feed_def)

lemma feed_env_simps [simp]:
  "the_os (feed_env os sys other) = feed_os os" "op_perform (feed_env os sys other) = feed_perform sys other"
  "tq_get_ready_timers (feed_env os sys other) = (\<lambda>q. ([], q))"
  by (simp_all add: feed_env_def)

lemma same_world_epoll_ctl: "same_world r (snd (snd (call_epoll_ctl (feed_env os sys other) c fd evs p r)))"
  by (simp add: call_epoll_ctl_def same_world_def feed_os_def on_host3_def Let_def split: prod.splits)

lemma same_world_interrupt: "same_world r (reactor_interrupt (feed_env os sys other) r)"
  by (simp add: reactor_interrupt_def same_world_epoll_ctl)

lemma same_world_timerfd: "same_world r (set_timerfd (feed_env os sys other) r)"
  by (simp add: set_timerfd_def same_world_def feed_os_def on_host_only_def split: prod.splits)

abbreviation feed_intr where "feed_intr os sys other \<equiv> reactor_interrupt (feed_env os sys other)"

lemma same_feed_interrupt_task: "same_feed s (interrupt_task (feed_intr os sys other) s)"
  by (simp add: interrupt_task_def same_feed_def posted_def same_world_interrupt)

lemma same_feed_upd:
  "same_feed s (t\<lparr>wakeup_event := e\<rparr>) = same_feed s t" "same_feed s (t\<lparr>sched_stopped := b\<rparr>) = same_feed s t"
  "same_feed s (t\<lparr>task_interrupted := b\<rparr>) = same_feed s t" "same_feed s (t\<lparr>outstanding_work := n\<rparr>) = same_feed s t"
  "same_feed s (t\<lparr>private_work := n\<rparr>) = same_feed s t" "same_feed s s"
  by (simp_all add: same_feed_def posted_def)

lemma same_feed_wake: "same_feed s (wake_one_thread_and_unlock (feed_intr os sys other) s)"
  using same_feed_interrupt_task [of s os sys other] same_feed_interrupt_task [of "s\<lparr>wakeup_event := _\<rparr>" os sys other]
  by (auto simp: wake_one_thread_and_unlock_def same_feed_upd Let_def split: prod.splits)
    (simp_all add: same_feed_def posted_def)

lemma same_feed_stop: "same_feed s (sched_stop (feed_intr os sys other) s)"
  using same_feed_interrupt_task [of "s\<lparr>sched_stopped := True, wakeup_event := ev_signal_all (wakeup_event s)\<rparr>" os sys other]
  by (simp add: sched_stop_def stop_all_threads_def same_feed_def posted_def)

lemma same_feed_work_finished: "same_feed s (work_finished (feed_intr os sys other) s)"
  using same_feed_stop [of "s\<lparr>outstanding_work := 0\<rparr>" os sys other]
  by (simp add: work_finished_def same_feed_def posted_def Let_def)

lemma same_feed_work_cleanup: "same_feed s (work_cleanup (feed_intr os sys other) s)"
  using same_feed_work_finished [of s os sys other]
  by (auto simp: work_cleanup_def same_feed_def posted_def Let_def)

lemma same_feed_compensate: "same_feed s (compensating_work_started s)"
  by (simp add: compensating_work_started_def same_feed_upd)

lemma dispatch_same:
  "dispatch_events events ops ct r = (ops', ct', r') \<Longrightarrow> ClientOp receive_op \<notin> set ops \<Longrightarrow>
     same_world r r' \<and> ClientOp receive_op \<notin> set ops'"
proof (induction events ops ct r rule: dispatch_events.induct)
  case (2 ptr evs events ops ct r)
  have upd: "same_world r (r\<lparr>ds := (ds r)(d := set_ready_events evs (ds r d))\<rparr>)"
    "same_world r (r\<lparr>ds := (ds r)(d := add_ready_events evs (ds r d))\<rparr>)" for d
    by (simp_all add: same_world_def set_ready_events_def add_ready_events_def)
  show ?case
  proof (cases ptr)
    case (DescriptorPtr d)
    then show ?thesis
      using "2.IH" "2.prems" upd [of d] same_world_trans by (cases "DescriptorOp d \<in> set ops") (simp_all, blast+)
  qed (use 2 in auto)
qed simp

lemma run_task_same:
  assumes "run_task (io_env (feed_env os sys other) handler) usec s = Some s'" "timer_queues (world s) = []"
  shows "same_feed s s'"
proof -
  let ?env = "feed_env os sys other"
  obtain ops r where run: "reactor_run ?env usec (world s) = Some (ops, r)"
    and s': "s' = task_cleanup (s\<lparr>world := r, private_q := private_q s @ map Op ops\<rparr>)"
    using assms(1) by (auto simp: run_task_def io_env_def bind_eq_Some_conv)
  obtain evs w where ep: "sys_epoll_wait (feed_os os) (epoll_fd (world s)) (run_timeout ?env usec (world s)) (kern s) = Some (evs, w)"
    using run by (auto simp: reactor_run_def split: option.splits)
  have "same_memory (kern s) w" using ep by (auto simp: feed_os_def)
  then have w1: "same_world (world s) ((world s)\<lparr>kernel := w\<rparr>)" by (simp add: same_world_def)
  obtain ops1 ct r1 where d: "dispatch_events evs [] (timer_fd (world s) = -1) ((world s)\<lparr>kernel := w\<rparr>) = (ops1, ct, r1)"
    by (metis prod_cases3)
  have r1: "same_world (world s) r1" "ClientOp receive_op \<notin> set ops1"
    using dispatch_same [OF d] same_world_trans [OF w1] by auto
  then have t: "timer_queues r1 = []" using assms(2) by (simp add: same_world_def)
  then have t1: "r1\<lparr>timer_queues := []\<rparr> = r1" by simp
  have "ops = ops1 \<and> same_world r1 r"
    using run t same_world_timerfd [of r1 os sys other]
    by (auto simp: reactor_run_def ep d tqs_get_ready_timers_def Let_def t1 split: if_splits)
  then have "same_world (world s) r" "ClientOp receive_op \<notin> set ops" using r1 same_world_trans by auto
  moreover have "count_list (map Op ops) (Op (ClientOp receive_op)) = 0"
    using calculation(2) by (simp add: count_list_0_iff image_iff)
  ultimately show ?thesis by (simp add: same_feed_def s' posted_def task_cleanup_def Let_def)
qed

section \<open>Where the receive operation is\<close>

text \<open>\<open>d\<close> is the descriptor state of the socket.\<close>

definition feed_base :: "nat \<Rightarrow> 'h feed_io \<Rightarrow> bool" where
  "feed_base d s \<longleftrightarrow> sk_reactor_data (feed_socket (kern s)) = Some d \<and> \<not> ds_shutdown (ds (world s) d) \<and>
     timer_queues (world s) = [] \<and>
     (\<forall>e j. (e, j) \<noteq> (d, read_op) \<longrightarrow> receive_op \<notin> set (ds_op_queue (ds (world s) e) j))"

text \<open>Between two handlers the operation waits at the descriptor, or it is queued for completion with a result. While
  its handler runs it is nowhere.\<close>

definition feed_inv :: "nat \<Rightarrow> FeedHandler \<Rightarrow> net_event list \<Rightarrow> 'h feed_io \<Rightarrow> bool" where
  "feed_inv d fh0 evs s \<longleftrightarrow> feed_base d s \<and>
     (posted s = 0 \<and> ds_op_queue (ds (world s) d) read_op = [receive_op] \<and> caught_up fh0 evs (kern s) \<or>
      posted s = 1 \<and> ds_op_queue (ds (world s) d) read_op = [] \<and> carrying fh0 evs (op_ec (world s) receive_op) (kern s))"

definition feed_nowhere :: "nat \<Rightarrow> 'h feed_io \<Rightarrow> bool" where
  "feed_nowhere d s \<longleftrightarrow> feed_base d s \<and> posted s = 0 \<and> ds_op_queue (ds (world s) d) read_op = []"

lemma same_memory_caught_up: "same_memory w w' \<Longrightarrow> caught_up fh0 evs w' = caught_up fh0 evs w"
  by (simp add: same_memory_def caught_up_def)

lemma same_memory_carrying: "same_memory w w' \<Longrightarrow> carrying fh0 evs ec w' = carrying fh0 evs ec w"
  by (simp add: same_memory_def carrying_def)

lemma same_feed_base: "same_feed s s' \<Longrightarrow> feed_base d s' = feed_base d s"
  by (simp add: same_feed_def same_world_def same_memory_def feed_base_def)

lemma same_feed_inv: "same_feed s s' \<Longrightarrow> feed_inv d fh0 evs s' = feed_inv d fh0 evs s"
  using same_feed_base [of s s' d] same_memory_caught_up [of "kern s" "kern s'" fh0 evs]
    same_memory_carrying [of "kern s" "kern s'" fh0 evs "op_ec (world s) receive_op"]
  by (simp add: same_feed_def same_world_def feed_inv_def)

lemma same_feed_nowhere: "same_feed s s' \<Longrightarrow> feed_nowhere d s' = feed_nowhere d s"
  using same_feed_base [of s s' d] by (simp add: same_feed_def same_world_def feed_nowhere_def)


section \<open>Starting a receive\<close>

lemma change_fl_feed:
  assumes "recv_laws sys" "change_fl (feed_sys sys) s v w = (r, ec, w')"
  shows "same_memory w w' \<and> (r < 0 \<longrightarrow> ec \<noteq> 0)"
proof -
  obtain f e h where g: "sys_getfl sys s (host w) = (f, e, h)" using prod_cases3 by blast
  have ge: "f < 0 \<Longrightarrow> e \<noteq> 0" using recv_laws_errors(2) [OF assms(1) g] .
  define flag where "flag = (if v then f OR O_NONBLOCK else f AND NOT O_NONBLOCK)"
  obtain f2 e2 h2 where st: "sys_setfl sys s flag h = (f2, e2, h2)" using prod_cases3 by blast
  have se: "f2 < 0 \<Longrightarrow> e2 \<noteq> 0" using recv_laws_errors(3) [OF assms(1) st] .
  show ?thesis
    using assms(2) ge se
    by (auto simp: change_fl_def feed_sys_def on_host3_def g flag_def [symmetric] st get_last_error_def Let_def same_memory_def
        split: if_splits)
qed

lemma set_internal_feed:
  assumes "recv_laws sys" "set_internal_non_blocking (feed_sys sys) s state v ec w = (ok, ec', state', w')"
  shows "same_memory w w' \<and> (\<not> ok \<longrightarrow> ec' \<noteq> 0)"
proof -
  obtain r e a h where i: "sys_ioctl sys s FIONBIO (if v then 1 else 0) (host w) = (r, e, a, h)" by (metis prod_cases4)
  have ie: "r < 0 \<Longrightarrow> e \<noteq> 0" using recv_laws_errors(1) [OF assms(1) i] .
  have cm: "same_memory w w2 \<and> (r2 < 0 \<longrightarrow> ec2 \<noteq> 0)"
    if "change_mode (feed_sys sys) s state v ec w = (r2, ec2, w2)" for r2 ec2 w2
  proof -
    have io: "sys_ioctl (feed_sys sys) s FIONBIO (if v then 1 else 0) w = (r, e, a, w\<lparr>host := h\<rparr>)"
      by (simp add: feed_sys_def on_host4_def i)
    have f1: "same_memory w w2 \<and> (r2 < 0 \<longrightarrow> ec2 \<noteq> 0)" if "change_fl (feed_sys sys) s v w1 = (r2, ec2, w2)" "same_memory w w1" for w1
      using change_fl_feed [OF assms(1) that(1)] that(2) by (simp add: same_memory_def)
    show ?thesis
      using that f1 ie
      by (auto simp: change_mode_def io get_last_error_def split: if_splits)
  qed
  obtain r2 ec2 w2 where m: "change_mode (feed_sys sys) s state v ec w = (r2, ec2, w2)" using prod_cases3 by blast
  show ?thesis
    using assms(2) cm [OF m] by (auto simp: set_internal_non_blocking_def m split: if_splits)
qed

lemma carrying_error: "caught_up fh0 evs w \<Longrightarrow> ec \<noteq> 0 \<Longrightarrow> carrying fh0 evs ec w"
  by (simp add: caught_up_def carrying_def)

text \<open>The two ways a start ends.\<close>

lemma immediate_inv:
  assumes "feed_nowhere d s" "carrying fh0 evs (op_ec (world s) receive_op) (kern s)"
  shows "feed_inv d fh0 evs (call_post_immediate_completion (feed_env os sys other) receive_op c s)"
proof -
  define t where "t = s\<lparr>outstanding_work := outstanding_work s + 1, op_q := op_q s @ [Op (ClientOp receive_op)]\<rparr>"
  define u where "u = s\<lparr>private_work := private_work s + 1, private_q := private_q s @ [Op (ClientOp receive_op)]\<rparr>"
  have "feed_inv d fh0 evs t" "feed_inv d fh0 evs u"
    using assms by (simp_all add: t_def u_def feed_inv_def feed_nowhere_def feed_base_def posted_def)
  moreover have "call_post_immediate_completion (feed_env os sys other) receive_op c s =
      (if (one_thread s \<or> c) \<and> in_scheduler s then u else wake_one_thread_and_unlock (feed_intr os sys other) t)"
    by (simp add: call_post_immediate_completion_def reactor_post_immediate_completion_def post_immediate_completion_def
        t_def u_def work_started_def Let_def)
  ultimately show ?thesis by (simp add: same_feed_inv [OF same_feed_wake])
qed

lemma enqueue_inv:
  assumes "feed_nowhere d s" "caught_up fh0 evs (kern s)"
  shows "feed_inv d fh0 evs (enqueue_op read_op d receive_op s)"
  using assms
  by (auto simp: enqueue_op_def work_started_def upd_ds_def feed_inv_def feed_nowhere_def feed_base_def posted_def)

lemma op_ec_set [simp]: "op_ec (world (set_op_ec x ec s)) x = ec"
  by (simp add: set_op_ec_def)

lemma nowhere_simps:
  "feed_nowhere d (set_op_ec x ec s) = feed_nowhere d s"
  "feed_nowhere d (upd_ds d (\<lambda>st. st\<lparr>try_speculative := g st\<rparr>) s) = feed_nowhere d s"
  by (auto simp: feed_nowhere_def feed_base_def posted_def set_op_ec_def upd_ds_def)

lemma start_op_feed:
  assumes "recv_laws sys" "feed_nowhere d s" "caught_up fh0 evs (kern s)" and env_def: "env = feed_env os sys other"
  shows "feed_inv d fh0 evs (start_op env read_op fd (Some d) receive_op c True (call_post_immediate_completion env) s)"
proof -
  let ?oi = "call_post_immediate_completion env" and ?st = "ds (world s) d"
  have b: "\<not> ds_shutdown ?st" "ds_op_queue ?st read_op = []" using assms(2) by (simp_all add: feed_nowhere_def feed_base_def)
  have imm: "feed_inv d fh0 evs (?oi receive_op c t)"
    if "feed_nowhere d t" "carrying fh0 evs (op_ec (world t) receive_op) (kern t)" for t
    using immediate_inv [OF that] by (simp add: env_def)
  have no: "feed_inv d fh0 evs (?oi receive_op c (set_op_ec receive_op operation_not_supported t))"
    if "feed_nowhere d t" "caught_up fh0 evs (kern t)" for t
    using imm [of "set_op_ec receive_op operation_not_supported t"] that carrying_error [OF that(2), of operation_not_supported]
    by (simp add: nowhere_simps)
  obtain st r where p: "perform_op env receive_op (world s) = (st, r)" by fastforce
  obtain ec w where w: "recv_perform sys (op_ec (world s) receive_op) (kern s) = (st, ec, w)"
    and r: "r = (world s)\<lparr>op_ec := (op_ec (world s))(receive_op := ec), kernel := w\<rparr>"
    using p by (auto simp: perform_op_def env_def feed_perform_def split: prod.splits)
  note rp = recv_perform_cases [OF assms(1,3) w]
  let ?s = "s\<lparr>world := r\<rparr>"
  have ns: "feed_nowhere d ?s" using assms(2) rp(1) by (simp add: feed_nowhere_def feed_base_def r posted_def)
  show ?thesis
  proof (cases "ds_op_queue ?st except_op = []")
    case True
    show ?thesis
    proof (cases "try_speculative ?st read_op \<and> st \<noteq> not_done")
      case fin: True
      then have "carrying fh0 evs (op_ec (world ?s) receive_op) (kern ?s)" "st = op_done" using rp(2) by (auto simp: r)
      then show ?thesis using fin b True imm [OF ns] by (simp add: start_op_def p)
    next
      case False
      define t where "t = (if try_speculative ?st read_op then ?s else s)"
      have t: "feed_nowhere d t" "caught_up fh0 evs (kern t)"
        using False assms(2,3) ns rp(2) by (auto simp: t_def r)
      have "start_op env read_op fd (Some d) receive_op c True ?oi s =
          (if registered_events ?st = 0 then ?oi receive_op c (set_op_ec receive_op operation_not_supported t)
           else enqueue_op read_op d receive_op t)"
        using False b True by (auto simp: start_op_def p t_def)
      then show ?thesis using no [OF t] enqueue_inv [OF t] by simp
    qed
  next
    case False
    define t where "t = s\<lparr>world := snd (snd (call_epoll_ctl env EPOLL_CTL_MOD fd (registered_events ?st) (DescriptorPtr d) (world s)))\<rparr>"
    have "same_feed s t" using same_world_epoll_ctl by (simp add: same_feed_def t_def posted_def env_def)
    then have t: "feed_nowhere d t" "caught_up fh0 evs (kern t)"
      using assms(2,3) same_feed_nowhere [of s t] same_memory_caught_up [of "kern s" "kern t"]
      by (simp_all add: same_feed_def same_world_def)
    have "start_op env read_op fd (Some d) receive_op c True ?oi s =
        (if registered_events ?st = 0 then ?oi receive_op c (set_op_ec receive_op operation_not_supported s)
         else enqueue_op read_op d receive_op t)"
      using False b by (simp add: start_op_def t_def split: prod.splits)
    then show ?thesis using no [OF assms(2,3)] enqueue_inv [OF t] by simp
  qed
qed


lemma feed_memory:
  assumes "feed_nowhere d s" "caught_up fh0 evs (kern s)" "same_memory (kern s) w"
  shows "feed_nowhere d (set_op_ec x ec (set_kernel w s))" "caught_up fh0 evs (kern (set_op_ec x ec (set_kernel w s)))"
  using assms same_memory_caught_up [OF assms(3)]
  by (simp_all add: nowhere_simps) (simp add: feed_nowhere_def feed_base_def posted_def set_kernel_def same_memory_def)

text \<open>Giving the socket a new value of the same descriptor.\<close>

lemma carried_socket [simp]:
  "caught_up fh0 evs (w\<lparr>feed_socket := impl\<rparr>) = caught_up fh0 evs w"
  "carrying fh0 evs ec (w\<lparr>feed_socket := impl\<rparr>) = carrying fh0 evs ec w"
  by (simp_all add: caught_up_def carrying_def)

lemma feed_inv_socket:
  assumes "feed_inv d fh0 evs s" "sk_reactor_data impl = Some d"
  shows "feed_inv d fh0 evs (set_kernel ((kern s)\<lparr>feed_socket := impl\<rparr>) s)"
  using assms by (simp add: feed_inv_def feed_base_def set_kernel_def posted_def)

lemma feed_start_receive_inv:
  assumes "recv_laws sys" "feed_nowhere d s" "caught_up fh0 evs (kern s)" and env: "env = feed_env os sys other"
  shows "feed_inv d fh0 evs (feed_start_receive env sys s)"
proof -
  let ?oi = "call_post_immediate_completion env" and ?impl = "feed_socket (kern s)"
  define s2 where "s2 = set_op_ec receive_op 0 (set_kernel ((kern s)\<lparr>bytes_transferred := 0\<rparr>) s)"
  have s2: "feed_nowhere d s2" "caught_up fh0 evs (kern s2)"
    using assms(2,3) by (simp_all add: s2_def nowhere_simps caught_up_def)
      (simp add: feed_nowhere_def feed_base_def posted_def set_kernel_def)
  have d: "sk_reactor_data ?impl = Some d" using assms(2) by (simp add: feed_nowhere_def feed_base_def)
  obtain impl t where do1: "do_start_op env (feed_sys sys) ?impl read_op receive_op False True False True ?oi s2 = (impl, t)" by fastforce
  have "feed_inv d fh0 evs t \<and> sk_reactor_data impl = Some d"
  proof (cases "has (sk_state ?impl) non_blocking")
    case True
    then show ?thesis
      using do1 start_op_feed [OF assms(1) s2 env] d by (auto simp: do_start_op_def)
  next
    case False
    obtain ok ec st w where m: "set_internal_non_blocking (feed_sys sys) (sk_socket ?impl) (sk_state ?impl) True (op_ec (world s2) receive_op) (kern s2) = (ok, ec, st, w)"
      by (metis prod_cases4)
    note sf = set_internal_feed [OF assms(1) m]
    let ?t = "set_op_ec receive_op ec (set_kernel w s2)"
    have t: "feed_nowhere d ?t" "caught_up fh0 evs (kern ?t)" using feed_memory [OF s2, of w] sf by blast+
    have "feed_inv d fh0 evs (if ok then start_op env read_op (sk_socket ?impl) (Some d) receive_op False True ?oi ?t else ?oi receive_op False ?t)"
      using start_op_feed [OF assms(1) t env] immediate_inv [OF t(1), of fh0 evs os sys other False] carrying_error [OF t(2), of ec] sf
      by (simp add: env)
    then show ?thesis using do1 False d by (auto simp: do_start_op_def m split: if_splits)
  qed
  moreover have "feed_start_receive env sys s = set_kernel ((kern t)\<lparr>feed_socket := impl\<rparr>) t"
    using do1 by (simp add: feed_start_receive_def sock_async_receive_from_def s2_def Let_def)
  ultimately show ?thesis by (simp add: feed_inv_socket)
qed

lemma feed_complete_inv:
  assumes "recv_laws sys" "feed_nowhere d s" "carrying fh0 evs (op_ec (world s) receive_op) (kern s)"
    and env: "env = feed_env os sys other"
  shows "\<exists>e s'. feed_complete env sys message rdtsc s = Some s' \<and> feed_inv d fh0 (evs @ [e]) s'"
proof -
  obtain tsc h where r: "rdtsc (host (kern s)) = (tsc, h)" by fastforce
  let ?w = "(kern s)\<lparr>host := h\<rparr>"
  have "carrying fh0 evs (op_ec (world s) receive_op) ?w" using assms(3) same_memory_carrying [OF same_memory_host(1) [of "kern s" h]] by blast
  then obtain e fh' where e: "on_receive tsc (if op_ec (world s) receive_op = 0 then None else Some (message (op_ec (world s) receive_op)))
      (bytes_transferred ?w) (feed ?w) = ret fh'"
    "on_events (evs @ [e]) fh0 = ret fh'" "handler_ok fh'" "received ?w = datagrams (evs @ [e])"
    by (rule on_receive_carried)
  let ?s = "set_kernel (?w\<lparr>feed := fh'\<rparr>) s"
  have "feed_nowhere d ?s" using assms(2) by (simp add: feed_nowhere_def feed_base_def posted_def set_kernel_def)
  moreover have "caught_up fh0 (evs @ [e]) (kern ?s)" using e by (simp add: caught_up_def)
  ultimately have "feed_inv d fh0 (evs @ [e]) (feed_start_receive env sys ?s)"
    using feed_start_receive_inv [OF assms(1) _ _ env] by blast
  moreover have "feed_complete env sys message rdtsc s = Some (feed_start_receive env sys ?s)"
    using e(1) by (simp add: feed_complete_def on_host_def r ret_def)
  ultimately show ?thesis by blast
qed

end
