(* ===== verification/FeedRun.thy ===== *)
theory FeedRun
  imports FeedSocket
begin

text \<open>
  The feed handler's socket under \<open>io_context::run\<close>: what a descriptor's completion, a completion and a round of the
  scheduler do to the receive operation, and the properties of the whole path from \<open>recvfrom\<close> to the ring.
\<close>

section \<open>Performing operations\<close>

lemma perform_op_other:
  "x \<noteq> receive_op \<Longrightarrow> perform_op (feed_env os sys other) x r = (st, r') \<Longrightarrow> same_world r r'"
  by (auto simp: perform_op_def feed_perform_def on_host3_def same_world_def Let_def split: prod.splits)

lemma perform_queue_other:
  "perform_queue env xs r = (ops, rest, spec, r') \<Longrightarrow> env = feed_env os sys other \<Longrightarrow> receive_op \<notin> set xs \<Longrightarrow> same_world r r'"
proof (induction env xs r arbitrary: ops rest spec r' rule: perform_queue.induct)
  case (2 env x xs r)
  obtain st r1 where p: "perform_op env x r = (st, r1)" by fastforce
  then have s1: "same_world r r1" using 2(3,4) perform_op_other [of x os sys other r] by auto
  show ?case
    using "2.IH" [OF p [symmetric]] "2.prems" p s1 same_world_trans by (cases st) (auto split: prod.splits)
qed simp

definition reactor_base :: "nat \<Rightarrow> (unit, 'h feed_world) reactor \<Rightarrow> bool" where
  "reactor_base d r \<longleftrightarrow> sk_reactor_data (feed_socket (kernel r)) = Some d \<and> \<not> ds_shutdown (ds r d) \<and> timer_queues r = [] \<and>
     (\<forall>e j. (e, j) \<noteq> (d, read_op) \<longrightarrow> receive_op \<notin> set (ds_op_queue (ds r e) j))"

lemma feed_base_reactor: "feed_base d s = reactor_base d (world s)"
  by (simp add: feed_base_def reactor_base_def)

text \<open>The operation waits at the descriptor, or is away with a result.\<close>

definition waiting :: "nat \<Rightarrow> FeedHandler \<Rightarrow> net_event list \<Rightarrow> (unit, 'h feed_world) reactor \<Rightarrow> bool" where
  "waiting d fh0 evs r \<longleftrightarrow> reactor_base d r \<and> ds_op_queue (ds r d) read_op = [receive_op] \<and> caught_up fh0 evs (kernel r)"

definition away :: "nat \<Rightarrow> FeedHandler \<Rightarrow> net_event list \<Rightarrow> (unit, 'h feed_world) reactor \<Rightarrow> bool" where
  "away d fh0 evs r \<longleftrightarrow> reactor_base d r \<and> ds_op_queue (ds r d) read_op = [] \<and> carrying fh0 evs (op_ec r receive_op) (kernel r)"

lemma feed_inv_split: "feed_inv d fh0 evs s \<longleftrightarrow> posted s = 0 \<and> waiting d fh0 evs (world s) \<or> posted s = 1 \<and> away d fh0 evs (world s)"
  by (auto simp: feed_inv_def waiting_def away_def feed_base_reactor)

lemma slot_other:
  assumes "perform_slot (feed_env os sys other) e evs j r = (ops, r')" "(e, j) \<noteq> (d, read_op)" "reactor_base d r"
  shows "receive_op \<notin> set ops" "waiting d fh0 es r \<Longrightarrow> waiting d fh0 es r'" "away d fh0 es r \<Longrightarrow> away d fh0 es r'"
    "reactor_base d r'"
proof -
  obtain ops1 rest spec r1 where q: "perform_queue (feed_env os sys other) (ds_op_queue (ds r e) j) r = (ops1, rest, spec, r1)"
    by (metis prod_cases4)
  have nin: "receive_op \<notin> set (ds_op_queue (ds r e) j)" using assms(2,3) by (auto simp: reactor_base_def)
  have parts: "ds_op_queue (ds r e) j = ops1 @ rest" "ds r1 = ds r" using perform_queue_parts [OF q] by auto
  have sw: "same_world r r1" using perform_queue_other [OF q refl nin] .
  define r2 where "r2 = r1\<lparr>ds := (ds r1)(e := (ds r1 e)\<lparr>ds_op_queue := (ds_op_queue (ds r1 e))(j := rest),
      try_speculative := (try_speculative (ds r1 e))(j := spec)\<rparr>)\<rparr>"
  have cases: "ops = ops1 \<and> r' = r2 \<or> ops = [] \<and> r' = r"
    using assms(1) by (auto simp: perform_slot_def q r2_def Let_def split: if_splits)
  have q2: "ds_op_queue (ds r2 d) read_op = ds_op_queue (ds r d) read_op"
    using assms(2) parts(2) by (auto simp: r2_def)
  have k2: "same_memory (kernel r) (kernel r2)" "op_ec r2 receive_op = op_ec r receive_op" "timer_queues r2 = timer_queues r"
    using sw by (simp_all add: r2_def same_world_def)
  have "\<forall>e' j'. (e', j') \<noteq> (d, read_op) \<longrightarrow> receive_op \<notin> set (ds_op_queue (ds r2 e') j')"
    using assms(3) parts nin by (auto simp: r2_def reactor_base_def)
  then have b2: "reactor_base d r2"
    using assms(3) k2 parts(2) by (auto simp: reactor_base_def same_memory_def r2_def)
  show "receive_op \<notin> set ops" using cases nin parts(1) by auto
  show "reactor_base d r'" using cases b2 assms(3) by auto
  show "waiting d fh0 es r'" if "waiting d fh0 es r"
    using cases that b2 q2 same_memory_caught_up [OF k2(1)] by (auto simp: waiting_def)
  show "away d fh0 es r'" if "away d fh0 es r"
    using cases that b2 q2 k2(2) same_memory_carrying [OF k2(1)] by (auto simp: away_def)
qed


lemma perform_slot_cases:
  assumes "perform_slot env d evs j r = (ops, r')"
  obtains "ops = []" "r' = r"
  | rest spec r1 where "perform_queue env (ds_op_queue (ds r d) j) r = (ops, rest, spec, r1)"
      "r' = r1\<lparr>ds := (ds r1)(d := (ds r1 d)\<lparr>ds_op_queue := (ds_op_queue (ds r1 d))(j := rest),
         try_speculative := (try_speculative (ds r1 d))(j := spec)\<rparr>)\<rparr>"
proof (cases "evs AND (perform_flag j OR EPOLLERR OR EPOLLHUP) = 0")
  case False
  obtain ops1 rest spec r1 where "perform_queue env (ds_op_queue (ds r d) j) r = (ops1, rest, spec, r1)" by (metis prod_cases4)
  then show ?thesis using that(2) assms False by (simp add: perform_slot_def Let_def)
qed (use that assms in \<open>simp add: perform_slot_def\<close>)

lemma slot_read:
  assumes "perform_slot (feed_env os sys other) d evs read_op r = (ops, r')" "recv_laws sys"
  shows "away d fh0 es r \<Longrightarrow> ops = [] \<and> away d fh0 es r'"
    "waiting d fh0 es r \<Longrightarrow> ops = [] \<and> waiting d fh0 es r' \<or> ops = [receive_op] \<and> away d fh0 es r'"
proof -
  show "ops = [] \<and> away d fh0 es r'" if "away d fh0 es r"
    using assms(1) that by (auto simp: perform_slot_def away_def reactor_base_def Let_def split: if_splits)
  show "ops = [] \<and> waiting d fh0 es r' \<or> ops = [receive_op] \<and> away d fh0 es r'" if w: "waiting d fh0 es r"
  proof -
    obtain st ec k where rp: "recv_perform sys (op_ec r receive_op) (kernel r) = (st, ec, k)" using prod_cases3 by blast
    have p: "perform_op (feed_env os sys other) receive_op r = (st, r\<lparr>op_ec := (op_ec r)(receive_op := ec), kernel := k\<rparr>)"
      by (simp add: perform_op_def feed_perform_def rp)
    have q: "ds_op_queue (ds r d) read_op = [receive_op]" and base: "reactor_base d r" using w by (simp_all add: waiting_def)
    note cs = recv_perform_cases [OF assms(2) _ rp, of fh0 es]
    have c: "feed_socket k = feed_socket (kernel r)"
      "st = not_done \<and> caught_up fh0 es k \<or> st = op_done \<and> carrying fh0 es ec k"
      using cs w by (simp_all add: waiting_def)
    have once: "perform_queue (feed_env os sys other) [receive_op] r = (if st = not_done
        then ([], [receive_op], True, r\<lparr>op_ec := (op_ec r)(receive_op := ec), kernel := k\<rparr>)
        else ([receive_op], [], True, r\<lparr>op_ec := (op_ec r)(receive_op := ec), kernel := k\<rparr>))"
      using c(2) by (auto simp: p)
    from assms(1) show ?thesis
    proof (rule perform_slot_cases)
      fix rest spec r1
      assume 1: "perform_queue (feed_env os sys other) (ds_op_queue (ds r d) read_op) r = (ops, rest, spec, r1)"
        "r' = r1\<lparr>ds := (ds r1)(d := (ds r1 d)\<lparr>ds_op_queue := (ds_op_queue (ds r1 d))(read_op := rest),
           try_speculative := (try_speculative (ds r1 d))(read_op := spec)\<rparr>)\<rparr>"
      show ?thesis
        using c base q 1(1) [unfolded q once] by (auto simp: 1(2) waiting_def away_def reactor_base_def split: if_splits)
    qed (simp add: w)
  qed
qed

lemma posted_deferreds:
  "posted (post_deferred_completions (feed_intr os sys other) (map ClientOp xs) s) = posted s + count_list xs receive_op"
proof -
  have "count_list (map (Op \<circ> ClientOp) xs) (Op (ClientOp receive_op)) = count_list xs receive_op" for xs
    by (induction xs) auto
  then show ?thesis by (simp add: post_deferred_completions_def posted_def)
qed

lemma world_deferreds:
  "same_world (world s) (world (post_deferred_completions (feed_intr os sys other) (map ClientOp xs) s))"
  using same_feed_wake [of "s\<lparr>op_q := op_q s @ map (Op \<circ> ClientOp) xs\<rparr>" os sys other]
  by (simp add: post_deferred_completions_def same_feed_def)

lemma same_world_places:
  assumes "same_world r r'"
  shows "waiting d fh0 es r' = waiting d fh0 es r" "away d fh0 es r' = away d fh0 es r"
  using assms same_memory_caught_up [of "kernel r" "kernel r'" fh0 es]
    same_memory_carrying [of "kernel r" "kernel r'" fh0 es "op_ec r receive_op"]
  by (simp_all add: same_world_def waiting_def away_def reactor_base_def) (auto simp: same_memory_def)

text \<open>Performing the operations of a descriptor: the receive operation comes back for its handler, or it stays or is
  posted.\<close>

lemma slots_feed:
  assumes "perform_slot env e evs except_op r = (ops2, r2)" "perform_slot env e evs write_op r2 = (ops1, r1)"
    "perform_slot env e evs read_op r1 = (ops0, r0)" "env = feed_env os sys other" "recv_laws sys"
  shows "away d fh0 es r \<Longrightarrow> receive_op \<notin> set (ops2 @ ops1 @ ops0) \<and> away d fh0 es r0"
    "waiting d fh0 es r \<Longrightarrow> receive_op \<notin> set (ops2 @ ops1 @ ops0) \<and> waiting d fh0 es r0 \<or>
       receive_op \<notin> set (ops2 @ ops1) \<and> ops0 = [receive_op] \<and> away d fh0 es r0"
proof -
  have base: "reactor_base d r" if "away d fh0 es r \<or> waiting d fh0 es r" using that by (auto simp: away_def waiting_def)
  note o2 = slot_other [OF assms(1) [unfolded assms(4)], of d] and o1 = slot_other [OF assms(2) [unfolded assms(4)], of d]
  have 21: "receive_op \<notin> set (ops2 @ ops1)" "reactor_base d r1" "waiting d fh0 es r \<Longrightarrow> waiting d fh0 es r1"
    "away d fh0 es r \<Longrightarrow> away d fh0 es r1" if "reactor_base d r"
    using o2(1,4) that o1(1,4) o1(2,3) [of fh0 es] o2(2,3) [of fh0 es] by auto
  note o0 = slot_other [OF assms(3) [unfolded assms(4)], of d]
  note r0 = slot_read [OF _ assms(5), of os other d evs r1 ops0 r0 fh0 es]
  show "receive_op \<notin> set (ops2 @ ops1 @ ops0) \<and> away d fh0 es r0" if a: "away d fh0 es r"
  proof (cases "e = d")
    case True
    then show ?thesis using 21 base a r0(1) assms(3,4) by auto
  next
    case False
    then show ?thesis using 21 base a o0(1) o0(3) [of fh0 es] by auto
  qed
  show "receive_op \<notin> set (ops2 @ ops1 @ ops0) \<and> waiting d fh0 es r0 \<or>
       receive_op \<notin> set (ops2 @ ops1) \<and> ops0 = [receive_op] \<and> away d fh0 es r0" if a: "waiting d fh0 es r"
  proof (cases "e = d")
    case True
    then show ?thesis using 21 base a r0(2) assms(3,4) by auto
  next
    case False
    then show ?thesis using 21 base a o0(1) o0(2) [of fh0 es] by auto
  qed
qed

lemma perform_io_feed:
  assumes "perform_io env e evs s = (fo, s')" "env = feed_env os sys other" "recv_laws sys" "feed_inv d fh0 es s"
  shows "fo = Some receive_op \<and> posted s' = 0 \<and> away d fh0 es (world s') \<or> fo \<noteq> Some receive_op \<and> feed_inv d fh0 es s'"
proof -
  obtain ops2 r2 where 2: "perform_slot env e evs except_op (world s) = (ops2, r2)" by fastforce
  obtain ops1 r1 where 1: "perform_slot env e evs write_op r2 = (ops1, r1)" by fastforce
  obtain ops0 r0 where 0: "perform_slot env e evs read_op r1 = (ops0, r0)" by fastforce
  note sl = slots_feed [OF 2 1 0 assms(2,3), of d fh0 es]
  let ?s = "s\<lparr>world := r0\<rparr>"
  define ops where "ops = ops2 @ ops1 @ ops0"
  have io: "perform_io env e evs s = (case ops of
      [] \<Rightarrow> (None, compensating_work_started ?s)
    | first_op # rest \<Rightarrow> (Some first_op, if rest \<noteq> []
         then post_deferred_completions (reactor_interrupt env) (map ClientOp rest) ?s else ?s))"
    unfolding ops_def by (rule perform_io_eq [OF 2 1 0])
  have p: "posted ?s = posted s" by (simp add: posted_def)
  define rest where "rest = tl ops"
  have world: "same_world r0 (world s')" "posted s' = posted s + count_list rest receive_op"
    using assms(1) io world_deferreds [of ?s os sys other rest] posted_deferreds [of os sys other rest ?s] p assms(2)
    by (auto simp: rest_def compensating_work_started_def posted_def split: list.splits if_splits)
  have fo: "fo = (case ops of [] \<Rightarrow> None | x # _ \<Rightarrow> Some x)" using assms(1) io by (auto split: list.splits)
  note pl = same_world_places [OF world(1), of d fh0 es]
  consider (away) "posted s = 1" "away d fh0 es (world s)" | (waiting) "posted s = 0" "waiting d fh0 es (world s)"
    using assms(4) by (auto simp: feed_inv_split)
  then show ?thesis
  proof cases
    case away
    then have "receive_op \<notin> set ops" "away d fh0 es r0" using sl(1) by (simp_all add: ops_def)
    then show ?thesis
      using away world(2) pl fo by (auto simp: feed_inv_split rest_def count_list_0_iff split: list.splits)
  next
    case waiting
    from sl(2) [OF waiting(2)] consider (stay) "receive_op \<notin> set ops" "waiting d fh0 es r0"
      | (come) "receive_op \<notin> set (ops2 @ ops1)" "ops0 = [receive_op]" "away d fh0 es r0" by (auto simp: ops_def)
    then show ?thesis
    proof cases
      case stay
      then show ?thesis
        using waiting(1) world(2) pl fo by (auto simp: feed_inv_split rest_def count_list_0_iff split: list.splits)
    next
      case come
      show ?thesis
      proof (cases "ops2 @ ops1")
        case Nil
        then show ?thesis using come waiting(1) world(2) pl fo by (simp add: ops_def rest_def)
      next
        case (Cons x xs)
        then have o: "ops = x # xs @ [receive_op]" using come(2) by (simp add: ops_def)
        have "x \<noteq> receive_op" "receive_op \<notin> set xs" using come(1) Cons by auto
        then show ?thesis
          using come waiting(1) world(2) pl fo by (simp add: o rest_def feed_inv_split count_list_0_iff)
      qed
    qed
  qed
qed


section \<open>Rounds of the scheduler\<close>

lemma handlers_feed:
  assumes "recv_laws sys" and env: "env = feed_env os sys other"
    and place: "x = receive_op \<and> posted s = 0 \<and> away d fh0 es (world s) \<or> x \<noteq> receive_op \<and> feed_inv d fh0 es s"
  shows "\<exists>more s'. feed_handlers env sys message rdtsc x res s = Some s' \<and> feed_inv d fh0 (es @ more) s'"
  using place
proof
  assume a: "x = receive_op \<and> posted s = 0 \<and> away d fh0 es (world s)"
  then have "feed_nowhere d s" "carrying fh0 es (op_ec (world s) receive_op) (kern s)"
    by (simp_all add: feed_nowhere_def feed_base_reactor away_def)
  then obtain e s' where "feed_complete env sys message rdtsc s = Some s'" "feed_inv d fh0 (es @ [e]) s'"
    using feed_complete_inv [OF assms(1) _ _ env] by blast
  then show ?thesis using a by (auto simp: feed_handlers_def)
next
  assume "x \<noteq> receive_op \<and> feed_inv d fh0 es s"
  then have "feed_handlers env sys message rdtsc x res s = Some (sched_stop (feed_intr os sys other) s) \<and>
      feed_inv d fh0 (es @ []) (sched_stop (feed_intr os sys other) s)"
    by (auto simp: feed_handlers_def env same_feed_inv [OF same_feed_stop])
  then show ?thesis by blast
qed

lemma complete_op_feed:
  assumes "recv_laws sys" "feed_inv d fh0 es s" "op_q s = Op x # rest" and env: "env = feed_env os sys other"
  shows "\<exists>more s'. complete_op (io_env env (feed_handlers env sys message rdtsc)) x (s\<lparr>op_q := rest\<rparr>) = Some s' \<and>
     feed_inv d fh0 (es @ more) s'"
proof -
  let ?h = "feed_handlers env sys message rdtsc" and ?s0 = "s\<lparr>op_q := rest\<rparr>"
  let ?env = "io_env env ?h"
  define s1 where "s1 = (if rest \<noteq> [] \<and> \<not> one_thread s then wake_one_thread_and_unlock (reactor_interrupt env) ?s0 else ?s0)"
  define res where "res = env_result ?env x (world s)"
  have sf: "same_feed ?s0 s1" using same_feed_wake [of ?s0 os sys other] by (simp add: s1_def env same_feed_upd)
  have p0: "posted s = posted ?s0 + (if x = ClientOp receive_op then 1 else 0)" using assms(3) by (simp add: posted_def)
  have w0: "world ?s0 = world s" by simp
  have "\<exists>more s2. env_complete ?env x res s1 = Some s2 \<and> feed_inv d fh0 (es @ more) s2"
  proof (cases x)
    case (ClientOp y)
    have w: "waiting d fh0 es (world s1) = waiting d fh0 es (world s)" "away d fh0 es (world s1) = away d fh0 es (world s)"
      using same_world_places [of "world s" "world s1"] sf by (simp_all add: same_feed_def)
    have "y = receive_op \<and> posted s1 = 0 \<and> away d fh0 es (world s1) \<or> y \<noteq> receive_op \<and> feed_inv d fh0 es s1"
      using assms(2) p0 sf w ClientOp by (auto simp: feed_inv_split same_feed_def)
    from handlers_feed [OF assms(1) env this, of message rdtsc res] show ?thesis by (simp add: io_env_def ClientOp)
  next
    case (DescriptorOp e)
    then have "feed_inv d fh0 es s1"
      using assms(2) p0 w0 same_feed_inv [OF sf] by (simp add: feed_inv_split)
    moreover obtain fo s2 where p: "perform_io env e res s1 = (fo, s2)" by fastforce
    ultimately have pf: "fo = Some receive_op \<and> posted s2 = 0 \<and> away d fh0 es (world s2) \<or>
        fo \<noteq> Some receive_op \<and> feed_inv d fh0 es s2"
      using perform_io_feed [OF p env assms(1)] by blast
    show ?thesis
    proof (cases fo)
      case None
      then show ?thesis using pf by (simp add: io_env_def DescriptorOp do_complete_def p) (metis append_Nil2)
    next
      case (Some y)
      then show ?thesis
        using handlers_feed [OF assms(1) env, of y s2 d fh0 es message rdtsc 0] pf
        by (simp add: io_env_def DescriptorOp do_complete_def p)
    qed
  qed
  then obtain more s2 where s2: "env_complete ?env x res s1 = Some s2" "feed_inv d fh0 (es @ more) s2" by blast
  have "complete_op ?env x ?s0 = Some (work_cleanup (feed_intr os sys other) s2)"
    using s2(1) by (simp add: complete_op_def Let_def s1_def res_def env io_env_def cong: if_cong)
  moreover have "feed_inv d fh0 (es @ more) (work_cleanup (feed_intr os sys other) s2)"
    using s2(2) by (simp add: same_feed_inv [OF same_feed_work_cleanup])
  ultimately show ?thesis by blast
qed

definition feed_running :: "nat \<Rightarrow> FeedHandler \<Rightarrow> 'h feed_io \<Rightarrow> bool" where
  "feed_running d fh0 s \<longleftrightarrow> (\<exists>es. feed_inv d fh0 es s)"

lemma same_feed_running: "same_feed s s' \<Longrightarrow> feed_running d fh0 s \<Longrightarrow> feed_running d fh0 s'"
  unfolding feed_running_def using same_feed_inv by blast

lemma do_run_one_feed:
  assumes "recv_laws sys" "do_run_one (io_env (feed_env os sys other) (feed_handlers (feed_env os sys other) sys message rdtsc)) s = Some (n, s')"
    "feed_running d fh0 s"
  shows "feed_running d fh0 s'"
proof (rule do_run_one_keeps [where P = "feed_running d fh0", OF assms(2,3)])
  fix s :: "'a feed_io" and e assume "feed_running d fh0 s"
  then show "feed_running d fh0 (s\<lparr>wakeup_event := e\<rparr>)" by (rule same_feed_running [rotated]) (simp add: same_feed_upd)
next
  fix s :: "'a feed_io" and b assume "feed_running d fh0 s"
  then show "feed_running d fh0 (s\<lparr>task_interrupted := b\<rparr>)" by (rule same_feed_running [rotated]) (simp add: same_feed_upd)
next
  fix s :: "'a feed_io" and rest assume "feed_running d fh0 s" "op_q s = TaskOp # rest"
  then show "feed_running d fh0 (s\<lparr>op_q := rest\<rparr>)" using same_feed_running [of s "s\<lparr>op_q := rest\<rparr>"] by (simp add: same_feed_def posted_def)
next
  fix s :: "'a feed_io" and usec s'
  assume "feed_running d fh0 s"
    "run_task (io_env (feed_env os sys other) (feed_handlers (feed_env os sys other) sys message rdtsc)) usec s = Some s'"
  moreover from this(1) have "timer_queues (world s) = []" by (auto simp: feed_running_def feed_inv_def feed_base_def)
  ultimately show "feed_running d fh0 s'" using same_feed_running [OF run_task_same] by blast
next
  fix s :: "'a feed_io" and x rest s'
  assume r: "feed_running d fh0 s" and q: "op_q s = Op x # rest" and c:
    "complete_op (io_env (feed_env os sys other) (feed_handlers (feed_env os sys other) sys message rdtsc)) x (s\<lparr>op_q := rest\<rparr>) = Some s'"
  from r obtain es where "feed_inv d fh0 es s" by (auto simp: feed_running_def)
  from complete_op_feed [OF assms(1) this q refl, of os other message rdtsc] c
  show "feed_running d fh0 s'" by (auto simp: feed_running_def)
qed

lemma sched_run_feed:
  assumes "recv_laws sys" "feed_running d fh0 s" "private_q s = []"
    "sched_run (io_env (feed_env os sys other) (feed_handlers (feed_env os sys other) sys message rdtsc)) s = Some (n, s')"
  shows "feed_running d fh0 s'"
proof (cases "outstanding_work s = 0")
  case True
  then show ?thesis
    using assms(2,4) same_feed_running [OF same_feed_stop [of s os sys other]] by (auto simp: sched_run_def io_env_def)
next
  case False
  let ?env = "io_env (feed_env os sys other) (feed_handlers (feed_env os sys other) sys message rdtsc)"
  let ?Q = "\<lambda>s. feed_running d fh0 s \<and> private_work s = 0 \<and> private_q s = []"
  obtain t where t: "run_loop (do_run_one ?env) 0 (enter_scheduler s) = Some (n, t)" "s' = leave_scheduler s t"
    using assms(4) False by (auto simp: sched_run_def)
  have "same_feed s (enter_scheduler s)" using assms(3) by (simp add: enter_scheduler_def same_feed_def posted_def)
  then have "?Q (enter_scheduler s)" using same_feed_running assms(2) by (auto simp: enter_scheduler_def)
  then have "?Q t"
    using run_loop_keeps [where Q = ?Q, OF t(1)] do_run_one_feed [OF assms(1)] do_run_one_private by blast
  moreover from this have "same_feed t s'" using assms(3) by (simp add: t(2) leave_scheduler_def same_feed_def posted_def)
  ultimately show ?thesis using same_feed_running by blast
qed


section \<open>The program's feed\<close>

text \<open>A reactor the feed handler can start on: no receive operation anywhere, no timers, and a descriptor state for the
  socket whose queue of readers is empty (a new one, or one that was given back).\<close>

definition feed_ready :: "'h feed_io \<Rightarrow> bool" where
  "feed_ready s \<longleftrightarrow> posted s = 0 \<and> timer_queues (world s) = [] \<and> received (kern s) = [] \<and>
     handler_ok (start_receive (feed (kern s))) \<and>
     (\<forall>e j. receive_op \<notin> set (ds_op_queue (ds (world s) e) j)) \<and>
     (let (d, r) = allocate_descriptor_state (world s) in ds_op_queue (ds r d) read_op = [])"

lemma register_feed:
  assumes "register_descriptor (feed_env os sys other) fd (world s) = (err, d, r)" "feed_ready s"
  shows "same_memory (kern s) (kernel r) \<and> \<not> ds_shutdown (ds r d) \<and> timer_queues r = [] \<and>
    ds_op_queue (ds r d) read_op = [] \<and> (\<forall>e j. receive_op \<notin> set (ds_op_queue (ds r e) j))"
proof -
  obtain d1 r1 where a: "allocate_descriptor_state (world s) = (d1, r1)" by fastforce
  have r1: "kernel r1 = kern s" "timer_queues r1 = []" "ds_op_queue (ds r1 d1) read_op = []"
    "\<forall>e j. receive_op \<notin> set (ds_op_queue (ds r1 e) j)"
    using a assms(2) by (auto simp: feed_ready_def allocate_descriptor_state_def descriptor_state_new_def split: prod.splits if_splits)
  define r2 where "r2 = r1\<lparr>ds := (ds r1)(d1 := (ds r1 d1)\<lparr>descriptor := fd, ds_shutdown := False,
      try_speculative := (\<lambda>i. if i < max_ops then True else try_speculative (ds r1 d1) i), registered_events := registration_events\<rparr>)\<rparr>"
  obtain result errno r3 where c: "call_epoll_ctl (feed_env os sys other) EPOLL_CTL_ADD fd registration_events (DescriptorPtr d1) r2 =
      (result, errno, r3)" using prod_cases3 by blast
  have "same_world r2 r3" using same_world_epoll_ctl [of r2 os sys other] c by (metis snd_conv)
  moreover have "same_memory (kern s) (kernel r2)" using r1(1) by (simp add: r2_def)
  ultimately have r3: "same_memory (kern s) (kernel r3)" "\<not> ds_shutdown (ds r3 d1)" "timer_queues r3 = []"
    "ds_op_queue (ds r3 d1) read_op = []" "\<forall>e j. receive_op \<notin> set (ds_op_queue (ds r3 e) j)"
    using r1 by (auto simp: same_world_def same_memory_def r2_def)
  have "d = d1 \<and> (r = r3 \<or> r = r3\<lparr>ds := (ds r3)(d1 := (ds r3 d1)\<lparr>registered_events := 0\<rparr>)\<rparr>)"
    using assms(1) c [unfolded r2_def] by (auto simp: register_descriptor_def a Let_def split: if_splits)
  then show ?thesis using r3 by (auto split: if_splits)
qed

lemma feed_construct_inv:
  assumes "recv_laws sys" "feed_ready s" "feed_construct env sys endpoint s = Inr s'" and env: "env = feed_env os sys other"
  shows "\<exists>d. feed_inv d (start_receive (feed (kern s))) [] s'"
proof -
  obtain ec1 impl1 s1 where o: "do_open env (feed_sys sys) sock_construct 2 SOCK_DGRAM 17 s = (ec1, impl1, s1)" using prod_cases3 by blast
  obtain ec2 s2 where b: "sock_bind (feed_sys sys) impl1 endpoint s1 = (ec2, s2)" by fastforce
  obtain ec3 impl3 s3 where t: "sock_set_option (feed_sys sys) impl1 SOL_SOCKET SO_RCVBUF (le_bytes 4 (8 * 1024 * 1024 :: u32)) s2 =
      (ec3, impl3, s3)" using prod_cases3 by blast
  have ok: "ec1 = 0" "ec2 = 0" "s' = feed_start_receive env sys
      (set_kernel ((kern s3)\<lparr>feed_socket := impl3, feed := start_receive (feed (kern s3))\<rparr>) s3)"
    using assms(3) unfolding feed_construct_def o b t Let_def prod.case by (auto split: if_splits)
  obtain sock errno h where sk: "sys_socket sys 2 SOCK_DGRAM 17 (host (kern s)) = (sock, errno, h)" using prod_cases3 by blast
  let ?s = "set_kernel ((kern s)\<lparr>host := h\<rparr>) s"
  have fr: "feed_ready ?s" using assms(2) by (auto simp: feed_ready_def set_kernel_def posted_def allocate_descriptor_state_def split: prod.splits if_splits)
  obtain err d r where rg: "register_descriptor env sock (world ?s) = (err, d, r)" using prod_cases3 by blast
  note reg = register_feed [OF rg [unfolded env] fr]
  have soc: "so_socket (feed_sys sys) 2 SOCK_DGRAM 17 (kern s) = (sock, get_last_error errno (sock < 0), (kern s)\<lparr>host := h\<rparr>)"
    by (simp add: so_socket_def feed_sys_def on_host3_def sk)
  have opened: "sock \<noteq> invalid_socket"
  proof
    assume "sock = invalid_socket"
    then have "impl1 = sock_construct"
      using o by (simp add: do_open_def sock_is_open_def sock_construct_def soc)
    then show False using b ok(2) by (simp add: sock_bind_def so_bind_def sock_construct_def)
  qed
  then have s1: "s1 = ?s\<lparr>world := r\<rparr>" "sk_reactor_data impl1 = Some d"
    using o rg ok(1) by (auto simp: do_open_def sock_is_open_def sock_construct_def soc set_kernel_def Let_def split: if_splits)
  have s2: "same_memory (kern s1) (kern s2)" "s2 = set_kernel (kern s2) s1"
    using b by (auto simp: sock_bind_def so_bind_def feed_sys_def on_host3_def same_memory_def set_kernel_def split: if_splits prod.splits)
  have s3: "same_memory (kern s2) (kern s3)" "s3 = set_kernel (kern s3) s2" "sk_reactor_data impl3 = sk_reactor_data impl1"
    using t by (auto simp: sock_set_option_def so_setsockopt_def feed_sys_def on_host3_def same_memory_def set_kernel_def Let_def
        split: if_splits prod.splits)
  let ?t = "set_kernel ((kern s3)\<lparr>feed_socket := impl3, feed := start_receive (feed (kern s3))\<rparr>) s3"
  have mem: "feed (kern s3) = feed (kern s)" "received (kern s3) = []"
    using reg fr s1 s2(1) s3(1) by (auto simp: same_memory_def feed_ready_def set_kernel_def)
  have rest: "ds (world ?t) = ds r" "timer_queues (world ?t) = timer_queues r" "op_q ?t = op_q s" "private_q ?t = private_q s"
    by (simp_all add: set_kernel_def) (subst s3(2), subst s2(2), simp add: set_kernel_def s1)+
  have "feed_nowhere d ?t"
    using reg rest s3(3) s1(2) assms(2) by (simp add: feed_nowhere_def feed_base_def posted_def feed_ready_def)
  moreover have "caught_up (start_receive (feed (kern s))) [] (kern ?t)"
    using mem assms(2) by (simp add: caught_up_def set_kernel_def feed_ready_def)
  ultimately show ?thesis using feed_start_receive_inv [OF assms(1) _ _ env] ok(3) by blast
qed

text \<open>The rounds of a thread in \<open>run\<close>: every state between two rounds, whether \<open>run\<close> returns or not.\<close>

inductive sched_rounds :: "('o, 'w) sched_env \<Rightarrow> ('o, 'w) scheduler \<Rightarrow> ('o, 'w) scheduler \<Rightarrow> bool" for env s where
  start: "sched_rounds env s s"
| round: "sched_rounds env s t \<Longrightarrow> do_run_one env t = Some (n, u) \<Longrightarrow> sched_rounds env s u"

lemma sched_run_rounds:
  assumes "sched_run env s = Some (n, s')" "outstanding_work s \<noteq> 0"
  shows "\<exists>t. sched_rounds env (enter_scheduler s) t \<and> s' = leave_scheduler s t"
proof -
  obtain t where t: "run_loop (do_run_one env) 0 (enter_scheduler s) = Some (n, t)" "s' = leave_scheduler s t"
    using assms by (auto simp: sched_run_def)
  have "sched_rounds env (enter_scheduler s) t"
    using run_loop_keeps [where Q = "sched_rounds env (enter_scheduler s)", OF t(1) sched_rounds.start] sched_rounds.round by blast
  then show ?thesis using t(2) by blast
qed

lemma sched_rounds_feed:
  assumes "sched_rounds (io_env (feed_env os sys other) (feed_handlers (feed_env os sys other) sys message rdtsc)) s t"
    "recv_laws sys" "feed_running d fh0 s"
  shows "feed_running d fh0 t"
  using assms(1)
proof induction
  case (round t n u)
  then show ?case using do_run_one_feed [OF assms(2)] by blast
qed (rule assms(3))

lemma feed_started:
  assumes "recv_laws sys" "feed_ready s0" "feed_construct env sys endpoint s0 = Inr s" "private_q s = []"
    "sched_rounds (io_env env (feed_handlers env sys message rdtsc)) (enter_scheduler s) t" and env: "env = feed_env os sys other"
  shows "\<exists>d. feed_running d (start_receive (feed (kern s0))) t"
proof -
  obtain d where "feed_inv d (start_receive (feed (kern s0))) [] s" using feed_construct_inv [OF assms(1-3) env] by blast
  then have "feed_running d (start_receive (feed (kern s0))) s" unfolding feed_running_def by blast
  moreover have "same_feed s (enter_scheduler s)" using assms(4) by (simp add: enter_scheduler_def same_feed_def posted_def)
  ultimately show ?thesis using sched_rounds_feed [OF assms(5) [unfolded env] assms(1)] same_feed_running by blast
qed

text \<open>C17. The feed end to end: from the constructor on, between any two rounds of the scheduler, whatever else the
  thread does (signals, spurious wake-ups, reactor runs, errors of \<open>recvfrom\<close>), every datagram \<open>recvfrom\<close> returned has
  gone through the handler exactly once and in order, except that the last one may still be waiting in the receive
  operation; and the ring and \<open>dropped_packets\<close> hold what the handler makes of them.\<close>

theorem feed_from_socket:
  assumes "recv_laws sys" "feed_ready s0" "env = feed_env os sys other" "feed_construct env sys endpoint s0 = Inr s"
    "private_q s = []" "sched_rounds (io_env env (feed_handlers env sys message rdtsc)) (enter_scheduler s) t"
  shows "\<exists>evs pending. received (kern t) = datagrams evs @ pending \<and> length pending \<le> 1 \<and>
    q_contents (ring_queue (feed (kern t))) = q_contents (ring_queue (feed (kern s0))) @
      take (room (feed (kern s0))) (concat (map offered evs)) \<and>
    dropped_packets (feed (kern t)) = dropped_packets (feed (kern s0)) +
      of_nat (length (concat (map offered evs)) - room (feed (kern s0)))"
proof -
  let ?fh0 = "start_receive (feed (kern s0))"
  obtain d evs where "feed_inv d ?fh0 evs t"
    using feed_started [OF assms(1,2,4,5,6,3)] by (auto simp: feed_running_def)
  then have "\<exists>fh pending. on_events evs ?fh0 = ret fh \<and> received (kern t) = datagrams evs @ pending \<and> length pending \<le> 1 \<and>
      ring_queue (feed (kern t)) = ring_queue fh \<and> dropped_packets (feed (kern t)) = dropped_packets fh"
    by (auto simp: feed_inv_def caught_up_def carrying_def split: if_splits)
  then obtain fh pending where fh: "on_events evs ?fh0 = ret fh" "received (kern t) = datagrams evs @ pending" "length pending \<le> 1"
    "ring_queue (feed (kern t)) = ring_queue fh" "dropped_packets (feed (kern t)) = dropped_packets fh" by blast
  have "handler_ok ?fh0" using assms(2) by (simp add: feed_ready_def)
  from on_events_law [OF this, of evs] fh show ?thesis
    by (auto simp: start_receive_def room_def intro!: exI [of _ evs] exI [of _ pending])
qed

text \<open>C18. No handler of the feed blocks or throws: whenever the scheduler runs with an operation at the front of its
  queue, the round completes it and returns, whatever \<open>recvfrom\<close> answers, however full the ring is and however often
  the system call is interrupted.\<close>

theorem feed_round_returns:
  assumes "recv_laws sys" "feed_ready s0" "env = feed_env os sys other" "feed_construct env sys endpoint s0 = Inr s"
    "private_q s = []" "sched_rounds (io_env env (feed_handlers env sys message rdtsc)) (enter_scheduler s) t"
    "\<not> sched_stopped t" "op_q t = Op x # rest"
  shows "\<exists>u. do_run_one (io_env env (feed_handlers env sys message rdtsc)) t = Some (1, u)"
proof -
  obtain d evs where i: "feed_inv d (start_receive (feed (kern s0))) evs t"
    using feed_started [OF assms(1,2,4,5,6,3)] by (auto simp: feed_running_def)
  obtain u where "complete_op (io_env env (feed_handlers env sys message rdtsc)) x (t\<lparr>op_q := rest\<rparr>) = Some u"
    using complete_op_feed [OF assms(1) i assms(8) assms(3), of message rdtsc] by blast
  then show ?thesis using assms(7,8) by (subst do_run_one.simps) simp
qed

text \<open>A system on which datagrams have already arrived.\<close>

definition inbox_os :: "bytes list os" where
  "inbox_os =
     \<lparr>sys_epoll_create1 = (\<lambda>k. (3, 0, k)), sys_epoll_create = (\<lambda>n k. (3, 0, k)),
      sys_epoll_ctl = (\<lambda>e c fd evs p k. (0, 0, k)), sys_epoll_wait = (\<lambda>e t k. Some ([], k)),
      sys_timerfd_create = (\<lambda>b k. (4, 0, k)), sys_timerfd_settime = (\<lambda>fd b s n k. k),
      sys_eventfd = (\<lambda>b k. (5, 0, k)), sys_pipe = (\<lambda>k. (Some (6, 7), 0, k)), sys_fcntl = (\<lambda>fd c k. k),
      sys_close = (\<lambda>fd k. k), sys_write = (\<lambda>fd v n k. k), sys_read = (\<lambda>fd n k. (-1, EAGAIN, 0, k)),
      sys_sigaction = (\<lambda>n h f k. (0, 0, k))\<rparr>"

definition inbox_sys :: "bytes list sock_sys" where
  "inbox_sys =
     \<lparr>sys_socket = (\<lambda>a t p k. (8, 0, k)), sys_socketpair = (\<lambda>a t p k. (-1, 1, (0, 0), k)),
      sys_accept = (\<lambda>s n k. (-1, 1, [], k)), sys_bind = (\<lambda>s a k. (0, 0, k)),
      sys_listen = (\<lambda>s b k. (0, 0, k)), sys_connect = (\<lambda>s a k. (0, 0, k)),
      sys_shutdown = (\<lambda>s h k. (0, 0, k)), sys_sock_close = (\<lambda>s k. (0, 0, k)),
      sys_ioctl = (\<lambda>s c a k. (0, 0, a, k)), sys_getfl = (\<lambda>s k. (0, 0, k)),
      sys_setfl = (\<lambda>s f k. (0, 0, k)), sys_recv = (\<lambda>s n f k. (-1, 11, [], k)),
      sys_recvfrom = (\<lambda>s n f a k. case k of [] \<Rightarrow> (-1, 11, ([], []), []) | d # later \<Rightarrow> (int (length (take n d)), 0, (take n d, [2, 0]), later)),
      sys_recvmsg = (\<lambda>s ns a f k. (-1, 11, ([], [], 0), k)),
      sys_send = (\<lambda>s d f k. (int (length d), 0, k)), sys_sendto = (\<lambda>s d f a k. (int (length d), 0, k)),
      sys_sendmsg = (\<lambda>s ds a f k. (0, 0, k)),
      sys_setsockopt = (\<lambda>s l n v k. (0, 0, k)), sys_getsockopt = (\<lambda>s l n m k. (0, 0, [], k)),
      sys_getpeername = (\<lambda>s n k. (-1, 107, [], k)), sys_getsockname = (\<lambda>s n k. (0, 0, [], k)),
      sys_poll = (\<lambda>s e t k. Some (0, 0, k))\<rparr>"

definition inbox_io :: "bytes list \<Rightarrow> bytes list feed_io" where
  "inbox_io arrived = scheduler_new 1 (-1) (-1)
     \<lparr>registered_descriptors = object_pool_new 0,
      ds = (\<lambda>_. \<lparr>descriptor = -1, registered_events = 0, ds_op_queue = (\<lambda>_. []), try_speculative = (\<lambda>_. True),
        ds_shutdown = False, task_result = 0\<rparr>), op_ec = (\<lambda>_. 0), cancellation_key = (\<lambda>_. 0), timer_queues = [],
      epoll_fd = 3, timer_fd = 4, rinterrupter = \<lparr>read_descriptor = 5, write_descriptor = 5\<rparr>, r_shutdown = False,
      kernel = \<lparr>host = arrived, feed = sample_handler, feed_socket = sock_construct, remote_endpoint = [], bytes_transferred = 0, received = []\<rparr>\<rparr>"

lemma inbox_recv_laws: "recv_laws inbox_sys"
proof -
  have "\<exists>m h'. after_interrupts m (so_recvfrom1 inbox_sys s n f a) h = Some h' \<and> \<not> was_interrupted (so_recvfrom1 inbox_sys s n f a) h'"
    for s n f a h
    by (rule exI [of _ 0], cases h)
      (simp_all add: was_interrupted_def so_recvfrom1_def inbox_sys_def get_last_error_def)
  then show ?thesis unfolding recv_laws_def by (auto simp: inbox_sys_def split: list.splits)
qed

lemma inbox_ready: "feed_ready (inbox_io arrived)"
  using sample_handler_ok
  by (simp add: feed_ready_def inbox_io_def scheduler_new_def posted_def start_receive_def handler_ok_def
      allocate_descriptor_state_def descriptor_state_new_def split: prod.splits)

abbreviation inbox_env :: "(unit, bytes list feed_world) reactor_env" where
  "inbox_env \<equiv> feed_env inbox_os inbox_sys (\<lambda>x ec h. (not_done, ec, h))"

lemma non_blocking_once:
  "\<not> was_interrupted attempt k \<Longrightarrow> non_blocking_loop stream attempt k = Some (attempt_outcome stream (attempt k))"
  by (rule non_blocking_loop_returns [of 0]) simp_all

lemma inbox_env_simps:
  "reactor_interrupt inbox_env r = r" "call_epoll_ctl inbox_env c fd evs p r = (0, 0, r)"
  by (simp_all add: reactor_interrupt_def call_epoll_ctl_def feed_os_def on_host3_def inbox_os_def)

lemma inbox_perform:
  "perform_op inbox_env receive_op r = (let (st, ec, w) = recv_perform inbox_sys (op_ec r receive_op) (kernel r)
     in (st, r\<lparr>op_ec := (op_ec r)(receive_op := ec), kernel := w\<rparr>))"
  by (simp add: perform_op_def feed_perform_def Let_def split: prod.splits)

lemma inbox_recvfrom:
  "non_blocking_recvfrom1 inbox_sys s n f a [] = Some (False, 11, None, ([], []), [])"
  "non_blocking_recvfrom1 inbox_sys s n f a (d # later) = Some (True, 0, Some (length (take n d)), (take n d, [2, 0]), later)"
  by (simp_all add: non_blocking_recvfrom1_def non_blocking_once was_interrupted_def so_recvfrom1_def inbox_sys_def
      get_last_error_def attempt_outcome_def)

lemma inbox_calls:
  "sys_socket (feed_sys inbox_sys) a typ p w = (8, 0, w)" "sys_bind (feed_sys inbox_sys) s addr w = (0, 0, w)"
  "sys_setsockopt (feed_sys inbox_sys) s l nm v w = (0, 0, w)" "sys_ioctl (feed_sys inbox_sys) s c arg w = (0, 0, arg, w)"
  by (simp_all add: feed_sys_def on_host3_def on_host4_def inbox_sys_def)

lemmas inbox_defs = do_open_def sock_is_open_def sock_construct_def so_socket_def register_descriptor_def
  allocate_descriptor_state_def descriptor_state_new_def sock_bind_def so_bind_def sock_set_option_def so_setsockopt_def
  type_state_def get_last_error_def feed_start_receive_def sock_async_receive_from_def do_start_op_def
  set_internal_non_blocking_def change_mode_def start_op_def inbox_perform recv_perform_def set_op_ec_def
  call_post_immediate_completion_def reactor_post_immediate_completion_def post_immediate_completion_def
  work_started_def wake_one_thread_and_unlock_def interrupt_task_def pool_alloc_def object_pool_new_def allocate_object_def ev_maybe_signal_one_def

lemma inbox_constructed:
  "\<exists>s. feed_construct inbox_env inbox_sys [2, 0] (inbox_io [replicate 56 7]) = Inr s \<and> private_q s = [] \<and> op_q s = [Op (ClientOp 0)] \<and>
     \<not> sched_stopped s \<and> received (kern s) = [replicate 56 7]"
  by (simp add: feed_construct_def inbox_defs inbox_env_simps inbox_calls inbox_io_def scheduler_new_def inbox_recvfrom
      set_kernel_def Let_def PAYLOAD_SIZE_def)

theorem feed_round_returns_witness:
  "\<exists>s u. feed_construct inbox_env inbox_sys [2, 0] (inbox_io [replicate 56 7]) = Inr s \<and>
     do_run_one (io_env inbox_env (feed_handlers inbox_env inbox_sys (\<lambda>e. ''error'') (\<lambda>h. (9, h)))) (enter_scheduler s) = Some (1, u)"
proof -
  obtain s where s: "feed_construct inbox_env inbox_sys [2, 0] (inbox_io [replicate 56 7]) = Inr s" "private_q s = []"
    "op_q s = [Op (ClientOp 0)]" "\<not> sched_stopped s" using inbox_constructed by blast
  show ?thesis
    using feed_round_returns [OF inbox_recv_laws inbox_ready refl s(1,2) sched_rounds.start, where x = "ClientOp 0" and rest = "[]" and message = "\<lambda>e. ''error''" and rdtsc = "\<lambda>h. (9, h)"] s
    by (auto simp: enter_scheduler_def)
qed

lemma inbox_first_round:
  "\<exists>s u. feed_construct inbox_env inbox_sys [2, 0] (inbox_io [replicate 56 7]) = Inr s \<and> private_q s = [] \<and>
     do_run_one (io_env inbox_env (feed_handlers inbox_env inbox_sys (\<lambda>e. ''error'') (\<lambda>h. (9, h)))) (enter_scheduler s) = Some (1, u)"
proof -
  obtain s where s: "feed_construct inbox_env inbox_sys [2, 0] (inbox_io [replicate 56 7]) = Inr s" "private_q s = []"
    "op_q s = [Op (ClientOp 0)]" "\<not> sched_stopped s" using inbox_constructed by blast
  let ?s = "enter_scheduler s"
  obtain d fh0 where "feed_inv d fh0 [] s" using feed_construct_inv [OF inbox_recv_laws inbox_ready s(1) refl] by blast
  moreover have "same_feed s ?s" using s(2) by (simp add: enter_scheduler_def same_feed_def posted_def)
  ultimately have "feed_inv d fh0 [] ?s" using same_feed_inv by blast
  moreover have q: "op_q ?s = [Op (ClientOp 0)]" "\<not> sched_stopped ?s" using s by (simp_all add: enter_scheduler_def)
  ultimately obtain u where "complete_op (io_env inbox_env (feed_handlers inbox_env inbox_sys (\<lambda>e. ''error'') (\<lambda>h. (9, h))))
      (ClientOp 0) (?s\<lparr>op_q := []\<rparr>) = Some u"
    using complete_op_feed [OF inbox_recv_laws _ _ refl] by blast
  then have "do_run_one (io_env inbox_env (feed_handlers inbox_env inbox_sys (\<lambda>e. ''error'') (\<lambda>h. (9, h)))) ?s = Some (1, u)"
    using q by (subst do_run_one.simps) simp
  then show ?thesis using s(1,2) by blast
qed

theorem feed_from_socket_witness:
  "\<exists>s u evs pending. feed_construct inbox_env inbox_sys [2, 0] (inbox_io [replicate 56 7]) = Inr s \<and>
     do_run_one (io_env inbox_env (feed_handlers inbox_env inbox_sys (\<lambda>e. ''error'') (\<lambda>h. (9, h)))) (enter_scheduler s) = Some (1, u) \<and>
     received (kern u) = datagrams evs @ pending \<and> length pending \<le> 1 \<and>
     q_contents (ring_queue (feed (kern u))) = take 1 (concat (map offered evs))"
proof -
  obtain s u where s: "feed_construct inbox_env inbox_sys [2, 0] (inbox_io [replicate 56 7]) = Inr s" "private_q s = []"
    "do_run_one (io_env inbox_env (feed_handlers inbox_env inbox_sys (\<lambda>e. ''error'') (\<lambda>h. (9, h)))) (enter_scheduler s) = Some (1, u)"
    using inbox_first_round by blast
  have r: "room sample_handler = 1" "q_contents (ring_queue sample_handler) = []"
    by (simp_all add: room_def sample_handler_def q_contents_def SPSCQueue_new_def q_size_def)
  have "feed (kern (inbox_io x)) = sample_handler" for x by (simp add: inbox_io_def scheduler_new_def)
  then show ?thesis
    using feed_from_socket [OF inbox_recv_laws inbox_ready refl s(1,2) sched_rounds.round [OF sched_rounds.start s(3)]] s r by auto
qed

end
