(* ===== verification/AsioStrand.thy ===== *)
theory AsioStrand
  imports Prelude
begin

text \<open>
  Strands of the vendored Asio: \<^verbatim>\<open>include/asio/detail/impl/strand_executor_service.ipp\<close> and
  \<^verbatim>\<open>.hpp\<close> over any executor, and \<^verbatim>\<open>include/asio/detail/impl/strand_service.ipp\<close> over an
  \<open>io_context\<close>. One strand, any number of threads. Every section under the strand's mutex is one step, every
  access to the ready queue, which no mutex protects, is a step of its own, and so is handing an invoker to the
  executor, which runs each invoker it was given once, on some thread, at some later time. User code runs between the
  steps and may itself post to the strand or dispatch on it.
\<close>

section \<open>The implementation of a strand\<close>

record 'f strand_impl =
  locked :: bool
  st_shutdown :: bool
  waiting_queue :: "'f list"
  ready_queue :: "'f list"

definition create_strand :: "'f strand_impl" where
  "create_strand = \<lparr>locked = False, st_shutdown = False, waiting_queue = [], ready_queue = []\<rparr>"

text \<open>The part of \<open>enqueue\<close> under the mutex. \<open>Acquired\<close>: the caller goes on to push the function to the ready
  queue and to schedule the strand.\<close>

datatype enqueue_result = Destroyed | Queued | Acquired

definition strand_enqueue :: "'f \<Rightarrow> 'f strand_impl \<Rightarrow> enqueue_result \<times> 'f strand_impl" where
  "strand_enqueue f impl =
     (if st_shutdown impl then (Destroyed, impl)
      else if locked impl then (Queued, impl\<lparr>waiting_queue := waiting_queue impl @ [f]\<rparr>)
      else (Acquired, impl\<lparr>locked := True\<rparr>))"

definition push_waiting_to_ready :: "'f strand_impl \<Rightarrow> bool \<times> 'f strand_impl" where
  "push_waiting_to_ready impl =
     (let impl = impl\<lparr>ready_queue := ready_queue impl @ waiting_queue impl, waiting_queue := []\<rparr>;
          more_handlers = (ready_queue impl \<noteq> [])
      in (more_handlers, impl\<lparr>locked := more_handlers\<rparr>))"

text \<open>\<open>shutdown\<close> of the service: the abandoned functions of all strands, and the strands.\<close>

fun strand_shutdown :: "'f strand_impl list \<Rightarrow> 'f list \<times> 'f strand_impl list" where
  "strand_shutdown [] = ([], [])"
| "strand_shutdown (impl # impls) =
     (let (ops, impls') = strand_shutdown impls
      in (waiting_queue impl @ ready_queue impl @ ops,
          impl\<lparr>st_shutdown := True, waiting_queue := [], ready_queue := []\<rparr> # impls'))"

section \<open>Threads\<close>

text \<open>What a thread is doing with the strand. As a runner: nothing, at the head of the loop of \<open>run_ready_handlers\<close>,
  inside a handler (the innermost function first, for functions that dispatch on the strand they run on; the flag tells
  the loop from \<open>do_dispatch\<close> of \<open>strand_service\<close>, which runs one handler without it), at \<open>push_waiting_to_ready\<close>,
  or scheduling the strand again. As a poster: nothing, or past the mutex with the strand acquired.\<close>

datatype 'f runner = Out | Loop | Run bool "'f list" | Leaving | Rescheduling
datatype 'f poster = NoPost | Handing 'f | Scheduling

text \<open>\<open>invokers\<close> counts the invokers the executor holds. The ghost fields: what was accepted, in the order in which the
  mutex was taken; and what the strand began to run from its queues.\<close>

record 'f strand_world =
  impl :: "'f strand_impl"
  invokers :: nat
  runner_of :: "nat \<Rightarrow> 'f runner"
  poster_of :: "nat \<Rightarrow> 'f poster"
  accepted :: "'f list"
  begun :: "'f list"

definition strand_world_new :: "'f strand_world" where
  "strand_world_new = \<lparr>impl = create_strand, invokers = 0, runner_of = (\<lambda>_. Out), poster_of = (\<lambda>_. NoPost),
     accepted = [], begun = []\<rparr>"

definition set_runner :: "nat \<Rightarrow> 'f runner \<Rightarrow> 'f strand_world \<Rightarrow> 'f strand_world" where
  "set_runner t r w = w\<lparr>runner_of := (runner_of w)(t := r)\<rparr>"

definition set_poster :: "nat \<Rightarrow> 'f poster \<Rightarrow> 'f strand_world \<Rightarrow> 'f strand_world" where
  "set_poster t p w = w\<lparr>poster_of := (poster_of w)(t := p)\<rparr>"

fun running :: "'f runner \<Rightarrow> bool" where
  "running (Run b fs) \<longleftrightarrow> True"
| "running _ \<longleftrightarrow> False"

fun in_user_code :: "'f runner \<Rightarrow> bool" where
  "in_user_code Out \<longleftrightarrow> True"
| "in_user_code r \<longleftrightarrow> running r"

section \<open>Steps\<close>

text \<open>The calls user code makes.\<close>

definition strand_post :: "nat \<Rightarrow> 'f \<Rightarrow> 'f strand_world \<Rightarrow> 'f strand_world" where
  "strand_post t f w =
     (case strand_enqueue f (impl w) of
        (Destroyed, i) \<Rightarrow> w\<lparr>impl := i\<rparr>
      | (Queued, i) \<Rightarrow> w\<lparr>impl := i, accepted := accepted w @ [f]\<rparr>
      | (Acquired, i) \<Rightarrow> set_poster t (Handing f) (w\<lparr>impl := i, accepted := accepted w @ [f]\<rparr>))"

definition strand_dispatch :: "nat \<Rightarrow> 'f \<Rightarrow> 'f strand_world \<Rightarrow> 'f strand_world" where
  "strand_dispatch t f w =
     (case runner_of w t of
        Run b fs \<Rightarrow> set_runner t (Run b (f # fs)) w
      | _ \<Rightarrow> strand_post t f w)"

text \<open>\<open>execute\<close> through an executor that never blocks, or that may.\<close>

definition strand_execute :: "bool \<Rightarrow> nat \<Rightarrow> 'f \<Rightarrow> 'f strand_world \<Rightarrow> 'f strand_world" where
  "strand_execute never t f w = (if \<not> never \<and> running (runner_of w t) then strand_dispatch t f w else strand_post t f w)"

text \<open>\<open>strand_service::do_dispatch\<close>: inside the \<open>io_context\<close> a strand that nobody holds runs the handler at once.\<close>

definition service_dispatch :: "bool \<Rightarrow> nat \<Rightarrow> 'f \<Rightarrow> 'f strand_world \<Rightarrow> 'f strand_world" where
  "service_dispatch can_dispatch t f w =
     (if running (runner_of w t) then strand_dispatch t f w
      else if can_dispatch \<and> \<not> locked (impl w) then
        set_runner t (Run False [f])
          (w\<lparr>impl := (impl w)\<lparr>locked := True\<rparr>, accepted := accepted w @ [f], begun := begun w @ [f]\<rparr>)
      else strand_post t f w)"

text \<open>The steps inside: \<open>None\<close> when the thread is not there.\<close>

definition push_ready :: "nat \<Rightarrow> 'f strand_world \<Rightarrow> 'f strand_world option" where
  "push_ready t w =
     (case poster_of w t of
        Handing f \<Rightarrow> Some (set_poster t Scheduling (w\<lparr>impl := (impl w)\<lparr>ready_queue := ready_queue (impl w) @ [f]\<rparr>\<rparr>))
      | _ \<Rightarrow> None)"

definition schedule_strand :: "nat \<Rightarrow> 'f strand_world \<Rightarrow> 'f strand_world option" where
  "schedule_strand t w =
     (case poster_of w t of
        Scheduling \<Rightarrow> Some (set_poster t NoPost (w\<lparr>invokers := invokers w + 1\<rparr>))
      | _ \<Rightarrow> None)"

text \<open>The executor runs an invoker on a thread.\<close>

definition run_invoker :: "nat \<Rightarrow> 'f strand_world \<Rightarrow> 'f strand_world option" where
  "run_invoker t w =
     (if runner_of w t = Out \<and> poster_of w t = NoPost \<and> invokers w > 0
      then Some (set_runner t Loop (w\<lparr>invokers := invokers w - 1\<rparr>)) else None)"

definition next_handler :: "nat \<Rightarrow> 'f strand_world \<Rightarrow> 'f strand_world option" where
  "next_handler t w =
     (case runner_of w t of
        Loop \<Rightarrow>
          Some (case ready_queue (impl w) of
             [] \<Rightarrow> set_runner t Leaving w
           | f # fs \<Rightarrow> set_runner t (Run True [f]) (w\<lparr>impl := (impl w)\<lparr>ready_queue := fs\<rparr>, begun := begun w @ [f]\<rparr>))
      | _ \<Rightarrow> None)"

text \<open>A function returns.\<close>

definition handler_returns :: "nat \<Rightarrow> 'f strand_world \<Rightarrow> 'f strand_world option" where
  "handler_returns t w =
     (case runner_of w t of
        Run b (f # fs) \<Rightarrow>
          if poster_of w t = NoPost
          then Some (set_runner t (if fs \<noteq> [] then Run b fs else if b then Loop else Leaving) w) else None
      | _ \<Rightarrow> None)"

definition on_invoker_exit :: "nat \<Rightarrow> 'f strand_world \<Rightarrow> 'f strand_world option" where
  "on_invoker_exit t w =
     (case runner_of w t of
        Leaving \<Rightarrow> let (more, i) = push_waiting_to_ready (impl w)
                  in Some (set_runner t (if more then Rescheduling else Out) (w\<lparr>impl := i\<rparr>))
      | _ \<Rightarrow> None)"

definition reschedule_strand :: "nat \<Rightarrow> 'f strand_world \<Rightarrow> 'f strand_world option" where
  "reschedule_strand t w =
     (case runner_of w t of
        Rescheduling \<Rightarrow> Some (set_runner t Out (w\<lparr>invokers := invokers w + 1\<rparr>))
      | _ \<Rightarrow> None)"

datatype 'f strand_call = CPost 'f | CDispatch 'f | CExecute bool 'f | CServiceDispatch bool 'f

fun make_call :: "nat \<Rightarrow> 'f strand_call \<Rightarrow> 'f strand_world \<Rightarrow> 'f strand_world" where
  "make_call t (CPost f) w = strand_post t f w"
| "make_call t (CDispatch f) w = strand_dispatch t f w"
| "make_call t (CExecute never f) w = strand_execute never t f w"
| "make_call t (CServiceDispatch can f) w = service_dispatch can t f w"

text \<open>The calls are made by user code that is not in the middle of another call.\<close>

inductive strand_inner :: "nat \<Rightarrow> 'f strand_world \<Rightarrow> 'f strand_world \<Rightarrow> bool" for t w where
  "push_ready t w = Some w' \<Longrightarrow> strand_inner t w w'"
| "schedule_strand t w = Some w' \<Longrightarrow> strand_inner t w w'"
| "run_invoker t w = Some w' \<Longrightarrow> strand_inner t w w'"
| "next_handler t w = Some w' \<Longrightarrow> strand_inner t w w'"
| "handler_returns t w = Some w' \<Longrightarrow> strand_inner t w w'"
| "on_invoker_exit t w = Some w' \<Longrightarrow> strand_inner t w w'"
| "reschedule_strand t w = Some w' \<Longrightarrow> strand_inner t w w'"

inductive strand_reachable :: "'f strand_world \<Rightarrow> bool" where
  new: "strand_reachable strand_world_new"
| call: "strand_reachable w \<Longrightarrow> poster_of w t = NoPost \<Longrightarrow> in_user_code (runner_of w t) \<Longrightarrow> strand_reachable (make_call t c w)"
| inner: "strand_reachable w \<Longrightarrow> strand_inner t w w' \<Longrightarrow> strand_reachable w'"


section \<open>Who holds the strand\<close>

datatype 'f holder = Nobody | InExecutor | HandingOver nat 'f | AboutToSchedule nat | Inside nat "'f runner"

fun strand_threads :: "'f holder \<Rightarrow> nat \<times> (nat \<Rightarrow> 'f runner) \<times> (nat \<Rightarrow> 'f poster)" where
  "strand_threads Nobody = (0, \<lambda>_. Out, \<lambda>_. NoPost)"
| "strand_threads InExecutor = (1, \<lambda>_. Out, \<lambda>_. NoPost)"
| "strand_threads (HandingOver t f) = (0, \<lambda>_. Out, (\<lambda>_. NoPost)(t := Handing f))"
| "strand_threads (AboutToSchedule t) = (0, \<lambda>_. Out, (\<lambda>_. NoPost)(t := Scheduling))"
| "strand_threads (Inside t r) = (0, (\<lambda>_. Out)(t := r), \<lambda>_. NoPost)"

fun strand_queues :: "'f holder \<Rightarrow> 'f list \<Rightarrow> 'f list \<Rightarrow> bool" where
  "strand_queues Nobody ready waiting \<longleftrightarrow> ready = [] \<and> waiting = []"
| "strand_queues InExecutor ready waiting \<longleftrightarrow> ready \<noteq> []"
| "strand_queues (HandingOver t f) ready waiting \<longleftrightarrow> ready = []"
| "strand_queues (AboutToSchedule t) ready waiting \<longleftrightarrow> ready \<noteq> []"
| "strand_queues (Inside t r) ready waiting \<longleftrightarrow>
     (case r of Out \<Rightarrow> False | Loop \<Rightarrow> True | Run b fs \<Rightarrow> fs \<noteq> [] \<and> (b \<or> ready = []) | Leaving \<Rightarrow> ready = [] | Rescheduling \<Rightarrow> ready \<noteq> [])"

fun in_hand :: "'f holder \<Rightarrow> 'f list" where
  "in_hand (HandingOver t f) = [f]"
| "in_hand _ = []"

definition strand_held :: "'f holder \<Rightarrow> 'f strand_world \<Rightarrow> bool" where
  "strand_held h w \<longleftrightarrow> \<not> st_shutdown (impl w) \<and> locked (impl w) = (h \<noteq> Nobody) \<and>
     (invokers w, runner_of w, poster_of w) = strand_threads h \<and>
     strand_queues h (ready_queue (impl w)) (waiting_queue (impl w)) \<and>
     accepted w = begun w @ ready_queue (impl w) @ in_hand h @ waiting_queue (impl w)"

lemma strand_held_new: "strand_held Nobody strand_world_new"
  by (simp add: strand_held_def strand_world_new_def create_strand_def)

lemma post_held:
  assumes "strand_held h w" "poster_of w t = NoPost"
  shows "\<exists>h'. strand_held h' (strand_post t f w)"
proof (cases "locked (impl w)")
  case True
  have "strand_held h (strand_post t f w)"
    using assms(1) True by (cases h) (auto simp: strand_held_def strand_post_def strand_enqueue_def split: runner.splits)
  then show ?thesis by blast
next
  case False
  then have "h = Nobody" using assms(1) by (simp add: strand_held_def)
  then have "strand_held (HandingOver t f) (strand_post t f w)"
    using assms(1) False by (simp add: strand_held_def strand_post_def strand_enqueue_def set_poster_def)
  then show ?thesis by blast
qed

lemma dispatch_held:
  assumes "strand_held h w" "poster_of w t = NoPost"
  shows "\<exists>h'. strand_held h' (strand_dispatch t f w)"
proof (cases "runner_of w t")
  case (Run b fs)
  then have h: "h = Inside t (Run b fs)"
    using assms(1) by (cases h) (auto simp: strand_held_def split: if_splits)
  have "strand_held (Inside t (Run b (f # fs))) (strand_dispatch t f w)"
    using assms(1) Run by (auto simp: h strand_held_def strand_dispatch_def set_runner_def)
  then show ?thesis by blast
qed (use post_held [OF assms] in \<open>simp_all add: strand_dispatch_def\<close>)

lemma service_dispatch_held:
  assumes "strand_held h w" "poster_of w t = NoPost"
  shows "\<exists>h'. strand_held h' (service_dispatch can t f w)"
proof (cases "\<not> running (runner_of w t) \<and> can \<and> \<not> locked (impl w)")
  case True
  then have "h = Nobody" using assms(1) by (simp add: strand_held_def)
  then have "strand_held (Inside t (Run False [f])) (service_dispatch can t f w)"
    using assms(1) True by (simp add: strand_held_def service_dispatch_def set_runner_def)
  then show ?thesis by blast
next
  case False
  then show ?thesis using dispatch_held [OF assms, of f] post_held [OF assms, of f] by (auto simp: service_dispatch_def)
qed

lemma call_held:
  assumes "strand_held h w" "poster_of w t = NoPost"
  shows "\<exists>h'. strand_held h' (make_call t c w)"
  using post_held [OF assms] dispatch_held [OF assms] service_dispatch_held [OF assms]
  by (cases c) (auto simp: strand_execute_def)

text \<open>The inner steps: each needs a holder of its own kind and brings the strand nearer to being free. A function costs
  less in the ready queue than in the waiting queue.\<close>

fun holder_phase :: "'f holder \<Rightarrow> nat" where
  "holder_phase Nobody = 0"
| "holder_phase (HandingOver t f) = 18"
| "holder_phase (AboutToSchedule t) = 7"
| "holder_phase InExecutor = 6"
| "holder_phase (Inside t r) =
     (case r of Out \<Rightarrow> 0 | Loop \<Rightarrow> 5 | Run b fs \<Rightarrow> 5 + length fs | Leaving \<Rightarrow> 4 | Rescheduling \<Rightarrow> 7)"

definition strand_distance :: "'f holder \<Rightarrow> 'f strand_world \<Rightarrow> nat" where
  "strand_distance h w = 10 * length (ready_queue (impl w)) + 20 * length (waiting_queue (impl w)) + holder_phase h"

definition strand_nearer :: "'f holder \<Rightarrow> 'f strand_world \<Rightarrow> 'f strand_world \<Rightarrow> bool" where
  "strand_nearer h w w' \<longleftrightarrow>
     (\<exists>h'. strand_held h' w' \<and> strand_distance h' w' < strand_distance h w \<and> accepted w' = accepted w)"

lemma moved_cost: "xs \<noteq> [] \<Longrightarrow> 3 < 10 * length xs"
  by (cases xs) auto

lemma strand_nearerI:
  "strand_held h' w' \<Longrightarrow> strand_distance h' w' < strand_distance h w \<Longrightarrow> accepted w' = accepted w \<Longrightarrow> strand_nearer h w w'"
  by (auto simp: strand_nearer_def)

lemma inner_held:
  assumes "strand_held h w" "strand_inner t w w'"
  shows "strand_nearer h w w'"
  using assms(2)
proof cases
  case 1
  then obtain f where f: "poster_of w t = Handing f" by (auto simp: push_ready_def split: poster.splits)
  then have h: "h = HandingOver t f" using assms(1) by (cases h) (auto simp: strand_held_def split: if_splits)
  show ?thesis
    by (rule strand_nearerI [of "(AboutToSchedule t)"])
      (use assms(1) 1 f in \<open>auto simp: strand_distance_def h strand_held_def push_ready_def set_poster_def\<close>)
next
  case 2
  then have f: "poster_of w t = Scheduling" by (auto simp: schedule_strand_def split: poster.splits)
  then have h: "h = AboutToSchedule t" using assms(1) by (cases h) (auto simp: strand_held_def split: if_splits)
  show ?thesis
    by (rule strand_nearerI [of "InExecutor"])
      (use assms(1) 2 f in \<open>auto simp: strand_distance_def h strand_held_def schedule_strand_def set_poster_def\<close>)
next
  case 3
  then have h: "h = InExecutor" using assms(1) by (cases h) (auto simp: strand_held_def run_invoker_def split: if_splits)
  show ?thesis
    by (rule strand_nearerI [of "(Inside t Loop)"])
      (use assms(1) 3 in \<open>auto simp: strand_distance_def h strand_held_def run_invoker_def set_runner_def split: if_splits\<close>)
next
  case 4
  then have f: "runner_of w t = Loop" by (auto simp: next_handler_def split: runner.splits)
  then have h: "h = Inside t Loop" using assms(1) by (cases h) (auto simp: strand_held_def split: if_splits)
  show ?thesis
  proof (cases "ready_queue (impl w)")
    case Nil
    show ?thesis
      by (rule strand_nearerI [of "(Inside t Leaving)"])
        (use assms(1) 4 f Nil in \<open>auto simp: strand_distance_def h strand_held_def next_handler_def set_runner_def\<close>)
  next
    case (Cons x xs)
    show ?thesis
      by (rule strand_nearerI [of "(Inside t (Run True [x]))"])
        (use assms(1) 4 f Cons in \<open>auto simp: strand_distance_def h strand_held_def next_handler_def set_runner_def\<close>)
  qed
next
  case 5
  then obtain b g fs where f: "runner_of w t = Run b (g # fs)"
    by (auto simp: handler_returns_def split: runner.splits list.splits if_splits)
  then have h: "h = Inside t (Run b (g # fs))" using assms(1) by (cases h) (auto simp: strand_held_def split: if_splits)
  show ?thesis
    by (rule strand_nearerI [of "(Inside t (if fs \<noteq> [] then Run b fs else if b then Loop else Leaving))"])
      (use assms(1) 5 f in \<open>auto simp: strand_distance_def h strand_held_def handler_returns_def set_runner_def split: if_splits\<close>)
next
  case 6
  then have f: "runner_of w t = Leaving" by (auto simp: on_invoker_exit_def split: runner.splits)
  then have h: "h = Inside t Leaving" using assms(1) by (cases h) (auto simp: strand_held_def split: if_splits)
  show ?thesis
    by (rule strand_nearerI [of "if waiting_queue (impl w) \<noteq> [] then Inside t Rescheduling else Nobody"])
      (use assms(1) 6 f in \<open>auto simp: strand_distance_def h strand_held_def on_invoker_exit_def push_waiting_to_ready_def set_runner_def Let_def moved_cost\<close>)
next
  case 7
  then have f: "runner_of w t = Rescheduling" by (auto simp: reschedule_strand_def split: runner.splits)
  then have h: "h = Inside t Rescheduling" using assms(1) by (cases h) (auto simp: strand_held_def split: if_splits)
  show ?thesis
    by (rule strand_nearerI [of "InExecutor"])
      (use assms(1) 7 f in \<open>auto simp: strand_distance_def h strand_held_def reschedule_strand_def set_runner_def\<close>)
qed

lemma reachable_held: "strand_reachable w \<Longrightarrow> \<exists>h. strand_held h w"
proof (induction rule: strand_reachable.induct)
  case (call w t c)
  then show ?case using call_held by blast
next
  case (inner w t w')
  then show ?case using inner_held unfolding strand_nearer_def by blast
qed (use strand_held_new in blast)

lemma inner_enabled:
  assumes "strand_held h w" "h \<noteq> Nobody"
  shows "\<exists>t w'. strand_inner t w w'"
proof (cases h)
  case InExecutor
  then obtain w' where "run_invoker 0 w = Some w'" using assms(1) by (simp add: strand_held_def run_invoker_def)
  then show ?thesis using strand_inner.intros(3) by blast
next
  case (HandingOver t f)
  then obtain w' where "push_ready t w = Some w'" using assms(1) by (simp add: strand_held_def push_ready_def)
  then show ?thesis using strand_inner.intros(1) by blast
next
  case (AboutToSchedule t)
  then obtain w' where "schedule_strand t w = Some w'" using assms(1) by (simp add: strand_held_def schedule_strand_def)
  then show ?thesis using strand_inner.intros(2) by blast
next
  case (Inside t r)
  then have r: "runner_of w t = r" "poster_of w t = NoPost" using assms(1) by (simp_all add: strand_held_def)
  show ?thesis
  proof (cases r)
    case Loop
    then obtain w' where "next_handler t w = Some w'" using r by (simp add: next_handler_def)
    then show ?thesis using strand_inner.intros(4) by blast
  next
    case (Run b fs)
    then obtain f gs where "fs = f # gs" using assms(1) Inside by (cases fs) (auto simp: strand_held_def)
    then obtain w' where "handler_returns t w = Some w'" using r Run by (simp add: handler_returns_def)
    then show ?thesis using strand_inner.intros(5) by blast
  next
    case Leaving
    then obtain w' where "on_invoker_exit t w = Some w'" using r by (simp add: on_invoker_exit_def push_waiting_to_ready_def Let_def)
    then show ?thesis using strand_inner.intros(6) by blast
  next
    case Rescheduling
    then obtain w' where "reschedule_strand t w = Some w'" using r by (simp add: reschedule_strand_def)
    then show ?thesis using strand_inner.intros(7) by blast
  qed (use assms(1) Inside in \<open>simp add: strand_held_def\<close>)
qed (use assms(2) in simp)

abbreviation strand_inners :: "'f strand_world \<Rightarrow> 'f strand_world \<Rightarrow> bool" where
  "strand_inners \<equiv> (\<lambda>v v'. \<exists>t. strand_inner t v v')\<^sup>*\<^sup>*"

lemma inners_held:
  assumes "strand_inners w w'" "strand_held h w"
  shows "\<exists>h'. strand_held h' w' \<and> accepted w' = accepted w"
  using assms
proof (induction rule: rtranclp_induct)
  case (step v v')
  then obtain h t where "strand_held h v" "accepted v = accepted w" "strand_inner t v v'" by blast
  then show ?case using inner_held [of h v t v'] by (auto simp: strand_nearer_def)
qed blast

lemma inners_end:
  assumes "strand_held h (g (0 :: nat))"
  shows "\<exists>i. \<nexists>t. strand_inner t (g i) (g (Suc i))"
proof (rule ccontr)
  assume "\<not> (\<exists>i. \<nexists>t. strand_inner t (g i) (g (Suc i)))"
  then have step: "\<exists>t. strand_inner t (g i) (g (Suc i))" for i by blast
  have "\<exists>h. strand_held h (g i) \<and> strand_distance h (g i) + i \<le> strand_distance h0 (g 0)" if "strand_held h0 (g 0)" for h0 i
  proof (induction i)
    case (Suc i)
    then obtain h where h: "strand_held h (g i)" "strand_distance h (g i) + i \<le> strand_distance h0 (g 0)" by blast
    obtain t where "strand_inner t (g i) (g (Suc i))" using step by blast
    from inner_held [OF h(1) this] h(2) show ?case by (fastforce simp: strand_nearer_def)
  qed (use that in auto)
  from this [OF assms, of "Suc (strand_distance h (g 0))"] show False by auto
qed

section \<open>Properties\<close>


text \<open>C22. Order. What a strand has begun to run is at every moment a prefix of what it accepted, in the order in which
  the calls took the mutex; the rest is in the ready queue, then with the one thread that is just handing over its
  function, then in the waiting queue. Nothing is lost, duplicated or reordered, whatever the threads do.\<close>

theorem strand_fifo:
  assumes "strand_reachable w"
  shows "\<exists>hand. accepted w = begun w @ ready_queue (impl w) @ hand @ waiting_queue (impl w) \<and>
    length hand \<le> 1 \<and> set hand = {f. \<exists>t. poster_of w t = Handing f}"
proof -
  obtain h where h: "strand_held h w" using reachable_held [OF assms] by blast
  then have "set (in_hand h) = {f. \<exists>t. poster_of w t = Handing f} \<and> length (in_hand h) \<le> 1"
    by (cases h) (auto simp: strand_held_def split: if_splits)
  then show ?thesis using h by (auto simp: strand_held_def)
qed

text \<open>Progress. When no further calls are made, the steps of the strand come to an end, and wherever they stop
  everything accepted has been run: no wake-up is lost between the thread that leaves the strand and the threads that
  queue functions behind it.\<close>

theorem strand_drains:
  assumes "strand_reachable w"
  shows "(\<forall>w'. strand_inners w w' \<and> (\<nexists>t w''. strand_inner t w' w'') \<longrightarrow> begun w' = accepted w \<and> \<not> locked (impl w')) \<and>
    (\<nexists>g. g 0 = w \<and> (\<forall>i :: nat. \<exists>t. strand_inner t (g i) (g (Suc i))))"
proof -
  obtain h where h: "strand_held h w" using reachable_held [OF assms] by blast
  have "begun w' = accepted w \<and> \<not> locked (impl w')" if s: "strand_inners w w'" and e: "\<nexists>t w''. strand_inner t w' w''" for w'
  proof -
    obtain h' where h': "strand_held h' w'" "accepted w' = accepted w" using inners_held [OF s h] by blast
    then have "h' = Nobody" using inner_enabled e by blast
    then show ?thesis using h' by (simp add: strand_held_def)
  qed
  moreover have "\<nexists>g. g 0 = w \<and> (\<forall>i :: nat. \<exists>t. strand_inner t (g i) (g (Suc i)))" using inners_end h by metis
  ultimately show ?thesis by blast
qed

text \<open>Two threads post, the second while the first has the strand but has not handed its function over.\<close>

definition demo_strand :: "nat strand_world" where
  "demo_strand = make_call 1 (CPost 8) (make_call 0 (CPost 7) strand_world_new)"

lemma demo_strand_state:
  "poster_of demo_strand = (\<lambda>_. NoPost)(0 := Handing 7)" "runner_of demo_strand = (\<lambda>_. Out)" "ready_queue (impl demo_strand) = []"
  "waiting_queue (impl demo_strand) = [8]" "accepted demo_strand = [7, 8]" "begun demo_strand = []"
  by (simp_all add: demo_strand_def strand_world_new_def create_strand_def strand_post_def strand_enqueue_def set_poster_def)

lemma demo_strand_reachable: "strand_reachable demo_strand"
  unfolding demo_strand_def
  by (intro strand_reachable.call strand_reachable.new)
    (simp_all add: strand_world_new_def create_strand_def strand_post_def strand_enqueue_def set_poster_def)


theorem strand_fifo_witness: "\<exists>hand. [7, 8] = hand @ waiting_queue (impl demo_strand) \<and> set hand = {7 :: nat}"
proof -
  have "{f. \<exists>t. poster_of demo_strand t = Handing f} = {7}" by (auto simp: demo_strand_state)
  then show ?thesis using strand_fifo [OF demo_strand_reachable] by (simp add: demo_strand_state)
qed

lemma strand_can_end:
  assumes "strand_held h w"
  shows "\<exists>w'. strand_inners w w' \<and> (\<nexists>t w''. strand_inner t w' w'')"
  using assms
proof (induction "strand_distance h w" arbitrary: h w rule: less_induct)
  case less
  show ?case
  proof (cases "\<exists>t v. strand_inner t w v")
    case True
    then obtain t v where v: "strand_inner t w v" by blast
    obtain h' where "strand_held h' v" "strand_distance h' v < strand_distance h w"
      using inner_held [OF less.prems v] by (auto simp: strand_nearer_def)
    then obtain w' where "strand_inners v w'" "\<nexists>t w''. strand_inner t w' w''" using less.hyps by blast
    moreover from this(1) have "strand_inners w w'" by (rule converse_rtranclp_into_rtranclp [rotated]) (use v in blast)
    ultimately show ?thesis by blast
  qed blast
qed

theorem strand_drains_witness: "\<exists>w'. strand_inners demo_strand w' \<and> begun w' = [7, 8] \<and> \<not> locked (impl w')"
proof -
  obtain h where "strand_held h demo_strand" using reachable_held [OF demo_strand_reachable] by blast
  from strand_can_end [OF this] obtain w' where
    w': "strand_inners demo_strand w'" "\<nexists>t w''. strand_inner t w' w''" by blast
  then have "begun w' = accepted demo_strand \<and> \<not> locked (impl w')"
    using conjunct1 [OF strand_drains [OF demo_strand_reachable]] by blast
  then show ?thesis using w'(1) by (auto simp: demo_strand_state)
qed

end
