(* ===== verification/AsioAddress.thy ===== *)
theory AsioAddress
  imports Protocol
begin

text \<open>
  Internet addresses and endpoints of the vendored Asio: \<^verbatim>\<open>include/asio/ip/address_v4.hpp\<close>,
  \<^verbatim>\<open>address_v6.hpp\<close>, \<^verbatim>\<open>address.hpp\<close>, their iterators and ranges, and
  \<^verbatim>\<open>ip/detail/endpoint.hpp\<close>, with the \<^verbatim>\<open>impl/\<close> files. An IPv4 address is the 32-bit word of
  \<open>in_addr\<close>, which holds the address in network byte order; an IPv6 address is 16 bytes and a scope; an endpoint is the
  bytes of the union of the two socket address structures, on the little-endian target.
\<close>

section \<open>Bytes and byte order\<close>

lemma le_bytes_of_le:
  assumes "length bs = n" "8 * n \<le> LENGTH('a::len)"
  shows "le_bytes n (of_le bs :: 'a word) = bs"
proof (rule nth_equalityI)
  fix i assume "i < length (le_bytes n (of_le bs :: 'a word))"
  then have i: "i < n" by simp
  show "le_bytes n (of_le bs :: 'a word) ! i = bs ! i"
  proof (rule bit_word_eqI)
    fix j assume "j < LENGTH(8)"
    then show "bit (le_bytes n (of_le bs :: 'a word) ! i) j = bit (bs ! i) j"
      using i assms by (simp add: le_bytes_def bit_simps bit_of_le)
  qed
qed (use assms in simp)

lemma of_le_eq_iff:
  assumes "length bs = n" "length cs = n" "8 * n \<le> LENGTH('a::len)"
  shows "(of_le bs :: 'a word) = of_le cs \<longleftrightarrow> bs = cs"
  using le_bytes_of_le [OF assms(1,3)] le_bytes_of_le [OF assms(2,3)] by metis

text \<open>\<open>htonl\<close> and \<open>ntohl\<close>, \<open>htons\<close> and \<open>ntohs\<close> on a little-endian machine.\<close>

definition host_to_network_long :: "u32 \<Rightarrow> u32" where
  "host_to_network_long w = of_le (rev (le_bytes 4 w))"

definition network_to_host_long :: "u32 \<Rightarrow> u32" where
  "network_to_host_long w = of_le (rev (le_bytes 4 w))"

definition host_to_network_short :: "u16 \<Rightarrow> u16" where
  "host_to_network_short w = of_le (rev (le_bytes 2 w))"

definition network_to_host_short :: "u16 \<Rightarrow> u16" where
  "network_to_host_short w = of_le (rev (le_bytes 2 w))"

lemma byte_order_inverse [simp]:
  "network_to_host_long (host_to_network_long a) = a" "host_to_network_long (network_to_host_long a) = a"
  "network_to_host_short (host_to_network_short p) = p" "host_to_network_short (network_to_host_short p) = p"
  by (simp_all add: host_to_network_long_def network_to_host_long_def host_to_network_short_def network_to_host_short_def
      le_bytes_of_le of_le_bytes)

section \<open>IPv4 addresses\<close>

datatype address_v4 = Address_v4 (s_addr: u32)

definition v4_of_uint :: "u32 \<Rightarrow> address_v4" where
  "v4_of_uint addr = Address_v4 (host_to_network_long addr)"

definition v4_of_bytes :: "bytes \<Rightarrow> address_v4" where
  "v4_of_bytes bs = Address_v4 (of_le bs)"

definition v4_to_uint :: "address_v4 \<Rightarrow> u32" where
  "v4_to_uint a = network_to_host_long (s_addr a)"

definition v4_to_bytes :: "address_v4 \<Rightarrow> bytes" where
  "v4_to_bytes a = le_bytes 4 (s_addr a)"

definition v4_any :: address_v4 where "v4_any = Address_v4 0"
definition v4_loopback :: address_v4 where "v4_loopback = v4_of_uint 0x7F000001"
definition v4_broadcast :: address_v4 where "v4_broadcast = v4_of_uint 0xFFFFFFFF"

definition v4_is_loopback :: "address_v4 \<Rightarrow> bool" where
  "v4_is_loopback a \<longleftrightarrow> v4_to_uint a AND 0xFF000000 = 0x7F000000"

definition v4_is_unspecified :: "address_v4 \<Rightarrow> bool" where
  "v4_is_unspecified a \<longleftrightarrow> v4_to_uint a = 0"

definition v4_is_multicast :: "address_v4 \<Rightarrow> bool" where
  "v4_is_multicast a \<longleftrightarrow> v4_to_uint a AND 0xF0000000 = 0xE0000000"

lemma v4_uint [simp]: "v4_to_uint (v4_of_uint a) = a" "v4_of_uint (v4_to_uint b) = b"
  by (simp_all add: v4_to_uint_def v4_of_uint_def)

lemma v4_bytes [simp]: "v4_of_bytes (v4_to_bytes a) = a" "length bs = 4 \<Longrightarrow> v4_to_bytes (v4_of_bytes bs) = bs"
  by (simp_all add: v4_to_bytes_def v4_of_bytes_def of_le_bytes le_bytes_of_le)

lemma v4_to_uint_inject: "v4_to_uint a = v4_to_uint b \<longleftrightarrow> a = b"
  by (metis v4_uint(2))

text \<open>The comparison operators compare in host byte order; equality compares the words.\<close>

instantiation address_v4 :: linorder
begin

definition less_eq_address_v4 :: "address_v4 \<Rightarrow> address_v4 \<Rightarrow> bool" where
  "a \<le> b \<longleftrightarrow> v4_to_uint a \<le> v4_to_uint b"

definition less_address_v4 :: "address_v4 \<Rightarrow> address_v4 \<Rightarrow> bool" where
  "a < b \<longleftrightarrow> v4_to_uint a < v4_to_uint b"

instance
  by standard (auto simp: less_eq_address_v4_def less_address_v4_def v4_to_uint_inject [symmetric])

end

section \<open>IPv6 addresses\<close>

datatype address_v6 = Address_v6 (s6_addr: bytes) (scope_id: u32)

text \<open>Every constructor fills the array of 16 bytes.\<close>

definition v6_wf :: "address_v6 \<Rightarrow> bool" where
  "v6_wf a \<longleftrightarrow> length (s6_addr a) = 16"

definition v6_any :: address_v6 where "v6_any = Address_v6 (replicate 16 0) 0"
definition v6_loopback :: address_v6 where "v6_loopback = Address_v6 ((replicate 16 0)[15 := 1]) 0"

definition v6_is_loopback :: "address_v6 \<Rightarrow> bool" where
  "v6_is_loopback a \<longleftrightarrow> take 15 (s6_addr a) = replicate 15 0 \<and> s6_addr a ! 15 = 1"

definition v6_is_unspecified :: "address_v6 \<Rightarrow> bool" where
  "v6_is_unspecified a \<longleftrightarrow> take 16 (s6_addr a) = replicate 16 0"

definition v6_is_link_local :: "address_v6 \<Rightarrow> bool" where
  "v6_is_link_local a \<longleftrightarrow> s6_addr a ! 0 = 0xfe \<and> s6_addr a ! 1 AND 0xc0 = 0x80"

definition v6_is_site_local :: "address_v6 \<Rightarrow> bool" where
  "v6_is_site_local a \<longleftrightarrow> s6_addr a ! 0 = 0xfe \<and> s6_addr a ! 1 AND 0xc0 = 0xc0"

definition v6_is_v4_mapped :: "address_v6 \<Rightarrow> bool" where
  "v6_is_v4_mapped a \<longleftrightarrow> take 10 (s6_addr a) = replicate 10 0 \<and> s6_addr a ! 10 = 0xff \<and> s6_addr a ! 11 = 0xff"

definition v6_is_multicast :: "address_v6 \<Rightarrow> bool" where
  "v6_is_multicast a \<longleftrightarrow> s6_addr a ! 0 = 0xff"

text \<open>\<open>is_multicast_global\<close>, \<open>_link_local\<close>, \<open>_node_local\<close>, \<open>_org_local\<close> and \<open>_site_local\<close> with their scopes.\<close>

definition v6_is_multicast_scope :: "u8 \<Rightarrow> address_v6 \<Rightarrow> bool" where
  "v6_is_multicast_scope scope a \<longleftrightarrow> s6_addr a ! 0 = 0xff \<and> s6_addr a ! 1 AND 0x0f = scope"

abbreviation "v6_is_multicast_global \<equiv> v6_is_multicast_scope 0x0e"
abbreviation "v6_is_multicast_link_local \<equiv> v6_is_multicast_scope 0x02"
abbreviation "v6_is_multicast_node_local \<equiv> v6_is_multicast_scope 0x01"
abbreviation "v6_is_multicast_org_local \<equiv> v6_is_multicast_scope 0x08"
abbreviation "v6_is_multicast_site_local \<equiv> v6_is_multicast_scope 0x05"

text \<open>\<open>memcmp\<close> on equally long arrays, and the order.\<close>

fun memcmp :: "bytes \<Rightarrow> bytes \<Rightarrow> int" where
  "memcmp (a # as) (b # bs) = (if a < b then -1 else if b < a then 1 else memcmp as bs)"
| "memcmp _ _ = 0"

definition v6_eq :: "address_v6 \<Rightarrow> address_v6 \<Rightarrow> bool" where
  "v6_eq a b \<longleftrightarrow> memcmp (s6_addr a) (s6_addr b) = 0 \<and> scope_id a = scope_id b"

definition v6_less :: "address_v6 \<Rightarrow> address_v6 \<Rightarrow> bool" where
  "v6_less a b \<longleftrightarrow>
     (let r = memcmp (s6_addr a) (s6_addr b)
      in if r < 0 then True else if r > 0 then False else scope_id a < scope_id b)"

text \<open>The conversions between an IPv4 address and the IPv4-mapped IPv6 address: \<open>None\<close> is \<open>bad_address_cast\<close>.\<close>

definition make_v4_of_mapped :: "address_v6 \<Rightarrow> address_v4 option" where
  "make_v4_of_mapped a =
     (if \<not> v6_is_v4_mapped a then None
      else let bs = s6_addr a in Some (v4_of_bytes [bs ! 12, bs ! 13, bs ! 14, bs ! 15]))"

definition make_v4_mapped :: "address_v4 \<Rightarrow> address_v6" where
  "make_v4_mapped a =
     (let bs = v4_to_bytes a
      in Address_v6 [0, 0, 0, 0, 0, 0, 0, 0, 0, 0, 0xFF, 0xFF, bs ! 0, bs ! 1, bs ! 2, bs ! 3] 0)"

section \<open>Addresses of either version\<close>

text \<open>\<open>address\<close> holds one of each and a type; the one that does not count is the default.\<close>

datatype ip_address = Ipv4 address_v4 | Ipv6 address_v6

fun addr_is_v4 :: "ip_address \<Rightarrow> bool" where
  "addr_is_v4 (Ipv4 a) \<longleftrightarrow> True"
| "addr_is_v4 (Ipv6 a) \<longleftrightarrow> False"

fun addr_to_v4 :: "ip_address \<Rightarrow> address_v4 option" where
  "addr_to_v4 (Ipv4 a) = Some a"
| "addr_to_v4 (Ipv6 a) = None"

fun addr_to_v6 :: "ip_address \<Rightarrow> address_v6 option" where
  "addr_to_v6 (Ipv4 a) = None"
| "addr_to_v6 (Ipv6 a) = Some a"

fun addr_is_loopback :: "ip_address \<Rightarrow> bool" where
  "addr_is_loopback (Ipv4 a) = v4_is_loopback a"
| "addr_is_loopback (Ipv6 a) = v6_is_loopback a"

fun addr_is_unspecified :: "ip_address \<Rightarrow> bool" where
  "addr_is_unspecified (Ipv4 a) = v4_is_unspecified a"
| "addr_is_unspecified (Ipv6 a) = v6_is_unspecified a"

fun addr_is_multicast :: "ip_address \<Rightarrow> bool" where
  "addr_is_multicast (Ipv4 a) = v4_is_multicast a"
| "addr_is_multicast (Ipv6 a) = v6_is_multicast a"

fun addr_eq :: "ip_address \<Rightarrow> ip_address \<Rightarrow> bool" where
  "addr_eq (Ipv4 a) (Ipv4 b) \<longleftrightarrow> a = b"
| "addr_eq (Ipv6 a) (Ipv6 b) \<longleftrightarrow> v6_eq a b"
| "addr_eq _ _ \<longleftrightarrow> False"

fun addr_less :: "ip_address \<Rightarrow> ip_address \<Rightarrow> bool" where
  "addr_less (Ipv4 a) (Ipv4 b) \<longleftrightarrow> a < b"
| "addr_less (Ipv4 a) (Ipv6 b) \<longleftrightarrow> True"
| "addr_less (Ipv6 a) (Ipv4 b) \<longleftrightarrow> False"
| "addr_less (Ipv6 a) (Ipv6 b) \<longleftrightarrow> v6_less a b"

end
