(* ===== verification/AsioNetwork.thy ===== *)
theory AsioNetwork
  imports AsioAddress
begin

text \<open>
  Address iterators, ranges and networks of the vendored Asio: \<^verbatim>\<open>include/asio/ip/address_v4_iterator.hpp\<close>,
  \<^verbatim>\<open>address_v4_range.hpp\<close>, \<^verbatim>\<open>network_v4.hpp\<close>, their IPv6 counterparts and the \<^verbatim>\<open>impl/\<close> files.
  The lemmas read an address as the number it is: 32 or 128 bits.
\<close>

section \<open>Iterators\<close>

definition v4_increment :: "address_v4 \<Rightarrow> address_v4" where
  "v4_increment a = v4_of_uint ((v4_to_uint a + 1) AND 0xFFFFFFFF)"

definition v4_decrement :: "address_v4 \<Rightarrow> address_v4" where
  "v4_decrement a = v4_of_uint ((v4_to_uint a - 1) AND 0xFFFFFFFF)"

text \<open>The loops over the bytes of an IPv6 address, from the last one down; the argument is the index plus one.\<close>

fun increment_loop :: "nat \<Rightarrow> bytes \<Rightarrow> bytes" where
  "increment_loop 0 bs = bs"
| "increment_loop (Suc i) bs = (if bs ! i < 0xFF then bs[i := bs ! i + 1] else increment_loop i (bs[i := 0]))"

fun decrement_loop :: "nat \<Rightarrow> bytes \<Rightarrow> bytes" where
  "decrement_loop 0 bs = bs"
| "decrement_loop (Suc i) bs = (if bs ! i > 0 then bs[i := bs ! i - 1] else decrement_loop i (bs[i := 0xFF]))"

definition v6_increment :: "address_v6 \<Rightarrow> address_v6" where
  "v6_increment a = Address_v6 (increment_loop 16 (s6_addr a)) (scope_id a)"

definition v6_decrement :: "address_v6 \<Rightarrow> address_v6" where
  "v6_decrement a = Address_v6 (decrement_loop 16 (s6_addr a)) (scope_id a)"

section \<open>Ranges\<close>

text \<open>A range is a pair of iterators; \<open>find\<close> yields an iterator, which is the end when the address is not in the
  range.\<close>

definition v4_range_size :: "address_v4 \<times> address_v4 \<Rightarrow> u64" where
  "v4_range_size r = ucast (v4_to_uint (snd r) - v4_to_uint (fst r))"

definition v4_range_empty :: "address_v4 \<times> address_v4 \<Rightarrow> bool" where
  "v4_range_empty r \<longleftrightarrow> v4_range_size r = 0"

definition v4_range_find :: "address_v4 \<Rightarrow> address_v4 \<times> address_v4 \<Rightarrow> address_v4" where
  "v4_range_find a r = (if a \<ge> fst r \<and> a < snd r then a else snd r)"

definition v6_range_empty :: "address_v6 \<times> address_v6 \<Rightarrow> bool" where
  "v6_range_empty r \<longleftrightarrow> v6_eq (fst r) (snd r)"

definition v6_range_find :: "address_v6 \<Rightarrow> address_v6 \<times> address_v6 \<Rightarrow> address_v6" where
  "v6_range_find a r = (if \<not> v6_less a (fst r) \<and> v6_less a (snd r) then a else snd r)"

section \<open>IPv4 networks\<close>

datatype net_exception = Out_of_range | Invalid_argument

record network_v4 =
  n4_address :: address_v4
  n4_prefix_length :: nat

definition network_v4_new :: "address_v4 \<Rightarrow> u16 \<Rightarrow> net_exception + network_v4" where
  "network_v4_new addr prefix_len =
     (if prefix_len > 32 then Inl Out_of_range
      else Inr \<lparr>n4_address = addr, n4_prefix_length = unat prefix_len\<rparr>)"

text \<open>The loop over the bytes of a mask.\<close>

fun mask_loop :: "bytes \<Rightarrow> bool \<Rightarrow> nat \<Rightarrow> net_exception + nat" where
  "mask_loop [] finished prefix = Inr prefix"
| "mask_loop (b # bs) finished prefix =
     (if finished then if b \<noteq> 0 then Inl Invalid_argument else mask_loop bs finished prefix
      else if b = 255 then mask_loop bs False (prefix + 8)
      else if b = 254 then mask_loop bs True (prefix + 7)
      else if b = 252 then mask_loop bs True (prefix + 6)
      else if b = 248 then mask_loop bs True (prefix + 5)
      else if b = 240 then mask_loop bs True (prefix + 4)
      else if b = 224 then mask_loop bs True (prefix + 3)
      else if b = 192 then mask_loop bs True (prefix + 2)
      else if b = 128 then mask_loop bs True (prefix + 1)
      else if b = 0 then mask_loop bs True prefix
      else Inl Out_of_range)"

definition network_v4_of_mask :: "address_v4 \<Rightarrow> address_v4 \<Rightarrow> net_exception + network_v4" where
  "network_v4_of_mask addr netmask =
     (case mask_loop (v4_to_bytes netmask) False 0 of
        Inl e \<Rightarrow> Inl e
      | Inr n \<Rightarrow> Inr \<lparr>n4_address = addr, n4_prefix_length = n\<rparr>)"

definition n4_netmask :: "network_v4 \<Rightarrow> address_v4" where
  "n4_netmask n =
     v4_of_uint (if n4_prefix_length n = 0 then 0 else push_bit (32 - n4_prefix_length n) 0xffffffff)"

definition n4_network :: "network_v4 \<Rightarrow> address_v4" where
  "n4_network n = v4_of_uint (v4_to_uint (n4_address n) AND v4_to_uint (n4_netmask n))"

definition n4_broadcast :: "network_v4 \<Rightarrow> address_v4" where
  "n4_broadcast n = v4_of_uint (v4_to_uint (n4_network n) OR (v4_to_uint (n4_netmask n) XOR 0xFFFFFFFF))"

definition n4_is_host :: "network_v4 \<Rightarrow> bool" where
  "n4_is_host n \<longleftrightarrow> n4_prefix_length n = 32"

definition n4_hosts :: "network_v4 \<Rightarrow> address_v4 \<times> address_v4" where
  "n4_hosts n =
     (if n4_is_host n then (n4_address n, v4_of_uint (v4_to_uint (n4_address n) + 1))
      else (v4_of_uint (v4_to_uint (n4_network n) + 1), n4_broadcast n))"

definition n4_canonical :: "network_v4 \<Rightarrow> network_v4" where
  "n4_canonical n = \<lparr>n4_address = n4_network n, n4_prefix_length = n4_prefix_length n\<rparr>"

definition n4_is_subnet_of :: "network_v4 \<Rightarrow> network_v4 \<Rightarrow> bool" where
  "n4_is_subnet_of n other \<longleftrightarrow>
     (if n4_prefix_length other \<ge> n4_prefix_length n then False
      else n4_canonical other = n4_canonical \<lparr>n4_address = n4_address n, n4_prefix_length = n4_prefix_length other\<rparr>)"

section \<open>IPv6 networks\<close>

record network_v6 =
  n6_address :: address_v6
  n6_prefix_length :: nat

definition network_v6_new :: "address_v6 \<Rightarrow> u16 \<Rightarrow> net_exception + network_v6" where
  "network_v6_new addr prefix_len =
     (if prefix_len > 128 then Inl Out_of_range
      else Inr \<lparr>n6_address = addr, n6_prefix_length = unat prefix_len\<rparr>)"

text \<open>The bytes of the first address and of the last: the code shifts an \<open>int\<close> and keeps the low byte.\<close>

definition begin_byte :: "nat \<Rightarrow> nat \<Rightarrow> u8 \<Rightarrow> u8" where
  "begin_byte prefix i b =
     (if prefix \<le> i * 8 then 0
      else if prefix < (i + 1) * 8 then b AND ucast (drop_bit (prefix mod 8) (0xFF00 :: u32))
      else b)"

definition end_byte :: "nat \<Rightarrow> nat \<Rightarrow> u8 \<Rightarrow> u8" where
  "end_byte prefix i b =
     (if prefix \<le> i * 8 then 0xFF
      else if prefix < (i + 1) * 8 then b OR ucast (drop_bit (prefix mod 8) (0xFF :: u32))
      else b)"

definition n6_network :: "network_v6 \<Rightarrow> address_v6" where
  "n6_network n =
     Address_v6 (map (\<lambda>i. begin_byte (n6_prefix_length n) i (s6_addr (n6_address n) ! i)) [0..<16]) (scope_id (n6_address n))"

definition n6_last :: "network_v6 \<Rightarrow> address_v6" where
  "n6_last n =
     Address_v6 (map (\<lambda>i. end_byte (n6_prefix_length n) i (s6_addr (n6_address n) ! i)) [0..<16]) (scope_id (n6_address n))"

definition n6_hosts :: "network_v6 \<Rightarrow> address_v6 \<times> address_v6" where
  "n6_hosts n = (n6_network n, v6_increment (n6_last n))"

definition n6_is_host :: "network_v6 \<Rightarrow> bool" where
  "n6_is_host n \<longleftrightarrow> n6_prefix_length n = 128"

definition n6_canonical :: "network_v6 \<Rightarrow> network_v6" where
  "n6_canonical n = \<lparr>n6_address = n6_network n, n6_prefix_length = n6_prefix_length n\<rparr>"

definition n6_eq :: "network_v6 \<Rightarrow> network_v6 \<Rightarrow> bool" where
  "n6_eq a b \<longleftrightarrow> v6_eq (n6_address a) (n6_address b) \<and> n6_prefix_length a = n6_prefix_length b"

definition n6_is_subnet_of :: "network_v6 \<Rightarrow> network_v6 \<Rightarrow> bool" where
  "n6_is_subnet_of n other \<longleftrightarrow>
     (if n6_prefix_length other \<ge> n6_prefix_length n then False
      else n6_eq (n6_canonical other) (n6_canonical \<lparr>n6_address = n6_address n, n6_prefix_length = n6_prefix_length other\<rparr>))"

section \<open>Addresses as numbers\<close>

definition v6_value :: "address_v6 \<Rightarrow> 128 word" where
  "v6_value a = of_le (rev (s6_addr a))"

lemma of_le_Cons: "of_le (b # bs) = (ucast b :: 'a::len word) + 256 * of_le bs"
proof -
  have "ucast b AND push_bit 8 (of_le bs :: 'a word) = 0"
    by (rule bit_word_eqI) (auto simp: bit_simps dest: bit_imp_le_length)
  then have "ucast b + push_bit 8 (of_le bs :: 'a word) = ucast b OR push_bit 8 (of_le bs)"
    by (rule disjunctive_add_eq_or)
  then show ?thesis by (simp add: push_bit_eq_mult mult.commute)
qed

text \<open>The loops from the least significant byte.\<close>

fun increment_le :: "bytes \<Rightarrow> bytes" where
  "increment_le [] = []"
| "increment_le (b # bs) = (if b < 0xFF then (b + 1) # bs else 0 # increment_le bs)"

fun decrement_le :: "bytes \<Rightarrow> bytes" where
  "decrement_le [] = []"
| "decrement_le (b # bs) = (if b > 0 then (b - 1) # bs else 0xFF # decrement_le bs)"

lemma nth_last: "length bs = n \<Longrightarrow> (bs @ b # cs) ! n = b" "length bs = n \<Longrightarrow> (bs @ b # cs)[n := c] = bs @ c # cs"
  by (auto simp: list_update_append)

lemma increment_loop_le: "length bs = n \<Longrightarrow> increment_loop n (bs @ cs) = rev (increment_le (rev bs)) @ cs"
proof (induction bs arbitrary: n cs rule: rev_induct)
  case (snoc b bs)
  then show ?case by (cases n) (simp_all add: nth_last)
qed simp

lemma decrement_loop_le: "length bs = n \<Longrightarrow> decrement_loop n (bs @ cs) = rev (decrement_le (rev bs)) @ cs"
proof (induction bs arbitrary: n cs rule: rev_induct)
  case (snoc b bs)
  then show ?case by (cases n) (simp_all add: nth_last)
qed simp

lemma byte_max: "\<not> (b :: u8) < 0xFF \<Longrightarrow> b = 0xFF"
proof -
  assume "\<not> b < 0xFF"
  moreover have "(0xFF :: u8) = - 1" by simp
  ultimately show ?thesis by (metis linorder_less_linear word_order.not_eq_extremum)
qed


lemma byte_succ:
  assumes "(b :: u8) < 0xFF"
  shows "ucast (b + 1) = (ucast b :: 128 word) + 1"
proof -
  have "unat b + 1 < 2 ^ 8" using assms by (simp add: word_less_nat_alt)
  then have "unat (b + 1) = unat b + 1" by (simp add: unat_add_lem [THEN iffD1])
  then have "(of_nat (unat (b + 1)) :: 128 word) = of_nat (unat b) + 1" by (simp only: of_nat_add of_nat_1)
  then show ?thesis by simp
qed

lemma byte_pred:
  assumes "(b :: u8) > 0"
  shows "ucast (b - 1) = (ucast b :: 128 word) - 1"
proof -
  have "(1 :: u8) \<le> b" using assms by (simp add: word_less_nat_alt word_le_nat_alt)
  then have "unat (b - 1) = unat b - 1" "1 \<le> unat b" by (simp_all add: unat_sub word_le_nat_alt)
  then have "(of_nat (unat (b - 1)) :: 128 word) = of_nat (unat b) - 1" by (simp only: of_nat_diff of_nat_1)
  then show ?thesis by simp
qed

lemma increment_le_value:
  "of_le (increment_le bs) = (of_le bs :: 128 word) + 1 - (if \<forall>b\<in>set bs. b = 0xFF then 256 ^ length bs else 0)"
proof (induction bs)
  case (Cons b bs)
  show ?case
  proof (cases "b < 0xFF")
    case True
    then have "b \<noteq> 0xFF" by auto
    then show ?thesis using True by (simp add: of_le_Cons byte_succ del: of_le.simps(2))
  next
    case False
    then have "b = 0xFF" by (rule byte_max)
    then show ?thesis
      by (cases "\<forall>b\<in>set bs. b = 0xFF") (auto simp: Cons of_le_Cons distrib_left right_diff_distrib simp del: of_le.simps(2))
  qed
qed simp

lemma decrement_le_value:
  "of_le (decrement_le bs) = (of_le bs :: 128 word) - 1 + (if \<forall>b\<in>set bs. b = 0 then 256 ^ length bs else 0)"
proof (induction bs)
  case (Cons b bs)
  show ?case
  proof (cases "b > 0")
    case True
    then have "b \<noteq> 0" by auto
    then show ?thesis using True by (simp add: of_le_Cons byte_pred del: of_le.simps(2))
  next
    case False
    then have "b = 0" by (simp add: word_greater_zero_iff)
    then show ?thesis
      by (cases "\<forall>b\<in>set bs. b = 0") (auto simp: Cons of_le_Cons distrib_left right_diff_distrib simp del: of_le.simps(2))
  qed
qed simp

lemma length_increment_le [simp]: "length (increment_le bs) = length bs" "length (decrement_le bs) = length bs"
  by (induction bs) auto

lemma v6_step_value:
  assumes "v6_wf a"
  shows "v6_value (v6_increment a) = v6_value a + 1" "v6_value (v6_decrement a) = v6_value a - 1"
    "v6_wf (v6_increment a)" "v6_wf (v6_decrement a)"
proof -
  have l: "length (s6_addr a) = 16" using assms by (simp add: v6_wf_def)
  have z: "(256 :: 128 word) ^ 16 = 0" by simp
  show "v6_value (v6_increment a) = v6_value a + 1" "v6_value (v6_decrement a) = v6_value a - 1"
    using increment_loop_le [OF l, of "[]"] decrement_loop_le [OF l, of "[]"] l z
    by (simp_all add: v6_value_def v6_increment_def v6_decrement_def increment_le_value decrement_le_value)
  show "v6_wf (v6_increment a)" "v6_wf (v6_decrement a)"
    using increment_loop_le [OF l, of "[]"] decrement_loop_le [OF l, of "[]"] l
    by (simp_all add: v6_wf_def v6_increment_def v6_decrement_def)
qed

lemma v6_value_inject:
  assumes "v6_wf a" "v6_wf b"
  shows "v6_value a = v6_value b \<and> scope_id a = scope_id b \<longleftrightarrow> a = b"
  using assms of_le_eq_iff [of "rev (s6_addr a)" 16 "rev (s6_addr b)", where 'a = 128]
  by (cases a; cases b) (auto simp: v6_value_def v6_wf_def)

text \<open>\<open>memcmp\<close> on arrays of the same length compares the numbers.\<close>

fun be_nat :: "bytes \<Rightarrow> nat" where
  "be_nat [] = 0"
| "be_nat (b # bs) = unat b * 256 ^ length bs + be_nat bs"

lemma be_nat_bound: "be_nat bs < 256 ^ length bs"
proof (induction bs)
  case (Cons b bs)
  have "unat b + 1 \<le> 256" using unsigned_less [of b, where 'a = nat] by simp
  then have "(unat b + 1) * 256 ^ length bs \<le> 256 * 256 ^ length bs" by (rule mult_le_mono1)
  then have "unat b * 256 ^ length bs + 256 ^ length bs \<le> 256 * 256 ^ length bs" by (simp only: add_mult_distrib mult_1)
  then have "unat b * 256 ^ length bs + be_nat bs < 256 * 256 ^ length bs" using Cons.IH by linarith
  then show ?case using Cons.IH by simp
qed simp

lemma be_nat_append: "be_nat (bs @ cs) = be_nat bs * 256 ^ length cs + be_nat cs"
  by (induction bs) (simp_all add: power_add algebra_simps)

lemma of_le_rev: "(of_le (rev bs) :: 'a::len word) = of_nat (be_nat bs)"
proof (induction bs rule: rev_induct)
  case (snoc b bs)
  then show ?case by (simp add: of_le_Cons be_nat_append add.commute mult.commute del: of_le.simps(2))
qed simp

lemma unat_v6_value: "v6_wf a \<Longrightarrow> unat (v6_value a) = be_nat (s6_addr a)"
  using be_nat_bound [of "s6_addr a"] by (simp add: v6_value_def v6_wf_def of_le_rev unat_of_nat)

lemma memcmp_be_nat:
  "length as = length bs \<Longrightarrow>
     (memcmp as bs < 0 \<longleftrightarrow> be_nat as < be_nat bs) \<and> (memcmp as bs = 0 \<longleftrightarrow> as = bs)"
proof (induction as bs rule: memcmp.induct)
  case (1 a as b bs)
  have lt: "be_nat (a # as) < be_nat (b # bs)" if "a < b" "length as = length bs" for a b as bs
  proof -
    have "unat a + 1 \<le> unat b" using that(1) by (simp add: word_less_nat_alt)
    then have "(unat a + 1) * 256 ^ length bs \<le> unat b * 256 ^ length bs" by (rule mult_le_mono1)
    then show ?thesis using be_nat_bound [of as] that(2) by simp
  qed
  consider "a < b" | "b < a" | "a = b" by (metis linorder_less_linear)
  then show ?case
  proof cases
    case 1
    then show ?thesis using lt [of a b as bs] \<open>length (a # as) = _\<close> by auto
  next
    case 2
    then show ?thesis using lt [of b a bs as] \<open>length (a # as) = _\<close> by auto
  next
    case 3
    then show ?thesis using 1 by simp
  qed
qed simp_all

lemma v6_less_value:
  assumes "v6_wf a" "v6_wf b"
  shows "v6_less a b \<longleftrightarrow> v6_value a < v6_value b \<or> v6_value a = v6_value b \<and> scope_id a < scope_id b"
  using memcmp_be_nat [of "s6_addr a" "s6_addr b"] assms
    of_le_eq_iff [of "rev (s6_addr a)" 16 "rev (s6_addr b)", where 'a = 128]
  by (auto simp: v6_less_def Let_def word_less_nat_alt unat_v6_value) (auto simp: v6_wf_def v6_value_def)

lemma v6_eq_iff: "v6_wf a \<Longrightarrow> v6_wf b \<Longrightarrow> v6_eq a b \<longleftrightarrow> a = b"
  using memcmp_be_nat [of "s6_addr a" "s6_addr b"] by (cases a; cases b) (auto simp: v6_eq_def v6_wf_def)


section \<open>Networks as numbers\<close>

lemma bit_ff: "bit (0xFF :: u32) i \<longleftrightarrow> i < 8" "bit (0xFF :: u8) i \<longleftrightarrow> i < 8" "bit (0xFF00 :: u32) i \<longleftrightarrow> 8 \<le> i \<and> i < 16"
proof -
  have m: "(0xFF :: u32) = mask 8" "(0xFF :: u8) = mask 8" "(0xFF00 :: u32) = push_bit 8 (mask 8)"
    by (simp_all add: mask_eq_exp_minus_1)
  show "bit (0xFF :: u32) i \<longleftrightarrow> i < 8" "bit (0xFF :: u8) i \<longleftrightarrow> i < 8" "bit (0xFF00 :: u32) i \<longleftrightarrow> 8 \<le> i \<and> i < 16"
    unfolding m by (auto simp: bit_simps simp del: push_bit_mask_eq)
qed

lemma bit_shifted_ff:
  "bit (ucast (drop_bit m (0xFF00 :: u32)) :: u8) k \<longleftrightarrow> k < 8 \<and> 8 \<le> m + k \<and> m + k < 16"
  "bit (ucast (drop_bit m (0xFF :: u32)) :: u8) k \<longleftrightarrow> k < 8 \<and> m + k < 8"
  by (auto simp only: bit_unsigned_iff bit_drop_bit_eq bit_ff o_def possible_bit_word len_num0 len_bit0 len_num1 len_of_numeral_defs)

lemma unat_clear_low:
  fixes a :: "'a::len word"
  shows "unat (a AND NOT (mask k)) = unat a div 2 ^ k * 2 ^ k"
proof -
  have "a AND NOT (mask k) = a - take_bit k a"
    by (subst disjunctive_diff_eq_and_not) (auto simp: take_bit_eq_mask intro!: bit_word_eqI simp: bit_simps)
  moreover have "take_bit k a \<le> a" by (simp add: word_le_nat_alt unsigned_take_bit_eq)
  ultimately have "unat (a AND NOT (mask k)) = unat a - unat (take_bit k a)" by (simp add: unat_sub)
  then show ?thesis unfolding unsigned_take_bit_eq by (simp add: take_bit_eq_mod minus_mod_eq_div_mult)
qed

lemma unat_set_low:
  fixes a :: "'a::len word"
  assumes "k \<le> LENGTH('a)"
  shows "unat (a OR mask k) = unat a div 2 ^ k * 2 ^ k + (2 ^ k - 1)"
proof -
  have "unat (a OR mask k) = unat (a AND NOT (mask k)) OR mask k" 
    using assms by (intro bit_eqI) (auto simp: bit_simps dest: bit_imp_le_length)
  also have "\<dots> = unat (a AND NOT (mask k)) + mask k"
    by (rule disjunctive_add_eq_or [symmetric]) (auto intro!: bit_eqI simp: bit_simps)
  finally show ?thesis unfolding unat_clear_low by (simp only: mask_eq_exp_minus_1)
qed

lemma ones32: "(0xFFFFFFFF :: u32) = - 1" "(mask 32 :: u32) = - 1"
  by (simp_all add: mask_eq_exp_minus_1)

lemma n4_netmask_value: "v4_to_uint (n4_netmask n) = NOT (mask (32 - n4_prefix_length n))"
  using push_bit_minus_one_eq_not_mask [of "32 - n4_prefix_length n", where 'a = u32]
  by (cases "n4_prefix_length n = 0") (simp_all only: n4_netmask_def ones32 v4_uint if_True if_False diff_zero, simp_all)

lemma n4_values:
  "v4_to_uint (n4_network n) = v4_to_uint (n4_address n) AND NOT (mask (32 - n4_prefix_length n))"
  "v4_to_uint (n4_broadcast n) = v4_to_uint (n4_address n) OR mask (32 - n4_prefix_length n)"
proof -
  show w: "v4_to_uint (n4_network n) = v4_to_uint (n4_address n) AND NOT (mask (32 - n4_prefix_length n))"
    by (simp add: n4_network_def n4_netmask_value)
  have "(0xFFFFFFFF :: u32) = - 1" by simp
  then show "v4_to_uint (n4_broadcast n) = v4_to_uint (n4_address n) OR mask (32 - n4_prefix_length n)"
    by (simp only: n4_broadcast_def w n4_netmask_value v4_uint) (rule bit_word_eqI, auto simp: bit_simps)
qed

lemma bit_v6_value:
  "bit (of_le (rev (map f [0..<16])) :: 128 word) i \<longleftrightarrow> i < 128 \<and> bit (f (15 - i div 8)) (i mod 8)"
proof (cases "i < 128")
  case True
  then have "i div 8 < 16" by simp
  then have "rev (map f [0..<16]) ! (i div 8) = f (15 - i div 8)" by (simp add: rev_nth)
  then show ?thesis using True by (simp add: bit_of_le)
qed (simp add: bit_of_le)

lemma n6_values:
  assumes "n6_prefix_length n \<le> 128" "v6_wf (n6_address n)"
  shows "v6_value (n6_network n) = v6_value (n6_address n) AND NOT (mask (128 - n6_prefix_length n))"
    "v6_value (n6_last n) = v6_value (n6_address n) OR mask (128 - n6_prefix_length n)"
    "v6_wf (n6_network n)" "v6_wf (n6_last n)"
proof -
  let ?p = "n6_prefix_length n" and ?bs = "s6_addr (n6_address n)"
  have bs: "?bs = map (\<lambda>i. ?bs ! i) [0..<16]" using assms(2) by (intro nth_equalityI) (simp_all add: v6_wf_def)
  have v: "v6_value (n6_address n) = of_le (rev (map (\<lambda>i. ?bs ! i) [0..<16]))" unfolding v6_value_def by (subst bs) (rule refl)
  have key: "bit (begin_byte ?p j b) k \<longleftrightarrow> bit b k \<and> 8 * j + 7 - k < ?p"
    "bit (end_byte ?p j b) k \<longleftrightarrow> bit b k \<or> 8 * j + 7 - k \<ge> ?p" if "k < 8" for j b k
  proof -
    have m: "?p mod 8 = ?p - 8 * j" if "\<not> ?p \<le> j * 8" "?p < (j + 1) * 8"
    proof -
      have "?p = 8 * j + (?p - 8 * j)" "?p - 8 * j < 8" using that by simp_all
      then show ?thesis by (metis mod_less mod_mult_self4)
    qed
    have b8: "bit b i \<Longrightarrow> i < 8" for i using bit_imp_le_length [of b i] by simp
    have ins: "?p \<le> j * 8 \<or> (\<not> ?p \<le> j * 8 \<and> ?p < (j + 1) * 8) \<or> \<not> ?p < (j + 1) * 8" by linarith
    show "bit (begin_byte ?p j b) k \<longleftrightarrow> bit b k \<and> 8 * j + 7 - k < ?p"
      using ins
    proof (elim disjE conjE)
      assume "\<not> ?p \<le> j * 8" "?p < (j + 1) * 8"
      then show ?thesis using that by (simp add: begin_byte_def bit_and_iff bit_shifted_ff m) linarith
    qed (use that in \<open>auto simp: begin_byte_def\<close>)
    show "bit (end_byte ?p j b) k \<longleftrightarrow> bit b k \<or> 8 * j + 7 - k \<ge> ?p"
      using ins
    proof (elim disjE conjE)
      assume "\<not> ?p \<le> j * 8" "?p < (j + 1) * 8"
      then show ?thesis using that by (simp add: end_byte_def bit_or_iff bit_shifted_ff m) linarith
    qed (use that in \<open>auto simp add: end_byte_def bit_or_iff bit_ff simp del: bit_numeral_word_iff\<close>)
  qed
  have pos: "8 * (15 - i div 8) + 7 - i mod 8 = 127 - i" if "i < 128" for i :: nat
  proof -
    have "i div 8 * 8 + i mod 8 = i" "i div 8 \<le> 15" "i mod 8 < 8" using that by simp_all
    then show ?thesis by linarith
  qed
  show "v6_value (n6_network n) = v6_value (n6_address n) AND NOT (mask (128 - ?p))"
    unfolding v by (rule bit_word_eqI)
      (auto simp: v6_value_def n6_network_def bit_v6_value bit_simps key pos)
  show "v6_value (n6_last n) = v6_value (n6_address n) OR mask (128 - ?p)"
    unfolding v by (rule bit_word_eqI)
      (auto simp: v6_value_def n6_last_def bit_v6_value bit_simps key pos)
  show "v6_wf (n6_network n)" "v6_wf (n6_last n)" by (simp_all add: v6_wf_def n6_network_def n6_last_def)
qed

lemma set_low_eq_add: "(a :: 'a::len word) OR mask k = (a AND NOT (mask k)) + mask k"
proof -
  have "(a AND NOT (mask k)) + mask k = (a AND NOT (mask k)) OR mask k"
    by (rule disjunctive_add_eq_or) (rule bit_word_eqI, simp add: bit_simps)
  also have "\<dots> = a OR mask k" by (rule bit_word_eqI) (auto simp: bit_simps)
  finally show ?thesis by simp
qed

lemma split_at: "(a :: 'a::len word) = (a AND NOT (mask k)) + (a AND mask k)"
proof -
  have "(a AND NOT (mask k)) + (a AND mask k) = (a AND NOT (mask k)) OR (a AND mask k)"
    by (rule disjunctive_add_eq_or) (rule bit_word_eqI, simp add: bit_simps)
  also have "\<dots> = a" by (rule bit_word_eqI) (auto simp: bit_simps)
  finally show ?thesis by simp
qed

lemma clear_low_add:
  fixes a d :: "'a::len word"
  assumes "unat d < 2 ^ k"
  shows "((a AND NOT (mask k)) + d) AND NOT (mask k) = a AND NOT (mask k)"
proof -
  have "take_bit k d = d" using assms by (simp add: word_unat_eq_iff unsigned_take_bit_eq take_bit_nat_eq_self)
  then have d: "bit d i \<Longrightarrow> i < k" for i by (metis bit_take_bit_iff)
  have "(a AND NOT (mask k)) + d = (a AND NOT (mask k)) OR d"
    by (rule disjunctive_add_eq_or) (rule bit_word_eqI, auto simp: bit_simps dest: d)
  then show ?thesis by (simp only:) (rule bit_word_eqI, auto simp: bit_simps dest: d)
qed

lemma v6_increments:
  assumes "v6_wf a"
  shows "v6_wf ((v6_increment ^^ k) a)" "v6_value ((v6_increment ^^ k) a) = v6_value a + of_nat k"
    "scope_id ((v6_increment ^^ k) a) = scope_id a"
proof -
  have "v6_wf ((v6_increment ^^ k) a) \<and> v6_value ((v6_increment ^^ k) a) = v6_value a + of_nat k
      \<and> scope_id ((v6_increment ^^ k) a) = scope_id a"
    using assms by (induction k) (auto simp: v6_step_value v6_increment_def [THEN arg_cong [of _ _ scope_id]])
  then show "v6_wf ((v6_increment ^^ k) a)" "v6_value ((v6_increment ^^ k) a) = v6_value a + of_nat k"
    "scope_id ((v6_increment ^^ k) a) = scope_id a" by simp_all
qed

lemma v6_eqI: "v6_wf a \<Longrightarrow> v6_wf b \<Longrightarrow> v6_value a = v6_value b \<Longrightarrow> scope_id a = scope_id b \<Longrightarrow> a = b"
  using v6_value_inject by blast

lemma n6_hosts_values:
  assumes "n6_prefix_length n \<le> 128" "v6_wf (n6_address n)"
  defines "m \<equiv> 128 - n6_prefix_length n"
  shows "v6_wf (fst (n6_hosts n))" "v6_wf (snd (n6_hosts n))"
    "v6_value (fst (n6_hosts n)) = v6_value (n6_address n) AND NOT (mask m)"
    "v6_value (snd (n6_hosts n)) = v6_value (fst (n6_hosts n)) + 2 ^ m"
    "scope_id (fst (n6_hosts n)) = scope_id (n6_address n)" "scope_id (snd (n6_hosts n)) = scope_id (n6_address n)"
  using n6_values [OF assms(1,2)] v6_step_value [of "n6_last n"] set_low_eq_add [of "v6_value (n6_address n)" m]
  by (simp_all add: n6_hosts_def m_def v6_increment_def n6_network_def n6_last_def mask_eq_exp_minus_1)

lemma n6_hosts_not_end:
  assumes "n6_prefix_length n \<le> 128" "0 < n6_prefix_length n" "v6_wf (n6_address n)" "k < 2 ^ (128 - n6_prefix_length n)"
  shows "(v6_increment ^^ k) (fst (n6_hosts n)) \<noteq> snd (n6_hosts n)"
proof
  note h = n6_hosts_values [OF assms(1,3)]
  assume "(v6_increment ^^ k) (fst (n6_hosts n)) = snd (n6_hosts n)"
  then have "(of_nat k :: 128 word) = of_nat (2 ^ (128 - n6_prefix_length n))"
    using v6_increments(2) [OF h(1), of k] h(4) by simp
  moreover have "(2::nat) ^ (128 - n6_prefix_length n) < 2 ^ 128" using assms(2) by (intro power_strict_increasing) auto
  ultimately have "k = 2 ^ (128 - n6_prefix_length n)"
    using assms(4) by (auto simp: word_unat_eq_iff unat_of_nat take_bit_nat_eq_self simp del: of_nat_power)
  then show False using assms(4) by simp
qed

lemma n6_hosts_set:
  assumes "n6_prefix_length n \<le> 128" "v6_wf (n6_address n)"
  shows "(\<lambda>k. (v6_increment ^^ k) (fst (n6_hosts n))) ` {..<2 ^ (128 - n6_prefix_length n)}
           = {a. v6_wf a \<and> n6_network (n\<lparr>n6_address := a\<rparr>) = n6_network n}" (is "?f ` ?K = ?S")
proof -
  note h = n6_hosts_values [OF assms]
  let ?m = "128 - n6_prefix_length n"
  have small: "unat (of_nat k :: 128 word) < 2 ^ ?m" if "k \<in> ?K" for k
    using that le_less_trans [OF mod_less_eq_dividend] by (simp add: unat_of_nat take_bit_eq_mod)
  have mem: "a \<in> ?S \<longleftrightarrow> v6_value a AND NOT (mask ?m) = v6_value (n6_address n) AND NOT (mask ?m) \<and> scope_id a = scope_id (n6_address n)"
    if "v6_wf a" for a
    using that assms n6_values [of "n\<lparr>n6_address := a\<rparr>"] n6_values [of n]
      v6_value_inject [of "n6_network (n\<lparr>n6_address := a\<rparr>)" "n6_network n"]
    by (auto simp: n6_network_def)
  show ?thesis
  proof (intro equalityI subsetI)
    fix a assume "a \<in> ?f ` ?K"
    then obtain k where k: "k \<in> ?K" "a = ?f k" by blast
    then show "a \<in> ?S"
      using v6_increments [OF h(1), of k] h small [OF k(1)] by (subst mem) (simp_all add: clear_low_add)
  next
    fix a assume a: "a \<in> ?S"
    let ?k = "unat (v6_value a AND mask ?m)"
    have "?f ?k = a"
      using v6_increments [OF h(1), of ?k] h a mem [of a] split_at [of "v6_value a" ?m] by (intro v6_eqI) auto
    moreover have "?k \<in> ?K" by (simp add: take_bit_eq_mask [symmetric] unsigned_take_bit_eq)
    ultimately show "a \<in> ?f ` ?K" by (metis imageI)
  qed
qed

subsection \<open>Netmasks\<close>

lemma v4_bytes_of_uint:
  "v4_to_bytes (v4_of_uint w) = [ucast (drop_bit 24 w), ucast (drop_bit 16 w), ucast (drop_bit 8 w), ucast w]"
  by (simp add: v4_to_bytes_def v4_of_uint_def host_to_network_long_def le_bytes_of_le) (simp add: le_bytes_def upt_rec)

definition netmask_table :: "bytes list" where
  "netmask_table = map (\<lambda>p. v4_to_bytes (n4_netmask \<lparr>n4_address = v4_any, n4_prefix_length = p\<rparr>)) [0..<33]"

lemma netmask_table:
  "netmask_table =
     [[0,0,0,0], [128,0,0,0], [192,0,0,0], [224,0,0,0], [240,0,0,0], [248,0,0,0], [252,0,0,0], [254,0,0,0],
      [255,0,0,0], [255,128,0,0], [255,192,0,0], [255,224,0,0], [255,240,0,0], [255,248,0,0], [255,252,0,0], [255,254,0,0],
      [255,255,0,0], [255,255,128,0], [255,255,192,0], [255,255,224,0], [255,255,240,0], [255,255,248,0], [255,255,252,0],
      [255,255,254,0], [255,255,255,0], [255,255,255,128], [255,255,255,192], [255,255,255,224], [255,255,255,240],
      [255,255,255,248], [255,255,255,252], [255,255,255,254], [255,255,255,255]]"
  by (simp add: netmask_table_def n4_netmask_def v4_bytes_of_uint upt_rec)

lemma n4_netmask_table: "n4_prefix_length n \<le> 32 \<Longrightarrow> v4_to_bytes (n4_netmask n) = netmask_table ! n4_prefix_length n"
  by (simp add: netmask_table_def n4_netmask_def del: upt_Suc upt_rec_numeral)

lemma mask_loop_finished: "mask_loop bs True q = Inr p \<longleftrightarrow> p = q \<and> (\<forall>b\<in>set bs. b = 0)"
  by (induction bs) auto

lemma mask_loop_table:
  "p \<le> 32 \<Longrightarrow> mask_loop (netmask_table ! p) False 0 = Inr p"
proof -
  have "\<forall>p\<in>set [0..<33]. mask_loop (netmask_table ! p) False 0 = Inr p" unfolding netmask_table by code_simp
  then show "p \<le> 32 \<Longrightarrow> mask_loop (netmask_table ! p) False 0 = Inr p" by (auto simp del: upt_Suc upt_rec_numeral)
qed

lemma mask_loop_accepts:
  assumes "mask_loop [b0, b1, b2, b3] False 0 = Inr p"
  shows "p \<le> 32 \<and> [b0, b1, b2, b3] = netmask_table ! p"
  using assms by (auto simp: mask_loop_finished netmask_table split: if_splits)

section \<open>Properties\<close>

text \<open>Iterating over \<open>network_v6::hosts()\<close> visits the network. For a prefix of 1 to 128 bits, starting at \<open>begin()\<close>
  and applying \<open>operator++\<close>, the first 2^(128 - prefix) addresses are never \<open>end()\<close>, the next one is, and they are
  exactly the addresses whose network is this one: the byte-wise carry loop enumerates the block that the byte-wise masks
  of \<open>hosts()\<close> and \<open>network()\<close> delimit.\<close>

theorem n6_hosts_enumerate:
  assumes "n6_prefix_length n \<le> 128" "0 < n6_prefix_length n" "v6_wf (n6_address n)"
  shows "(\<forall>k < 2 ^ (128 - n6_prefix_length n). (v6_increment ^^ k) (fst (n6_hosts n)) \<noteq> snd (n6_hosts n))
    \<and> (v6_increment ^^ (2 ^ (128 - n6_prefix_length n))) (fst (n6_hosts n)) = snd (n6_hosts n)
    \<and> (\<lambda>k. (v6_increment ^^ k) (fst (n6_hosts n))) ` {..<2 ^ (128 - n6_prefix_length n)}
        = {a. v6_wf a \<and> n6_network (n\<lparr>n6_address := a\<rparr>) = n6_network n}"
  using n6_hosts_not_end [OF assms(1,2,3)] n6_hosts_set [OF assms(1,3)] n6_hosts_values [OF assms(1,3)]
    v6_increments [of "fst (n6_hosts n)" "2 ^ (128 - n6_prefix_length n)"]
  by (auto intro!: v6_eqI)

definition doc_network :: network_v6 where
  "doc_network = \<lparr>n6_address = Address_v6 [0x20, 0x01, 0x0d, 0xb8, 0, 0, 0, 0, 0, 0, 0, 0, 0, 0, 0x12, 0xff] 0,
                  n6_prefix_length = 120\<rparr>"

lemma doc_network_ok: "n6_prefix_length doc_network = 120" "v6_wf (n6_address doc_network)"
  by (simp_all add: doc_network_def v6_wf_def)

lemma n6_hosts_enumerate_witness:
  "(v6_increment ^^ 256) (fst (n6_hosts doc_network)) = snd (n6_hosts doc_network)
   \<and> snd (n6_hosts doc_network) = Address_v6 [0x20, 0x01, 0x0d, 0xb8, 0, 0, 0, 0, 0, 0, 0, 0, 0, 0, 0x13, 0] 0"
proof -
  have "(v6_increment ^^ 256) (fst (n6_hosts doc_network)) = snd (n6_hosts doc_network)"
    using n6_hosts_enumerate [of doc_network] doc_network_ok by simp
  moreover have "snd (n6_hosts doc_network) = Address_v6 [0x20, 0x01, 0x0d, 0xb8, 0, 0, 0, 0, 0, 0, 0, 0, 0, 0, 0x13, 0] 0"
    by code_simp
  ultimately show ?thesis by simp
qed

text \<open>A network constructed from an address and a netmask is accepted exactly for the 33 contiguous masks, and then
  \<open>netmask()\<close> gives the mask back: the byte loop of the constructor and the shift of \<open>netmask()\<close> are inverse, every other
  mask is rejected with an exception.\<close>

theorem network_of_mask_iff:
  "network_v4_of_mask addr m = Inr n
     \<longleftrightarrow> n4_address n = addr \<and> n4_prefix_length n \<le> 32 \<and> n4_netmask n = m"
proof
  assume "network_v4_of_mask addr m = Inr n"
  then have n: "n4_address n = addr" "mask_loop (v4_to_bytes m) False 0 = Inr (n4_prefix_length n)"
    by (auto simp: network_v4_of_mask_def split: sum.splits)
  have "v4_to_bytes m = [v4_to_bytes m ! 0, v4_to_bytes m ! 1, v4_to_bytes m ! 2, v4_to_bytes m ! 3]"
    by (simp add: v4_to_bytes_def le_bytes_def upt_rec)
  then have "n4_prefix_length n \<le> 32" "v4_to_bytes m = netmask_table ! n4_prefix_length n"
    using mask_loop_accepts n(2) by metis+
  then show "n4_address n = addr \<and> n4_prefix_length n \<le> 32 \<and> n4_netmask n = m"
    using n(1) n4_netmask_table [of n] v4_bytes(1) by metis
next
  assume n: "n4_address n = addr \<and> n4_prefix_length n \<le> 32 \<and> n4_netmask n = m"
  then have "mask_loop (v4_to_bytes m) False 0 = Inr (n4_prefix_length n)"
    using n4_netmask_table [of n] mask_loop_table by metis
  then show "network_v4_of_mask addr m = Inr n" using n by (cases n) (simp add: network_v4_of_mask_def)
qed

text \<open>\<open>hosts()\<close> of an IPv4 network has 2^(32 - prefix) - 2 addresses, the network and the broadcast address left
  out, and the address alone for a prefix of 32: no overflow in the subtraction of \<open>size()\<close>, for any address and prefix,
  the empty range of a /31 included.\<close>

theorem n4_hosts_size:
  assumes "n4_prefix_length n \<le> 32"
  shows "unat (v4_range_size (n4_hosts n)) = (if n4_prefix_length n = 32 then 1 else 2 ^ (32 - n4_prefix_length n) - 2)"
proof (cases "n4_prefix_length n = 32")
  case True
  then show ?thesis by (simp add: n4_hosts_def n4_is_host_def v4_range_size_def)
next
  case False
  let ?m = "32 - n4_prefix_length n"
  have m: "2 \<le> (2::nat) ^ ?m" using False assms self_le_power [of 2 ?m] by simp
  have "v4_to_uint (snd (n4_hosts n)) - v4_to_uint (fst (n4_hosts n)) = mask ?m - (1 :: u32)"
    using False by (simp add: n4_hosts_def n4_is_host_def n4_values set_low_eq_add)
  moreover have "unat (mask ?m :: u32) = 2 ^ ?m - 1" using unat_set_low [of ?m "0 :: u32"] by simp
  moreover from this have "unat (mask ?m - (1 :: u32)) = 2 ^ ?m - 2" using m by (simp add: unat_sub word_le_nat_alt)
  moreover have "unat (ucast x :: u64) = unat x" for x :: u32
    using unsigned_less [of x, where 'a = nat] by (simp add: unsigned_ucast_eq take_bit_nat_eq_self)
  ultimately show ?thesis using False by (simp add: v4_range_size_def)
qed

lemma n4_hosts_size_witness:
  "unat (v4_range_size (n4_hosts \<lparr>n4_address = v4_of_uint 0xC0A80117, n4_prefix_length = 29\<rparr>)) = 6
   \<and> fst (n4_hosts \<lparr>n4_address = v4_of_uint 0xC0A80117, n4_prefix_length = 29\<rparr>) = v4_of_uint 0xC0A80111"
proof -
  have "unat (v4_range_size (n4_hosts \<lparr>n4_address = v4_of_uint 0xC0A80117, n4_prefix_length = 29\<rparr>)) = 6"
    using n4_hosts_size [of "\<lparr>n4_address = v4_of_uint 0xC0A80117, n4_prefix_length = 29\<rparr>"] by simp
  then show ?thesis by (simp add: n4_hosts_def n4_is_host_def n4_network_def n4_netmask_def)
qed

text \<open>The end of \<open>network_v6::hosts()\<close> wraps. When the network holds the last address, all ones, the end iterator is
  the zero address, so \<open>find()\<close>, which compares with \<open><\<close>, finds no address at all: not even those that iterating over the
  range visits.\<close>

theorem n6_find_after_wrap:
  assumes "n6_prefix_length n \<le> 128" "v6_wf (n6_address n)"
    "n6_network (n\<lparr>n6_address := Address_v6 (replicate 16 0xFF) (scope_id (n6_address n))\<rparr>) = n6_network n"
    "v6_wf a" "scope_id a = scope_id (n6_address n)"
  shows "v6_range_find a (n6_hosts n) = snd (n6_hosts n)"
proof -
  let ?m = "128 - n6_prefix_length n" and ?o = "Address_v6 (replicate 16 0xFF) (scope_id (n6_address n))"
  note h = n6_hosts_values [OF assms(1,2)]
  have "of_le (replicate 16 0xFF) = (- 1 :: 128 word)" by code_simp
  then have ov: "v6_value ?o = - 1" by (simp only: v6_value_def address_v6.sel rev_replicate)
  have "v6_wf ?o" by (simp add: v6_wf_def)
  then have "v6_value (fst (n6_hosts n)) = NOT (mask ?m)"
    using assms n6_values [of "n\<lparr>n6_address := ?o\<rparr>"] by (simp add: ov n6_hosts_def)
  then have "v6_value (snd (n6_hosts n)) = 0" using h(4) by (simp add: mask_eq_exp_minus_1 not_eq_complement)
  then have "\<not> v6_less a (snd (n6_hosts n))" using v6_less_value [OF assms(4) h(2)] assms(5) h(6) by simp
  then show ?thesis by (simp add: v6_range_find_def)
qed

definition multicast_network :: network_v6 where
  "multicast_network = \<lparr>n6_address = Address_v6 ([0xff, 0x02] @ replicate 13 0 @ [1]) 0, n6_prefix_length = 8\<rparr>"

lemma n6_find_after_wrap_witness:
  "v6_range_find (n6_address multicast_network) (n6_hosts multicast_network) = snd (n6_hosts multicast_network)
   \<and> snd (n6_hosts multicast_network) = v6_any"
proof -
  have "n6_prefix_length multicast_network \<le> 128" "v6_wf (n6_address multicast_network)"
    "n6_network (multicast_network\<lparr>n6_address := Address_v6 (replicate 16 0xFF) (scope_id (n6_address multicast_network))\<rparr>)
       = n6_network multicast_network"
    by code_simp+
  then have "v6_range_find (n6_address multicast_network) (n6_hosts multicast_network) = snd (n6_hosts multicast_network)"
    by (rule n6_find_after_wrap) (code_simp, rule refl)
  moreover have "snd (n6_hosts multicast_network) = v6_any" by code_simp
  ultimately show ?thesis by simp
qed

end
