(* ===== verification/AsioEndpoint.thy ===== *)
theory AsioEndpoint
  imports AsioNetwork
begin

text \<open>
  Endpoints and the text form of networks of the vendored Asio: \<^verbatim>\<open>include/asio/ip/detail/endpoint.hpp\<close>,
  \<^verbatim>\<open>ip/detail/impl/endpoint.ipp\<close>, and \<open>make_network_v4\<close>, \<open>make_network_v6\<close> and \<open>to_string\<close> of
  \<^verbatim>\<open>ip/impl/network_v4.ipp\<close> and \<^verbatim>\<open>network_v6.ipp\<close>. An endpoint is the 28 bytes of the union of
  \<open>sockaddr_in\<close> and \<open>sockaddr_in6\<close>, with the field offsets of Linux: the family (in host order) at 0 and the port (in
  network order) at 2 in both; the IPv4 address at 4; the flow label at 4, the IPv6 address at 8 and the scope at 24.
  \<open>inet_pton\<close> and \<open>inet_ntop\<close> are parameters.
\<close>

section \<open>Fields in a block of bytes\<close>

definition read_at :: "nat \<Rightarrow> nat \<Rightarrow> bytes \<Rightarrow> bytes" where
  "read_at off n d = take n (drop off d)"

definition write_at :: "nat \<Rightarrow> bytes \<Rightarrow> bytes \<Rightarrow> bytes" where
  "write_at off bs d = take off d @ bs @ drop (off + length bs) d"

lemma length_write_at [simp]: "off + length bs \<le> length d \<Longrightarrow> length (write_at off bs d) = length d"
  by (simp add: write_at_def)

lemma read_write_same [simp]: "off + length bs \<le> length d \<Longrightarrow> n = length bs \<Longrightarrow> read_at off n (write_at off bs d) = bs"
  by (simp add: read_at_def write_at_def)

lemma nth_write_at:
  assumes "off + length bs \<le> length d" "i < off \<or> off + length bs \<le> i"
  shows "write_at off bs d ! i = d ! i"
proof (cases "i < off")
  case False
  then have "\<not> i - off < length bs" using assms(2) by linarith
  then show ?thesis using assms False by (simp add: write_at_def nth_append min_absorb2)
qed (use assms in \<open>simp add: write_at_def nth_append min_absorb2\<close>)

lemma read_write_other:
  assumes "off + length bs \<le> length d" "off' + n \<le> off \<or> off + length bs \<le> off'"
  shows "read_at off' n (write_at off bs d) = read_at off' n d"
proof (rule nth_equalityI)
  show l: "length (read_at off' n (write_at off bs d)) = length (read_at off' n d)"
    unfolding read_at_def using assms(1) by (simp del: length_append)
  fix i assume "i < length (read_at off' n (write_at off bs d))"
  then have "i < length (read_at off' n d)" by (simp only: l)
  then have "i < n" "off' + i < length d" by (auto simp: read_at_def)
  then show "read_at off' n (write_at off bs d) ! i = read_at off' n d ! i"
    using assms nth_write_at [of off bs d "off' + i"] by (auto simp: read_at_def)
qed

lemma length_read_at [simp]: "off + n \<le> length d \<Longrightarrow> length (read_at off n d) = n"
  by (simp add: read_at_def)

section \<open>The endpoint\<close>

datatype ep_data = Ep_data (ep_bytes: bytes)

abbreviation (input) AF_INET :: u16 where "AF_INET \<equiv> 2"
abbreviation (input) AF_INET6 :: u16 where "AF_INET6 \<equiv> 10"

definition ep_is_v4 :: "ep_data \<Rightarrow> bool" where
  "ep_is_v4 e \<longleftrightarrow> (of_le (read_at 0 2 (ep_bytes e)) :: u16) = AF_INET"

text \<open>\<open>data_()\<close> zeroes the union.\<close>

definition ep_default :: ep_data where
  "ep_default =
     Ep_data (write_at 4 (le_bytes 4 (0 :: u32)) (write_at 2 (le_bytes 2 (0 :: u16)) (write_at 0 (le_bytes 2 AF_INET) (replicate 28 0))))"

definition ep_of_family :: "u16 \<Rightarrow> u16 \<Rightarrow> ep_data" where
  "ep_of_family family port_num =
     (if family = AF_INET
      then Ep_data (write_at 4 (le_bytes 4 (0 :: u32))
             (write_at 2 (le_bytes 2 (host_to_network_short port_num)) (write_at 0 (le_bytes 2 AF_INET) (replicate 28 0))))
      else Ep_data (write_at 24 (le_bytes 4 (0 :: u32)) (write_at 8 (replicate 16 0) (write_at 4 (le_bytes 4 (0 :: u32))
             (write_at 2 (le_bytes 2 (host_to_network_short port_num)) (write_at 0 (le_bytes 2 AF_INET6) (replicate 28 0)))))))"

fun ep_of_address :: "ip_address \<Rightarrow> u16 \<Rightarrow> ep_data" where
  "ep_of_address (Ipv4 a) port_num =
     Ep_data (write_at 4 (le_bytes 4 (host_to_network_long (v4_to_uint a)))
       (write_at 2 (le_bytes 2 (host_to_network_short port_num)) (write_at 0 (le_bytes 2 AF_INET) (replicate 28 0))))"
| "ep_of_address (Ipv6 a) port_num =
     Ep_data (write_at 24 (le_bytes 4 (scope_id a)) (write_at 8 (s6_addr a) (write_at 4 (le_bytes 4 (0 :: u32))
       (write_at 2 (le_bytes 2 (host_to_network_short port_num)) (write_at 0 (le_bytes 2 AF_INET6) (replicate 28 0))))))"

definition ep_size :: "ep_data \<Rightarrow> nat" where
  "ep_size e = (if ep_is_v4 e then 16 else 28)"

text \<open>\<open>resize\<close> throws beyond \<open>sizeof(sockaddr_storage)\<close>, 128 bytes; \<open>False\<close> is the exception.\<close>

definition ep_resize :: "nat \<Rightarrow> bool" where
  "ep_resize new_size \<longleftrightarrow> \<not> new_size > 128"

definition ep_port :: "ep_data \<Rightarrow> u16" where
  "ep_port e = network_to_host_short (of_le (read_at 2 2 (ep_bytes e)))"

definition ep_set_port :: "u16 \<Rightarrow> ep_data \<Rightarrow> ep_data" where
  "ep_set_port port_num e = Ep_data (write_at 2 (le_bytes 2 (host_to_network_short port_num)) (ep_bytes e))"

definition ep_address :: "ep_data \<Rightarrow> ip_address" where
  "ep_address e =
     (if ep_is_v4 e then Ipv4 (v4_of_uint (network_to_host_long (of_le (read_at 4 4 (ep_bytes e)))))
      else Ipv6 (Address_v6 (read_at 8 16 (ep_bytes e)) (of_le (read_at 24 4 (ep_bytes e)))))"

definition ep_set_address :: "ip_address \<Rightarrow> ep_data \<Rightarrow> ep_data" where
  "ep_set_address addr e = ep_of_address addr (ep_port e)"

definition ep_eq :: "ep_data \<Rightarrow> ep_data \<Rightarrow> bool" where
  "ep_eq e1 e2 \<longleftrightarrow> addr_eq (ep_address e1) (ep_address e2) \<and> ep_port e1 = ep_port e2"

definition ep_less :: "ep_data \<Rightarrow> ep_data \<Rightarrow> bool" where
  "ep_less e1 e2 \<longleftrightarrow>
     (if addr_less (ep_address e1) (ep_address e2) then True
      else if \<not> addr_eq (ep_address e1) (ep_address e2) then False
      else ep_port e1 < ep_port e2)"

section \<open>Reading back what was written\<close>

fun addr_wf :: "ip_address \<Rightarrow> bool" where
  "addr_wf (Ipv4 a) \<longleftrightarrow> True"
| "addr_wf (Ipv6 a) \<longleftrightarrow> v6_wf a"

definition ep_wf :: "ep_data \<Rightarrow> bool" where
  "ep_wf e \<longleftrightarrow> length (ep_bytes e) = 28"

lemma ep_of_address_facts:
  assumes "addr_wf a"
  shows "ep_wf (ep_of_address a p)" "ep_is_v4 (ep_of_address a p) = addr_is_v4 a"
    "ep_address (ep_of_address a p) = a" "ep_port (ep_of_address a p) = p"
proof -
  have "ep_wf (ep_of_address a p) \<and> ep_is_v4 (ep_of_address a p) = addr_is_v4 a
      \<and> ep_address (ep_of_address a p) = a \<and> ep_port (ep_of_address a p) = p"
    using assms by (cases a)
      (auto simp: ep_wf_def ep_is_v4_def ep_address_def ep_port_def read_write_other of_le_bytes v6_wf_def)
  then show "ep_wf (ep_of_address a p)" "ep_is_v4 (ep_of_address a p) = addr_is_v4 a"
    "ep_address (ep_of_address a p) = a" "ep_port (ep_of_address a p) = p" by simp_all
qed

lemma ep_set_port_facts:
  assumes "ep_wf e"
  shows "ep_wf (ep_set_port p e)" "ep_address (ep_set_port p e) = ep_address e" "ep_port (ep_set_port p e) = p"
  using assms by (simp_all add: ep_wf_def ep_is_v4_def ep_address_def ep_port_def ep_set_port_def read_write_other of_le_bytes)

lemma ep_default_facts: "ep_default = ep_of_address (Ipv4 v4_any) 0"
  by code_simp

lemma ep_of_family_facts:
  "ep_of_family AF_INET p = ep_of_address (Ipv4 v4_any) p"
  "family \<noteq> AF_INET \<Longrightarrow> ep_of_family family p = ep_of_address (Ipv6 v6_any) p"
  by (simp_all add: ep_of_family_def v6_any_def v4_any_def v4_to_uint_def)

lemma ep_address_wf: "ep_wf e \<Longrightarrow> addr_wf (ep_address e)"
  by (simp add: ep_address_def ep_wf_def v6_wf_def)

section \<open>The order of endpoints\<close>

lemma lexicographic:
  fixes x y z :: "'a::linorder" and i j k :: "'b::linorder"
  shows "x < y \<or> x = y \<and> i < j \<longleftrightarrow> \<not> (y < x \<or> y = x \<and> j < i) \<and> \<not> (x = y \<and> i = j)"
    "x < y \<or> x = y \<and> i < j \<Longrightarrow> y < z \<or> y = z \<and> j < k \<Longrightarrow> x < z \<or> x = z \<and> i < k"
  by auto

lemma v6_order:
  assumes "v6_wf a" "v6_wf b"
  shows "v6_less a b \<longleftrightarrow> \<not> v6_less b a \<and> a \<noteq> b"
  using lexicographic(1) [of "v6_value a" "v6_value b" "scope_id a" "scope_id b"]
  by (simp only: v6_less_value [OF assms] v6_less_value [OF assms(2,1)] v6_value_inject [OF assms] simp_thms)

lemma addr_eq_iff: "addr_wf a \<Longrightarrow> addr_wf b \<Longrightarrow> addr_eq a b \<longleftrightarrow> a = b"
  by (cases a; cases b) (simp_all add: v6_eq_iff)

lemma addr_order: "addr_wf a \<Longrightarrow> addr_wf b \<Longrightarrow> addr_less a b \<longleftrightarrow> \<not> addr_less b a \<and> a \<noteq> b"
  by (cases a; cases b) (simp_all, fastforce, use v6_order in blast)

lemma v6_less_trans:
  assumes "v6_wf a" "v6_wf b" "v6_wf c" "v6_less a b" "v6_less b c"
  shows "v6_less a c"
  using lexicographic(2) [OF v6_less_value [OF assms(1,2), THEN iffD1, OF assms(4)] v6_less_value [OF assms(2,3), THEN iffD1, OF assms(5)]]
  unfolding v6_less_value [OF assms(1,3)] .

lemma addr_less_trans:
  "addr_wf a \<Longrightarrow> addr_wf b \<Longrightarrow> addr_wf c \<Longrightarrow> addr_less a b \<Longrightarrow> addr_less b c \<Longrightarrow> addr_less a c"
  by (cases a; cases b; cases c) (auto intro: v6_less_trans)

text \<open>What an endpoint stands for: an address and a port. Calls of the setters are steps on both sides.\<close>

definition ep_abs :: "ep_data \<Rightarrow> ip_address \<times> u16" where
  "ep_abs e = (ep_address e, ep_port e)"

datatype ep_call = Call_port u16 | Call_address ip_address

fun ep_apply :: "ep_call \<Rightarrow> ep_data \<Rightarrow> ep_data" where
  "ep_apply (Call_port p) e = ep_set_port p e"
| "ep_apply (Call_address a) e = ep_set_address a e"

fun abs_apply :: "ep_call \<Rightarrow> ip_address \<times> u16 \<Rightarrow> ip_address \<times> u16" where
  "abs_apply (Call_port p) ap = (fst ap, p)"
| "abs_apply (Call_address a) ap = (a, snd ap)"

fun call_wf :: "ep_call \<Rightarrow> bool" where
  "call_wf (Call_port p) \<longleftrightarrow> True"
| "call_wf (Call_address a) \<longleftrightarrow> addr_wf a"

lemma ep_apply_abs: "ep_wf e \<Longrightarrow> call_wf c \<Longrightarrow> ep_wf (ep_apply c e) \<and> ep_abs (ep_apply c e) = abs_apply c (ep_abs e)"
  by (cases c) (simp_all add: ep_abs_def ep_set_port_facts ep_set_address_def ep_of_address_facts)

lemma ep_calls_abs:
  "ep_wf e \<Longrightarrow> list_all call_wf cs \<Longrightarrow> ep_wf (fold ep_apply cs e) \<and> ep_abs (fold ep_apply cs e) = fold abs_apply cs (ep_abs e)"
  by (induction cs arbitrary: e) (simp_all add: ep_apply_abs)

lemma ep_less_abs:
  assumes "ep_wf e1" "ep_wf e2"
  shows "ep_less e1 e2 \<longleftrightarrow>
    addr_less (fst (ep_abs e1)) (fst (ep_abs e2)) \<or> fst (ep_abs e1) = fst (ep_abs e2) \<and> snd (ep_abs e1) < snd (ep_abs e2)"
  using addr_eq_iff [OF ep_address_wf [OF assms(1)] ep_address_wf [OF assms(2)]] by (auto simp: ep_less_def ep_abs_def)

lemma ep_eq_abs: "ep_wf e1 \<Longrightarrow> ep_wf e2 \<Longrightarrow> ep_eq e1 e2 \<longleftrightarrow> ep_abs e1 = ep_abs e2"
  using addr_eq_iff [OF ep_address_wf ep_address_wf, of e1 e2] by (auto simp: ep_eq_def ep_abs_def)

section \<open>Networks as text\<close>

text \<open>\<open>%u\<close> and \<open>std::atoi\<close> on a string of digits: a value outside \<open>int\<close> is undefined behaviour, \<open>None\<close>.\<close>

definition digits :: string where "digits = ''0123456789''"

fun show_unsigned :: "nat \<Rightarrow> string" where
  "show_unsigned n = (if n < 10 then [digits ! n] else show_unsigned (n div 10) @ [digits ! (n mod 10)])"

definition digits_value :: "string \<Rightarrow> nat" where
  "digits_value s = foldl (\<lambda>n c. 10 * n + (of_char c - 48)) 0 s"

definition atoi :: "string \<Rightarrow> nat option" where
  "atoi s = (if digits_value s < 2 ^ 31 then Some (digits_value s) else None)"

datatype ('e, 'n) parsed = Net 'n | Invalid_text | Address_error 'e | Atoi_undefined

definition make_network :: "(string \<Rightarrow> 'e + 'a) \<Rightarrow> nat \<Rightarrow> (string \<Rightarrow> ('e, 'a \<times> nat) parsed)" where
  "make_network make_address limit str =
     (let pos = length (takeWhile (\<lambda>c. c \<noteq> CHR ''/'') str)
      in if pos = length str then Invalid_text
         else if pos = length str - 1 then Invalid_text
         else if \<exists>c\<in>set (drop (pos + 1) str). c \<notin> set digits then Invalid_text
         else case make_address (take pos str) of
           Inl e \<Rightarrow> Address_error e
         | Inr addr \<Rightarrow>
             (case atoi (drop (pos + 1) str) of
                None \<Rightarrow> Atoi_undefined
              | Some prefix_len \<Rightarrow> if prefix_len > limit then Invalid_text else Net (addr, prefix_len)))"

fun net_of :: "('a \<times> nat \<Rightarrow> 'n) \<Rightarrow> ('e, 'a \<times> nat) parsed \<Rightarrow> ('e, 'n) parsed" where
  "net_of f (Net x) = Net (f x)"
| "net_of f Invalid_text = Invalid_text"
| "net_of f (Address_error e) = Address_error e"
| "net_of f Atoi_undefined = Atoi_undefined"

definition make_network_v4 :: "(string \<Rightarrow> 'e + address_v4) \<Rightarrow> string \<Rightarrow> ('e, network_v4) parsed" where
  "make_network_v4 make_address_v4 str =
     net_of (\<lambda>(a, p). \<lparr>n4_address = a, n4_prefix_length = p\<rparr>) (make_network make_address_v4 32 str)"

definition make_network_v6 :: "(string \<Rightarrow> 'e + address_v6) \<Rightarrow> string \<Rightarrow> ('e, network_v6) parsed" where
  "make_network_v6 make_address_v6 str =
     net_of (\<lambda>(a, p). \<lparr>n6_address = a, n6_prefix_length = p\<rparr>) (make_network make_address_v6 128 str)"

definition n4_to_string :: "(address_v4 \<Rightarrow> string) \<Rightarrow> network_v4 \<Rightarrow> string" where
  "n4_to_string to_string n = to_string (n4_address n) @ ''/'' @ show_unsigned (n4_prefix_length n)"

definition n6_to_string :: "(address_v6 \<Rightarrow> string) \<Rightarrow> network_v6 \<Rightarrow> string" where
  "n6_to_string to_string n = to_string (n6_address n) @ ''/'' @ show_unsigned (n6_prefix_length n)"

declare show_unsigned.simps [simp del]

lemma digit_facts: "d < 10 \<Longrightarrow> digits ! d \<in> set digits \<and> (of_char (digits ! d) :: nat) - 48 = d"
proof -
  have "\<forall>d\<in>set [0..<10]. digits ! d \<in> set digits \<and> (of_char (digits ! d) :: nat) - 48 = d" by code_simp
  then show "d < 10 \<Longrightarrow> digits ! d \<in> set digits \<and> (of_char (digits ! d) :: nat) - 48 = d" by simp
qed

lemma show_unsigned_facts:
  "show_unsigned n \<noteq> [] \<and> set (show_unsigned n) \<subseteq> set digits \<and> digits_value (show_unsigned n) = n"
proof (induction n rule: show_unsigned.induct)
  case (1 n)
  show ?case
  proof (cases "n < 10")
    case True
    then show ?thesis using digit_facts [of n] by (simp add: show_unsigned.simps [of n] digits_value_def)
  next
    case False
    then show ?thesis
      using 1 digit_facts [of "n mod 10"] by (simp add: show_unsigned.simps [of n] digits_value_def)
  qed
qed

lemma make_network_append:
  assumes "CHR ''/'' \<notin> set s" "p \<le> limit" "limit < 2 ^ 31" "mk s = Inr a"
  shows "make_network mk limit (s @ ''/'' @ show_unsigned p) = Net (a, p)"
proof -
  have t: "takeWhile (\<lambda>c. c \<noteq> CHR ''/'') (s @ CHR ''/'' # show_unsigned p) = s" using assms(1) by (subst takeWhile_append2) auto
  have "atoi (show_unsigned p) = Some p" using show_unsigned_facts [of p] assms(2,3) by (simp add: atoi_def)
  then show ?thesis
    using show_unsigned_facts [of p] assms(2,4) by (auto simp: make_network_def t Let_def)
qed

lemma ep_total_order:
  assumes "ep_wf e1" "ep_wf e2"
  shows "ep_less e1 e2 \<longleftrightarrow> \<not> ep_less e2 e1 \<and> \<not> ep_eq e1 e2"
proof -
  have w: "addr_wf (ep_address e1)" "addr_wf (ep_address e2)" using assms by (simp_all add: ep_address_wf)
  show ?thesis
    unfolding ep_less_abs [OF assms] ep_less_abs [OF assms(2,1)] ep_eq_abs [OF assms] ep_abs_def prod.inject fst_conv snd_conv
    using addr_order [OF w] addr_order [OF w(2,1)] by (metis linorder_less_linear order_less_asym)
qed

lemma network_v6_text_roundtrip:
  assumes "n6_prefix_length n \<le> 128" "CHR ''/'' \<notin> set (print6 (n6_address n))" "parse6 (print6 (n6_address n)) = Inr (n6_address n)"
  shows "make_network_v6 parse6 (n6_to_string print6 n) = Net n"
  using make_network_append [of "print6 (n6_address n)" "n6_prefix_length n" 128 parse6 "n6_address n"] assms
  by (simp add: make_network_v6_def n6_to_string_def)

section \<open>Properties\<close>

text \<open>An endpoint is an address and a port, whatever bytes it is stored in. After any sequence of calls of the setters on
  an endpoint, \<open>address()\<close> and \<open>port()\<close> return what the same calls leave in an abstract pair: setting the port keeps the
  address, setting the address keeps the port even when it changes the version and thereby the layout of the union.\<close>

theorem endpoint_calls_refine:
  assumes "ep_wf e" "list_all call_wf cs"
  shows "ep_abs (fold ep_apply cs e) = fold abs_apply cs (ep_abs e)"
  using ep_calls_abs [OF assms] by (rule conjunct2)

definition endpoint_calls :: "ep_call list" where
  "endpoint_calls = [Call_port 443, Call_address (Ipv6 v6_loopback), Call_port 5000, Call_address (Ipv4 v4_loopback)]"

lemma endpoint_calls_refine_witness:
  "ep_abs (fold ep_apply endpoint_calls ep_default) = (Ipv4 v4_loopback, 5000)
   \<and> ep_bytes (fold ep_apply endpoint_calls ep_default) = [2, 0, 0x13, 0x88, 127, 0, 0, 1] @ replicate 20 0"
proof -
  have "ep_wf ep_default" "list_all call_wf endpoint_calls" by code_simp+
  then have "ep_abs (fold ep_apply endpoint_calls ep_default) = fold abs_apply endpoint_calls (ep_abs ep_default)"
    by (rule endpoint_calls_refine)
  moreover have "fold abs_apply endpoint_calls (ep_abs ep_default) = (Ipv4 v4_loopback, 5000)"
    by (simp add: endpoint_calls_def)
  moreover have "ep_bytes (fold ep_apply endpoint_calls ep_default) = [2, 0, 0x13, 0x88, 127, 0, 0, 1] @ replicate 20 0"
    by code_simp
  ultimately show ?thesis by simp
qed

text \<open>A network printed with \<open>to_string()\<close> is read back by \<open>make_network_v4\<close>, for every address and every prefix of up
  to 32 bits, given that the address is printed without a slash and read back by \<open>make_address_v4\<close>.\<close>

theorem network_v4_text_roundtrip:
  assumes "n4_prefix_length n \<le> 32" "CHR ''/'' \<notin> set (print4 (n4_address n))" "parse4 (print4 (n4_address n)) = Inr (n4_address n)"
  shows "make_network_v4 parse4 (n4_to_string print4 n) = Net n"
  using make_network_append [of "print4 (n4_address n)" "n4_prefix_length n" 32 parse4 "n4_address n"] assms
  by (simp add: make_network_v4_def n4_to_string_def)

text \<open>Dotted decimal, as \<open>inet_ntop\<close> and \<open>inet_pton\<close> have it (here without a check of the range of a field).\<close>

definition dotted :: "address_v4 \<Rightarrow> string" where
  "dotted a = (let bs = map unat (v4_to_bytes a) in
     show_unsigned (bs ! 0) @ ''.'' @ show_unsigned (bs ! 1) @ ''.'' @ show_unsigned (bs ! 2) @ ''.'' @ show_unsigned (bs ! 3))"

fun fields :: "string \<Rightarrow> string \<Rightarrow> string list" where
  "fields acc [] = [acc]"
| "fields acc (c # cs) = (if c = CHR ''.'' then acc # fields [] cs else fields (acc @ [c]) cs)"

definition undotted :: "string \<Rightarrow> unit + address_v4" where
  "undotted s =
     (if length (fields [] s) \<noteq> 4 then Inl () else Inr (v4_of_bytes (map (\<lambda>f. of_nat (digits_value f)) (fields [] s))))"

lemma network_v4_text_roundtrip_witness:
  "n4_to_string dotted \<lparr>n4_address = v4_of_uint 0xC0A80100, n4_prefix_length = 24\<rparr> = ''192.168.1.0/24''
   \<and> make_network_v4 undotted ''192.168.1.0/24'' = Net \<lparr>n4_address = v4_of_uint 0xC0A80100, n4_prefix_length = 24\<rparr>"
proof -
  have "CHR ''/'' \<notin> set (dotted (v4_of_uint 0xC0A80100))" "undotted (dotted (v4_of_uint 0xC0A80100)) = Inr (v4_of_uint 0xC0A80100)"
    by code_simp+
  then have "make_network_v4 undotted (n4_to_string dotted \<lparr>n4_address = v4_of_uint 0xC0A80100, n4_prefix_length = 24\<rparr>)
      = Net \<lparr>n4_address = v4_of_uint 0xC0A80100, n4_prefix_length = 24\<rparr>"
    by (intro network_v4_text_roundtrip) simp_all
  moreover have "n4_to_string dotted \<lparr>n4_address = v4_of_uint 0xC0A80100, n4_prefix_length = 24\<rparr> = ''192.168.1.0/24''"
    by code_simp
  ultimately show ?thesis by simp
qed

end
