(* ===== verification/AsioDynamic.thy ===== *)
theory AsioDynamic
  imports Protocol
begin

text \<open>
  Buffers that grow, of the vendored Asio: \<open>dynamic_string_buffer\<close> of \<^verbatim>\<open>include/asio/buffer.hpp\<close>, with both of its
  interfaces (\<open>prepare\<close>, \<open>commit\<close>, and \<open>grow\<close>, \<open>shrink\<close>; \<open>dynamic_vector_buffer\<close> is the same text over a
  vector), and \<^verbatim>\<open>include/asio/basic_streambuf.hpp\<close>. Pointers into the stream buffer are offsets. The capacity
  of a string or vector is up to the library, and a parameter. An exception is \<open>None\<close>. The locale \<open>growing\<close> states what
  the composed reads rely on.
\<close>

section \<open>The interface\<close>

text \<open>\<open>commit n bs\<close> stands for what a read of at most \<open>n\<close> bytes into the prepared region and the commit after it do,
  when the stream delivered \<open>bs\<close>.\<close>

locale growing =
  fixes contents :: "'b \<Rightarrow> bytes"
    and data :: "'b \<Rightarrow> bytes"
    and size_of :: "'b \<Rightarrow> nat"
    and max_of :: "'b \<Rightarrow> nat"
    and prepare :: "nat \<Rightarrow> 'b \<Rightarrow> 'b option"
    and commit :: "nat \<Rightarrow> bytes \<Rightarrow> 'b \<Rightarrow> 'b option"
    and invar :: "'b \<Rightarrow> bool"
  assumes data_contents: "invar b \<Longrightarrow> data b = contents b"
    and size_contents: "invar b \<Longrightarrow> size_of b = length (contents b)"
    and within_max: "invar b \<Longrightarrow> length (contents b) \<le> max_of b"
    and prepare_commit: "invar b \<Longrightarrow> n \<le> max_of b - length (contents b) \<Longrightarrow>
      \<exists>b'. prepare n b = Some b' \<and> (\<forall>bs. length bs \<le> n \<longrightarrow>
        (\<exists>b''. commit n bs b' = Some b'' \<and> invar b'' \<and> contents b'' = contents b @ bs \<and> max_of b'' = max_of b))"

section \<open>The buffer over a string\<close>

text \<open>\<open>resize\<close> of a string: cut, or filled up with zeros.\<close>

definition resize :: "nat \<Rightarrow> bytes \<Rightarrow> bytes" where
  "resize n s = take n s @ replicate (n - length s) 0"

definition put_at :: "nat \<Rightarrow> bytes \<Rightarrow> bytes \<Rightarrow> bytes" where
  "put_at pos bs s = take pos s @ bs @ drop (pos + length bs) s"

lemma length_resize [simp]: "length (resize n s) = n"
  by (simp add: resize_def)

lemma take_resize: "k \<le> n \<Longrightarrow> k \<le> length s \<Longrightarrow> take k (resize n s) = take k s"
  by (simp add: resize_def min_absorb1)

lemma resize_put: "n \<le> length s + k \<Longrightarrow> length bs \<le> k \<Longrightarrow>
    resize (length s + length bs) (put_at (length s) bs (resize (length s + k) s)) = s @ bs"
  by (simp add: resize_def put_at_def)

text \<open>\<open>ds_stored\<close> is \<open>None\<close> while \<open>size_\<close> holds the largest \<open>size_t\<close>: the first interface is not in use.\<close>

record dyn_string =
  ds_string :: bytes
  ds_stored :: "nat option"
  ds_max_size :: nat

definition ds_new :: "bytes \<Rightarrow> nat \<Rightarrow> dyn_string" where
  "ds_new s maximum_size = \<lparr>ds_string = s, ds_stored = None, ds_max_size = maximum_size\<rparr>"

definition ds_size :: "dyn_string \<Rightarrow> nat" where
  "ds_size b = (case ds_stored b of Some n \<Rightarrow> n | None \<Rightarrow> min (length (ds_string b)) (ds_max_size b))"

definition ds_capacity :: "(bytes \<Rightarrow> nat) \<Rightarrow> dyn_string \<Rightarrow> nat" where
  "ds_capacity cap b = min (cap (ds_string b)) (ds_max_size b)"

definition ds_data :: "dyn_string \<Rightarrow> bytes" where
  "ds_data b = (case ds_stored b of Some n \<Rightarrow> take n (ds_string b) | None \<Rightarrow> ds_string b)"

definition ds_data_at :: "nat \<Rightarrow> nat \<Rightarrow> dyn_string \<Rightarrow> bytes" where
  "ds_data_at pos n b = take n (drop pos (take (ds_max_size b) (ds_string b)))"

definition ds_prepare :: "nat \<Rightarrow> dyn_string \<Rightarrow> dyn_string option" where
  "ds_prepare n b =
     (if ds_size b > ds_max_size b \<or> ds_max_size b - ds_size b < n then None
      else let new_size = (case ds_stored b of None \<Rightarrow> length (ds_string b) | Some k \<Rightarrow> k)
           in Some (b\<lparr>ds_stored := Some new_size, ds_string := resize (new_size + n) (ds_string b)\<rparr>))"

text \<open>Before the first \<open>prepare\<close> the addition to \<open>size_\<close> wraps; a resize to the largest \<open>size_t\<close> throws.\<close>

definition ds_commit :: "nat \<Rightarrow> dyn_string \<Rightarrow> dyn_string option" where
  "ds_commit n b =
     (case ds_stored b of
        None \<Rightarrow> (case min n (length (ds_string b) + 1) of
           0 \<Rightarrow> None
         | Suc k \<Rightarrow> Some (b\<lparr>ds_stored := Some k, ds_string := resize k (ds_string b)\<rparr>))
      | Some k \<Rightarrow> let new_size = k + min n (length (ds_string b) - k)
                 in Some (b\<lparr>ds_stored := Some new_size, ds_string := resize new_size (ds_string b)\<rparr>))"

definition ds_grow :: "nat \<Rightarrow> dyn_string \<Rightarrow> dyn_string option" where
  "ds_grow n b =
     (if ds_size b > ds_max_size b \<or> ds_max_size b - ds_size b < n then None
      else Some (b\<lparr>ds_string := resize (ds_size b + n) (ds_string b)\<rparr>))"

definition ds_shrink :: "nat \<Rightarrow> dyn_string \<Rightarrow> dyn_string" where
  "ds_shrink n b = b\<lparr>ds_string := resize (if n > ds_size b then 0 else ds_size b - n) (ds_string b)\<rparr>"

definition ds_consume :: "nat \<Rightarrow> dyn_string \<Rightarrow> dyn_string" where
  "ds_consume n b =
     (case ds_stored b of
        Some k \<Rightarrow> let consume_length = min n k
                 in b\<lparr>ds_string := drop consume_length (ds_string b), ds_stored := Some (k - consume_length)\<rparr>
      | None \<Rightarrow> b\<lparr>ds_string := drop n (ds_string b)\<rparr>)"

text \<open>A read into the region of either interface.\<close>

definition ds_read_v1 :: "nat \<Rightarrow> bytes \<Rightarrow> dyn_string \<Rightarrow> dyn_string option" where
  "ds_read_v1 n bs b = ds_commit (length bs) (b\<lparr>ds_string := put_at (ds_size b) bs (ds_string b)\<rparr>)"

definition ds_read_v2 :: "nat \<Rightarrow> bytes \<Rightarrow> dyn_string \<Rightarrow> dyn_string option" where
  "ds_read_v2 n bs b = Some (ds_shrink (n - length bs) (b\<lparr>ds_string := put_at (ds_size b - n) bs (ds_string b)\<rparr>))"

definition ds_inv :: "dyn_string \<Rightarrow> bool" where
  "ds_inv b \<longleftrightarrow> length (ds_string b) \<le> ds_max_size b \<and> (ds_stored b = None \<or> ds_stored b = Some (length (ds_string b)))"

definition ds_inv2 :: "dyn_string \<Rightarrow> bool" where
  "ds_inv2 b \<longleftrightarrow> length (ds_string b) \<le> ds_max_size b \<and> ds_stored b = None"

interpretation string_v1: growing ds_string ds_data ds_size ds_max_size ds_prepare ds_read_v1 ds_inv
proof
  fix b n assume b: "ds_inv b"
  show "ds_data b = ds_string b" using b by (auto simp: ds_inv_def ds_data_def)
  show s: "ds_size b = length (ds_string b)" using b by (auto simp: ds_inv_def ds_size_def)
  show m: "length (ds_string b) \<le> ds_max_size b" using b by (simp add: ds_inv_def)
  assume n: "n \<le> ds_max_size b - length (ds_string b)"
  let ?b = "b\<lparr>ds_stored := Some (length (ds_string b)), ds_string := resize (length (ds_string b) + n) (ds_string b)\<rparr>"
  have "(case ds_stored b of None \<Rightarrow> length (ds_string b) | Some k \<Rightarrow> k) = length (ds_string b)" using b by (auto simp: ds_inv_def)
  then have "ds_prepare n b = Some ?b" using s m n by (simp add: ds_prepare_def Let_def)
  moreover have "\<forall>bs. length bs \<le> n \<longrightarrow> (\<exists>b''. ds_read_v1 n bs ?b = Some b'' \<and> ds_inv b'' \<and> ds_string b'' = ds_string b @ bs
      \<and> ds_max_size b'' = ds_max_size b)"
    using m n by (auto simp: ds_read_v1_def ds_size_def ds_commit_def ds_inv_def put_at_def resize_def Let_def)
  ultimately show "\<exists>b'. ds_prepare n b = Some b' \<and> (\<forall>bs. length bs \<le> n \<longrightarrow>
      (\<exists>b''. ds_read_v1 n bs b' = Some b'' \<and> ds_inv b'' \<and> ds_string b'' = ds_string b @ bs \<and> ds_max_size b'' = ds_max_size b))"
    by blast
qed

interpretation string_v2: growing ds_string "\<lambda>b. ds_data_at 0 (ds_size b) b" ds_size ds_max_size ds_grow ds_read_v2 ds_inv2
proof
  fix b n assume b: "ds_inv2 b"
  show s: "ds_size b = length (ds_string b)" using b by (auto simp: ds_inv2_def ds_size_def)
  show "ds_data_at 0 (ds_size b) b = ds_string b" using b by (auto simp: ds_inv2_def ds_data_at_def s)
  show m: "length (ds_string b) \<le> ds_max_size b" using b by (simp add: ds_inv2_def)
  assume n: "n \<le> ds_max_size b - length (ds_string b)"
  let ?b = "b\<lparr>ds_string := resize (length (ds_string b) + n) (ds_string b)\<rparr>"
  have "ds_grow n b = Some ?b" using s m n by (simp add: ds_grow_def)
  moreover have "\<forall>bs. length bs \<le> n \<longrightarrow> (\<exists>b''. ds_read_v2 n bs ?b = Some b'' \<and> ds_inv2 b'' \<and> ds_string b'' = ds_string b @ bs
      \<and> ds_max_size b'' = ds_max_size b)"
    using b m n by (auto simp: ds_read_v2_def ds_size_def ds_shrink_def ds_inv2_def put_at_def resize_def)
  ultimately show "\<exists>b'. ds_grow n b = Some b' \<and> (\<forall>bs. length bs \<le> n \<longrightarrow>
      (\<exists>b''. ds_read_v2 n bs b' = Some b'' \<and> ds_inv2 b'' \<and> ds_string b'' = ds_string b @ bs \<and> ds_max_size b'' = ds_max_size b))"
    by blast
qed

lemma ds_consume_contents: "ds_inv b \<Longrightarrow> ds_inv (ds_consume n b) \<and> ds_string (ds_consume n b) = drop n (ds_string b)"
  by (auto simp: ds_inv_def ds_consume_def Let_def min_def)

section \<open>The stream buffer\<close>

text \<open>The storage and the three pointers that move; the get area begins at the start of the storage.\<close>

record streambuf =
  sb_buffer :: bytes
  sb_gptr :: nat
  sb_egptr :: nat
  sb_pptr :: nat
  sb_epptr :: nat
  sb_max_size :: nat

abbreviation buffer_delta :: nat where "buffer_delta \<equiv> 128"

definition sb_new :: "nat \<Rightarrow> streambuf" where
  "sb_new maximum_size =
     (let pend = min maximum_size buffer_delta
      in \<lparr>sb_buffer = replicate (max pend 1) 0, sb_gptr = 0, sb_egptr = 0, sb_pptr = 0, sb_epptr = pend, sb_max_size = maximum_size\<rparr>)"

definition sb_size :: "streambuf \<Rightarrow> nat" where
  "sb_size b = sb_pptr b - sb_gptr b"

definition sb_data :: "streambuf \<Rightarrow> bytes" where
  "sb_data b = take (sb_pptr b - sb_gptr b) (drop (sb_gptr b) (sb_buffer b))"

text \<open>\<open>reserve\<close>, with the state it leaves when it throws (\<open>False\<close>): by then the bytes have been moved.\<close>

definition sb_reserve :: "nat \<Rightarrow> streambuf \<Rightarrow> bool \<times> streambuf" where
  "sb_reserve n b =
     (let gnext = sb_gptr b; pnext = sb_pptr b; pend = sb_epptr b in
      if n \<le> pend - pnext then (True, b)
      else let pnext' = (if gnext > 0 then pnext - gnext else pnext);
               moved = (if gnext > 0 then put_at 0 (take pnext' (drop gnext (sb_buffer b))) (sb_buffer b) else sb_buffer b);
               positions = (\<lambda>buf pend. b\<lparr>sb_buffer := buf, sb_gptr := 0, sb_egptr := pnext', sb_pptr := pnext', sb_epptr := pend\<rparr>)
           in if n > pend - pnext' then
                if n \<le> sb_max_size b \<and> pnext' \<le> sb_max_size b - n
                then (True, positions (resize (max (pnext' + n) 1) moved) (pnext' + n))
                else (False, b\<lparr>sb_buffer := moved\<rparr>)
              else (True, positions moved pend))"

definition sb_prepare :: "nat \<Rightarrow> streambuf \<Rightarrow> streambuf option" where
  "sb_prepare n b = (case sb_reserve n b of (True, b') \<Rightarrow> Some b' | (False, b') \<Rightarrow> None)"

definition sb_commit :: "nat \<Rightarrow> streambuf \<Rightarrow> streambuf" where
  "sb_commit n b = (let n = min n (sb_epptr b - sb_pptr b) in b\<lparr>sb_pptr := sb_pptr b + n, sb_egptr := sb_pptr b + n\<rparr>)"

definition sb_consume :: "nat \<Rightarrow> streambuf \<Rightarrow> streambuf" where
  "sb_consume n b =
     (let b = (if sb_egptr b < sb_pptr b then b\<lparr>sb_egptr := sb_pptr b\<rparr> else b);
          n = (if sb_gptr b + n > sb_pptr b then sb_pptr b - sb_gptr b else n)
      in b\<lparr>sb_gptr := sb_gptr b + n\<rparr>)"

definition sb_underflow :: "streambuf \<Rightarrow> u8 option \<times> streambuf" where
  "sb_underflow b = (if sb_gptr b < sb_pptr b then (Some (sb_buffer b ! sb_gptr b), b\<lparr>sb_egptr := sb_pptr b\<rparr>) else (None, b))"

definition sb_overflow :: "u8 \<Rightarrow> streambuf \<Rightarrow> bool \<times> streambuf" where
  "sb_overflow c b =
     (let (ok, b) =
        (if sb_pptr b = sb_epptr b then
           let buffer_size = sb_pptr b - sb_gptr b
           in if buffer_size < sb_max_size b \<and> sb_max_size b - buffer_size < buffer_delta
              then sb_reserve (sb_max_size b - buffer_size) b else sb_reserve buffer_delta b
         else (True, b))
      in if ok then (True, b\<lparr>sb_buffer := (sb_buffer b)[sb_pptr b := c], sb_pptr := sb_pptr b + 1\<rparr>) else (False, b))"

definition sb_read :: "nat \<Rightarrow> bytes \<Rightarrow> streambuf \<Rightarrow> streambuf option" where
  "sb_read n bs b = Some (sb_commit (length bs) (b\<lparr>sb_buffer := put_at (sb_pptr b) bs (sb_buffer b)\<rparr>))"

definition sb_inv :: "streambuf \<Rightarrow> bool" where
  "sb_inv b \<longleftrightarrow> sb_gptr b \<le> sb_egptr b \<and> sb_egptr b \<le> sb_pptr b \<and> sb_pptr b \<le> sb_epptr b \<and> sb_epptr b \<le> length (sb_buffer b)
     \<and> sb_epptr b \<le> sb_max_size b"

lemma sb_inv_new: "sb_inv (sb_new n) \<and> sb_data (sb_new n) = []"
  by (simp add: sb_inv_def sb_new_def sb_data_def Let_def)

lemma take_put_0: "length bs = n \<Longrightarrow> take n (put_at 0 bs s) = bs"
  by (simp add: put_at_def)

lemma sb_data_at_0: "sb_gptr b = 0 \<Longrightarrow> sb_data b = take (sb_pptr b) (sb_buffer b)"
  by (simp add: sb_data_def)

lemma sb_reserve_ok:
  assumes "sb_inv b" "n \<le> sb_max_size b - sb_size b"
  shows "\<exists>b'. sb_reserve n b = (True, b') \<and> sb_inv b' \<and> sb_data b' = sb_data b \<and> sb_max_size b' = sb_max_size b \<and> n \<le> sb_epptr b' - sb_pptr b'"
proof (cases "n \<le> sb_epptr b - sb_pptr b")
  case True
  then show ?thesis using assms(1) by (simp add: sb_reserve_def)
next
  case False
  let ?k = "sb_pptr b - sb_gptr b"
  let ?m = "put_at 0 (take ?k (drop (sb_gptr b) (sb_buffer b))) (sb_buffer b)"
  have i: "sb_gptr b \<le> sb_pptr b" "sb_pptr b \<le> length (sb_buffer b)" "sb_epptr b \<le> length (sb_buffer b)" "sb_epptr b \<le> sb_max_size b" "sb_pptr b \<le> sb_epptr b"
    using assms(1) by (auto simp: sb_inv_def)
  have m: "length ?m = length (sb_buffer b)" "take ?k ?m = sb_data b" using i by (simp_all add: put_at_def sb_data_def)
  have z: "sb_gptr b = 0 \<Longrightarrow> ?m = sb_buffer b" using i(2) by (simp add: put_at_def min_absorb2)
  define d where "d = sb_data b"
  have k: "n \<le> sb_max_size b" "?k \<le> sb_max_size b - n" using assms(2) i by (simp_all add: sb_size_def)
  have r: "sb_reserve n b = (True,
     if n > sb_epptr b - ?k
     then b\<lparr>sb_buffer := resize (max (?k + n) 1) ?m, sb_gptr := 0, sb_egptr := ?k, sb_pptr := ?k, sb_epptr := ?k + n\<rparr>
     else b\<lparr>sb_buffer := ?m, sb_gptr := 0, sb_egptr := ?k, sb_pptr := ?k, sb_epptr := sb_epptr b\<rparr>)"
    using False k z by (cases "sb_gptr b = 0") (simp_all add: sb_reserve_def Let_def)
  have t: "take ?k (resize N ?m) = sb_data b" if "?k \<le> N" for N
    using take_resize [OF that, of ?m] m i(1,2) by simp
  show ?thesis
    unfolding r using i m(1,2) k assms(1) by (auto simp: sb_inv_def sb_data_at_0 intro!: t)
qed

interpretation stream_buffer: growing sb_data sb_data sb_size sb_max_size sb_prepare sb_read sb_inv
proof
  fix b n assume b: "sb_inv b"
  show "sb_data b = sb_data b" ..
  show s: "sb_size b = length (sb_data b)" using b by (auto simp: sb_inv_def sb_data_def sb_size_def)
  show "length (sb_data b) \<le> sb_max_size b" using b by (auto simp: sb_inv_def sb_data_def)
  assume "n \<le> sb_max_size b - length (sb_data b)"
  then obtain b' where r: "sb_reserve n b = (True, b')" and b': "sb_inv b'" "sb_data b' = sb_data b" "sb_max_size b' = sb_max_size b" "n \<le> sb_epptr b' - sb_pptr b'"
    using sb_reserve_ok [OF b, of n] s by auto
  have "\<exists>b''. sb_read n bs b' = Some b'' \<and> sb_inv b'' \<and> sb_data b'' = sb_data b @ bs \<and> sb_max_size b'' = sb_max_size b" if "length bs \<le> n" for bs
  proof -
    have l: "length bs \<le> sb_epptr b' - sb_pptr b'" using that b'(4) by simp
    have i: "sb_gptr b' \<le> sb_pptr b'" "sb_pptr b' \<le> length (sb_buffer b')" "sb_epptr b' \<le> length (sb_buffer b')"
      using b'(1) by (auto simp: sb_inv_def)
    have "sb_data (sb_commit (length bs) (b'\<lparr>sb_buffer := put_at (sb_pptr b') bs (sb_buffer b')\<rparr>)) = sb_data b' @ bs"
      using l i by (simp add: sb_commit_def sb_data_def put_at_def Let_def min_absorb1 drop_take)
    moreover have "sb_inv (sb_commit (length bs) (b'\<lparr>sb_buffer := put_at (sb_pptr b') bs (sb_buffer b')\<rparr>))"
      using l i b'(1) by (auto simp: sb_inv_def sb_commit_def put_at_def Let_def min_absorb1)
    ultimately show ?thesis using b'(2,3) by (simp add: sb_read_def sb_commit_def Let_def)
  qed
  then show "\<exists>b'. sb_prepare n b = Some b' \<and> (\<forall>bs. length bs \<le> n \<longrightarrow>
      (\<exists>b''. sb_read n bs b' = Some b'' \<and> sb_inv b'' \<and> sb_data b'' = sb_data b @ bs \<and> sb_max_size b'' = sb_max_size b))"
    using r by (auto simp: sb_prepare_def)
qed

lemma sb_consume_contents:
  assumes "sb_inv b"
  shows "sb_inv (sb_consume n b) \<and> sb_data (sb_consume n b) = drop n (sb_data b)"
  using assms by (auto simp: sb_inv_def sb_consume_def sb_data_def Let_def drop_take add.commute)

lemma sb_underflow_contents:
  "sb_inv b \<Longrightarrow> fst (sb_underflow b) = (if sb_data b = [] then None else Some (hd (sb_data b))) \<and>
     sb_inv (snd (sb_underflow b)) \<and> sb_data (snd (sb_underflow b)) = sb_data b"
  by (auto simp: sb_inv_def sb_underflow_def sb_data_def hd_drop_conv_nth)

lemma sb_overflow_contents:
  assumes "sb_inv b" "sb_size b < sb_max_size b"
  shows "\<exists>b'. sb_overflow c b = (True, b') \<and> sb_inv b' \<and> sb_data b' = sb_data b @ [c]"
proof -
  let ?n = "if sb_max_size b - sb_size b < buffer_delta then sb_max_size b - sb_size b else buffer_delta"
  have step: "\<exists>b'. sb_inv b1 \<and> (True, b1\<lparr>sb_buffer := (sb_buffer b1)[sb_pptr b1 := c], sb_pptr := sb_pptr b1 + 1\<rparr>) = (True, b') \<and> sb_inv b' \<and> sb_data b' = sb_data b1 @ [c]"
    if "sb_inv b1" "sb_pptr b1 < sb_epptr b1" for b1
    using that by (auto simp: sb_inv_def sb_data_def take_Suc_conv_app_nth Suc_diff_le drop_update_swap)
  show ?thesis
  proof (cases "sb_pptr b = sb_epptr b")
    case True
    have "?n \<le> sb_max_size b - sb_size b" by simp
    then obtain b1 where r: "sb_reserve ?n b = (True, b1)" and b1: "sb_inv b1" "sb_data b1 = sb_data b" "?n \<le> sb_epptr b1 - sb_pptr b1"
      using sb_reserve_ok [OF assms(1)] by blast
    have "sb_pptr b1 < sb_epptr b1" using b1(3) assms(2) by (auto split: if_splits)
    from step [OF b1(1) this] show ?thesis
      using True r b1(2) assms(2) by (auto simp: sb_overflow_def sb_size_def Let_def split: if_splits)
  next
    case False
    then have "sb_pptr b < sb_epptr b" using assms(1) by (simp add: sb_inv_def)
    from step [OF assms(1) this] show ?thesis using False by (auto simp: sb_overflow_def)
  qed
qed

text \<open>The calls of a user of the stream buffer, and what they mean on a queue of bytes. Reading into a prepared region of
  \<open>n\<close> bytes and committing, taking bytes away, writing one byte and looking at the first one.\<close>

datatype sb_call = Sb_receive nat bytes | Sb_consume nat | Sb_put u8 | Sb_peek

fun sb_apply :: "sb_call \<Rightarrow> streambuf \<Rightarrow> streambuf option" where
  "sb_apply (Sb_receive n bs) b = (case sb_prepare n b of None \<Rightarrow> None | Some b \<Rightarrow> sb_read n bs b)"
| "sb_apply (Sb_consume n) b = Some (sb_consume n b)"
| "sb_apply (Sb_put c) b = (case sb_overflow c b of (ok, b) \<Rightarrow> if ok then Some b else None)"
| "sb_apply Sb_peek b = Some (snd (sb_underflow b))"

fun queue_apply :: "nat \<Rightarrow> sb_call \<Rightarrow> bytes \<Rightarrow> bytes option" where
  "queue_apply mx (Sb_receive n bs) q = (if length bs \<le> n \<and> n \<le> mx - length q then Some (q @ bs) else None)"
| "queue_apply mx (Sb_consume n) q = Some (drop n q)"
| "queue_apply mx (Sb_put c) q = (if length q < mx then Some (q @ [c]) else None)"
| "queue_apply mx Sb_peek q = Some q"

fun run_calls :: "('c \<Rightarrow> 'b \<Rightarrow> 'b option) \<Rightarrow> 'c list \<Rightarrow> 'b \<Rightarrow> 'b option" where
  "run_calls f [] b = Some b"
| "run_calls f (c # cs) b = Option.bind (f c b) (run_calls f cs)"

lemma sb_sizes: "sb_inv b \<Longrightarrow> sb_size b = length (sb_data b)"
  by (rule stream_buffer.size_contents)

lemma sb_max_kept:
  "sb_max_size (sb_consume n b) = sb_max_size b" "sb_max_size (snd (sb_underflow b)) = sb_max_size b"
  "sb_max_size (snd (sb_overflow c b)) = sb_max_size b"
  by (auto simp: sb_consume_def sb_underflow_def sb_overflow_def sb_reserve_def Let_def split: prod.splits if_splits)

lemma sb_apply_queue:
  assumes "sb_inv b" "queue_apply (sb_max_size b) c (sb_data b) = Some q"
  shows "\<exists>b'. sb_apply c b = Some b' \<and> sb_inv b' \<and> sb_data b' = q \<and> sb_max_size b' = sb_max_size b"
proof (cases c)
  case (Sb_receive n bs)
  then have "length bs \<le> n" "n \<le> sb_max_size b - length (sb_data b)" "q = sb_data b @ bs" using assms(2) by (auto split: if_splits)
  then show ?thesis using stream_buffer.prepare_commit [OF assms(1), of n] Sb_receive by fastforce
next
  case (Sb_consume n)
  then show ?thesis using assms sb_consume_contents [OF assms(1), of n] sb_max_kept by auto
next
  case (Sb_put x)
  then have "sb_size b < sb_max_size b" "q = sb_data b @ [x]" using assms sb_sizes by (auto split: if_splits)
  then show ?thesis using sb_overflow_contents [OF assms(1), of x] sb_max_kept(3) [of x b] Sb_put by auto
next
  case Sb_peek
  then show ?thesis using assms sb_underflow_contents [OF assms(1)] sb_max_kept by auto
qed

lemma sb_calls_queue:
  assumes "sb_inv b" "run_calls (queue_apply (sb_max_size b)) cs (sb_data b) = Some q"
  shows "\<exists>b'. run_calls sb_apply cs b = Some b' \<and> sb_inv b' \<and> sb_data b' = q"
  using assms
proof (induction cs arbitrary: b)
  case (Cons c cs)
  then obtain q1 where q1: "queue_apply (sb_max_size b) c (sb_data b) = Some q1" "run_calls (queue_apply (sb_max_size b)) cs q1 = Some q"
    by (auto simp: bind_eq_Some_conv)
  from sb_apply_queue [OF Cons(2) q1(1)] obtain b1 where
    b1: "sb_apply c b = Some b1" "sb_inv b1" "sb_data b1 = q1" "sb_max_size b1 = sb_max_size b" by blast
  then show ?case using Cons(1) [of b1] q1(2) by simp
qed simp

section \<open>Properties\<close>


definition demo_calls :: "sb_call list" where
  "demo_calls = [Sb_receive 4 [97, 98, 99], Sb_consume 2, Sb_put 100, Sb_receive 3 [101, 102, 103], Sb_peek, Sb_consume 1]"


text \<open>C27. A failed \<open>prepare\<close> damages the contents. \<open>reserve\<close> moves the bytes to the front of the storage before it finds
  that there is not enough room, and throws without moving the pointers: afterwards byte i of the contents is the one
  that was at i plus the number of bytes consumed, where there is one.\<close>

theorem streambuf_throw_corrupts:
  assumes "sb_inv b" "sb_reserve n b = (False, b')" "i < length (sb_data b)"
  shows "sb_data b' ! i = (if i + sb_gptr b < length (sb_data b) then sb_data b ! (i + sb_gptr b) else sb_data b ! i)"
proof -
  have len: "sb_pptr b \<le> length (sb_buffer b)" "i < sb_pptr b - sb_gptr b" and none: "\<not> n \<le> sb_epptr b - sb_pptr b"
    using assms by (auto simp: sb_inv_def sb_data_def sb_reserve_def)
  let ?k = "sb_pptr b - sb_gptr b" and ?moved = "take (sb_pptr b - sb_gptr b) (drop (sb_gptr b) (sb_buffer b))"
  have read: "sb_data c ! j = sb_buffer c ! (sb_gptr b + j)" if "sb_gptr c = sb_gptr b" "sb_pptr c = sb_pptr b" "j < ?k"
    "length (sb_buffer c) = length (sb_buffer b)" for c j
    using that len by (simp add: sb_data_def)
  show ?thesis
  proof (cases "sb_gptr b = 0")
    case True
    then have "b' = b" using none assms(2) by (auto simp: sb_reserve_def Let_def split: if_splits)
    then show ?thesis using True by simp
  next
    case False
    then have b': "b' = b\<lparr>sb_buffer := put_at 0 ?moved (sb_buffer b)\<rparr>"
      using none assms(2) by (auto simp: sb_reserve_def Let_def split: if_splits)
    have k: "length ?moved = ?k" using len by simp
    have r: "sb_data b ! i = sb_buffer b ! (sb_gptr b + i)" using read [of b i] len by simp
    have "sb_data b' ! i = put_at 0 ?moved (sb_buffer b) ! (sb_gptr b + i)"
      using read [of b' i] len b' k by (simp add: put_at_def)
    also have "\<dots> = (if sb_gptr b + i < ?k then ?moved ! (sb_gptr b + i) else sb_buffer b ! (sb_gptr b + i))"
      using len k by (simp add: put_at_def nth_append add.commute)
    also have "\<dots> = (if i + sb_gptr b < ?k then sb_data b ! (i + sb_gptr b) else sb_data b ! i)"
      by (simp only: r sb_data_def [symmetric] add.commute [of i])
    finally show ?thesis using k by (simp add: sb_data_def)
  qed
qed

definition used_buffer :: streambuf where
  "used_buffer = the (run_calls sb_apply [Sb_receive 4 [97, 98, 99, 100], Sb_consume 1] (sb_new 4))"

lemma streambuf_throw_corrupts_witness:
  "sb_prepare 10 used_buffer = None \<and> sb_data used_buffer = [98, 99, 100] \<and> sb_data (snd (sb_reserve 10 used_buffer)) ! 0 = 99"
proof -
  have "sb_inv used_buffer" "sb_reserve 10 used_buffer = (False, snd (sb_reserve 10 used_buffer))" "0 < length (sb_data used_buffer)"
    by code_simp+
  from streambuf_throw_corrupts [OF this] have "sb_data (snd (sb_reserve 10 used_buffer)) ! 0 =
      (if 0 + sb_gptr used_buffer < length (sb_data used_buffer) then sb_data used_buffer ! (0 + sb_gptr used_buffer) else sb_data used_buffer ! 0)" .
  moreover have "sb_prepare 10 used_buffer = None" "sb_data used_buffer = [98, 99, 100]" "sb_gptr used_buffer = 1" by code_simp+
  ultimately show ?thesis by simp
qed

end
