(* ===== verification/AsioReadUntil.thy ===== *)
theory AsioReadUntil
  imports AsioDynamic AsioSys "HOL-Library.Sublist"
begin

text \<open>
  Reading until a delimiter: \<^verbatim>\<open>include/asio/impl/read_until.hpp\<close>, for a character, a string, a match condition
  and a regular expression, on either interface of the growing buffers, synchronous and asynchronous. The eight
  synchronous loops differ only in the search and in the pair of calls that makes room and keeps the bytes that came;
  the search and the buffer are parameters of one loop. The match condition, the regular expression search, the
  stream and the capacity of the storage are not part of the code and are parameters. A loop that does not end is
  \<open>None\<close>, an exception is \<open>Some None\<close>.
\<close>

section \<open>Searching\<close>

text \<open>\<open>std::find\<close>: the offset of the first equal byte, or the length of the range.\<close>

fun std_find :: "u8 \<Rightarrow> bytes \<Rightarrow> nat" where
  "std_find c [] = 0"
| "std_find c (x # xs) = (if x = c then 0 else Suc (std_find c xs))"

text \<open>\<open>partial_search\<close>. The inner loop compares from one position; \<open>moved\<close> says that \<open>test_iter2\<close> has left
  \<open>first2\<close>. \<open>Some True\<close> is a full match, \<open>Some False\<close> a partial match at the end of the data.\<close>

fun compare_at :: "bool \<Rightarrow> bytes \<Rightarrow> bytes \<Rightarrow> bool option" where
  "compare_at moved xs [] = Some True"
| "compare_at moved [] (y # ys) = (if moved then Some False else None)"
| "compare_at moved (x # xs) (y # ys) = (if x \<noteq> y then None else compare_at True xs ys)"

fun partial_search :: "bytes \<Rightarrow> bytes \<Rightarrow> nat \<times> bool" where
  "partial_search [] delim = (0, False)"
| "partial_search (x # xs) delim =
     (case compare_at False (x # xs) delim of
        Some full \<Rightarrow> (0, full)
      | None \<Rightarrow> (case partial_search xs delim of (i, full) \<Rightarrow> (Suc i, full)))"

text \<open>What one pass over the data from \<open>search_position\<close> finds: the number of bytes up to and including the match, or
  the position the next search starts from.\<close>

datatype outcome = Found nat | Search_from nat

definition search_char :: "u8 \<Rightarrow> nat \<Rightarrow> bytes \<Rightarrow> outcome" where
  "search_char delim pos data =
     (let i = pos + std_find delim (drop pos data)
      in if i \<noteq> length data then Found (i + 1) else Search_from (length data))"

definition search_string :: "bytes \<Rightarrow> nat \<Rightarrow> bytes \<Rightarrow> outcome" where
  "search_string delim pos data =
     (case partial_search (drop pos data) delim of
        (i, full) \<Rightarrow> if pos + i \<noteq> length data
                    then if full then Found (pos + i + length delim) else Search_from (pos + i)
                    else Search_from (length data))"

definition search_condition :: "(bytes \<Rightarrow> nat \<times> bool) \<Rightarrow> nat \<Rightarrow> bytes \<Rightarrow> outcome" where
  "search_condition match_condition pos data =
     (case match_condition (drop pos data) of
        (i, full) \<Rightarrow> if full then Found (pos + i)
                    else if pos + i \<noteq> length data then Search_from (pos + i) else Search_from (length data))"

text \<open>\<open>regex_search\<close> gives the ends of the match and whether it is a full one.\<close>

definition search_expr :: "(bytes \<Rightarrow> (nat \<times> nat \<times> bool) option) \<Rightarrow> nat \<Rightarrow> bytes \<Rightarrow> outcome" where
  "search_expr regex_search pos data =
     (case regex_search (drop pos data) of
        Some (i, j, matched) \<Rightarrow> if matched then Found (pos + j) else Search_from (pos + i)
      | None \<Rightarrow> Search_from (length data))"

section \<open>The synchronous loop\<close>

text \<open>The calls on the buffer. \<open>dyn_room\<close> is \<open>prepare\<close> or \<open>grow\<close>; \<open>dyn_keep\<close> is the read into the region with the
  \<open>commit\<close> or the \<open>shrink\<close> after it.\<close>

record 'b dynamic_buffer =
  dyn_size :: "'b \<Rightarrow> nat"
  dyn_max_size :: "'b \<Rightarrow> nat"
  dyn_capacity :: "'b \<Rightarrow> nat"
  dyn_data :: "'b \<Rightarrow> bytes"
  dyn_room :: "nat \<Rightarrow> 'b \<Rightarrow> 'b option"
  dyn_keep :: "nat \<Rightarrow> bytes \<Rightarrow> 'b \<Rightarrow> 'b option"

text \<open>\<open>error::not_found\<close>, in the category of \<open>eof\<close>.\<close>

abbreviation error_not_found :: int where "error_not_found \<equiv> -3"

definition bytes_to_read :: "'b dynamic_buffer \<Rightarrow> 'b \<Rightarrow> nat" where
  "bytes_to_read d b =
     min (max 512 (dyn_capacity d b - dyn_size d b)) (min 65536 (dyn_max_size d b - dyn_size d b))"

partial_function (option) read_until ::
  "'b dynamic_buffer \<Rightarrow> (nat \<Rightarrow> bytes \<Rightarrow> outcome) \<Rightarrow> (nat \<Rightarrow> 's \<Rightarrow> bytes \<times> int \<times> 's) \<Rightarrow> nat \<Rightarrow> 'b \<Rightarrow> 's
     \<Rightarrow> (nat \<times> int \<times> 'b \<times> 's) option option" where
  "read_until d search rs search_position b s =
     (case search search_position (dyn_data d b) of
        Found n \<Rightarrow> Some (Some (n, 0, b, s))
      | Search_from p \<Rightarrow>
          if dyn_size d b = dyn_max_size d b then Some (Some (0, error_not_found, b, s))
          else let n = bytes_to_read d b
               in case dyn_room d n b of
                    None \<Rightarrow> Some None
                  | Some b \<Rightarrow>
                      (case rs n s of
                         (bs, ec, s) \<Rightarrow>
                           (case dyn_keep d n bs b of
                              None \<Rightarrow> Some None
                            | Some b \<Rightarrow> if ec \<noteq> 0 then Some (Some (0, ec, b, s)) else read_until d search rs p b s)))"

section \<open>The asynchronous operation\<close>

text \<open>\<open>no_position\<close> is the largest \<open>size_t\<close>, the operation's mark for a full buffer.\<close>

abbreviation no_position :: nat where "no_position \<equiv> 2 ^ 64 - 1"

datatype 'b until_step = Reading nat nat 'b | Complete int nat 'b

definition until_search :: "'b dynamic_buffer \<Rightarrow> (nat \<Rightarrow> bytes \<Rightarrow> outcome) \<Rightarrow> nat \<Rightarrow> 'b \<Rightarrow> nat \<times> nat" where
  "until_search d search search_position b =
     (case search search_position (dyn_data d b) of
        Found n \<Rightarrow> (n, 0)
      | Search_from p \<Rightarrow> if dyn_size d b = dyn_max_size d b then (no_position, 0) else (p, bytes_to_read d b))"

definition until_finish :: "int \<Rightarrow> nat \<Rightarrow> 'b \<Rightarrow> 'b until_step" where
  "until_finish ec search_position b =
     Complete (if search_position = no_position then error_not_found else ec)
       (if ec \<noteq> 0 \<or> search_position = no_position then 0 else search_position) b"

definition until_continue ::
  "'b dynamic_buffer \<Rightarrow> (nat \<Rightarrow> bytes \<Rightarrow> outcome) \<Rightarrow> bool \<Rightarrow> int \<Rightarrow> nat \<Rightarrow> 'b \<Rightarrow> 'b until_step option" where
  "until_continue d search start ec search_position b =
     (case until_search d search search_position b of
        (p, n) \<Rightarrow> if \<not> start \<and> n = 0 then Some (until_finish ec p b)
                 else map_option (Reading n p) (dyn_room d n b))"

definition until_start :: "'b dynamic_buffer \<Rightarrow> (nat \<Rightarrow> bytes \<Rightarrow> outcome) \<Rightarrow> 'b \<Rightarrow> 'b until_step option" where
  "until_start d search b = until_continue d search True 0 0 b"

definition until_resume ::
  "'b dynamic_buffer \<Rightarrow> (nat \<Rightarrow> bytes \<Rightarrow> outcome) \<Rightarrow> int \<Rightarrow> bytes \<Rightarrow> bool \<Rightarrow> nat \<Rightarrow> nat \<Rightarrow> 'b \<Rightarrow> 'b until_step option" where
  "until_resume d search ec bs cancelled n search_position b =
     (case dyn_keep d n bs b of
        None \<Rightarrow> None
      | Some b \<Rightarrow> if ec \<noteq> 0 \<or> length bs = 0 then Some (until_finish ec search_position b)
                  else if cancelled then Some (until_finish operation_aborted search_position b)
                  else until_continue d search False ec search_position b)"

partial_function (option) until_run ::
  "'b dynamic_buffer \<Rightarrow> (nat \<Rightarrow> bytes \<Rightarrow> outcome) \<Rightarrow> (nat \<Rightarrow> 's \<Rightarrow> bytes \<times> int \<times> 's) \<Rightarrow> ('s \<Rightarrow> bool)
     \<Rightarrow> 'b until_step option \<Rightarrow> 's \<Rightarrow> (nat \<times> int \<times> 'b \<times> 's) option option" where
  "until_run d search rs cancelled step s =
     (case step of
        None \<Rightarrow> Some None
      | Some (Complete ec n b) \<Rightarrow> Some (Some (n, ec, b, s))
      | Some (Reading n p b) \<Rightarrow>
          (case rs n s of
             (bs, ec, s) \<Rightarrow> until_run d search rs cancelled (until_resume d search ec bs (cancelled s) n p b) s))"

definition async_read_until ::
  "'b dynamic_buffer \<Rightarrow> (nat \<Rightarrow> bytes \<Rightarrow> outcome) \<Rightarrow> (nat \<Rightarrow> 's \<Rightarrow> bytes \<times> int \<times> 's) \<Rightarrow> ('s \<Rightarrow> bool)
     \<Rightarrow> 'b \<Rightarrow> 's \<Rightarrow> (nat \<times> int \<times> 'b \<times> 's) option option" where
  "async_read_until d search rs cancelled b s = until_run d search rs cancelled (until_start d search b) s"

section \<open>The searches\<close>

lemma std_find_le: "std_find c xs \<le> length xs"
  by (induction xs) auto

lemma std_find_less: "std_find c xs < length xs \<longleftrightarrow> c \<in> set xs"
  by (induction xs) auto

lemma std_find_append: "c \<notin> set xs \<Longrightarrow> std_find c (xs @ ys) = length xs + std_find c ys"
  by (induction xs) auto

lemma std_find_first: "std_find c xs = i \<Longrightarrow> i < length xs \<Longrightarrow> xs ! i = c \<and> c \<notin> set (take i xs)"
  by (induction xs arbitrary: i) (auto split: if_splits)

lemma compare_at_full: "compare_at m xs d = Some True \<longleftrightarrow> prefix d xs"
  by (induction m xs d rule: compare_at.induct) auto

lemma compare_at_partial: "compare_at m xs d = Some False \<Longrightarrow> length xs < length d"
  by (induction m xs d rule: compare_at.induct) (auto split: if_splits)

lemma compare_at_mismatch: "compare_at m xs d = None \<Longrightarrow> m \<or> xs \<noteq> [] \<Longrightarrow> compare_at m (xs @ ys) d = None"
  by (induction m xs d rule: compare_at.induct) (auto split: if_splits)

lemma partial_search_le: "partial_search xs d = (i, full) \<Longrightarrow> i \<le> length xs \<and> (full \<longrightarrow> i < length xs)"
  by (induction xs d arbitrary: i rule: partial_search.induct) (auto split: option.splits prod.splits)

lemma partial_search_full:
  "partial_search xs d = (i, True) \<Longrightarrow> prefix d (drop i xs) \<and> (\<forall>j<i. \<not> prefix d (drop j xs))"
proof (induction xs d arbitrary: i rule: partial_search.induct)
  case (2 x xs d)
  show ?case
  proof (cases "compare_at False (x # xs) d")
    case None
    then obtain k where k: "i = Suc k" "partial_search xs d = (k, True)" using 2(2) by (auto split: prod.splits)
    have "\<not> prefix d (x # xs)" using None compare_at_full [of False "x # xs" d] by simp
    then show ?thesis using 2(1) [OF None k(2)] k(1) by (auto simp: less_Suc_eq_0_disj)
  next
    case (Some full)
    then show ?thesis using 2(2) compare_at_full [of False "x # xs" d] by simp
  qed
qed simp

lemma prefix_drop_short: "length xs < length d \<Longrightarrow> \<not> prefix d (drop j xs)"
  by (auto dest!: prefix_length_le)

lemma partial_search_none:
  "partial_search xs d = (i, False) \<Longrightarrow> j < length xs \<Longrightarrow> \<not> prefix d (drop j xs)"
proof (induction xs d arbitrary: i j rule: partial_search.induct)
  case (2 x xs d)
  show ?case
  proof (cases "compare_at False (x # xs) d")
    case None
    then obtain k where k: "partial_search xs d = (k, False)" using 2(2) by (auto split: prod.splits)
    have "\<not> prefix d (x # xs)" using None compare_at_full [of False "x # xs" d] by simp
    then show ?thesis using 2(1) [OF None k] 2(3) by (cases j) auto
  next
    case (Some full)
    then have "length (x # xs) < length d" using 2(2) compare_at_partial [of False "x # xs" d] by simp
    then show ?thesis by (rule prefix_drop_short)
  qed
qed simp

text \<open>A search that found no full match can go on from where it stopped.\<close>

lemma partial_search_append:
  "partial_search xs d = (q, False) \<Longrightarrow>
    partial_search (xs @ ys) d = (case partial_search (drop q xs @ ys) d of (i, full) \<Rightarrow> (q + i, full))"
proof (induction xs d arbitrary: q rule: partial_search.induct)
  case (2 x xs d)
  show ?case
  proof (cases "compare_at False (x # xs) d")
    case None
    then obtain k where k: "q = Suc k" "partial_search xs d = (k, False)" using 2(2) by (auto split: prod.splits)
    have "compare_at False ((x # xs) @ ys) d = None" using None by (rule compare_at_mismatch) simp
    then have "partial_search ((x # xs) @ ys) d = (case partial_search (xs @ ys) d of (i, full) \<Rightarrow> (Suc i, full))" by simp
    then show ?thesis using 2(1) [OF None k(2)] k(1) by (simp split: prod.splits)
  next
    case (Some full)
    then have "q = 0" using 2(2) by simp
    then show ?thesis by (simp split: prod.splits)
  qed
qed simp

text \<open>A search from a position gives what a search of everything gives, and so does the next one once data has been added.\<close>

definition resumable :: "(nat \<Rightarrow> bytes \<Rightarrow> outcome) \<Rightarrow> bool" where
  "resumable search \<longleftrightarrow>
     (\<forall>p q xs ys. search p xs = search 0 xs \<longrightarrow> search p xs = Search_from q \<longrightarrow> search q (xs @ ys) = search 0 (xs @ ys))"

lemma resumable_char: "resumable (search_char d)"
  unfolding resumable_def
proof (intro allI impI)
  fix p q and xs ys :: bytes
  assume "search_char d p xs = search_char d 0 xs" "search_char d p xs = Search_from q"
  then have "q = length xs" "std_find d xs = length xs" by (auto simp: search_char_def Let_def split: if_splits)
  then have "q = length xs" "d \<notin> set xs" using std_find_less [of d xs] by auto
  then show "search_char d q (xs @ ys) = search_char d 0 (xs @ ys)" by (simp add: search_char_def std_find_append Let_def)
qed

lemma search_string_from: "search_string d 0 xs = Search_from q \<Longrightarrow> partial_search xs d = (q, False)"
  using partial_search_le [of xs d] by (auto simp: search_string_def split: prod.splits if_splits)

lemma resumable_string: "resumable (search_string d)"
  unfolding resumable_def
proof (intro allI impI)
  fix p q and xs ys :: bytes
  assume "search_string d p xs = search_string d 0 xs" "search_string d p xs = Search_from q"
  then have "partial_search xs d = (q, False)" by (intro search_string_from) simp
  then have q: "q \<le> length xs" "partial_search (xs @ ys) d = (case partial_search (drop q xs @ ys) d of (i, full) \<Rightarrow> (q + i, full))"
    using partial_search_le [of xs d q False] partial_search_append [of xs d q ys] by auto
  obtain i full where i: "partial_search (drop q xs @ ys) d = (i, full)" by fastforce
  have "drop q (xs @ ys) = drop q xs @ ys" using q(1) by simp
  then show "search_string d q (xs @ ys) = search_string d 0 (xs @ ys)" using q(2) i by (simp add: search_string_def)
qed

lemma search_string_first:
  "search_string d 0 xs = Found n \<Longrightarrow>
    \<exists>i. n = i + length d \<and> prefix d (drop i xs) \<and> (\<forall>j<i. \<not> prefix d (drop j xs))"
  using partial_search_full [of xs d] by (auto simp: search_string_def split: prod.splits if_splits)

lemma search_string_absent: "search_string d 0 xs = Search_from q \<Longrightarrow> j < length xs \<Longrightarrow> \<not> prefix d (drop j xs)"
  by (drule search_string_from) (rule partial_search_none)

lemma search_char_found: "search_char d 0 xs = Found n \<longleftrightarrow> 0 < n \<and> n \<le> length xs \<and> xs ! (n - 1) = d \<and> d \<notin> set (take (n - 1) xs)"
proof
  assume "search_char d 0 xs = Found n"
  then have "n = std_find d xs + 1" "std_find d xs < length xs" using std_find_le [of d xs] by (auto simp: search_char_def Let_def split: if_splits)
  then show "0 < n \<and> n \<le> length xs \<and> xs ! (n - 1) = d \<and> d \<notin> set (take (n - 1) xs)" using std_find_first [of d xs] by simp
next
  assume a: "0 < n \<and> n \<le> length xs \<and> xs ! (n - 1) = d \<and> d \<notin> set (take (n - 1) xs)"
  have "n - 1 < length xs" using a by linarith
  from id_take_nth_drop [OF this] have "xs = take (n - 1) xs @ d # drop n xs" using a by simp
  then have "std_find d xs = length (take (n - 1) xs) + std_find d (d # drop n xs)" using a std_find_append by metis
  then have "std_find d xs = n - 1" using a \<open>n - 1 < length xs\<close> by (simp add: min_absorb2)
  then show "search_char d 0 xs = Found n" using a \<open>n - 1 < length xs\<close> by (auto simp: search_char_def Let_def)
qed

section \<open>Lemmas for every growing buffer\<close>

text \<open>A stream that delivers at most what there is room for, and one that delivers something or reports an error.\<close>

definition reads_within :: "(nat \<Rightarrow> 's \<Rightarrow> bytes \<times> int \<times> 's) \<Rightarrow> bool" where
  "reads_within rs \<longleftrightarrow> (\<forall>n s. length (fst (rs n s)) \<le> n)"

definition reads_progress :: "(nat \<Rightarrow> 's \<Rightarrow> bytes \<times> int \<times> 's) \<Rightarrow> bool" where
  "reads_progress rs \<longleftrightarrow> (\<forall>n s. n > 0 \<longrightarrow> fst (rs n s) \<noteq> [] \<or> fst (snd (rs n s)) \<noteq> 0)"

text \<open>What has been delivered is kept, and a result without an error is that of one search of everything.\<close>

definition delivered_until :: "('b \<Rightarrow> bool) \<Rightarrow> ('b \<Rightarrow> bytes) \<Rightarrow> (nat \<Rightarrow> bytes \<Rightarrow> outcome) \<Rightarrow> 'b \<Rightarrow> nat \<times> int \<times> 'b \<times> 's \<Rightarrow> bool" where
  "delivered_until ok view search b r \<longleftrightarrow> (case r of (n, ec, b', s') \<Rightarrow>
     ok b' \<and> (\<exists>bs. view b' = view b @ bs) \<and> (ec = 0 \<longrightarrow> search 0 (view b') = Found n))"

context growing
begin

abbreviation dyn :: "('b \<Rightarrow> nat) \<Rightarrow> 'b dynamic_buffer" where
  "dyn cap \<equiv> \<lparr>dyn_size = size_of, dyn_max_size = max_of, dyn_capacity = cap, dyn_data = data, dyn_room = prepare, dyn_keep = commit\<rparr>"

lemma loop_step:
  assumes "invar b" "reads_within rs" "size_of b \<noteq> max_of b"
  obtains b1 bs ec s' b2 where "prepare (bytes_to_read (dyn cap) b) b = Some b1" "rs (bytes_to_read (dyn cap) b) s = (bs, ec, s')"
    "commit (bytes_to_read (dyn cap) b) bs b1 = Some b2" "invar b2" "contents b2 = contents b @ bs" "max_of b2 = max_of b"
    "0 < bytes_to_read (dyn cap) b"
proof -
  let ?n = "bytes_to_read (dyn cap) b"
  have n: "0 < ?n" "?n \<le> max_of b - length (contents b)"
    using assms size_contents [OF assms(1)] within_max [OF assms(1)] by (simp_all add: bytes_to_read_def)
  from prepare_commit [OF assms(1) n(2)] obtain b1 where b1: "prepare ?n b = Some b1" "\<forall>bs. length bs \<le> ?n \<longrightarrow>
      (\<exists>b2. commit ?n bs b1 = Some b2 \<and> invar b2 \<and> contents b2 = contents b @ bs \<and> max_of b2 = max_of b)" by blast
  obtain bs ec s' where rs: "rs ?n s = (bs, ec, s')" by (cases "rs ?n s") auto
  then have "length bs \<le> ?n" using assms(2) by (metis reads_within_def fst_conv)
  then obtain b2 where "commit ?n bs b1 = Some b2" "invar b2" "contents b2 = contents b @ bs" "max_of b2 = max_of b" using b1(2) by blast
  then show ?thesis using that [OF b1(1) rs] n(1) by blast
qed

lemma delivered_until_step:
  "delivered_until invar contents search b2 r \<Longrightarrow> contents b2 = contents b @ bs \<Longrightarrow> delivered_until invar contents search b r"
  by (auto simp: delivered_until_def)

lemma until_delivered:
  assumes "read_until d search rs p b s = Some r0"
  shows "d = dyn cap \<Longrightarrow> reads_within rs \<Longrightarrow> resumable search \<Longrightarrow> invar b \<Longrightarrow> search p (contents b) = search 0 (contents b)
    \<Longrightarrow> r0 = Some r \<Longrightarrow> delivered_until invar contents search b r"
proof (induction arbitrary: r rule: read_until.raw_induct [OF _ assms])
  case (1 read_until d search rs p b s r0 r)
  note IH = 1(1) and body = 1(2) and [simp] = 1(3) and a = 1(4-8)
  show ?case
  proof (cases "search p (contents b)")
    case (Found n)
    then show ?thesis using body a by (auto simp: data_contents delivered_until_def)
  next
    case (Search_from q)
    show ?thesis
    proof (cases "size_of b = max_of b")
      case True
      then show ?thesis using body a(3,5) Search_from by (auto simp: data_contents delivered_until_def)
    next
      case False
      obtain b1 bs ec s' b2 where st: "prepare (bytes_to_read (dyn cap) b) b = Some b1"
        "rs (bytes_to_read (dyn cap) b) s = (bs, ec, s')" "commit (bytes_to_read (dyn cap) b) bs b1 = Some b2"
        and b2: "invar b2" "contents b2 = contents b @ bs"
        using loop_step [OF a(3) a(1) False] by metis
      have r: "(if ec \<noteq> 0 then Some (Some (0, ec, b2, s')) else read_until d search rs q b2 s') = Some (Some r)"
        using body a(5) Search_from False st by (simp add: data_contents a(3) Let_def)
      show ?thesis
      proof (cases "ec = 0")
        case False
        then show ?thesis using r b2 by (auto simp: delivered_until_def)
      next
        case True
        have "search q (contents b @ bs) = search 0 (contents b @ bs)"
          using a(2,4) Search_from by (auto simp: resumable_def)
        then have "delivered_until invar contents search b2 r" using IH [of d search rs q b2 s' "Some r" r] r True a b2 by simp
        then show ?thesis using b2(2) by (rule delivered_until_step)
      qed
    qed
  qed
qed

text \<open>Every read makes the contents longer, and they do not exceed the maximum.\<close>

lemma until_returns:
  assumes "invar b" "reads_within rs" "reads_progress rs"
  shows "\<exists>r. read_until (dyn cap) search rs p b s = Some (Some r)"
  using assms(1)
proof (induction "max_of b - length (contents b)" arbitrary: p b s rule: less_induct)
  case less
  show ?case
  proof (cases "search p (contents b)")
    case (Found n)
    then show ?thesis by (subst read_until.simps) (simp add: data_contents less(2))
  next
    case (Search_from q)
    show ?thesis
    proof (cases "size_of b = max_of b")
      case True
      then show ?thesis using Search_from by (subst read_until.simps) (simp add: data_contents less(2))
    next
      case False
      obtain b1 bs ec s' b2 where st: "prepare (bytes_to_read (dyn cap) b) b = Some b1"
        "rs (bytes_to_read (dyn cap) b) s = (bs, ec, s')" "commit (bytes_to_read (dyn cap) b) bs b1 = Some b2"
        and b2: "invar b2" "contents b2 = contents b @ bs" "max_of b2 = max_of b" and n: "0 < bytes_to_read (dyn cap) b"
        using loop_step [OF less(2) assms(2) False] by metis
      have r: "read_until (dyn cap) search rs p b s = (if ec \<noteq> 0 then Some (Some (0, ec, b2, s')) else read_until (dyn cap) search rs q b2 s')"
        using Search_from False st by (subst read_until.simps) (simp add: data_contents less(2) Let_def)
      show ?thesis
      proof (cases "ec = 0")
        case True
        have "bs \<noteq> []" using assms(3) n st(2) True by (metis reads_progress_def fst_conv snd_conv)
        moreover have "length (contents b2) \<le> max_of b2" using b2(1) by (rule within_max)
        ultimately have "max_of b2 - length (contents b2) < max_of b - length (contents b)" using b2 by (cases bs) auto
        then show ?thesis using less(1) [of b2 q s'] b2(1) r True by simp
      qed (use r in simp)
    qed
  qed
qed

end

text \<open>The asynchronous operation against the loop, up to the representation of the buffer: a match found at the start
  makes the operation read into no room before it calls the handler.\<close>

definition shown :: "('b \<Rightarrow> bytes) \<Rightarrow> (nat \<times> int \<times> 'b \<times> 's) option option \<Rightarrow> (nat \<times> int \<times> bytes \<times> 's) option option" where
  "shown view = map_option (map_option (\<lambda>(n, ec, b, s). (n, ec, view b, s)))"

definition search_within :: "(nat \<Rightarrow> bytes \<Rightarrow> outcome) \<Rightarrow> bool" where
  "search_within search \<longleftrightarrow>
     (\<forall>p xs. p \<le> length xs \<longrightarrow> (case search p xs of Found n \<Rightarrow> n \<le> length xs | Search_from q \<Rightarrow> q \<le> length xs))"

lemma search_within_char: "search_within (search_char d)"
  unfolding search_within_def
proof (intro allI impI)
  fix p and xs :: bytes assume "p \<le> length xs"
  then show "case search_char d p xs of Found n \<Rightarrow> n \<le> length xs | Search_from q \<Rightarrow> q \<le> length xs"
    using std_find_le [of d "drop p xs"] by (auto simp: search_char_def Let_def)
qed

lemma search_within_string: "search_within (search_string d)"
  unfolding search_within_def
proof (intro allI impI)
  fix p and xs :: bytes assume p: "p \<le> length xs"
  obtain i full where i: "partial_search (drop p xs) d = (i, full)" by fastforce
  have "i \<le> length (drop p xs)" using partial_search_le [OF i] by blast
  then have le: "p + i \<le> length xs" using p by simp
  have "p + i + length d \<le> length xs" if "full"
  proof -
    have "prefix d (drop i (drop p xs))" using partial_search_full [of "drop p xs" d i] i that by simp
    then show ?thesis using le by (auto dest!: prefix_length_le)
  qed
  then show "case search_string d p xs of Found n \<Rightarrow> n \<le> length xs | Search_from q \<Rightarrow> q \<le> length xs"
    using i le by (auto simp: search_string_def)
qed

lemma until_run_simps:
  "until_run d search rs cancelled None s = Some None"
  "until_run d search rs cancelled (Some (Complete ec n b)) s = Some (Some (n, ec, b, s))"
  "until_run d search rs cancelled (Some (Reading n p b)) s =
     (case rs n s of (bs, ec, s) \<Rightarrow> until_run d search rs cancelled (until_resume d search ec bs (cancelled s) n p b) s)"
  by (subst until_run.simps; simp)+

context growing
begin

lemma prepare_nothing:
  assumes "invar b"
  obtains b1 b2 where "prepare 0 b = Some b1" "commit 0 [] b1 = Some b2" "contents b2 = contents b"
  using prepare_commit [OF assms, of 0] by auto

lemma async_step:
  assumes "invar b" "reads_within rs" "reads_progress rs" "search_within search" "p \<le> length (contents b)" "max_of b < no_position"
  shows "shown contents (until_run (dyn cap) search rs (\<lambda>s. False) (until_continue (dyn cap) search False 0 p b) s) =
    shown contents (read_until (dyn cap) search rs p b s)"
  using assms(1,5,6)
proof (induction "max_of b - length (contents b)" arbitrary: p b s rule: less_induct)
  case less
  have within: "case search p (contents b) of Found n \<Rightarrow> n \<le> length (contents b) | Search_from q \<Rightarrow> q \<le> length (contents b)"
    using assms(4) less(3) by (simp only: search_within_def)
  have lt: "length (contents b) < no_position" using within_max [OF less(2)] less(4) by (rule le_less_trans)
  show ?case
  proof (cases "search p (contents b)")
    case (Found n)
    then have "n \<noteq> no_position" using within lt by auto
    then show ?thesis using Found
      by (subst read_until.simps)
        (simp add: data_contents less(2) until_continue_def until_search_def until_finish_def until_run_simps shown_def)
  next
    case (Search_from q)
    then have q: "q \<le> length (contents b)" "q \<noteq> no_position" using within lt by auto
    show ?thesis
    proof (cases "size_of b = max_of b")
      case True
      then show ?thesis using Search_from
        by (subst read_until.simps)
          (simp add: data_contents less(2) until_continue_def until_search_def until_finish_def until_run_simps shown_def)
    next
      case False
      obtain b1 bs ec s' b2 where st: "prepare (bytes_to_read (dyn cap) b) b = Some b1"
        "rs (bytes_to_read (dyn cap) b) s = (bs, ec, s')" "commit (bytes_to_read (dyn cap) b) bs b1 = Some b2"
        and b2: "invar b2" "contents b2 = contents b @ bs" "max_of b2 = max_of b" and n: "0 < bytes_to_read (dyn cap) b"
        using loop_step [OF less(2) assms(2) False] by metis
      have r: "read_until (dyn cap) search rs p b s = (if ec \<noteq> 0 then Some (Some (0, ec, b2, s')) else read_until (dyn cap) search rs q b2 s')"
        using Search_from False st by (subst read_until.simps) (simp add: data_contents less(2) Let_def)
      have c: "until_continue (dyn cap) search False 0 p b = Some (Reading (bytes_to_read (dyn cap) b) q b1)"
        using Search_from False st(1) n by (simp add: until_continue_def until_search_def data_contents less(2))
      show ?thesis
      proof (cases "ec = 0")
        case True
        have bs: "bs \<noteq> []" using assms(3) n st(2) True by (metis reads_progress_def fst_conv snd_conv)
        moreover have "length (contents b2) \<le> max_of b2" using b2(1) by (rule within_max)
        ultimately have "max_of b2 - length (contents b2) < max_of b - length (contents b)" using b2 by (cases bs) auto
        moreover have "q \<le> length (contents b2)" "max_of b2 < no_position" using q b2 less(4) by simp_all
        ultimately have "shown contents (until_run (dyn cap) search rs (\<lambda>s. False) (until_continue (dyn cap) search False 0 q b2) s') =
            shown contents (read_until (dyn cap) search rs q b2 s')" using less(1) [of b2 q s'] b2(1) by simp
        then show ?thesis using True bs st r c by (simp add: until_run_simps until_resume_def)
      next
        case False
        then show ?thesis using q(2) st r c by (simp add: until_run_simps until_resume_def until_finish_def)
      qed
    qed
  qed
qed

end

section \<open>The buffers of the library\<close>

definition ds_dyn_v1 :: "(bytes \<Rightarrow> nat) \<Rightarrow> dyn_string dynamic_buffer" where
  "ds_dyn_v1 cap = \<lparr>dyn_size = ds_size, dyn_max_size = ds_max_size, dyn_capacity = ds_capacity cap, dyn_data = ds_data,
     dyn_room = ds_prepare, dyn_keep = ds_read_v1\<rparr>"

definition ds_dyn_v2 :: "(bytes \<Rightarrow> nat) \<Rightarrow> dyn_string dynamic_buffer" where
  "ds_dyn_v2 cap = \<lparr>dyn_size = ds_size, dyn_max_size = ds_max_size, dyn_capacity = ds_capacity cap,
     dyn_data = (\<lambda>b. ds_data_at 0 (ds_size b) b), dyn_room = ds_grow, dyn_keep = ds_read_v2\<rparr>"

definition sb_dyn :: "(bytes \<Rightarrow> nat) \<Rightarrow> streambuf dynamic_buffer" where
  "sb_dyn cap = \<lparr>dyn_size = sb_size, dyn_max_size = sb_max_size, dyn_capacity = (\<lambda>b. cap (sb_buffer b)), dyn_data = sb_data,
     dyn_room = sb_prepare, dyn_keep = sb_read\<rparr>"

text \<open>The overloads: a search for each, on a buffer of the first interface (any of them) or of the second.\<close>

definition read_until_char :: "'b dynamic_buffer \<Rightarrow> u8 \<Rightarrow> (nat \<Rightarrow> 's \<Rightarrow> bytes \<times> int \<times> 's) \<Rightarrow> 'b \<Rightarrow> 's \<Rightarrow> (nat \<times> int \<times> 'b \<times> 's) option option" where
  "read_until_char d delim rs b s = read_until d (search_char delim) rs 0 b s"

definition async_read_until_char ::
  "'b dynamic_buffer \<Rightarrow> u8 \<Rightarrow> (nat \<Rightarrow> 's \<Rightarrow> bytes \<times> int \<times> 's) \<Rightarrow> ('s \<Rightarrow> bool) \<Rightarrow> 'b \<Rightarrow> 's \<Rightarrow> (nat \<times> int \<times> 'b \<times> 's) option option" where
  "async_read_until_char d delim rs cancelled b s = async_read_until d (search_char delim) rs cancelled b s"

definition read_until_char_v2 ::
  "(bytes \<Rightarrow> nat) \<Rightarrow> u8 \<Rightarrow> (nat \<Rightarrow> 's \<Rightarrow> bytes \<times> int \<times> 's) \<Rightarrow> dyn_string \<Rightarrow> 's \<Rightarrow> (nat \<times> int \<times> dyn_string \<times> 's) option option" where
  "read_until_char_v2 cap delim rs b s = read_until (ds_dyn_v2 cap) (search_char delim) rs 0 b s"

definition async_read_until_char_v2 ::
  "(bytes \<Rightarrow> nat) \<Rightarrow> u8 \<Rightarrow> (nat \<Rightarrow> 's \<Rightarrow> bytes \<times> int \<times> 's) \<Rightarrow> ('s \<Rightarrow> bool) \<Rightarrow> dyn_string \<Rightarrow> 's \<Rightarrow> (nat \<times> int \<times> dyn_string \<times> 's) option option" where
  "async_read_until_char_v2 cap delim rs cancelled b s = async_read_until (ds_dyn_v2 cap) (search_char delim) rs cancelled b s"

definition read_until_string :: "'b dynamic_buffer \<Rightarrow> bytes \<Rightarrow> (nat \<Rightarrow> 's \<Rightarrow> bytes \<times> int \<times> 's) \<Rightarrow> 'b \<Rightarrow> 's \<Rightarrow> (nat \<times> int \<times> 'b \<times> 's) option option" where
  "read_until_string d delim rs b s = read_until d (search_string delim) rs 0 b s"

definition async_read_until_string ::
  "'b dynamic_buffer \<Rightarrow> bytes \<Rightarrow> (nat \<Rightarrow> 's \<Rightarrow> bytes \<times> int \<times> 's) \<Rightarrow> ('s \<Rightarrow> bool) \<Rightarrow> 'b \<Rightarrow> 's \<Rightarrow> (nat \<times> int \<times> 'b \<times> 's) option option" where
  "async_read_until_string d delim rs cancelled b s = async_read_until d (search_string delim) rs cancelled b s"

definition read_until_string_v2 ::
  "(bytes \<Rightarrow> nat) \<Rightarrow> bytes \<Rightarrow> (nat \<Rightarrow> 's \<Rightarrow> bytes \<times> int \<times> 's) \<Rightarrow> dyn_string \<Rightarrow> 's \<Rightarrow> (nat \<times> int \<times> dyn_string \<times> 's) option option" where
  "read_until_string_v2 cap delim rs b s = read_until (ds_dyn_v2 cap) (search_string delim) rs 0 b s"

definition async_read_until_string_v2 ::
  "(bytes \<Rightarrow> nat) \<Rightarrow> bytes \<Rightarrow> (nat \<Rightarrow> 's \<Rightarrow> bytes \<times> int \<times> 's) \<Rightarrow> ('s \<Rightarrow> bool) \<Rightarrow> dyn_string \<Rightarrow> 's \<Rightarrow> (nat \<times> int \<times> dyn_string \<times> 's) option option" where
  "async_read_until_string_v2 cap delim rs cancelled b s = async_read_until (ds_dyn_v2 cap) (search_string delim) rs cancelled b s"

definition read_until_expr :: "'b dynamic_buffer \<Rightarrow> (bytes \<Rightarrow> (nat \<times> nat \<times> bool) option) \<Rightarrow> (nat \<Rightarrow> 's \<Rightarrow> bytes \<times> int \<times> 's) \<Rightarrow> 'b \<Rightarrow> 's \<Rightarrow> (nat \<times> int \<times> 'b \<times> 's) option option" where
  "read_until_expr d regex_search rs b s = read_until d (search_expr regex_search) rs 0 b s"

definition async_read_until_expr ::
  "'b dynamic_buffer \<Rightarrow> (bytes \<Rightarrow> (nat \<times> nat \<times> bool) option) \<Rightarrow> (nat \<Rightarrow> 's \<Rightarrow> bytes \<times> int \<times> 's) \<Rightarrow> ('s \<Rightarrow> bool) \<Rightarrow> 'b \<Rightarrow> 's \<Rightarrow> (nat \<times> int \<times> 'b \<times> 's) option option" where
  "async_read_until_expr d regex_search rs cancelled b s = async_read_until d (search_expr regex_search) rs cancelled b s"

definition read_until_expr_v2 ::
  "(bytes \<Rightarrow> nat) \<Rightarrow> (bytes \<Rightarrow> (nat \<times> nat \<times> bool) option) \<Rightarrow> (nat \<Rightarrow> 's \<Rightarrow> bytes \<times> int \<times> 's) \<Rightarrow> dyn_string \<Rightarrow> 's \<Rightarrow> (nat \<times> int \<times> dyn_string \<times> 's) option option" where
  "read_until_expr_v2 cap regex_search rs b s = read_until (ds_dyn_v2 cap) (search_expr regex_search) rs 0 b s"

definition async_read_until_expr_v2 ::
  "(bytes \<Rightarrow> nat) \<Rightarrow> (bytes \<Rightarrow> (nat \<times> nat \<times> bool) option) \<Rightarrow> (nat \<Rightarrow> 's \<Rightarrow> bytes \<times> int \<times> 's) \<Rightarrow> ('s \<Rightarrow> bool) \<Rightarrow> dyn_string \<Rightarrow> 's \<Rightarrow> (nat \<times> int \<times> dyn_string \<times> 's) option option" where
  "async_read_until_expr_v2 cap regex_search rs cancelled b s = async_read_until (ds_dyn_v2 cap) (search_expr regex_search) rs cancelled b s"

definition read_until_condition :: "'b dynamic_buffer \<Rightarrow> (bytes \<Rightarrow> nat \<times> bool) \<Rightarrow> (nat \<Rightarrow> 's \<Rightarrow> bytes \<times> int \<times> 's) \<Rightarrow> 'b \<Rightarrow> 's \<Rightarrow> (nat \<times> int \<times> 'b \<times> 's) option option" where
  "read_until_condition d match_condition rs b s = read_until d (search_condition match_condition) rs 0 b s"

definition async_read_until_condition ::
  "'b dynamic_buffer \<Rightarrow> (bytes \<Rightarrow> nat \<times> bool) \<Rightarrow> (nat \<Rightarrow> 's \<Rightarrow> bytes \<times> int \<times> 's) \<Rightarrow> ('s \<Rightarrow> bool) \<Rightarrow> 'b \<Rightarrow> 's \<Rightarrow> (nat \<times> int \<times> 'b \<times> 's) option option" where
  "async_read_until_condition d match_condition rs cancelled b s = async_read_until d (search_condition match_condition) rs cancelled b s"

definition read_until_condition_v2 ::
  "(bytes \<Rightarrow> nat) \<Rightarrow> (bytes \<Rightarrow> nat \<times> bool) \<Rightarrow> (nat \<Rightarrow> 's \<Rightarrow> bytes \<times> int \<times> 's) \<Rightarrow> dyn_string \<Rightarrow> 's \<Rightarrow> (nat \<times> int \<times> dyn_string \<times> 's) option option" where
  "read_until_condition_v2 cap match_condition rs b s = read_until (ds_dyn_v2 cap) (search_condition match_condition) rs 0 b s"

definition async_read_until_condition_v2 ::
  "(bytes \<Rightarrow> nat) \<Rightarrow> (bytes \<Rightarrow> nat \<times> bool) \<Rightarrow> (nat \<Rightarrow> 's \<Rightarrow> bytes \<times> int \<times> 's) \<Rightarrow> ('s \<Rightarrow> bool) \<Rightarrow> dyn_string \<Rightarrow> 's \<Rightarrow> (nat \<times> int \<times> dyn_string \<times> 's) option option" where
  "async_read_until_condition_v2 cap match_condition rs cancelled b s = async_read_until (ds_dyn_v2 cap) (search_condition match_condition) rs cancelled b s"

lemma async_until_matches:
  assumes "sb_inv b" "sb_max_size b < no_position" "reads_within rs" "reads_progress rs"
    and "search_string delim 0 (sb_data b) = Search_from q" "sb_size b \<noteq> sb_max_size b"
  shows "shown sb_data (async_read_until_string (sb_dyn cap) delim rs (\<lambda>s. False) b s) =
    shown sb_data (read_until_string (sb_dyn cap) delim rs b s)"
proof -
  have "bytes_to_read (sb_dyn cap) b \<noteq> 0"
    using assms(1,6) stream_buffer.within_max [OF assms(1)] sb_sizes [OF assms(1)] by (simp add: bytes_to_read_def sb_dyn_def)
  then have "until_start (sb_dyn cap) (search_string delim) b = until_continue (sb_dyn cap) (search_string delim) False 0 0 b"
    using assms(5,6) by (simp add: until_start_def until_continue_def until_search_def sb_dyn_def)
  then show ?thesis
    using stream_buffer.async_step [OF assms(1,3,4) search_within_string [of delim], where p = 0 and s = s and cap = "\<lambda>b. cap (sb_buffer b)"] assms(2)
    by (simp only: async_read_until_string_def read_until_string_def async_read_until_def sb_dyn_def)
qed

section \<open>Properties\<close>

text \<open>C28. \<open>read_until\<close> with a string finds the first occurrence. When it returns without an error, the buffer holds
  what it held before and after that what the stream delivered, and the result is the end of the first place in these
  bytes at which the delimiter occurs, however the delimiter was cut by the reads.\<close>

theorem read_until_first_occurrence:
  assumes "sb_inv b" "reads_within rs"
    and "read_until_string (sb_dyn cap) delim rs b s = Some (Some (n, 0, b', s'))"
  shows "\<exists>bs i. sb_data b' = sb_data b @ bs \<and> n = i + length delim \<and> prefix delim (drop i (sb_data b')) \<and>
    (\<forall>j<i. \<not> prefix delim (drop j (sb_data b')))"
proof -
  have "delivered_until sb_inv sb_data (search_string delim) b (n, 0, b', s')"
    using stream_buffer.until_delivered [OF assms(3) [unfolded read_until_string_def] sb_dyn_def assms(2) resumable_string assms(1)] by simp
  then show ?thesis using search_string_first [of delim "sb_data b'" n] by (auto simp: delivered_until_def)
qed

text \<open>\<open>read_until\<close> returns. On a growing string, whatever the match condition asks for, a stream that delivers something or
  reports an error makes the loop end without an exception: every pass makes the contents longer, up to the maximum.\<close>

theorem read_until_ends:
  assumes "ds_inv2 b" "reads_within rs" "reads_progress rs"
  shows "\<exists>r. read_until_condition_v2 cap match_condition rs b s = Some (Some r)"
  using string_v2.until_returns [OF assms] by (simp only: read_until_condition_v2_def ds_dyn_v2_def)

text \<open>A read of no bytes without an error ends \<open>async_read_until\<close> with success although nothing was found:
  the handler gets no error and the number of bytes searched so far.\<close>

theorem async_until_empty_read:
  assumes "ds_inv b" "search_char delim 0 (ds_data b) = Search_from q" "length (ds_string b) < ds_max_size b" "ds_max_size b < no_position"
    and "rs (bytes_to_read (ds_dyn_v1 cap) b) s = ([], 0, s')"
  shows "shown ds_data (async_read_until_char (ds_dyn_v1 cap) delim rs cancelled b s) =
    Some (Some (length (ds_data b), 0, ds_data b, s'))"
proof -
  let ?n = "bytes_to_read (ds_dyn_v1 cap) b"
  have data: "ds_data b = ds_string b" "ds_size b = length (ds_string b)"
    using string_v1.data_contents [OF assms(1)] string_v1.size_contents [OF assms(1)] by simp_all
  have q: "q = length (ds_data b)" using assms(2) by (auto simp: search_char_def Let_def split: if_splits)
  have n: "0 < ?n" "?n \<le> ds_max_size b - length (ds_string b)" using data assms(3) by (simp_all add: bytes_to_read_def ds_dyn_v1_def)
  from string_v1.prepare_commit [OF assms(1) n(2)] obtain b1 where b1: "ds_prepare ?n b = Some b1" "\<forall>bs. length bs \<le> ?n \<longrightarrow>
      (\<exists>b2. ds_read_v1 ?n bs b1 = Some b2 \<and> ds_inv b2 \<and> ds_string b2 = ds_string b @ bs \<and> ds_max_size b2 = ds_max_size b)" by blast
  obtain b2 where b2: "ds_read_v1 ?n [] b1 = Some b2" "ds_inv b2" "ds_string b2 = ds_string b" using b1(2) [rule_format, of "[]"] by auto
  have "ds_size b \<noteq> ds_max_size b" using data assms(3) by simp
  then have "until_start (ds_dyn_v1 cap) (search_char delim) b = Some (Reading ?n q b1)"
    using assms(2) b1(1) by (simp add: until_start_def until_continue_def until_search_def) (simp add: ds_dyn_v1_def)
  moreover have "until_resume (ds_dyn_v1 cap) (search_char delim) 0 [] c ?n q b1 = Some (Complete 0 q b2)" for c
    using b2(1) assms(3,4) q data by (simp add: until_resume_def) (simp add: ds_dyn_v1_def until_finish_def)
  moreover have "ds_data b2 = ds_data b" using string_v1.data_contents [OF b2(2)] b2(3) data by simp
  ultimately show ?thesis using assms(5) q by (simp add: async_read_until_char_def async_read_until_def until_run_simps shown_def)
qed

text \<open>A stream given as the chunks it will deliver, and the end of file after them.\<close>

definition chunks :: "nat \<Rightarrow> bytes list \<Rightarrow> bytes \<times> int \<times> bytes list" where
  "chunks n s = (case s of [] \<Rightarrow> ([], -2, []) | c # cs \<Rightarrow> if c = [] then ([], -2, cs) else (take n c, 0, cs))"

lemma chunks_facts: "reads_within chunks" "reads_progress chunks"
  by (auto simp: reads_within_def reads_progress_def chunks_def split: list.splits)

lemma read_until_pass:
  assumes "search p (dyn_data d b) = Search_from q" "dyn_size d b \<noteq> dyn_max_size d b" "bytes_to_read d b = n"
    and "dyn_room d n b = Some b1" "rs n s = (bs, 0, s')" "dyn_keep d n bs b1 = Some b2"
  shows "read_until d search rs p b s = read_until d search rs q b2 s'"
  by (subst read_until.simps) (simp add: assms)

lemma read_until_found: "search p (dyn_data d b) = Found n \<Longrightarrow> read_until d search rs p b s = Some (Some (n, 0, b, s))"
  by (subst read_until.simps) simp

text \<open>A buffer of six bytes after the first and after the second chunk.\<close>

definition line_buffer :: "bytes \<Rightarrow> nat \<Rightarrow> streambuf" where
  "line_buffer data n = \<lparr>sb_buffer = data, sb_gptr = 0, sb_egptr = n, sb_pptr = n, sb_epptr = 6, sb_max_size = 6\<rparr>"

lemma read_until_first_occurrence_witness:
  "prefix [13, 10] (drop 1 (sb_data (line_buffer [97, 13, 10, 98, 0, 0] 4)))"
proof -
  let ?read = "read_until (sb_dyn length) (search_string [13, 10]) chunks"
  let ?b0 = "line_buffer [0, 0, 0, 0, 0, 0] 0" and ?b1 = "line_buffer [97, 13, 0, 0, 0, 0] 2" and ?b2 = "line_buffer [97, 13, 10, 98, 0, 0] 4"
  have n: "bytes_to_read (sb_dyn length) ?b0 = 6" "bytes_to_read (sb_dyn length) ?b1 = 4"
    by (simp_all add: bytes_to_read_def sb_dyn_def sb_size_def line_buffer_def)
  have "?read 0 ?b0 [[97, 13], [10, 98], [99]] = ?read 0 ?b1 [[10, 98], [99]]"
    by (rule read_until_pass [OF _ _ n(1), where bs = "[97, 13]" and ?b1.0 = ?b0]; code_simp)
  also have "\<dots> = ?read 1 ?b2 [[99]]"
    by (rule read_until_pass [OF _ _ n(2), where bs = "[10, 98]" and ?b1.0 = ?b1]; code_simp)
  also have "\<dots> = Some (Some (3, 0, ?b2, [[99]]))"
    by (rule read_until_found) code_simp
  finally have r: "?read 0 ?b0 [[97, 13], [10, 98], [99]] = Some (Some (3, 0, ?b2, [[99]]))" .
  have "sb_inv ?b0" by code_simp
  from read_until_first_occurrence [OF this chunks_facts(1) r [folded read_until_string_def]] obtain i where
    "3 = i + length [13, 10 :: u8]" "prefix [13, 10] (drop i (sb_data ?b2))" by blast
  then show ?thesis by simp
qed

lemma read_until_ends_witness:
  "\<exists>r. read_until_condition_v2 length (\<lambda>bs. (min 3 (length bs), 3 \<le> length bs)) chunks (ds_new [97] 5) [[13], [98]] = Some (Some r)"
proof -
  have "ds_inv2 (ds_new [97] 5)" by code_simp
  then show ?thesis using chunks_facts by (rule read_until_ends)
qed

text \<open>A stream whose first read completes with nothing, as a datagram of no bytes does.\<close>

definition idle :: "nat \<Rightarrow> nat \<Rightarrow> bytes \<times> int \<times> nat" where
  "idle n s = ([], 0, s + 1)"

lemma async_until_empty_read_witness:
  "shown ds_data (async_read_until_char (ds_dyn_v1 length) 10 idle (\<lambda>s. False) (ds_new [97, 98] 5) 0) =
    Some (Some (2, 0, [97, 98], 1))"
proof -
  have "ds_inv (ds_new [97, 98] 5)" "search_char 10 0 (ds_data (ds_new [97, 98] 5)) = Search_from 2"
    "length (ds_string (ds_new [97, 98] 5)) < ds_max_size (ds_new [97, 98] 5)" "ds_data (ds_new [97, 98] 5) = [97, 98]" by code_simp+
  moreover have "ds_max_size (ds_new [97, 98] 5) < no_position" by (simp add: ds_new_def)
  moreover have "idle n 0 = ([], 0, 1)" for n by (simp add: idle_def)
  ultimately show ?thesis using async_until_empty_read [of "ds_new [97, 98] 5" 10 2 idle length 0 1 "\<lambda>s. False"] by simp
qed
end
