(* ===== verification/AsioBuffers.thy ===== *)
theory AsioBuffers
  imports Protocol
begin

text \<open>
  Buffers of the vendored Asio: \<^verbatim>\<open>include/asio/buffer.hpp\<close> (buffers as address and size, buffer sequences,
  \<open>buffer_copy\<close>), \<^verbatim>\<open>detail/consuming_buffers.hpp\<close> and \<^verbatim>\<open>completion_condition.hpp\<close>. Memory is a
  function from addresses to bytes; sizes are natural numbers, since every buffer lies in memory. A sequence of buffers
  is read as the list of the addresses it covers. The locale \<open>consumer\<close> states what the composed operations rely on of
  \<open>consuming_buffers\<close>; the general template and both specialisations provide it.
\<close>

section \<open>Memory\<close>

type_synonym memory = "nat \<Rightarrow> u8"

fun store :: "nat list \<Rightarrow> bytes \<Rightarrow> memory \<Rightarrow> memory" where
  "store (a # as) (b # bs) m = store as bs (m(a := b))"
| "store _ _ m = m"

lemma store_Nil [simp]: "store as [] m = m"
  by (cases as) simp_all

lemma store_append: "length as = length bs \<Longrightarrow> store (as @ as') (bs @ bs') m = store as' bs' (store as bs m)"
  by (induction as bs m rule: store.induct) simp_all

lemma store_other: "a \<notin> set as \<Longrightarrow> store as bs m a = m a"
  by (induction as bs m rule: store.induct) auto

lemma store_map_other: "set as' \<inter> set as = {} \<Longrightarrow> map (store as bs m) as' = map m as'"
  by (auto intro!: map_cong store_other)

lemma store_same: "distinct as \<Longrightarrow> length bs = length as \<Longrightarrow> map (store as bs m) as = bs"
  by (induction as bs m rule: store.induct) (auto simp: store_other)

section \<open>Buffers\<close>

datatype buf = Buf (buf_data: nat) (buf_size: nat)

definition buf_add :: "buf \<Rightarrow> nat \<Rightarrow> buf" where
  "buf_add b n = (let offset = (if n < buf_size b then n else buf_size b) in Buf (buf_data b + offset) (buf_size b - offset))"

text \<open>\<open>buffer(b, max_size_in_bytes)\<close>.\<close>

definition buf_limit :: "buf \<Rightarrow> nat \<Rightarrow> buf" where
  "buf_limit b max_size = Buf (buf_data b) (if buf_size b < max_size then buf_size b else max_size)"

definition buffer_size :: "buf list \<Rightarrow> nat" where
  "buffer_size bs = sum_list (map buf_size bs)"

definition addrs :: "buf \<Rightarrow> nat list" where
  "addrs b = [buf_data b ..< buf_data b + buf_size b]"

definition seq_addrs :: "buf list \<Rightarrow> nat list" where
  "seq_addrs bs = concat (map addrs bs)"

lemma addrs_ops [simp]:
  "length (addrs b) = buf_size b" "addrs (buf_add b n) = drop n (addrs b)" "addrs (buf_limit b n) = take n (addrs b)"
  by (auto simp: addrs_def buf_add_def buf_limit_def Let_def take_upt min_def)

lemma buf_sizes [simp]:
  "buf_size (buf_add b n) = buf_size b - n" "buf_size (buf_limit b n) = min (buf_size b) n"
  by (auto simp: buf_add_def buf_limit_def Let_def)

lemma seq_addrs_simps [simp]: "seq_addrs [] = []" "seq_addrs (b # bs) = addrs b @ seq_addrs bs"
  by (simp_all add: seq_addrs_def)

lemma length_seq_addrs [simp]: "length (seq_addrs bs) = buffer_size bs"
  by (induction bs) (simp_all add: buffer_size_def)

lemma buffer_size_simps [simp]: "buffer_size [] = 0" "buffer_size (b # bs) = buf_size b + buffer_size bs"
  by (simp_all add: buffer_size_def)

lemma addrs_empty: "addrs b = [] \<longleftrightarrow> buf_size b = 0"
  by (auto simp: addrs_def)

section \<open>Copying\<close>

text \<open>\<open>memcpy\<close> on regions that do not overlap.\<close>

definition buffer_copy_1 :: "buf \<Rightarrow> buf \<Rightarrow> memory \<Rightarrow> nat \<times> memory" where
  "buffer_copy_1 target source m =
     (let target_size = buf_size target; source_size = buf_size source;
          n = (if target_size < source_size then target_size else source_size)
      in (n, if n > 0 then store (take n (addrs target)) (map m (take n (addrs source))) m else m))"

lemma buffer_copy_1_n: "(n, m') = buffer_copy_1 t s m \<Longrightarrow> n = min (buf_size t) (buf_size s)"
  by (simp add: buffer_copy_1_def Let_def min_def)

fun copy_one_many :: "buf \<Rightarrow> buf list \<Rightarrow> memory \<Rightarrow> nat \<times> memory" where
  "copy_one_many target [] m = (0, m)"
| "copy_one_many target (source # sources) m =
     (if buf_size target = 0 then (0, m)
      else let (n, m) = buffer_copy_1 target source m; (total, m) = copy_one_many (buf_add target n) sources m
           in (n + total, m))"

fun copy_many_one :: "buf list \<Rightarrow> buf \<Rightarrow> memory \<Rightarrow> nat \<times> memory" where
  "copy_many_one [] source m = (0, m)"
| "copy_many_one (target # targets) source m =
     (if buf_size source = 0 then (0, m)
      else let (n, m) = buffer_copy_1 target source m; (total, m) = copy_many_one targets (buf_add source n) m
           in (n + total, m))"

text \<open>The loops over two sequences, each with the offset into its first buffer; \<open>room\<close> is
  \<open>max_bytes_to_copy - total_bytes_copied\<close>.\<close>

function copy_many :: "buf list \<Rightarrow> nat \<Rightarrow> buf list \<Rightarrow> nat \<Rightarrow> memory \<Rightarrow> nat \<times> memory" where
  "copy_many (t # ts) toff (s # ss) soff m =
     (let target = buf_add t toff; source = buf_add s soff;
          (n, m) = buffer_copy_1 target source m;
          t_done = (n = buf_size target); s_done = (n = buf_size source);
          (total, m) = copy_many (if t_done then ts else t # ts) (if t_done then 0 else toff + n)
             (if s_done then ss else s # ss) (if s_done then 0 else soff + n) m
      in (n + total, m))"
| "copy_many [] toff ss soff m = (0, m)"
| "copy_many ts toff [] soff m = (0, m)"
  by pat_completeness auto
termination
  by (relation "measure (\<lambda>(ts, toff, ss, soff, m). length ts + length ss)") (auto dest!: buffer_copy_1_n)

function copy_many_max :: "nat \<Rightarrow> buf list \<Rightarrow> nat \<Rightarrow> buf list \<Rightarrow> nat \<Rightarrow> memory \<Rightarrow> nat \<times> memory" where
  "copy_many_max room (t # ts) toff (s # ss) soff m =
     (if room = 0 then (0, m)
      else let target = buf_add t toff; source = buf_add s soff;
               (n, m) = buffer_copy_1 target (buf_limit source room) m;
               t_done = (n = buf_size target); s_done = (n = buf_size source);
               (total, m) = copy_many_max (room - n) (if t_done then ts else t # ts) (if t_done then 0 else toff + n)
                  (if s_done then ss else s # ss) (if s_done then 0 else soff + n) m
           in (n + total, m))"
| "copy_many_max room [] toff ss soff m = (0, m)"
| "copy_many_max room ts toff [] soff m = (0, m)"
  by pat_completeness auto
termination
  by (relation "measure (\<lambda>(room, ts, toff, ss, soff, m). length ts + length ss + room)")
    (auto dest!: buffer_copy_1_n simp: min_def less_Suc_eq_le split: if_splits)

text \<open>What a copy amounts to.\<close>

definition flat_copy :: "nat \<Rightarrow> nat list \<Rightarrow> nat list \<Rightarrow> memory \<Rightarrow> nat \<times> memory" where
  "flat_copy room as bs m = (let n = min room (min (length as) (length bs)) in (n, store (take n as) (map m (take n bs)) m))"

lemma copy_1_flat: "buffer_copy_1 t (buf_limit s room) m = flat_copy room (addrs t) (addrs s) m"
proof -
  have n: "(if buf_size t < min (buf_size s) room then buf_size t else min (buf_size s) room) = min room (min (buf_size t) (buf_size s))" by (simp add: min_def)
  let ?n = "min room (min (buf_size t) (buf_size s))"
  have "take ?n (take room (addrs s)) = take ?n (addrs s)" by (simp only: take_take) (simp add: min_def)
  then show ?thesis by (cases "?n = 0") (simp_all only: buffer_copy_1_def flat_copy_def Let_def n buf_sizes addrs_ops, simp_all)
qed

lemma flat_copy_step:
  assumes "set as \<inter> set bs = {}" "n \<le> room" "n \<le> length as" "n \<le> length bs" "m' = store (take n as) (map m (take n bs)) m"
  shows "flat_copy room as bs m = (case flat_copy (room - n) (drop n as) (drop n bs) m' of (k, m'') \<Rightarrow> (n + k, m''))"
proof -
  let ?k = "min (room - n) (min (length as - n) (length bs - n))"
  have k: "min room (min (length as) (length bs)) = n + ?k" using assms(2-4) by linarith
  have "set (take ?k (drop n bs)) \<inter> set (take n as) = {}"
    using assms(1) set_take_subset [of n as] set_take_subset [of ?k "drop n bs"] set_drop_subset [of n bs] by blast
  then have e: "map m' (take ?k (drop n bs)) = map m (take ?k (drop n bs))" unfolding assms(5) by (rule store_map_other)
  have "length (take n as) = length (map m (take n bs))" using assms(3,4) by simp
  from store_append [OF this, of "take ?k (drop n as)" "map m (take ?k (drop n bs))" m]
  have "store (take (n + ?k) as) (map m (take (n + ?k) bs)) m = store (take ?k (drop n as)) (map m' (take ?k (drop n bs))) m'"
    by (simp only: e assms(5) [symmetric] take_add map_append)
  then show ?thesis unfolding flat_copy_def Let_def k length_drop by simp
qed

lemma head_offset:
  assumes "toff \<le> buf_size t" "n \<le> buf_size (buf_add t toff)"
  shows "drop n (drop toff (seq_addrs (t # ts))) =
      drop (if n = buf_size (buf_add t toff) then 0 else toff + n) (seq_addrs (if n = buf_size (buf_add t toff) then ts else t # ts))"
    "take n (drop toff (seq_addrs (t # ts))) = take n (addrs (buf_add t toff))"
    "length (drop toff (seq_addrs (t # ts))) \<ge> n"
  using assms by (auto simp: add.commute)

lemma copy_many_max_flat:
  assumes "toff \<le> buf_size (hd ts) \<or> ts = []" "soff \<le> buf_size (hd ss) \<or> ss = []"
    "set (drop toff (seq_addrs ts)) \<inter> set (drop soff (seq_addrs ss)) = {}"
  shows "copy_many_max room ts toff ss soff m = flat_copy room (drop toff (seq_addrs ts)) (drop soff (seq_addrs ss)) m"
  using assms
proof (induction room ts toff ss soff m rule: copy_many_max.induct)
  case (1 room t ts toff s ss soff m)
  let ?t = "buf_add t toff" and ?s = "buf_add s soff"
  let ?as = "drop toff (seq_addrs (t # ts))" and ?bs = "drop soff (seq_addrs (s # ss))"
  obtain n m' where c: "buffer_copy_1 ?t (buf_limit ?s room) m = (n, m')" by fastforce
  have n: "n = min (buf_size ?t) (min (buf_size ?s) room)" using buffer_copy_1_n [OF c [symmetric]] by simp
  then have n': "n \<le> buf_size ?t" "n \<le> buf_size ?s" "n \<le> room" by simp_all
  have o: "toff \<le> buf_size t" "soff \<le> buf_size s" using 1(2,3) by simp_all
  note ht = head_offset [OF o(1) n'(1), of ts] and hs = head_offset [OF o(2) n'(2), of ss]
  have m': "m' = store (take n ?as) (map m (take n ?bs)) m"
    unfolding ht(2) hs(2) using c n by (cases "n = 0") (auto simp: copy_1_flat flat_copy_def Let_def min.commute min.left_commute)
  show ?case
  proof (cases "room = 0")
    case True
    then show ?thesis by (simp add: flat_copy_def)
  next
    case False
    have sub: "set (drop n ?as) \<inter> set (drop n ?bs) = {}"
      using 1(4) set_drop_subset [of n ?as] set_drop_subset [of n ?bs] by blast
    have "copy_many_max room (t # ts) toff (s # ss) soff m =
        (case copy_many_max (room - n) (if n = buf_size ?t then ts else t # ts) (if n = buf_size ?t then 0 else toff + n)
           (if n = buf_size ?s then ss else s # ss) (if n = buf_size ?s then 0 else soff + n) m' of (k, m'') \<Rightarrow> (n + k, m''))"
      by (subst copy_many_max.simps(1)) (simp only: False c Let_def prod.case if_False)
    also have "\<dots> = (case flat_copy (room - n) (drop n ?as) (drop n ?bs) m' of (k, m'') \<Rightarrow> (n + k, m''))"
    proof -
      have "copy_many_max (room - n) (if n = buf_size ?t then ts else t # ts) (if n = buf_size ?t then 0 else toff + n)
           (if n = buf_size ?s then ss else s # ss) (if n = buf_size ?s then 0 else soff + n) m' =
         flat_copy (room - n) (drop n ?as) (drop n ?bs) m'"
        unfolding ht(1) hs(1)
        by (rule "1.IH" [OF False refl refl c [symmetric] refl refl refl _ _ sub [unfolded ht(1) hs(1)]])
          (use n' o in auto)
      then show ?thesis by (simp only:)
    qed
    also have "\<dots> = flat_copy room ?as ?bs m"
      using flat_copy_step [OF 1(4) n'(3) ht(3) hs(3) m'] by simp
    finally show ?thesis .
  qed
qed (simp_all add: flat_copy_def)

lemma copy_1_limit: "buf_size t \<le> room \<Longrightarrow> buffer_copy_1 t (buf_limit s room) m = buffer_copy_1 t s m"
  by (auto simp: buffer_copy_1_def Let_def min_def)

lemma copy_many_max_unlimited:
  assumes "toff \<le> buf_size (hd ts) \<or> ts = []" "length (drop toff (seq_addrs ts)) < room"
  shows "copy_many ts toff ss soff m = copy_many_max room ts toff ss soff m"
  using assms
proof (induction ts toff ss soff m arbitrary: room rule: copy_many.induct)
  case (1 t ts toff s ss soff m)
  let ?t = "buf_add t toff" and ?s = "buf_add s soff"
  obtain n m' where c: "buffer_copy_1 ?t ?s m = (n, m')" by fastforce
  have n: "n \<le> buf_size ?t" using buffer_copy_1_n [OF c [symmetric]] by simp
  have o: "toff \<le> buf_size t" using 1(2) by simp
  have r: "buf_size ?t \<le> room" "room \<noteq> 0" using 1(3) by auto
  note ht = head_offset [OF o n, of ts]
  have "length (drop n (drop toff (seq_addrs (t # ts)))) < room - n" using 1(3) n by simp
  then have IH: "copy_many (if n = buf_size ?t then ts else t # ts) (if n = buf_size ?t then 0 else toff + n)
        (if n = buf_size ?s then ss else s # ss) (if n = buf_size ?s then 0 else soff + n) m' =
      copy_many_max (room - n) (if n = buf_size ?t then ts else t # ts) (if n = buf_size ?t then 0 else toff + n)
        (if n = buf_size ?s then ss else s # ss) (if n = buf_size ?s then 0 else soff + n) m'"
    unfolding ht(1) using n o by (intro "1.IH" [OF refl refl c [symmetric] refl refl refl]) auto
  show ?case
    unfolding copy_many.simps(1) copy_many_max.simps(1) using IH r(2)
    by (simp only: copy_1_limit [OF r(1)] c Let_def prod.case if_False)
qed simp_all

lemma copy_many_flat:
  assumes "set (seq_addrs ts) \<inter> set (seq_addrs ss) = {}"
  shows "copy_many ts 0 ss 0 m = flat_copy (length (seq_addrs ts)) (seq_addrs ts) (seq_addrs ss) m"
proof -
  have "copy_many ts 0 ss 0 m = copy_many_max (Suc (length (seq_addrs ts))) ts 0 ss 0 m"
    by (rule copy_many_max_unlimited) simp_all
  also have "\<dots> = flat_copy (Suc (length (seq_addrs ts))) (seq_addrs ts) (seq_addrs ss) m"
    using copy_many_max_flat [of 0 ts 0 ss] assms by simp
  finally show ?thesis by (simp add: flat_copy_def min_def)
qed

text \<open>The copies with one buffer on either side.\<close>

lemma copy_1_flat_step:
  assumes "buffer_copy_1 t s m = (n, m')"
  shows "n = min (buf_size t) (buf_size s)" "m' = store (take n (addrs t)) (map m (take n (addrs s))) m"
  using assms by (auto simp: buffer_copy_1_def Let_def min_def split: if_splits)

lemma copy_one_many_flat:
  "set (addrs t) \<inter> set (seq_addrs ss) = {} \<Longrightarrow>
     copy_one_many t ss m = flat_copy (buf_size t) (addrs t) (seq_addrs ss) m"
proof (induction t ss m rule: copy_one_many.induct)
  case (2 t s ss m)
  obtain n m' where c: "buffer_copy_1 t s m = (n, m')" by fastforce
  note n = copy_1_flat_step [OF c]
  have IH: "buf_size t \<noteq> 0 \<Longrightarrow> copy_one_many (buf_add t n) ss m' = flat_copy (buf_size t - n) (drop n (addrs t)) (seq_addrs ss) m'"
    using 2(1) [OF _ c [symmetric] refl] 2(2) set_drop_subset [of n "addrs t"] by auto
  have "flat_copy (buf_size t) (addrs t) (seq_addrs (s # ss)) m =
      (case flat_copy (buf_size t - n) (drop n (addrs t)) (drop n (seq_addrs (s # ss))) m' of (k, m'') \<Rightarrow> (n + k, m''))"
    by (rule flat_copy_step) (use 2(2) n in auto)
  moreover have "flat_copy (buf_size t - n) (drop n (addrs t)) (drop n (seq_addrs (s # ss))) m' =
      flat_copy (buf_size t - n) (drop n (addrs t)) (seq_addrs ss) m'"
    using n(1) by (cases "buf_size s \<le> buf_size t") (auto simp: flat_copy_def Let_def)
  ultimately show ?case using IH c by (cases "buf_size t = 0") (simp_all add: flat_copy_def)
qed (simp add: flat_copy_def)

lemma copy_many_one_flat:
  "set (seq_addrs ts) \<inter> set (addrs s) = {} \<Longrightarrow>
     copy_many_one ts s m = flat_copy (buf_size s) (seq_addrs ts) (addrs s) m"
proof (induction ts s m rule: copy_many_one.induct)
  case (2 t ts s m)
  obtain n m' where c: "buffer_copy_1 t s m = (n, m')" by fastforce
  note n = copy_1_flat_step [OF c]
  have IH: "buf_size s \<noteq> 0 \<Longrightarrow> copy_many_one ts (buf_add s n) m' = flat_copy (buf_size s - n) (seq_addrs ts) (drop n (addrs s)) m'"
    using 2(1) [OF _ c [symmetric] refl] 2(2) set_drop_subset [of n "addrs s"] by auto
  have "flat_copy (buf_size s) (seq_addrs (t # ts)) (addrs s) m =
      (case flat_copy (buf_size s - n) (drop n (seq_addrs (t # ts))) (drop n (addrs s)) m' of (k, m'') \<Rightarrow> (n + k, m''))"
    by (rule flat_copy_step) (use 2(2) n in auto)
  moreover have "flat_copy (buf_size s - n) (drop n (seq_addrs (t # ts))) (drop n (addrs s)) m' =
      flat_copy (buf_size s - n) (seq_addrs ts) (drop n (addrs s)) m'"
    using n(1) by (cases "buf_size t \<le> buf_size s") (auto simp: flat_copy_def Let_def)
  ultimately show ?case using IH c by (cases "buf_size s = 0") (simp_all add: flat_copy_def)
qed (simp add: flat_copy_def)

text \<open>The overloads of \<open>buffer_copy\<close>: a sequence is one buffer, by its type, or several; with or without a limit.\<close>

datatype buffers = One buf | Many "buf list"

fun buffers_of :: "buffers \<Rightarrow> buf list" where
  "buffers_of (One b) = [b]"
| "buffers_of (Many bs) = bs"

fun buffer_copy :: "buffers \<Rightarrow> buffers \<Rightarrow> nat option \<Rightarrow> memory \<Rightarrow> nat \<times> memory" where
  "buffer_copy (One t) (One s) None m = buffer_copy_1 t s m"
| "buffer_copy (One t) (One s) (Some max_bytes) m = buffer_copy_1 t (buf_limit s max_bytes) m"
| "buffer_copy (One t) (Many ss) None m = copy_one_many t ss m"
| "buffer_copy (One t) (Many ss) (Some max_bytes) m = copy_one_many (buf_limit t max_bytes) ss m"
| "buffer_copy (Many ts) (One s) None m = copy_many_one ts s m"
| "buffer_copy (Many ts) (One s) (Some max_bytes) m = copy_many_one ts (buf_limit s max_bytes) m"
| "buffer_copy (Many ts) (Many ss) None m = copy_many ts 0 ss 0 m"
| "buffer_copy (Many ts) (Many ss) (Some max_bytes) m = copy_many_max max_bytes ts 0 ss 0 m"

lemma flat_copy_take:
  "flat_copy (min (length as) r) (take r as) bs m = flat_copy r as bs m"
  "flat_copy (min (length bs) r) as (take r bs) m = flat_copy r as bs m"
  by (simp_all add: flat_copy_def Let_def min.commute min.left_commute min.assoc)

lemma buffer_copy_flat:
  assumes "set (seq_addrs (buffers_of t)) \<inter> set (seq_addrs (buffers_of s)) = {}"
  shows "buffer_copy t s mx m =
    flat_copy (case mx of None \<Rightarrow> buffer_size (buffers_of t) | Some k \<Rightarrow> k) (seq_addrs (buffers_of t)) (seq_addrs (buffers_of s)) m"
proof (cases t; cases s; cases mx)
  fix t' s' assume "t = One t'" "s = One s'" "mx = None"
  then show ?thesis using copy_1_limit [of t' "buf_size t'" s' m] by (simp add: copy_1_flat)
next
  fix t' s' k assume "t = One t'" "s = One s'" "mx = Some k"
  then show ?thesis by (simp add: copy_1_flat)
next
  fix t' ss assume "t = One t'" "s = Many ss" "mx = None"
  then show ?thesis using assms by (simp add: copy_one_many_flat)
next
  fix t' ss k assume c: "t = One t'" "s = Many ss" "mx = Some k"
  have "set (addrs (buf_limit t' k)) \<inter> set (seq_addrs ss) = {}"
    using assms c set_take_subset [of k "addrs t'"] by auto
  then show ?thesis using c copy_one_many_flat flat_copy_take(1) [of "addrs t'" k] by simp
next
  fix ts s' assume c: "t = Many ts" "s = One s'" "mx = None"
  then show ?thesis using assms by (simp add: copy_many_one_flat) (simp add: flat_copy_def min.commute)
next
  fix ts s' k assume c: "t = Many ts" "s = One s'" "mx = Some k"
  have "set (seq_addrs ts) \<inter> set (addrs (buf_limit s' k)) = {}"
    using assms c set_take_subset [of k "addrs s'"] by auto
  then show ?thesis using c copy_many_one_flat flat_copy_take(2) [of "addrs s'" k] by simp
next
  fix ts ss assume "t = Many ts" "s = Many ss" "mx = None"
  then show ?thesis using assms by (simp add: copy_many_flat)
next
  fix ts ss k assume "t = Many ts" "s = Many ss" "mx = Some k"
  then show ?thesis using assms copy_many_max_flat [of 0 ts 0 ss] by simp
qed

section \<open>Consuming buffers\<close>

record consuming =
  cb_buffers :: "buf list"
  cb_total_size :: nat
  cb_total_consumed :: nat
  cb_next_elem :: nat
  cb_next_elem_offset :: nat

definition consuming_new :: "buf list \<Rightarrow> consuming" where
  "consuming_new bs = \<lparr>cb_buffers = bs, cb_total_size = buffer_size bs, cb_total_consumed = 0, cb_next_elem = 0, cb_next_elem_offset = 0\<rparr>"

definition cb_empty :: "consuming \<Rightarrow> bool" where
  "cb_empty c \<longleftrightarrow> cb_total_consumed c \<ge> cb_total_size c"

text \<open>The loop of \<open>prepare\<close>; \<open>room\<close> is \<open>max_buffers - count\<close>.\<close>

fun prepare_loop :: "nat \<Rightarrow> nat \<Rightarrow> nat \<Rightarrow> buf list \<Rightarrow> buf list" where
  "prepare_loop room max_size off [] = []"
| "prepare_loop room max_size off (b # bs) =
     (if max_size > 0 \<and> room > 0 then
        let p = buf_limit (buf_add b off) max_size
        in if buf_size p > 0 then p # prepare_loop (room - 1) (max_size - buf_size p) 0 bs
           else prepare_loop room (max_size - buf_size p) 0 bs
      else [])"

definition cb_prepare :: "nat \<Rightarrow> nat \<Rightarrow> consuming \<Rightarrow> buf list" where
  "cb_prepare max_buffers max_size c =
     prepare_loop max_buffers max_size (cb_next_elem_offset c) (drop (cb_next_elem c) (cb_buffers c))"

fun consume_loop :: "nat \<Rightarrow> nat \<Rightarrow> nat \<Rightarrow> buf list \<Rightarrow> nat \<times> nat" where
  "consume_loop size' elem off [] = (elem, off)"
| "consume_loop size' elem off (b # bs) =
     (if size' > 0 then
        let next_buf = buf_add b off
        in if size' < buf_size next_buf then (elem, off + size')
           else consume_loop (size' - buf_size next_buf) (elem + 1) 0 bs
      else (elem, off))"

definition cb_consume :: "nat \<Rightarrow> consuming \<Rightarrow> consuming" where
  "cb_consume n c =
     (let (elem, off) = consume_loop n (cb_next_elem c) (cb_next_elem_offset c) (drop (cb_next_elem c) (cb_buffers c))
      in c\<lparr>cb_total_consumed := cb_total_consumed c + n, cb_next_elem := elem, cb_next_elem_offset := off\<rparr>)"

text \<open>The specialisation for one buffer, and the one for an array of two.\<close>

record consuming_single =
  cs_buffer :: buf
  cs_total_consumed :: nat

definition single_new :: "buf \<Rightarrow> consuming_single" where
  "single_new b = \<lparr>cs_buffer = b, cs_total_consumed = 0\<rparr>"

definition cs_empty :: "consuming_single \<Rightarrow> bool" where
  "cs_empty c \<longleftrightarrow> cs_total_consumed c \<ge> buf_size (cs_buffer c)"

definition cs_prepare :: "nat \<Rightarrow> consuming_single \<Rightarrow> buf list" where
  "cs_prepare max_size c = [buf_limit (buf_add (cs_buffer c) (cs_total_consumed c)) max_size]"

definition cs_consume :: "nat \<Rightarrow> consuming_single \<Rightarrow> consuming_single" where
  "cs_consume n c = c\<lparr>cs_total_consumed := cs_total_consumed c + n\<rparr>"

record consuming_pair =
  cp_buffers :: "buf \<times> buf"
  cp_total_consumed :: nat

definition pair_new :: "buf \<times> buf \<Rightarrow> consuming_pair" where
  "pair_new bs = \<lparr>cp_buffers = bs, cp_total_consumed = 0\<rparr>"

definition cp_empty :: "consuming_pair \<Rightarrow> bool" where
  "cp_empty c \<longleftrightarrow> cp_total_consumed c \<ge> buf_size (fst (cp_buffers c)) + buf_size (snd (cp_buffers c))"

definition cp_prepare :: "nat \<Rightarrow> consuming_pair \<Rightarrow> buf list" where
  "cp_prepare max_size c =
     (let (b0, b1) = cp_buffers c; buffer0_size = buf_size b0;
          r0 = buf_limit (buf_add b0 (cp_total_consumed c)) max_size;
          r1 = buf_limit (buf_add b1 (if cp_total_consumed c < buffer0_size then 0 else cp_total_consumed c - buffer0_size))
                 (max_size - buf_size r0)
      in [r0, r1])"

definition cp_consume :: "nat \<Rightarrow> consuming_pair \<Rightarrow> consuming_pair" where
  "cp_consume n c = c\<lparr>cp_total_consumed := cp_total_consumed c + n\<rparr>"

section \<open>What the composed operations rely on\<close>

locale consumer =
  fixes left :: "'c \<Rightarrow> nat list"
    and consumed :: "'c \<Rightarrow> nat"
    and is_empty :: "'c \<Rightarrow> bool"
    and prepare :: "nat \<Rightarrow> 'c \<Rightarrow> buf list"
    and consume :: "nat \<Rightarrow> 'c \<Rightarrow> 'c"
    and invar :: "'c \<Rightarrow> bool"
  assumes empty_left: "invar c \<Longrightarrow> is_empty c \<longleftrightarrow> left c = []"
    and prepare_prefix: "invar c \<Longrightarrow> \<exists>k\<le>mx. seq_addrs (prepare mx c) = take k (left c)"
    and prepare_some: "invar c \<Longrightarrow> left c \<noteq> [] \<Longrightarrow> mx > 0 \<Longrightarrow> seq_addrs (prepare mx c) \<noteq> []"
    and consume_left: "invar c \<Longrightarrow> n \<le> length (left c) \<Longrightarrow>
      left (consume n c) = drop n (left c) \<and> consumed (consume n c) = consumed c + n \<and> invar (consume n c)"

subsection \<open>The general template\<close>

definition cb_left :: "consuming \<Rightarrow> nat list" where
  "cb_left c = drop (cb_next_elem_offset c) (seq_addrs (drop (cb_next_elem c) (cb_buffers c)))"

definition cb_inv :: "consuming \<Rightarrow> bool" where
  "cb_inv c \<longleftrightarrow> cb_total_consumed c + length (cb_left c) = cb_total_size c \<and>
     (drop (cb_next_elem c) (cb_buffers c) = [] \<or> cb_next_elem_offset c \<le> buf_size (hd (drop (cb_next_elem c) (cb_buffers c))))"

lemma drop_offset: "off \<le> buf_size b \<Longrightarrow> drop off (seq_addrs (b # bs)) = addrs (buf_add b off) @ seq_addrs bs"
  by simp

lemma prepare_loop_prefix:
  "bs = [] \<or> off \<le> buf_size (hd bs) \<Longrightarrow> \<exists>k\<le>mx. seq_addrs (prepare_loop room mx off bs) = take k (drop off (seq_addrs bs))"
proof (induction room mx off bs rule: prepare_loop.induct)
  case (2 room mx off b bs)
  show ?case
  proof (cases "mx > 0 \<and> room > 0")
    case True
    define p where "p = buf_limit (buf_add b off) mx"
    have o: "off \<le> buf_size b" using 2(3) by simp
    have p: "addrs p = take mx (addrs (buf_add b off))" "buf_size p = min (buf_size (buf_add b off)) mx" by (simp_all add: p_def)
    obtain k where k: "k \<le> mx - buf_size p"
      "seq_addrs (prepare_loop (if buf_size p > 0 then room - 1 else room) (mx - buf_size p) 0 bs) = take k (seq_addrs bs)"
      using 2(1)[OF True p_def] 2(2) [OF True p_def] by (cases "buf_size p > 0") auto
    have "seq_addrs (prepare_loop room mx off (b # bs)) = addrs p @ take k (seq_addrs bs)"
      using True k(2) by (auto simp: p_def [symmetric] Let_def addrs_empty)
    also have "\<dots> = take (buf_size p + (if buf_size (buf_add b off) < mx then k else 0)) (drop off (seq_addrs (b # bs)))"
      unfolding drop_offset [OF o] p(1) using k(1) p(2) by (auto simp: min_def)
    finally have "seq_addrs (prepare_loop room mx off (b # bs)) =
        take (buf_size p + (if buf_size (buf_add b off) < mx then k else 0)) (drop off (seq_addrs (b # bs)))" .
    moreover have "buf_size p + (if buf_size (buf_add b off) < mx then k else 0) \<le> mx" using k(1) p(2) by (cases "buf_size (buf_add b off) < mx") (simp_all del: buf_sizes)
    ultimately show ?thesis by blast
  qed auto
qed auto

lemma prepare_loop_some:
  "bs = [] \<or> off \<le> buf_size (hd bs) \<Longrightarrow> mx > 0 \<Longrightarrow> room > 0 \<Longrightarrow> drop off (seq_addrs bs) \<noteq> [] \<Longrightarrow>
     seq_addrs (prepare_loop room mx off bs) \<noteq> []"
proof (induction room mx off bs rule: prepare_loop.induct)
  case (2 room mx off b bs)
  then show ?case by (cases "buf_size b > off") (auto simp: Let_def addrs_empty)
qed simp

lemma consume_loop_left:
  assumes "rest = [] \<or> off \<le> buf_size (hd rest)" "rest = drop elem bs" "consume_loop n elem off rest = (elem', off')"
  shows "drop off' (seq_addrs (drop elem' bs)) = drop (off + n) (seq_addrs rest) \<and>
    (drop elem' bs = [] \<or> off' \<le> buf_size (hd (drop elem' bs)))"
  using assms
proof (induction n elem off rest arbitrary: elem' off' rule: consume_loop.induct)
  case (2 n elem off b rest)
  have o: "off \<le> buf_size b" using 2(2) by simp
  have "tl (drop elem bs) = drop (elem + 1) bs" by (simp add: drop_Suc tl_drop)
  then have r: "rest = drop (elem + 1) bs" "drop elem bs = b # rest" by (simp_all add: 2(3) [symmetric])
  show ?case
  proof (cases "n > 0 \<and> \<not> n < buf_size (buf_add b off)")
    case True
    then have "consume_loop (n - buf_size (buf_add b off)) (elem + 1) 0 rest = (elem', off')" using 2(4) by simp
    then have "drop off' (seq_addrs (drop elem' bs)) = drop (n - (buf_size b - off)) (seq_addrs rest) \<and>
        (drop elem' bs = [] \<or> off' \<le> buf_size (hd (drop elem' bs)))"
      using 2(1) [OF _ refl _ _ r(1)] True by auto
    moreover have "buf_size b \<le> off + n" "off + n - buf_size b = n - (buf_size b - off)" using o True unfolding buf_sizes by linarith+
    ultimately show ?thesis by simp
  next
    case False
    then show ?thesis using 2(4) o r by (auto simp: Let_def split: if_splits)
  qed
qed auto

lemma consume_consuming:
  assumes "cb_inv c" "n \<le> length (cb_left c)"
  shows "cb_left (cb_consume n c) = drop n (cb_left c) \<and> cb_total_consumed (cb_consume n c) = cb_total_consumed c + n \<and> cb_inv (cb_consume n c)"
proof -
  obtain elem' off' where l: "consume_loop n (cb_next_elem c) (cb_next_elem_offset c) (drop (cb_next_elem c) (cb_buffers c)) = (elem', off')"
    by fastforce
  have "drop off' (seq_addrs (drop elem' (cb_buffers c))) = drop (cb_next_elem_offset c + n) (seq_addrs (drop (cb_next_elem c) (cb_buffers c)))
      \<and> (drop elem' (cb_buffers c) = [] \<or> off' \<le> buf_size (hd (drop elem' (cb_buffers c))))"
    by (rule consume_loop_left [OF _ refl l]) (use assms(1) in \<open>simp add: cb_inv_def\<close>)
  then show ?thesis
    using assms l by (auto simp: cb_consume_def cb_left_def cb_inv_def add.commute)
qed

definition default_max_buffers :: nat where "default_max_buffers = 16"

interpretation general: consumer cb_left cb_total_consumed cb_empty "cb_prepare default_max_buffers" cb_consume cb_inv
proof
  fix c :: consuming and mx assume c: "cb_inv c"
  show "cb_empty c \<longleftrightarrow> cb_left c = []" using c unfolding cb_empty_def cb_inv_def length_0_conv [symmetric] by linarith
  show "\<exists>k\<le>mx. seq_addrs (cb_prepare default_max_buffers mx c) = take k (cb_left c)"
    using c unfolding cb_prepare_def cb_left_def cb_inv_def by (intro prepare_loop_prefix) auto
  show "cb_left c \<noteq> [] \<Longrightarrow> mx > 0 \<Longrightarrow> seq_addrs (cb_prepare default_max_buffers mx c) \<noteq> []"
    using c unfolding cb_prepare_def cb_left_def cb_inv_def by (intro prepare_loop_some) (auto simp: default_max_buffers_def)
  fix n assume "n \<le> length (cb_left c)"
  then show "cb_left (cb_consume n c) = drop n (cb_left c) \<and> cb_total_consumed (cb_consume n c) = cb_total_consumed c + n \<and> cb_inv (cb_consume n c)"
    by (rule consume_consuming [OF c])
qed

lemma consuming_new_facts: "cb_inv (consuming_new bs)" "cb_left (consuming_new bs) = seq_addrs bs" "cb_total_consumed (consuming_new bs) = 0"
  by (auto simp: cb_inv_def cb_left_def consuming_new_def)

subsection \<open>The specialisations\<close>

definition cs_left :: "consuming_single \<Rightarrow> nat list" where
  "cs_left c = drop (cs_total_consumed c) (addrs (cs_buffer c))"

definition cp_left :: "consuming_pair \<Rightarrow> nat list" where
  "cp_left c = drop (cp_total_consumed c) (seq_addrs [fst (cp_buffers c), snd (cp_buffers c)])"

interpretation single: consumer cs_left cs_total_consumed cs_empty cs_prepare cs_consume "\<lambda>c. True"
proof
  fix c :: consuming_single and mx n :: nat
  show "cs_empty c \<longleftrightarrow> cs_left c = []" by (simp add: cs_empty_def cs_left_def)
  show "\<exists>k\<le>mx. seq_addrs (cs_prepare mx c) = take k (cs_left c)" by (auto simp: cs_prepare_def cs_left_def)
  show "cs_left c \<noteq> [] \<Longrightarrow> mx > 0 \<Longrightarrow> seq_addrs (cs_prepare mx c) \<noteq> []" by (simp add: cs_prepare_def cs_left_def)
  show "cs_left (cs_consume n c) = drop n (cs_left c) \<and> cs_total_consumed (cs_consume n c) = cs_total_consumed c + n \<and> True"
    by (simp add: cs_left_def cs_consume_def add.commute)
qed

lemma cp_prepare_take: "seq_addrs (cp_prepare mx c) = take mx (cp_left c)"
proof -
  obtain b0 b1 where b: "cp_buffers c = (b0, b1)" by fastforce
  show ?thesis
  proof (cases "cp_total_consumed c < buf_size b0")
    case True
    then show ?thesis by (simp add: cp_prepare_def cp_left_def b Let_def)
      (cases "mx \<le> buf_size b0 - cp_total_consumed c"; simp add: min_def)
  qed (simp add: cp_prepare_def cp_left_def b Let_def)
qed

interpretation pair: consumer cp_left cp_total_consumed cp_empty cp_prepare cp_consume "\<lambda>c. True"
proof
  fix c :: consuming_pair and mx n :: nat
  show "cp_empty c \<longleftrightarrow> cp_left c = []" by (auto simp: cp_empty_def cp_left_def)
  show "\<exists>k\<le>mx. seq_addrs (cp_prepare mx c) = take k (cp_left c)" using cp_prepare_take by blast
  show "cp_left c \<noteq> [] \<Longrightarrow> mx > 0 \<Longrightarrow> seq_addrs (cp_prepare mx c) \<noteq> []" by (simp add: cp_prepare_take)
  show "cp_left (cp_consume n c) = drop n (cp_left c) \<and> cp_total_consumed (cp_consume n c) = cp_total_consumed c + n \<and> True"
    by (simp add: cp_left_def cp_consume_def add.commute del: seq_addrs_simps)
qed

section \<open>Properties\<close>

text \<open>C23. All overloads of \<open>buffer_copy\<close> do one thing. Whatever the two sequences are split into, empty buffers included,
  and with or without a limit, the bytes copied are the first min(limit, target, source) ones, in order, from the
  addresses of the source to the addresses of the target, provided that the two do not overlap (which \<open>memcpy\<close>
  requires).\<close>

theorem buffer_copy_correct:
  assumes "set (seq_addrs (buffers_of t)) \<inter> set (seq_addrs (buffers_of s)) = {}"
  shows "buffer_copy t s mx m =
    flat_copy (case mx of None \<Rightarrow> buffer_size (buffers_of t) | Some k \<Rightarrow> k) (seq_addrs (buffers_of t)) (seq_addrs (buffers_of s)) m"
  by (rule buffer_copy_flat [OF assms])

definition copy_targets :: buffers where "copy_targets = Many [Buf 100 2, Buf 105 0, Buf 110 3]"
definition copy_sources :: buffers where "copy_sources = Many [Buf 0 1, Buf 5 6]"

lemma buffer_copy_correct_witness:
  "\<exists>m. buffer_copy copy_targets copy_sources (Some 4) of_nat = (4, m) \<and> map m [100, 101, 110, 111, 112] = [0, 5, 6, 7, 112]"
proof -
  have "set (seq_addrs (buffers_of copy_targets)) \<inter> set (seq_addrs (buffers_of copy_sources)) = {}"
    by (simp add: copy_targets_def copy_sources_def addrs_def upt_rec)
  then have "buffer_copy copy_targets copy_sources (Some 4) of_nat =
      flat_copy 4 (seq_addrs (buffers_of copy_targets)) (seq_addrs (buffers_of copy_sources)) of_nat"
    using buffer_copy_correct [of copy_targets copy_sources "Some 4" of_nat] by simp
  also have "\<dots> = (4, store [100, 101, 110, 111] [0, 5, 6, 7] of_nat)"
    by (simp add: copy_targets_def copy_sources_def addrs_def upt_rec flat_copy_def)
  finally show ?thesis by simp
qed

end
