(* ===== verification/AsioReadWrite.thy ===== *)
theory AsioReadWrite
  imports AsioBuffers AsioSys
begin

text \<open>
  The composed read and write operations of the vendored Asio on buffer sequences: \<^verbatim>\<open>include/asio/impl/read.hpp\<close>
  and \<^verbatim>\<open>impl/write.hpp\<close> (\<open>read_buffer_seq\<close>, \<open>read_op\<close>, \<open>write_buffer_seq\<close>, \<open>write_op\<close>) with
  the completion conditions of \<^verbatim>\<open>completion_condition.hpp\<close>. The stream is a parameter: \<open>read_some\<close> yields the
  bytes it delivers, an error code (0 for none) and its next state; \<open>write_some\<close> is given bytes and says how many it
  took. The reading and the writing code are the same text up to the call on the stream, so both are instances of
  one loop and one operation. The code is generic in \<open>consuming_buffers\<close>, and the lemmas are proved in the locale
  \<open>consumer\<close>. A loop that does not end is \<open>None\<close>.
\<close>

section \<open>Completion conditions\<close>

abbreviation default_max_transfer_size :: nat where "default_max_transfer_size \<equiv> 65536"

definition adapt_bool :: "bool \<Rightarrow> nat" where
  "adapt_bool result = (if result then 0 else default_max_transfer_size)"

definition transfer_all :: "int \<Rightarrow> nat \<Rightarrow> nat" where
  "transfer_all err n = (if err \<noteq> 0 then 0 else default_max_transfer_size)"

definition transfer_at_least :: "nat \<Rightarrow> int \<Rightarrow> nat \<Rightarrow> nat" where
  "transfer_at_least minimum err n = (if err \<noteq> 0 \<or> n \<ge> minimum then 0 else default_max_transfer_size)"

definition transfer_exactly :: "nat \<Rightarrow> int \<Rightarrow> nat \<Rightarrow> nat" where
  "transfer_exactly size' err n =
     (if err \<noteq> 0 \<or> n \<ge> size' then 0
      else if size' - n < default_max_transfer_size then size' - n else default_max_transfer_size)"

text \<open>A condition that ends the operation after an error.\<close>

definition stops_on_error :: "(int \<Rightarrow> nat \<Rightarrow> nat) \<Rightarrow> bool" where
  "stops_on_error cond \<longleftrightarrow> (\<forall>err n. err \<noteq> 0 \<longrightarrow> cond err n = 0)"

lemma conditions_stop [simp]:
  "stops_on_error transfer_all" "stops_on_error (transfer_at_least k)" "stops_on_error (transfer_exactly k)"
  by (simp_all add: stops_on_error_def transfer_all_def transfer_at_least_def transfer_exactly_def)

section \<open>The stream and the memory\<close>

text \<open>\<open>io_history\<close> records the bytes that passed; it decides nothing.\<close>

record 's io =
  io_memory :: memory
  io_stream :: 's
  io_history :: bytes

definition read_some :: "(buf list \<Rightarrow> 's \<Rightarrow> bytes \<times> int \<times> 's) \<Rightarrow> buf list \<Rightarrow> 's io \<Rightarrow> nat \<times> int \<times> 's io" where
  "read_some rs bufs io =
     (let (bs, ec, s) = rs bufs (io_stream io)
      in (length bs, ec, io\<lparr>io_memory := store (seq_addrs bufs) bs (io_memory io), io_stream := s, io_history := io_history io @ bs\<rparr>))"

definition write_some :: "(bytes \<Rightarrow> 's \<Rightarrow> nat \<times> int \<times> 's) \<Rightarrow> buf list \<Rightarrow> 's io \<Rightarrow> nat \<times> int \<times> 's io" where
  "write_some ws bufs io =
     (let bs = map (io_memory io) (seq_addrs bufs); (n, ec, s) = ws bs (io_stream io)
      in (n, ec, io\<lparr>io_stream := s, io_history := io_history io @ take n bs\<rparr>))"

section \<open>The loop\<close>

text \<open>The template parameters: \<open>consuming_buffers\<close>, the condition, and the call on the stream.\<close>

record ('c, 'io) transfer =
  tr_empty :: "'c \<Rightarrow> bool"
  tr_prepare :: "nat \<Rightarrow> 'c \<Rightarrow> buf list"
  tr_consume :: "nat \<Rightarrow> 'c \<Rightarrow> 'c"
  tr_consumed :: "'c \<Rightarrow> nat"
  tr_condition :: "int \<Rightarrow> nat \<Rightarrow> nat"
  tr_some :: "buf list \<Rightarrow> 'io \<Rightarrow> nat \<times> int \<times> 'io"

partial_function (option) transfer_loop ::
  "('c, 'io) transfer \<Rightarrow> int \<Rightarrow> 'c \<Rightarrow> 'io \<Rightarrow> (nat \<times> int \<times> 'io) option" where
  "transfer_loop tr ec tmp io =
     (if \<not> tr_empty tr tmp then
        let max_size = tr_condition tr ec (tr_consumed tr tmp)
        in if max_size > 0 then
             (case tr_some tr (tr_prepare tr max_size tmp) io of
                (n, ec, io) \<Rightarrow> transfer_loop tr ec (tr_consume tr n tmp) io)
           else Some (tr_consumed tr tmp, ec, io)
      else Some (tr_consumed tr tmp, ec, io))"

text \<open>The asynchronous operation: what it does when it is started and whenever an operation on the stream completes,
  with whether it has been cancelled.\<close>

datatype 'c op_step = Start "buf list" 'c | Finish int nat

definition op_start :: "('c, 'io) transfer \<Rightarrow> 'c \<Rightarrow> 'c op_step" where
  "op_start tr buffers = (let max_size = tr_condition tr 0 (tr_consumed tr buffers) in Start (tr_prepare tr max_size buffers) buffers)"

definition op_resume :: "('c, 'io) transfer \<Rightarrow> int \<Rightarrow> nat \<Rightarrow> bool \<Rightarrow> 'c \<Rightarrow> 'c op_step" where
  "op_resume tr ec bytes_transferred cancelled buffers =
     (let buffers = tr_consume tr bytes_transferred buffers
      in if ec = 0 \<and> bytes_transferred = 0 \<or> tr_empty tr buffers then Finish ec (tr_consumed tr buffers)
         else let max_size = tr_condition tr ec (tr_consumed tr buffers)
              in if max_size = 0 then Finish ec (tr_consumed tr buffers)
                 else if cancelled then Finish operation_aborted (tr_consumed tr buffers)
                 else Start (tr_prepare tr max_size buffers) buffers)"

text \<open>The operation run to its end: each operation on the stream is followed by its completion.\<close>

partial_function (option) op_run ::
  "('c, 'io) transfer \<Rightarrow> ('io \<Rightarrow> bool) \<Rightarrow> 'c op_step \<Rightarrow> 'io \<Rightarrow> (nat \<times> int \<times> 'io) option" where
  "op_run tr cancelled step io =
     (case step of
        Finish ec n \<Rightarrow> Some (n, ec, io)
      | Start bufs buffers \<Rightarrow>
          (case tr_some tr bufs io of
             (n, ec, io) \<Rightarrow> op_run tr cancelled (op_resume tr ec n (cancelled io) buffers) io))"

text \<open>A stream that is asked for bytes transfers at most as many as there is room for.\<close>

definition within_bounds :: "(buf list \<Rightarrow> 'io \<Rightarrow> nat \<times> int \<times> 'io) \<Rightarrow> bool" where
  "within_bounds some \<longleftrightarrow> (\<forall>bufs io. fst (some bufs io) \<le> buffer_size bufs)"

text \<open>A stream that either transfers something or reports an error.\<close>

definition makes_progress :: "(buf list \<Rightarrow> 'io \<Rightarrow> nat \<times> int \<times> 'io) \<Rightarrow> bool" where
  "makes_progress some \<longleftrightarrow> (\<forall>bufs io. buffer_size bufs > 0 \<longrightarrow> fst (some bufs io) > 0 \<or> fst (snd (some bufs io)) \<noteq> 0)"

section \<open>Lemmas for every kind of consuming buffers\<close>

context consumer
begin

abbreviation ops :: "(int \<Rightarrow> nat \<Rightarrow> nat) \<Rightarrow> (buf list \<Rightarrow> 'io \<Rightarrow> nat \<times> int \<times> 'io) \<Rightarrow> ('c, 'io) transfer" where
  "ops cond some \<equiv> \<lparr>tr_empty = is_empty, tr_prepare = prepare, tr_consume = consume, tr_consumed = consumed,
     tr_condition = cond, tr_some = some\<rparr>"

lemma step_left:
  assumes "invar c" "within_bounds some" "some (prepare mx c) io = (n, ec, io')"
  obtains k where "k \<le> mx" "k \<le> length (left c)" "seq_addrs (prepare mx c) = take k (left c)" "n \<le> k"
    "left (consume n c) = drop n (left c)" "consumed (consume n c) = consumed c + n" "invar (consume n c)"
proof -
  obtain k0 where k0: "k0 \<le> mx" "seq_addrs (prepare mx c) = take k0 (left c)" using prepare_prefix [OF assms(1)] by blast
  let ?k = "min k0 (length (left c))"
  have k: "seq_addrs (prepare mx c) = take ?k (left c)" using k0(2) by (simp add: min_def)
  have "buffer_size (prepare mx c) = length (seq_addrs (prepare mx c))" by simp
  then have "buffer_size (prepare mx c) = ?k" by (simp only: k0(2) length_take min.commute)
  then have n: "n \<le> ?k" using assms(2,3) unfolding within_bounds_def by (metis fst_conv)
  show thesis by (rule that [of ?k]) (use k0 k n consume_left [OF assms(1), of n] in auto)
qed

lemma loop_keeps:
  assumes "transfer_loop (ops cond some) ec c io = Some (n, ec', io')" "within_bounds some" "invar c" "I (consumed c) (left c) io"
    and step: "\<And>d l io k bufs m ec io'. I d l io \<Longrightarrow> k \<le> length l \<Longrightarrow> seq_addrs bufs = take k l \<Longrightarrow> some bufs io = (m, ec, io') \<Longrightarrow>
      m \<le> k \<Longrightarrow> I (d + m) (drop m l) io'"
  shows "\<exists>l. I n l io' \<and> n + length l = consumed c + length (left c) \<and> (l = [] \<or> cond ec' n = 0)"
proof -
  let ?P = "\<lambda>tr ec c io r. tr = ops cond some \<longrightarrow> invar c \<longrightarrow> I (consumed c) (left c) io \<longrightarrow>
     (\<exists>l. I (fst r) l (snd (snd r)) \<and> fst r + length l = consumed c + length (left c) \<and> (l = [] \<or> cond (fst (snd r)) (fst r) = 0))"
  have "?P (ops cond some) ec c io (n, ec', io')"
  proof (rule transfer_loop.raw_induct [where P = ?P, OF _ assms(1)], intro impI)
    fix f tr ec c io r
    assume IH: "\<And>tr ec c io r. f tr ec c io = Some r \<Longrightarrow> ?P tr ec c io r"
      and run: "(if \<not> tr_empty tr c then
          let max_size = tr_condition tr ec (tr_consumed tr c)
          in if max_size > 0 then (case tr_some tr (tr_prepare tr max_size c) io of (n, ec, io) \<Rightarrow> f tr ec (tr_consume tr n c) io)
             else Some (tr_consumed tr c, ec, io)
        else Some (tr_consumed tr c, ec, io)) = Some r"
      and tr: "tr = ops cond some" and c: "invar c" and I: "I (consumed c) (left c) io"
    let ?mx = "cond ec (consumed c)"
    show "\<exists>l. I (fst r) l (snd (snd r)) \<and> fst r + length l = consumed c + length (left c) \<and> (l = [] \<or> cond (fst (snd r)) (fst r) = 0)"
    proof (cases "\<not> is_empty c \<and> ?mx > 0")
      case True
      obtain n ec1 io1 where s: "some (prepare ?mx c) io = (n, ec1, io1)" by (cases "some (prepare ?mx c) io") auto
      then have "f tr ec1 (consume n c) io1 = Some r" using run True by (simp add: tr Let_def)
      from step_left [OF c assms(2) s] obtain k where k: "k \<le> length (left c)" "seq_addrs (prepare ?mx c) = take k (left c)" "n \<le> k"
        "left (consume n c) = drop n (left c)" "consumed (consume n c) = consumed c + n" "invar (consume n c)" by blast
      have "I (consumed (consume n c)) (left (consume n c)) io1" using step [OF I k(1,2) s k(3)] k(4,5) by simp
      then show ?thesis using IH [OF \<open>f tr ec1 (consume n c) io1 = Some r\<close>] tr k by auto
    next
      case False
      then show ?thesis using run I empty_left [OF c] by (auto simp: tr Let_def split: if_splits)
    qed
  qed
  then show ?thesis using assms(3,4) by simp
qed

lemma loop_unfold:
  "transfer_loop (ops cond some) ec c io =
     (if is_empty c \<or> cond ec (consumed c) = 0 then Some (consumed c, ec, io)
      else case some (prepare (cond ec (consumed c)) c) io of (n, ec, io) \<Rightarrow> transfer_loop (ops cond some) ec (consume n c) io)"
  by (subst transfer_loop.simps) (simp add: Let_def)

lemma op_run_unfold:
  "op_run (ops cond some) cancelled (Start bufs c) io =
     (case some bufs io of (n, ec, io) \<Rightarrow> op_run (ops cond some) cancelled (op_resume (ops cond some) ec n (cancelled io) c) io)"
  "op_run tr cancelled (Finish ec n) io = Some (n, ec, io)"
  by (subst op_run.simps, simp)+

lemma loop_progress:
  assumes "within_bounds some" "makes_progress some" "invar c" "\<not> is_empty c" "mx > 0" "some (prepare mx c) io = (n, ec, io')"
  shows "n > 0 \<or> ec \<noteq> 0"
proof -
  have "seq_addrs (prepare mx c) \<noteq> []" using prepare_some [OF assms(3)] empty_left [OF assms(3)] assms(4,5) by simp
  then have "buffer_size (prepare mx c) > 0" unfolding length_seq_addrs [symmetric] by blast
  then show ?thesis using assms(2,6) unfolding makes_progress_def by (metis fst_conv snd_conv)
qed

lemma loop_returns:
  assumes "within_bounds some" "makes_progress some" "stops_on_error cond" "invar c"
  shows "\<exists>r. transfer_loop (ops cond some) ec c io = Some r"
  using assms(4)
proof (induction "length (left c)" arbitrary: c ec io rule: less_induct)
  case less
  show ?case
  proof (cases "is_empty c \<or> cond ec (consumed c) = 0")
    case False
    obtain n ec1 io1 where s: "some (prepare (cond ec (consumed c)) c) io = (n, ec1, io1)"
      by (cases "some (prepare (cond ec (consumed c)) c) io") auto
    from step_left [OF less(2) assms(1) s] obtain k where k: "k \<le> length (left c)" "n \<le> k"
      "left (consume n c) = drop n (left c)" "invar (consume n c)" by blast
    have "\<exists>r. transfer_loop (ops cond some) ec1 (consume n c) io1 = Some r"
    proof (cases "ec1 = 0")
      case True
      then have "n > 0" using loop_progress [OF assms(1,2) less(2) _ _ s] False by simp
      then show ?thesis using k by (intro less(1)) simp_all
    next
      case e: False
      then have "cond ec1 (consumed (consume n c)) = 0" using assms(3) by (simp add: stops_on_error_def)
      then show ?thesis by (subst loop_unfold) simp
    qed
    then show ?thesis using False s by (subst loop_unfold) simp
  qed (subst loop_unfold, simp)
qed

lemma op_run_loop:
  assumes "within_bounds some" "makes_progress some" "stops_on_error cond" "invar c" "\<not> is_empty c" "cond ec (consumed c) > 0"
  shows "op_run (ops cond some) (\<lambda>_. False) (Start (prepare (cond ec (consumed c)) c) c) io = transfer_loop (ops cond some) ec c io"
  using assms(4-6)
proof (induction "length (left c)" arbitrary: c ec io rule: less_induct)
  case less
  obtain n ec1 io1 where s: "some (prepare (cond ec (consumed c)) c) io = (n, ec1, io1)"
    by (cases "some (prepare (cond ec (consumed c)) c) io") auto
  from step_left [OF less(2) assms(1) s] obtain k where k: "k \<le> length (left c)" "n \<le> k"
    "left (consume n c) = drop n (left c)" "invar (consume n c)" by blast
  have p: "n > 0 \<or> ec1 \<noteq> 0" by (rule loop_progress [OF assms(1,2) less(2,3,4) s])
  have l: "transfer_loop (ops cond some) ec c io = transfer_loop (ops cond some) ec1 (consume n c) io1"
    using less(3,4) s by (subst loop_unfold) simp
  show ?case
  proof (cases "is_empty (consume n c) \<or> cond ec1 (consumed (consume n c)) = 0")
    case True
    then have "op_resume (ops cond some) ec1 n False c = Finish ec1 (consumed (consume n c))"
      by (auto simp: op_resume_def Let_def)
    then show ?thesis using True by (simp add: op_run_unfold s l) (subst loop_unfold, simp)
  next
    case False
    have "ec1 = 0" using False assms(3) by (auto simp: stops_on_error_def)
    then have "n > 0" using p by simp
    then have "op_run (ops cond some) (\<lambda>_. False) (Start (prepare (cond ec1 (consumed (consume n c))) (consume n c)) (consume n c)) io1
        = transfer_loop (ops cond some) ec1 (consume n c) io1"
      using k False by (intro less(1)) simp_all
    moreover have "op_resume (ops cond some) ec1 n False c =
        Start (prepare (cond ec1 (consumed (consume n c))) (consume n c)) (consume n c)"
      using False p by (auto simp: op_resume_def Let_def)
    ultimately show ?thesis by (simp only: op_run_unfold(1) s prod.case l)
  qed
qed

end

section \<open>Reading and writing\<close>

definition general_ops :: "(int \<Rightarrow> nat \<Rightarrow> nat) \<Rightarrow> (buf list \<Rightarrow> 'io \<Rightarrow> nat \<times> int \<times> 'io) \<Rightarrow> (consuming, 'io) transfer" where
  "general_ops cond some = \<lparr>tr_empty = cb_empty, tr_prepare = cb_prepare default_max_buffers, tr_consume = cb_consume,
     tr_consumed = cb_total_consumed, tr_condition = cond, tr_some = some\<rparr>"

definition single_ops :: "(int \<Rightarrow> nat \<Rightarrow> nat) \<Rightarrow> (buf list \<Rightarrow> 'io \<Rightarrow> nat \<times> int \<times> 'io) \<Rightarrow> (consuming_single, 'io) transfer" where
  "single_ops cond some = \<lparr>tr_empty = cs_empty, tr_prepare = cs_prepare, tr_consume = cs_consume,
     tr_consumed = cs_total_consumed, tr_condition = cond, tr_some = some\<rparr>"

definition pair_ops :: "(int \<Rightarrow> nat \<Rightarrow> nat) \<Rightarrow> (buf list \<Rightarrow> 'io \<Rightarrow> nat \<times> int \<times> 'io) \<Rightarrow> (consuming_pair, 'io) transfer" where
  "pair_ops cond some = \<lparr>tr_empty = cp_empty, tr_prepare = cp_prepare, tr_consume = cp_consume,
     tr_consumed = cp_total_consumed, tr_condition = cond, tr_some = some\<rparr>"

text \<open>The type of the sequence selects the template.\<close>

datatype sequence = Sequence "buf list" | Single buf | Pair buf buf

fun bufs_of :: "sequence \<Rightarrow> buf list" where
  "bufs_of (Sequence bs) = bs"
| "bufs_of (Single b) = [b]"
| "bufs_of (Pair b0 b1) = [b0, b1]"

fun transfer_seq :: "(int \<Rightarrow> nat \<Rightarrow> nat) \<Rightarrow> (buf list \<Rightarrow> 'io \<Rightarrow> nat \<times> int \<times> 'io) \<Rightarrow> sequence \<Rightarrow> 'io \<Rightarrow> (nat \<times> int \<times> 'io) option" where
  "transfer_seq cond some (Sequence bs) io = transfer_loop (general_ops cond some) 0 (consuming_new bs) io"
| "transfer_seq cond some (Single b) io = transfer_loop (single_ops cond some) 0 (single_new b) io"
| "transfer_seq cond some (Pair b0 b1) io = transfer_loop (pair_ops cond some) 0 (pair_new (b0, b1)) io"

definition read_buffer_seq where
  "read_buffer_seq rs cond buffers io = transfer_seq cond (read_some rs) buffers io"

definition write_buffer_seq where
  "write_buffer_seq ws cond buffers io = transfer_seq cond (write_some ws) buffers io"

fun async_seq :: "(int \<Rightarrow> nat \<Rightarrow> nat) \<Rightarrow> (buf list \<Rightarrow> 'io \<Rightarrow> nat \<times> int \<times> 'io) \<Rightarrow> ('io \<Rightarrow> bool) \<Rightarrow> sequence \<Rightarrow> 'io \<Rightarrow> (nat \<times> int \<times> 'io) option" where
  "async_seq cond some cancelled (Sequence bs) io =
     op_run (general_ops cond some) cancelled (op_start (general_ops cond some) (consuming_new bs)) io"
| "async_seq cond some cancelled (Single b) io =
     op_run (single_ops cond some) cancelled (op_start (single_ops cond some) (single_new b)) io"
| "async_seq cond some cancelled (Pair b0 b1) io =
     op_run (pair_ops cond some) cancelled (op_start (pair_ops cond some) (pair_new (b0, b1))) io"

definition async_read where
  "async_read rs cond cancelled buffers io = async_seq cond (read_some rs) cancelled buffers io"

definition async_write where
  "async_write ws cond cancelled buffers io = async_seq cond (write_some ws) cancelled buffers io"

lemma new_facts:
  "cs_left (single_new b) = seq_addrs [b]" "cs_total_consumed (single_new b) = 0"
  "cp_left (pair_new (b0, b1)) = seq_addrs [b0, b1]" "cp_total_consumed (pair_new bs) = 0"
  by (simp_all add: cs_left_def single_new_def cp_left_def pair_new_def)

lemma transfer_seq_keeps:
  assumes "transfer_seq cond some buffers io = Some (n, ec, io')" "within_bounds some" "I 0 (seq_addrs (bufs_of buffers)) io"
    and "\<And>d l io k bufs m ec io'. I d l io \<Longrightarrow> k \<le> length l \<Longrightarrow> seq_addrs bufs = take k l \<Longrightarrow> some bufs io = (m, ec, io') \<Longrightarrow>
      m \<le> k \<Longrightarrow> I (d + m) (drop m l) io'"
  shows "\<exists>l. I n l io' \<and> n + length l = buffer_size (bufs_of buffers) \<and> (l = [] \<or> cond ec n = 0)"
proof (cases buffers)
  case (Sequence bs)
  then show ?thesis
    using general.loop_keeps [of cond some 0 "consuming_new bs" io n ec io' I] assms consuming_new_facts [of bs]
    by (simp add: general_ops_def)
next
  case (Single b)
  then show ?thesis
    using single.loop_keeps [of cond some 0 "single_new b" io n ec io' I] assms
    by (simp add: single_ops_def new_facts)
next
  case (Pair b0 b1)
  then show ?thesis
    using pair.loop_keeps [of cond some 0 "pair_new (b0, b1)" io n ec io' I] assms
    by (simp add: pair_ops_def new_facts)
qed

lemma transfer_seq_returns:
  assumes "within_bounds some" "makes_progress some" "stops_on_error cond"
  shows "\<exists>r. transfer_seq cond some buffers io = Some r"
proof (cases buffers)
  case (Sequence bs)
  then show ?thesis using general.loop_returns [OF assms, of "consuming_new bs"] consuming_new_facts by (simp add: general_ops_def)
next
  case (Single b)
  then show ?thesis using single.loop_returns [OF assms] by (simp add: single_ops_def)
next
  case (Pair b0 b1)
  then show ?thesis using pair.loop_returns [OF assms] by (simp add: pair_ops_def)
qed

lemma async_seq_loop:
  assumes "within_bounds some" "makes_progress some" "stops_on_error cond" "buffer_size (bufs_of buffers) > 0" "cond 0 0 > 0"
  shows "async_seq cond some (\<lambda>_. False) buffers io = transfer_seq cond some buffers io"
proof -
  have ne: "seq_addrs (bufs_of buffers) \<noteq> []" using assms(4) unfolding length_seq_addrs [symmetric] by blast
  show ?thesis
  proof (cases buffers)
    case (Sequence bs)
    then show ?thesis
      using general.op_run_loop [OF assms(1-3), of "consuming_new bs" 0 io] general.empty_left [of "consuming_new bs"] assms(5) ne consuming_new_facts
      by (simp add: general_ops_def op_start_def)
  next
    case (Single b)
    then show ?thesis
      using single.op_run_loop [OF assms(1-3), of "single_new b" 0 io] single.empty_left [of "single_new b"] assms(5) ne
      by (simp add: single_ops_def op_start_def new_facts)
  next
    case (Pair b0 b1)
    then show ?thesis
      using pair.op_run_loop [OF assms(1-3), of "pair_new (b0, b1)" 0 io] pair.empty_left [of "pair_new (b0, b1)"] assms(5) ne
      by (simp add: pair_ops_def op_start_def new_facts)
  qed
qed

lemma read_within: "\<forall>bufs s. length (fst (rs bufs s)) \<le> buffer_size bufs \<Longrightarrow> within_bounds (read_some rs)"
  by (auto simp: within_bounds_def read_some_def Let_def split: prod.splits) (metis fst_conv)

lemma write_within: "\<forall>bs s. fst (ws bs s) \<le> length bs \<Longrightarrow> within_bounds (write_some ws)"
  by (auto simp: within_bounds_def write_some_def Let_def split: prod.splits) (metis fst_conv length_map length_seq_addrs)

lemma store_chain:
  assumes "length h = d" "d \<le> length A" "m \<le> length (drop d A)" "length bs = m"
  shows "store (take m (drop d A)) bs (store (take d A) h mem) = store (take (d + m) A) (h @ bs) mem"
  using assms by (simp add: take_add store_append)

lemma store_take: "length bs \<le> k \<Longrightarrow> store (take k as) bs m = store (take (length bs) as) bs m"
proof (induction as bs m arbitrary: k rule: store.induct)
  case (1 a as b bs m)
  then obtain k' where k: "k = Suc k'" "length bs \<le> k'" by (cases k) auto
  show ?case using 1(1) [OF k(2)] by (simp only: k(1) store.simps take_Suc_Cons length_Cons)
qed simp_all

section \<open>Properties\<close>


text \<open>A composed write sends the buffers from the front. Whenever \<open>write\<close> returns n, what went out is the first n
  bytes of the sequence, in order, and the memory is unchanged; it stopped because everything was sent or because the
  completion condition said so.\<close>

theorem write_transfers:
  assumes "write_buffer_seq ws cond buffers io = Some (n, ec, io')" "\<forall>bs s. fst (ws bs s) \<le> length bs"
  shows "io_history io' = io_history io @ take n (map (io_memory io) (seq_addrs (bufs_of buffers))) \<and> io_memory io' = io_memory io
    \<and> n \<le> buffer_size (bufs_of buffers) \<and> (n = buffer_size (bufs_of buffers) \<or> cond ec n = 0)"
proof -
  let ?A = "seq_addrs (bufs_of buffers)"
  let ?I = "\<lambda>d l io'. l = drop d ?A \<and> io_history io' = io_history io @ take d (map (io_memory io) ?A) \<and> io_memory io' = io_memory io"
  have "\<exists>l. ?I n l io' \<and> n + length l = buffer_size (bufs_of buffers) \<and> (l = [] \<or> cond ec n = 0)"
  proof (rule transfer_seq_keeps [OF assms(1) [unfolded write_buffer_seq_def] write_within [OF assms(2)], where I = ?I])
    show "?I 0 ?A io" by simp
    fix d l io1 k bufs m ec1 io2
    assume I: "?I d l io1" and k: "k \<le> length l" "seq_addrs bufs = take k l" and r: "write_some ws bufs io1 = (m, ec1, io2)" and m: "m \<le> k"
    have "io_history io2 = io_history io1 @ take m (map (io_memory io1) (take k l))" "io_memory io2 = io_memory io1"
      using r k(2) by (auto simp: write_some_def Let_def split: prod.splits)
    then show "?I (d + m) (drop m l) io2" using I m by (simp add: take_add take_map drop_map min_absorb1 add.commute)
  qed
  then show ?thesis by auto
qed

text \<open>The asynchronous operations do what the synchronous ones do. On a stream that transfers something or reports an
  error whenever it is asked for bytes, with buffers that are not empty, a condition that asks for something at first and
  ends after an error, and no cancellation, \<open>async_read\<close> and \<open>async_write\<close> hand their handler the count and the
  error code that \<open>read\<close> and \<open>write\<close> return, with the same effect; and both come to an end.\<close>

theorem async_matches_sync:
  assumes "makes_progress (read_some rs)" "\<forall>bufs s. length (fst (rs bufs s)) \<le> buffer_size bufs"
    "makes_progress (write_some ws)" "\<forall>bs s. fst (ws bs s) \<le> length bs"
    "stops_on_error cond" "cond 0 0 > 0" "buffer_size (bufs_of buffers) > 0"
  shows "async_read rs cond (\<lambda>_. False) buffers io = read_buffer_seq rs cond buffers io
    \<and> async_write ws cond (\<lambda>_. False) buffers out = write_buffer_seq ws cond buffers out
    \<and> (\<exists>r w. read_buffer_seq rs cond buffers io = Some r \<and> write_buffer_seq ws cond buffers out = Some w)"
  using async_seq_loop [OF read_within [OF assms(2)] assms(1,5,7,6)] async_seq_loop [OF write_within [OF assms(4)] assms(3,5,7,6)]
    transfer_seq_returns [OF read_within [OF assms(2)] assms(1,5)] transfer_seq_returns [OF write_within [OF assms(4)] assms(3,5)]
  by (simp add: async_read_def async_write_def read_buffer_seq_def write_buffer_seq_def)

text \<open>A stream over a list of bytes that moves at most three at a time and reports the end (here, 2) when there is no
  more.\<close>

definition three_at_a_time :: "buf list \<Rightarrow> bytes \<Rightarrow> bytes \<times> int \<times> bytes" where
  "three_at_a_time bufs s =
     (let n = min 3 (buffer_size bufs) in (take n s, if s = [] then 2 else 0, drop n s))"

definition sink_two :: "bytes \<Rightarrow> nat \<Rightarrow> nat \<times> int \<times> nat" where
  "sink_two bs s = (min 2 (length bs), 0, s + min 2 (length bs))"

definition demo_seq :: sequence where "demo_seq = Sequence [Buf 10 2, Buf 20 0, Buf 30 3]"
definition demo_io :: "'s \<Rightarrow> 's io" where "demo_io s = \<lparr>io_memory = of_nat, io_stream = s, io_history = []\<rparr>"

lemma demo_laws:
  "\<forall>bufs s. length (fst (three_at_a_time bufs s)) \<le> buffer_size bufs" "\<forall>bs s. fst (sink_two bs s) \<le> length bs"
  "makes_progress (read_some three_at_a_time)" "makes_progress (write_some sink_two)"
  by (auto simp: three_at_a_time_def sink_two_def makes_progress_def read_some_def write_some_def Let_def)

text \<open>Reading seven bytes into room for five, and writing them back.\<close>

definition demo_read :: "nat \<times> int \<times> bytes io" where
  "demo_read = the (read_buffer_seq three_at_a_time transfer_all demo_seq (demo_io [1, 2, 3, 4, 5, 6, 7]))"

definition demo_write :: "nat \<times> int \<times> nat io" where
  "demo_write = the (write_buffer_seq sink_two (transfer_exactly 3) demo_seq (demo_io 0))"

lemma demo_some:
  "\<exists>r. read_buffer_seq three_at_a_time transfer_all demo_seq (demo_io [1, 2, 3, 4, 5, 6, 7]) = Some r"
  "\<exists>r. write_buffer_seq sink_two (transfer_exactly 3) demo_seq (demo_io 0) = Some r"
  using transfer_seq_returns [OF read_within [OF demo_laws(1)] demo_laws(3)] transfer_seq_returns [OF write_within [OF demo_laws(2)] demo_laws(4)]
  by (simp_all add: read_buffer_seq_def write_buffer_seq_def)

lemma general_loop:
  "transfer_loop (general_ops cond some) ec c io =
     (if cb_empty c \<or> cond ec (cb_total_consumed c) = 0 then Some (cb_total_consumed c, ec, io)
      else case some (cb_prepare default_max_buffers (cond ec (cb_total_consumed c)) c) io of
             (n, ec, io) \<Rightarrow> transfer_loop (general_ops cond some) ec (cb_consume n c) io)"
  unfolding general_ops_def by (rule general.loop_unfold)

lemmas demo_defs = read_buffer_seq_def write_buffer_seq_def demo_seq_def demo_io_def consuming_new_def cb_empty_def transfer_all_def
  transfer_exactly_def cb_prepare_def default_max_buffers_def buf_add_def buf_limit_def read_some_def write_some_def
  three_at_a_time_def sink_two_def cb_consume_def addrs_def

lemma demo_values:
  "fst demo_read = 5" "fst (snd demo_read) = 0" "io_history (snd (snd demo_read)) = [1, 2, 3, 4, 5]"
  "fst demo_write = 3" "fst (snd demo_write) = 0" "seq_addrs (bufs_of demo_seq) = [10, 11, 30, 31, 32]"
  by (simp_all add: demo_read_def demo_write_def general_loop demo_defs Let_def upt_rec)


lemma write_transfers_witness: "io_history (snd (snd demo_write)) = [10, 11, 30]"
proof -
  have "write_buffer_seq sink_two (transfer_exactly 3) demo_seq (demo_io 0) = Some (3, 0, snd (snd demo_write))"
    using demo_some(2) demo_values(4,5) by (auto simp: demo_write_def)
  from write_transfers [OF this demo_laws(2)] show ?thesis
    by (simp add: demo_values(6)) (simp add: demo_io_def)
qed

lemma async_matches_sync_witness:
  "async_read three_at_a_time transfer_all (\<lambda>_. False) demo_seq (demo_io [1, 2, 3, 4, 5, 6, 7]) = Some demo_read"
proof -
  have "buffer_size (bufs_of demo_seq) > 0" "transfer_all 0 0 > 0" by (simp_all add: demo_seq_def transfer_all_def)
  from async_matches_sync [OF demo_laws(3,1,4,2) conditions_stop(1) this(2,1), of "demo_io [1, 2, 3, 4, 5, 6, 7]" "demo_io 0", THEN conjunct1]
  show ?thesis using demo_some(1) by (auto simp: demo_read_def)
qed

end
