(* ===== verification/AsioDynamicIO.thy ===== *)
theory AsioDynamicIO
  imports AsioReadUntil AsioReadWrite
begin

text \<open>
  \<open>read\<close>, \<open>write\<close>, \<open>async_read\<close> and \<open>async_write\<close> on growing buffers: the overloads of
  \<^verbatim>\<open>include/asio/impl/read.hpp\<close> and \<^verbatim>\<open>impl/write.hpp\<close> for both interfaces of the dynamic buffers, with
  \<open>read_dynbuf_v1_op\<close>, \<open>read_dynbuf_v2_op\<close>, \<open>write_dynbuf_v1_op\<close> and \<open>write_dynbuf_v2_op\<close>. The buffer is the record
  of calls of \<open>AsioReadUntil\<close>, the conditions are those of \<open>AsioReadWrite\<close>.
\<close>

section \<open>Reading\<close>

definition bytes_available :: "'b dynamic_buffer \<Rightarrow> nat \<Rightarrow> 'b \<Rightarrow> nat" where
  "bytes_available d max_size b =
     min (max 512 (dyn_capacity d b - dyn_size d b)) (min max_size (dyn_max_size d b - dyn_size d b))"

partial_function (option) read_dynamic ::
  "'b dynamic_buffer \<Rightarrow> (int \<Rightarrow> nat \<Rightarrow> nat) \<Rightarrow> (nat \<Rightarrow> 's \<Rightarrow> bytes \<times> int \<times> 's) \<Rightarrow> int \<Rightarrow> nat \<Rightarrow> 'b \<Rightarrow> 's
     \<Rightarrow> (nat \<times> int \<times> 'b \<times> 's) option option" where
  "read_dynamic d cond rs ec total_transferred b s =
     (let n = bytes_available d (cond ec total_transferred) b
      in if n > 0 then
           (case dyn_room d n b of
              None \<Rightarrow> Some None
            | Some b \<Rightarrow>
                (case rs n s of
                   (bs, ec, s) \<Rightarrow>
                     (case dyn_keep d n bs b of
                        None \<Rightarrow> Some None
                      | Some b \<Rightarrow> read_dynamic d cond rs ec (total_transferred + length bs) b s)))
         else Some (Some (total_transferred, ec, b, s)))"

text \<open>The operation waits for a read into \<open>n\<close> bytes of room, or has called its handler.\<close>

datatype 'b dynbuf_step = Dyn_reading nat nat 'b | Dyn_complete int nat 'b

definition dynbuf_start :: "'b dynamic_buffer \<Rightarrow> (int \<Rightarrow> nat \<Rightarrow> nat) \<Rightarrow> 'b \<Rightarrow> 'b dynbuf_step option" where
  "dynbuf_start d cond b =
     (let n = bytes_available d (cond 0 0) b in map_option (Dyn_reading n 0) (dyn_room d n b))"

definition dynbuf_resume ::
  "'b dynamic_buffer \<Rightarrow> (int \<Rightarrow> nat \<Rightarrow> nat) \<Rightarrow> int \<Rightarrow> bytes \<Rightarrow> bool \<Rightarrow> nat \<Rightarrow> nat \<Rightarrow> 'b \<Rightarrow> 'b dynbuf_step option" where
  "dynbuf_resume d cond ec bs cancelled n total_transferred b =
     (let sofar = total_transferred + length bs
      in case dyn_keep d n bs b of
           None \<Rightarrow> None
         | Some b \<Rightarrow>
             let n = bytes_available d (cond ec sofar) b
             in if ec = 0 \<and> length bs = 0 \<or> n = 0 then Some (Dyn_complete ec sofar b)
                else if cancelled then Some (Dyn_complete operation_aborted sofar b)
                else map_option (Dyn_reading n sofar) (dyn_room d n b))"

partial_function (option) dynbuf_run ::
  "'b dynamic_buffer \<Rightarrow> (int \<Rightarrow> nat \<Rightarrow> nat) \<Rightarrow> (nat \<Rightarrow> 's \<Rightarrow> bytes \<times> int \<times> 's) \<Rightarrow> ('s \<Rightarrow> bool)
     \<Rightarrow> 'b dynbuf_step option \<Rightarrow> 's \<Rightarrow> (nat \<times> int \<times> 'b \<times> 's) option option" where
  "dynbuf_run d cond rs cancelled step s =
     (case step of
        None \<Rightarrow> Some None
      | Some (Dyn_complete ec n b) \<Rightarrow> Some (Some (n, ec, b, s))
      | Some (Dyn_reading n sofar b) \<Rightarrow>
          (case rs n s of
             (bs, ec, s) \<Rightarrow> dynbuf_run d cond rs cancelled (dynbuf_resume d cond ec bs (cancelled s) n sofar b) s))"

definition async_read_dynamic ::
  "'b dynamic_buffer \<Rightarrow> (int \<Rightarrow> nat \<Rightarrow> nat) \<Rightarrow> (nat \<Rightarrow> 's \<Rightarrow> bytes \<times> int \<times> 's) \<Rightarrow> ('s \<Rightarrow> bool)
     \<Rightarrow> 'b \<Rightarrow> 's \<Rightarrow> (nat \<times> int \<times> 'b \<times> 's) option option" where
  "async_read_dynamic d cond rs cancelled b s = dynbuf_run d cond rs cancelled (dynbuf_start d cond b) s"

section \<open>Writing\<close>

text \<open>The contents of the buffer are one region of memory, here at address 0.\<close>

definition laid_out :: "bytes \<Rightarrow> memory" where
  "laid_out data a = (if a < length data then data ! a else 0)"

definition contents_io :: "bytes \<Rightarrow> 's \<Rightarrow> 's io" where
  "contents_io data s = \<lparr>io_memory = laid_out data, io_stream = s, io_history = []\<rparr>"

definition write_dynamic ::
  "('b \<Rightarrow> bytes) \<Rightarrow> (nat \<Rightarrow> 'b \<Rightarrow> 'b) \<Rightarrow> (bytes \<Rightarrow> 's \<Rightarrow> nat \<times> int \<times> 's) \<Rightarrow> (int \<Rightarrow> nat \<Rightarrow> nat) \<Rightarrow> 'b \<Rightarrow> 's
     \<Rightarrow> (nat \<times> int \<times> 'b \<times> 's io) option" where
  "write_dynamic data consume ws cond b s =
     map_option (\<lambda>(n, ec, io). (n, ec, consume n b, io))
       (write_buffer_seq ws cond (Single (Buf 0 (length (data b)))) (contents_io (data b) s))"

text \<open>The operation starts \<open>async_write\<close> on the contents; its handler consumes what was sent and calls the user's.\<close>

definition async_write_dynamic ::
  "('b \<Rightarrow> bytes) \<Rightarrow> (nat \<Rightarrow> 'b \<Rightarrow> 'b) \<Rightarrow> (bytes \<Rightarrow> 's \<Rightarrow> nat \<times> int \<times> 's) \<Rightarrow> (int \<Rightarrow> nat \<Rightarrow> nat) \<Rightarrow> ('s io \<Rightarrow> bool) \<Rightarrow> 'b \<Rightarrow> 's
     \<Rightarrow> (nat \<times> int \<times> 'b \<times> 's io) option" where
  "async_write_dynamic data consume ws cond cancelled b s =
     map_option (\<lambda>(n, ec, io). (n, ec, consume n b, io))
       (async_write ws cond cancelled (Single (Buf 0 (length (data b)))) (contents_io (data b) s))"

lemma map_laid_out: "map (laid_out data) [0..<length data] = data"
  by (rule nth_equalityI) (simp_all add: laid_out_def)

section \<open>Lemmas for every growing buffer\<close>

text \<open>What a call leaves: \<open>n\<close> more bytes than before, in order, and the error code of the last read; and it has stopped
  because the condition said so or because there was no room.\<close>

definition appended :: "('b \<Rightarrow> bool) \<Rightarrow> ('b \<Rightarrow> bytes) \<Rightarrow> ('b \<Rightarrow> nat) \<Rightarrow> (int \<Rightarrow> nat \<Rightarrow> nat) \<Rightarrow> nat \<Rightarrow> 'b \<Rightarrow> nat \<times> int \<times> 'b \<times> 's \<Rightarrow> bool" where
  "appended ok view mx cond sofar b r \<longleftrightarrow> (case r of (n, ec, b', s') \<Rightarrow>
     ok b' \<and> mx b' = mx b \<and> (\<exists>bs. view b' = view b @ bs \<and> n = sofar + length bs) \<and> (cond ec n = 0 \<or> length (view b') = mx b) \<and>
     (\<forall>k. (\<forall>e t. cond e t \<le> k - t) \<longrightarrow> sofar \<le> k \<longrightarrow> n \<le> k))"

lemma appended_step:
  assumes "appended ok view mx cond (sofar + length bs) b2 r" "view b2 = view b @ bs" "mx b2 = mx b" "length bs \<le> cond ec sofar"
  shows "appended ok view mx cond sofar b r"
proof -
  have "sofar + length bs \<le> k" if "\<forall>e t. cond e t \<le> k - t" "sofar \<le> k" for k
    using that assms(4) that(1) [rule_format, of ec sofar] by linarith
  then show ?thesis using assms(1-3) by (auto simp: appended_def)
qed

context growing
begin

lemma available:
  assumes "invar b"
  shows "bytes_available (dyn cap) mx b \<le> max_of b - length (contents b)"
    and "bytes_available (dyn cap) mx b \<le> mx"
    and "bytes_available (dyn cap) mx b = 0 \<longleftrightarrow> mx = 0 \<or> length (contents b) = max_of b"
  using within_max [OF assms] size_contents [OF assms] by (auto simp: bytes_available_def)

lemma read_pass:
  assumes "invar b" "reads_within rs" "n = bytes_available (dyn cap) mx b"
  obtains b1 bs ec s' b2 where "prepare n b = Some b1" "rs n s = (bs, ec, s')" "commit n bs b1 = Some b2" "invar b2"
    "contents b2 = contents b @ bs" "max_of b2 = max_of b" "length bs \<le> n"
proof -
  have n: "n \<le> max_of b - length (contents b)" using available(1) [OF assms(1)] assms(3) by simp
  from prepare_commit [OF assms(1) n] obtain b1 where b1: "prepare n b = Some b1" "\<forall>bs. length bs \<le> n \<longrightarrow>
      (\<exists>b2. commit n bs b1 = Some b2 \<and> invar b2 \<and> contents b2 = contents b @ bs \<and> max_of b2 = max_of b)" by blast
  obtain bs ec s' where rs: "rs n s = (bs, ec, s')" by (cases "rs n s") auto
  then have len: "length bs \<le> n" using assms(2) by (metis reads_within_def fst_conv)
  then obtain b2 where "commit n bs b1 = Some b2" "invar b2" "contents b2 = contents b @ bs" "max_of b2 = max_of b" using b1(2) by blast
  then show ?thesis using that [OF b1(1) rs] len by blast
qed

lemma read_done: "bytes_available (dyn cap) (cond ec sofar) b = 0 \<Longrightarrow>
    read_dynamic (dyn cap) cond rs ec sofar b s = Some (Some (sofar, ec, b, s))"
  by (subst read_dynamic.simps) simp

lemma read_again:
  assumes "bytes_available (dyn cap) (cond ec sofar) b = n" "n \<noteq> 0" "prepare n b = Some b1" "rs n s = (bs, ec', s')" "commit n bs b1 = Some b2"
  shows "read_dynamic (dyn cap) cond rs ec sofar b s = read_dynamic (dyn cap) cond rs ec' (sofar + length bs) b2 s'"
  using assms by (subst read_dynamic.simps) simp

text \<open>On a stream that delivers something or reports an error, and with a condition that ends the call after an error, the
  call returns.\<close>

lemma read_dynamic_appends:
  assumes "invar b" "reads_within rs" "reads_progress rs" "stops_on_error cond"
  shows "\<exists>r. read_dynamic (dyn cap) cond rs ec sofar b s = Some (Some r) \<and> appended invar contents max_of cond sofar b r"
  using assms(1)
proof (induction "max_of b - length (contents b)" arbitrary: ec sofar b s rule: less_induct)
  case less
  let ?n = "bytes_available (dyn cap) (cond ec sofar) b"
  have stop: "\<exists>r. read_dynamic (dyn cap) cond rs ec sofar b s = Some (Some r) \<and> appended invar contents max_of cond sofar b r"
    if "bytes_available (dyn cap) (cond ec sofar) b = 0" "invar b" for ec sofar b s
  proof -
    have "read_dynamic (dyn cap) cond rs ec sofar b s = Some (Some (sofar, ec, b, s))" using that(1) by (rule read_done)
    then show ?thesis using that available(3) [OF that(2)] by (auto simp: appended_def)
  qed
  show ?case
  proof (cases "?n = 0")
    case True
    then show ?thesis using stop less(2) by blast
  next
    case False
    obtain b1 bs ec' s' b2 where p: "prepare ?n b = Some b1" "rs ?n s = (bs, ec', s')" "commit ?n bs b1 = Some b2"
      and b2: "invar b2" "contents b2 = contents b @ bs" "max_of b2 = max_of b" "length bs \<le> ?n"
      using read_pass [OF less(2) assms(2) refl] by metis
    have len: "length bs \<le> cond ec sofar" using b2(4) available(2) [OF less(2)] le_trans by blast
    have again: "read_dynamic (dyn cap) cond rs ec sofar b s = read_dynamic (dyn cap) cond rs ec' (sofar + length bs) b2 s'"
      by (rule read_again [where n = ?n and ?b1.0 = b1]) (use False p in simp_all)
    have "\<exists>r. read_dynamic (dyn cap) cond rs ec' (sofar + length bs) b2 s' = Some (Some r) \<and>
        appended invar contents max_of cond (sofar + length bs) b2 r"
    proof (cases "ec' = 0")
      case True
      have "bs \<noteq> []" using assms(3) False p(2) True by (metis reads_progress_def fst_conv snd_conv neq0_conv)
      moreover have "length (contents b2) \<le> max_of b2" using b2(1) by (rule within_max)
      ultimately have "max_of b2 - length (contents b2) < max_of b - length (contents b)" using b2 by (cases bs) auto
      then show ?thesis using less(1) b2(1) by blast
    next
      case False
      then have "cond ec' (sofar + length bs) = 0" using assms(4) by (simp add: stops_on_error_def)
      then show ?thesis using stop b2(1) available(3) [OF b2(1)] by blast
    qed
    then obtain r where r: "read_dynamic (dyn cap) cond rs ec' (sofar + length bs) b2 s' = Some (Some r)"
      "appended invar contents max_of cond (sofar + length bs) b2 r" by blast
    have "appended invar contents max_of cond sofar b r"
      by (rule appended_step [where bs = bs and ec = ec and ?b2.0 = b2]) (use r(2) b2 len in simp_all)
    then show ?thesis using again r(1) by simp
  qed
qed

text \<open>The operation without a cancellation.\<close>

lemma dynbuf_run_simps:
  "dynbuf_run d cond rs cancelled (Some (Dyn_complete ec k b)) s = Some (Some (k, ec, b, s))"
  "dynbuf_run d cond rs cancelled (Some (Dyn_reading n k b)) s =
     (case rs n s of (bs, ec, s) \<Rightarrow> dynbuf_run d cond rs cancelled (dynbuf_resume d cond ec bs (cancelled s) n k b) s)"
  by (subst dynbuf_run.simps; simp)+

lemma dynbuf_run_reads:
  assumes "invar b" "reads_within rs" "reads_progress rs" "stops_on_error cond"
    and "bytes_available (dyn cap) (cond ec sofar) b = n" "n \<noteq> 0" "prepare n b = Some b1"
  shows "dynbuf_run (dyn cap) cond rs (\<lambda>s. False) (Some (Dyn_reading n sofar b1)) s = read_dynamic (dyn cap) cond rs ec sofar b s"
  using assms(1,5-7)
proof (induction "max_of b - length (contents b)" arbitrary: ec sofar b b1 n s rule: less_induct)
  case less
  obtain bs ec' s' b2 where p: "rs n s = (bs, ec', s')" "commit n bs b1 = Some b2"
    and b2: "invar b2" "contents b2 = contents b @ bs" "max_of b2 = max_of b"
    using read_pass [OF less(2) assms(2) less(3) [symmetric]] less(5) by (metis option.inject)
  have again: "read_dynamic (dyn cap) cond rs ec sofar b s = read_dynamic (dyn cap) cond rs ec' (sofar + length bs) b2 s'"
    by (rule read_again [where n = n and ?b1.0 = b1]) (use less(3-5) p in simp_all)
  let ?n = "bytes_available (dyn cap) (cond ec' (sofar + length bs)) b2"
  show ?case
  proof (cases "?n = 0")
    case True
    then have "read_dynamic (dyn cap) cond rs ec' (sofar + length bs) b2 s' = Some (Some (sofar + length bs, ec', b2, s'))" by (rule read_done)
    then show ?thesis using again True p by (simp add: dynbuf_run_simps dynbuf_resume_def Let_def)
  next
    case False
    then have ec': "ec' = 0" using assms(4) available(3) [OF b2(1)] by (auto simp: stops_on_error_def)
    then have bs: "bs \<noteq> []" using assms(3) less(4) p(1) by (metis reads_progress_def fst_conv snd_conv neq0_conv)
    moreover have "length (contents b2) \<le> max_of b2" using b2(1) by (rule within_max)
    ultimately have "max_of b2 - length (contents b2) < max_of b - length (contents b)" using b2 by (cases bs) auto
    moreover obtain b3 where b3: "prepare ?n b2 = Some b3" using read_pass [OF b2(1) assms(2) refl] by metis
    ultimately have "dynbuf_run (dyn cap) cond rs (\<lambda>s. False) (Some (Dyn_reading ?n (sofar + length bs) b3)) s' =
        read_dynamic (dyn cap) cond rs ec' (sofar + length bs) b2 s'"
      using less(1) [of b2 ec' "sofar + length bs" ?n b3 s'] b2(1) False by blast
    then show ?thesis using again p ec' bs False b3 by (simp add: dynbuf_run_simps dynbuf_resume_def Let_def)
  qed
qed

end

section \<open>The stream buffer\<close>

text \<open>\<open>read\<close> with \<open>transfer_exactly\<close> appends what it says: at most that many bytes, and exactly that many when there is
  no error.\<close>

lemma read_exactly_appends:
  assumes "sb_inv b" "k \<le> sb_max_size b - length (sb_data b)" "reads_within rs" "reads_progress rs"
  shows "\<exists>n ec b' s' bs. read_dynamic (sb_dyn cap) (transfer_exactly k) rs 0 0 b s = Some (Some (n, ec, b', s')) \<and>
    sb_data b' = sb_data b @ bs \<and> n = length bs \<and> n \<le> k \<and> (ec = 0 \<longrightarrow> n = k)"
proof -
  have "\<exists>r. read_dynamic (sb_dyn cap) (transfer_exactly k) rs 0 0 b s = Some (Some r) \<and> appended sb_inv sb_data sb_max_size (transfer_exactly k) 0 b r"
    unfolding sb_dyn_def by (rule stream_buffer.read_dynamic_appends [OF assms(1,3,4) conditions_stop(3)])
  then obtain r where r': "read_dynamic (sb_dyn cap) (transfer_exactly k) rs 0 0 b s = Some (Some r)"
    and a': "appended sb_inv sb_data sb_max_size (transfer_exactly k) 0 b r" by (elim exE conjE)
  obtain n ec b' s' where split: "r = (n, ec, b', s')" by (cases r) auto
  note r = r' [unfolded split] and a = a' [unfolded split]
  obtain bs where bs: "sb_data b' = sb_data b @ bs" "n = length bs" using a by (auto simp: appended_def)
  have "\<forall>e t. transfer_exactly k e t \<le> k - t" by (simp add: transfer_exactly_def)
  then have n: "n \<le> k" using a by (simp add: appended_def)
  have "k \<le> n" if "ec = 0"
  proof -
    have "transfer_exactly k 0 n = 0 \<or> length (sb_data b') = sb_max_size b" using a that by (simp add: appended_def)
    then show ?thesis using assms(2) bs by (auto simp: transfer_exactly_def split: if_splits)
  qed
  then show ?thesis using r bs n by (metis le_antisym)
qed

lemma async_read_dynamic_matches:
  assumes "sb_inv b" "reads_within rs" "reads_progress rs" "stops_on_error cond" "cond 0 0 \<noteq> 0" "length (sb_data b) \<noteq> sb_max_size b"
  shows "async_read_dynamic (sb_dyn cap) cond rs (\<lambda>s. False) b s = read_dynamic (sb_dyn cap) cond rs 0 0 b s"
proof -
  let ?n = "bytes_available (stream_buffer.dyn (\<lambda>b. cap (sb_buffer b))) (cond 0 0) b"
  have n: "?n \<noteq> 0" using assms(5,6) unfolding stream_buffer.available(3) [OF assms(1)] by simp
  obtain b1 where b1: "sb_prepare ?n b = Some b1" using stream_buffer.prepare_commit [OF assms(1) stream_buffer.available(1) [OF assms(1)]] by blast
  then show ?thesis
    using stream_buffer.dynbuf_run_reads [OF assms(1-4) refl n b1, of s]
    by (simp add: async_read_dynamic_def dynbuf_start_def sb_dyn_def Let_def)
qed

lemma contents_addrs: "map (io_memory (contents_io data s)) (seq_addrs (bufs_of (Single (Buf 0 (length data))))) = data"
  using map_laid_out [of data] by (simp add: contents_io_def addrs_def)

text \<open>Writing a stream buffer loses nothing and sends nothing twice. Whenever \<open>write\<close> returns, what went out followed by
  what is still in the buffer is what was in the buffer, whatever the stream took at a time and whether or not it failed.\<close>

theorem write_streambuf_conserves:
  assumes "sb_inv b" "\<forall>bs s. fst (ws bs s) \<le> length bs"
    and "write_dynamic sb_data sb_consume ws cond b s = Some (n, ec, b', io)"
  shows "io_history io @ sb_data b' = sb_data b"
proof -
  obtain io' where w: "write_buffer_seq ws cond (Single (Buf 0 (length (sb_data b)))) (contents_io (sb_data b) s) = Some (n, ec, io')"
    and b': "b' = sb_consume n b" "io = io'" using assms(3) by (auto simp: write_dynamic_def)
  have "io_history io = take n (sb_data b)"
    using write_transfers [OF w assms(2)] by (simp only: contents_addrs b'(2)) (simp add: contents_io_def)
  moreover have "sb_data b' = drop n (sb_data b)" using sb_consume_contents [OF assms(1)] b'(1) by blast
  ultimately show ?thesis by simp
qed

definition out_buffer :: streambuf where
  "out_buffer = \<lparr>sb_buffer = [97, 98, 99, 100, 0, 0], sb_gptr = 1, sb_egptr = 4, sb_pptr = 4, sb_epptr = 6, sb_max_size = 6\<rparr>"

lemma write_streambuf_conserves_witness:
  "\<exists>n ec b' io. write_dynamic sb_data sb_consume sink_two transfer_all out_buffer 2 = Some (n, ec, b', io) \<and>
    io_history io @ sb_data b' = [98, 99, 100]"
proof -
  have ok: "sb_inv out_buffer" "sb_data out_buffer = [98, 99, 100]" by code_simp+
  note bound = demo_laws(2)
  note demo_laws(4)
  then obtain r where "write_dynamic sb_data sb_consume sink_two transfer_all out_buffer 2 = Some r"
    using transfer_seq_returns [OF write_within [OF bound] _ conditions_stop(1), of "Single (Buf 0 (length (sb_data out_buffer)))" "contents_io (sb_data out_buffer) 2"]
    unfolding write_dynamic_def write_buffer_seq_def by fastforce
  then obtain n ec b' io where w: "write_dynamic sb_data sb_consume sink_two transfer_all out_buffer 2 = Some (n, ec, b', io)"
    by (cases r) auto
  from write_streambuf_conserves [OF ok(1) bound w] show ?thesis using w ok(2) by auto
qed

end
