(* ===== verification/AsioMemory.thy ===== *)
theory AsioMemory
  imports Protocol
begin

text \<open>
  The memory every operation of Asio is allocated from: \<^verbatim>\<open>include/asio/detail/thread_info_base.hpp\<close> with
  \<open>aligned_new\<close> and \<open>aligned_delete\<close> of \<^verbatim>\<open>detail/memory.hpp\<close>, and its client \<open>cancellation_slot\<close>
  (\<^verbatim>\<open>impl/cancellation_signal.ipp\<close>, \<^verbatim>\<open>cancellation_signal.hpp\<close>). A thread keeps two freed blocks for each purpose; the
  number of chunks of a block is kept in its byte behind the object while it is in use, and in its first byte while it
  is kept. Memory is a map from pointers to blocks; an access outside a block is \<open>Undefined\<close>. \<open>std::aligned_alloc\<close> is a
  parameter: it may fail, and else gives a new block, aligned and of the size asked for.
\<close>

section \<open>Memory\<close>

record thread_memory =
  tm_blocks :: "nat \<rightharpoonup> bytes"
  tm_reusable :: "nat option list"

text \<open>What a call does: it is undefined, throws \<open>bad_alloc\<close>, or gives a value; with the state it leaves.\<close>

datatype ('a, 's) alloc_result = Undefined | Thrown 's | Done 'a 's

definition load_byte :: "nat \<Rightarrow> nat \<Rightarrow> 's thread_memory_scheme \<Rightarrow> u8 option" where
  "load_byte p i m = (case tm_blocks m p of Some bs \<Rightarrow> if i < length bs then Some (bs ! i) else None | None \<Rightarrow> None)"

definition store_byte :: "nat \<Rightarrow> nat \<Rightarrow> u8 \<Rightarrow> thread_memory \<Rightarrow> thread_memory option" where
  "store_byte p i v m =
     (case tm_blocks m p of
        Some bs \<Rightarrow> if i < length bs then Some (m\<lparr>tm_blocks := (tm_blocks m)(p \<mapsto> bs[i := v])\<rparr>) else None
      | None \<Rightarrow> None)"

text \<open>\<open>__STDCPP_DEFAULT_NEW_ALIGNMENT__\<close>.\<close>

abbreviation default_align :: nat where "default_align \<equiv> 16"

type_synonym aligned_alloc = "(nat \<rightharpoonup> bytes) \<Rightarrow> nat \<Rightarrow> nat \<Rightarrow> (nat \<times> bytes) option"

definition aligned_new :: "aligned_alloc \<Rightarrow> nat \<Rightarrow> nat \<Rightarrow> thread_memory \<Rightarrow> (nat, thread_memory) alloc_result" where
  "aligned_new alloc align size' m =
     (let align = (if align < default_align then default_align else align);
          size' = (if size' mod align = 0 then size' else size' + (align - size' mod align))
      in case alloc (tm_blocks m) align size' of
           None \<Rightarrow> Thrown m
         | Some (p, bs) \<Rightarrow> Done p (m\<lparr>tm_blocks := (tm_blocks m)(p \<mapsto> bs)\<rparr>))"

definition aligned_delete :: "nat \<Rightarrow> thread_memory \<Rightarrow> thread_memory option" where
  "aligned_delete p m = (if p \<in> dom (tm_blocks m) then Some (m\<lparr>tm_blocks := (tm_blocks m)(p := None)\<rparr>) else None)"

section \<open>Recycling\<close>

datatype purpose = Default | Awaitable_frame | Executor_function | Cancellation_signal | Parallel_group | Timed_cancel

abbreviation cache_size :: nat where "cache_size \<equiv> 2"

fun begin_mem_index :: "purpose \<Rightarrow> nat" where
  "begin_mem_index Default = 0"
| "begin_mem_index Awaitable_frame = cache_size"
| "begin_mem_index Executor_function = 2 * cache_size"
| "begin_mem_index Cancellation_signal = 3 * cache_size"
| "begin_mem_index Parallel_group = 4 * cache_size"
| "begin_mem_index Timed_cancel = 5 * cache_size"

definition mem_indices :: "purpose \<Rightarrow> nat list" where
  "mem_indices purpose = [begin_mem_index purpose ..< begin_mem_index purpose + cache_size]"

abbreviation max_mem_index :: nat where "max_mem_index \<equiv> 12"
abbreviation chunk_size :: nat where "chunk_size \<equiv> 4"
abbreviation uchar_max :: nat where "uchar_max \<equiv> 255"

definition thread_info_new :: "(nat \<rightharpoonup> bytes) \<Rightarrow> thread_memory" where
  "thread_info_new blocks = \<lparr>tm_blocks = blocks, tm_reusable = replicate max_mem_index None\<rparr>"

fun delete_reusable :: "nat list \<Rightarrow> thread_memory \<Rightarrow> thread_memory option" where
  "delete_reusable [] m = Some m"
| "delete_reusable (i # is) m =
     (case tm_reusable m ! i of
        None \<Rightarrow> delete_reusable is m
      | Some p \<Rightarrow> Option.bind (aligned_delete p m) (delete_reusable is))"

definition thread_info_destroy :: "thread_memory \<Rightarrow> thread_memory option" where
  "thread_info_destroy m = delete_reusable [0..<max_mem_index] m"

text \<open>The first loop of \<open>allocate\<close>: the first kept block that is large enough and aligned, with its index and its byte
  0; \<open>None\<close> is an access outside a block.\<close>

fun find_reusable :: "nat \<Rightarrow> nat \<Rightarrow> nat list \<Rightarrow> thread_memory \<Rightarrow> (nat \<times> nat \<times> u8) option option" where
  "find_reusable chunks align [] m = Some None"
| "find_reusable chunks align (i # is) m =
     (case tm_reusable m ! i of
        None \<Rightarrow> find_reusable chunks align is m
      | Some p \<Rightarrow>
          (case load_byte p 0 m of
             None \<Rightarrow> None
           | Some c \<Rightarrow> if unat c \<ge> chunks \<and> p mod align = 0 then Some (Some (i, p, c))
                       else find_reusable chunks align is m))"

text \<open>The second loop: the first kept block of the purpose is given back.\<close>

fun drop_reusable :: "nat list \<Rightarrow> thread_memory \<Rightarrow> thread_memory option" where
  "drop_reusable [] m = Some m"
| "drop_reusable (i # is) m =
     (case tm_reusable m ! i of
        None \<Rightarrow> drop_reusable is m
      | Some p \<Rightarrow> aligned_delete p (m\<lparr>tm_reusable := (tm_reusable m)[i := None]\<rparr>))"

definition allocate_new :: "aligned_alloc \<Rightarrow> nat \<Rightarrow> nat \<Rightarrow> nat \<Rightarrow> thread_memory \<Rightarrow> (nat, thread_memory) alloc_result" where
  "allocate_new alloc chunks size' align m =
     (case aligned_new alloc align (chunks * chunk_size + 1) m of
        Undefined \<Rightarrow> Undefined
      | Thrown m \<Rightarrow> Thrown m
      | Done p m \<Rightarrow>
          (case store_byte p size' (if chunks \<le> uchar_max then of_nat chunks else 0) m of
             None \<Rightarrow> Undefined
           | Some m \<Rightarrow> Done p m))"

definition allocate ::
  "aligned_alloc \<Rightarrow> purpose \<Rightarrow> bool \<Rightarrow> nat \<Rightarrow> nat \<Rightarrow> thread_memory \<Rightarrow> (nat, thread_memory) alloc_result" where
  "allocate alloc purpose this_thread size' align m =
     (let chunks = (size' + chunk_size - 1) div chunk_size
      in if this_thread then
           (case find_reusable chunks align (mem_indices purpose) m of
              None \<Rightarrow> Undefined
            | Some (Some (i, p, c)) \<Rightarrow>
                (case store_byte p size' c (m\<lparr>tm_reusable := (tm_reusable m)[i := None]\<rparr>) of
                   None \<Rightarrow> Undefined
                 | Some m \<Rightarrow> Done p m)
            | Some None \<Rightarrow>
                (case drop_reusable (mem_indices purpose) m of
                   None \<Rightarrow> Undefined
                 | Some m \<Rightarrow> allocate_new alloc chunks size' align m))
         else allocate_new alloc chunks size' align m)"

fun keep_block :: "nat list \<Rightarrow> nat \<Rightarrow> nat \<Rightarrow> thread_memory \<Rightarrow> thread_memory option" where
  "keep_block [] p size' m = aligned_delete p m"
| "keep_block (i # is) p size' m =
     (if tm_reusable m ! i = None then
        Option.bind (load_byte p size' m) (\<lambda>c.
          map_option (\<lambda>m. m\<lparr>tm_reusable := (tm_reusable m)[i := Some p]\<rparr>) (store_byte p 0 c m))
      else keep_block is p size' m)"

definition deallocate :: "purpose \<Rightarrow> bool \<Rightarrow> nat \<Rightarrow> nat \<Rightarrow> thread_memory \<Rightarrow> thread_memory option" where
  "deallocate purpose this_thread p size' m =
     (if size' \<le> chunk_size * uchar_max \<and> this_thread then keep_block (mem_indices purpose) p size' m
      else aligned_delete p m)"

section \<open>Exceptions of a thread\<close>

text \<open>An exception a handler of the library throws is kept until the thread has left the inner calls; of several only the
  first one survives, inside a \<open>multiple_exceptions\<close>.\<close>

datatype 'e exception_ptr = Plain 'e | Multiple_exceptions "'e exception_ptr"

record 'e pending =
  has_pending_exception :: nat
  pending_exception :: "'e exception_ptr option"

definition no_pending :: "'e pending" where
  "no_pending = \<lparr>has_pending_exception = 0, pending_exception = None\<rparr>"

definition capture_current_exception :: "'e exception_ptr \<Rightarrow> 'e pending \<Rightarrow> 'e pending" where
  "capture_current_exception e s =
     (if has_pending_exception s = 0 then s\<lparr>has_pending_exception := 1, pending_exception := Some e\<rparr>
      else if has_pending_exception s = 1
      then s\<lparr>has_pending_exception := 2, pending_exception := map_option Multiple_exceptions (pending_exception s)\<rparr>
      else s)"

definition rethrow_pending_exception :: "'e pending \<Rightarrow> 'e exception_ptr option \<times> 'e pending" where
  "rethrow_pending_exception s =
     (if has_pending_exception s > 0 then (pending_exception s, s\<lparr>has_pending_exception := 0, pending_exception := None\<rparr>)
      else (None, s))"

lemma rethrow_captured:
  "rethrow_pending_exception (fold capture_current_exception es no_pending) =
     (case es of [] \<Rightarrow> None | [e] \<Rightarrow> Some e | e # _ \<Rightarrow> Some (Multiple_exceptions e), no_pending)"
proof -
  have more: "fold capture_current_exception es s = s" if "has_pending_exception s = 2" for es and s :: "'e pending"
    using that by (induction es) (simp_all add: capture_current_exception_def)
  show ?thesis
    by (cases es; cases "tl es") (simp_all add: rethrow_pending_exception_def no_pending_def capture_current_exception_def more)
qed

section \<open>Cancellation slots\<close>

text \<open>The handler installed in a slot, as its address and the size it was allocated with; constructing and destroying
  a handler does not touch the allocator.\<close>

type_synonym slot = "(nat \<times> nat) option"

definition slot_clear :: "bool \<Rightarrow> slot \<Rightarrow> thread_memory \<Rightarrow> (slot \<times> thread_memory) option" where
  "slot_clear this_thread handler m =
     (case handler of
        None \<Rightarrow> Some (None, m)
      | Some (p, n) \<Rightarrow> map_option (Pair None) (deallocate Cancellation_signal this_thread p n m))"

definition prepare_memory ::
  "aligned_alloc \<Rightarrow> bool \<Rightarrow> nat \<Rightarrow> nat \<Rightarrow> slot \<Rightarrow> thread_memory \<Rightarrow> (nat \<times> nat, thread_memory) alloc_result" where
  "prepare_memory alloc this_thread size' align handler m =
     (case handler of
        Some (p, n) \<Rightarrow>
          if size' > n \<or> p mod align \<noteq> 0 then
            (case deallocate Cancellation_signal this_thread p n m of
               None \<Rightarrow> Undefined
             | Some m \<Rightarrow>
                 (case allocate alloc Cancellation_signal this_thread size' align m of
                    Done p m \<Rightarrow> Done (p, size') m | Thrown m \<Rightarrow> Thrown m | Undefined \<Rightarrow> Undefined))
          else Done (p, n) m
      | None \<Rightarrow>
          if size' > 0 then
            (case allocate alloc Cancellation_signal this_thread size' align m of
               Done p m \<Rightarrow> Done (p, size') m | Thrown m \<Rightarrow> Thrown m | Undefined \<Rightarrow> Undefined)
          else Done (0, 0) m)"

text \<open>\<open>emplace\<close>, with whether the constructor of the handler throws; the slot is empty meanwhile, and after a throw.\<close>

definition emplace ::
  "aligned_alloc \<Rightarrow> bool \<Rightarrow> nat \<Rightarrow> nat \<Rightarrow> bool \<Rightarrow> slot \<Rightarrow> thread_memory \<Rightarrow> (slot, thread_memory) alloc_result" where
  "emplace alloc this_thread size' align throws handler m =
     (case prepare_memory alloc this_thread size' align handler m of
        Undefined \<Rightarrow> Undefined
      | Thrown m \<Rightarrow> Thrown m
      | Done (p, n) m \<Rightarrow>
          if throws then
            (case deallocate Cancellation_signal this_thread p n m of None \<Rightarrow> Undefined | Some m \<Rightarrow> Thrown m)
          else Done (Some (p, n)) m)"

section \<open>The invariant\<close>

text \<open>What the clients hold: pointer and contents of every block in use.\<close>

type_synonym live = "nat \<rightharpoonup> bytes"

definition alloc_law :: "aligned_alloc \<Rightarrow> bool" where
  "alloc_law alloc \<longleftrightarrow> (\<forall>h align n p bs. alloc h align n = Some (p, bs) \<longrightarrow> h p = None \<and> p mod align = 0 \<and> length bs = n)"

definition kept :: "thread_memory \<Rightarrow> nat set" where
  "kept m = {p. Some p \<in> set (tm_reusable m)}"

definition kept_ok :: "bytes \<Rightarrow> bool" where
  "kept_ok bs \<longleftrightarrow> bs \<noteq> [] \<and> chunk_size * unat (bs ! 0) < length bs"

definition live_ok :: "bytes \<Rightarrow> bytes \<Rightarrow> bool" where
  "live_ok bs b \<longleftrightarrow> length bs < length b \<and> take (length bs) b = bs \<and>
     (length bs \<le> chunk_size * uchar_max \<longrightarrow> chunk_size * unat (b ! length bs) < length b)"

definition recycle_inv :: "live \<Rightarrow> thread_memory \<Rightarrow> bool" where
  "recycle_inv live m \<longleftrightarrow> length (tm_reusable m) = max_mem_index \<and>
     (\<forall>i<max_mem_index. \<forall>j<max_mem_index. \<forall>p. tm_reusable m ! i = Some p \<and> tm_reusable m ! j = Some p \<longrightarrow> i = j) \<and>
     kept m \<inter> dom live = {} \<and> dom (tm_blocks m) = kept m \<union> dom live \<and>
     (\<forall>p\<in>kept m. \<exists>b. tm_blocks m p = Some b \<and> kept_ok b) \<and>
     (\<forall>p bs. live p = Some bs \<longrightarrow> (\<exists>b. tm_blocks m p = Some b \<and> live_ok bs b))"


lemma kept_iff: "p \<in> kept m \<longleftrightarrow> (\<exists>i<length (tm_reusable m). tm_reusable m ! i = Some p)"
  by (auto simp: kept_def in_set_conv_nth)

lemma recycle_invD:
  assumes "recycle_inv live m"
  shows "length (tm_reusable m) = max_mem_index"
    and "i < max_mem_index \<Longrightarrow> tm_reusable m ! i = Some p \<Longrightarrow> j < max_mem_index \<Longrightarrow> tm_reusable m ! j = Some p \<Longrightarrow> i = j"
    and "kept m \<inter> dom live = {}" "dom (tm_blocks m) = kept m \<union> dom live"
    and "p \<in> kept m \<Longrightarrow> \<exists>b. tm_blocks m p = Some b \<and> kept_ok b"
    and "live p = Some bs \<Longrightarrow> \<exists>b. tm_blocks m p = Some b \<and> live_ok bs b"
  using assms unfolding recycle_inv_def by blast+

lemma nth_release: "j < length xs \<Longrightarrow> xs[i := None] ! j = Some q \<longleftrightarrow> j \<noteq> i \<and> xs ! j = Some q"
  by (cases "i = j") auto

lemma kept_release:
  assumes "recycle_inv live m" "i < max_mem_index" "tm_reusable m ! i = Some p"
  shows "kept (m\<lparr>tm_reusable := (tm_reusable m)[i := None]\<rparr>) = kept m - {p}"
proof (rule set_eqI)
  fix q
  have n: "length (tm_reusable m) = max_mem_index" by (rule recycle_invD(1) [OF assms(1)])
  have "(\<exists>j<max_mem_index. j \<noteq> i \<and> tm_reusable m ! j = Some q) \<longleftrightarrow> (\<exists>j<max_mem_index. tm_reusable m ! j = Some q) \<and> q \<noteq> p"
    using recycle_invD(2) [OF assms(1) _ _ assms(2,3)] assms(3) by (metis option.inject)
  then show "q \<in> kept (m\<lparr>tm_reusable := (tm_reusable m)[i := None]\<rparr>) \<longleftrightarrow> q \<in> kept m - {p}"
    using n by (auto simp: kept_iff nth_release)
qed

lemma kept_keep:
  assumes "i < length (tm_reusable m)" "tm_reusable m ! i = None"
  shows "kept (m\<lparr>tm_reusable := (tm_reusable m)[i := Some p]\<rparr>) = insert p (kept m)"
proof (rule set_eqI)
  fix q
  have "(\<exists>j<length (tm_reusable m). (tm_reusable m)[i := Some p] ! j = Some q) \<longleftrightarrow> q = p \<or> (\<exists>j<length (tm_reusable m). tm_reusable m ! j = Some q)"
    using assms by (metis nth_list_update_eq nth_list_update_neq option.distinct(1) option.inject)
  then show "q \<in> kept (m\<lparr>tm_reusable := (tm_reusable m)[i := Some p]\<rparr>) \<longleftrightarrow> q \<in> insert p (kept m)" by (simp add: kept_iff)
qed

text \<open>A kept block is taken out of its slot, and then either given to a client or deleted.\<close>

lemma recycle_take:
  assumes "recycle_inv live m" "i < max_mem_index" "tm_reusable m ! i = Some p" "tm_blocks m p = Some b0" "live_ok bs b"
  shows "recycle_inv (live(p \<mapsto> bs)) (m\<lparr>tm_reusable := (tm_reusable m)[i := None], tm_blocks := (tm_blocks m)(p \<mapsto> b)\<rparr>)"
    (is "recycle_inv _ ?m")
proof -
  note I = recycle_invD [OF assms(1)]
  have p: "p \<in> kept m" using assms(2,3) I(1) by (auto simp: kept_iff)
  have k: "kept ?m = kept m - {p}" using kept_release [OF assms(1-3)] by (simp add: kept_def)
  show ?thesis
    unfolding recycle_inv_def k
    using I(1) I(3) I(4) I(5) I(6) p assms(5) by (auto simp: nth_release intro: I(2) split: if_splits)
qed

lemma recycle_delete:
  assumes "recycle_inv live m" "i < max_mem_index" "tm_reusable m ! i = Some p"
  shows "\<exists>m'. aligned_delete p (m\<lparr>tm_reusable := (tm_reusable m)[i := None]\<rparr>) = Some m' \<and> recycle_inv live m'"
proof -
  note I = recycle_invD [OF assms(1)]
  have p: "p \<in> kept m" using assms(2,3) I(1) by (auto simp: kept_iff)
  let ?m = "m\<lparr>tm_reusable := (tm_reusable m)[i := None], tm_blocks := (tm_blocks m)(p := None)\<rparr>"
  have k: "kept ?m = kept m - {p}" using kept_release [OF assms] by (simp add: kept_def)
  have "recycle_inv live ?m"
    unfolding recycle_inv_def k
    using I(1) I(3) I(4) I(5) I(6) p by (auto simp: nth_release intro: I(2) split: if_splits)
  moreover have "p \<in> dom (tm_blocks m)" using I(4) p by blast
  ultimately show ?thesis by (simp add: aligned_delete_def)
qed

lemma drop_reusable_inv:
  "recycle_inv live m \<Longrightarrow> \<forall>i\<in>set is. i < max_mem_index \<Longrightarrow> \<exists>m'. drop_reusable is m = Some m' \<and> recycle_inv live m'"
  by (induction "is" m rule: drop_reusable.induct) (auto split: option.split dest: recycle_delete)

lemma find_reusable_inv:
  assumes "recycle_inv live m" "\<forall>i\<in>set is. i < max_mem_index"
  shows "\<exists>r. find_reusable chunks align is m = Some r \<and> (\<forall>i p c. r = Some (i, p, c) \<longrightarrow>
    i < max_mem_index \<and> tm_reusable m ! i = Some p \<and> chunks \<le> unat c \<and> p mod align = 0 \<and> load_byte p 0 m = Some c)"
  using assms
proof (induction chunks align "is" m rule: find_reusable.induct)
  case (2 chunks align i "is" m)
  show ?case
  proof (cases "tm_reusable m ! i")
    case None
    then show ?thesis using 2 by simp
  next
    case (Some p)
    then have "p \<in> kept m" using 2(3,4) recycle_invD(1) [OF 2(3)] by (auto simp: kept_iff)
    then obtain b where "tm_blocks m p = Some b" "kept_ok b" using recycle_invD(5) [OF 2(3)] by blast
    then have "load_byte p 0 m = Some (b ! 0)" by (simp add: load_byte_def kept_ok_def)
    then show ?thesis using 2 Some by simp
  qed
qed simp

lemma mem_indices_bound: "\<forall>i\<in>set (mem_indices purpose). i < max_mem_index"
  by (cases purpose) (auto simp: mem_indices_def)

text \<open>A new block with the tag behind the object.\<close>

lemma tag_fits:
  assumes "chunks = (n + chunk_size - 1) div chunk_size"
  shows "n \<le> chunks * chunk_size" "n \<le> chunk_size * uchar_max \<Longrightarrow> chunks \<le> uchar_max"
  using assms by auto

lemma pow2_aligned:
  assumes "align = 2 ^ k" "p mod (if align < default_align then default_align else align) = 0"
  shows "p mod align = 0"
proof (cases "align < default_align")
  case True
  then have "(2::nat) ^ k < 2 ^ 4" using assms(1) by simp
  then have "k \<le> 4" using power_less_imp_less_exp [of "2 :: nat" k 4] by simp
  then have "(2::nat) ^ k dvd 2 ^ 4" by (rule le_imp_power_dvd)
  then have "align dvd default_align" using assms(1) by simp
  then show ?thesis using assms(2) True by (simp add: mod_eq_0_iff_dvd) (metis dvd_trans)
next
  case False
  then show ?thesis using assms(2) by simp
qed

lemma round_up: "(n :: nat) \<le> (if n mod a = 0 then n else n + (a - n mod a))"
  by simp

definition given :: "live \<Rightarrow> nat \<Rightarrow> nat \<Rightarrow> nat \<Rightarrow> thread_memory \<Rightarrow> bool" where
  "given live align n p m \<longleftrightarrow> live p = None \<and> p mod align = 0 \<and>
     (\<exists>b. tm_blocks m p = Some b \<and> n < length b \<and> recycle_inv (live(p \<mapsto> take n b)) m)"

lemma allocate_new_given:
  assumes "alloc_law alloc" "recycle_inv live m" "align = 2 ^ k" "chunks = (n + chunk_size - 1) div chunk_size"
  shows "case allocate_new alloc chunks n align m of
    Undefined \<Rightarrow> False | Thrown m' \<Rightarrow> recycle_inv live m' | Done p m' \<Rightarrow> given live align n p m'"
proof (cases "aligned_new alloc align (chunks * chunk_size + 1) m")
  case Undefined
  then show ?thesis by (auto simp: aligned_new_def Let_def split: option.splits prod.splits)
next
  case (Thrown m')
  then show ?thesis using assms(2) by (auto simp: aligned_new_def allocate_new_def Let_def split: option.splits prod.splits)
next
  case (Done p m1)
  let ?a = "if align < default_align then default_align else align" and ?n = "chunks * chunk_size + 1"
  define s where "s = (if ?n mod ?a = 0 then ?n else ?n + (?a - ?n mod ?a))"
  have "aligned_new alloc align ?n m = (case alloc (tm_blocks m) ?a s of
      None \<Rightarrow> Thrown m | Some (p, bs) \<Rightarrow> Done p (m\<lparr>tm_blocks := (tm_blocks m)(p \<mapsto> bs)\<rparr>))"
    by (simp only: aligned_new_def Let_def s_def)
  then obtain bs where bs: "alloc (tm_blocks m) ?a s = Some (p, bs)" and m1: "m1 = m\<lparr>tm_blocks := (tm_blocks m)(p \<mapsto> bs)\<rparr>"
    using Done by (cases "alloc (tm_blocks m) ?a s") auto
  have law: "tm_blocks m p = None" "p mod ?a = 0" "length bs = s"
    using assms(1) bs unfolding alloc_law_def by blast+
  have len: "?n \<le> length bs" unfolding law(3) s_def by (rule round_up)
  note tag = tag_fits [OF assms(4)]
  have n: "n < length bs" using len tag(1) by linarith
  let ?c = "if chunks \<le> uchar_max then of_nat chunks else 0 :: u8"
  let ?b = "bs[n := ?c]" and ?m = "m\<lparr>tm_blocks := (tm_blocks m)(p \<mapsto> bs[n := ?c])\<rparr>"
  have st: "store_byte p n ?c m1 = Some ?m" using n m1 by (simp add: store_byte_def)
  have "chunk_size * unat (?b ! n) < length ?b" if "n \<le> chunk_size * uchar_max"
  proof -
    have c: "chunks \<le> uchar_max" using tag(2) that by blast
    then have "unat ?c = chunks" by (simp add: unat_of_nat)
    then show ?thesis using n len by simp
  qed
  then have ok: "live_ok (take n ?b) ?b" using n by (auto simp: live_ok_def)
  note I = recycle_invD [OF assms(2)]
  have p: "p \<notin> kept m" "live p = None" using I(4) law(1) by auto
  have "kept ?m = kept m" by (simp add: kept_def)
  then have "recycle_inv (live(p \<mapsto> take n ?b)) ?m"
    using I(1,3,4,5,6) p ok by (auto simp: recycle_inv_def intro: I(2))
  then have "given live align n p ?m" using p n pow2_aligned [OF assms(3) law(2)] by (auto simp: given_def)
  then show ?thesis using Done st by (simp add: allocate_new_def)
qed

lemma allocate_given:
  assumes "alloc_law alloc" "recycle_inv live m" "align = 2 ^ k"
  shows "case allocate alloc purpose this_thread n align m of
    Undefined \<Rightarrow> False | Thrown m' \<Rightarrow> recycle_inv live m' | Done p m' \<Rightarrow> given live align n p m'"
proof -
  let ?chunks = "(n + chunk_size - 1) div chunk_size"
  obtain r where r: "find_reusable ?chunks align (mem_indices purpose) m = Some r" and
    f: "\<And>i p c. r = Some (i, p, c) \<Longrightarrow>
      i < max_mem_index \<and> tm_reusable m ! i = Some p \<and> ?chunks \<le> unat c \<and> p mod align = 0 \<and> load_byte p 0 m = Some c"
    using find_reusable_inv [OF assms(2) mem_indices_bound, of ?chunks align purpose] by blast
  obtain m' where d: "drop_reusable (mem_indices purpose) m = Some m'" "recycle_inv live m'"
    using drop_reusable_inv [OF assms(2) mem_indices_bound] by blast
  note new = allocate_new_given [OF assms(1) _ assms(3) refl, of live _ n]
  show ?thesis
  proof (cases this_thread)
    case False
    then show ?thesis using new [OF assms(2)] by (simp add: allocate_def)
  next
    case True
    show ?thesis
    proof (cases r)
      case None
      then show ?thesis using True r d new [OF d(2)] by (simp add: allocate_def)
    next
      case (Some ipc)
      obtain i p c where ipc: "ipc = (i, p, c)" by (cases ipc)
      then have i: "i < max_mem_index" "tm_reusable m ! i = Some p" "?chunks \<le> unat c" "p mod align = 0" "load_byte p 0 m = Some c"
        using f Some by blast+
      have "p \<in> kept m" using i recycle_invD(1) [OF assms(2)] by (auto simp: kept_iff)
      then obtain b where b: "tm_blocks m p = Some b" "kept_ok b" "live p = None" using recycle_invD(3,5) [OF assms(2)] by blast
      then have c: "b ! 0 = c" "chunk_size * unat c < length b" using i(5) by (auto simp: load_byte_def kept_ok_def split: if_splits)
      have n: "n < length b" using tag_fits(1) [OF refl, of n] i(3) c(2) by linarith
      let ?m = "m\<lparr>tm_reusable := (tm_reusable m)[i := None], tm_blocks := (tm_blocks m)(p \<mapsto> b[n := c])\<rparr>"
      have "live_ok (take n (b[n := c])) (b[n := c])" using n c(2) by (simp add: live_ok_def)
      from recycle_take [OF assms(2) i(1,2) b(1) this] have "given live align n p ?m" using b(3) i(4) n by (auto simp: given_def)
      moreover have "store_byte p n c (m\<lparr>tm_reusable := (tm_reusable m)[i := None]\<rparr>) = Some ?m" using b(1) n by (simp add: store_byte_def)
      ultimately show ?thesis using True r Some ipc by (simp add: allocate_def)
    qed
  qed
qed

lemma recycle_free:
  assumes "recycle_inv live m" "live p = Some bs"
  shows "\<exists>m'. aligned_delete p m = Some m' \<and> recycle_inv (live(p := None)) m'"
proof -
  note I = recycle_invD [OF assms(1)]
  have p: "p \<notin> kept m" "p \<in> dom (tm_blocks m)" using I(3,4) assms(2) by auto
  let ?m = "m\<lparr>tm_blocks := (tm_blocks m)(p := None)\<rparr>"
  have "kept ?m = kept m" by (simp add: kept_def)
  then have "recycle_inv (live(p := None)) ?m"
    using I(1,3,4,5,6) p by (auto simp: recycle_inv_def intro: I(2))
  then show ?thesis using p(2) by (simp add: aligned_delete_def)
qed

lemma keep_block_inv:
  assumes "recycle_inv live m" "live p = Some bs" "length bs \<le> chunk_size * uchar_max" "\<forall>i\<in>set is. i < max_mem_index"
  shows "\<exists>m'. keep_block is p (length bs) m = Some m' \<and> recycle_inv (live(p := None)) m'"
  using assms(4)
proof (induction "is")
  case Nil
  show ?case using recycle_free [OF assms(1,2)] by (simp only: keep_block.simps)
next
  case (Cons i "is")
  show ?case
  proof (cases "tm_reusable m ! i")
    case None
    note I = recycle_invD [OF assms(1)]
    obtain b where b: "tm_blocks m p = Some b" "live_ok bs b" using I(6) assms(2) by blast
    have p: "p \<notin> kept m" using I(3) assms(2) by auto
    have i: "i < length (tm_reusable m)" using Cons(2) I(1) by simp
    let ?b = "b[0 := b ! length bs]"
    let ?m = "m\<lparr>tm_blocks := (tm_blocks m)(p \<mapsto> ?b), tm_reusable := (tm_reusable m)[i := Some p]\<rparr>"
    have "0 < length b" using b(2) by (auto simp: live_ok_def)
    then have ok: "kept_ok ?b" using b(2) assms(3) by (auto simp: kept_ok_def live_ok_def)
    have k: "kept ?m = insert p (kept m)" using kept_keep [OF i None] by (simp add: kept_def)
    have "tm_reusable ?m ! j = Some q \<longleftrightarrow> j = i \<and> q = p \<or> j \<noteq> i \<and> tm_reusable m ! j = Some q" for j q
      using i by (auto simp: nth_list_update)
    moreover have "tm_reusable m ! j \<noteq> Some p" if "j < max_mem_index" for j using p that I(1) by (auto simp: kept_iff)
    ultimately have "recycle_inv (live(p := None)) ?m"
      unfolding recycle_inv_def k using I(1,3,4,5,6) p ok assms(2) by (auto intro: I(2))
    moreover have "load_byte p (length bs) m = Some (b ! length bs)" using b by (simp add: load_byte_def live_ok_def)
    moreover have "store_byte p 0 (b ! length bs) m = Some (m\<lparr>tm_blocks := (tm_blocks m)(p \<mapsto> ?b)\<rparr>)"
      using b by (auto simp: store_byte_def live_ok_def)
    ultimately have "keep_block (i # is) p (length bs) m = Some ?m" "recycle_inv (live(p := None)) ?m" using None by simp_all
    then show ?thesis by blast
  next
    case (Some q)
    then show ?thesis using Cons by simp
  qed
qed

lemma deallocate_inv:
  assumes "recycle_inv live m" "live p = Some bs"
  shows "\<exists>m'. deallocate purpose this_thread p (length bs) m = Some m' \<and> recycle_inv (live(p := None)) m'"
  using keep_block_inv [OF assms _ mem_indices_bound [of purpose]] recycle_free [OF assms] unfolding deallocate_def by metis

lemma write_inv:
  assumes "recycle_inv live m" "live p = Some bs" "i < length bs"
  shows "\<exists>m'. store_byte p i v m = Some m' \<and> recycle_inv (live(p \<mapsto> bs[i := v])) m'"
proof -
  note I = recycle_invD [OF assms(1)]
  obtain b where b: "tm_blocks m p = Some b" "live_ok bs b" using I(6) assms(2) by blast
  then have n: "length bs < length b" "take (length bs) b = bs" by (simp_all add: live_ok_def)
  have p: "p \<notin> kept m" using I(3) assms(2) by auto
  let ?m = "m\<lparr>tm_blocks := (tm_blocks m)(p \<mapsto> b[i := v])\<rparr>"
  have ok: "live_ok (bs[i := v]) (b[i := v])" using b(2) assms(3) by (auto simp: live_ok_def take_update_swap)
  have "kept ?m = kept m" by (simp add: kept_def)
  then have "recycle_inv (live(p \<mapsto> bs[i := v])) ?m"
    using I(1,3,4,5,6) p ok assms(2) by (auto simp: recycle_inv_def intro: I(2))
  moreover have "i < length b" using n(1) assms(3) by simp
  ultimately show ?thesis using b(1) by (simp add: store_byte_def)
qed

section \<open>A thread and its clients\<close>

text \<open>Any sequence of calls that free what was allocated, with its size, and write inside the objects; the map holds what
  the clients believe is in their blocks.\<close>

inductive recycled :: "aligned_alloc \<Rightarrow> live \<Rightarrow> thread_memory \<Rightarrow> bool" for alloc where
  started: "recycled alloc Map.empty (thread_info_new Map.empty)"
| allocated: "recycled alloc live m \<Longrightarrow> allocate alloc purpose this_thread n (2 ^ k) m = Done p m' \<Longrightarrow>
    recycled alloc (live(p \<mapsto> take n (the (tm_blocks m' p)))) m'"
| failed: "recycled alloc live m \<Longrightarrow> allocate alloc purpose this_thread n (2 ^ k) m = Thrown m' \<Longrightarrow> recycled alloc live m'"
| freed: "recycled alloc live m \<Longrightarrow> live p = Some bs \<Longrightarrow> deallocate purpose this_thread p (length bs) m = Some m' \<Longrightarrow>
    recycled alloc (live(p := None)) m'"
| written: "recycled alloc live m \<Longrightarrow> live p = Some bs \<Longrightarrow> i < length bs \<Longrightarrow> store_byte p i v m = Some m' \<Longrightarrow>
    recycled alloc (live(p \<mapsto> bs[i := v])) m'"

lemma recycled_inv:
  assumes "recycled alloc live m" "alloc_law alloc"
  shows "recycle_inv live m"
  using assms(1)
proof induction
  case started
  have "kept (thread_info_new Map.empty) = {}" by (auto simp: kept_def thread_info_new_def)
  then show ?case by (auto simp: recycle_inv_def) (simp_all add: thread_info_new_def)
next
  case (allocated live m purpose this_thread n k p m')
  then have "given live (2 ^ k) n p m'"
    using allocate_given [OF assms(2) allocated(3) refl, where purpose = purpose and this_thread = this_thread and n = n and k = k] by simp
  then obtain b where b: "tm_blocks m' p = Some b" "recycle_inv (live(p \<mapsto> take n b)) m'" by (auto simp: given_def)
  then have "the (tm_blocks m' p) = b" by simp
  then show ?case using b(2) by (simp only:)
next
  case (failed live m purpose this_thread n k m')
  then show ?case using allocate_given [OF assms(2) failed(3) refl, where purpose = purpose and this_thread = this_thread and n = n and k = k] by simp
next
  case (freed live m p bs purpose this_thread m')
  then show ?case using deallocate_inv [OF freed(4,2), of purpose this_thread] by (metis option.inject)
next
  case (written live m p bs i v m')
  then show ?case using write_inv [OF written(5,2,3), of v] by (metis option.inject)
qed

lemma delete_reusable_blocks:
  assumes "distinct is" "\<forall>i\<in>set is. \<forall>j\<in>set is. \<forall>p. tm_reusable m ! i = Some p \<and> tm_reusable m ! j = Some p \<longrightarrow> i = j"
    and "\<forall>i\<in>set is. \<forall>p. tm_reusable m ! i = Some p \<longrightarrow> p \<in> dom (tm_blocks m)"
  shows "\<exists>m'. delete_reusable is m = Some m' \<and> dom (tm_blocks m') = dom (tm_blocks m) - {p. \<exists>i\<in>set is. tm_reusable m ! i = Some p}"
  using assms
proof (induction "is" arbitrary: m)
  case (Cons i "is")
  show ?case
  proof (cases "tm_reusable m ! i")
    case None
    then show ?thesis using Cons by auto
  next
    case (Some p)
    let ?m = "m\<lparr>tm_blocks := (tm_blocks m)(p := None)\<rparr>"
    have d: "aligned_delete p m = Some ?m" using Cons(4) Some by (auto simp: aligned_delete_def)
    have c: "\<forall>j\<in>set is. \<forall>q. tm_reusable ?m ! j = Some q \<longrightarrow> q \<in> dom (tm_blocks ?m)"
    proof (intro ballI allI impI)
      fix j q assume j: "j \<in> set is" "tm_reusable ?m ! j = Some q"
      then have "q \<noteq> p" using Cons(2,3) Some by auto
      then show "q \<in> dom (tm_blocks ?m)" using Cons(4) j by auto
    qed
    have a: "distinct is" using Cons(2) by simp
    have b: "\<forall>i\<in>set is. \<forall>j\<in>set is. \<forall>p. tm_reusable ?m ! i = Some p \<and> tm_reusable ?m ! j = Some p \<longrightarrow> i = j" using Cons(3) by simp
    from Cons(1) [OF a b c] obtain m' where "delete_reusable is ?m = Some m'"
      "dom (tm_blocks m') = dom (tm_blocks ?m) - {q. \<exists>j\<in>set is. tm_reusable ?m ! j = Some q}" by blast
    then show ?thesis using d Some by auto
  qed
qed simp

text \<open>Nothing is freed twice and nothing is left: when the clients have given everything back, the destructor leaves no
  block.\<close>

lemma thread_info_no_leak:
  assumes "recycled alloc Map.empty m" "alloc_law alloc"
  shows "\<exists>m'. thread_info_destroy m = Some m' \<and> tm_blocks m' = Map.empty"
proof -
  note I = recycle_invD [OF recycled_inv [OF assms]]
  have k: "kept m = {p. \<exists>i\<in>set [0..<max_mem_index]. tm_reusable m ! i = Some p}" using I(1) by (auto simp: kept_iff Bex_def)
  have "\<exists>m'. delete_reusable [0..<max_mem_index] m = Some m' \<and> dom (tm_blocks m') = dom (tm_blocks m) - kept m"
    unfolding k by (rule delete_reusable_blocks) (use I(1,2,4) in \<open>auto simp: kept_iff\<close>)
  then show ?thesis using I(4) by (auto simp: thread_info_destroy_def)
qed

section \<open>Slots\<close>

text \<open>What a slot holds is a block in use of the recorded size, or nothing.\<close>

definition slot_ok :: "live \<Rightarrow> slot \<Rightarrow> bool" where
  "slot_ok live handler \<longleftrightarrow> (case handler of None \<Rightarrow> True | Some (p, n) \<Rightarrow> \<exists>bs. live p = Some bs \<and> length bs = n)"

lemma slot_clear_ok:
  assumes "recycle_inv live m" "slot_ok live handler"
  shows "\<exists>m' live'. slot_clear this_thread handler m = Some (None, m') \<and> recycle_inv live' m'"
  using assms deallocate_inv [OF assms(1)] by (auto simp: slot_clear_def slot_ok_def split: option.splits) metis+

lemma prepare_memory_ok:
  assumes "alloc_law alloc" "recycle_inv live m" "slot_ok live handler" "0 < n" "align = 2 ^ k"
  shows "case prepare_memory alloc this_thread n align handler m of
    Undefined \<Rightarrow> False | Thrown m' \<Rightarrow> \<exists>live'. recycle_inv live' m'
  | Done (p, size') m' \<Rightarrow> n \<le> size' \<and> p mod align = 0 \<and> (\<exists>live'. recycle_inv live' m' \<and> slot_ok live' (Some (p, size')))"
proof -
  have get: "case (case allocate alloc Cancellation_signal this_thread n align m of
      Done p m \<Rightarrow> Done (p, n) m | Thrown m \<Rightarrow> Thrown m | Undefined \<Rightarrow> Undefined) of
    Undefined \<Rightarrow> False | Thrown m' \<Rightarrow> \<exists>live'. recycle_inv live' m'
  | Done (p, size') m' \<Rightarrow> n \<le> size' \<and> p mod align = 0 \<and> (\<exists>live'. recycle_inv live' m' \<and> slot_ok live' (Some (p, size')))"
    if inv: "recycle_inv live m" for live m
  proof (cases "allocate alloc Cancellation_signal this_thread n align m")
    case (Done p m')
    then have "given live align n p m'" using allocate_given [OF assms(1) inv assms(5), where purpose = Cancellation_signal and this_thread = this_thread and n = n] by simp
    then obtain b where "p mod align = 0" "n < length b" "recycle_inv (live(p \<mapsto> take n b)) m'" by (auto simp: given_def)
    then show ?thesis using Done by (auto simp: slot_ok_def intro!: exI [of _ "live(p \<mapsto> take n b)"])
  qed (use allocate_given [OF assms(1) inv assms(5), where purpose = Cancellation_signal and this_thread = this_thread and n = n] in auto)
  show ?thesis
  proof (cases handler)
    case None
    then show ?thesis using get [OF assms(2)] assms(4) by (simp add: prepare_memory_def)
  next
    case (Some h)
    then obtain p bs where h: "handler = Some (p, length bs)" "live p = Some bs" using assms(3) by (auto simp: slot_ok_def)
    from deallocate_inv [OF assms(2) h(2)] obtain m' where
      "deallocate Cancellation_signal this_thread p (length bs) m = Some m'" "recycle_inv (live(p := None)) m'" by blast
    then show ?thesis using h get [of "live(p := None)" m'] assms(2,3) by (auto simp: prepare_memory_def)
  qed
qed

section \<open>Properties\<close>


text \<open>An allocator with room for two blocks.\<close>

definition two_blocks :: aligned_alloc where
  "two_blocks h align n =
     (if 64 mod align = 0 \<and> h 64 = None then Some (64, replicate n 0)
      else if 192 mod align = 0 \<and> h 192 = None then Some (192, replicate n 0) else None)"

lemma two_blocks_law: "alloc_law two_blocks"
  by (auto simp: alloc_law_def two_blocks_def split: if_splits)

definition first_thread :: thread_memory where
  "first_thread = (case allocate two_blocks Default True 10 8 (thread_info_new Map.empty) of Done p m \<Rightarrow> m)"

definition second_thread :: thread_memory where
  "second_thread = the (deallocate Default True 64 10 first_thread)"

end
