(* ===== verification/AsioServices.thy ===== *)
theory AsioServices
  imports AsioBuffers
begin

text \<open>
  The services of an execution context: \<^verbatim>\<open>include/asio/detail/impl/service_registry.ipp\<close>, the creating functions of
  \<^verbatim>\<open>detail/impl/service_registry.hpp\<close> and the parts of \<^verbatim>\<open>impl/execution_context.ipp\<close> and
  \<^verbatim>\<open>impl/execution_context.hpp\<close> that rest on it. A constructor of a service may ask for other services, and several
  threads may ask at once: the mutex is not held while a service is constructed, so every section under the mutex is a
  step, and a thread has a stack of services it is constructing.
\<close>

section \<open>Keys and services\<close>

text \<open>The address of a type's information and of an id, where there is one.\<close>

record key =
  key_type_info :: "nat option"
  key_id :: "nat option"

definition init_key_type :: "nat \<Rightarrow> key" where
  "init_key_type t = \<lparr>key_type_info = Some t, key_id = None\<rparr>"

definition init_key_from_id :: "nat \<Rightarrow> key" where
  "init_key_from_id i = \<lparr>key_type_info = None, key_id = Some i\<rparr>"

definition keys_match :: "key \<Rightarrow> key \<Rightarrow> bool" where
  "keys_match key1 key2 \<longleftrightarrow>
     (key_id key1 \<noteq> None \<and> key_id key2 \<noteq> None \<and> key_id key1 = key_id key2) \<or>
     (key_type_info key1 \<noteq> None \<and> key_type_info key2 \<noteq> None \<and> key_type_info key1 = key_type_info key2)"

text \<open>A service object: its address, key, owner, and whether \<open>destroy_\<close> is set. \<open>uses\<close> are the services its constructor
  got from the registry; no code reads it.\<close>

record service =
  svc_ptr :: nat
  svc_key :: key
  svc_owner :: nat
  svc_destroy :: bool
  svc_uses :: "nat list"

text \<open>The list from \<open>first_service_\<close> on.\<close>

record service_registry =
  reg_owner :: nat
  reg_services :: "service list"

definition service_registry_new :: "nat \<Rightarrow> service_registry" where
  "service_registry_new owner = \<lparr>reg_owner = owner, reg_services = []\<rparr>"

fun find_service :: "key \<Rightarrow> service list \<Rightarrow> service option" where
  "find_service key [] = None"
| "find_service key (s # ss) = (if keys_match (svc_key s) key then Some s else find_service key ss)"

definition do_has_service :: "key \<Rightarrow> service_registry \<Rightarrow> bool" where
  "do_has_service key reg = (find_service key (reg_services reg) \<noteq> None)"

text \<open>\<open>do_use_service\<close> up to \<open>lock.unlock()\<close>, and from \<open>lock.lock()\<close> on with the service that was constructed
  meanwhile: the service the caller gets, and whether the new one is destroyed.\<close>

definition use_existing :: "key \<Rightarrow> service_registry \<Rightarrow> service option" where
  "use_existing key reg = find_service key (reg_services reg)"

definition use_created :: "key \<Rightarrow> service \<Rightarrow> service_registry \<Rightarrow> service \<times> bool \<times> service_registry" where
  "use_created key new_service reg =
     (let new_service = new_service\<lparr>svc_key := key\<rparr>
      in case find_service key (reg_services reg) of
           Some s \<Rightarrow> (s, True, reg)
         | None \<Rightarrow> (new_service, False, reg\<lparr>reg_services := new_service # reg_services reg\<rparr>))"

datatype add_error = Invalid_service_owner | Service_already_exists

definition do_add_service :: "key \<Rightarrow> service \<Rightarrow> service_registry \<Rightarrow> add_error + service_registry" where
  "do_add_service key new_service reg =
     (if reg_owner reg \<noteq> svc_owner new_service then Inl Invalid_service_owner
      else if find_service key (reg_services reg) \<noteq> None then Inl Service_already_exists
      else Inr (reg\<lparr>reg_services := new_service\<lparr>svc_destroy := True, svc_key := key\<rparr> # reg_services reg\<rparr>))"

text \<open>The orders in which the services are shut down, destroyed and told of a fork.\<close>

definition shutdown_services :: "service_registry \<Rightarrow> service list" where
  "shutdown_services reg = reg_services reg"

fun destroy_loop :: "service list \<Rightarrow> service list \<Rightarrow> service list" where
  "destroy_loop [] done' = done'"
| "destroy_loop (s # ss) done' = destroy_loop ss (done' @ [s])"

definition destroy_services :: "service_registry \<Rightarrow> service list \<times> service_registry" where
  "destroy_services reg = (destroy_loop (reg_services reg) [], reg\<lparr>reg_services := []\<rparr>)"

datatype fork_event = Fork_prepare | Fork_parent | Fork_child

definition notify_fork :: "fork_event \<Rightarrow> service_registry \<Rightarrow> service list" where
  "notify_fork fork_ev reg =
     (let services = reg_services reg; num_services = length services
      in if fork_ev = Fork_prepare then map (\<lambda>i. services ! i) [0..<num_services]
         else map (\<lambda>i. services ! (i - 1)) (rev [1..<num_services + 1]))"

definition context_destroy :: "service_registry \<Rightarrow> service list \<times> service list \<times> service_registry" where
  "context_destroy reg = (case destroy_services reg of (destroyed, reg') \<Rightarrow> (shutdown_services reg, destroyed, reg'))"

section \<open>Threads\<close>

text \<open>A thread is constructing services, the innermost first, each with what its constructor has got so far. \<open>results\<close>
  records every answer of \<open>use_service\<close>, \<open>discarded\<close> the services that came second.\<close>

record services_state =
  registry :: service_registry
  constructing :: "nat \<Rightarrow> (key \<times> nat list) list"
  next_ptr :: nat
  results :: "(key \<times> nat) list"
  discarded :: "nat list"

fun answer :: "nat \<Rightarrow> (key \<times> nat list) list \<Rightarrow> (key \<times> nat list) list" where
  "answer p [] = []"
| "answer p ((key, got) # frames) = (key, p # got) # frames"

definition services_start :: "nat \<Rightarrow> services_state" where
  "services_start owner = \<lparr>registry = service_registry_new owner, constructing = (\<lambda>t. []), next_ptr = 0, results = [], discarded = []\<rparr>"

definition valid_key :: "key \<Rightarrow> bool" where
  "valid_key key \<longleftrightarrow> (\<exists>t. key = init_key_type t) \<or> (\<exists>i. key = init_key_from_id i)"

text \<open>Thread \<open>t\<close> calls \<open>use_service\<close>: the service is there, or its constructor is entered; the constructor returns; a
  service made elsewhere, which may have been given services of the registry, is added.\<close>

inductive services_step :: "services_state \<Rightarrow> services_state \<Rightarrow> bool" where
  found: "valid_key key \<Longrightarrow> use_existing key (registry st) = Some s \<Longrightarrow>
    services_step st (st\<lparr>constructing := (constructing st)(t := answer (svc_ptr s) (constructing st t)),
      results := (key, svc_ptr s) # results st\<rparr>)"
| construct: "valid_key key \<Longrightarrow> use_existing key (registry st) = None \<Longrightarrow>
    services_step st (st\<lparr>constructing := (constructing st)(t := (key, []) # constructing st t)\<rparr>)"
| constructed: "constructing st t = (key, got) # frames \<Longrightarrow>
    new = \<lparr>svc_ptr = next_ptr st, svc_key = key, svc_owner = reg_owner (registry st), svc_destroy = True, svc_uses = got\<rparr> \<Longrightarrow>
    use_created key new (registry st) = (s, destroyed, reg) \<Longrightarrow>
    services_step st (st\<lparr>registry := reg, constructing := (constructing st)(t := answer (svc_ptr s) frames),
      next_ptr := next_ptr st + 1, results := (key, svc_ptr s) # results st,
      discarded := (if destroyed then next_ptr st # discarded st else discarded st)\<rparr>)"
| added: "valid_key key \<Longrightarrow> svc_ptr new = next_ptr st \<Longrightarrow> set (svc_uses new) \<subseteq> svc_ptr ` set (reg_services (registry st)) \<Longrightarrow>
    do_add_service key new (registry st) = Inr reg \<Longrightarrow>
    services_step st (st\<lparr>registry := reg, next_ptr := next_ptr st + 1\<rparr>)"

inductive services_reach :: "nat \<Rightarrow> services_state \<Rightarrow> bool" for owner where
  start: "services_reach owner (services_start owner)"
| step: "services_reach owner st \<Longrightarrow> services_step st st' \<Longrightarrow> services_reach owner st'"

section \<open>The allocator of a context\<close>

text \<open>\<open>detail::align\<close>, then the distance to the start of the storage, kept behind the object; \<open>None\<close> is \<open>bad_alloc\<close>. The
  address of the storage, of \<open>size + align - 1\<close> bytes and those of the distance, comes from the user's allocator.\<close>

definition align_up :: "nat \<Rightarrow> nat \<Rightarrow> nat \<Rightarrow> nat \<Rightarrow> nat option" where
  "align_up alignment size' p space =
     (let q = (p + alignment - 1) div alignment * alignment in if q - p + size' \<le> space then Some q else None)"

abbreviation ptrdiff_bytes :: nat where "ptrdiff_bytes \<equiv> 8"

definition storage_size :: "nat \<Rightarrow> nat \<Rightarrow> nat" where
  "storage_size size' align = size' + align - 1 + ptrdiff_bytes"

definition context_allocate :: "nat \<Rightarrow> nat \<Rightarrow> nat \<Rightarrow> memory \<Rightarrow> (nat \<times> memory) option" where
  "context_allocate base size' align m =
     (let space = size' + align - 1
      in case align_up align size' base space of
           None \<Rightarrow> None
         | Some p \<Rightarrow> let off = p - base
                    in Some (p, store [p + size' ..< p + size' + ptrdiff_bytes] (le_bytes ptrdiff_bytes (of_nat off :: 64 word)) m))"

text \<open>What is given back to the user's allocator.\<close>

definition context_deallocate :: "nat \<Rightarrow> nat \<Rightarrow> nat \<Rightarrow> memory \<Rightarrow> nat \<times> nat" where
  "context_deallocate p size' align m =
     (let off = of_le (map m [p + size' ..< p + size' + ptrdiff_bytes]) :: 64 word
      in (p - unat off, storage_size size' align))"

section \<open>Lookups\<close>

lemma keys_match_eq [simp]: "valid_key a \<Longrightarrow> valid_key b \<Longrightarrow> keys_match a b \<longleftrightarrow> a = b"
  by (auto simp: valid_key_def keys_match_def init_key_type_def init_key_from_id_def)

lemma find_service_iff:
  assumes "valid_key key" "\<forall>s\<in>set ss. valid_key (svc_key s)"
  shows "find_service key ss = None \<longleftrightarrow> key \<notin> svc_key ` set ss"
    and "find_service key ss = Some s \<Longrightarrow> s \<in> set ss \<and> svc_key s = key"
  using assms by (induction ss) (auto split: if_splits)

section \<open>The invariant\<close>

text \<open>Whatever a service uses is older than it.\<close>

fun older_used :: "service list \<Rightarrow> bool" where
  "older_used [] = True"
| "older_used (s # ss) \<longleftrightarrow> set (svc_uses s) \<subseteq> svc_ptr ` set ss \<and> older_used ss"

definition registry_ok :: "service list \<Rightarrow> nat \<Rightarrow> nat list \<Rightarrow> bool" where
  "registry_ok ss next' gone \<longleftrightarrow> (\<forall>s\<in>set ss. valid_key (svc_key s)) \<and> distinct (map svc_key ss) \<and> older_used ss \<and>
     distinct (gone @ map svc_ptr ss) \<and> set gone \<union> svc_ptr ` set ss = {..<next'}"

definition services_inv :: "services_state \<Rightarrow> bool" where
  "services_inv st \<longleftrightarrow> registry_ok (reg_services (registry st)) (next_ptr st) (discarded st) \<and>
     (\<forall>(k, p)\<in>set (results st). \<exists>s\<in>set (reg_services (registry st)). svc_key s = k \<and> svc_ptr s = p) \<and>
     (\<forall>t. \<forall>(k, got)\<in>set (constructing st t). valid_key k \<and> set got \<subseteq> svc_ptr ` set (reg_services (registry st)))"

lemma services_invD:
  "services_inv st \<Longrightarrow> registry_ok (reg_services (registry st)) (next_ptr st) (discarded st)"
  "services_inv st \<Longrightarrow> \<forall>(k, p)\<in>set (results st). \<exists>s\<in>set (reg_services (registry st)). svc_key s = k \<and> svc_ptr s = p"
  "services_inv st \<Longrightarrow> \<forall>t. \<forall>(k, got)\<in>set (constructing st t). valid_key k \<and> set got \<subseteq> svc_ptr ` set (reg_services (registry st))"
  by (unfold services_inv_def) (elim conjE, assumption)+

lemma upto_next:
  assumes "A \<union> B = {..<n :: nat}"
  shows "n \<notin> A" "n \<notin> B" "insert n A \<union> B = {..<n + 1}" "A \<union> insert n B = {..<n + 1}"
proof -
  show "n \<notin> A" "n \<notin> B" using assms by blast+
  have "insert n (A \<union> B) = {..<n + 1}" unfolding assms by (simp add: lessThan_Suc)
  then show "insert n A \<union> B = {..<n + 1}" "A \<union> insert n B = {..<n + 1}" by simp_all
qed

lemma registry_ok_add:
  assumes "registry_ok ss n gone" "valid_key (svc_key s)" "svc_key s \<notin> svc_key ` set ss" "svc_ptr s = n"
    and "set (svc_uses s) \<subseteq> svc_ptr ` set ss"
  shows "registry_ok (s # ss) (n + 1) gone"
proof -
  have "set gone \<union> svc_ptr ` set ss = {..<n}" using assms(1) by (simp add: registry_ok_def)
  from upto_next [OF this] show ?thesis using assms by (simp add: registry_ok_def)
qed

lemma registry_ok_discard:
  assumes "registry_ok ss n gone"
  shows "registry_ok ss (n + 1) (n # gone)"
proof -
  have "set gone \<union> svc_ptr ` set ss = {..<n}" using assms by (simp add: registry_ok_def)
  from upto_next [OF this] show ?thesis using assms by (simp add: registry_ok_def)
qed

lemma answer_frames:
  "p \<in> A \<Longrightarrow> \<forall>(k, got)\<in>set frames. valid_key k \<and> set got \<subseteq> A \<Longrightarrow> \<forall>(k, got)\<in>set (answer p frames). valid_key k \<and> set got \<subseteq> A"
  by (cases "(p, frames)" rule: answer.cases) auto

text \<open>A service that is there is the answer.\<close>

lemma services_inv_same:
  assumes "services_inv st" "registry_ok (reg_services (registry st)) n gone"
    and "\<forall>(k, got)\<in>set frames. valid_key k \<and> set got \<subseteq> svc_ptr ` set (reg_services (registry st))"
    and "s \<in> set (reg_services (registry st))"
  shows "services_inv (st\<lparr>constructing := (constructing st)(t := frames), next_ptr := n,
    results := (svc_key s, svc_ptr s) # results st, discarded := gone\<rparr>)"
proof -
  let ?ss = "reg_services (registry st)"
  have "\<forall>(k, p)\<in>set ((svc_key s, svc_ptr s) # results st). \<exists>s\<in>set ?ss. svc_key s = k \<and> svc_ptr s = p"
    using services_invD(2) [OF assms(1)] assms(4) by auto
  then show ?thesis using services_invD(3) [OF assms(1)] assms(2,3) by (simp add: services_inv_def)
qed

text \<open>A newer service is put in front.\<close>

lemma services_inv_grow:
  assumes "services_inv st" "registry_ok (new # reg_services (registry st)) n (discarded st)"
    and "\<forall>(k, got)\<in>set frames. valid_key k \<and> set got \<subseteq> svc_ptr ` set (new # reg_services (registry st))" "svc_key new = key"
  shows "services_inv (st\<lparr>registry := (registry st)\<lparr>reg_services := new # reg_services (registry st)\<rparr>,
    constructing := (constructing st)(t := frames), next_ptr := n, results := (key, svc_ptr new) # results st\<rparr>)"
proof -
  let ?ss = "reg_services (registry st)"
  note old = services_invD(2,3) [OF assms(1)]
  have "\<forall>(k, got)\<in>set (constructing st t). valid_key k \<and> set got \<subseteq> svc_ptr ` set (new # ?ss)" for t
    using old(2) [THEN spec, of t] by auto
  moreover have "\<forall>(k, p)\<in>set ((key, svc_ptr new) # results st). \<exists>s\<in>set (new # ?ss). svc_key s = k \<and> svc_ptr s = p"
    using old(1) assms(4) by auto
  ultimately show ?thesis using assms(2,3) by (simp add: services_inv_def)
qed

lemma services_step_inv:
  assumes "services_step st st'" "services_inv st"
  shows "services_inv st'"
  using assms
proof (induction rule: services_step.induct)
  case (found key st s t)
  let ?ss = "reg_services (registry st)"
  have s: "s \<in> set ?ss" "svc_key s = key"
    using find_service_iff(2) [OF found(1), of ?ss s] found(2,3) by (auto simp: use_existing_def services_inv_def registry_ok_def)
  then have "svc_ptr s \<in> svc_ptr ` set ?ss" by blast
  from services_inv_same [OF found(3) services_invD(1) [OF found(3)] answer_frames [OF this services_invD(3) [OF found(3), THEN spec]] s(1), of t]
  show ?case using s(2) by simp
next
  case (construct key st t)
  then show ?case by (auto simp: services_inv_def)
next
  case (constructed st t key got frames new s destroyed reg)
  let ?ss = "reg_services (registry st)"
  have ok: "registry_ok ?ss (next_ptr st) (discarded st)" using constructed(4) by (simp add: services_inv_def)
  have "\<forall>(k, got)\<in>set (constructing st t). valid_key k \<and> set got \<subseteq> svc_ptr ` set ?ss" by (rule services_invD(3) [OF constructed(4), THEN spec])
  then have key: "valid_key key" "set got \<subseteq> svc_ptr ` set ?ss"
    and frames: "\<forall>(k, got)\<in>set frames. valid_key k \<and> set got \<subseteq> svc_ptr ` set ?ss"
    unfolding constructed(1) by auto
  have valid: "\<forall>s\<in>set ?ss. valid_key (svc_key s)" using ok by (simp add: registry_ok_def)
  show ?case
  proof (cases "find_service key ?ss")
    case (Some s')
    then have s: "s = s'" "destroyed" "reg = registry st" using constructed(3) by (auto simp: use_created_def Let_def)
    have s': "s' \<in> set ?ss" "svc_key s' = key" using find_service_iff(2) [OF key(1) valid Some] by auto
    then have "svc_ptr s' \<in> svc_ptr ` set ?ss" by blast
    from services_inv_same [OF constructed(4) registry_ok_discard [OF ok] answer_frames [OF this frames] s'(1), of t]
    show ?thesis using s s'(2) by simp
  next
    case None
    then have s: "s = new" "\<not> destroyed" "reg = (registry st)\<lparr>reg_services := new # ?ss\<rparr>"
      using constructed(2,3) by (auto simp: use_created_def Let_def)
    have "svc_key new \<notin> svc_key ` set ?ss" using find_service_iff(1) [OF key(1) valid] None constructed(2) by simp
    then have add: "registry_ok (new # ?ss) (next_ptr st + 1) (discarded st)"
      using registry_ok_add [OF ok, of new] constructed(2) key by simp
    have "svc_ptr new \<in> svc_ptr ` set (new # ?ss)" by simp
    moreover have "\<forall>(k, got)\<in>set frames. valid_key k \<and> set got \<subseteq> svc_ptr ` set (new # ?ss)" using frames by auto
    ultimately have "\<forall>(k, got)\<in>set (answer (svc_ptr new) frames). valid_key k \<and> set got \<subseteq> svc_ptr ` set (new # ?ss)" by (rule answer_frames)
    then have fr: "\<forall>(k, got)\<in>set (answer (svc_ptr s) frames). valid_key k \<and> set got \<subseteq> svc_ptr ` set (new # ?ss)" using s(1) by simp
    have "svc_key new = key" using constructed(2) by simp
    then show ?thesis using s(2,3) services_inv_grow [OF constructed(4) add _ _, of "answer (svc_ptr s) frames" key t] fr s(1) by simp
  qed
next
  case (added key new st reg)
  let ?ss = "reg_services (registry st)" and ?new = "new\<lparr>svc_destroy := True, svc_key := key\<rparr>"
  have ok: "registry_ok ?ss (next_ptr st) (discarded st)" using added(5) by (simp add: services_inv_def)
  have reg: "reg = (registry st)\<lparr>reg_services := ?new # ?ss\<rparr>" "find_service key ?ss = None"
    using added(4) by (auto simp: do_add_service_def split: if_splits)
  have "key \<notin> svc_key ` set ?ss" using find_service_iff(1) [OF added(1), of ?ss] reg(2) ok by (simp add: registry_ok_def)
  then have "registry_ok (?new # ?ss) (next_ptr st + 1) (discarded st)" using registry_ok_add [OF ok, of ?new] added(1-3) by simp
  moreover have "\<forall>(k, p)\<in>set (results st). \<exists>s\<in>set (?new # ?ss). svc_key s = k \<and> svc_ptr s = p"
    using added(5) by (auto simp: services_inv_def)
  moreover have "\<forall>(k, got)\<in>set (constructing st t). valid_key k \<and> set got \<subseteq> svc_ptr ` set (?new # ?ss)" for t
  proof -
    have "\<forall>(k, got)\<in>set (constructing st t). valid_key k \<and> set got \<subseteq> svc_ptr ` set ?ss" by (rule services_invD(3) [OF added(5), THEN spec])
    then show ?thesis by auto
  qed
  ultimately show ?case using reg(1) by (simp add: services_inv_def)
qed

lemma services_reach_inv: "services_reach owner st \<Longrightarrow> services_inv st"
proof (induction rule: services_reach.induct)
  case start
  then show ?case by (simp add: services_inv_def services_start_def service_registry_new_def registry_ok_def)
qed (rule services_step_inv)

section \<open>Orders\<close>

lemma destroy_loop_append: "destroy_loop ss done' = done' @ ss"
  by (induction ss arbitrary: done') simp_all

lemma destroy_order [simp]: "fst (destroy_services reg) = reg_services reg"
  by (simp add: destroy_services_def destroy_loop_append)

lemma older_used_split: "older_used (xs @ s # ys) \<Longrightarrow> p \<in> set (svc_uses s) \<Longrightarrow> p \<in> svc_ptr ` set ys"
  by (induction xs) auto

text \<open>Before a fork the newest service is told first, afterwards the oldest.\<close>

lemma notify_fork_order:
  "notify_fork fork_ev reg = (if fork_ev = Fork_prepare then reg_services reg else rev (reg_services reg))"
proof -
  have "map (\<lambda>i. ss ! (i - 1)) (rev [1..<length ss + 1]) = rev ss" for ss :: "service list"
  proof -
    have "[1..<length ss + 1] = map Suc [0..<length ss]" by (simp add: map_Suc_upt del: upt_Suc)
    then have "map (\<lambda>i. ss ! (i - 1)) [1..<length ss + 1] = ss" by (simp add: comp_def map_nth del: upt_Suc)
    then show ?thesis by (metis rev_map)
  qed
  then show ?thesis by (simp add: notify_fork_def Let_def map_nth)
qed

text \<open>What was ever constructed or added is destroyed once: as the second of its key, or with the context.\<close>

lemma services_destroyed_once:
  assumes "services_reach owner st"
  shows "distinct (discarded st @ map svc_ptr (fst (destroy_services (registry st)))) \<and>
    set (discarded st) \<union> svc_ptr ` set (fst (destroy_services (registry st))) = {..<next_ptr st}"
  using services_reach_inv [OF assms] by (simp add: services_inv_def registry_ok_def)

section \<open>The allocator\<close>

lemma align_up_fits:
  assumes "0 < alignment"
  obtains q where "align_up alignment n p (n + alignment - 1) = Some q" "p \<le> q" "q + n \<le> p + n + alignment - 1" "q mod alignment = 0"
proof -
  let ?q = "(p + alignment - 1) div alignment * alignment"
  have d: "?q + (p + alignment - 1) mod alignment = p + alignment - 1" by simp
  have "(p + alignment - 1) mod alignment < alignment" using assms by simp
  then have le: "p \<le> ?q" "?q \<le> p + alignment - 1" using d assms by linarith+
  then have "?q - p + n \<le> n + alignment - 1" using assms by linarith
  then have "align_up alignment n p (n + alignment - 1) = Some ?q" by (simp add: align_up_def)
  moreover have "?q + n \<le> p + n + alignment - 1" using le(2) assms by linarith
  ultimately show ?thesis using that le(1) by simp
qed

text \<open>The object is aligned and inside the storage with the distance behind it, and what is given back is what was taken,
  if its owner has not written outside it.\<close>

lemma context_allocate_roundtrip:
  assumes "0 < align" "align \<le> 2 ^ 32" "context_allocate base n align m = Some (p, m')"
    and "\<forall>a. a < p \<or> p + n \<le> a \<longrightarrow> m'' a = m' a"
  shows "p mod align = 0 \<and> base \<le> p \<and> p + n + ptrdiff_bytes \<le> base + storage_size n align \<and>
    context_deallocate p n align m'' = (base, storage_size n align)"
proof -
  obtain q where q: "align_up align n base (n + align - 1) = Some q" "base \<le> q" "q + n \<le> base + n + align - 1" "q mod align = 0"
    using align_up_fits [OF assms(1)] by blast
  let ?as = "[p + n ..< p + n + ptrdiff_bytes]" and ?bs = "le_bytes ptrdiff_bytes (of_nat (q - base) :: 64 word)"
  have p: "p = q" "m' = store ?as ?bs m" using assms(3) q(1) by (auto simp: context_allocate_def Let_def)
  have "map m'' ?as = map m' ?as" using assms(4) by (intro map_cong) auto
  also have "\<dots> = ?bs" unfolding p(2) by (rule store_same) simp_all
  finally have "of_le (map m'' ?as) = (of_nat (q - base) :: 64 word)" by (simp only: of_le_bytes [where 'a = 64, simplified])
  moreover have "q - base < 2 ^ 64" using q(3) assms(2) by simp
  ultimately have "unat (of_le (map m'' ?as) :: 64 word) = q - base" by (simp add: unat_of_nat)
  then have "context_deallocate p n align m'' = (base, storage_size n align)"
    using q(2) p(1) by (simp only: context_deallocate_def Let_def) simp
  then show ?thesis using q p by (simp add: storage_size_def)
qed

section \<open>Properties\<close>

text \<open>C35. There is one service for each key. Whatever threads ask for, in whatever order and however their constructors
  ask for one another, two calls of \<open>use_service\<close> with the same key have given the same object.\<close>

theorem services_unique:
  assumes "services_reach owner st" "(key, a) \<in> set (results st)" "(key, b) \<in> set (results st)"
  shows "a = b"
proof -
  have inv: "services_inv st" using assms(1) by (rule services_reach_inv)
  note got = services_invD(2) [OF inv]
  obtain s s' where "s \<in> set (reg_services (registry st))" "svc_key s = key" "svc_ptr s = a"
    "s' \<in> set (reg_services (registry st))" "svc_key s' = key" "svc_ptr s' = b"
    using bspec [OF got assms(2)] bspec [OF got assms(3)] by auto
  moreover have "inj_on svc_key (set (reg_services (registry st)))" using inv by (simp add: services_inv_def registry_ok_def distinct_map)
  ultimately show ?thesis by (metis inj_on_def)
qed

text \<open>A service outlives the services that use it. When the context destroys its services, every service a constructor
  was given is destroyed after the service that was constructed with it.\<close>

theorem services_outlive_users:
  assumes "services_reach owner st" "fst (destroy_services (registry st)) = xs @ s # ys" "p \<in> set (svc_uses s)"
  shows "p \<in> svc_ptr ` set ys"
  using services_reach_inv [OF assms(1)] assms(2,3) older_used_split [of xs s ys p]
  by (simp add: services_inv_def registry_ok_def)

text \<open>A thread asks for service 1, whose constructor asks for service 2; another thread asks for service 2 and constructs it
  first.\<close>

definition two_threads :: services_state where
  "two_threads = \<lparr>registry = \<lparr>reg_owner = 0, reg_services =
       [\<lparr>svc_ptr = 2, svc_key = init_key_type 7, svc_owner = 0, svc_destroy = True, svc_uses = [0]\<rparr>,
        \<lparr>svc_ptr = 0, svc_key = init_key_type 2, svc_owner = 0, svc_destroy = True, svc_uses = []\<rparr>]\<rparr>,
     constructing = (\<lambda>t. []), next_ptr = 3, results = [(init_key_type 7, 2), (init_key_type 2, 0), (init_key_type 2, 0)], discarded = [1]\<rparr>"

lemma valid_init_key: "valid_key (init_key_type t)"
  by (auto simp: valid_key_def)

lemma services_stepI: "services_reach owner st \<Longrightarrow> services_step st st1 \<Longrightarrow> st1 = st' \<Longrightarrow> services_reach owner st'"
  using services_reach.step by blast

lemma two_threads_reached: "services_reach 0 two_threads"
proof -
  let ?k1 = "init_key_type 7" and ?k2 = "init_key_type 2"
  let ?new = "\<lambda>p k us. \<lparr>svc_ptr = p, svc_key = k, svc_owner = 0, svc_destroy = True, svc_uses = us\<rparr>"
  define st where "st = (\<lambda>ss fs n rs ds. \<lparr>registry = \<lparr>reg_owner = 0, reg_services = ss\<rparr>, constructing = fs, next_ptr = n, results = rs, discarded = ds\<rparr>)"
  have keys: "keys_match ?k1 ?k2 = False" "keys_match ?k2 ?k1 = False" "keys_match ?k2 ?k2" "?k1 \<noteq> ?k2"
    by (auto simp: keys_match_def init_key_type_def)
  note defs = st_def use_existing_def use_created_def Let_def keys fun_eq_iff
  have "services_reach 0 (st [] (\<lambda>t. []) 0 [] [])"
    using start [of 0] by (simp add: services_start_def service_registry_new_def st_def)
  then have "services_reach 0 (st [] (\<lambda>t. if t = 0 then [(?k1, [])] else []) 0 [] [])"
    by (rule services_stepI [OF _ construct [of ?k1 _ 0]]) (simp_all add: defs valid_init_key)
  then have "services_reach 0 (st [] (\<lambda>t. if t = 0 then [(?k2, []), (?k1, [])] else []) 0 [] [])"
    by (rule services_stepI [OF _ construct [of ?k2 _ 0]]) (simp_all add: defs valid_init_key)
  then have "services_reach 0 (st [] (\<lambda>t. if t = 0 then [(?k2, []), (?k1, [])] else if t = 1 then [(?k2, [])] else []) 0 [] [])"
    by (rule services_stepI [OF _ construct [of ?k2 _ 1]]) (simp_all add: defs valid_init_key)
  then have "services_reach 0 (st [?new 0 ?k2 []] (\<lambda>t. if t = 0 then [(?k2, []), (?k1, [])] else []) 1 [(?k2, 0)] [])"
    by (rule services_stepI [OF _ constructed [where t = 1 and got = "[]" and frames = "[]" and new = "?new 0 ?k2 []" and s = "?new 0 ?k2 []" and destroyed = False and reg = "\<lparr>reg_owner = 0, reg_services = [?new 0 ?k2 []]\<rparr>"]]) (simp_all add: defs)
  then have "services_reach 0 (st [?new 0 ?k2 []] (\<lambda>t. if t = 0 then [(?k1, [0])] else []) 2 [(?k2, 0), (?k2, 0)] [1])"
    by (rule services_stepI [OF _ constructed [where t = 0 and got = "[]" and frames = "[(?k1, [])]" and new = "?new 1 ?k2 []" and s = "?new 0 ?k2 []" and destroyed = True and reg = "\<lparr>reg_owner = 0, reg_services = [?new 0 ?k2 []]\<rparr>"]]) (simp_all add: defs)
  then have "services_reach 0 (st [?new 2 ?k1 [0], ?new 0 ?k2 []] (\<lambda>t. []) 3 [(?k1, 2), (?k2, 0), (?k2, 0)] [1])"
    by (rule services_stepI [OF _ constructed [where t = 0 and got = "[0]" and frames = "[]" and new = "?new 2 ?k1 [0]" and s = "?new 2 ?k1 [0]" and destroyed = False and reg = "\<lparr>reg_owner = 0, reg_services = [?new 2 ?k1 [0], ?new 0 ?k2 []]\<rparr>"]]) (simp_all add: defs)
  then show ?thesis by (simp add: two_threads_def st_def)
qed

lemma services_unique_witness:
  "set (map fst (drop 1 (results two_threads))) = {init_key_type 2} \<and> snd (results two_threads ! 1) = snd (results two_threads ! 2)"
proof -
  have "(init_key_type 2, snd (results two_threads ! 1)) \<in> set (results two_threads)"
    "(init_key_type 2, snd (results two_threads ! 2)) \<in> set (results two_threads)"
    by (simp_all add: two_threads_def)
  from services_unique [OF two_threads_reached this] show ?thesis by (simp add: two_threads_def)
qed

lemma services_outlive_users_witness:
  "svc_uses (hd (fst (destroy_services (registry two_threads)))) = [0]
   \<and> 0 \<in> svc_ptr ` set (tl (fst (destroy_services (registry two_threads))))"
proof -
  let ?ds = "fst (destroy_services (registry two_threads))"
  have ds: "?ds = [] @ hd ?ds # tl ?ds" and uses: "svc_uses (hd ?ds) = [0]" by (simp_all add: two_threads_def)
  have "(0 :: nat) \<in> set (svc_uses (hd ?ds))" by (simp add: two_threads_def)
  from services_outlive_users [OF two_threads_reached ds this] uses show ?thesis by blast
qed
end
