(* ===== verification/AsioChannelBuffers.thy ===== *)
theory AsioChannelBuffers
  imports Prelude
begin

text \<open>
  The buffers of the channels of the vendored Asio, \<open>implementation_type\<close> of
  \<^verbatim>\<open>include/asio/experimental/detail/channel_service.hpp\<close>: a deque of messages for most signatures, a counter for
  \<open>R()\<close>, where the messages carry nothing, and run lengths for \<open>R(error_code)\<close>. The locale
  \<open>channel_buffer\<close> is what the channel relies on, each of the three implements it. Sizes are kept below \<open>2 ^ 64\<close>, the
  arithmetic of the last two wraps there.
\<close>

record ('b, 'm) buffer_ops =
  buffer_push :: "'m \<Rightarrow> 'b \<Rightarrow> 'b"
  buffer_push_n :: "nat \<Rightarrow> nat \<Rightarrow> 'm \<Rightarrow> 'b \<Rightarrow> 'b \<times> nat"   \<comment> \<open>the second argument is \<open>max_buffer_size_\<close>\<close>
  buffer_front :: "'b \<Rightarrow> 'm comp"
  buffer_pop :: "'b \<Rightarrow> 'b comp"
  buffer_size :: "'b \<Rightarrow> nat"
  buffer_clear :: "'b \<Rightarrow> 'b"
  buffer_move_from :: "'b \<Rightarrow> 'b \<times> 'b"   \<comment> \<open>the new buffer, and what is left of the other\<close>

section \<open>A deque of messages\<close>

fun deque_push_n :: "nat \<Rightarrow> nat \<Rightarrow> 'm \<Rightarrow> 'm list \<Rightarrow> 'm list \<times> nat" where
  "deque_push_n 0 max_size m q = (q, 0)"
| "deque_push_n (Suc count) max_size m q =
     (if length q < max_size then let (q', i) = deque_push_n count max_size m (q @ [m]) in (q', Suc i) else (q, 0))"

definition deque_front :: "'m list \<Rightarrow> 'm comp" where
  "deque_front q = (case q of [] \<Rightarrow> undef DeadObject | m # _ \<Rightarrow> ret m)"

definition deque_pop :: "'m list \<Rightarrow> 'm list comp" where
  "deque_pop q = (case q of [] \<Rightarrow> undef DeadObject | _ # q' \<Rightarrow> ret q')"

definition deque_ops :: "('m list, 'm) buffer_ops" where
  "deque_ops = \<lparr>buffer_push = \<lambda>m q. q @ [m], buffer_push_n = deque_push_n, buffer_front = deque_front, buffer_pop = deque_pop,
     buffer_size = length, buffer_clear = \<lambda>q. [], buffer_move_from = \<lambda>other. (other, [])\<rparr>"

section \<open>A counter\<close>

definition size_add :: "nat \<Rightarrow> nat \<Rightarrow> nat" where
  "size_add a b = (a + b) mod 2 ^ 64"

definition size_sub :: "nat \<Rightarrow> nat \<Rightarrow> nat" where
  "size_sub a b = (a + 2 ^ 64 - b) mod 2 ^ 64"

definition counter_push_n :: "nat \<Rightarrow> nat \<Rightarrow> unit \<Rightarrow> nat \<Rightarrow> nat \<times> nat" where
  "counter_push_n count max_size m n = (let k = min count (size_sub max_size n) in (size_add n k, k))"

definition counter_ops :: "(nat, unit) buffer_ops" where
  "counter_ops = \<lparr>buffer_push = \<lambda>m n. size_add n 1, buffer_push_n = counter_push_n, buffer_front = \<lambda>n. ret (),
     buffer_pop = \<lambda>n. ret (size_sub n 1), buffer_size = \<lambda>n. n, buffer_clear = \<lambda>n. 0, buffer_move_from = \<lambda>other. (other, 0)\<rparr>"

section \<open>Run lengths\<close>

record 'e coded_buffer =
  coded_size :: nat
  coded_first :: "'e \<times> nat"     \<comment> \<open>\<open>value_\<close> and \<open>count_\<close>\<close>
  coded_rest :: "('e \<times> nat) list"

definition coded_new :: "'e \<Rightarrow> 'e coded_buffer" where
  "coded_new e = \<lparr>coded_size = 0, coded_first = (e, 0), coded_rest = []\<rparr>"

definition last_value :: "'e coded_buffer \<Rightarrow> 'e \<times> nat" where
  "last_value b = (if coded_rest b = [] then coded_first b else last (coded_rest b))"

definition set_last_value :: "'e \<times> nat \<Rightarrow> 'e coded_buffer \<Rightarrow> 'e coded_buffer" where
  "set_last_value x b =
     (if coded_rest b = [] then b\<lparr>coded_first := x\<rparr> else b\<lparr>coded_rest := butlast (coded_rest b) @ [x]\<rparr>)"

definition coded_add :: "nat \<Rightarrow> 'e \<Rightarrow> 'e coded_buffer \<Rightarrow> 'e coded_buffer" where
  "coded_add k v b =
     (let (value, count) = last_value b in
      if count = 0 then set_last_value (v, k) b
      else if value = v then set_last_value (value, size_add count k) b
      else b\<lparr>coded_rest := coded_rest b @ [(v, k)]\<rparr>)"

definition coded_push :: "'e \<Rightarrow> 'e coded_buffer \<Rightarrow> 'e coded_buffer" where
  "coded_push v b = (coded_add 1 v b)\<lparr>coded_size := size_add (coded_size b) 1\<rparr>"

definition coded_push_n :: "nat \<Rightarrow> nat \<Rightarrow> 'e \<Rightarrow> 'e coded_buffer \<Rightarrow> 'e coded_buffer \<times> nat" where
  "coded_push_n count max_size v b =
     (let k = min count (size_sub max_size (coded_size b)) in
      (if k > 0 then (coded_add k v b)\<lparr>coded_size := size_add (coded_size b) k\<rparr> else b, k))"

definition coded_front :: "'e coded_buffer \<Rightarrow> 'e comp" where
  "coded_front b = ret (fst (coded_first b))"

definition coded_pop :: "'e coded_buffer \<Rightarrow> 'e coded_buffer comp" where
  "coded_pop b =
     (let b1 = b\<lparr>coded_size := size_sub (coded_size b) 1, coded_first := (fst (coded_first b), size_sub (snd (coded_first b)) 1)\<rparr> in
      ret (if snd (coded_first b1) = 0
           then (case coded_rest b1 of [] \<Rightarrow> b1 | x # xs \<Rightarrow> b1\<lparr>coded_first := x, coded_rest := xs\<rparr>)
           else b1))"

definition coded_clear :: "'e coded_buffer \<Rightarrow> 'e coded_buffer" where
  "coded_clear b = b\<lparr>coded_size := 0, coded_first := (fst (coded_first b), 0), coded_rest := []\<rparr>"

definition coded_ops :: "('e coded_buffer, 'e) buffer_ops" where
  "coded_ops = \<lparr>buffer_push = coded_push, buffer_push_n = coded_push_n, buffer_front = coded_front, buffer_pop = coded_pop,
     buffer_size = coded_size, buffer_clear = coded_clear, buffer_move_from = \<lambda>other. (other, coded_clear other)\<rparr>"

section \<open>The interface\<close>

locale channel_buffer =
  fixes ops :: "('b, 'm) buffer_ops"
    and msgs :: "'b \<Rightarrow> 'm list"
    and invar :: "'b \<Rightarrow> bool"
  assumes size_msgs: "invar b \<Longrightarrow> buffer_size ops b = length (msgs b)"
    and push_msgs: "invar b \<Longrightarrow> Suc (length (msgs b)) < 2 ^ 64 \<Longrightarrow>
      msgs (buffer_push ops m b) = msgs b @ [m] \<and> invar (buffer_push ops m b)"
    and push_n_msgs: "invar b \<Longrightarrow> length (msgs b) \<le> max_size \<Longrightarrow> max_size < 2 ^ 64 \<Longrightarrow>
      \<exists>b'. buffer_push_n ops n max_size m b = (b', min n (max_size - length (msgs b))) \<and> invar b' \<and>
        msgs b' = msgs b @ replicate (min n (max_size - length (msgs b))) m"
    and front_msgs: "invar b \<Longrightarrow> msgs b \<noteq> [] \<Longrightarrow> buffer_front ops b = ret (hd (msgs b))"
    and pop_msgs: "invar b \<Longrightarrow> msgs b \<noteq> [] \<Longrightarrow> \<exists>b'. buffer_pop ops b = ret b' \<and> invar b' \<and> msgs b' = tl (msgs b)"
    and clear_msgs: "invar b \<Longrightarrow> msgs (buffer_clear ops b) = [] \<and> invar (buffer_clear ops b)"
    and move_msgs: "invar b \<Longrightarrow> \<exists>b1 b2. buffer_move_from ops b = (b1, b2) \<and> msgs b1 = msgs b \<and> msgs b2 = [] \<and> invar b1 \<and> invar b2"

lemma deque_push_n_eq:
  "deque_push_n n max_size m q = (q @ replicate (min n (max_size - length q)) m, min n (max_size - length q))"
proof (induction n arbitrary: q)
  case (Suc n)
  show ?case
  proof (cases "length q < max_size")
    case True
    then have "max_size - length q = Suc (max_size - Suc (length q))" by simp
    then show ?thesis using True by (simp add: Suc)
  qed simp
qed simp

interpretation deque: channel_buffer deque_ops "\<lambda>q. q" "\<lambda>_. True"
  by unfold_locales (auto simp: deque_ops_def deque_push_n_eq deque_front_def deque_pop_def split: list.split)

lemma size_add_less: "a + b < 2 ^ 64 \<Longrightarrow> size_add a b = a + b"
  by (simp add: size_add_def)

lemma size_sub_le: "b \<le> a \<Longrightarrow> a < 2 ^ 64 \<Longrightarrow> size_sub a b = a - b"
  by (simp add: size_sub_def mod_if)

interpretation counter: channel_buffer counter_ops "\<lambda>n. replicate n ()" "\<lambda>n. n < 2 ^ 64"
proof unfold_locales
  fix n max_size k :: nat and m :: unit
  assume "n < 2 ^ 64" "length (replicate n ()) \<le> max_size" "max_size < 2 ^ 64"
  then have "size_sub max_size n = max_size - n" "size_add n (min k (max_size - n)) = n + min k (max_size - n)"
    by (simp_all add: size_sub_le size_add_less)
  then show "\<exists>b'. buffer_push_n counter_ops k max_size m n = (b', min k (max_size - length (replicate n ()))) \<and> b' < 2 ^ 64 \<and>
        replicate b' () = replicate n () @ replicate (min k (max_size - length (replicate n ()))) m"
    using \<open>max_size < 2 ^ 64\<close> \<open>n < 2 ^ 64\<close> by (auto simp: counter_ops_def counter_push_n_def replicate_add min_def Let_def)
qed (auto simp: counter_ops_def size_add_less size_sub_le replicate_append_same[symmetric] hd_replicate)

definition coded_msgs :: "'e coded_buffer \<Rightarrow> 'e list" where
  "coded_msgs b = concat (map (\<lambda>(v, n). replicate n v) (coded_first b # coded_rest b))"

definition coded_invar :: "'e coded_buffer \<Rightarrow> bool" where
  "coded_invar b \<longleftrightarrow> coded_size b = length (coded_msgs b) \<and> coded_size b < 2 ^ 64 \<and> (\<forall>x \<in> set (coded_rest b). 0 < snd x)
     \<and> (coded_rest b \<noteq> [] \<longrightarrow> 0 < snd (coded_first b))"

text \<open>The run lengths of a buffer, as the invariant keeps them.\<close>

definition coded_runs :: "'e coded_buffer \<Rightarrow> bool" where
  "coded_runs b \<longleftrightarrow> (\<forall>x \<in> set (coded_rest b). 0 < snd x) \<and> (coded_rest b \<noteq> [] \<longrightarrow> 0 < snd (coded_first b))"

lemma coded_invar_iff:
  "coded_invar b \<longleftrightarrow> coded_size b = length (coded_msgs b) \<and> coded_size b < 2 ^ 64 \<and> coded_runs b"
  by (auto simp: coded_invar_def coded_runs_def)

lemma coded_msgs_size [simp]: "coded_msgs (b\<lparr>coded_size := n\<rparr>) = coded_msgs b" "coded_runs (b\<lparr>coded_size := n\<rparr>) = coded_runs b"
  by (simp_all add: coded_msgs_def coded_runs_def)

lemma coded_add_msgs:
  assumes "coded_runs b" "0 < k" "length (coded_msgs b) + k < 2 ^ 64"
  shows "coded_msgs (coded_add k v b) = coded_msgs b @ replicate k v \<and> coded_runs (coded_add k v b)"
proof (cases "coded_rest b" rule: rev_cases)
  case Nil
  obtain w c where "coded_first b = (w, c)" by fastforce
  with Nil assms show ?thesis
    by (auto simp: coded_add_def last_value_def set_last_value_def coded_msgs_def coded_runs_def replicate_add size_add_less)
next
  case (snoc rs x)
  obtain w c u d where "x = (w, c)" "coded_first b = (u, d)" by fastforce
  with snoc assms show ?thesis
    by (auto simp: coded_add_def last_value_def set_last_value_def coded_msgs_def coded_runs_def replicate_add size_add_less)
qed

lemma coded_pop_msgs:
  assumes "coded_invar b" "coded_msgs b \<noteq> []"
  shows "\<exists>b'. coded_pop b = ret b' \<and> coded_invar b' \<and> coded_msgs b' = tl (coded_msgs b)"
proof -
  obtain w c where f: "coded_first b = (w, c)" by fastforce
  have c: "0 < c" using assms f by (cases "coded_rest b") (auto simp: coded_invar_def coded_msgs_def)
  have size: "0 < coded_size b" "coded_size b < 2 ^ 64" "c \<le> coded_size b" using assms f by (auto simp: coded_invar_def coded_msgs_def)
  have sub: "size_sub (coded_size b) 1 = coded_size b - 1" "size_sub c 1 = c - 1" using c size by (auto intro!: size_sub_le)
  from c obtain d where d: "c = Suc d" by (cases c) auto
  show ?thesis
  proof (cases "d = 0")
    case True
    then show ?thesis using assms f d sub size
      by (cases "coded_rest b") (auto simp: coded_pop_def coded_invar_def coded_msgs_def Let_def)
  next
    case False
    then show ?thesis using assms f d sub size by (auto simp: coded_pop_def coded_invar_def coded_msgs_def Let_def)
  qed
qed

lemma coded_front_msgs: "coded_invar b \<Longrightarrow> coded_msgs b \<noteq> [] \<Longrightarrow> coded_front b = ret (hd (coded_msgs b))"
  by (cases "coded_first b"; cases "snd (coded_first b)"; cases "coded_rest b") (auto simp: coded_invar_def coded_msgs_def coded_front_def)

lemma coded_size_msgs: "coded_invar b \<Longrightarrow> coded_size b = length (coded_msgs b)"
  by (simp add: coded_invar_def)

lemma coded_clear_msgs: "coded_msgs (coded_clear b) = [] \<and> coded_invar (coded_clear b)"
  by (simp add: coded_clear_def coded_msgs_def coded_invar_def)

interpretation coded: channel_buffer coded_ops coded_msgs coded_invar
proof unfold_locales
  fix b :: "'e coded_buffer" and n max_size m
  assume inv: "coded_invar b" and le: "length (coded_msgs b) \<le> max_size" and less: "max_size < 2 ^ 64"
  let ?k = "min n (max_size - length (coded_msgs b))"
  have k: "min n (size_sub max_size (coded_size b)) = ?k" using inv le less by (simp add: coded_invar_def size_sub_le)
  have bound: "length (coded_msgs b) + ?k < 2 ^ 64" using le less by linarith
  show "\<exists>b'. buffer_push_n coded_ops n max_size m b = (b', ?k) \<and> coded_invar b' \<and> coded_msgs b' = coded_msgs b @ replicate ?k m"
  proof (cases "?k = 0")
    case True
    then show ?thesis using inv k by (auto simp: coded_ops_def coded_push_n_def Let_def)
  next
    case False
    then show ?thesis using coded_add_msgs [of b ?k m] inv bound k
      by (auto simp: coded_ops_def coded_push_n_def Let_def coded_invar_iff size_add_less)
  qed
next
  fix b :: "'e coded_buffer" and m
  assume "coded_invar b" "Suc (length (coded_msgs b)) < 2 ^ 64"
  then show "coded_msgs (buffer_push coded_ops m b) = coded_msgs b @ [m] \<and> coded_invar (buffer_push coded_ops m b)"
    using coded_add_msgs [of b 1 m] by (simp add: coded_ops_def coded_push_def coded_invar_iff size_add_less)
next
  fix b :: "'e coded_buffer"
  assume "coded_invar b"
  then show "\<exists>b1 b2. buffer_move_from coded_ops b = (b1, b2) \<and> coded_msgs b1 = coded_msgs b \<and> coded_msgs b2 = [] \<and> coded_invar b1 \<and> coded_invar b2"
    by (auto simp: coded_ops_def coded_clear_def coded_msgs_def coded_invar_def)
qed (simp_all add: coded_ops_def coded_front_msgs coded_pop_msgs coded_clear_msgs coded_size_msgs)

end
