(* ===== verification/AsioChannel.thy ===== *)
theory AsioChannel
  imports AsioChannelBuffers "HOL-Library.Multiset" "HOL-Library.Sublist"
begin

text \<open>
  The channels of the vendored Asio: \<^verbatim>\<open>include/asio/experimental/detail/channel_service.hpp\<close>, its implementation under
  \<^verbatim>\<open>detail/impl\<close>, and the operations \<open>channel_send_op\<close> and \<open>channel_receive_op\<close>. A channel is a bounded
  buffer with a queue of waiting operations, all senders or all receivers, and a state for each end. An operation returns
  its result, the new channel and the handlers it submitted. The queue is a list (\<open>op_queue\<close> is verified in
  \<open>AsioOpQueue\<close>). Every function runs under the mutex of the channel; the exception, \<open>try_send_n\<close>, is treated below.
  A handler called by dispatch does not call the channel back in this model.
\<close>

section \<open>Operations\<close>

datatype chan_error = No_error | Channel_cancelled | Channel_closed

datatype 'm payload = Message 'm | Receive_cancelled | Receive_closed

datatype action = Destroy_op | Immediate_op | Post_op | Dispatch_op | Cancel_op | Close_op

datatype via = Via_immediate | Via_post | Via_dispatch

datatype 'm completion =
    Send_handler nat chan_error via
  | Receive_handler nat "'m payload" via
  | Try_handler 'm   \<comment> \<open>the handler of \<open>try_receive\<close>, called on the spot\<close>

datatype 'm op_type = Send_op 'm | Receive_op

record 'm channel_op =
  op_id :: nat
  cancellation_key :: nat    \<comment> \<open>0 is the null pointer\<close>
  op_type :: "'m op_type"

definition send_do_action :: "nat \<Rightarrow> action \<Rightarrow> 'm completion list" where
  "send_do_action i a =
     (let ec = (case a of Cancel_op \<Rightarrow> Channel_cancelled | Close_op \<Rightarrow> Channel_closed | _ \<Rightarrow> No_error) in
      if a \<noteq> Destroy_op then [Send_handler i ec (if a = Immediate_op then Via_immediate else Via_post)] else [])"

definition receive_do_action :: "nat \<Rightarrow> action \<Rightarrow> 'm payload option \<Rightarrow> 'm completion list comp" where
  "receive_do_action i a v =
     (if a \<noteq> Destroy_op then
        (case v of None \<Rightarrow> undef NullDereference
         | Some payload \<Rightarrow> ret [Receive_handler i payload
             (if a = Immediate_op then Via_immediate else if a = Dispatch_op then Via_dispatch else Via_post)])
      else ret [])"

text \<open>\<open>func_\<close> is a member of the common base class: called through a pointer of the wrong class, it still runs the
  function of the operation's own class.\<close>

definition op_func :: "'m channel_op \<Rightarrow> action \<Rightarrow> 'm payload option \<Rightarrow> 'm completion list comp" where
  "op_func op a v = (case op_type op of Send_op _ \<Rightarrow> ret (send_do_action (op_id op) a) | Receive_op \<Rightarrow> receive_do_action (op_id op) a v)"

text \<open>\<open>get_payload\<close> after the cast to a sender: a receiver has no payload.\<close>

definition get_payload :: "'m channel_op \<Rightarrow> 'm comp" where
  "get_payload op = (case op_type op of Send_op m \<Rightarrow> ret m | Receive_op \<Rightarrow> undef DeadObject)"

section \<open>Channels\<close>

datatype chan_state = Buffer | Waiter | Block | Closed

record ('b, 'm) channel =
  receive_state :: chan_state
  send_state :: chan_state
  max_buffer_size :: nat
  waiters :: "'m channel_op list"
  chan_buffer :: 'b

definition idle_send_state :: "('b, 'm) channel \<Rightarrow> chan_state" where
  "idle_send_state c = (if max_buffer_size c \<noteq> 0 then Buffer else Block)"

definition chan_construct :: "'b \<Rightarrow> nat \<Rightarrow> ('b, 'm) channel" where
  "chan_construct fresh n =
     \<lparr>receive_state = Block, send_state = if n \<noteq> 0 then Buffer else Block, max_buffer_size = n, waiters = [], chan_buffer = fresh\<rparr>"

definition chan_capacity :: "('b, 'm) channel \<Rightarrow> nat" where
  "chan_capacity c = max_buffer_size c"

definition chan_is_open :: "('b, 'm) channel \<Rightarrow> bool" where
  "chan_is_open c \<longleftrightarrow> send_state c \<noteq> Closed"

definition chan_ready :: "('b, 'm) channel \<Rightarrow> bool" where
  "chan_ready c \<longleftrightarrow> receive_state c \<noteq> Block"

text \<open>One waiting operation, popped by \<open>cancel\<close>: a sender if \<open>send_state_\<close> is \<open>block\<close>, a receiver otherwise.\<close>

definition cancel_op :: "chan_state \<Rightarrow> 'm channel_op \<Rightarrow> 'm completion list comp" where
  "cancel_op send op = (if send = Block then op_func op Cancel_op None else op_func op Post_op (Some Receive_cancelled))"

fun cancel_loop :: "chan_state \<Rightarrow> 'm channel_op list \<Rightarrow> 'm completion list comp" where
  "cancel_loop send [] = ret []"
| "cancel_loop send (op # ops) = seqc (cancel_op send op) (\<lambda>done. seqc (cancel_loop send ops) (\<lambda>rest. ret (done @ rest)))"

definition settle_states :: "('b, 'm) channel \<Rightarrow> ('b, 'm) channel" where
  "settle_states c =
     c\<lparr>receive_state := if receive_state c = Waiter then Block else receive_state c,
       send_state := if send_state c = Waiter then idle_send_state c else send_state c\<rparr>"

definition chan_cancel :: "('b, 'm) channel \<Rightarrow> (('b, 'm) channel \<times> 'm completion list) comp" where
  "chan_cancel c = seqc (cancel_loop (send_state c) (waiters c)) (\<lambda>done. ret (settle_states (c\<lparr>waiters := []\<rparr>), done))"

fun cancel_key_loop :: "chan_state \<Rightarrow> nat \<Rightarrow> 'm channel_op list \<Rightarrow> ('m channel_op list \<times> 'm completion list) comp" where
  "cancel_key_loop send key [] = ret ([], [])"
| "cancel_key_loop send key (op # ops) =
     (if cancellation_key op = key
      then seqc (cancel_op send op) (\<lambda>done. seqc (cancel_key_loop send key ops) (\<lambda>(others, rest). ret (others, done @ rest)))
      else seqc (cancel_key_loop send key ops) (\<lambda>(others, rest). ret (op # others, rest)))"

definition chan_cancel_by_key :: "nat \<Rightarrow> ('b, 'm) channel \<Rightarrow> (('b, 'm) channel \<times> 'm completion list) comp" where
  "chan_cancel_by_key key c =
     seqc (cancel_key_loop (send_state c) key (waiters c)) (\<lambda>(others, done).
       let c1 = c\<lparr>waiters := others\<rparr> in ret (if others = [] then settle_states c1 else c1, done))"

definition chan_reset :: "('b, 'm) buffer_ops \<Rightarrow> ('b, 'm) channel \<Rightarrow> (('b, 'm) channel \<times> 'm completion list) comp" where
  "chan_reset B c =
     seqc (chan_cancel c) (\<lambda>(c1, done).
       ret (c1\<lparr>receive_state := Block, send_state := idle_send_state c1, chan_buffer := buffer_clear B (chan_buffer c1)\<rparr>, done))"

text \<open>\<open>close\<close>: receivers that wait are told; senders that wait are not.\<close>

fun close_loop :: "'m channel_op list \<Rightarrow> 'm completion list comp" where
  "close_loop [] = ret []"
| "close_loop (op # ops) = seqc (op_func op Post_op (Some Receive_closed)) (\<lambda>done. seqc (close_loop ops) (\<lambda>rest. ret (done @ rest)))"

definition chan_close :: "('b, 'm) channel \<Rightarrow> (('b, 'm) channel \<times> 'm completion list) comp" where
  "chan_close c =
     seqc (if receive_state c = Block then seqc (close_loop (waiters c)) (\<lambda>done. ret (c\<lparr>waiters := []\<rparr>, done)) else ret (c, []))
       (\<lambda>(c1, done). ret (c1\<lparr>send_state := Closed, receive_state := if receive_state c1 \<noteq> Buffer then Closed else Buffer\<rparr>, done))"

section \<open>Sending\<close>

text \<open>The case \<open>buffer\<close>, which \<open>try_send\<close> and \<open>start_send_op\<close> share, and the handing over to the first receiver.\<close>

definition send_to_buffer :: "('b, 'm) buffer_ops \<Rightarrow> 'm \<Rightarrow> ('b, 'm) channel \<Rightarrow> ('b, 'm) channel" where
  "send_to_buffer B m c =
     (let c1 = c\<lparr>chan_buffer := buffer_push B m (chan_buffer c), receive_state := Buffer\<rparr> in
      if buffer_size B (chan_buffer c1) = max_buffer_size c1 then c1\<lparr>send_state := Block\<rparr> else c1)"

definition send_to_waiter :: "action \<Rightarrow> 'm \<Rightarrow> ('b, 'm) channel \<Rightarrow> (('b, 'm) channel \<times> 'm completion list) comp" where
  "send_to_waiter a m c =
     (case waiters c of [] \<Rightarrow> undef NullDereference
      | receive_op # ops \<Rightarrow>
          let c1 = c\<lparr>waiters := ops\<rparr>; c2 = (if ops = [] then c1\<lparr>send_state := idle_send_state c1\<rparr> else c1) in
          seqc (op_func receive_op a (Some (Message m))) (\<lambda>done. ret (c2, done)))"

definition try_send :: "('b, 'm) buffer_ops \<Rightarrow> bool \<Rightarrow> 'm \<Rightarrow> ('b, 'm) channel \<Rightarrow> (bool \<times> ('b, 'm) channel \<times> 'm completion list) comp" where
  "try_send B via_dispatch m c =
     (case send_state c of
        Block \<Rightarrow> ret (False, c, [])
      | Buffer \<Rightarrow> ret (True, send_to_buffer B m c, [])
      | Waiter \<Rightarrow> seqc (send_to_waiter (if via_dispatch then Dispatch_op else Post_op) m c) (\<lambda>(c1, done). ret (True, c1, done))
      | Closed \<Rightarrow> ret (False, c, []))"

text \<open>The loop of \<open>try_send_n\<close>: \<open>rem\<close> more messages are to be sent, \<open>i\<close> have been. The body is given the state it
  read in the head of the switch.\<close>

definition push_some :: "('b, 'm) buffer_ops \<Rightarrow> nat \<Rightarrow> 'm \<Rightarrow> ('b, 'm) channel \<Rightarrow> nat \<times> ('b, 'm) channel" where
  "push_some B n m c =
     (let (b, k) = buffer_push_n B n (max_buffer_size c) m (chan_buffer c);
          c1 = c\<lparr>chan_buffer := b, receive_state := Buffer\<rparr> in
      (k, if buffer_size B (chan_buffer c1) = max_buffer_size c1 then c1\<lparr>send_state := Block\<rparr> else c1))"

fun try_send_n_loop :: "('b, 'm) buffer_ops \<Rightarrow> action \<Rightarrow> nat \<Rightarrow> nat \<Rightarrow> 'm \<Rightarrow> ('b, 'm) channel \<Rightarrow> (nat \<times> ('b, 'm) channel \<times> 'm completion list) comp" where
  "try_send_n_loop B a 0 i m c = ret (i, c, [])"
| "try_send_n_loop B a (Suc rem) i m c =
     (case send_state c of
        Block \<Rightarrow> ret (i, c, [])
      | Buffer \<Rightarrow> let (k, c1) = push_some B (Suc rem) m c in ret (i + k, c1, [])
      | Waiter \<Rightarrow> seqc (send_to_waiter a m c) (\<lambda>(c1, done).
          seqc (try_send_n_loop B a rem (Suc i) m c1) (\<lambda>(n, c2, rest). ret (n, c2, done @ rest)))
      | Closed \<Rightarrow> ret (i, c, []))"

definition try_send_n :: "('b, 'm) buffer_ops \<Rightarrow> nat \<Rightarrow> bool \<Rightarrow> 'm \<Rightarrow> ('b, 'm) channel \<Rightarrow> (nat \<times> ('b, 'm) channel \<times> 'm completion list) comp" where
  "try_send_n B n via_dispatch m c =
     (if n = 0 then ret (0, c, [])
      else (case send_state c of
          Block \<Rightarrow> ret (0, c, [])
        | Closed \<Rightarrow> ret (0, c, [])
        | _ \<Rightarrow> try_send_n_loop B (if via_dispatch then Dispatch_op else Post_op) n 0 m c))"

definition start_send_op :: "('b, 'm) buffer_ops \<Rightarrow> 'm channel_op \<Rightarrow> ('b, 'm) channel \<Rightarrow> (('b, 'm) channel \<times> 'm completion list) comp" where
  "start_send_op B op c =
     (case send_state c of
        Block \<Rightarrow> ret (c\<lparr>waiters := waiters c @ [op], receive_state := if receive_state c = Block then Waiter else receive_state c\<rparr>, [])
      | Buffer \<Rightarrow> seqc (get_payload op) (\<lambda>m. seqc (op_func op Immediate_op None) (\<lambda>done. ret (send_to_buffer B m c, done)))
      | Waiter \<Rightarrow> seqc (get_payload op) (\<lambda>m. seqc (send_to_waiter Post_op m c) (\<lambda>(c1, done).
          seqc (op_func op Immediate_op None) (\<lambda>rest. ret (c1, done @ rest))))
      | Closed \<Rightarrow> seqc (op_func op Close_op None) (\<lambda>done. ret (c, done)))"

section \<open>Receiving\<close>

text \<open>The cases \<open>buffer\<close> and \<open>waiter\<close>, which \<open>try_receive\<close> and \<open>start_receive_op\<close> share.\<close>

definition receive_from_buffer :: "('b, 'm) buffer_ops \<Rightarrow> ('b, 'm) channel \<Rightarrow> ('m \<times> ('b, 'm) channel \<times> 'm completion list) comp" where
  "receive_from_buffer B c =
     seqc (buffer_front B (chan_buffer c)) (\<lambda>payload. seqc (buffer_pop B (chan_buffer c)) (\<lambda>b.
       case waiters c of
         send_op # ops \<Rightarrow> seqc (get_payload send_op) (\<lambda>m. seqc (op_func send_op Post_op None) (\<lambda>done.
           ret (payload, c\<lparr>chan_buffer := buffer_push B m b, waiters := ops\<rparr>, done)))
       | [] \<Rightarrow> ret (payload,
           c\<lparr>chan_buffer := b,
             receive_state := if buffer_size B b = 0 then (if send_state c = Closed then Closed else Block) else receive_state c,
             send_state := if send_state c = Closed then Closed else Buffer\<rparr>, [])))"

definition receive_from_waiter :: "('b, 'm) channel \<Rightarrow> ('m \<times> ('b, 'm) channel \<times> 'm completion list) comp" where
  "receive_from_waiter c =
     (case waiters c of [] \<Rightarrow> undef NullDereference
      | send_op # ops \<Rightarrow> seqc (get_payload send_op) (\<lambda>payload. seqc (op_func send_op Post_op None) (\<lambda>done.
          ret (payload,
            c\<lparr>waiters := ops, receive_state := if ops = [] then (if send_state c = Closed then Closed else Block) else receive_state c\<rparr>, done))))"

definition try_receive :: "('b, 'm) buffer_ops \<Rightarrow> ('b, 'm) channel \<Rightarrow> (bool \<times> ('b, 'm) channel \<times> 'm completion list) comp" where
  "try_receive B c =
     (case receive_state c of
        Block \<Rightarrow> ret (False, c, [])
      | Buffer \<Rightarrow> seqc (receive_from_buffer B c) (\<lambda>(payload, c1, done). ret (True, c1, done @ [Try_handler payload]))
      | Waiter \<Rightarrow> seqc (receive_from_waiter c) (\<lambda>(payload, c1, done). ret (True, c1, done @ [Try_handler payload]))
      | Closed \<Rightarrow> ret (False, c, []))"

definition start_receive_op :: "('b, 'm) buffer_ops \<Rightarrow> 'm channel_op \<Rightarrow> ('b, 'm) channel \<Rightarrow> (('b, 'm) channel \<times> 'm completion list) comp" where
  "start_receive_op B op c =
     (case receive_state c of
        Block \<Rightarrow> ret (c\<lparr>waiters := waiters c @ [op], send_state := if send_state c \<noteq> Closed then Waiter else Closed\<rparr>, [])
      | Buffer \<Rightarrow> seqc (receive_from_buffer B c) (\<lambda>(payload, c1, done).
          seqc (op_func op Immediate_op (Some (Message payload))) (\<lambda>rest. ret (c1, done @ rest)))
      | Waiter \<Rightarrow> seqc (receive_from_waiter c) (\<lambda>(payload, c1, done).
          seqc (op_func op Immediate_op (Some (Message payload))) (\<lambda>rest. ret (c1, done @ rest)))
      | Closed \<Rightarrow> seqc (op_func op Post_op (Some Receive_closed)) (\<lambda>done. ret (c, done)))"

text \<open>The operations are built from the handler and its cancellation slot.\<close>

definition async_send :: "('b, 'm) buffer_ops \<Rightarrow> nat \<Rightarrow> nat \<Rightarrow> 'm \<Rightarrow> ('b, 'm) channel \<Rightarrow> (('b, 'm) channel \<times> 'm completion list) comp" where
  "async_send B i key m c = start_send_op B \<lparr>op_id = i, cancellation_key = key, op_type = Send_op m\<rparr> c"

definition async_receive :: "('b, 'm) buffer_ops \<Rightarrow> nat \<Rightarrow> nat \<Rightarrow> ('b, 'm) channel \<Rightarrow> (('b, 'm) channel \<times> 'm completion list) comp" where
  "async_receive B i key c = start_receive_op B \<lparr>op_id = i, cancellation_key = key, op_type = Receive_op\<rparr> c"

section \<open>Moving and destroying\<close>

text \<open>The members that both moves copy, and what they leave behind. The waiting operations stay where they are.\<close>

definition move_members :: "('b, 'm) buffer_ops \<Rightarrow> ('b, 'm) channel \<Rightarrow> ('b, 'm) channel \<Rightarrow> ('b, 'm) channel \<times> ('b, 'm) channel" where
  "move_members B c other =
     (let (b, left) = buffer_move_from B (chan_buffer other) in
      (c\<lparr>max_buffer_size := max_buffer_size other, receive_state := receive_state other, send_state := send_state other, chan_buffer := b\<rparr>,
       other\<lparr>receive_state := Block, send_state := idle_send_state other, chan_buffer := left\<rparr>))"

definition move_construct :: "('b, 'm) buffer_ops \<Rightarrow> 'b \<Rightarrow> ('b, 'm) channel \<Rightarrow> ('b, 'm) channel \<times> ('b, 'm) channel" where
  "move_construct B fresh other =
     move_members B \<lparr>receive_state = Block, send_state = Block, max_buffer_size = 0, waiters = [], chan_buffer = fresh\<rparr> other"

definition move_assign :: "('b, 'm) buffer_ops \<Rightarrow> ('b, 'm) channel \<Rightarrow> ('b, 'm) channel \<Rightarrow> (('b, 'm) channel \<times> ('b, 'm) channel \<times> 'm completion list) comp" where
  "move_assign B c other = seqc (chan_cancel c) (\<lambda>(c1, done). let (c2, other') = move_members B c1 other in ret (c2, other', done))"

definition chan_destroy :: "('b, 'm) channel \<Rightarrow> 'm completion list comp" where
  "chan_destroy c = seqc (chan_cancel c) (\<lambda>(_, done). ret done)"

section \<open>Runs\<close>

datatype 'm command =
    Try_send bool 'm | Try_send_n nat bool 'm | Async_send nat nat 'm | Try_receive | Async_receive nat nat
  | Close_channel | Cancel_all | Cancel_key nat | Reset_channel

text \<open>One call: the messages the channel takes, the new channel and the handlers.\<close>

fun chan_exec :: "('b, 'm) buffer_ops \<Rightarrow> 'm command \<Rightarrow> ('b, 'm) channel \<Rightarrow> ('m list \<times> ('b, 'm) channel \<times> 'm completion list) comp" where
  "chan_exec B (Try_send d m) c = seqc (try_send B d m c) (\<lambda>(ok, c1, ev). ret (if ok then [m] else [], c1, ev))"
| "chan_exec B (Try_send_n n d m) c = seqc (try_send_n B n d m c) (\<lambda>(k, c1, ev). ret (replicate k m, c1, ev))"
| "chan_exec B (Async_send i key m) c = seqc (async_send B i key m c) (\<lambda>(c1, ev). ret (if chan_is_open c then [m] else [], c1, ev))"
| "chan_exec B Try_receive c = seqc (try_receive B c) (\<lambda>(ok, c1, ev). ret ([], c1, ev))"
| "chan_exec B (Async_receive i key) c = seqc (async_receive B i key c) (\<lambda>(c1, ev). ret ([], c1, ev))"
| "chan_exec B Close_channel c = seqc (chan_close c) (\<lambda>(c1, ev). ret ([], c1, ev))"
| "chan_exec B Cancel_all c = seqc (chan_cancel c) (\<lambda>(c1, ev). ret ([], c1, ev))"
| "chan_exec B (Cancel_key key) c = seqc (chan_cancel_by_key key c) (\<lambda>(c1, ev). ret ([], c1, ev))"
| "chan_exec B Reset_channel c = seqc (chan_reset B c) (\<lambda>(c1, ev). ret ([], c1, ev))"

fun chan_run :: "('b, 'm) buffer_ops \<Rightarrow> 'm command list \<Rightarrow> ('b, 'm) channel \<Rightarrow> ('m list \<times> ('b, 'm) channel \<times> 'm completion list) comp" where
  "chan_run B [] c = ret ([], c, [])"
| "chan_run B (cmd # cmds) c =
     seqc (chan_exec B cmd c) (\<lambda>(acc, c1, ev). seqc (chan_run B cmds c1) (\<lambda>(acc', c2, ev'). ret (acc @ acc', c2, ev @ ev')))"

fun received_by :: "'m completion \<Rightarrow> 'm list" where
  "received_by (Receive_handler i (Message m) v) = [m]"
| "received_by (Try_handler m) = [m]"
| "received_by _ = []"

fun completed_by :: "'m completion \<Rightarrow> nat list" where
  "completed_by (Send_handler i e v) = [i]"
| "completed_by (Receive_handler i p v) = [i]"
| "completed_by (Try_handler m) = []"

definition received_msgs :: "'m completion list \<Rightarrow> 'm list" where
  "received_msgs ev = concat (map received_by ev)"

definition completed_ops :: "'m completion list \<Rightarrow> nat list" where
  "completed_ops ev = concat (map completed_by ev)"

fun started_ops :: "'m command \<Rightarrow> nat list" where
  "started_ops (Async_send i key m) = [i]"
| "started_ops (Async_receive i key) = [i]"
| "started_ops _ = []"

fun sender_msg :: "'m channel_op \<Rightarrow> 'm list" where
  "sender_msg op = (case op_type op of Send_op m \<Rightarrow> [m] | Receive_op \<Rightarrow> [])"

definition waiting_msgs :: "'m channel_op list \<Rightarrow> 'm list" where
  "waiting_msgs ops = concat (map sender_msg ops)"

text \<open>What a channel holds: the buffer and the messages of the waiting senders.\<close>

definition held_msgs :: "('m list, 'm) channel \<Rightarrow> 'm list" where
  "held_msgs c = chan_buffer c @ waiting_msgs (waiters c)"

section \<open>The invariant\<close>

definition is_sender :: "'m channel_op \<Rightarrow> bool" where
  "is_sender op = (case op_type op of Send_op m \<Rightarrow> True | Receive_op \<Rightarrow> False)"

definition chan_ok :: "('m list, 'm) channel \<Rightarrow> bool" where
  "chan_ok c \<longleftrightarrow> max_buffer_size c < 2 ^ 64 \<and> length (chan_buffer c) \<le> max_buffer_size c \<and>
     (case send_state c of
        Block \<Rightarrow> length (chan_buffer c) = max_buffer_size c \<and> (\<forall>op \<in> set (waiters c). is_sender op)
          \<and> receive_state c = (if chan_buffer c \<noteq> [] then Buffer else if waiters c \<noteq> [] then Waiter else Block)
      | Buffer \<Rightarrow> length (chan_buffer c) < max_buffer_size c \<and> waiters c = []
          \<and> receive_state c = (if chan_buffer c \<noteq> [] then Buffer else Block)
      | Waiter \<Rightarrow> chan_buffer c = [] \<and> waiters c \<noteq> [] \<and> (\<forall>op \<in> set (waiters c). \<not> is_sender op) \<and> receive_state c = Block
      | Closed \<Rightarrow> (\<forall>op \<in> set (waiters c). is_sender op) \<and> receive_state c = (if chan_buffer c \<noteq> [] then Buffer else Closed)
          \<and> (chan_buffer c \<noteq> [] \<and> waiters c \<noteq> [] \<longrightarrow> length (chan_buffer c) = max_buffer_size c))"

definition waiting_ids :: "('b, 'm) channel \<Rightarrow> nat multiset" where
  "waiting_ids c = mset (map op_id (waiters c))"

text \<open>A step that loses nothing: the messages held and accepted are those received, in order, and those held after it; the
  operations waiting and started are those completed and those waiting after it.\<close>

definition lossless :: "('m list, 'm) channel \<Rightarrow> 'm list \<Rightarrow> nat list \<Rightarrow> ('m list, 'm) channel \<Rightarrow> 'm completion list \<Rightarrow> bool" where
  "lossless c acc ids c' ev \<longleftrightarrow> chan_ok c' \<and> max_buffer_size c' = max_buffer_size c \<and> held_msgs c @ acc = received_msgs ev @ held_msgs c'
     \<and> waiting_ids c + mset ids = mset (completed_ops ev) + waiting_ids c'"

lemma msgs_simps [simp]:
  "received_msgs [] = []" "received_msgs (e # ev) = received_by e @ received_msgs ev" "received_msgs (ev @ ev') = received_msgs ev @ received_msgs ev'"
  "completed_ops [] = []" "completed_ops (e # ev) = completed_by e @ completed_ops ev" "completed_ops (ev @ ev') = completed_ops ev @ completed_ops ev'"
  "waiting_msgs [] = []" "waiting_msgs (op # ops) = sender_msg op @ waiting_msgs ops" "waiting_msgs (ops @ ops') = waiting_msgs ops @ waiting_msgs ops'"
  by (simp_all add: received_msgs_def completed_ops_def waiting_msgs_def)

lemma is_sender_iff: "is_sender op \<longleftrightarrow> op_type op \<noteq> Receive_op"
  by (cases "op_type op") (simp_all add: is_sender_def)

lemma waiting_receivers: "\<forall>op \<in> set ops. op_type op = Receive_op \<Longrightarrow> waiting_msgs ops = []"
  by (induction ops) auto

text \<open>A computation that returns a value with a property.\<close>

definition returns :: "'a comp \<Rightarrow> ('a \<Rightarrow> bool) \<Rightarrow> bool" where
  "returns m P \<longleftrightarrow> (\<exists>x. m = ret x \<and> P x)"

lemma returns_simps [simp]:
  "returns (ret x) P \<longleftrightarrow> P x" "\<not> returns (undef e) P" "returns (seqc m f) P \<longleftrightarrow> returns m (\<lambda>x. returns (f x) P)"
  by (auto simp: returns_def seqc_eq_ret_iff)

lemma returns_mono: "returns m P \<Longrightarrow> (\<And>x. P x \<Longrightarrow> Q x) \<Longrightarrow> returns m Q"
  by (auto simp: returns_def)

lemmas action_defs = op_func_def send_do_action_def receive_do_action_def get_payload_def
lemmas step_defs = lossless_def held_msgs_def waiting_ids_def chan_ok_def is_sender_iff idle_send_state_def waiting_receivers
lemmas deque_simps = deque.size_msgs [OF TrueI]

lemma deque_ops_simps [simp]:
  "buffer_push deque_ops m q = q @ [m]" "buffer_front deque_ops q = deque_front q" "buffer_pop deque_ops q = deque_pop q"
  "buffer_size deque_ops q = length q" "buffer_clear deque_ops q = []" "buffer_move_from deque_ops q = (q, [])"
  "buffer_push_n deque_ops n k m q = (q @ replicate (min n (k - length q)) m, min n (k - length q))"
  by (simp_all add: deque_ops_def deque_push_n_eq)

lemma send_to_waiter_step:
  assumes "chan_ok c" "send_state c = Waiter" "a = Post_op \<or> a = Dispatch_op"
  shows "returns (send_to_waiter a m c) (\<lambda>(c', ev). lossless c [m] [] c' ev \<and> send_state c' \<noteq> Closed)"
  using assms by (cases "waiters c") (auto simp: step_defs action_defs send_to_waiter_def Let_def)

lemma send_to_buffer_step:
  "chan_ok c \<Longrightarrow> send_state c = Buffer \<Longrightarrow> lossless c [m] [] (send_to_buffer deque_ops m c) []"
  by (auto simp: step_defs send_to_buffer_def Let_def)

lemma push_some_step:
  "chan_ok c \<Longrightarrow> send_state c = Buffer \<Longrightarrow> 0 < n \<Longrightarrow>
    (case push_some deque_ops n m c of (k, c') \<Rightarrow> lossless c (replicate k m) [] c' [])"
  by (auto simp: step_defs push_some_def Let_def)

lemma receive_from_buffer_step:
  assumes "chan_ok c" "receive_state c = Buffer"
  shows "returns (receive_from_buffer deque_ops c) (\<lambda>(m, c', ev). lossless c [] [] c' (ev @ [Try_handler m]))"
  using assms by (cases "chan_buffer c"; cases "waiters c")
    (auto simp: step_defs action_defs receive_from_buffer_def deque_front_def deque_pop_def split: chan_state.splits if_splits op_type.splits)

lemma receive_from_waiter_step:
  assumes "chan_ok c" "receive_state c = Waiter"
  shows "returns (receive_from_waiter c) (\<lambda>(m, c', ev). lossless c [] [] c' (ev @ [Try_handler m]))"
  using assms by (cases "waiters c")
    (auto simp: step_defs action_defs receive_from_waiter_def split: chan_state.splits if_splits op_type.splits)

lemma lossless_refl: "chan_ok c \<Longrightarrow> lossless c [] [] c []"
  by (simp add: lossless_def)

lemma lossless_trans:
  assumes "lossless c acc ids c1 ev" "lossless c1 acc' ids' c2 ev'"
  shows "lossless c (acc @ acc') (ids @ ids') c2 (ev @ ev')"
proof -
  have max: "max_buffer_size c2 = max_buffer_size c" using assms by (simp add: lossless_def)
  have "held_msgs c @ acc @ acc' = received_msgs ev @ held_msgs c1 @ acc'" using assms(1) by (simp add: lossless_def)
  also have "\<dots> = received_msgs ev @ received_msgs ev' @ held_msgs c2" using assms(2) by (simp add: lossless_def)
  finally have msgs: "held_msgs c @ acc @ acc' = received_msgs (ev @ ev') @ held_msgs c2" by simp
  have "waiting_ids c + mset ids + mset ids' = mset (completed_ops ev) + (waiting_ids c1 + mset ids')"
    using assms(1) by (simp add: lossless_def)
  also have "\<dots> = mset (completed_ops ev) + (mset (completed_ops ev') + waiting_ids c2)" using assms(2) by (simp add: lossless_def)
  finally show ?thesis using msgs max assms(2) by (simp add: lossless_def add.assoc)
qed

lemma lossless_ok: "lossless c acc ids c' ev \<Longrightarrow> chan_ok c'"
  by (simp add: lossless_def)

lemma try_send_step:
  assumes "chan_ok c"
  shows "returns (try_send deque_ops d m c) (\<lambda>(ok, c', ev). lossless c (if ok then [m] else []) [] c' ev)"
proof (cases "send_state c")
  case Waiter
  then show ?thesis using send_to_waiter_step [OF assms Waiter, of "if d then Dispatch_op else Post_op" m]
    by (auto simp: try_send_def split_def intro: returns_mono)
qed (use assms send_to_buffer_step in \<open>auto simp: try_send_def lossless_refl\<close>)

lemma try_send_n_loop_step:
  assumes "chan_ok c" "a = Post_op \<or> a = Dispatch_op"
  shows "returns (try_send_n_loop deque_ops a n i m c) (\<lambda>(k, c', ev). i \<le> k \<and> k \<le> i + n \<and> lossless c (replicate (k - i) m) [] c' ev)"
  using assms(1)
proof (induction n arbitrary: i c)
  case (Suc n)
  show ?case
  proof (cases "send_state c")
    case Waiter
    have more: "lossless c (replicate (k - i) m) [] c2 (ev @ rest)"
      if "lossless c [m] [] c1 ev" "Suc i \<le> k" "lossless c1 (replicate (k - Suc i) m) [] c2 rest" for c1 ev k c2 rest
    proof -
      have "replicate (k - i) m = [m] @ replicate (k - Suc i) m" using that(2) by (simp add: Suc_diff_le flip: replicate_Suc)
      then show ?thesis using lossless_trans [OF that(1) that(3)] by simp
    qed
    have "returns (try_send_n_loop deque_ops a n (Suc i) m c1)
        (\<lambda>(k, c2, rest). i \<le> k \<and> k \<le> i + Suc n \<and> lossless c (replicate (k - i) m) [] c2 (ev @ rest))"
      if "lossless c [m] [] c1 ev" for c1 ev
      by (rule returns_mono [OF Suc.IH [OF lossless_ok [OF that]]]) (auto intro: more [OF that])
    then show ?thesis using Waiter send_to_waiter_step [OF Suc.prems Waiter assms(2), of m]
      by (auto simp: split_def elim!: returns_mono)
  next
    case Buffer
    then show ?thesis using push_some_step [OF Suc.prems Buffer, of "Suc n" m]
      by (auto simp: push_some_def Let_def split: prod.splits)
  qed (use Suc.prems in \<open>simp_all add: lossless_refl\<close>)
qed (simp add: lossless_refl)

lemma try_send_n_step:
  "chan_ok c \<Longrightarrow> returns (try_send_n deque_ops n d m c) (\<lambda>(k, c', ev). k \<le> n \<and> lossless c (replicate k m) [] c' ev)"
  using try_send_n_loop_step [of c "if d then Dispatch_op else Post_op" n 0 m]
  by (auto simp: try_send_n_def lossless_refl split: chan_state.split)

lemma lossless_start_send: "lossless c [m] [] c' ev \<Longrightarrow> lossless c [m] [i] c' (ev @ [Send_handler i e v])"
  by (simp add: lossless_def)

lemma async_send_step:
  assumes "chan_ok c"
  shows "returns (async_send deque_ops i key m c) (\<lambda>(c', ev). lossless c (if chan_is_open c then [m] else []) [i] c' ev)"
proof (cases "send_state c")
  case Waiter
  then show ?thesis using send_to_waiter_step [OF assms Waiter, of Post_op m]
    by (auto simp: async_send_def start_send_op_def action_defs chan_is_open_def split_def intro: lossless_start_send elim!: returns_mono)
next
  case Buffer
  then show ?thesis using lossless_start_send [OF send_to_buffer_step [OF assms Buffer]]
    by (auto simp: async_send_def start_send_op_def action_defs chan_is_open_def)
next
  case Block
  then show ?thesis using assms by (auto simp: async_send_def start_send_op_def action_defs chan_is_open_def step_defs)
next
  case Closed
  then show ?thesis using assms by (auto simp: async_send_def start_send_op_def action_defs chan_is_open_def lossless_def)
qed

lemma try_receive_step:
  assumes "chan_ok c"
  shows "returns (try_receive deque_ops c) (\<lambda>(ok, c', ev). lossless c [] [] c' ev)"
  by (cases "receive_state c")
    (use assms receive_from_buffer_step [OF assms] receive_from_waiter_step [OF assms] in
      \<open>auto simp: try_receive_def lossless_refl split_def elim!: returns_mono\<close>)

lemma lossless_start_receive:
  "lossless c [] [] c' (ev @ [Try_handler m]) \<Longrightarrow> lossless c [] [i] c' (ev @ [Receive_handler i (Message m) v])"
  by (simp add: lossless_def)

lemma async_receive_step:
  assumes "chan_ok c"
  shows "returns (async_receive deque_ops i key c) (\<lambda>(c', ev). lossless c [] [i] c' ev)"
proof (cases "receive_state c")
  case Block
  then show ?thesis using assms
    by (cases "waiters c") (auto simp: async_receive_def start_receive_op_def step_defs split: chan_state.splits if_splits)
next
  case Closed
  then show ?thesis using assms by (auto simp: async_receive_def start_receive_op_def action_defs lossless_def)
qed (use receive_from_buffer_step [OF assms] receive_from_waiter_step [OF assms] in
      \<open>auto simp: async_receive_def start_receive_op_def action_defs split_def intro: lossless_start_receive elim!: returns_mono\<close>)

text \<open>What the loops of \<open>close\<close> and \<open>cancel\<close> tell the operations they pop.\<close>

definition told_closed :: "'m channel_op \<Rightarrow> 'm completion" where
  "told_closed op = (case op_type op of Send_op m \<Rightarrow> Send_handler (op_id op) No_error Via_post | Receive_op \<Rightarrow> Receive_handler (op_id op) Receive_closed Via_post)"

definition told_cancelled :: "chan_state \<Rightarrow> 'm channel_op \<Rightarrow> 'm completion" where
  "told_cancelled send op =
     (case op_type op of Send_op m \<Rightarrow> Send_handler (op_id op) (if send = Block then Channel_cancelled else No_error) Via_post
      | Receive_op \<Rightarrow> Receive_handler (op_id op) Receive_cancelled Via_post)"

lemma close_loop_eq: "close_loop ops = ret (map told_closed ops)"
  by (induction ops) (auto simp: action_defs told_closed_def split: op_type.splits)

lemma cancel_op_eq: "send = Block \<longrightarrow> is_sender op \<Longrightarrow> cancel_op send op = ret [told_cancelled send op]"
  by (auto simp: cancel_op_def action_defs told_cancelled_def is_sender_iff split: op_type.splits)

lemma cancel_loop_eq: "send = Block \<longrightarrow> (\<forall>op \<in> set ops. is_sender op) \<Longrightarrow> cancel_loop send ops = ret (map (told_cancelled send) ops)"
  by (induction ops) (auto simp: cancel_op_eq)

lemma cancel_key_loop_eq:
  "send = Block \<longrightarrow> (\<forall>op \<in> set ops. is_sender op) \<Longrightarrow>
   cancel_key_loop send key ops =
     ret (filter (\<lambda>op. cancellation_key op \<noteq> key) ops, map (told_cancelled send) (filter (\<lambda>op. cancellation_key op = key) ops))"
  by (induction ops) (auto simp: cancel_op_eq)

lemma chan_okD: "chan_ok c \<Longrightarrow> send_state c = Block \<longrightarrow> (\<forall>op \<in> set (waiters c). is_sender op)"
  by (auto simp: chan_ok_def)

lemma told_events [simp]:
  "received_msgs (map (told_cancelled send) ops) = []" "completed_ops (map (told_cancelled send) ops) = map op_id ops"
  "received_msgs (map told_closed ops) = []" "completed_ops (map told_closed ops) = map op_id ops"
  by (induction ops) (auto simp: told_cancelled_def told_closed_def split: op_type.splits)

lemma close_step: "chan_ok c \<Longrightarrow> returns (chan_close c) (\<lambda>(c', ev). lossless c [] [] c' ev)"
  by (cases "send_state c") (auto simp: chan_close_def close_loop_eq step_defs)

definition orderly :: "('m list, 'm) channel \<Rightarrow> 'm list \<Rightarrow> nat list \<Rightarrow> ('m list, 'm) channel \<Rightarrow> 'm completion list \<Rightarrow> bool" where
  "orderly c acc ids c' ev \<longleftrightarrow> chan_ok c' \<and> max_buffer_size c' = max_buffer_size c \<and> subseq (received_msgs ev @ held_msgs c') (held_msgs c @ acc)
     \<and> waiting_ids c + mset ids = mset (completed_ops ev) + waiting_ids c'"

lemma lossless_orderly: "lossless c acc ids c' ev \<Longrightarrow> orderly c acc ids c' ev"
  by (simp add: lossless_def orderly_def)

lemma orderly_ok: "orderly c acc ids c' ev \<Longrightarrow> chan_ok c'"
  by (simp add: orderly_def)

lemma subseq_after: "subseq ys zs \<Longrightarrow> subseq (xs @ ys) (xs @ zs)"
  by (rule list_emb_append_mono [OF subseq_order.order_refl])

lemma orderly_trans:
  assumes "orderly c acc ids c1 ev" "orderly c1 acc' ids' c2 ev'"
  shows "orderly c (acc @ acc') (ids @ ids') c2 (ev @ ev')"
proof -
  have max: "max_buffer_size c2 = max_buffer_size c" using assms by (simp add: orderly_def)
  have "subseq (received_msgs ev @ received_msgs ev' @ held_msgs c2) (received_msgs ev @ held_msgs c1 @ acc')"
    using assms(2) by (intro subseq_after) (simp add: orderly_def)
  moreover have "subseq ((received_msgs ev @ held_msgs c1) @ acc') ((held_msgs c @ acc) @ acc')"
    using assms(1) by (intro list_emb_append_mono [OF _ subseq_order.order_refl]) (simp add: orderly_def)
  ultimately have msgs: "subseq (received_msgs (ev @ ev') @ held_msgs c2) (held_msgs c @ acc @ acc')"
    using subseq_order.trans by fastforce
  have "waiting_ids c + mset ids + mset ids' = mset (completed_ops ev) + (waiting_ids c1 + mset ids')"
    using assms(1) by (simp add: orderly_def)
  also have "\<dots> = mset (completed_ops ev) + (mset (completed_ops ev') + waiting_ids c2)" using assms(2) by (simp add: orderly_def)
  finally show ?thesis using msgs max assms(2) by (simp add: orderly_def add.assoc)
qed

lemma settle_ok: "chan_ok c \<Longrightarrow> chan_ok (settle_states (c\<lparr>waiters := []\<rparr>))"
  by (cases "send_state c") (auto simp: step_defs settle_states_def)

lemma chan_cancel_eq:
  "chan_ok c \<Longrightarrow> chan_cancel c = ret (settle_states (c\<lparr>waiters := []\<rparr>), map (told_cancelled (send_state c)) (waiters c))"
  by (simp add: chan_cancel_def cancel_loop_eq chan_okD)

lemma cancel_step: "chan_ok c \<Longrightarrow> returns (chan_cancel c) (\<lambda>(c', ev). orderly c [] [] c' ev)"
  by (simp add: chan_cancel_eq orderly_def settle_ok) (simp add: settle_states_def held_msgs_def waiting_ids_def prefix_imp_subseq)

lemma waiting_msgs_filter: "subseq (waiting_msgs (filter P ops)) (waiting_msgs ops)"
proof (induction ops)
  case (Cons op ops)
  then show ?case by (auto intro: subseq_after subseq_order.trans [OF _ list_emb_append2])
qed simp

lemma mset_ids_filter:
  "mset (map op_id (filter (\<lambda>op. cancellation_key op = key) ops)) + mset (map op_id (filter (\<lambda>op. cancellation_key op \<noteq> key) ops)) = mset (map op_id ops)"
  by (induction ops) auto

lemma cancel_key_step: "chan_ok c \<Longrightarrow> returns (chan_cancel_by_key key c) (\<lambda>(c', ev). orderly c [] [] c' ev)"
proof -
  assume ok: "chan_ok c"
  let ?rest = "filter (\<lambda>op. cancellation_key op \<noteq> key) (waiters c)"
  define c' where "c' = (if ?rest = [] then settle_states (c\<lparr>waiters := []\<rparr>) else c\<lparr>waiters := ?rest\<rparr>)"
  have eq: "chan_cancel_by_key key c = ret (c', map (told_cancelled (send_state c)) (filter (\<lambda>op. cancellation_key op = key) (waiters c)))"
    using ok by (simp add: chan_cancel_by_key_def cancel_key_loop_eq chan_okD c'_def Let_def)
  have parts: "waiters c' = ?rest" "chan_buffer c' = chan_buffer c" "max_buffer_size c' = max_buffer_size c"
    by (simp_all add: c'_def settle_states_def)
  have "chan_ok c'"
  proof (cases "?rest = []")
    case True
    then show ?thesis using settle_ok [OF ok] by (simp add: c'_def)
  next
    case False
    then have "waiters c \<noteq> []" by auto
    then show ?thesis using False ok by (cases "send_state c") (auto simp: c'_def chan_ok_def)
  qed
  then show ?thesis using mset_ids_filter [of key "waiters c"]
    by (simp add: eq orderly_def parts held_msgs_def waiting_ids_def subseq_after waiting_msgs_filter)
qed

lemma reset_step: "chan_ok c \<Longrightarrow> returns (chan_reset deque_ops c) (\<lambda>(c', ev). orderly c [] [] c' ev)"
  by (auto simp: chan_reset_def chan_cancel_eq orderly_def settle_states_def held_msgs_def waiting_ids_def chan_ok_def idle_send_state_def)

fun drops :: "'m command \<Rightarrow> bool" where
  "drops Cancel_all = True" | "drops (Cancel_key key) = True" | "drops Reset_channel = True" | "drops _ = False"

lemma chan_exec_step:
  assumes "chan_ok c"
  shows "returns (chan_exec deque_ops cmd c)
    (\<lambda>(acc, c', ev). orderly c acc (started_ops cmd) c' ev \<and> (\<not> drops cmd \<longrightarrow> lossless c acc (started_ops cmd) c' ev))"
  by (cases cmd) (auto simp: split_def intro: lossless_orderly
    intro!: returns_mono [OF try_send_step [OF assms]] returns_mono [OF try_send_n_step [OF assms]] returns_mono [OF async_send_step [OF assms]]
      returns_mono [OF try_receive_step [OF assms]] returns_mono [OF async_receive_step [OF assms]] returns_mono [OF close_step [OF assms]]
      returns_mono [OF cancel_step [OF assms]] returns_mono [OF cancel_key_step [OF assms]] returns_mono [OF reset_step [OF assms]])

lemma chan_run_step:
  assumes "chan_ok c"
  shows "returns (chan_run deque_ops cmds c)
    (\<lambda>(acc, c', ev). orderly c acc (concat (map started_ops cmds)) c' ev
      \<and> ((\<forall>cmd \<in> set cmds. \<not> drops cmd) \<longrightarrow> lossless c acc (concat (map started_ops cmds)) c' ev))"
  using assms
proof (induction cmds arbitrary: c)
  case (Cons cmd cmds)
  let ?keeps = "\<forall>cmd \<in> set cmds. \<not> drops cmd"
  have step: "returns (chan_run deque_ops cmds c1) (\<lambda>(acc', c2, ev'). orderly c (acc @ acc') (started_ops cmd @ concat (map started_ops cmds)) c2 (ev @ ev')
      \<and> (\<not> drops cmd \<and> ?keeps \<longrightarrow> lossless c (acc @ acc') (started_ops cmd @ concat (map started_ops cmds)) c2 (ev @ ev')))"
    if first: "orderly c acc (started_ops cmd) c1 ev" "\<not> drops cmd \<longrightarrow> lossless c acc (started_ops cmd) c1 ev" for acc c1 ev
    by (rule returns_mono [OF Cons.IH [OF orderly_ok [OF first(1)]]]) (use first in \<open>auto intro: orderly_trans lossless_trans\<close>)
  show ?case
    by simp (rule returns_mono [OF chan_exec_step [OF Cons.prems, of cmd]], auto simp: split_def dest: step)
qed (simp add: lossless_refl lossless_orderly)

section \<open>Any buffer will do\<close>

text \<open>A channel over any buffer, seen as one over the list of its messages.\<close>

definition chan_msgs :: "('b \<Rightarrow> 'm list) \<Rightarrow> ('b, 'm) channel \<Rightarrow> ('m list, 'm) channel" where
  "chan_msgs msgs c =
     \<lparr>receive_state = receive_state c, send_state = send_state c, max_buffer_size = max_buffer_size c, waiters = waiters c,
      chan_buffer = msgs (chan_buffer c)\<rparr>"

lemma chan_msgs_simps [simp]:
  "receive_state (chan_msgs msgs c) = receive_state c" "send_state (chan_msgs msgs c) = send_state c"
  "max_buffer_size (chan_msgs msgs c) = max_buffer_size c" "waiters (chan_msgs msgs c) = waiters c"
  "chan_buffer (chan_msgs msgs c) = msgs (chan_buffer c)"
  by (simp_all add: chan_msgs_def)

lemma chan_eqI: "receive_state c = receive_state d \<Longrightarrow> send_state c = send_state d \<Longrightarrow> max_buffer_size c = max_buffer_size d \<Longrightarrow>
    waiters c = waiters d \<Longrightarrow> chan_buffer c = chan_buffer d \<Longrightarrow> (c :: ('b, 'm) channel) = d"
  by (cases c; cases d) simp

lemma returns_seqc_sim:
  "returns m (\<lambda>x. m' = ret (g x) \<and> returns (f x) (\<lambda>y. f' (g x) = ret (h y) \<and> P y)) \<Longrightarrow> returns (seqc m f) (\<lambda>y. seqc m' f' = ret (h y) \<and> P y)"
  by (auto simp: returns_def seqc_eq_ret_iff)

context channel_buffer
begin

abbreviation view :: "('b, 'm) channel \<Rightarrow> ('m list, 'm) channel" where
  "view \<equiv> chan_msgs msgs"

definition good :: "('b, 'm) channel \<Rightarrow> bool" where
  "good c \<longleftrightarrow> chan_ok (view c) \<and> invar (chan_buffer c)"

lemma good_bound: "good c \<Longrightarrow> length (msgs (chan_buffer c)) \<le> max_buffer_size c \<and> max_buffer_size c < 2 ^ 64"
  by (simp add: good_def chan_ok_def)

lemma send_to_buffer_view:
  assumes "good c" "send_state c = Buffer"
  shows "send_to_buffer deque_ops m (view c) = view (send_to_buffer ops m c) \<and> invar (chan_buffer (send_to_buffer ops m c))"
proof -
  have "Suc (length (msgs (chan_buffer c))) < 2 ^ 64" using assms by (simp add: good_def chan_ok_def)
  then show ?thesis using assms(1) push_msgs [of "chan_buffer c" m] size_msgs [of "buffer_push ops m (chan_buffer c)"]
    by (auto simp: good_def send_to_buffer_def Let_def intro: chan_eqI)
qed

lemma push_some_view:
  assumes "good c"
  shows "push_some deque_ops n m (view c) = (fst (push_some ops n m c), view (snd (push_some ops n m c)))
     \<and> invar (chan_buffer (snd (push_some ops n m c)))"
proof -
  obtain b where "buffer_push_n ops n (max_buffer_size c) m (chan_buffer c) = (b, min n (max_buffer_size c - length (msgs (chan_buffer c))))"
    "invar b" "msgs b = msgs (chan_buffer c) @ replicate (min n (max_buffer_size c - length (msgs (chan_buffer c)))) m"
    using push_n_msgs [of "chan_buffer c" "max_buffer_size c" n m] good_bound [OF assms] assms by (auto simp: good_def)
  then show ?thesis using size_msgs [of b] by (auto simp: push_some_def Let_def intro: chan_eqI)
qed

lemma send_to_waiter_view:
  assumes "good c" "send_state c = Waiter" "a = Post_op \<or> a = Dispatch_op"
  shows "returns (send_to_waiter a m c) (\<lambda>(c', ev). send_to_waiter a m (view c) = ret (view c', ev) \<and> invar (chan_buffer c'))"
  using assms by (cases "waiters c") (auto simp: good_def chan_ok_def is_sender_iff send_to_waiter_def Let_def action_defs idle_send_state_def intro: chan_eqI)

lemma receive_from_buffer_view:
  assumes "good c" "receive_state c = Buffer"
  shows "returns (receive_from_buffer ops c) (\<lambda>(m, c', ev). receive_from_buffer deque_ops (view c) = ret (m, view c', ev) \<and> invar (chan_buffer c'))"
proof -
  have inv: "invar (chan_buffer c)" and ne: "msgs (chan_buffer c) \<noteq> []"
    using assms by (auto simp: good_def chan_ok_def split: chan_state.splits if_splits)
  obtain b where b: "buffer_pop ops (chan_buffer c) = ret b" "invar b" "msgs b = tl (msgs (chan_buffer c))" using pop_msgs [OF inv ne] by blast
  have front: "buffer_front ops (chan_buffer c) = ret (hd (msgs (chan_buffer c)))" by (rule front_msgs [OF inv ne])
  have size: "buffer_size ops b = length (msgs b)" by (rule size_msgs [OF b(2)])
  have "length (msgs (chan_buffer c)) < 2 ^ 64" using good_bound [OF assms(1)] by simp
  then have push: "msgs (buffer_push ops x b) = msgs b @ [x]" "invar (buffer_push ops x b)" for x
    using push_msgs [OF b(2), of x] ne by (auto simp: b(3))
  obtain x xs where xs: "msgs (chan_buffer c) = x # xs" using ne by (cases "msgs (chan_buffer c)") auto
  have senders: "\<forall>op \<in> set (waiters c). is_sender op"
    using assms by (auto simp: good_def chan_ok_def split: chan_state.splits if_splits)
  show ?thesis
  proof (cases "waiters c")
    case Nil
    then show ?thesis using b front size xs by (auto simp: receive_from_buffer_def deque_front_def deque_pop_def intro: chan_eqI)
  next
    case (Cons op ops')
    then show ?thesis using b front size xs push senders
      by (cases "op_type op") (auto simp: receive_from_buffer_def deque_front_def deque_pop_def action_defs is_sender_iff intro: chan_eqI)
  qed
qed

lemma receive_from_waiter_view:
  assumes "good c" "receive_state c = Waiter"
  shows "returns (receive_from_waiter c) (\<lambda>(m, c', ev). receive_from_waiter (view c) = ret (m, view c', ev) \<and> invar (chan_buffer c'))"
  using assms by (cases "waiters c")
    (auto simp: good_def chan_ok_def receive_from_waiter_def action_defs is_sender_iff intro: chan_eqI split: chan_state.splits if_splits op_type.splits)

lemma try_send_view:
  assumes "good c"
  shows "returns (try_send ops d m c) (\<lambda>(ok, c', ev). try_send deque_ops d m (view c) = ret (ok, view c', ev) \<and> invar (chan_buffer c'))"
  using assms send_to_buffer_view [OF assms] returns_mono [OF send_to_waiter_view [OF assms]]
  by (cases "send_state c") (auto simp: try_send_def good_def split_def elim!: returns_mono)

text \<open>A call on the channel and the call on the list of its messages: the same result, the same handlers.\<close>

lemma good_after:
  assumes "returns m (\<lambda>(c', ev). m' = ret (view c', ev) \<and> invar (chan_buffer c'))" "returns m' (\<lambda>(d, ev). chan_ok d)"
  shows "returns m (\<lambda>(c', ev). m' = ret (view c', ev) \<and> good c')"
  using assms by (auto simp: returns_def good_def)

lemma send_to_waiter_good:
  assumes "good c" "send_state c = Waiter" "a = Post_op \<or> a = Dispatch_op"
  shows "returns (send_to_waiter a m c) (\<lambda>(c', ev). send_to_waiter a m (view c) = ret (view c', ev) \<and> good c')"
  by (rule good_after [OF send_to_waiter_view [OF assms] returns_mono [OF send_to_waiter_step]])
    (use assms in \<open>auto simp: good_def lossless_def\<close>)

lemma try_send_n_loop_view:
  assumes "good c" "a = Post_op \<or> a = Dispatch_op"
  shows "returns (try_send_n_loop ops a n i m c)
    (\<lambda>(k, c', ev). try_send_n_loop deque_ops a n i m (view c) = ret (k, view c', ev) \<and> invar (chan_buffer c'))"
  using assms(1)
proof (induction n arbitrary: i c)
  case (Suc n)
  show ?case
  proof (cases "send_state c")
    case Waiter
    then show ?thesis using send_to_waiter_good [OF Suc.prems Waiter assms(2), of m]
      by (auto simp: split_def elim!: returns_mono intro!: returns_mono [OF Suc.IH])
  next
    case Buffer
    then show ?thesis using push_some_view [OF Suc.prems, of "Suc n" m] by (auto simp: split_def Let_def)
  qed (use Suc.prems in \<open>simp_all add: good_def\<close>)
qed (simp add: good_def)

lemma try_send_n_view:
  assumes "good c"
  shows "returns (try_send_n ops n d m c) (\<lambda>(k, c', ev). try_send_n deque_ops n d m (view c) = ret (k, view c', ev) \<and> invar (chan_buffer c'))"
  using assms try_send_n_loop_view [OF assms, of "if d then Dispatch_op else Post_op" n 0 m]
  by (auto simp: try_send_n_def good_def split: chan_state.split)

lemma async_send_view:
  assumes "good c"
  shows "returns (async_send ops i key m c) (\<lambda>(c', ev). async_send deque_ops i key m (view c) = ret (view c', ev) \<and> invar (chan_buffer c'))"
proof (cases "send_state c")
  case Waiter
  then show ?thesis using send_to_waiter_view [OF assms Waiter, of Post_op m]
    by (auto simp: async_send_def start_send_op_def action_defs split_def elim!: returns_mono)
next
  case Buffer
  then show ?thesis using send_to_buffer_view [OF assms Buffer] by (auto simp: async_send_def start_send_op_def action_defs)
next
  case Block
  then show ?thesis using assms by (auto simp: async_send_def start_send_op_def good_def intro: chan_eqI)
next
  case Closed
  then show ?thesis using assms by (auto simp: async_send_def start_send_op_def good_def action_defs)
qed

lemma try_receive_view:
  assumes "good c"
  shows "returns (try_receive ops c) (\<lambda>(ok, c', ev). try_receive deque_ops (view c) = ret (ok, view c', ev) \<and> invar (chan_buffer c'))"
  by (cases "receive_state c")
    (use assms receive_from_buffer_view [OF assms] receive_from_waiter_view [OF assms] in
      \<open>auto simp: try_receive_def good_def split_def elim!: returns_mono\<close>)

lemma async_receive_view:
  assumes "good c"
  shows "returns (async_receive ops i key c) (\<lambda>(c', ev). async_receive deque_ops i key (view c) = ret (view c', ev) \<and> invar (chan_buffer c'))"
proof (cases "receive_state c")
  case Block
  then show ?thesis using assms by (auto simp: async_receive_def start_receive_op_def good_def intro: chan_eqI)
next
  case Closed
  then show ?thesis using assms by (auto simp: async_receive_def start_receive_op_def good_def action_defs)
qed (use receive_from_buffer_view [OF assms] receive_from_waiter_view [OF assms] in
      \<open>auto simp: async_receive_def start_receive_op_def action_defs split_def elim!: returns_mono\<close>)

lemma close_view: "good c \<Longrightarrow> returns (chan_close c) (\<lambda>(c', ev). chan_close (view c) = ret (view c', ev) \<and> invar (chan_buffer c'))"
  by (auto simp: chan_close_def close_loop_eq good_def intro: chan_eqI)

lemma senders_of_block: "good c \<Longrightarrow> send_state c = Block \<longrightarrow> (\<forall>op \<in> set (waiters c). is_sender op)"
  by (auto simp: good_def dest: chan_okD)

lemma settle_view: "settle_states (view c) = view (settle_states c)" "chan_buffer (settle_states c) = chan_buffer c"
  "(view c)\<lparr>waiters := ops'\<rparr> = view (c\<lparr>waiters := ops'\<rparr>)"
  by (auto simp: settle_states_def idle_send_state_def intro: chan_eqI)

lemma cancel_view: "good c \<Longrightarrow> returns (chan_cancel c) (\<lambda>(c', ev). chan_cancel (view c) = ret (view c', ev) \<and> invar (chan_buffer c'))"
  by (simp add: chan_cancel_def cancel_loop_eq senders_of_block settle_view) (simp add: good_def)

lemma cancel_key_view:
  "good c \<Longrightarrow> returns (chan_cancel_by_key key c) (\<lambda>(c', ev). chan_cancel_by_key key (view c) = ret (view c', ev) \<and> invar (chan_buffer c'))"
  by (simp add: chan_cancel_by_key_def cancel_key_loop_eq senders_of_block settle_view Let_def) (simp add: good_def)

lemma reset_view:
  "good c \<Longrightarrow> returns (chan_reset ops c) (\<lambda>(c', ev). chan_reset deque_ops (view c) = ret (view c', ev) \<and> invar (chan_buffer c'))"
  using clear_msgs [of "chan_buffer c"]
  by (auto simp: chan_reset_def chan_cancel_def cancel_loop_eq senders_of_block settle_view good_def settle_states_def idle_send_state_def intro!: chan_eqI)

lemma chan_exec_view:
  assumes "good c"
  shows "returns (chan_exec ops cmd c) (\<lambda>(acc, c', ev). chan_exec deque_ops cmd (view c) = ret (acc, view c', ev) \<and> good c')"
proof -
  have "returns (chan_exec ops cmd c) (\<lambda>(acc, c', ev). chan_exec deque_ops cmd (view c) = ret (acc, view c', ev) \<and> invar (chan_buffer c'))"
    by (cases cmd) (auto simp: split_def chan_is_open_def
      intro!: returns_mono [OF try_send_view [OF assms]] returns_mono [OF try_send_n_view [OF assms]] returns_mono [OF async_send_view [OF assms]]
        returns_mono [OF try_receive_view [OF assms]] returns_mono [OF async_receive_view [OF assms]] returns_mono [OF close_view [OF assms]]
        returns_mono [OF cancel_view [OF assms]] returns_mono [OF cancel_key_view [OF assms]] returns_mono [OF reset_view [OF assms]])
  moreover have "returns (chan_exec deque_ops cmd (view c)) (\<lambda>(acc, d, ev). chan_ok d)"
    using assms by (intro returns_mono [OF chan_exec_step]) (auto simp: good_def orderly_def)
  ultimately show ?thesis by (auto simp: returns_def good_def)
qed

lemma chan_run_view:
  assumes "good c"
  shows "returns (chan_run ops cmds c) (\<lambda>(acc, c', ev). chan_run deque_ops cmds (view c) = ret (acc, view c', ev) \<and> good c')"
  using assms
proof (induction cmds arbitrary: c)
  case (Cons cmd cmds)
  show ?case
    by simp (rule returns_mono [OF chan_exec_view [OF Cons.prems, of cmd]], auto simp: split_def intro!: returns_mono [OF Cons.IH])
qed simp

lemma construct_good: "invar fresh \<Longrightarrow> msgs fresh = [] \<Longrightarrow> n < 2 ^ 64 \<Longrightarrow> good (chan_construct fresh n) \<and> view (chan_construct fresh n) = chan_construct [] n"
  by (auto simp: good_def chan_construct_def chan_ok_def intro: chan_eqI)

end

section \<open>Properties\<close>

lemma construct_ok: "n < 2 ^ 64 \<Longrightarrow> chan_ok (chan_construct [] n)"
  by (auto simp: chan_construct_def chan_ok_def)

lemma construct_empty [simp]: "held_msgs (chan_construct [] n) = []" "waiting_ids (chan_construct [] n) = {#}" "max_buffer_size (chan_construct [] n) = n"
  by (simp_all add: chan_construct_def held_msgs_def waiting_ids_def)

lemma run_of_new:
  assumes "n < 2 ^ 64"
  obtains acc c ev where "chan_run deque_ops cmds (chan_construct [] n) = ret (acc, c, ev)" "chan_ok c"
    "orderly (chan_construct [] n) acc (concat (map started_ops cmds)) c ev"
    "(\<forall>cmd \<in> set cmds. \<not> drops cmd) \<Longrightarrow> lossless (chan_construct [] n) acc (concat (map started_ops cmds)) c ev"
proof -
  have "returns (chan_run deque_ops cmds (chan_construct [] n)) (\<lambda>(acc, c, ev). orderly (chan_construct [] n) acc (concat (map started_ops cmds)) c ev
      \<and> ((\<forall>cmd \<in> set cmds. \<not> drops cmd) \<longrightarrow> lossless (chan_construct [] n) acc (concat (map started_ops cmds)) c ev))"
    by (rule chan_run_step [OF construct_ok [OF assms]])
  then obtain acc c ev where "chan_run deque_ops cmds (chan_construct [] n) = ret (acc, c, ev)"
    and o: "orderly (chan_construct [] n) acc (concat (map started_ops cmds)) c ev"
    and l: "(\<forall>cmd \<in> set cmds. \<not> drops cmd) \<longrightarrow> lossless (chan_construct [] n) acc (concat (map started_ops cmds)) c ev"
    unfolding returns_def by auto
  with that [of acc c ev] orderly_ok [OF o] show thesis by simp
qed


text \<open>Every operation completes once, and none waits in vain. The operations started on a new channel are those that completed and
  those that wait. While a receiver waits there is no message and no sender; while a sender waits, on a channel that is open,
  the buffer is full.\<close>

lemma channel_ops_complete_once:
  assumes "n < 2 ^ 64"
  shows "\<exists>acc c ev. chan_run deque_ops cmds (chan_construct [] n) = ret (acc, c, ev)
    \<and> mset (concat (map started_ops cmds)) = mset (completed_ops ev) + waiting_ids c
    \<and> ((\<exists>op \<in> set (waiters c). \<not> is_sender op) \<longrightarrow> held_msgs c = [])
    \<and> ((\<exists>op \<in> set (waiters c). is_sender op) \<and> chan_is_open c \<longrightarrow> length (chan_buffer c) = n)"
proof -
  obtain acc c ev where run: "chan_run deque_ops cmds (chan_construct [] n) = ret (acc, c, ev)" "chan_ok c"
    "orderly (chan_construct [] n) acc (concat (map started_ops cmds)) c ev"
    using run_of_new [OF assms, of cmds] by metis
  moreover from this have "max_buffer_size c = n" by (simp add: orderly_def)
  moreover have "held_msgs c = []" if "op \<in> set (waiters c)" "\<not> is_sender op" for op
    using that run(2) by (cases "send_state c") (auto simp: chan_ok_def held_msgs_def is_sender_iff waiting_receivers)
  moreover have "length (chan_buffer c) = max_buffer_size c" if "op \<in> set (waiters c)" "is_sender op" "chan_is_open c" for op
    using that run(2) by (cases "send_state c") (auto simp: chan_ok_def chan_is_open_def)
  ultimately show ?thesis by (auto simp: orderly_def)
qed

text \<open>C30. The counter and the run lengths are buffers as good as the deque: the same calls accept the same messages and submit the same
  handlers.\<close>

theorem channel_buffers_agree:
  assumes "n < 2 ^ 64"
  shows "(\<exists>acc c d ev. chan_run counter_ops cmds (chan_construct 0 n) = ret (acc, c, ev)
      \<and> chan_run deque_ops cmds (chan_construct [] n) = ret (acc, d, ev))
    \<and> (\<exists>acc c d ev. chan_run coded_ops cmds' (chan_construct (coded_new e) n) = ret (acc, c, ev)
      \<and> chan_run deque_ops cmds' (chan_construct [] n) = ret (acc, d, ev))"
proof
  have "counter.good (chan_construct 0 n)" "chan_msgs (\<lambda>n. replicate n ()) (chan_construct 0 n) = chan_construct [] n"
    using counter.construct_good [of 0 n] assms by simp_all
  then show "\<exists>acc c d ev. chan_run counter_ops cmds (chan_construct 0 n) = ret (acc, c, ev)
      \<and> chan_run deque_ops cmds (chan_construct [] n) = ret (acc, d, ev)"
    using counter.chan_run_view [of "chan_construct 0 n" cmds] by (auto simp: returns_def)
  have "coded_msgs (coded_new e) = []" "coded_invar (coded_new e)" by (simp_all add: coded_new_def coded_msgs_def coded_invar_def)
  then have "coded.good (chan_construct (coded_new e) n)" "chan_msgs coded_msgs (chan_construct (coded_new e) n) = chan_construct [] n"
    using coded.construct_good [of "coded_new e" n] assms by simp_all
  then show "\<exists>acc c d ev. chan_run coded_ops cmds' (chan_construct (coded_new e) n) = ret (acc, c, ev)
      \<and> chan_run deque_ops cmds' (chan_construct [] n) = ret (acc, d, ev)"
    using coded.chan_run_view [of "chan_construct (coded_new e) n" cmds'] by (auto simp: returns_def)
qed

text \<open>C31. Senders caught by a close are told of success. \<open>close\<close> leaves them waiting, and \<open>cancel\<close> (which destroying, resetting and
  assigning to the channel also call) takes every operation for a receiver once \<open>send_state_\<close> is \<open>closed\<close>: their handlers get no
  error, and nobody receives their messages.\<close>

theorem closed_senders_told_success:
  assumes "n < 2 ^ 64" "chan_run deque_ops cmds (chan_construct [] n) = ret (acc, c, ev)" "\<not> chan_is_open c"
  shows "\<exists>c'. chan_cancel c = ret (c', map (\<lambda>op. Send_handler (op_id op) No_error Via_post) (waiters c))
    \<and> held_msgs c' = chan_buffer c \<and> waiters c' = []"
proof -
  have ok: "chan_ok c" using run_of_new [OF assms(1), of cmds] assms(2) by (metis ret_eq_iff prod.inject)
  moreover have "told_cancelled Closed op = Send_handler (op_id op) No_error Via_post" if "op \<in> set (waiters c)" for op
    using that ok assms(3) by (cases "op_type op") (auto simp: chan_ok_def chan_is_open_def is_sender_iff told_cancelled_def)
  ultimately show ?thesis using assms(3) by (simp add: chan_cancel_eq chan_is_open_def held_msgs_def settle_states_def)
qed

section \<open>Moving, and threads\<close>

text \<open>A channel on which nothing waits moves with its messages, and leaves an empty channel of the same capacity.\<close>

lemma move_idle:
  assumes "chan_ok other" "waiters other = []"
  shows "case move_construct deque_ops fresh other of (c, other') \<Rightarrow>
    chan_ok c \<and> held_msgs c = held_msgs other \<and> send_state c = send_state other \<and> chan_ok other' \<and> held_msgs other' = []
    \<and> max_buffer_size other' = max_buffer_size other"
  using assms by (cases "send_state other")
    (auto simp: move_construct_def move_members_def chan_ok_def held_msgs_def idle_send_state_def split: if_splits)

text \<open>Waiting operations do not move, though the states that promise them do: the next call on the new channel goes through a null
  pointer.\<close>

lemma move_with_waiters:
  assumes "chan_ok other" "waiters other \<noteq> []" "chan_is_open other" "chan_buffer other = []"
  shows "case move_construct deque_ops fresh other of (c, other') \<Rightarrow>
    try_send deque_ops d m c = undef NullDereference \<or> try_receive deque_ops c = undef NullDereference"
  using assms by (cases "send_state other")
    (auto simp: move_construct_def move_members_def chan_ok_def chan_is_open_def try_send_def try_receive_def send_to_waiter_def receive_from_waiter_def)

text \<open>After its first message for a receiver \<open>try_send_n\<close> goes on without the mutex. When its next round has read
  \<open>send_state_\<close> and another thread takes the last receiver, the round goes through a null pointer.\<close>

lemma try_send_n_race:
  assumes "chan_ok c" "send_state c = Waiter" "waiters c = [op]"
  shows "returns (try_send deque_ops d m c) (\<lambda>(ok, c', ev). ok \<and> send_to_waiter a m' c' = undef NullDereference)"
  using assms by (auto simp: try_send_def send_to_waiter_def chan_ok_def is_sender_iff action_defs Let_def)

section \<open>The list of the channels of a context\<close>

text \<open>The service links its channels in both directions; \<open>shutdown\<close> walks the list and abandons every waiting operation.
  Channels are named by numbers.\<close>

record chan_links =
  impl_list :: "nat option"
  next_impl :: "nat \<Rightarrow> nat option"
  prev_impl :: "nat \<Rightarrow> nat option"

definition link_impl :: "nat \<Rightarrow> chan_links \<Rightarrow> chan_links" where
  "link_impl i l =
     (let l1 = l\<lparr>next_impl := (next_impl l)(i := impl_list l), prev_impl := (prev_impl l)(i := None)\<rparr>;
          l2 = (case impl_list l1 of Some h \<Rightarrow> l1\<lparr>prev_impl := (prev_impl l1)(h := Some i)\<rparr> | None \<Rightarrow> l1) in
      l2\<lparr>impl_list := Some i\<rparr>)"

definition unlink_impl :: "nat \<Rightarrow> chan_links \<Rightarrow> chan_links" where
  "unlink_impl i l =
     (let l1 = (if impl_list l = Some i then l\<lparr>impl_list := next_impl l i\<rparr> else l);
          l2 = (case prev_impl l1 i of Some p \<Rightarrow> l1\<lparr>next_impl := (next_impl l1)(p := next_impl l1 i)\<rparr> | None \<Rightarrow> l1);
          l3 = (case next_impl l2 i of Some q \<Rightarrow> l2\<lparr>prev_impl := (prev_impl l2)(q := prev_impl l2 i)\<rparr> | None \<Rightarrow> l2) in
      l3\<lparr>next_impl := (next_impl l3)(i := None), prev_impl := (prev_impl l3)(i := None)\<rparr>)"

text \<open>The walk of \<open>shutdown\<close>, with fuel.\<close>

fun shutdown_walk :: "nat \<Rightarrow> chan_links \<Rightarrow> (nat \<Rightarrow> 'op list) \<Rightarrow> nat option \<Rightarrow> 'op list option" where
  "shutdown_walk fuel l ops None = Some []"
| "shutdown_walk 0 l ops (Some i) = None"
| "shutdown_walk (Suc fuel) l ops (Some i) = map_option (\<lambda>rest. ops i @ rest) (shutdown_walk fuel l ops (next_impl l i))"

text \<open>A segment of the list, from \<open>p\<close> and \<open>q\<close> before it to \<open>p'\<close> and \<open>q'\<close> behind it.\<close>

fun segment :: "chan_links \<Rightarrow> nat option \<Rightarrow> nat option \<Rightarrow> nat list \<Rightarrow> nat option \<Rightarrow> nat option \<Rightarrow> bool" where
  "segment l p q [] p' q' \<longleftrightarrow> p = p' \<and> q = q'"
| "segment l p q (x # xs) p' q' \<longleftrightarrow> q = Some x \<and> prev_impl l x = p \<and> segment l (Some x) (next_impl l x) xs p' q'"

definition links :: "chan_links \<Rightarrow> nat list \<Rightarrow> bool" where
  "links l xs \<longleftrightarrow> distinct xs \<and> (\<exists>p. segment l None (impl_list l) xs p None)"

lemma segment_append: "segment l p q (xs @ ys) p' q' \<longleftrightarrow> (\<exists>p1 q1. segment l p q xs p1 q1 \<and> segment l p1 q1 ys p' q')"
  by (induction xs arbitrary: p q) auto

lemma segment_cong:
  "\<forall>x \<in> set xs. next_impl l' x = next_impl l x \<and> prev_impl l' x = prev_impl l x \<Longrightarrow> segment l' p q xs p' q' = segment l p q xs p' q'"
  by (induction xs arbitrary: p q) auto

lemma link_impl_links:
  assumes "links l xs" "i \<notin> set xs"
  shows "links (link_impl i l) (i # xs)"
proof (cases xs)
  case Nil
  then show ?thesis using assms by (auto simp: links_def link_impl_def Let_def)
next
  case (Cons x ys)
  with assms obtain p where p: "impl_list l = Some x" "segment l (Some x) (next_impl l x) ys p None" by (auto simp: links_def)
  have "segment (link_impl i l) (Some x) (next_impl l x) ys p None"
    using p assms Cons by (subst segment_cong [of ys _ l]) (auto simp: links_def link_impl_def Let_def)
  then show ?thesis using assms Cons p by (auto simp: links_def link_impl_def Let_def)
qed

lemma unlink_impl_fields:
  assumes "prev_impl l i \<noteq> Some i" "next_impl l i \<noteq> Some i"
  shows "impl_list (unlink_impl i l) = (if impl_list l = Some i then next_impl l i else impl_list l)"
    and "next_impl (unlink_impl i l) x = (if x = i then None else if prev_impl l i = Some x then next_impl l i else next_impl l x)"
    and "prev_impl (unlink_impl i l) x = (if x = i then None else if next_impl l i = Some x then prev_impl l i else prev_impl l x)"
  using assms by (auto simp: unlink_impl_def Let_def split: option.splits)

lemma segment_ends:
  "segment l p q xs p' q' \<Longrightarrow> p' = (if xs = [] then p else Some (last xs)) \<and> q = (if xs = [] then q' else Some (hd xs))"
  by (induction xs arbitrary: p q) auto

lemma unlink_impl_links:
  assumes "links l (xs @ i # ys)"
  shows "links (unlink_impl i l) (xs @ ys)"
proof -
  let ?l = "unlink_impl i l"
  obtain p1 p2 where seg: "segment l None (impl_list l) xs p1 (Some i)" "prev_impl l i = p1" "segment l (Some i) (next_impl l i) ys p2 None"
    and dist: "distinct (xs @ i # ys)"
    using assms by (auto simp: links_def segment_append)
  have p1: "prev_impl l i = (if xs = [] then None else Some (last xs))" "impl_list l = (if xs = [] then Some i else Some (hd xs))"
    using segment_ends [OF seg(1)] seg(2) by auto
  have q1: "next_impl l i = (if ys = [] then None else Some (hd ys))" using segment_ends [OF seg(3)] by auto
  have "prev_impl l i \<noteq> Some i" "next_impl l i \<noteq> Some i" using dist p1 q1 by (auto split: if_splits)
  note fields = unlink_impl_fields [OF this]
  have front: "segment ?l None (impl_list ?l) xs p1 (next_impl l i)"
  proof (cases xs rule: rev_cases)
    case Nil
    then show ?thesis using seg(1) by (simp add: fields)
  next
    case (snoc zs z)
    have "impl_list l \<noteq> Some i" using p1(2) dist snoc hd_in_set [of xs] by (auto split: if_splits)
    then have "impl_list ?l = impl_list l" by (simp add: fields)
    moreover have "prev_impl ?l x = prev_impl l x" if "x \<in> set xs" for x using that dist q1 by (auto simp: fields)
    moreover have "next_impl ?l x = (if x = z then next_impl l i else next_impl l x)" if "x \<in> set xs" for x
      using that dist p1 snoc by (auto simp: fields)
    ultimately show ?thesis using seg(1) dist snoc by (auto simp: segment_append segment_cong [of zs ?l l])
  qed
  have "\<exists>p. segment ?l p1 (next_impl l i) ys p None"
  proof (cases ys)
    case Nil
    then show ?thesis using q1 by simp
  next
    case (Cons y zs)
    have apart: "xs \<noteq> [] \<Longrightarrow> last xs \<notin> set ys" using dist by (cases xs rule: rev_cases) auto
    have "next_impl ?l x = next_impl l x" if "x \<in> set ys" for x using that dist p1 apart by (auto simp: fields split: if_splits)
    moreover have "prev_impl ?l x = (if x = y then p1 else prev_impl l x)" if "x \<in> set ys" for x
      using that dist q1 Cons seg(2) by (auto simp: fields)
    ultimately show ?thesis using seg(3) dist Cons by (auto simp: segment_cong [of zs ?l l])
  qed
  then show ?thesis using front dist seg by (auto simp: links_def segment_append)
qed

text \<open>On a list of channels the walk ends, with fuel for each of them, and abandons what waits on every one.\<close>

lemma shutdown_walk_all: "segment l p q xs p' None \<Longrightarrow> length xs \<le> fuel \<Longrightarrow> shutdown_walk fuel l ops q = Some (concat (map ops xs))"
proof (induction xs arbitrary: p q fuel)
  case (Cons x xs)
  then show ?case by (cases fuel) auto
qed simp

section \<open>Witnesses\<close>


lemma channel_buffers_agree_witness:
  "\<exists>acc c d ev. chan_run coded_ops [Try_send_n 3 False (7 :: nat), Try_send False 8, Try_receive] (chan_construct (coded_new 0) 4) = ret (acc, c, ev)
    \<and> chan_run deque_ops [Try_send_n 3 False (7 :: nat), Try_send False 8, Try_receive] (chan_construct [] 4) = ret (acc, d, ev)"
  by (rule channel_buffers_agree [THEN conjunct2]) simp

lemma closed_senders_told_success_witness:
  "\<exists>c' :: (nat list, nat) channel.
    chan_cancel (\<lparr>receive_state = Closed, send_state = Closed, max_buffer_size = 0,
        waiters = [\<lparr>op_id = 1, cancellation_key = 0, op_type = Send_op 7\<rparr>], chan_buffer = []\<rparr>)
      = ret (c', [Send_handler 1 No_error Via_post]) \<and> held_msgs c' = []"
proof -
  let ?c = "\<lparr>receive_state = Closed, send_state = Closed, max_buffer_size = 0,
        waiters = [\<lparr>op_id = 1, cancellation_key = 0, op_type = Send_op 7\<rparr>], chan_buffer = []\<rparr> :: (nat list, nat) channel"
  have "chan_run deque_ops [Async_send 1 0 7, Close_channel] (chan_construct [] 0) = ret ([7], ?c, [])"
    by (simp add: async_send_def start_send_op_def chan_construct_def chan_is_open_def chan_close_def)
  from closed_senders_told_success [OF _ this] show ?thesis by (auto simp: chan_is_open_def)
qed

end
