(* ===== verification/AsioBuffersIterator.thy ===== *)
theory AsioBuffersIterator
  imports AsioBuffers
begin

text \<open>
  The random access iterator of the vendored Asio over the bytes of a sequence of buffers,
  \<^verbatim>\<open>include/asio/buffers_iterator.hpp\<close>. Iterators into the sequence are indices. A failed assertion and an access
  outside a buffer are undefined; the loops of \<open>advance\<close> could run for ever, and would be \<open>None\<close>.
\<close>

section \<open>Iterators\<close>

record buf_iter =
  it_buffer :: buf      \<comment> \<open>\<open>current_buffer_\<close>\<close>
  it_offset :: nat      \<comment> \<open>\<open>current_buffer_position_\<close>\<close>
  it_bufs :: "buf list" \<comment> \<open>from \<open>begin_\<close> to \<open>end_\<close>\<close>
  it_current :: nat
  it_position :: nat

definition it_new :: "buf list \<Rightarrow> buf_iter" where
  "it_new bs = \<lparr>it_buffer = Buf 0 0, it_offset = 0, it_bufs = bs, it_current = 0, it_position = 0\<rparr>"

text \<open>The loop that looks for a buffer that is not empty, over what is left of the sequence.\<close>

fun skip_empty :: "nat \<Rightarrow> buf \<Rightarrow> buf list \<Rightarrow> nat \<times> buf" where
  "skip_empty i b [] = (i, b)"
| "skip_empty i b (x # xs) = (if buf_size x > 0 then (i, x) else skip_empty (Suc i) x xs)"

definition it_begin :: "buf list \<Rightarrow> buf_iter" where
  "it_begin bs = (let (i, b) = skip_empty 0 (it_buffer (it_new bs)) bs in (it_new bs)\<lparr>it_current := i, it_buffer := b\<rparr>)"

definition it_end :: "buf list \<Rightarrow> buf_iter" where
  "it_end bs = (it_new bs)\<lparr>it_position := foldl (\<lambda>n b. n + buf_size b) 0 bs, it_current := length bs\<rparr>"

definition it_at_end :: "buf_iter \<Rightarrow> bool" where
  "it_at_end it \<longleftrightarrow> it_current it = length (it_bufs it)"

text \<open>The address of the byte.\<close>

definition it_dereference :: "buf_iter \<Rightarrow> nat comp" where
  "it_dereference it = (if it_offset it < buf_size (it_buffer it) then ret (buf_data (it_buffer it) + it_offset it) else undef OutOfBounds)"

definition it_equal :: "buf_iter \<Rightarrow> buf_iter \<Rightarrow> bool" where
  "it_equal a b \<longleftrightarrow> it_position a = it_position b"

definition it_distance_to :: "buf_iter \<Rightarrow> buf_iter \<Rightarrow> int" where
  "it_distance_to a b = int (it_position b) - int (it_position a)"

definition it_less :: "buf_iter \<Rightarrow> buf_iter \<Rightarrow> bool" where
  "it_less a b \<longleftrightarrow> it_distance_to a b > 0"

definition it_increment :: "buf_iter \<Rightarrow> buf_iter comp" where
  "it_increment it =
     (if it_at_end it then undef OutOfBounds
      else let it = it\<lparr>it_position := it_position it + 1, it_offset := it_offset it + 1\<rparr> in
        if it_offset it \<noteq> buf_size (it_buffer it) then ret it
        else let (i, b) = skip_empty (it_current it + 1) (it_buffer it) (drop (it_current it + 1) (it_bufs it))
             in ret (it\<lparr>it_current := i, it_buffer := b, it_offset := 0\<rparr>))"

text \<open>The last buffer before index \<open>i\<close> that is not empty.\<close>

fun find_prev :: "buf list \<Rightarrow> nat \<Rightarrow> (nat \<times> buf) option" where
  "find_prev bs 0 = None"
| "find_prev bs (Suc i) = (if buf_size (bs ! i) > 0 then Some (i, bs ! i) else find_prev bs i)"

definition it_decrement :: "buf_iter \<Rightarrow> buf_iter comp" where
  "it_decrement it =
     (if it_position it = 0 then undef OutOfBounds
      else let it = it\<lparr>it_position := it_position it - 1\<rparr> in
        if it_offset it \<noteq> 0 then ret (it\<lparr>it_offset := it_offset it - 1\<rparr>)
        else (case find_prev (it_bufs it) (it_current it) of
            None \<Rightarrow> ret it
          | Some (i, b) \<Rightarrow> ret (it\<lparr>it_current := i, it_buffer := b, it_offset := buf_size b - 1\<rparr>)))"

partial_function (option) advance_forward :: "nat \<Rightarrow> buf_iter \<Rightarrow> buf_iter comp" where
  "advance_forward n it =
     (let balance = buf_size (it_buffer it) - it_offset it in
      if balance > n then ret (it\<lparr>it_position := it_position it + n, it_offset := it_offset it + n\<rparr>)
      else let n = n - balance; it = it\<lparr>it_position := it_position it + balance, it_current := it_current it + 1\<rparr> in
        (case drop (it_current it) (it_bufs it) of
           [] \<Rightarrow> if n = 0 then ret (it\<lparr>it_buffer := Buf 0 0, it_offset := 0\<rparr>) else undef OutOfBounds
         | b # _ \<Rightarrow> advance_forward n (it\<lparr>it_buffer := b, it_offset := 0\<rparr>)))"

partial_function (option) advance_back :: "nat \<Rightarrow> buf_iter \<Rightarrow> buf_iter comp" where
  "advance_back n it =
     (if it_offset it \<ge> n then ret (it\<lparr>it_position := it_position it - n, it_offset := it_offset it - n\<rparr>)
      else let n = n - it_offset it; it = it\<lparr>it_position := it_position it - it_offset it\<rparr> in
        if it_current it = 0 then (if n = 0 then ret (it\<lparr>it_offset := 0\<rparr>) else undef OutOfBounds)
        else (case find_prev (it_bufs it) (it_current it) of
            None \<Rightarrow> advance_back n it
          | Some (i, b) \<Rightarrow> advance_back n (it\<lparr>it_current := i, it_buffer := b, it_offset := buf_size b\<rparr>)))"

definition it_advance :: "int \<Rightarrow> buf_iter \<Rightarrow> buf_iter comp" where
  "it_advance n it =
     (if n > 0 then (if it_at_end it then undef OutOfBounds else advance_forward (nat n) it)
      else if n < 0 then (if it_position it < nat (- n) then undef OutOfBounds else advance_back (nat (- n)) it)
      else ret it)"

text \<open>\<open>operator[]\<close>, and programs of moves.\<close>

definition it_subscript :: "int \<Rightarrow> buf_iter \<Rightarrow> nat comp" where
  "it_subscript difference it = seqc (it_advance difference it) it_dereference"

datatype it_move = Increment | Decrement | Advance int

fun it_run :: "it_move list \<Rightarrow> buf_iter \<Rightarrow> buf_iter comp" where
  "it_run [] it = ret it"
| "it_run (Increment # ms) it = seqc (it_increment it) (it_run ms)"
| "it_run (Decrement # ms) it = seqc (it_decrement it) (it_run ms)"
| "it_run (Advance n # ms) it = seqc (it_advance n it) (it_run ms)"

text \<open>The same moves on an index into \<open>len\<close> bytes.\<close>

fun move_distance :: "it_move \<Rightarrow> int" where
  "move_distance Increment = 1"
| "move_distance Decrement = - 1"
| "move_distance (Advance n) = n"

fun index_run :: "nat \<Rightarrow> it_move list \<Rightarrow> nat \<Rightarrow> nat option" where
  "index_run len [] p = Some p"
| "index_run len (m # ms) p =
     (let q = int p + move_distance m in if 0 \<le> q \<and> q \<le> int len then index_run len ms (nat q) else None)"

section \<open>Where an iterator stands\<close>

definition it_ok :: "buf list \<Rightarrow> nat \<Rightarrow> buf_iter \<Rightarrow> bool" where
  "it_ok bs p it \<longleftrightarrow> it_bufs it = bs \<and> it_position it = p \<and> it_current it \<le> length bs
     \<and> p = buffer_size (take (it_current it) bs) + it_offset it
     \<and> (it_current it < length bs \<longrightarrow> it_buffer it = bs ! it_current it \<and> it_offset it < buf_size (bs ! it_current it))
     \<and> (it_current it = length bs \<longrightarrow> it_offset it = 0)"

lemma buffer_size_append [simp]: "buffer_size (xs @ ys) = buffer_size xs + buffer_size ys"
  by (simp add: buffer_size_def)

lemma buffer_size_take_Suc: "i < length bs \<Longrightarrow> buffer_size (take (Suc i) bs) = buffer_size (take i bs) + buf_size (bs ! i)"
  by (simp add: take_Suc_conv_app_nth)

lemma buffer_size_split: "buffer_size bs = buffer_size (take i bs) + buffer_size (drop i bs)"
  by (metis append_take_drop_id buffer_size_append)

lemma skip_empty_ok:
  assumes "i \<le> length bs" "it_bufs it = bs" "it_position it = buffer_size (take i bs)"
  shows "case skip_empty i b (drop i bs) of (j, c) \<Rightarrow> it_ok bs (it_position it) (it\<lparr>it_current := j, it_buffer := c, it_offset := 0\<rparr>)"
  using assms
proof (induction "drop i bs" arbitrary: i b)
  case Nil
  then show ?case by (auto simp: it_ok_def)
next
  case (Cons x xs)
  from Cons.hyps(2) have i: "i < length bs" "bs ! i = x" "drop (Suc i) bs = xs"
    by (metis drop_eq_Nil leI list.distinct(1), metis nth_via_drop, metis drop_Suc list.sel(3) tl_drop)
  show ?case
  proof (cases "buf_size x > 0")
    case True
    then show ?thesis using Cons.prems i by (auto simp: it_ok_def Cons.hyps(2)[symmetric])
  next
    case False
    then show ?thesis using Cons.hyps(1) [of "Suc i" x] Cons.prems i
      by (simp add: Cons.hyps(2)[symmetric] buffer_size_take_Suc)
  qed
qed

lemma find_prev_found:
  "c \<le> length bs \<Longrightarrow> 0 < buffer_size (take c bs) \<Longrightarrow>
    \<exists>i<c. find_prev bs c = Some (i, bs ! i) \<and> 0 < buf_size (bs ! i) \<and> buffer_size (take c bs) = buffer_size (take i bs) + buf_size (bs ! i)"
proof (induction c)
  case (Suc c)
  show ?case
  proof (cases "buf_size (bs ! c) > 0")
    case True
    then show ?thesis using Suc.prems by (auto simp: buffer_size_take_Suc)
  next
    case False
    then have "buffer_size (take (Suc c) bs) = buffer_size (take c bs)" using Suc.prems by (simp add: buffer_size_take_Suc)
    then show ?thesis using Suc False by (auto intro: less_SucI)
  qed
qed simp

lemma it_begin_ok: "it_ok bs 0 (it_begin bs)"
  using skip_empty_ok [of 0 bs "it_new bs" "it_buffer (it_new bs)"] by (auto simp: it_begin_def it_new_def split_def Let_def)

lemma foldl_size: "foldl (\<lambda>n b. n + buf_size b) k bs = k + buffer_size bs"
  by (induction bs arbitrary: k) auto

lemma it_end_ok: "it_ok bs (buffer_size bs) (it_end bs)"
  by (simp add: it_end_def it_new_def it_ok_def foldl_size)

lemma it_ok_bounds:
  assumes "it_ok bs p it"
  shows "p \<le> buffer_size bs" "it_at_end it \<longleftrightarrow> p = buffer_size bs"
proof -
  have total: "buffer_size bs = buffer_size (take (it_current it) bs) + buffer_size (drop (it_current it) bs)" by (rule buffer_size_split)
  have some: "buf_size (bs ! it_current it) \<le> buffer_size (drop (it_current it) bs)" if "it_current it < length bs"
    using that by (simp add: Cons_nth_drop_Suc[symmetric])
  have "p \<le> buffer_size bs \<and> (it_at_end it \<longleftrightarrow> p = buffer_size bs)"
  proof (cases "it_current it < length bs")
    case True
    then have "it_offset it < buf_size (bs ! it_current it)" using assms by (simp add: it_ok_def)
    moreover have "\<not> it_at_end it" using True assms by (simp add: it_ok_def it_at_end_def)
    moreover have "p = buffer_size (take (it_current it) bs) + it_offset it" using assms by (simp add: it_ok_def)
    ultimately show ?thesis using total some [OF True] by simp
  next
    case False
    then have "it_current it = length bs" using assms by (simp add: it_ok_def)
    then show ?thesis using assms by (simp add: it_ok_def it_at_end_def)
  qed
  then show "p \<le> buffer_size bs" "it_at_end it \<longleftrightarrow> p = buffer_size bs" by simp_all
qed

lemma dereference_ok:
  assumes "it_ok bs p it" "p < buffer_size bs"
  shows "it_dereference it = ret (seq_addrs bs ! p)"
proof -
  have c: "it_current it < length bs" using assms it_ok_bounds [OF assms(1)] by (auto simp: it_ok_def it_at_end_def)
  let ?c = "it_current it"
  have "seq_addrs bs = seq_addrs (take ?c bs) @ addrs (bs ! ?c) @ seq_addrs (drop (Suc ?c) bs)"
    by (metis append_take_drop_id Cons_nth_drop_Suc [OF c] seq_addrs_simps(2) seq_addrs_def concat_append map_append)
  moreover have "it_offset it < buf_size (bs ! ?c)" using assms c by (simp add: it_ok_def)
  ultimately have "seq_addrs bs ! p = addrs (bs ! ?c) ! it_offset it" using assms by (simp add: it_ok_def nth_append)
  then show ?thesis using assms c by (simp add: it_ok_def it_dereference_def addrs_def)
qed

lemma not_at_end: "it_ok bs p it \<Longrightarrow> p < buffer_size bs \<Longrightarrow> it_current it < length bs"
  using it_ok_bounds(2) [of bs p it] by (auto simp: it_ok_def it_at_end_def)

lemma increment_ok:
  assumes "it_ok bs p it"
  shows "if p < buffer_size bs then \<exists>it'. it_increment it = ret it' \<and> it_ok bs (p + 1) it' else it_increment it = undef OutOfBounds"
proof (cases "p < buffer_size bs")
  case True
  have c: "it_current it < length bs" by (rule not_at_end [OF assms True])
  let ?it = "it\<lparr>it_position := it_position it + 1, it_offset := it_offset it + 1\<rparr>"
  have "\<not> it_at_end it" using it_ok_bounds(2) [OF assms] True by simp
  moreover have "\<exists>it'. ret (case skip_empty (it_current it + 1) (it_buffer it) (drop (it_current it + 1) bs) of (i, b) \<Rightarrow>
      ?it\<lparr>it_current := i, it_buffer := b, it_offset := 0\<rparr>) = ret it' \<and> it_ok bs (p + 1) it'" if "it_offset it + 1 = buf_size (it_buffer it)"
    using skip_empty_ok [of "it_current it + 1" bs ?it "it_buffer it"] assms c that
    by (auto simp: it_ok_def buffer_size_take_Suc split: prod.splits)
  ultimately show ?thesis using assms c True by (auto simp: it_increment_def it_ok_def Let_def split: prod.splits)
next
  case False
  then have "it_at_end it" using it_ok_bounds [OF assms] by simp
  then show ?thesis using False by (simp add: it_increment_def)
qed

lemma decrement_ok:
  assumes "it_ok bs p it"
  shows "if 0 < p then \<exists>it'. it_decrement it = ret it' \<and> it_ok bs (p - 1) it' else it_decrement it = undef OutOfBounds"
proof (cases "0 < p")
  case True
  show ?thesis
  proof (cases "it_offset it")
    case 0
    then obtain i where i: "i < it_current it" "find_prev bs (it_current it) = Some (i, bs ! i)" "0 < buf_size (bs ! i)"
      "buffer_size (take (it_current it) bs) = buffer_size (take i bs) + buf_size (bs ! i)"
      using find_prev_found [of "it_current it" bs] assms True by (auto simp: it_ok_def)
    then show ?thesis using assms True 0 by (auto simp: it_decrement_def it_ok_def Let_def)
  next
    case (Suc k)
    then have "it_current it < length bs" using assms by (auto simp: it_ok_def le_less)
    then show ?thesis using assms True Suc by (auto simp: it_decrement_def it_ok_def Let_def)
  qed
next
  case False
  then show ?thesis using assms by (simp add: it_decrement_def it_ok_def)
qed

text \<open>The loops of \<open>advance\<close>, from any place inside or behind the bytes of a buffer, which may be empty.\<close>

lemma advance_forward_ok:
  assumes "it_bufs it = bs" "it_current it < length bs" "it_buffer it = bs ! it_current it" "it_offset it \<le> buf_size (it_buffer it)"
    "it_position it = buffer_size (take (it_current it) bs) + it_offset it"
  shows "if it_position it + n \<le> buffer_size bs then \<exists>it'. advance_forward n it = ret it' \<and> it_ok bs (it_position it + n) it'
    else advance_forward n it = undef OutOfBounds"
  using assms
proof (induction "length bs - it_current it" arbitrary: it n rule: less_induct)
  case less
  let ?c = "it_current it" and ?b = "bs ! it_current it"
  let ?balance = "buf_size ?b - it_offset it"
  have rest: "buffer_size bs = buffer_size (take ?c bs) + buf_size ?b + buffer_size (drop (Suc ?c) bs)"
    using less.prems(2) buffer_size_split [of bs "Suc ?c"] by (simp add: buffer_size_take_Suc)
  show ?case
  proof (cases "?balance > n")
    case True
    then have "advance_forward n it = ret (it\<lparr>it_position := it_position it + n, it_offset := it_offset it + n\<rparr>)"
      using less.prems by (subst advance_forward.simps) (simp add: Let_def)
    moreover have "it_position it + n \<le> buffer_size bs" using less.prems rest True by simp
    ultimately show ?thesis using less.prems True by (simp add: it_ok_def)
  next
    case False
    show ?thesis
    proof (cases "drop (Suc ?c) bs")
      case Nil
      then have len: "length bs = Suc ?c" using less.prems(2) by simp
      let ?it = "it\<lparr>it_position := it_position it + ?balance, it_current := Suc ?c, it_buffer := Buf 0 0, it_offset := 0\<rparr>"
      have "advance_forward n it = (if n = ?balance then ret ?it else undef OutOfBounds)"
        using less.prems False Nil by (subst advance_forward.simps) (simp add: Let_def, linarith)
      moreover have "it_position it + n \<le> buffer_size bs \<longleftrightarrow> n = ?balance"
        using less.prems(3,4,5) rest False Nil by simp linarith
      moreover have "it_position it + ?balance = buffer_size (take (Suc ?c) bs)"
        using less.prems(3,4,5) buffer_size_take_Suc [OF less.prems(2)] by simp
      then have "it_ok bs (it_position it + ?balance) ?it" using less.prems(1) len by (simp add: it_ok_def)
      ultimately show ?thesis by (cases "n = ?balance") simp_all
    next
      case (Cons b xs)
      then have b: "Suc ?c < length bs" "bs ! Suc ?c = b" by (metis drop_eq_Nil leI list.distinct(1), metis nth_via_drop)
      let ?it = "it\<lparr>it_position := it_position it + ?balance, it_current := Suc ?c, it_buffer := b, it_offset := 0\<rparr>"
      have "advance_forward n it = advance_forward (n - ?balance) ?it"
        using less.prems False Cons by (subst advance_forward.simps) (simp add: Let_def)
      moreover have "it_position ?it + (n - ?balance) = it_position it + n" using False by simp
      moreover have "if it_position ?it + (n - ?balance) \<le> buffer_size bs
        then \<exists>it'. advance_forward (n - ?balance) ?it = ret it' \<and> it_ok bs (it_position ?it + (n - ?balance)) it'
        else advance_forward (n - ?balance) ?it = undef OutOfBounds"
        by (rule less.hyps) (use less.prems b in \<open>auto simp: buffer_size_take_Suc\<close>)
      ultimately show ?thesis by (simp only:)
    qed
  qed
qed

lemma advance_back_ok:
  assumes "it_bufs it = bs" "it_current it \<le> length bs" "it_current it < length bs \<Longrightarrow> it_buffer it = bs ! it_current it \<and> it_offset it \<le> buf_size (it_buffer it)"
    "it_current it = length bs \<Longrightarrow> it_offset it = 0" "it_position it = buffer_size (take (it_current it) bs) + it_offset it"
    "0 < n" "n \<le> it_position it"
  shows "\<exists>it'. advance_back n it = ret it' \<and> it_ok bs (it_position it - n) it'"
  using assms
proof (induction "it_current it" arbitrary: it n rule: less_induct)
  case less
  let ?c = "it_current it"
  show ?case
  proof (cases "it_offset it \<ge> n")
    case True
    then have "?c < length bs" using less.prems by (auto simp: le_less)
    then show ?thesis using less.prems True by (subst advance_back.simps) (auto simp: it_ok_def)
  next
    case False
    let ?n = "n - it_offset it"
    have pos: "0 < buffer_size (take ?c bs)" using less.prems False by simp
    then obtain i where i: "i < ?c" "find_prev bs ?c = Some (i, bs ! i)" "0 < buf_size (bs ! i)"
      "buffer_size (take ?c bs) = buffer_size (take i bs) + buf_size (bs ! i)"
      using find_prev_found [OF less.prems(2)] by blast
    have "?c \<noteq> 0" using pos by (cases ?c) auto
    let ?it = "it\<lparr>it_position := it_position it - it_offset it, it_current := i, it_buffer := bs ! i, it_offset := buf_size (bs ! i)\<rparr>"
    have "advance_back n it = advance_back ?n ?it"
      using less.prems(1) False i \<open>?c \<noteq> 0\<close> by (subst advance_back.simps) (simp add: Let_def)
    moreover have "\<exists>it'. advance_back ?n ?it = ret it' \<and> it_ok bs (it_position ?it - ?n) it'"
      using less.hyps [of ?it ?n] less.prems False i by simp
    moreover have "it_position ?it - ?n = it_position it - n" using False less.prems by simp
    ultimately show ?thesis by simp
  qed
qed

lemma advance_ok:
  assumes "it_ok bs p it"
  shows "if 0 \<le> int p + n \<and> int p + n \<le> int (buffer_size bs) then \<exists>it'. it_advance n it = ret it' \<and> it_ok bs (nat (int p + n)) it'
    else it_advance n it = undef OutOfBounds"
proof -
  have pos: "it_position it = p" "p \<le> buffer_size bs" using assms it_ok_bounds [OF assms] by (auto simp: it_ok_def)
  consider "n > 0" | "n < 0" | "n = 0" by linarith
  then show ?thesis
  proof cases
    case 1
    then have n: "nat (int p + n) = p + nat n" "int p + n \<le> int (buffer_size bs) \<longleftrightarrow> p + nat n \<le> buffer_size bs" by linarith+
    show ?thesis
    proof (cases "it_at_end it")
      case True
      then show ?thesis using 1 n it_ok_bounds(2) [OF assms] by (auto simp: it_advance_def)
    next
      case False
      then have "it_current it < length bs" using assms by (auto simp: it_ok_def it_at_end_def)
      then show ?thesis using 1 n pos False assms advance_forward_ok [of it bs "nat n"]
        by (auto simp: it_advance_def it_ok_def less_imp_le)
    qed
  next
    case 2
    then have n: "nat (int p + n) = p - nat (- n)" "0 \<le> int p + n \<longleftrightarrow> nat (- n) \<le> p" by linarith+
    show ?thesis using 2 n pos assms advance_back_ok [of it bs "nat (- n)"]
      by (auto simp: it_advance_def it_ok_def less_imp_le not_less)
  next
    case 3
    then show ?thesis using assms pos by (auto simp: it_advance_def)
  qed
qed

lemma it_run_index:
  assumes "it_ok bs p it"
  shows "case index_run (buffer_size bs) ms p of None \<Rightarrow> it_run ms it = undef OutOfBounds
    | Some q \<Rightarrow> \<exists>it'. it_run ms it = ret it' \<and> it_ok bs q it'"
  using assms
proof (induction ms arbitrary: p it)
  case (Cons m ms)
  have p: "p \<le> buffer_size bs" by (rule it_ok_bounds(1) [OF Cons.prems])
  have step: "if 0 \<le> int p + move_distance m \<and> int p + move_distance m \<le> int (buffer_size bs)
      then \<exists>it'. it_run (m # ms) it = it_run ms it' \<and> it_ok bs (nat (int p + move_distance m)) it'
      else it_run (m # ms) it = undef OutOfBounds"
    using increment_ok [OF Cons.prems] decrement_ok [OF Cons.prems] advance_ok [OF Cons.prems, of "move_distance m"] p
    by (cases m) (auto simp: nat_add_distrib nat_diff_distrib split: if_splits)
  show ?case
  proof (cases "0 \<le> int p + move_distance m \<and> int p + move_distance m \<le> int (buffer_size bs)")
    case True
    then obtain it' where "it_run (m # ms) it = it_run ms it'" "it_ok bs (nat (int p + move_distance m)) it'" using step by auto
    then show ?thesis using Cons.IH [of "nat (int p + move_distance m)" it'] True
      by (simp add: Let_def del: it_run.simps split: option.splits)
  next
    case False
    then have "it_run (m # ms) it = undef OutOfBounds" using step by auto
    then show ?thesis using False by (auto simp: Let_def)
  qed
qed simp

text \<open>C24. The iterator is an index. Whatever moves are made from \<open>begin\<close>, over whatever buffers, empty ones included, they stand where
  the arithmetic on an index stands and give its byte of the concatenation; a move out of the bytes is caught by an assertion,
  and only such a move is. The end is reached exactly behind the last byte.\<close>

theorem buffers_iterator_is_index:
  "case index_run (buffer_size bs) ms 0 of
     None \<Rightarrow> it_run ms (it_begin bs) = undef OutOfBounds
   | Some p \<Rightarrow> \<exists>it. it_run ms (it_begin bs) = ret it \<and> it_distance_to (it_begin bs) it = int p
       \<and> (it_equal it (it_end bs) \<longleftrightarrow> p = buffer_size bs)
       \<and> (p < buffer_size bs \<longrightarrow> it_dereference it = ret (seq_addrs bs ! p))"
proof (cases "index_run (buffer_size bs) ms 0")
  case None
  then show ?thesis using it_run_index [OF it_begin_ok [of bs], of ms] by simp
next
  case (Some p)
  then obtain it where it: "it_run ms (it_begin bs) = ret it" "it_ok bs p it"
    using it_run_index [OF it_begin_ok [of bs], of ms] by auto
  have "it_position (it_begin bs) = 0" "it_position it = p" "it_position (it_end bs) = buffer_size bs"
    using it_begin_ok [of bs] it(2) it_end_ok [of bs] by (simp_all add: it_ok_def)
  then show ?thesis using Some it dereference_ok [OF it(2)] by (simp add: it_distance_to_def it_equal_def)
qed

lemma subscript_is_index:
  assumes "i < buffer_size bs"
  shows "it_subscript (int i) (it_begin bs) = ret (seq_addrs bs ! i)"
  using advance_ok [OF it_begin_ok, of "int i" bs] assms dereference_ok [of bs i] by (auto simp: it_subscript_def split: if_splits)

lemma buffers_iterator_is_index_witness:
  "\<exists>it. it_run [Advance 3, Decrement, Increment, Increment] (it_begin [Buf 10 0, Buf 20 2, Buf 0 0, Buf 30 5]) = ret it \<and> it_dereference it = ret 32"
  using buffers_iterator_is_index [where bs = "[Buf 10 0, Buf 20 2, Buf 0 0, Buf 30 5]" and ms = "[Advance 3, Decrement, Increment, Increment]"]
  by (auto simp: addrs_def)

end
