(* ===== verification/AsioConnect.thy ===== *)
theory AsioConnect
  imports AsioSys
begin

text \<open>
  Connecting a socket to the first endpoint of a sequence that accepts, in the vendored Asio:
  \<^verbatim>\<open>include/asio/impl/connect.hpp\<close>, the loop of \<open>connect\<close> and the operations \<open>range_connect_op\<close> and
  \<open>iterator_connect_op\<close> of \<open>async_connect\<close>. Iterators are indices into the sequence. The socket is a parameter:
  its state, and what \<open>close\<close>, \<open>connect\<close> and \<open>is_open\<close> do with it. A loop that does not end is \<open>None\<close>; with a
  condition that returns an iterator it may not.
\<close>

section \<open>Conditions and sockets\<close>

abbreviation not_found :: int where "not_found \<equiv> 3"   \<comment> \<open>of the category \<open>misc\<close>\<close>

text \<open>\<open>default_connect_condition\<close>, a condition on an endpoint, and the older kind that gives the next iterator. A condition is
  told the error of the last attempt.\<close>

datatype 'e connect_condition = Always | Accepts "int \<Rightarrow> 'e \<Rightarrow> bool" | Next_iterator "int \<Rightarrow> nat \<Rightarrow> nat"

fun next_accepted :: "('e \<Rightarrow> bool) \<Rightarrow> nat \<Rightarrow> 'e list \<Rightarrow> nat" where
  "next_accepted f next [] = next"
| "next_accepted f next (e # es) = (if f e then next else next_accepted f (Suc next) es)"

definition call_connect_condition :: "'e connect_condition \<Rightarrow> int \<Rightarrow> 'e list \<Rightarrow> nat \<Rightarrow> nat" where
  "call_connect_condition cond ec es next =
     (case cond of
        Always \<Rightarrow> next_accepted (\<lambda>_. True) next (drop next es)
      | Accepts f \<Rightarrow> next_accepted (f ec) next (drop next es)
      | Next_iterator f \<Rightarrow> if next \<noteq> length es then f ec next else length es)"

text \<open>\<open>check_condition\<close> of the operations: nothing is done for the default condition.\<close>

definition check_condition :: "'e connect_condition \<Rightarrow> int \<Rightarrow> 'e list \<Rightarrow> nat \<Rightarrow> nat" where
  "check_condition cond ec es iter = (case cond of Always \<Rightarrow> iter | _ \<Rightarrow> call_connect_condition cond ec es iter)"

record ('e, 's) connector =
  cn_close :: "'s \<Rightarrow> 's"
  cn_connect :: "'e \<Rightarrow> 's \<Rightarrow> int \<times> 's"
  cn_is_open :: "'s \<Rightarrow> bool"
  cn_cancelled :: "'s \<Rightarrow> bool"   \<comment> \<open>whether the composed operation was cancelled\<close>

section \<open>The loop\<close>

partial_function (option) connect_loop ::
  "('e, 's) connector \<Rightarrow> 'e connect_condition \<Rightarrow> 'e list \<Rightarrow> int \<Rightarrow> nat \<Rightarrow> 's \<Rightarrow> (nat \<times> int \<times> 's) option" where
  "connect_loop cn cond es ec iter s =
     (if iter \<noteq> length es then
        let iter = call_connect_condition cond ec es iter in
        if iter \<noteq> length es then
          (case cn_connect cn (es ! iter) (cn_close cn s) of
             (ec, s) \<Rightarrow> if ec = 0 then Some (iter, ec, s) else connect_loop cn cond es ec (iter + 1) s)
        else Some (length es, if ec = 0 then not_found else ec, s)
      else Some (length es, if ec = 0 then not_found else ec, s))"

definition connect_iter :: "('e, 's) connector \<Rightarrow> 'e connect_condition \<Rightarrow> 'e list \<Rightarrow> 's \<Rightarrow> (nat \<times> int \<times> 's) option" where
  "connect_iter cn cond es s = connect_loop cn cond es 0 0 s"

text \<open>The overload for sequences gives the endpoint, \<open>None\<close> standing for one constructed by default.\<close>

definition deref_connect_result :: "'e list \<Rightarrow> nat \<Rightarrow> int \<Rightarrow> 'e option" where
  "deref_connect_result es iter ec = (if ec \<noteq> 0 then None else Some (es ! iter))"

definition connect_seq :: "('e, 's) connector \<Rightarrow> 'e connect_condition \<Rightarrow> 'e list \<Rightarrow> 's \<Rightarrow> ('e option \<times> int \<times> 's) option" where
  "connect_seq cn cond es s = map_option (\<lambda>(iter, ec, s). (deref_connect_result es iter ec, ec, s)) (connect_iter cn cond es s)"

section \<open>The operations\<close>

text \<open>What an operation does when it is called: start a connect, post itself with \<open>not_found\<close>, or call the handler.\<close>

datatype connect_step = Connect nat | Post_not_found nat | Finish_connect int nat

definition connect_op_start :: "'e connect_condition \<Rightarrow> 'e list \<Rightarrow> connect_step" where
  "connect_op_start cond es = (let iter = check_condition cond 0 es 0 in if iter \<noteq> length es then Connect iter else Post_not_found iter)"

definition connect_op_resume :: "'e connect_condition \<Rightarrow> 'e list \<Rightarrow> bool \<Rightarrow> bool \<Rightarrow> int \<Rightarrow> nat \<Rightarrow> connect_step" where
  "connect_op_resume cond es is_open cancelled ec iter =
     (if iter = length es then Finish_connect ec iter
      else if \<not> is_open then Finish_connect operation_aborted iter
      else if ec = 0 then Finish_connect ec iter
      else if cancelled then Finish_connect operation_aborted iter
      else let iter = check_condition cond ec es (iter + 1) in
        if iter \<noteq> length es then Connect iter else Finish_connect ec iter)"

partial_function (option) connect_op_run ::
  "('e, 's) connector \<Rightarrow> 'e connect_condition \<Rightarrow> 'e list \<Rightarrow> connect_step \<Rightarrow> 's \<Rightarrow> (nat \<times> int \<times> 's) option" where
  "connect_op_run cn cond es step s =
     (case step of
        Connect iter \<Rightarrow> (case cn_connect cn (es ! iter) (cn_close cn s) of
          (ec, s) \<Rightarrow> connect_op_run cn cond es (connect_op_resume cond es (cn_is_open cn s) (cn_cancelled cn s) ec iter) s)
      | Post_not_found iter \<Rightarrow> connect_op_run cn cond es (connect_op_resume cond es (cn_is_open cn s) (cn_cancelled cn s) not_found iter) s
      | Finish_connect ec iter \<Rightarrow> Some (iter, ec, s))"

definition async_connect_iter :: "('e, 's) connector \<Rightarrow> 'e connect_condition \<Rightarrow> 'e list \<Rightarrow> 's \<Rightarrow> (nat \<times> int \<times> 's) option" where
  "async_connect_iter cn cond es s = connect_op_run cn cond es (connect_op_start cond es) s"

definition async_connect_seq :: "('e, 's) connector \<Rightarrow> 'e connect_condition \<Rightarrow> 'e list \<Rightarrow> 's \<Rightarrow> ('e option \<times> int \<times> 's) option" where
  "async_connect_seq cn cond es s =
     map_option (\<lambda>(iter, ec, s). (if ec \<noteq> 0 \<or> iter = length es then None else Some (es ! iter), ec, s)) (async_connect_iter cn cond es s)"

section \<open>Properties\<close>

text \<open>What connecting amounts to, for a condition on endpoints: try those it accepts in order, until one connects.\<close>

fun try_endpoints :: "('e, 's) connector \<Rightarrow> (int \<Rightarrow> 'e \<Rightarrow> bool) \<Rightarrow> int \<Rightarrow> nat \<Rightarrow> 'e list \<Rightarrow> 's \<Rightarrow> nat \<times> int \<times> 's" where
  "try_endpoints cn f ec i [] s = (i, ec, s)"
| "try_endpoints cn f ec i (e # es) s =
     (if f ec e then (case cn_connect cn e (cn_close cn s) of (ec', s') \<Rightarrow> if ec' = 0 then (i, 0, s') else try_endpoints cn f ec' (Suc i) es s')
      else try_endpoints cn f ec (Suc i) es s)"

definition or_not_found :: "nat \<times> int \<times> 's \<Rightarrow> nat \<Rightarrow> nat \<times> int \<times> 's" where
  "or_not_found r n = (case r of (i, ec, s) \<Rightarrow> (i, if ec = 0 \<and> i = n then not_found else ec, s))"

definition accepts :: "'e connect_condition \<Rightarrow> int \<Rightarrow> 'e \<Rightarrow> bool" where
  "accepts cond ec = (case cond of Accepts f \<Rightarrow> f ec | _ \<Rightarrow> (\<lambda>_. True))"

definition on_endpoints :: "'e connect_condition \<Rightarrow> bool" where
  "on_endpoints cond \<longleftrightarrow> (case cond of Next_iterator f \<Rightarrow> False | _ \<Rightarrow> True)"

lemma next_accepted_spec:
  "i \<le> length es \<Longrightarrow> next_accepted f i (drop i es) =
     (if i < length es then if f (es ! i) then i else next_accepted f (Suc i) (drop (Suc i) es) else i)"
  by (cases "i < length es") (simp_all add: Cons_nth_drop_Suc[symmetric])

lemma call_condition_eq: "on_endpoints cond \<Longrightarrow> call_connect_condition cond ec es i = next_accepted (accepts cond ec) i (drop i es)"
  by (cases cond) (simp_all add: on_endpoints_def call_connect_condition_def accepts_def)

lemma next_accepted_le: "i \<le> length es \<Longrightarrow> next_accepted f i (drop i es) \<le> length es"
  by (induction "length es - i" arbitrary: i) (auto simp: next_accepted_spec)

lemma check_condition_eq: "on_endpoints cond \<Longrightarrow> i \<le> length es \<Longrightarrow> check_condition cond ec es i = call_connect_condition cond ec es i"
  by (cases cond) (auto simp: on_endpoints_def check_condition_def call_connect_condition_def next_accepted_spec)

lemma try_endpoints_skip:
  "i \<le> length es \<Longrightarrow> try_endpoints cn f ec i (drop i es) s =
     (let j = next_accepted (f ec) i (drop i es) in
      if j = length es then (j, ec, s)
      else case cn_connect cn (es ! j) (cn_close cn s) of (ec', s') \<Rightarrow> if ec' = 0 then (j, 0, s') else try_endpoints cn f ec' (Suc j) (drop (Suc j) es) s')"
proof (induction "length es - i" arbitrary: i)
  case (Suc n)
  then have i: "i < length es" by simp
  show ?case
  proof (cases "f ec (es ! i)")
    case True
    then show ?thesis using i by (simp add: Cons_nth_drop_Suc[symmetric])
  next
    case False
    then show ?thesis using i Suc by (simp add: Cons_nth_drop_Suc[symmetric])
  qed
qed simp

lemma next_accepted_ge: "i \<le> next_accepted f i xs"
  by (induction xs arbitrary: i) (auto intro: Suc_leD)

lemma next_accepted_found:
  assumes "on_endpoints cond" "i \<le> length es"
  shows "call_connect_condition cond ec es i \<le> length es" "i \<le> call_connect_condition cond ec es i"
  using next_accepted_le [OF assms(2), of "accepts cond ec"] next_accepted_ge [of i "accepts cond ec" "drop i es"] assms(1)
  by (simp_all add: call_condition_eq)

lemma try_endpoints_next:
  assumes "on_endpoints cond" "i \<le> length es" "k = call_connect_condition cond ec es i"
  shows "try_endpoints cn (accepts cond) ec i (drop i es) s =
    (if k = length es then (k, ec, s)
     else case cn_connect cn (es ! k) (cn_close cn s) of (ec', s') \<Rightarrow>
       if ec' = 0 then (k, 0, s') else try_endpoints cn (accepts cond) ec' (Suc k) (drop (Suc k) es) s')"
  unfolding assms(3) call_condition_eq [OF assms(1)] try_endpoints_skip [OF assms(2)] Let_def by (rule refl)

lemma connect_loop_eq:
  assumes "on_endpoints cond" "i \<le> length es"
  shows "connect_loop cn cond es ec i s = Some (or_not_found (try_endpoints cn (accepts cond) ec i (drop i es) s) (length es))"
  using assms(2)
proof (induction "length es - i" arbitrary: i ec s rule: less_induct)
  case less
  let ?j = "call_connect_condition cond ec es i"
  have j: "?j \<le> length es" "i \<le> ?j" using next_accepted_found [OF assms(1) less.prems] by auto
  have at_end: "call_connect_condition cond ec es (length es) = length es" using assms(1) by (simp add: call_condition_eq)
  show ?case
  proof (cases "?j = length es")
    case True
    then have "connect_loop cn cond es ec i s = Some (length es, if ec = 0 then not_found else ec, s)"
      by (subst connect_loop.simps) (simp add: Let_def)
    then show ?thesis using try_endpoints_next [OF assms(1) less.prems refl, where cn = cn and ec = ec and s = s] True by (simp add: or_not_found_def)
  next
    case False
    then have i: "i \<noteq> length es" using at_end by auto
    obtain ec' s' where c: "cn_connect cn (es ! ?j) (cn_close cn s) = (ec', s')" by fastforce
    have "connect_loop cn cond es ec i s = (if ec' = 0 then Some (?j, 0, s') else connect_loop cn cond es ec' (?j + 1) s')"
      using i False c by (subst connect_loop.simps) (simp add: Let_def)
    moreover have "try_endpoints cn (accepts cond) ec i (drop i es) s =
        (if ec' = 0 then (?j, 0, s') else try_endpoints cn (accepts cond) ec' (Suc ?j) (drop (Suc ?j) es) s')"
      using False c try_endpoints_next [OF assms(1) less.prems refl, where cn = cn and ec = ec and s = s] by simp
    moreover have "connect_loop cn cond es ec' (Suc ?j) s' = Some (or_not_found (try_endpoints cn (accepts cond) ec' (Suc ?j) (drop (Suc ?j) es) s') (length es))"
      using j False by (intro less.hyps) auto
    ultimately show ?thesis using j False by (simp add: or_not_found_def)
  qed
qed

text \<open>A socket that an attempt leaves open, and an operation that nobody cancels.\<close>

definition undisturbed :: "('e, 's) connector \<Rightarrow> bool" where
  "undisturbed cn \<longleftrightarrow> (\<forall>e s. case cn_connect cn e s of (ec, s') \<Rightarrow> cn_is_open cn s' \<and> \<not> cn_cancelled cn s')"

lemma connect_op_run_eq:
  assumes "on_endpoints cond" "undisturbed cn" "j < length es"
  shows "connect_op_run cn cond es (Connect j) s =
    (case cn_connect cn (es ! j) (cn_close cn s) of (ec, s') \<Rightarrow>
      Some (if ec = 0 then (j, 0, s') else try_endpoints cn (accepts cond) ec (Suc j) (drop (Suc j) es) s'))"
  using assms(3)
proof (induction "length es - j" arbitrary: j s rule: less_induct)
  case less
  obtain ec s' where c: "cn_connect cn (es ! j) (cn_close cn s) = (ec, s')" by fastforce
  have still: "cn_is_open cn s'" "\<not> cn_cancelled cn s'"
    using assms(2) c unfolding undisturbed_def by (auto split: prod.splits)
  let ?k = "call_connect_condition cond ec es (Suc j)"
  have k: "?k \<le> length es" "Suc j \<le> ?k" using next_accepted_found [OF assms(1), of "Suc j" es ec] less.prems by auto
  have check: "check_condition cond ec es (Suc j) = ?k" using check_condition_eq [OF assms(1)] less.prems by simp
  have run: "connect_op_run cn cond es (Connect j) s = connect_op_run cn cond es (connect_op_resume cond es True False ec j) s'"
    using c still by (subst connect_op_run.simps) simp
  have finish: "connect_op_run cn cond es (Finish_connect e i) s' = Some (i, e, s')" for e i
    by (subst connect_op_run.simps) simp
  have skip: "try_endpoints cn (accepts cond) ec (Suc j) (drop (Suc j) es) s' =
      (if ?k = length es then (?k, ec, s')
       else case cn_connect cn (es ! ?k) (cn_close cn s') of (ec', s'') \<Rightarrow>
         if ec' = 0 then (?k, 0, s'') else try_endpoints cn (accepts cond) ec' (Suc ?k) (drop (Suc ?k) es) s'')"
    by (rule try_endpoints_next [OF assms(1) _ refl]) (use less.prems in simp)
  consider "ec = 0" | "ec \<noteq> 0" "?k = length es" | "ec \<noteq> 0" "?k < length es" using k by linarith
  then show ?case
  proof cases
    case 1
    then show ?thesis using run c less.prems finish by (simp add: connect_op_resume_def)
  next
    case 2
    then show ?thesis using run c less.prems finish check skip by (simp add: connect_op_resume_def)
  next
    case 3
    then have "connect_op_run cn cond es (Connect j) s = connect_op_run cn cond es (Connect ?k) s'"
      using run less.prems check by (simp add: connect_op_resume_def)
    also have "\<dots> = (case cn_connect cn (es ! ?k) (cn_close cn s') of (ec, s'') \<Rightarrow>
      Some (if ec = 0 then (?k, 0, s'') else try_endpoints cn (accepts cond) ec (Suc ?k) (drop (Suc ?k) es) s''))"
      using 3 k less.prems by (intro less.hyps) auto
    finally show ?thesis using 3 c skip by (auto split: prod.splits)
  qed
qed

lemma try_endpoints_failed:
  "ec \<noteq> 0 \<Longrightarrow> try_endpoints cn f ec i es s = (j, ec', s') \<Longrightarrow> ec' = 0 \<Longrightarrow> j < i + length es"
  by (induction es arbitrary: ec i s) (fastforce split: if_splits prod.splits)+

lemma try_endpoints_outcome:
  "try_endpoints cn f ec i es s = (j, ec', s') \<Longrightarrow> i \<le> j \<and> j \<le> i + length es \<and> (j < i + length es \<longrightarrow> ec' = 0)"
  by (induction es arbitrary: ec i s) (fastforce split: if_splits prod.splits)+

text \<open>Connecting tries the endpoints that the condition accepts, in order, each on a freshly closed socket, and ends with the first that
  connects, or with the error of the last attempt, or with \<open>not_found\<close> when there was none; the asynchronous operation ends with
  the same, unless it is cancelled or the socket is closed under it.\<close>

theorem connect_tries_in_order:
  assumes "on_endpoints cond"
  shows "\<exists>iter ec s'. connect_iter cn cond es s = Some (iter, ec, s')
    \<and> (iter, ec, s') = or_not_found (try_endpoints cn (accepts cond) 0 0 es s) (length es)
    \<and> (ec = 0 \<longleftrightarrow> iter < length es) \<and> iter \<le> length es
    \<and> (undisturbed cn \<longrightarrow> async_connect_iter cn cond es s = Some (iter, ec, s'))"
proof -
  obtain iter ec s' where r: "or_not_found (try_endpoints cn (accepts cond) 0 0 es s) (length es) = (iter, ec, s')" by (metis prod_cases3)
  obtain j e t where t: "try_endpoints cn (accepts cond) 0 0 es s = (j, e, t)" by (metis prod_cases3)
  have jt: "j \<le> length es" "j < length es \<longrightarrow> e = 0" using try_endpoints_outcome [OF t] by auto
  have sync: "connect_iter cn cond es s = Some (iter, ec, s')"
    using connect_loop_eq [OF assms, of 0 es cn 0 s] r by (simp add: connect_iter_def)
  have outcome: "(ec = 0 \<longleftrightarrow> iter < length es) \<and> iter \<le> length es" using r t jt by (auto simp: or_not_found_def split: if_splits)
  have "async_connect_iter cn cond es s = Some (iter, ec, s')" if u: "undisturbed cn"
  proof -
    let ?k = "call_connect_condition cond 0 es 0"
    have k: "?k \<le> length es" using next_accepted_found [OF assms, of 0 es 0] by simp
    have check: "check_condition cond 0 es 0 = ?k" using check_condition_eq [OF assms, of 0 es 0] by simp
    have skip: "try_endpoints cn (accepts cond) 0 0 es s =
      (if ?k = length es then (?k, 0, s)
       else case cn_connect cn (es ! ?k) (cn_close cn s) of (ec', s'') \<Rightarrow>
         if ec' = 0 then (?k, 0, s'') else try_endpoints cn (accepts cond) ec' (Suc ?k) (drop (Suc ?k) es) s'')"
      using try_endpoints_next [OF assms _ refl, where i = 0 and ec = 0 and es = es and cn = cn and s = s] by simp
    show ?thesis
    proof (cases "?k = length es")
      case True
      have "async_connect_iter cn cond es s = connect_op_run cn cond es (Post_not_found (length es)) s"
        using True check by (simp add: async_connect_iter_def connect_op_start_def)
      also have "\<dots> = Some (length es, not_found, s)"
        by (subst connect_op_run.simps) (simp add: connect_op_resume_def connect_op_run.simps)
      finally show ?thesis using r skip True by (simp add: or_not_found_def)
    next
      case False
      obtain ec1 s1 where c: "cn_connect cn (es ! ?k) (cn_close cn s) = (ec1, s1)" by fastforce
      have "async_connect_iter cn cond es s = Some (try_endpoints cn (accepts cond) 0 0 es s)"
        using False check connect_op_run_eq [OF assms u, of ?k es s] k skip c
        by (simp add: async_connect_iter_def connect_op_start_def Let_def)
      moreover have "e = 0 \<Longrightarrow> j \<noteq> length es"
        using t skip False c k try_endpoints_failed [of ec1 cn "accepts cond" "Suc ?k" "drop (Suc ?k) es" s1 j e t] by (auto split: if_splits)
      then have "or_not_found (try_endpoints cn (accepts cond) 0 0 es s) (length es) = try_endpoints cn (accepts cond) 0 0 es s"
        using t by (auto simp: or_not_found_def)
      ultimately show ?thesis using r by simp
    qed
  qed
  then show ?thesis using sync r outcome by auto
qed

text \<open>An operation that is cancelled, or whose socket is closed, hands over the iterator it stands at, not the end of the sequence.\<close>

lemma connect_aborted_iterator:
  assumes "iter < length es" "\<not> is_open \<or> cancelled \<and> ec \<noteq> 0"
  shows "connect_op_resume cond es is_open cancelled ec iter = Finish_connect operation_aborted iter"
  using assms by (auto simp: connect_op_resume_def)

text \<open>A run: the first endpoint is refused by the condition, the second by the peer, the third connects.\<close>

definition third_listens :: "(nat, nat list) connector" where
  "third_listens = \<lparr>cn_close = (\<lambda>s. s), cn_connect = (\<lambda>e s. (if e = 30 then 0 else 111, s @ [e])), cn_is_open = (\<lambda>s. True), cn_cancelled = (\<lambda>s. False)\<rparr>"

lemma connect_third: "async_connect_iter third_listens (Accepts (\<lambda>ec e. e \<noteq> 10)) [10, 20, 30, 40] [] = Some (2, 0, [20, 30])"
  using connect_tries_in_order [of "Accepts (\<lambda>ec e. e \<noteq> 10)" third_listens "[10, 20, 30, 40]" "[]"]
  by (simp add: on_endpoints_def third_listens_def undisturbed_def accepts_def or_not_found_def)

end
