(* ===== verification/Spec2Isabelle.thy ===== *)
theory Spec2Isabelle
  imports MarketSystem Benchmarks AsioSignals AsioTimers FeedRun AsioStrand AsioEndpoint AsioDynamicIO AsioMemory AsioServices AsioChannel AsioBuffersIterator AsioConnect
begin

text \<open>
  Market-Data-Handler: a verification development.

  \<^bold>\<open>The program.\<close> A UDP feed of binary order messages is received by a network thread, put into a single-producer
  single-consumer ring, and taken off by an engine thread that keeps a limit order book (\<^verbatim>\<open>src/main.cpp\<close>,
  \<^verbatim>\<open>include/*.h\<close>). The network thread runs the vendored Asio library (\<^verbatim>\<open>include/asio\<close>): a socket, its
  receive operation, the epoll reactor, the scheduler behind \<open>io_context\<close>, and a signal set that stops the program.

  \<^bold>\<open>Theories of the program proper\<close>, each beside the code it models:

  \<^item> \<open>Prelude\<close>: computations that may not return or may be undefined, vectors with checked access, pointers as indices.
  \<^item> \<open>PriceBitSet\<close> (\<^verbatim>\<open>PriceBitSet.h\<close>): the three-level bitmap. The locale \<open>price_index\<close> states what the book needs of
    it, a set of prices with its extremes.
  \<^item> \<open>OrderPool\<close>, \<open>OrderList\<close>, \<open>OrderBook\<close> (\<^verbatim>\<open>OrderBook.h\<close>): pool, intrusive lists, and the three operations of
    the book statement by statement. \<open>OrderBookSpec\<close> is the abstract book with price-time priority; \<open>OrderBookInv\<close>,
    \<open>OrderBookMatch\<close>, \<open>OrderBookOps\<close> hold the invariant and the refinement; \<open>OrderBookLimits\<close> and
    \<open>OrderBookFailures\<close> the inputs outside the contract; \<open>OrderBookInterface\<close> the locale the engine relies on.
  \<^item> \<open>SPSCQueue\<close> (\<^verbatim>\<open>SPSCQueue.h\<close>): the ring one call at a time; \<open>SPSCConcurrent\<close>: every access to shared
    memory a step of one of two threads, with the reachable states as an inductive set.
  \<^item> \<open>Protocol\<close> (\<^verbatim>\<open>Protocol.h\<close>, \<^verbatim>\<open>scripts/simulator.py\<close>): the wire format and its encoder.
  \<^item> \<open>FeedHandler\<close> (\<^verbatim>\<open>FeedHandler.h\<close>), \<open>MatchingEngine\<close> and \<open>MarketSystem\<close> (\<^verbatim>\<open>src/main.cpp\<close>): the
    completion handler, the engine loop with its latency report, and both threads together.
  \<^item> \<open>Benchmarks\<close>, \<open>BookTests\<close>: the benchmark loops and the unit tests, executed.

  \<^bold>\<open>Theories of Asio\<close>, in the configuration Linux selects (epoll, \<open>eventfd\<close>, \<open>timerfd\<close>):

  \<^item> \<open>AsioOpQueue\<close>, \<open>AsioObjectPool\<close>: the intrusive operation queue (locale \<open>intrusive_queue\<close>) and the pool of
    descriptor states. \<open>AsioSys\<close>: the system calls of the reactor, fields of a record over a kernel of any type.
  \<^item> \<open>AsioScheduler\<close> (\<^verbatim>\<open>detail/impl/scheduler.ipp\<close>), \<open>AsioReactor\<close> (\<^verbatim>\<open>epoll_reactor.ipp\<close>), \<open>AsioTimerQueue\<close> and
    \<open>AsioTimers\<close> (\<^verbatim>\<open>timer_queue.hpp\<close>, \<^verbatim>\<open>epoll_reactor.hpp\<close>; the locale \<open>timer_queue_base\<close> is what the reactor
    relies on), \<open>AsioSignals\<close> (\<^verbatim>\<open>signal_set_service.ipp\<close>).
  \<^item> \<open>AsioSocketOps\<close> (\<^verbatim>\<open>socket_ops.ipp\<close>), \<open>AsioSockets\<close> (\<^verbatim>\<open>reactive_socket_service*\<close>), and the feed handler
    on top of them: \<open>FeedSocket\<close> is the model of the whole path from \<open>recvfrom\<close> to the ring, \<open>FeedRun\<close> what rounds of
    the scheduler do on it.
    \<open>AsioConnect\<close> (\<^verbatim>\<open>impl/connect.hpp\<close>): connecting to the first endpoint of a sequence that accepts.
  \<^item> \<open>AsioStrand\<close> (\<^verbatim>\<open>strand_executor_service.*\<close>, \<^verbatim>\<open>strand_service.*\<close>): one strand under any number of threads.
  \<^item> \<open>AsioAddress\<close>, \<open>AsioNetwork\<close>, \<open>AsioEndpoint\<close> (\<^verbatim>\<open>ip/\<close>): addresses, iterators, ranges, networks, endpoints.
  \<^item> \<open>AsioBuffers\<close> (\<^verbatim>\<open>buffer.hpp\<close>, \<^verbatim>\<open>detail/consuming_buffers.hpp\<close>), \<open>AsioReadWrite\<close> (\<^verbatim>\<open>impl/read.hpp\<close>,
    \<^verbatim>\<open>impl/write.hpp\<close>, \<^verbatim>\<open>completion_condition.hpp\<close>): copying between sequences of buffers and the composed
    operations on them; the locale \<open>consumer\<close> is what the operations rely on, with the three kinds of consuming buffers as
    its interpretations. \<open>AsioBuffersIterator\<close> (\<^verbatim>\<open>buffers_iterator.hpp\<close>): the iterator over the bytes of a
    sequence, against an index into their concatenation. \<open>AsioDynamic\<close> (\<^verbatim>\<open>buffer.hpp\<close>, \<^verbatim>\<open>basic_streambuf.hpp\<close>), \<open>AsioReadUntil\<close>
    (\<^verbatim>\<open>impl/read_until.hpp\<close>), \<open>AsioDynamicIO\<close>: buffers that grow, behind the locale \<open>growing\<close>, and the operations
    that read into them and write from them.
  \<^item> \<open>AsioMemory\<close> (\<^verbatim>\<open>detail/thread_info_base.hpp\<close>, \<^verbatim>\<open>impl/cancellation_signal.ipp\<close>): the memory of handlers,
    recycled by each thread, with any sequence of clients' calls as an inductive set. \<open>AsioServices\<close>
    (\<^verbatim>\<open>detail/impl/service_registry.ipp\<close>, \<^verbatim>\<open>impl/execution_context.*\<close>): the services of a context under any number
    of threads, and its allocator.
  \<^item> \<open>AsioChannelBuffers\<close>, \<open>AsioChannel\<close> (\<^verbatim>\<open>experimental/detail/channel_service.hpp\<close> and its operations): channels of
    messages, over any buffer that satisfies the locale \<open>channel_buffer\<close>; a deque, a counter and run lengths do.

  \<^bold>\<open>What is shown.\<close> The book refines price-time priority, with exact best prices and no crossed book; the ring is FIFO,
  race free and wait free under all interleavings; from the feed to the book nothing is lost, duplicated or reordered
  except what the ring refuses for want of room, which the counters report; every datagram the kernel hands over reaches
  the handler once and in order. For Asio: the scheduler and the reactor account for outstanding work, timers fire in
  order, no signal is lost, cancelled operations complete once, the blocking mode is tracked, strands exclude, order and
  drain their functions, and address arithmetic by bytes agrees with the arithmetic of 32- and 128-bit numbers; composed
  reads and writes move the bytes once and in order, the asynchronous ones as the synchronous ones, a stream buffer is a queue of
  bytes, a search that goes on where it stopped finds the first match, and recycled memory is never shared or
  overrun; a channel keeps the order of its messages, loses none and completes every operation once. The failure theorems state where the code does not return or is undefined.

  \<^bold>\<open>Termination, bounds and fuel.\<close> Loops that may not end (the matching loops, the retry loops of the socket functions,
  the engine and scheduler loops) are \<open>partial_function (option)\<close> or fuel, with theorems that they return under stated
  conditions and, where they do not, that they never do. Fuel appears in two places: the heap loop of the timer queue
  takes the length of the heap, the loops over all descriptor states the number of states ever allocated; both bound the
  number of iterations. Integers keep their width wherever the code can overflow.

  \<^bold>\<open>Not modelled, and why.\<close> Locks of Asio outside the strands and the service registry (one thread runs the
  \<open>io_context\<close> in this program); exceptions thrown by handlers; emitting cancellation signals; the Windows, \<open>io_uring\<close>, \<open>kqueue\<close>, \<open>select\<close> and \<open>/dev/poll\<close> branches, which
  are not compiled; name resolution, TLS, serial ports, files, coroutines and type-erased executors, which the program does
  not use; printing and iostreams; the conversion of cycles to nanoseconds; thread pinning; the load loop of the simulator.
  Memory orders are modelled as sequentially consistent accesses with the ownership of slots proved, so that the
  acquire/release pairs of the ring suffice; weaker behaviours are not.
\<close>

end
